(* ===== verification/Kernel_Prelude.thy ===== *)
theory Kernel_Prelude
  imports Main "HOL-Library.Word"
begin

unbundle bit_operations_syntax

text \<open>
  Shared vocabulary of the development: the C integer types as words, the ways a
  C function can end (a value, a negative errno, undefined behaviour), byte-addressed
  memory with little-endian multi-byte accesses, and the generic lemmas on words,
  lists and memory the component theories use.
\<close>

section \<open>Machine types and results\<close>

type_synonym u8 = "8 word"
type_synonym u16 = "16 word"
type_synonym u32 = "32 word"
type_synonym u64 = "64 word"

text \<open>The error numbers the modelled functions return (negated) to their callers.\<close>

datatype errno = EPERM | ENOENT | EINTR | EIO | E2BIG | EAGAIN | ENOMEM | EACCES | EFAULT
  | EBUSY | EEXIST | EINVAL | ENOSPC | ERANGE | ESRCH | EOVERFLOW | EBADF | ENFILE

text \<open>
  The undefined behaviour the C code would run into: reading an instruction or array
  element outside its array, a register number outside the register file, an access to an
  unmapped address, a shift by at least the operand's width, a division by zero, a
  violated \<open>BUG_ON\<close>.
\<close>

datatype fault = BadPc | BadReg | BadMem | BadShift | DivZero | BadIndex | BugOn

datatype 'a result = Ok 'a | Err errno | Undef fault

fun rbind :: "'a result \<Rightarrow> ('a \<Rightarrow> 'b result) \<Rightarrow> 'b result" where
  "rbind (Ok x) f = f x"
| "rbind (Err e) f = Err e"
| "rbind (Undef u) f = Undef u"

fun is_ok :: "'a result \<Rightarrow> bool" where
  "is_ok (Ok x) = True"
| "is_ok r = False"

lemma rbind_eq_Ok_iff [simp]: "rbind r f = Ok y \<longleftrightarrow> (\<exists>x. r = Ok x \<and> f x = Ok y)"
  by (cases r) auto

lemma is_ok_iff: "is_ok r \<longleftrightarrow> (\<exists>x. r = Ok x)"
  by (cases r) auto

text \<open>A computation that may not end (\<open>None\<close>), fail, or succeed.\<close>

type_synonym 'a run = "'a result option"

definition sbind :: "'a run \<Rightarrow> ('a \<Rightarrow> 'b run) \<Rightarrow> 'b run" where
  "sbind m f = (case m of None \<Rightarrow> None | Some (Ok x) \<Rightarrow> f x | Some (Err e) \<Rightarrow> Some (Err e) | Some (Undef u) \<Rightarrow> Some (Undef u))"

lemma sbind_Some_Ok [simp]: "sbind (Some (Ok x)) f = f x"
  by (simp add: sbind_def)

lemma sbind_eq_Some_Ok_iff: "sbind r f = Some (Ok y) \<longleftrightarrow> (\<exists>x. r = Some (Ok x) \<and> f x = Some (Ok y))"
  by (auto simp: sbind_def split: option.splits result.splits)

section \<open>Widening and narrowing casts\<close>

named_theorems cast_simps \<open>rewriting of nested C casts\<close>
named_theorems mem_simps \<open>loads after stores\<close>

lemma ucast_u32_u64_u32 [simp, cast_simps]: "ucast (ucast (a :: u32) :: u64) = a"
  by (rule bit_word_eqI) (simp add: bit_simps)

lemma ucast_u16_u64_u16 [simp, cast_simps]: "ucast (ucast (a :: u16) :: u64) = a"
  by (rule bit_word_eqI) (simp add: bit_simps)

lemma ucast_u8_u64_u8 [simp, cast_simps]: "ucast (ucast (a :: u8) :: u64) = a"
  by (rule bit_word_eqI) (simp add: bit_simps)

lemma ucast_u32_u64_inject [simp, cast_simps]:
  "(ucast (a :: u32) :: u64) = ucast b \<longleftrightarrow> a = b"
  by (metis ucast_u32_u64_u32)

lemma scast_u32_u64_u32 [simp, cast_simps]: "ucast (scast (a :: u32) :: u64) = a"
  by (rule bit_word_eqI) (simp add: bit_simps)

lemma uint_ucast_u32_u64 [simp, cast_simps]: "uint (ucast (a :: u32) :: u64) = uint a"
  by (simp add: unsigned_ucast_eq take_bit_int_eq_self_iff)
    (rule order_less_le_trans [OF uint_lt2p], simp)

lemma unat_ucast_u32_u64 [simp, cast_simps]: "unat (ucast (a :: u32) :: u64) = unat a"
  by (simp only: unat_eq_nat_uint uint_ucast_u32_u64)

lemma ucast_u32_u64_less [simp, cast_simps]:
  "(ucast (a :: u32) :: u64) < ucast b \<longleftrightarrow> a < b"
  by (simp add: word_less_def)

lemma ucast_u32_u64_le [simp, cast_simps]:
  "(ucast (a :: u32) :: u64) \<le> ucast b \<longleftrightarrow> a \<le> b"
  by (simp add: word_le_def)

lemma ucast_u32_u64_and [cast_simps]:
  "(ucast (a :: u32) :: u64) AND ucast b = ucast (a AND b)"
  by (rule bit_word_eqI) (auto simp: bit_simps)

lemma ucast_u32_u64_eq_0 [simp, cast_simps]: "(ucast (a :: u32) :: u64) = 0 \<longleftrightarrow> a = 0"
  by (metis ucast_0 ucast_u32_u64_inject)

lemma mod_add_mod_dvd: "c dvd d \<Longrightarrow> (x mod d + y mod d) mod c = (x + y) mod (c :: int)"
  by (metis mod_add_eq mod_mod_cancel)

lemma ucast_add_u64_u32 [cast_simps]: "(ucast (a + b :: u64) :: u32) = ucast a + ucast b"
  by transfer (simp add: take_bit_eq_mod mod_add_mod_dvd mod_mod_cancel)

lemma sint_nonneg_eq_uint:
  assumes "0 \<le> sint (a :: 'a::len word)"
  shows "sint a = uint a"
proof -
  have "sint a < 2 ^ (LENGTH('a) - 1)" by (rule sint_lt)
  also have "\<dots> \<le> (2 :: int) ^ LENGTH('a)" by (rule power_increasing) auto
  finally show ?thesis using assms by (simp add: uint_sint take_bit_eq_mod)
qed

lemma scast_eq_ucast_nonneg:
  assumes "0 \<le> sint (a :: u32)"
  shows "(scast a :: u64) = ucast a"
  by (simp only: scast_eq ucast_eq sint_nonneg_eq_uint [OF assms])

lemma unat_ucast_u8_u32 [simp, cast_simps]: "unat (ucast (j :: u8) :: u32) = unat j"
  by (simp add: unsigned_ucast_eq take_bit_nat_eq_self_iff)
    (rule order_less_le_trans [OF unsigned_less], simp)

section \<open>Suffixes of a list\<close>

text \<open>A loop over an array visits the suffixes \<open>drop i xs\<close>.\<close>

lemma drop_eq_ConsD:
  assumes "x # ys = drop i xs"
  shows "i < length xs" and "x = xs ! i" and "ys = drop (Suc i) xs"
proof -
  show i: "i < length xs" using assms by (metis drop_all leI list.distinct(1))
  have "x # ys = xs ! i # drop (Suc i) xs" using assms Cons_nth_drop_Suc [OF i] by (simp only:)
  then show "x = xs ! i" and "ys = drop (Suc i) xs" by simp_all
qed

section \<open>Byte-addressed memory\<close>

text \<open>
  Memory maps an address to a byte, or to nothing where no object lives; a multi-byte
  access is the sequence of its bytes, least significant first (the little-endian
  configuration of the kernel).
\<close>

type_synonym mem = "u64 \<Rightarrow> u8 option"

fun mread :: "mem \<Rightarrow> u64 \<Rightarrow> nat \<Rightarrow> u8 list option" where
  "mread m a 0 = Some []"
| "mread m a (Suc n) =
     (case m a of None \<Rightarrow> None
      | Some b \<Rightarrow> (case mread m (a + 1) n of None \<Rightarrow> None | Some bs \<Rightarrow> Some (b # bs)))"

fun mwrite :: "mem \<Rightarrow> u64 \<Rightarrow> u8 list \<Rightarrow> mem option" where
  "mwrite m a [] = Some m"
| "mwrite m a (b # bs) =
     (case m a of None \<Rightarrow> None | Some _ \<Rightarrow> mwrite (m(a := Some b)) (a + 1) bs)"

fun le_bytes :: "nat \<Rightarrow> u64 \<Rightarrow> u8 list" where
  "le_bytes 0 w = []"
| "le_bytes (Suc n) w = ucast w # le_bytes n (drop_bit 8 w)"

fun of_le :: "u8 list \<Rightarrow> u64" where
  "of_le [] = 0"
| "of_le (b # bs) = ucast b OR push_bit 8 (of_le bs)"

fun of_be :: "u64 \<Rightarrow> u8 list \<Rightarrow> u64" where
  "of_be acc [] = acc"
| "of_be acc (b # bs) = of_be (push_bit 8 acc OR ucast b) bs"

definition load :: "mem \<Rightarrow> u64 \<Rightarrow> nat \<Rightarrow> u64 option" where
  "load m a n = map_option of_le (mread m a n)"

definition store :: "mem \<Rightarrow> u64 \<Rightarrow> nat \<Rightarrow> u64 \<Rightarrow> mem option" where
  "store m a n v = mwrite m a (le_bytes n v)"

lemma length_le_bytes [simp]: "length (le_bytes n w) = n"
  by (induction n arbitrary: w) auto

lemma of_le_le_bytes: "of_le (le_bytes n w) = take_bit (8 * n) w"
proof (induction n arbitrary: w)
  case 0
  then show ?case by simp
next
  case (Suc n)
  have "ucast (ucast w :: u8) OR push_bit 8 (take_bit (8 * n) (drop_bit 8 w)) = take_bit (8 + 8 * n) w"
    by (rule bit_word_eqI) (auto simp: bit_simps)
  with Suc show ?case by simp
qed

lemma of_le_take_bit: "length bs \<le> 8 \<Longrightarrow> take_bit (8 * length bs) (of_le bs) = of_le bs"
proof (induction bs)
  case (Cons b bs)
  then have IH: "take_bit (8 * length bs) (of_le bs) = of_le bs" by simp
  have "take_bit (8 + 8 * length bs) (ucast b OR push_bit 8 (take_bit (8 * length bs) (of_le bs)) :: u64) =
    ucast b OR push_bit 8 (take_bit (8 * length bs) (of_le bs))"
    by (rule bit_word_eqI) (auto simp: bit_simps dest: bit_imp_le_length)
  then show ?case by (simp add: IH)
qed simp

lemma le_bytes_of_le: "length bs \<le> 8 \<Longrightarrow> le_bytes (length bs) (of_le bs) = bs"
proof (induction bs)
  case (Cons b bs)
  have t: "take_bit (8 * length bs) (of_le bs) = of_le bs" using of_le_take_bit Cons.prems by simp
  have "(ucast (ucast b OR push_bit 8 (of_le bs) :: u64) :: u8) = b"
    by (rule bit_word_eqI) (auto simp: bit_simps)
  moreover have "drop_bit 8 (ucast b OR push_bit 8 (take_bit (8 * length bs) (of_le bs)) :: u64) = take_bit (8 * length bs) (of_le bs)"
    by (rule bit_word_eqI) (use Cons.prems in \<open>auto simp: bit_simps dest: bit_imp_le_length\<close>)
  ultimately show ?case using Cons by (simp add: t)
qed simp

text \<open>What a load sees after a store.\<close>

lemma of_nat_u64_eq_iff:
  "i < 2 ^ 64 \<Longrightarrow> j < 2 ^ 64 \<Longrightarrow> (of_nat i :: u64) = of_nat j \<longleftrightarrow> i = j"
  by (simp add: word_of_nat_eq_iff take_bit_nat_eq_self)

lemma mwrite_other:
  "mwrite m a bs = Some m' \<Longrightarrow> (\<forall>i < length bs. x \<noteq> a + of_nat i) \<Longrightarrow> m' x = m x"
proof (induction bs arbitrary: m a)
  case (Cons b bs)
  have "x \<noteq> a" using Cons.prems(2) [rule_format, of 0] by simp
  moreover have "\<forall>i < length bs. x \<noteq> (a + 1) + of_nat i"
  proof (intro allI impI)
    fix i assume "i < length bs"
    then show "x \<noteq> (a + 1) + of_nat i" using Cons.prems(2) [rule_format, of "Suc i"] by (simp add: ac_simps)
  qed
  moreover have w: "mwrite (m(a \<mapsto> b)) (a + 1) bs = Some m'"
    using Cons.prems(1) by (auto split: option.splits)
  ultimately show ?case using Cons.IH [OF w] by simp
qed auto

lemma mread_cong:
  "(\<And>i. i < n \<Longrightarrow> m' (a + of_nat i) = m (a + of_nat i)) \<Longrightarrow> mread m' a n = mread m a n"
proof (induction n arbitrary: a)
  case (Suc n)
  have "m' a = m a" using Suc.prems [of 0] by simp
  moreover have "mread m' (a + 1) n = mread m (a + 1) n"
    using Suc.prems [of "Suc _"] by (intro Suc.IH) (simp add: add.assoc)
  ultimately show ?case by (simp split: option.split)
qed simp

lemma mread_mwrite_same:
  "mwrite m a bs = Some m' \<Longrightarrow> length bs < 2 ^ 64 \<Longrightarrow> mread m' a (length bs) = Some bs"
proof (induction bs arbitrary: m a)
  case (Cons b bs)
  have w: "mwrite (m(a \<mapsto> b)) (a + 1) bs = Some m'" using Cons.prems(1) by (auto split: option.splits)
  have "\<forall>i < length bs. a \<noteq> a + 1 + of_nat i"
  proof (intro allI impI notI)
    fix i assume i: "i < length bs" and "a = a + 1 + of_nat i"
    then have "(of_nat (Suc i) :: u64) = of_nat 0" by (simp add: add.assoc)
    then show False using i Cons.prems(2) by (simp only: of_nat_u64_eq_iff length_Cons)
  qed
  then have "m' a = Some b" using mwrite_other [OF w] by simp
  then show ?case using Cons.IH [OF w] Cons.prems(2) by simp
qed simp

lemma mread_upd: "mread m c n = Some cs \<Longrightarrow> \<exists>ds. mread (m(a \<mapsto> b)) c n = Some ds"
proof (induction n arbitrary: c cs)
  case (Suc n)
  then obtain d ds where "m c = Some d" and "mread m (c + 1) n = Some ds" by (auto split: option.splits)
  moreover obtain es where "mread (m(a \<mapsto> b)) (c + 1) n = Some es" using Suc.IH calculation(2) by blast
  ultimately show ?case by (cases "c = a") (simp_all del: fun_upd_apply add: fun_upd_same fun_upd_other)
qed simp

lemma mwrite_mapped:
  "mread m a (length bs) = Some cs \<Longrightarrow> \<exists>m'. mwrite m a bs = Some m'"
proof (induction bs arbitrary: m a cs)
  case (Cons b bs)
  then obtain c cs' where ma: "m a = Some c" and r: "mread m (a + 1) (length bs) = Some cs'"
    by (auto split: option.splits)
  obtain ds where "mread (m(a \<mapsto> b)) (a + 1) (length bs) = Some ds" using mread_upd [OF r] by blast
  then show ?case using Cons.IH ma by auto
qed simp

lemma store_load_same [mem_simps]:
  "store m a n v = Some m' \<Longrightarrow> n \<le> 8 \<Longrightarrow> load m' a n = Some (take_bit (8 * n) v)"
  using mread_mwrite_same [of m a "le_bytes n v" m'] by (simp add: store_def load_def of_le_le_bytes)

lemma store_load_other [mem_simps]:
  assumes "store m a n v = Some m'" and "\<And>i j. i < n \<Longrightarrow> j < k \<Longrightarrow> a + of_nat i \<noteq> b + of_nat j"
  shows "load m' b k = load m b k"
proof -
  have "mread m' b k = mread m b k"
  proof (rule mread_cong)
    fix j assume "j < k"
    then show "m' (b + of_nat j) = m (b + of_nat j)"
      using assms(2) by (intro mwrite_other [OF assms(1) [unfolded store_def]]) (metis length_le_bytes)
  qed
  then show ?thesis by (simp add: load_def)
qed

lemma store_mapped: "load m a n = Some w \<Longrightarrow> \<exists>m'. store m a n v = Some m'"
  using mwrite_mapped [of m a "le_bytes n v"] by (auto simp: load_def store_def)

lemma take_bit_32_u64: "take_bit 32 (w :: u64) = ucast (ucast w :: u32)"
  by (rule bit_word_eqI) (auto simp: bit_simps)

end
