(* ===== verification/Bpf_Insn.thy ===== *)
theory Bpf_Insn
  imports Kernel_Prelude
begin

text \<open>
  The two BPF instruction formats and their encoding: the constants of
  \<^verbatim>\<open>include/uapi/linux/bpf_common.h\<close>, \<^verbatim>\<open>include/uapi/linux/bpf.h\<close> and
  \<^verbatim>\<open>include/uapi/linux/filter.h\<close>, \<^verbatim>\<open>struct sock_filter\<close> (classic),
  \<^verbatim>\<open>struct bpf_insn\<close> (internal, "eBPF"), and the block macros of
  \<^verbatim>\<open>include/linux/filter.h\<close> that build internal instructions. The constants are
  abbreviations, polymorphic in the word length, because the classic opcode field has 16
  bits and the internal one 8.
\<close>

section \<open>Opcode fields\<close>

abbreviation (input) BPF_LD :: "'a::len word" where "BPF_LD \<equiv> 0x00"
abbreviation (input) BPF_LDX :: "'a::len word" where "BPF_LDX \<equiv> 0x01"
abbreviation (input) BPF_ST :: "'a::len word" where "BPF_ST \<equiv> 0x02"
abbreviation (input) BPF_STX :: "'a::len word" where "BPF_STX \<equiv> 0x03"
abbreviation (input) BPF_ALU :: "'a::len word" where "BPF_ALU \<equiv> 0x04"
abbreviation (input) BPF_JMP :: "'a::len word" where "BPF_JMP \<equiv> 0x05"
abbreviation (input) BPF_RET :: "'a::len word" where "BPF_RET \<equiv> 0x06"
abbreviation (input) BPF_MISC :: "'a::len word" where "BPF_MISC \<equiv> 0x07"
abbreviation (input) BPF_ALU64 :: "'a::len word" where "BPF_ALU64 \<equiv> 0x07"

abbreviation (input) BPF_W :: "'a::len word" where "BPF_W \<equiv> 0x00"
abbreviation (input) BPF_H :: "'a::len word" where "BPF_H \<equiv> 0x08"
abbreviation (input) BPF_B :: "'a::len word" where "BPF_B \<equiv> 0x10"
abbreviation (input) BPF_DW :: "'a::len word" where "BPF_DW \<equiv> 0x18"

abbreviation (input) BPF_IMM :: "'a::len word" where "BPF_IMM \<equiv> 0x00"
abbreviation (input) BPF_ABS :: "'a::len word" where "BPF_ABS \<equiv> 0x20"
abbreviation (input) BPF_IND :: "'a::len word" where "BPF_IND \<equiv> 0x40"
abbreviation (input) BPF_MEM :: "'a::len word" where "BPF_MEM \<equiv> 0x60"
abbreviation (input) BPF_LEN :: "'a::len word" where "BPF_LEN \<equiv> 0x80"
abbreviation (input) BPF_MSH :: "'a::len word" where "BPF_MSH \<equiv> 0xa0"
abbreviation (input) BPF_XADD :: "'a::len word" where "BPF_XADD \<equiv> 0xc0"

abbreviation (input) BPF_ADD :: "'a::len word" where "BPF_ADD \<equiv> 0x00"
abbreviation (input) BPF_SUB :: "'a::len word" where "BPF_SUB \<equiv> 0x10"
abbreviation (input) BPF_MUL :: "'a::len word" where "BPF_MUL \<equiv> 0x20"
abbreviation (input) BPF_DIV :: "'a::len word" where "BPF_DIV \<equiv> 0x30"
abbreviation (input) BPF_OR :: "'a::len word" where "BPF_OR \<equiv> 0x40"
abbreviation (input) BPF_AND :: "'a::len word" where "BPF_AND \<equiv> 0x50"
abbreviation (input) BPF_LSH :: "'a::len word" where "BPF_LSH \<equiv> 0x60"
abbreviation (input) BPF_RSH :: "'a::len word" where "BPF_RSH \<equiv> 0x70"
abbreviation (input) BPF_NEG :: "'a::len word" where "BPF_NEG \<equiv> 0x80"
abbreviation (input) BPF_MOD :: "'a::len word" where "BPF_MOD \<equiv> 0x90"
abbreviation (input) BPF_XOR :: "'a::len word" where "BPF_XOR \<equiv> 0xa0"
abbreviation (input) BPF_MOV :: "'a::len word" where "BPF_MOV \<equiv> 0xb0"
abbreviation (input) BPF_ARSH :: "'a::len word" where "BPF_ARSH \<equiv> 0xc0"
abbreviation (input) BPF_END :: "'a::len word" where "BPF_END \<equiv> 0xd0"
abbreviation (input) BPF_TO_LE :: "'a::len word" where "BPF_TO_LE \<equiv> 0x00"
abbreviation (input) BPF_TO_BE :: "'a::len word" where "BPF_TO_BE \<equiv> 0x08"

abbreviation (input) BPF_JA :: "'a::len word" where "BPF_JA \<equiv> 0x00"
abbreviation (input) BPF_JEQ :: "'a::len word" where "BPF_JEQ \<equiv> 0x10"
abbreviation (input) BPF_JGT :: "'a::len word" where "BPF_JGT \<equiv> 0x20"
abbreviation (input) BPF_JGE :: "'a::len word" where "BPF_JGE \<equiv> 0x30"
abbreviation (input) BPF_JSET :: "'a::len word" where "BPF_JSET \<equiv> 0x40"
abbreviation (input) BPF_JNE :: "'a::len word" where "BPF_JNE \<equiv> 0x50"
abbreviation (input) BPF_JSGT :: "'a::len word" where "BPF_JSGT \<equiv> 0x60"
abbreviation (input) BPF_JSGE :: "'a::len word" where "BPF_JSGE \<equiv> 0x70"
abbreviation (input) BPF_CALL :: "'a::len word" where "BPF_CALL \<equiv> 0x80"
abbreviation (input) BPF_EXIT :: "'a::len word" where "BPF_EXIT \<equiv> 0x90"

abbreviation (input) BPF_K :: "'a::len word" where "BPF_K \<equiv> 0x00"
abbreviation (input) BPF_X :: "'a::len word" where "BPF_X \<equiv> 0x08"
abbreviation (input) BPF_A :: "'a::len word" where "BPF_A \<equiv> 0x10"
abbreviation (input) BPF_TAX :: "'a::len word" where "BPF_TAX \<equiv> 0x00"
abbreviation (input) BPF_TXA :: "'a::len word" where "BPF_TXA \<equiv> 0x80"

definition BPF_CLASS :: "'a::len word \<Rightarrow> 'a word" where "BPF_CLASS c = c AND 0x07"
definition BPF_SIZE :: "'a::len word \<Rightarrow> 'a word" where "BPF_SIZE c = c AND 0x18"
definition BPF_MODE :: "'a::len word \<Rightarrow> 'a word" where "BPF_MODE c = c AND 0xe0"
definition BPF_OP :: "'a::len word \<Rightarrow> 'a word" where "BPF_OP c = c AND 0xf0"
definition BPF_SRC :: "'a::len word \<Rightarrow> 'a word" where "BPF_SRC c = c AND 0x08"
definition BPF_RVAL :: "'a::len word \<Rightarrow> 'a word" where "BPF_RVAL c = c AND 0x18"

lemmas bpf_fields = BPF_CLASS_def BPF_SIZE_def BPF_MODE_def BPF_OP_def BPF_SRC_def BPF_RVAL_def

abbreviation (input) BPF_MAXINSNS :: nat where "BPF_MAXINSNS \<equiv> 4096"
abbreviation (input) BPF_MEMWORDS :: nat where "BPF_MEMWORDS \<equiv> 16"
abbreviation (input) MAX_BPF_STACK :: nat where "MAX_BPF_STACK \<equiv> 512"

text \<open>Offsets of ancillary data: negative constants, used as unsigned 32-bit values.\<close>

abbreviation (input) SKF_AD_OFF :: u32 where "SKF_AD_OFF \<equiv> 0xfffff000"
abbreviation (input) SKF_AD_PROTOCOL :: u32 where "SKF_AD_PROTOCOL \<equiv> 0"
abbreviation (input) SKF_AD_PKTTYPE :: u32 where "SKF_AD_PKTTYPE \<equiv> 4"
abbreviation (input) SKF_AD_IFINDEX :: u32 where "SKF_AD_IFINDEX \<equiv> 8"
abbreviation (input) SKF_AD_NLATTR :: u32 where "SKF_AD_NLATTR \<equiv> 12"
abbreviation (input) SKF_AD_NLATTR_NEST :: u32 where "SKF_AD_NLATTR_NEST \<equiv> 16"
abbreviation (input) SKF_AD_MARK :: u32 where "SKF_AD_MARK \<equiv> 20"
abbreviation (input) SKF_AD_QUEUE :: u32 where "SKF_AD_QUEUE \<equiv> 24"
abbreviation (input) SKF_AD_HATYPE :: u32 where "SKF_AD_HATYPE \<equiv> 28"
abbreviation (input) SKF_AD_RXHASH :: u32 where "SKF_AD_RXHASH \<equiv> 32"
abbreviation (input) SKF_AD_CPU :: u32 where "SKF_AD_CPU \<equiv> 36"
abbreviation (input) SKF_AD_ALU_XOR_X :: u32 where "SKF_AD_ALU_XOR_X \<equiv> 40"
abbreviation (input) SKF_AD_VLAN_TAG :: u32 where "SKF_AD_VLAN_TAG \<equiv> 44"
abbreviation (input) SKF_AD_VLAN_TAG_PRESENT :: u32 where "SKF_AD_VLAN_TAG_PRESENT \<equiv> 48"
abbreviation (input) SKF_AD_PAY_OFFSET :: u32 where "SKF_AD_PAY_OFFSET \<equiv> 52"
abbreviation (input) SKF_AD_RANDOM :: u32 where "SKF_AD_RANDOM \<equiv> 56"
abbreviation (input) SKF_AD_VLAN_TPID :: u32 where "SKF_AD_VLAN_TPID \<equiv> 60"
abbreviation (input) SKF_NET_OFF :: int where "SKF_NET_OFF \<equiv> - 0x100000"
abbreviation (input) SKF_LL_OFF :: int where "SKF_LL_OFF \<equiv> - 0x200000"

section \<open>Classic instructions\<close>

record sock_filter =
  sf_code :: u16
  sf_jt :: u8
  sf_jf :: u8
  sf_k :: u32

definition BPF_STMT :: "u16 \<Rightarrow> u32 \<Rightarrow> sock_filter" where
  "BPF_STMT c k = \<lparr>sf_code = c, sf_jt = 0, sf_jf = 0, sf_k = k\<rparr>"

definition BPF_JUMP :: "u16 \<Rightarrow> u32 \<Rightarrow> u8 \<Rightarrow> u8 \<Rightarrow> sock_filter" where
  "BPF_JUMP c k t f = \<lparr>sf_code = c, sf_jt = t, sf_jf = f, sf_k = k\<rparr>"

section \<open>Internal instructions\<close>

text \<open>Register numbers are 4-bit fields; only 0 to 10 name a register.\<close>

type_synonym reg = "4 word"

abbreviation (input) BPF_REG_0 :: reg where "BPF_REG_0 \<equiv> 0"
abbreviation (input) BPF_REG_ARG1 :: reg where "BPF_REG_ARG1 \<equiv> 1"
abbreviation (input) BPF_REG_ARG2 :: reg where "BPF_REG_ARG2 \<equiv> 2"
abbreviation (input) BPF_REG_ARG3 :: reg where "BPF_REG_ARG3 \<equiv> 3"
abbreviation (input) BPF_REG_CTX :: reg where "BPF_REG_CTX \<equiv> 6"
abbreviation (input) BPF_REG_FP :: reg where "BPF_REG_FP \<equiv> 10"
abbreviation (input) BPF_REG_A :: reg where "BPF_REG_A \<equiv> 0"
abbreviation (input) BPF_REG_X :: reg where "BPF_REG_X \<equiv> 7"
abbreviation (input) BPF_REG_TMP :: reg where "BPF_REG_TMP \<equiv> 8"

record bpf_insn =
  bi_code :: u8
  bi_dst :: reg
  bi_src :: reg
  bi_off :: u16
  bi_imm :: u32

text \<open>
  \<open>off\<close> and \<open>imm\<close> are signed fields (\<open>__s16\<close>, \<open>__s32\<close>): the model stores their
  two's complement bits and reads them with \<^const>\<open>sint\<close> or \<^const>\<open>scast\<close>.
\<close>

definition BPF_RAW_INSN :: "u8 \<Rightarrow> reg \<Rightarrow> reg \<Rightarrow> u16 \<Rightarrow> u32 \<Rightarrow> bpf_insn" where
  "BPF_RAW_INSN c d s off imm = \<lparr>bi_code = c, bi_dst = d, bi_src = s, bi_off = off, bi_imm = imm\<rparr>"

definition BPF_ALU32_REG :: "u8 \<Rightarrow> reg \<Rightarrow> reg \<Rightarrow> bpf_insn" where
  "BPF_ALU32_REG op d s = BPF_RAW_INSN (BPF_ALU OR BPF_OP op OR BPF_X) d s 0 0"

definition BPF_ALU32_IMM :: "u8 \<Rightarrow> reg \<Rightarrow> u32 \<Rightarrow> bpf_insn" where
  "BPF_ALU32_IMM op d imm = BPF_RAW_INSN (BPF_ALU OR BPF_OP op OR BPF_K) d 0 0 imm"

definition BPF_ENDIAN :: "u8 \<Rightarrow> reg \<Rightarrow> u32 \<Rightarrow> bpf_insn" where
  "BPF_ENDIAN ty d len = BPF_RAW_INSN (BPF_ALU OR BPF_END OR BPF_SRC ty) d 0 0 len"

definition BPF_MOV64_REG :: "reg \<Rightarrow> reg \<Rightarrow> bpf_insn" where
  "BPF_MOV64_REG d s = BPF_RAW_INSN (BPF_ALU64 OR BPF_MOV OR BPF_X) d s 0 0"

definition BPF_MOV32_IMM :: "reg \<Rightarrow> u32 \<Rightarrow> bpf_insn" where
  "BPF_MOV32_IMM d imm = BPF_RAW_INSN (BPF_ALU OR BPF_MOV OR BPF_K) d 0 0 imm"

definition BPF_MOV32_RAW :: "u8 \<Rightarrow> reg \<Rightarrow> reg \<Rightarrow> u32 \<Rightarrow> bpf_insn" where
  "BPF_MOV32_RAW ty d s imm = BPF_RAW_INSN (BPF_ALU OR BPF_MOV OR BPF_SRC ty) d s 0 imm"

definition BPF_LD_ABS :: "u8 \<Rightarrow> u32 \<Rightarrow> bpf_insn" where
  "BPF_LD_ABS sz imm = BPF_RAW_INSN (BPF_LD OR BPF_SIZE sz OR BPF_ABS) 0 0 0 imm"

definition BPF_LDX_MEM :: "u8 \<Rightarrow> reg \<Rightarrow> reg \<Rightarrow> u16 \<Rightarrow> bpf_insn" where
  "BPF_LDX_MEM sz d s off = BPF_RAW_INSN (BPF_LDX OR BPF_SIZE sz OR BPF_MEM) d s off 0"

definition BPF_STX_MEM :: "u8 \<Rightarrow> reg \<Rightarrow> reg \<Rightarrow> u16 \<Rightarrow> bpf_insn" where
  "BPF_STX_MEM sz d s off = BPF_RAW_INSN (BPF_STX OR BPF_SIZE sz OR BPF_MEM) d s off 0"

definition BPF_JMP_IMM :: "u8 \<Rightarrow> reg \<Rightarrow> u32 \<Rightarrow> u16 \<Rightarrow> bpf_insn" where
  "BPF_JMP_IMM op d imm off = BPF_RAW_INSN (BPF_JMP OR BPF_OP op OR BPF_K) d 0 off imm"

definition BPF_EMIT_CALL :: "u32 \<Rightarrow> bpf_insn" where
  "BPF_EMIT_CALL f = BPF_RAW_INSN (BPF_JMP OR BPF_CALL) 0 0 0 f"

definition BPF_EXIT_INSN :: "bpf_insn" where
  "BPF_EXIT_INSN = BPF_RAW_INSN (BPF_JMP OR BPF_EXIT) 0 0 0 0"

lemmas bpf_macros = BPF_RAW_INSN_def BPF_ALU32_REG_def BPF_ALU32_IMM_def BPF_ENDIAN_def
  BPF_MOV64_REG_def BPF_MOV32_IMM_def BPF_MOV32_RAW_def BPF_LD_ABS_def BPF_LDX_MEM_def
  BPF_STX_MEM_def BPF_JMP_IMM_def BPF_EMIT_CALL_def BPF_EXIT_INSN_def

section \<open>Outcomes of one instruction\<close>

text \<open>
  One step of an interpreter goes on with a new state, returns the filter's value, or
  runs into undefined behaviour.
\<close>

datatype 's outcome = Cont 's | Return u32 | Crash fault

fun obind :: "'a result \<Rightarrow> ('a \<Rightarrow> 's outcome) \<Rightarrow> 's outcome" where
  "obind (Ok x) f = f x"
| "obind (Err e) f = Crash BugOn"
| "obind (Undef u) f = Crash u"

text \<open>\<open>ALU(OPCODE, OP)\<close> at a given width; a shift by the width or more is undefined in C.\<close>

datatype alu_op = A_ADD | A_SUB | A_AND | A_OR | A_LSH | A_RSH | A_XOR | A_MUL

fun alu_eval :: "alu_op \<Rightarrow> 'a::len word \<Rightarrow> 'a word \<Rightarrow> 'a word result" where
  "alu_eval A_ADD a b = Ok (a + b)"
| "alu_eval A_SUB a b = Ok (a - b)"
| "alu_eval A_AND a b = Ok (a AND b)"
| "alu_eval A_OR a b = Ok (a OR b)"
| "alu_eval A_LSH a b = (if unat b < LENGTH('a) then Ok (push_bit (unat b) a) else Undef BadShift)"
| "alu_eval A_RSH a b = (if unat b < LENGTH('a) then Ok (drop_bit (unat b) a) else Undef BadShift)"
| "alu_eval A_XOR a b = Ok (a XOR b)"
| "alu_eval A_MUL a b = Ok (a * b)"

end
