(* ===== verification/Bpf_Check.thy ===== *)
theory Bpf_Check
  imports Bpf_Insn
begin

text \<open>
  The checker of classic filters in \<^verbatim>\<open>net/core/filter.c\<close>: the table of allowed opcodes
  (\<open>chk_code_allowed\<close>), the per-instruction checks (\<open>bpf_check_classic\<close>) and the
  dataflow pass over the scratch memory (\<open>check_load_and_stores\<close>), with the ancillary
  load table \<open>bpf_anc_helper\<close> of \<^verbatim>\<open>include/linux/filter.h\<close>.
\<close>

section \<open>Allowed opcodes\<close>

definition allowed_codes :: "u16 list" where
  "allowed_codes = [
    BPF_ALU OR BPF_ADD OR BPF_K, BPF_ALU OR BPF_ADD OR BPF_X,
    BPF_ALU OR BPF_SUB OR BPF_K, BPF_ALU OR BPF_SUB OR BPF_X,
    BPF_ALU OR BPF_MUL OR BPF_K, BPF_ALU OR BPF_MUL OR BPF_X,
    BPF_ALU OR BPF_DIV OR BPF_K, BPF_ALU OR BPF_DIV OR BPF_X,
    BPF_ALU OR BPF_MOD OR BPF_K, BPF_ALU OR BPF_MOD OR BPF_X,
    BPF_ALU OR BPF_AND OR BPF_K, BPF_ALU OR BPF_AND OR BPF_X,
    BPF_ALU OR BPF_OR OR BPF_K, BPF_ALU OR BPF_OR OR BPF_X,
    BPF_ALU OR BPF_XOR OR BPF_K, BPF_ALU OR BPF_XOR OR BPF_X,
    BPF_ALU OR BPF_LSH OR BPF_K, BPF_ALU OR BPF_LSH OR BPF_X,
    BPF_ALU OR BPF_RSH OR BPF_K, BPF_ALU OR BPF_RSH OR BPF_X,
    BPF_ALU OR BPF_NEG,
    BPF_LD OR BPF_W OR BPF_ABS, BPF_LD OR BPF_H OR BPF_ABS, BPF_LD OR BPF_B OR BPF_ABS,
    BPF_LD OR BPF_W OR BPF_LEN,
    BPF_LD OR BPF_W OR BPF_IND, BPF_LD OR BPF_H OR BPF_IND, BPF_LD OR BPF_B OR BPF_IND,
    BPF_LD OR BPF_IMM, BPF_LD OR BPF_MEM,
    BPF_LDX OR BPF_W OR BPF_LEN, BPF_LDX OR BPF_B OR BPF_MSH, BPF_LDX OR BPF_IMM, BPF_LDX OR BPF_MEM,
    BPF_ST, BPF_STX,
    BPF_MISC OR BPF_TAX, BPF_MISC OR BPF_TXA,
    BPF_RET OR BPF_K, BPF_RET OR BPF_A,
    BPF_JMP OR BPF_JA,
    BPF_JMP OR BPF_JEQ OR BPF_K, BPF_JMP OR BPF_JEQ OR BPF_X,
    BPF_JMP OR BPF_JGE OR BPF_K, BPF_JMP OR BPF_JGE OR BPF_X,
    BPF_JMP OR BPF_JGT OR BPF_K, BPF_JMP OR BPF_JGT OR BPF_X,
    BPF_JMP OR BPF_JSET OR BPF_K, BPF_JMP OR BPF_JSET OR BPF_X]"

definition chk_code_allowed :: "u16 \<Rightarrow> bool" where
  "chk_code_allowed code_to_probe \<longleftrightarrow> code_to_probe \<in> set allowed_codes"

definition cond_jump_codes :: "u16 list" where
  "cond_jump_codes = [
    BPF_JMP OR BPF_JEQ OR BPF_K, BPF_JMP OR BPF_JEQ OR BPF_X,
    BPF_JMP OR BPF_JGE OR BPF_K, BPF_JMP OR BPF_JGE OR BPF_X,
    BPF_JMP OR BPF_JGT OR BPF_K, BPF_JMP OR BPF_JGT OR BPF_X,
    BPF_JMP OR BPF_JSET OR BPF_K, BPF_JMP OR BPF_JSET OR BPF_X]"

section \<open>Scratch memory\<close>

text \<open>\<open>masks[idx] &= memvalid\<close>; an index outside \<open>masks\<close> would corrupt memory.\<close>

definition and_mask :: "u16 list \<Rightarrow> u32 \<Rightarrow> u16 \<Rightarrow> u16 list result" where
  "and_mask masks idx v =
     (if unat idx < length masks then Ok (masks[unat idx := masks ! unat idx AND v])
      else Undef BadIndex)"

text \<open>The body of the loop at \<open>pc\<close>: from \<open>masks\<close> and \<open>memvalid\<close> to their new values.\<close>

definition cls_step :: "sock_filter \<Rightarrow> nat \<Rightarrow> u16 list \<Rightarrow> u16 \<Rightarrow> (u16 list \<times> u16) result" where
  "cls_step f pc masks memvalid =
     (let memvalid = memvalid AND masks ! pc; code = sf_code f; k = sf_k f in
      if code = BPF_ST \<or> code = BPF_STX then
        (if unat k \<ge> 32 then Undef BadShift else Ok (masks, memvalid OR push_bit (unat k) 1))
      else if code = (BPF_LD OR BPF_MEM) \<or> code = (BPF_LDX OR BPF_MEM) then
        (if unat k \<ge> 32 then Undef BadShift
         else if memvalid AND push_bit (unat k) 1 = 0 then Err EINVAL else Ok (masks, memvalid))
      else if code = (BPF_JMP OR BPF_JA) then
        rbind (and_mask masks (of_nat pc + 1 + k) memvalid) (\<lambda>masks. Ok (masks, - 1))
      else if code \<in> set cond_jump_codes then
        rbind (and_mask masks (of_nat pc + 1 + ucast (sf_jt f)) memvalid) (\<lambda>masks.
        rbind (and_mask masks (of_nat pc + 1 + ucast (sf_jf f)) memvalid) (\<lambda>masks.
          Ok (masks, - 1)))
      else Ok (masks, memvalid))"

fun cls_loop :: "sock_filter list \<Rightarrow> nat \<Rightarrow> u16 list \<Rightarrow> u16 \<Rightarrow> unit result" where
  "cls_loop [] pc masks memvalid = Ok ()"
| "cls_loop (f # fs) pc masks memvalid =
     rbind (cls_step f pc masks memvalid) (\<lambda>(masks, memvalid). cls_loop fs (Suc pc) masks memvalid)"

text \<open>\<open>mem_ok\<close>: the allocation of \<open>masks\<close> succeeds.\<close>

definition check_load_and_stores :: "bool \<Rightarrow> sock_filter list \<Rightarrow> unit result" where
  "check_load_and_stores mem_ok fp =
     (if \<not> mem_ok then Err ENOMEM
      else cls_loop fp 0 (replicate (length fp) (- 1)) 0)"

section \<open>The whole check\<close>

abbreviation (input) BPF_ANC :: u16 where "BPF_ANC \<equiv> 0x8000"

text \<open>
  The helper starts with \<open>BUG_ON(code & BPF_ANC)\<close>; its callers below only reach it with one of
  the three absolute load opcodes, which do not have that bit.
\<close>

definition bpf_anc_helper :: "sock_filter \<Rightarrow> u16" where
  "bpf_anc_helper ftest =
     (if sf_code ftest \<in> {BPF_LD OR BPF_W OR BPF_ABS, BPF_LD OR BPF_H OR BPF_ABS, BPF_LD OR BPF_B OR BPF_ABS} \<and>
         sf_k ftest \<in> {SKF_AD_OFF + SKF_AD_PROTOCOL, SKF_AD_OFF + SKF_AD_PKTTYPE,
           SKF_AD_OFF + SKF_AD_IFINDEX, SKF_AD_OFF + SKF_AD_NLATTR, SKF_AD_OFF + SKF_AD_NLATTR_NEST,
           SKF_AD_OFF + SKF_AD_MARK, SKF_AD_OFF + SKF_AD_QUEUE, SKF_AD_OFF + SKF_AD_HATYPE,
           SKF_AD_OFF + SKF_AD_RXHASH, SKF_AD_OFF + SKF_AD_CPU, SKF_AD_OFF + SKF_AD_ALU_XOR_X,
           SKF_AD_OFF + SKF_AD_VLAN_TAG, SKF_AD_OFF + SKF_AD_VLAN_TAG_PRESENT,
           SKF_AD_OFF + SKF_AD_PAY_OFFSET, SKF_AD_OFF + SKF_AD_RANDOM, SKF_AD_OFF + SKF_AD_VLAN_TPID}
      then BPF_ANC OR ucast (sf_k ftest - SKF_AD_OFF)
      else sf_code ftest)"

definition check_insn :: "nat \<Rightarrow> nat \<Rightarrow> sock_filter \<Rightarrow> bool" where
  "check_insn flen pc ftest \<longleftrightarrow>
     (let code = sf_code ftest; k = sf_k ftest in
      if \<not> chk_code_allowed code then False
      else if code = (BPF_ALU OR BPF_DIV OR BPF_K) \<or> code = (BPF_ALU OR BPF_MOD OR BPF_K) then k \<noteq> 0
      else if code = (BPF_ALU OR BPF_LSH OR BPF_K) \<or> code = (BPF_ALU OR BPF_RSH OR BPF_K) then \<not> k \<ge> 32
      else if code \<in> {BPF_LD OR BPF_MEM, BPF_LDX OR BPF_MEM, BPF_ST, BPF_STX} then \<not> k \<ge> of_nat BPF_MEMWORDS
      else if code = (BPF_JMP OR BPF_JA) then \<not> k \<ge> of_nat flen - of_nat pc - 1
      else if code \<in> set cond_jump_codes then
        \<not> (pc + unat (sf_jt ftest) + 1 \<ge> flen \<or> pc + unat (sf_jf ftest) + 1 \<ge> flen)
      else if code \<in> {BPF_LD OR BPF_W OR BPF_ABS, BPF_LD OR BPF_H OR BPF_ABS, BPF_LD OR BPF_B OR BPF_ABS} then
        \<not> (bpf_anc_helper ftest AND BPF_ANC = 0 \<and> k \<ge> SKF_AD_OFF)
      else True)"

fun check_insns :: "nat \<Rightarrow> nat \<Rightarrow> sock_filter list \<Rightarrow> bool" where
  "check_insns flen pc [] = True"
| "check_insns flen pc (f # fs) = (check_insn flen pc f \<and> check_insns flen (Suc pc) fs)"

definition bpf_check_classic :: "bool \<Rightarrow> sock_filter list \<Rightarrow> unit result" where
  "bpf_check_classic mem_ok fp =
     (let flen = length fp in
      if flen = 0 \<or> flen > BPF_MAXINSNS then Err EINVAL
      else if \<not> check_insns flen 0 fp then Err EINVAL
      else if sf_code (fp ! (flen - 1)) \<in> {BPF_RET OR BPF_K, BPF_RET OR BPF_A}
      then check_load_and_stores mem_ok fp
      else Err EINVAL)"

end
