(* ===== verification/Skbuff.thy ===== *)
theory Skbuff
  imports Kernel_Prelude
begin

text \<open>
  Socket buffers as far as packet filters read them: the linear buffer, the page
  fragments, the chained fragment buffers (\<^verbatim>\<open>struct sk_buff\<close>), and the functions that
  read a range of the payload, \<open>skb_copy_bits\<close> (\<^verbatim>\<open>net/core/skbuff.c\<close>),
  \<open>skb_header_pointer\<close> (\<^verbatim>\<open>include/linux/skbuff.h\<close>), \<open>bpf_load_pointer\<close>
  (\<^verbatim>\<open>include/linux/filter.h\<close>) and its helper for negative offsets
  (\<^verbatim>\<open>kernel/bpf/core.c\<close>). A pointer result is modelled by the bytes it designates,
  \<open>NULL\<close> by \<open>None\<close>. Offsets and lengths are integers: the C code uses \<open>int\<close>, its
  offsets are below $2^{31}$ and buffer lengths are too, so no operation here overflows.
\<close>

section \<open>Data\<close>

record skb_frag =
  fr_page :: "u8 list"
  fr_page_offset :: nat
  fr_size :: nat

datatype sk_buff = Sk_buff
  (skb_head: "u8 list") \<comment> \<open>the linear buffer, from \<open>skb->head\<close>\<close>
  (skb_data: nat) \<comment> \<open>\<open>skb->data - skb->head\<close>\<close>
  (skb_tail: nat) \<comment> \<open>\<open>skb_tail_pointer(skb) - skb->head\<close>\<close>
  (skb_len: nat)
  (skb_data_len: nat)
  (skb_mac_header: nat)
  (skb_network_header: nat)
  (skb_frags: "skb_frag list")
  (skb_frag_list: "sk_buff list")

definition skb_headlen :: "sk_buff \<Rightarrow> int" where
  "skb_headlen skb = int (skb_len skb) - int (skb_data_len skb)"

text \<open>Reading \<open>n\<close> bytes of an array from index \<open>off\<close>.\<close>

definition buf_slice :: "u8 list \<Rightarrow> int \<Rightarrow> int \<Rightarrow> u8 list result" where
  "buf_slice bs off n =
     (if 0 \<le> off \<and> 0 \<le> n \<and> off + n \<le> int (length bs)
      then Ok (take (nat n) (drop (nat off) bs)) else Undef BadMem)"

section \<open>Copying a range of the payload\<close>

text \<open>
  The loops of \<open>skb_copy_bits\<close> either finish the copy (\<open>return 0\<close> when the remaining
  length reaches zero) or go on with the bytes copied so far and the current values of
  \<open>start\<close>, \<open>offset\<close> and \<open>len\<close>.
\<close>

datatype copy_state = Done "u8 list" | More "u8 list" int int int

text \<open>The part every stage shares: \<open>rd\<close> reads \<open>copy\<close> bytes of the current piece.\<close>

definition copy_piece :: "(int \<Rightarrow> u8 list result) \<Rightarrow> u8 list \<Rightarrow> int \<Rightarrow> int \<Rightarrow> int \<Rightarrow> copy_state result" where
  "copy_piece rd bs end offset len =
     (let copy = end - offset in
      if copy > 0 then
        (let copy = (if copy > len then len else copy) in
         rbind (rd copy) (\<lambda>new.
           if len - copy = 0 then Ok (Done (bs @ new))
           else Ok (More (bs @ new) end (offset + copy) (len - copy))))
      else Ok (More bs end offset len))"

fun copy_frags :: "skb_frag list \<Rightarrow> copy_state \<Rightarrow> copy_state result" where
  "copy_frags fs (Done bs) = Ok (Done bs)"
| "copy_frags [] (More bs start offset len) = Ok (More bs start offset len)"
| "copy_frags (f # fs) (More bs start offset len) =
     rbind (copy_piece (buf_slice (fr_page f) (int (fr_page_offset f) + offset - start))
              bs (start + int (fr_size f)) offset len)
           (copy_frags fs)"

fun skb_copy_bits :: "sk_buff \<Rightarrow> int \<Rightarrow> int \<Rightarrow> u8 list result"
  and skb_walk_frags :: "sk_buff list \<Rightarrow> copy_state \<Rightarrow> copy_state result" where
  "skb_copy_bits (Sk_buff head data tail skblen data_len mac net frags frag_list) offset len =
     (let start = int skblen - int data_len in
      if offset > int skblen - len then Err EFAULT
      else
        rbind (copy_piece (buf_slice head (int data + offset)) [] start offset len) (\<lambda>st.
        rbind (copy_frags frags st) (\<lambda>st.
        rbind (skb_walk_frags frag_list st) (\<lambda>st.
          case st of Done bs \<Rightarrow> Ok bs
          | More bs start offset len \<Rightarrow> (if len = 0 then Ok bs else Err EFAULT)))))"
| "skb_walk_frags fl (Done bs) = Ok (Done bs)"
| "skb_walk_frags [] (More bs start offset len) = Ok (More bs start offset len)"
| "skb_walk_frags (frag_iter # fl) (More bs start offset len) =
     rbind (copy_piece (skb_copy_bits frag_iter (offset - start))
              bs (start + int (skb_len frag_iter)) offset len)
           (skb_walk_frags fl)"

definition skb_header_pointer :: "sk_buff \<Rightarrow> int \<Rightarrow> int \<Rightarrow> u8 list option result" where
  "skb_header_pointer skb offset len =
     (if skb_headlen skb - offset \<ge> len
      then rbind (buf_slice (skb_head skb) (int (skb_data skb) + offset) len) (\<lambda>bs. Ok (Some bs))
      else (case skb_copy_bits skb offset len of
              Ok bs \<Rightarrow> Ok (Some bs) | Err e \<Rightarrow> Ok None | Undef u \<Rightarrow> Undef u))"

section \<open>Loads of the packet filter\<close>

definition bpf_internal_load_pointer_neg_helper :: "sk_buff \<Rightarrow> int \<Rightarrow> int \<Rightarrow> u8 list option result" where
  "bpf_internal_load_pointer_neg_helper skb k sz =
     (let ptr = (if k \<ge> - 0x100000 then Some (int (skb_network_header skb) + k - (- 0x100000))
                 else if k \<ge> - 0x200000 then Some (int (skb_mac_header skb) + k - (- 0x200000))
                 else None)
      in case ptr of None \<Rightarrow> Ok None
         | Some p \<Rightarrow>
             (if p \<ge> 0 \<and> p + sz \<le> int (skb_tail skb)
              then rbind (buf_slice (skb_head skb) p sz) (\<lambda>bs. Ok (Some bs)) else Ok None))"

definition bpf_load_pointer :: "sk_buff \<Rightarrow> u32 \<Rightarrow> nat \<Rightarrow> u8 list option result" where
  "bpf_load_pointer skb k sz =
     (if sint k \<ge> 0 then skb_header_pointer skb (sint k) (int sz)
      else bpf_internal_load_pointer_neg_helper skb (sint k) (int sz))"

section \<open>Well-formed buffers and their payload\<close>

text \<open>
  The layout the networking core keeps: every piece lies inside its memory, and \<open>len\<close>
  counts the linear part, the page fragments and the chained buffers.
\<close>

definition frag_wf :: "skb_frag \<Rightarrow> bool" where
  "frag_wf f \<longleftrightarrow> fr_page_offset f + fr_size f \<le> length (fr_page f)"

definition frag_bytes :: "skb_frag \<Rightarrow> u8 list" where
  "frag_bytes f = take (fr_size f) (drop (fr_page_offset f) (fr_page f))"

fun skb_wf :: "sk_buff \<Rightarrow> bool" where
  "skb_wf (Sk_buff head data tail len data_len mac net frags frag_list) \<longleftrightarrow>
     data_len \<le> len \<and> data + (len - data_len) \<le> length head \<and> tail \<le> length head \<and>
     list_all frag_wf frags \<and> list_all skb_wf frag_list \<and>
     data_len = sum_list (map fr_size frags) + sum_list (map skb_len frag_list)"

fun skb_bytes :: "sk_buff \<Rightarrow> u8 list" where
  "skb_bytes (Sk_buff head data tail len data_len mac net frags frag_list) =
     take (len - data_len) (drop data head) @ concat (map frag_bytes frags)
       @ concat (map skb_bytes frag_list)"

section \<open>Correctness of the copy\<close>

text \<open>
  \<open>copy_inv T R st\<close>: the bytes copied so far, followed by what the remaining pieces \<open>R\<close>
  still contribute, are the target \<open>T\<close>.
\<close>

fun copy_inv :: "u8 list \<Rightarrow> u8 list \<Rightarrow> copy_state \<Rightarrow> bool" where
  "copy_inv T R (Done bs) \<longleftrightarrow> bs = T"
| "copy_inv T R (More bs start offset len) \<longleftrightarrow>
     start \<le> offset \<and> 0 \<le> len \<and> offset + len \<le> start + int (length R) \<and>
     T = bs @ take (nat len) (drop (nat (offset - start)) R)"

lemma copy_piece_inv:
  assumes inv: "copy_inv T (pb @ R) (More bs start offset len)"
    and rd: "\<And>c. 0 \<le> c \<Longrightarrow> offset - start + c \<le> int (length pb) \<Longrightarrow>
               rd c = Ok (take (nat c) (drop (nat (offset - start)) pb))"
    and e: "end = start + int (length pb)"
  shows "\<exists>st. copy_piece rd bs end offset len = Ok st \<and> copy_inv T R st"
proof (cases "end - offset > 0")
  case False
  then have "drop (nat (offset - start)) pb = []" using e by simp
  moreover have "nat (offset - start) - length pb = nat (offset - end)" using False e by simp
  ultimately show ?thesis using False inv e by (auto simp: copy_piece_def)
next
  case True
  let ?c = "if end - offset > len then len else end - offset"
  have c: "0 \<le> ?c" "offset - start + ?c \<le> int (length pb)" "?c \<le> len" using True inv e by auto
  note r = rd [OF c(1,2)]
  have T: "T = bs @ take (nat len) (drop (nat (offset - start)) pb @ drop (nat (offset - end)) R)"
    using inv True e by simp
  show ?thesis
  proof (cases "end - offset \<ge> len")
    case True
    then have cl: "?c = len" using c by auto
    have "nat len \<le> length (drop (nat (offset - start)) pb)" using True e inv by auto
    then have "T = bs @ take (nat len) (drop (nat (offset - start)) pb)" using T by simp
    then show ?thesis using \<open>end - offset > 0\<close> r cl by (auto simp: copy_piece_def)
  next
    case False
    have n: "nat (end - offset) = length pb - nat (offset - start)" using True e inv by auto
    have le: "length pb - nat (offset - start) \<le> nat len" using n False by linarith
    have "nat len - (length pb - nat (offset - start)) = nat (len - (end - offset))"
      using n True False by linarith
    moreover have "drop (nat (offset - end)) R = R" using True by simp
    ultimately have "T = bs @ drop (nat (offset - start)) pb @ take (nat (len - (end - offset))) R"
      using T le by (simp only: take_append take_all length_drop)
    then show ?thesis using False True r n inv e by (auto simp: copy_piece_def)
  qed
qed

lemma buf_slice_piece:
  assumes "0 \<le> base" and "0 \<le> d" and "0 \<le> c" and "d + c \<le> int n"
    and "base + int n \<le> int (length bs)"
  shows "buf_slice bs (base + d) c = Ok (take (nat c) (drop (nat d) (take n (drop (nat base) bs))))"
proof -
  have "nat c \<le> n - nat d" using assms by simp
  then have "take (nat c) (drop (nat d) (take n (drop (nat base) bs))) = take (nat c) (drop (nat (base + d)) bs)"
    using assms by (simp add: drop_take min_absorb1 nat_add_distrib add.commute)
  then show ?thesis using assms by (simp add: buf_slice_def)
qed

lemma length_frag_bytes: "frag_wf f \<Longrightarrow> length (frag_bytes f) = fr_size f"
  by (simp add: frag_wf_def frag_bytes_def)

lemma copy_frags_inv:
  "copy_inv T (concat (map frag_bytes fs) @ R) st \<Longrightarrow> list_all frag_wf fs \<Longrightarrow>
   \<exists>st'. copy_frags fs st = Ok st' \<and> copy_inv T R st'"
proof (induction fs st arbitrary: T rule: copy_frags.induct)
  case (3 f fs bs start offset len)
  have wf: "frag_wf f" and wfs: "list_all frag_wf fs" using "3.prems"(2) by auto
  have rd: "buf_slice (fr_page f) (int (fr_page_offset f) + offset - start) c
              = Ok (take (nat c) (drop (nat (offset - start)) (frag_bytes f)))"
    if "0 \<le> c" and "offset - start + c \<le> int (length (frag_bytes f))" for c
    using buf_slice_piece [of "int (fr_page_offset f)" "offset - start" c "fr_size f" "fr_page f"]
      that wf "3.prems"(1) length_frag_bytes [OF wf] by (simp add: frag_wf_def frag_bytes_def add_diff_eq)
  obtain st where st: "copy_piece (buf_slice (fr_page f) (int (fr_page_offset f) + offset - start))
      bs (start + int (fr_size f)) offset len = Ok st"
    and inv: "copy_inv T (concat (map frag_bytes fs) @ R) st"
    using copy_piece_inv [of T "frag_bytes f" "concat (map frag_bytes fs) @ R" bs start offset len, OF _ rd]
      "3.prems"(1) length_frag_bytes [OF wf] by fastforce
  show ?case using "3.IH" [OF inv wfs] st by simp
qed auto

lemma length_skb_bytes: "skb_wf skb \<Longrightarrow> length (skb_bytes skb) = skb_len skb"
proof (induction skb rule: skb_bytes.induct)
  case (1 head data tail len data_len mac net frags frag_list)
  have "sum_list (map (length \<circ> frag_bytes) frags) = sum_list (map fr_size frags)"
    using "1.prems" by (intro arg_cong [where f = sum_list]) (auto simp: list_all_iff length_frag_bytes)
  moreover have "sum_list (map (length \<circ> skb_bytes) frag_list) = sum_list (map skb_len frag_list)"
    using "1" by (intro arg_cong [where f = sum_list]) (auto simp: list_all_iff)
  ultimately show ?case using "1.prems" by (auto simp: length_concat comp_def)
qed

lemma copy_inv_end:
  "copy_inv T [] st \<Longrightarrow>
   (case st of Done bs \<Rightarrow> Ok bs | More bs start offset len \<Rightarrow> if len = 0 then Ok bs else Err EFAULT) = Ok T"
  by (cases st) auto

lemma copy_bits_both:
  shows "skb_wf skb \<Longrightarrow> 0 \<le> offset \<Longrightarrow> 0 \<le> len \<Longrightarrow> offset + len \<le> int (skb_len skb) \<Longrightarrow>
      skb_copy_bits skb offset len = Ok (take (nat len) (drop (nat offset) (skb_bytes skb)))"
    and "list_all skb_wf fl \<Longrightarrow> copy_inv T (concat (map skb_bytes fl) @ R) st \<Longrightarrow>
      \<exists>st'. skb_walk_frags fl st = Ok st' \<and> copy_inv T R st'"
proof (induction skb offset len and fl st arbitrary: and T R rule: skb_copy_bits_skb_walk_frags.induct)
  case (1 head data tail skblen data_len mac net frags frag_list offset len)
  let ?skb = "Sk_buff head data tail skblen data_len mac net frags frag_list"
  let ?lin = "take (skblen - data_len) (drop data head)"
  let ?R = "concat (map frag_bytes frags) @ concat (map skb_bytes frag_list)"
  define T where "T = take (nat len) (drop (nat offset) (skb_bytes ?skb))"
  have wf: "data_len \<le> skblen" "data + (skblen - data_len) \<le> length head"
    "list_all frag_wf frags" "list_all skb_wf frag_list" using "1.prems"(1) by auto
  have lin: "length ?lin = skblen - data_len" using wf by simp
  have "length (skb_bytes ?skb) = skblen" using length_skb_bytes [OF "1.prems"(1)] by simp
  then have inv0: "copy_inv T (?lin @ ?R) (More [] 0 offset len)"
    using "1.prems" by (simp add: T_def)
  have rd: "buf_slice head (int data + offset) c = Ok (take (nat c) (drop (nat (offset - 0)) ?lin))"
    if "0 \<le> c" and "offset - 0 + c \<le> int (length ?lin)" for c
    using buf_slice_piece [of "int data" offset c "skblen - data_len" head] that wf lin "1.prems" by simp
  have e: "int skblen - int data_len = 0 + int (length ?lin)" using lin wf by simp
  obtain st1 where st1: "copy_piece (buf_slice head (int data + offset)) [] (int skblen - int data_len) offset len = Ok st1"
    and inv1: "copy_inv T ?R st1"
    using copy_piece_inv [OF inv0 rd e] by blast
  obtain st2 where st2: "copy_frags frags st1 = Ok st2" and inv2: "copy_inv T (concat (map skb_bytes frag_list) @ []) st2"
    using copy_frags_inv [OF inv1 wf(3)] by auto
  have "\<not> offset > int skblen - len" using "1.prems" by simp
  moreover obtain st3 where "skb_walk_frags frag_list st2 = Ok st3" and "copy_inv T [] st3"
    using "1.IH" [OF refl _ wf(4) inv2] calculation by auto
  ultimately show ?case using st1 st2 copy_inv_end [of T st3] by (simp add: T_def Let_def)
next
  case (4 frag_iter fl bs start offset len)
  have wf: "skb_wf frag_iter" and wfs: "list_all skb_wf fl" using "4.prems"(1) by auto
  note ln = length_skb_bytes [OF wf]
  have rd: "skb_copy_bits frag_iter (offset - start) c = Ok (take (nat c) (drop (nat (offset - start)) (skb_bytes frag_iter)))"
    if "0 \<le> c" and "offset - start + c \<le> int (length (skb_bytes frag_iter))" for c
    using "4.IH"(1) [OF wf _ that(1)] that "4.prems"(2) ln by auto
  obtain st where st: "copy_piece (skb_copy_bits frag_iter (offset - start)) bs (start + int (skb_len frag_iter)) offset len = Ok st"
    and inv: "copy_inv T (concat (map skb_bytes fl) @ R) st"
    using copy_piece_inv [of T "skb_bytes frag_iter" "concat (map skb_bytes fl) @ R" bs start offset len, OF _ rd]
      "4.prems"(2) ln by fastforce
  show ?case using "4.IH"(2) [OF wfs inv] st by simp
qed auto

lemma skb_copy_bits_eq:
  assumes "skb_wf skb" and "0 \<le> offset" and "0 \<le> len"
  shows "skb_copy_bits skb offset len =
    (if offset + len \<le> int (skb_len skb) then Ok (take (nat len) (drop (nat offset) (skb_bytes skb)))
     else Err EFAULT)"
proof (cases "offset + len \<le> int (skb_len skb)")
  case True
  then show ?thesis using copy_bits_both(1) [OF assms] by simp
next
  case False
  then show ?thesis by (cases skb) simp
qed

lemma linear_prefix:
  assumes "skb_wf skb" and "0 \<le> offset" and "0 \<le> len" and "len \<le> skb_headlen skb - offset"
  shows "buf_slice (skb_head skb) (int (skb_data skb) + offset) len
    = Ok (take (nat len) (drop (nat offset) (skb_bytes skb)))"
    and "offset + len \<le> int (skb_len skb)"
proof -
  obtain head data tail l dl mac net frags fl where skb: "skb = Sk_buff head data tail l dl mac net frags fl"
    by (cases skb)
  have wf: "dl \<le> l" "data + (l - dl) \<le> length head" using assms(1) skb by auto
  have "nat len \<le> length (drop (nat offset) (take (l - dl) (drop data head)))"
    using assms wf skb by (simp add: skb_headlen_def)
  moreover have "nat offset \<le> length (take (l - dl) (drop data head))"
    using assms wf skb by (simp add: skb_headlen_def)
  ultimately have "take (nat len) (drop (nat offset) (skb_bytes skb))
      = take (nat len) (drop (nat offset) (take (l - dl) (drop data head)))"
    using skb by simp
  moreover have "buf_slice head (int data + offset) len
      = Ok (take (nat len) (drop (nat offset) (take (l - dl) (drop data head))))"
    using buf_slice_piece [of "int data" offset len "l - dl" head] assms wf skb
    by (simp add: skb_headlen_def)
  ultimately show "buf_slice (skb_head skb) (int (skb_data skb) + offset) len
    = Ok (take (nat len) (drop (nat offset) (skb_bytes skb)))" using skb by (simp only: sk_buff.sel)
  show "offset + len \<le> int (skb_len skb)" using assms wf skb by (simp add: skb_headlen_def)
qed

lemma skb_header_pointer_eq:
  assumes "skb_wf skb" and "0 \<le> offset" and "0 \<le> len"
  shows "skb_header_pointer skb offset len =
    Ok (if offset + len \<le> int (skb_len skb) then Some (take (nat len) (drop (nat offset) (skb_bytes skb)))
        else None)"
  using linear_prefix [OF assms] skb_copy_bits_eq [OF assms]
  by (auto simp: skb_header_pointer_def)

lemma neg_helper_total:
  assumes "skb_wf skb" and "0 \<le> sz"
  shows "\<exists>r. bpf_internal_load_pointer_neg_helper skb k sz = Ok r \<and>
    (\<forall>bs. r = Some bs \<longrightarrow> length bs = nat sz)"
proof -
  have "skb_tail skb \<le> length (skb_head skb)" using assms(1) by (cases skb) auto
  then show ?thesis using assms(2)
    by (auto simp: bpf_internal_load_pointer_neg_helper_def buf_slice_def Let_def min_def)
qed

text \<open>
  What a packet filter relies on when it loads from its packet: a load ends normally,
  with either no data or exactly the requested number of bytes.
\<close>

locale packet_source =
  fixes pinv :: "'p \<Rightarrow> bool"
    and pload :: "'p \<Rightarrow> u32 \<Rightarrow> nat \<Rightarrow> u8 list option result"
  assumes pload_total: "pinv p \<Longrightarrow> \<exists>r. pload p k n = Ok r"
    and pload_length: "pinv p \<Longrightarrow> pload p k n = Ok (Some bs) \<Longrightarrow> length bs = n"

lemma bpf_load_pointer_nonneg:
  assumes "skb_wf skb" and "0 \<le> sint k"
  shows "bpf_load_pointer skb k n =
    Ok (if sint k + int n \<le> int (skb_len skb)
        then Some (take n (drop (nat (sint k)) (skb_bytes skb))) else None)"
  using skb_header_pointer_eq [OF assms, of "int n"] assms(2) by (simp add: bpf_load_pointer_def)

interpretation skb: packet_source skb_wf bpf_load_pointer
proof
  fix skb k n bs
  assume wf: "skb_wf skb"
  show "\<exists>r. bpf_load_pointer skb k n = Ok r"
    using bpf_load_pointer_nonneg [OF wf] neg_helper_total [OF wf, of "int n" "sint k"]
    by (cases "0 \<le> sint k") (auto simp: bpf_load_pointer_def)
  show "length bs = n" if l: "bpf_load_pointer skb k n = Ok (Some bs)"
  proof (cases "0 \<le> sint k")
    case True
    then show ?thesis
      using l bpf_load_pointer_nonneg [OF wf True, of n] length_skb_bytes [OF wf]
      by (auto split: if_splits)
  next
    case False
    then show ?thesis
      using l neg_helper_total [OF wf, of "int n" "sint k"] by (auto simp: bpf_load_pointer_def)
  qed
qed

section \<open>Properties\<close>

definition ex_frag_skb :: sk_buff where
  "ex_frag_skb = Sk_buff [0, 1, 2, 3] 1 4 7 4 0 1 [\<lparr>fr_page = [9, 10, 11], fr_page_offset = 1, fr_size = 2\<rparr>]
     [Sk_buff [20, 21] 0 2 2 0 0 0 [] []]"



text \<open>A packet load of a filter always returns: for a non-negative offset it gives the bytes of the
  payload at that offset when they are all there and \<open>NULL\<close> otherwise; for a negative one it
  reads inside the linear buffer or gives \<open>NULL\<close>. A successful load has the requested size.\<close>

theorem bpf_load_pointer_correct:
  assumes "skb_wf skb"
  shows "\<exists>r. bpf_load_pointer skb k n = Ok r \<and> (\<forall>bs. r = Some bs \<longrightarrow> length bs = n) \<and>
    (0 \<le> sint k \<longrightarrow> r = (if sint k + int n \<le> int (skb_len skb)
        then Some (take n (drop (nat (sint k)) (skb_bytes skb))) else None))"
proof -
  obtain r where r: "bpf_load_pointer skb k n = Ok r" using skb.pload_total [OF assms] by blast
  then show ?thesis using skb.pload_length [OF assms] bpf_load_pointer_nonneg [OF assms, of k n] by auto
qed

theorem bpf_load_pointer_correct_witness:
  "bpf_load_pointer ex_frag_skb 4 2 = Ok (Some [11, 20])"
proof -
  have "sint (4 :: u32) = 4" by simp
  then show ?thesis using bpf_load_pointer_correct [of ex_frag_skb 4 2]
    by (auto simp: ex_frag_skb_def frag_wf_def frag_bytes_def)
qed

end
