(* ===== verification/Bpf_Core.thy ===== *)
theory Bpf_Core
  imports Bpf_Insn Skbuff
begin

text \<open>
  The internal BPF interpreter, \<open>__bpf_prog_run\<close> of \<^verbatim>\<open>kernel/bpf/core.c\<close>: the jump
  table from opcodes to labels, the code at each label, and the dispatch loop. The machine
  state is the register file, memory (the program's stack, the context object and whatever
  else is mapped), the current instruction pointer as a program and an index, and the tail
  call counter. Helper functions, program arrays and the socket buffer behind a context
  address come from outside the interpreter and are fields of an environment.
\<close>

section \<open>The size of a program\<close>

text \<open>\<open>sizeof(struct bpf_prog)\<close> and \<open>offsetof(struct bpf_prog, insns[n])\<close> on a 64-bit machine, and the pages (of 4096 bytes) of an
  allocation.\<close>

definition bpf_prog_size :: "nat \<Rightarrow> nat" where
  "bpf_prog_size proglen = max 40 (40 + 8 * proglen)"

definition round_up_pages :: "nat \<Rightarrow> nat" where
  "round_up_pages n = (n + 4096 - 1) div 4096"

section \<open>Labels and the jump table\<close>

datatype bsize = SZ_B | SZ_H | SZ_W | SZ_DW

fun size_bytes :: "bsize \<Rightarrow> nat" where
  "size_bytes SZ_B = 1"
| "size_bytes SZ_H = 2"
| "size_bytes SZ_W = 4"
| "size_bytes SZ_DW = 8"

datatype jmp_op = J_EQ | J_NE | J_GT | J_GE | J_SGT | J_SGE | J_SET

datatype alu_label = ALU64_X alu_op | ALU_X alu_op | ALU64_K alu_op | ALU_K alu_op
  | ALU_NEG | ALU64_NEG | ALU_MOV_X | ALU_MOV_K | ALU64_MOV_X | ALU64_MOV_K
  | ALU64_ARSH_X | ALU64_ARSH_K
  | ALU64_MOD_X | ALU_MOD_X | ALU64_MOD_K | ALU_MOD_K
  | ALU64_DIV_X | ALU_DIV_X | ALU64_DIV_K | ALU_DIV_K
  | ALU_END_TO_BE | ALU_END_TO_LE

datatype jmp_label = JMP_CALL | JMP_TAIL_CALL | JMP_JA | JMP_X jmp_op | JMP_K jmp_op | JMP_EXIT

datatype mem_label = STX_MEM bsize | ST_MEM bsize | LDX_MEM bsize | STX_XADD_W | STX_XADD_DW

datatype ld_label = LD_IMM_DW | LD_ABS bsize | LD_IND bsize

datatype label = L_ALU alu_label | L_JMP jmp_label | L_MEM mem_label | L_LD ld_label | default_label

definition jumptable_entries :: "(u8 \<times> label) list" where
  "jumptable_entries = [
    (BPF_ALU OR BPF_ADD OR BPF_X, L_ALU (ALU_X A_ADD)),
    (BPF_ALU OR BPF_ADD OR BPF_K, L_ALU (ALU_K A_ADD)),
    (BPF_ALU OR BPF_SUB OR BPF_X, L_ALU (ALU_X A_SUB)),
    (BPF_ALU OR BPF_SUB OR BPF_K, L_ALU (ALU_K A_SUB)),
    (BPF_ALU OR BPF_AND OR BPF_X, L_ALU (ALU_X A_AND)),
    (BPF_ALU OR BPF_AND OR BPF_K, L_ALU (ALU_K A_AND)),
    (BPF_ALU OR BPF_OR OR BPF_X, L_ALU (ALU_X A_OR)),
    (BPF_ALU OR BPF_OR OR BPF_K, L_ALU (ALU_K A_OR)),
    (BPF_ALU OR BPF_LSH OR BPF_X, L_ALU (ALU_X A_LSH)),
    (BPF_ALU OR BPF_LSH OR BPF_K, L_ALU (ALU_K A_LSH)),
    (BPF_ALU OR BPF_RSH OR BPF_X, L_ALU (ALU_X A_RSH)),
    (BPF_ALU OR BPF_RSH OR BPF_K, L_ALU (ALU_K A_RSH)),
    (BPF_ALU OR BPF_XOR OR BPF_X, L_ALU (ALU_X A_XOR)),
    (BPF_ALU OR BPF_XOR OR BPF_K, L_ALU (ALU_K A_XOR)),
    (BPF_ALU OR BPF_MUL OR BPF_X, L_ALU (ALU_X A_MUL)),
    (BPF_ALU OR BPF_MUL OR BPF_K, L_ALU (ALU_K A_MUL)),
    (BPF_ALU OR BPF_MOV OR BPF_X, L_ALU ALU_MOV_X),
    (BPF_ALU OR BPF_MOV OR BPF_K, L_ALU ALU_MOV_K),
    (BPF_ALU OR BPF_DIV OR BPF_X, L_ALU ALU_DIV_X),
    (BPF_ALU OR BPF_DIV OR BPF_K, L_ALU ALU_DIV_K),
    (BPF_ALU OR BPF_MOD OR BPF_X, L_ALU ALU_MOD_X),
    (BPF_ALU OR BPF_MOD OR BPF_K, L_ALU ALU_MOD_K),
    (BPF_ALU OR BPF_NEG, L_ALU ALU_NEG),
    (BPF_ALU OR BPF_END OR BPF_TO_BE, L_ALU ALU_END_TO_BE),
    (BPF_ALU OR BPF_END OR BPF_TO_LE, L_ALU ALU_END_TO_LE),
    (BPF_ALU64 OR BPF_ADD OR BPF_X, L_ALU (ALU64_X A_ADD)),
    (BPF_ALU64 OR BPF_ADD OR BPF_K, L_ALU (ALU64_K A_ADD)),
    (BPF_ALU64 OR BPF_SUB OR BPF_X, L_ALU (ALU64_X A_SUB)),
    (BPF_ALU64 OR BPF_SUB OR BPF_K, L_ALU (ALU64_K A_SUB)),
    (BPF_ALU64 OR BPF_AND OR BPF_X, L_ALU (ALU64_X A_AND)),
    (BPF_ALU64 OR BPF_AND OR BPF_K, L_ALU (ALU64_K A_AND)),
    (BPF_ALU64 OR BPF_OR OR BPF_X, L_ALU (ALU64_X A_OR)),
    (BPF_ALU64 OR BPF_OR OR BPF_K, L_ALU (ALU64_K A_OR)),
    (BPF_ALU64 OR BPF_LSH OR BPF_X, L_ALU (ALU64_X A_LSH)),
    (BPF_ALU64 OR BPF_LSH OR BPF_K, L_ALU (ALU64_K A_LSH)),
    (BPF_ALU64 OR BPF_RSH OR BPF_X, L_ALU (ALU64_X A_RSH)),
    (BPF_ALU64 OR BPF_RSH OR BPF_K, L_ALU (ALU64_K A_RSH)),
    (BPF_ALU64 OR BPF_XOR OR BPF_X, L_ALU (ALU64_X A_XOR)),
    (BPF_ALU64 OR BPF_XOR OR BPF_K, L_ALU (ALU64_K A_XOR)),
    (BPF_ALU64 OR BPF_MUL OR BPF_X, L_ALU (ALU64_X A_MUL)),
    (BPF_ALU64 OR BPF_MUL OR BPF_K, L_ALU (ALU64_K A_MUL)),
    (BPF_ALU64 OR BPF_MOV OR BPF_X, L_ALU ALU64_MOV_X),
    (BPF_ALU64 OR BPF_MOV OR BPF_K, L_ALU ALU64_MOV_K),
    (BPF_ALU64 OR BPF_ARSH OR BPF_X, L_ALU ALU64_ARSH_X),
    (BPF_ALU64 OR BPF_ARSH OR BPF_K, L_ALU ALU64_ARSH_K),
    (BPF_ALU64 OR BPF_DIV OR BPF_X, L_ALU ALU64_DIV_X),
    (BPF_ALU64 OR BPF_DIV OR BPF_K, L_ALU ALU64_DIV_K),
    (BPF_ALU64 OR BPF_MOD OR BPF_X, L_ALU ALU64_MOD_X),
    (BPF_ALU64 OR BPF_MOD OR BPF_K, L_ALU ALU64_MOD_K),
    (BPF_ALU64 OR BPF_NEG, L_ALU ALU64_NEG),
    (BPF_JMP OR BPF_CALL, L_JMP JMP_CALL),
    (BPF_JMP OR BPF_CALL OR BPF_X, L_JMP JMP_TAIL_CALL),
    (BPF_JMP OR BPF_JA, L_JMP JMP_JA),
    (BPF_JMP OR BPF_JEQ OR BPF_X, L_JMP (JMP_X J_EQ)),
    (BPF_JMP OR BPF_JEQ OR BPF_K, L_JMP (JMP_K J_EQ)),
    (BPF_JMP OR BPF_JNE OR BPF_X, L_JMP (JMP_X J_NE)),
    (BPF_JMP OR BPF_JNE OR BPF_K, L_JMP (JMP_K J_NE)),
    (BPF_JMP OR BPF_JGT OR BPF_X, L_JMP (JMP_X J_GT)),
    (BPF_JMP OR BPF_JGT OR BPF_K, L_JMP (JMP_K J_GT)),
    (BPF_JMP OR BPF_JGE OR BPF_X, L_JMP (JMP_X J_GE)),
    (BPF_JMP OR BPF_JGE OR BPF_K, L_JMP (JMP_K J_GE)),
    (BPF_JMP OR BPF_JSGT OR BPF_X, L_JMP (JMP_X J_SGT)),
    (BPF_JMP OR BPF_JSGT OR BPF_K, L_JMP (JMP_K J_SGT)),
    (BPF_JMP OR BPF_JSGE OR BPF_X, L_JMP (JMP_X J_SGE)),
    (BPF_JMP OR BPF_JSGE OR BPF_K, L_JMP (JMP_K J_SGE)),
    (BPF_JMP OR BPF_JSET OR BPF_X, L_JMP (JMP_X J_SET)),
    (BPF_JMP OR BPF_JSET OR BPF_K, L_JMP (JMP_K J_SET)),
    (BPF_JMP OR BPF_EXIT, L_JMP JMP_EXIT),
    (BPF_STX OR BPF_MEM OR BPF_B, L_MEM (STX_MEM SZ_B)),
    (BPF_STX OR BPF_MEM OR BPF_H, L_MEM (STX_MEM SZ_H)),
    (BPF_STX OR BPF_MEM OR BPF_W, L_MEM (STX_MEM SZ_W)),
    (BPF_STX OR BPF_MEM OR BPF_DW, L_MEM (STX_MEM SZ_DW)),
    (BPF_STX OR BPF_XADD OR BPF_W, L_MEM STX_XADD_W),
    (BPF_STX OR BPF_XADD OR BPF_DW, L_MEM STX_XADD_DW),
    (BPF_ST OR BPF_MEM OR BPF_B, L_MEM (ST_MEM SZ_B)),
    (BPF_ST OR BPF_MEM OR BPF_H, L_MEM (ST_MEM SZ_H)),
    (BPF_ST OR BPF_MEM OR BPF_W, L_MEM (ST_MEM SZ_W)),
    (BPF_ST OR BPF_MEM OR BPF_DW, L_MEM (ST_MEM SZ_DW)),
    (BPF_LDX OR BPF_MEM OR BPF_B, L_MEM (LDX_MEM SZ_B)),
    (BPF_LDX OR BPF_MEM OR BPF_H, L_MEM (LDX_MEM SZ_H)),
    (BPF_LDX OR BPF_MEM OR BPF_W, L_MEM (LDX_MEM SZ_W)),
    (BPF_LDX OR BPF_MEM OR BPF_DW, L_MEM (LDX_MEM SZ_DW)),
    (BPF_LD OR BPF_ABS OR BPF_W, L_LD (LD_ABS SZ_W)),
    (BPF_LD OR BPF_ABS OR BPF_H, L_LD (LD_ABS SZ_H)),
    (BPF_LD OR BPF_ABS OR BPF_B, L_LD (LD_ABS SZ_B)),
    (BPF_LD OR BPF_IND OR BPF_W, L_LD (LD_IND SZ_W)),
    (BPF_LD OR BPF_IND OR BPF_H, L_LD (LD_IND SZ_H)),
    (BPF_LD OR BPF_IND OR BPF_B, L_LD (LD_IND SZ_B)),
    (BPF_LD OR BPF_IMM OR BPF_DW, L_LD LD_IMM_DW)]"

definition jumptable :: "u8 \<Rightarrow> label" where
  "jumptable c = (case map_of jumptable_entries c of None \<Rightarrow> default_label | Some l \<Rightarrow> l)"

section \<open>Machine state\<close>

record bpf_state =
  regs :: "reg \<Rightarrow> u64"
  memory :: mem
  insn_prog :: "bpf_insn list"
  insn_pc :: int
  tail_call_cnt :: u32

text \<open>
  The environment: the socket buffer a context address points to, the functions reached
  through \<open>__bpf_call_base + imm\<close> (which may change memory), and the program arrays of
  tail calls (\<open>max_entries\<close> and \<open>ptrs\<close>).
\<close>

record bpf_env =
  env_skb :: "u64 \<Rightarrow> sk_buff option"
  env_call :: "u32 \<Rightarrow> u64 list \<Rightarrow> mem \<Rightarrow> u64 \<times> mem"
  env_array :: "u64 \<Rightarrow> (u32 \<times> (u64 \<Rightarrow> bpf_insn list option)) option"

abbreviation (input) MAX_TAIL_CALL_CNT :: u32 where "MAX_TAIL_CALL_CNT \<equiv> 32"

definition CONT :: "bpf_state \<Rightarrow> bpf_state outcome" where
  "CONT st = Cont (st\<lparr>insn_pc := insn_pc st + 1\<rparr>)"

definition set_reg :: "reg \<Rightarrow> u64 \<Rightarrow> bpf_state \<Rightarrow> bpf_state" where
  "set_reg r v st = st\<lparr>regs := (regs st)(r := v)\<rparr>"

section \<open>The code at the labels\<close>

definition swap_bytes :: "nat \<Rightarrow> u64 \<Rightarrow> u64" where
  "swap_bytes n w = of_le (rev (le_bytes n w))"

fun exec_alu :: "alu_label \<Rightarrow> bpf_insn \<Rightarrow> bpf_state \<Rightarrow> bpf_state outcome" where
  "exec_alu (ALU64_X oper) i st =
     obind (alu_eval oper (regs st (bi_dst i)) (regs st (bi_src i))) (\<lambda>v. CONT (set_reg (bi_dst i) v st))"
| "exec_alu (ALU_X oper) i st =
     obind (alu_eval oper (ucast (regs st (bi_dst i)) :: u32) (ucast (regs st (bi_src i))))
       (\<lambda>v. CONT (set_reg (bi_dst i) (ucast v) st))"
| "exec_alu (ALU64_K oper) i st =
     obind (alu_eval oper (regs st (bi_dst i)) (scast (bi_imm i))) (\<lambda>v. CONT (set_reg (bi_dst i) v st))"
| "exec_alu (ALU_K oper) i st =
     obind (alu_eval oper (ucast (regs st (bi_dst i)) :: u32) (bi_imm i))
       (\<lambda>v. CONT (set_reg (bi_dst i) (ucast v) st))"
| "exec_alu ALU_NEG i st =
     CONT (set_reg (bi_dst i) (ucast (ucast (- regs st (bi_dst i)) :: u32)) st)"
| "exec_alu ALU64_NEG i st = CONT (set_reg (bi_dst i) (- regs st (bi_dst i)) st)"
| "exec_alu ALU_MOV_X i st =
     CONT (set_reg (bi_dst i) (ucast (ucast (regs st (bi_src i)) :: u32)) st)"
| "exec_alu ALU_MOV_K i st = CONT (set_reg (bi_dst i) (ucast (bi_imm i)) st)"
| "exec_alu ALU64_MOV_X i st = CONT (set_reg (bi_dst i) (regs st (bi_src i)) st)"
| "exec_alu ALU64_MOV_K i st = CONT (set_reg (bi_dst i) (scast (bi_imm i)) st)"
| "exec_alu ALU64_ARSH_X i st =
     (let s = regs st (bi_src i) in
      if unat s < 64 then CONT (set_reg (bi_dst i) (signed_drop_bit (unat s) (regs st (bi_dst i))) st)
      else Crash BadShift)"
| "exec_alu ALU64_ARSH_K i st =
     (let s = (scast (bi_imm i) :: u64) in
      if unat s < 64 then CONT (set_reg (bi_dst i) (signed_drop_bit (unat s) (regs st (bi_dst i))) st)
      else Crash BadShift)"
| "exec_alu ALU64_MOD_X i st =
     (let s = regs st (bi_src i) in
      if s = 0 then Return 0 else CONT (set_reg (bi_dst i) (regs st (bi_dst i) mod s) st))"
| "exec_alu ALU_MOD_X i st =
     (let s = regs st (bi_src i); base = (ucast s :: u32); tmp = (ucast (regs st (bi_dst i)) :: u32) in
      if s = 0 then Return 0
      else if base = 0 then Crash DivZero
      else CONT (set_reg (bi_dst i) (ucast (tmp mod base)) st))"
| "exec_alu ALU64_MOD_K i st =
     (let s = (scast (bi_imm i) :: u64) in
      if s = 0 then Crash DivZero else CONT (set_reg (bi_dst i) (regs st (bi_dst i) mod s) st))"
| "exec_alu ALU_MOD_K i st =
     (let base = bi_imm i; tmp = (ucast (regs st (bi_dst i)) :: u32) in
      if base = 0 then Crash DivZero
      else CONT (set_reg (bi_dst i) (ucast (tmp mod base)) st))"
| "exec_alu ALU64_DIV_X i st =
     (let s = regs st (bi_src i) in
      if s = 0 then Return 0 else CONT (set_reg (bi_dst i) (regs st (bi_dst i) div s) st))"
| "exec_alu ALU_DIV_X i st =
     (let s = regs st (bi_src i); base = (ucast s :: u32); tmp = (ucast (regs st (bi_dst i)) :: u32) in
      if s = 0 then Return 0
      else if base = 0 then Crash DivZero
      else CONT (set_reg (bi_dst i) (ucast (tmp div base)) st))"
| "exec_alu ALU64_DIV_K i st =
     (let s = (scast (bi_imm i) :: u64) in
      if s = 0 then Crash DivZero else CONT (set_reg (bi_dst i) (regs st (bi_dst i) div s) st))"
| "exec_alu ALU_DIV_K i st =
     (let base = bi_imm i; tmp = (ucast (regs st (bi_dst i)) :: u32) in
      if base = 0 then Crash DivZero
      else CONT (set_reg (bi_dst i) (ucast (tmp div base)) st))"
| "exec_alu ALU_END_TO_BE i st =
     (let d = regs st (bi_dst i) in
      if bi_imm i = 16 then CONT (set_reg (bi_dst i) (swap_bytes 2 d) st)
      else if bi_imm i = 32 then CONT (set_reg (bi_dst i) (swap_bytes 4 d) st)
      else if bi_imm i = 64 then CONT (set_reg (bi_dst i) (swap_bytes 8 d) st)
      else CONT st)"
| "exec_alu ALU_END_TO_LE i st =
     (let d = regs st (bi_dst i) in
      if bi_imm i = 16 then CONT (set_reg (bi_dst i) (ucast (ucast d :: u16)) st)
      else if bi_imm i = 32 then CONT (set_reg (bi_dst i) (ucast (ucast d :: u32)) st)
      else if bi_imm i = 64 then CONT (set_reg (bi_dst i) d st)
      else CONT st)"

fun jmp_taken :: "jmp_op \<Rightarrow> u64 \<Rightarrow> u64 \<Rightarrow> bool" where
  "jmp_taken J_EQ d s \<longleftrightarrow> d = s"
| "jmp_taken J_NE d s \<longleftrightarrow> d \<noteq> s"
| "jmp_taken J_GT d s \<longleftrightarrow> d > s"
| "jmp_taken J_GE d s \<longleftrightarrow> d \<ge> s"
| "jmp_taken J_SGT d s \<longleftrightarrow> sint d > sint s"
| "jmp_taken J_SGE d s \<longleftrightarrow> sint d \<ge> sint s"
| "jmp_taken J_SET d s \<longleftrightarrow> d AND s \<noteq> 0"

definition CONT_JMP :: "bool \<Rightarrow> bpf_insn \<Rightarrow> bpf_state \<Rightarrow> bpf_state outcome" where
  "CONT_JMP taken i st = (if taken then CONT (st\<lparr>insn_pc := insn_pc st + sint (bi_off i)\<rparr>) else CONT st)"

fun exec_jmp :: "bpf_env \<Rightarrow> jmp_label \<Rightarrow> bpf_insn \<Rightarrow> bpf_state \<Rightarrow> bpf_state outcome" where
  "exec_jmp env JMP_CALL i st =
     (let (r0, m) = env_call env (bi_imm i) [regs st 1, regs st 2, regs st 3, regs st 4, regs st 5] (memory st)
      in CONT (set_reg 0 r0 (st\<lparr>memory := m\<rparr>)))"
| "exec_jmp env JMP_TAIL_CALL i st =
     (case env_array env (regs st 2) of
        None \<Rightarrow> Crash BadMem
      | Some (max_entries, ptrs) \<Rightarrow>
          (let index = regs st 3 in
           if index \<ge> ucast max_entries then CONT st
           else if tail_call_cnt st > MAX_TAIL_CALL_CNT then CONT st
           else (let st = st\<lparr>tail_call_cnt := tail_call_cnt st + 1\<rparr> in
                 case ptrs index of None \<Rightarrow> CONT st
                 | Some p \<Rightarrow> Cont (st\<lparr>insn_prog := p, insn_pc := 0\<rparr>))))"
| "exec_jmp env JMP_JA i st = CONT (st\<lparr>insn_pc := insn_pc st + sint (bi_off i)\<rparr>)"
| "exec_jmp env (JMP_X oper) i st =
     CONT_JMP (jmp_taken oper (regs st (bi_dst i)) (regs st (bi_src i))) i st"
| "exec_jmp env (JMP_K oper) i st =
     CONT_JMP (jmp_taken oper (regs st (bi_dst i)) (scast (bi_imm i))) i st"
| "exec_jmp env JMP_EXIT i st = Return (ucast (regs st 0))"

definition store_cont :: "mem option \<Rightarrow> bpf_state \<Rightarrow> bpf_state outcome" where
  "store_cont om st = (case om of None \<Rightarrow> Crash BadMem | Some m \<Rightarrow> CONT (st\<lparr>memory := m\<rparr>))"

fun exec_mem :: "mem_label \<Rightarrow> bpf_insn \<Rightarrow> bpf_state \<Rightarrow> bpf_state outcome" where
  "exec_mem (STX_MEM sz) i st =
     store_cont (store (memory st) (regs st (bi_dst i) + scast (bi_off i)) (size_bytes sz)
                   (regs st (bi_src i))) st"
| "exec_mem (ST_MEM sz) i st =
     store_cont (store (memory st) (regs st (bi_dst i) + scast (bi_off i)) (size_bytes sz)
                   (scast (bi_imm i))) st"
| "exec_mem (LDX_MEM sz) i st =
     (case load (memory st) (regs st (bi_src i) + scast (bi_off i)) (size_bytes sz) of
        None \<Rightarrow> Crash BadMem | Some v \<Rightarrow> CONT (set_reg (bi_dst i) v st))"
| "exec_mem STX_XADD_W i st =
     (let a = regs st (bi_dst i) + scast (bi_off i) in
      case load (memory st) a 4 of None \<Rightarrow> Crash BadMem
      | Some v \<Rightarrow> store_cont (store (memory st) a 4 (v + regs st (bi_src i))) st)"
| "exec_mem STX_XADD_DW i st =
     (let a = regs st (bi_dst i) + scast (bi_off i) in
      case load (memory st) a 8 of None \<Rightarrow> Crash BadMem
      | Some v \<Rightarrow> store_cont (store (memory st) a 8 (v + regs st (bi_src i))) st)"

definition load_skb :: "bpf_env \<Rightarrow> bsize \<Rightarrow> u32 \<Rightarrow> bpf_state \<Rightarrow> bpf_state outcome" where
  "load_skb env sz off st =
     (case env_skb env (regs st BPF_REG_CTX) of
        None \<Rightarrow> Crash BadMem
      | Some skb \<Rightarrow> obind (bpf_load_pointer skb off (size_bytes sz)) (\<lambda>ptr.
          case ptr of Some bs \<Rightarrow> CONT (set_reg 0 (of_be 0 bs) st) | None \<Rightarrow> Return 0))"

fun exec_ld :: "bpf_env \<Rightarrow> ld_label \<Rightarrow> bpf_insn \<Rightarrow> bpf_state \<Rightarrow> bpf_state outcome" where
  "exec_ld env LD_IMM_DW i st =
     (if nat (insn_pc st + 1) < length (insn_prog st)
      then CONT ((set_reg (bi_dst i)
             (ucast (bi_imm i) OR push_bit 32 (ucast (bi_imm (insn_prog st ! nat (insn_pc st + 1))))) st)
               \<lparr>insn_pc := insn_pc st + 1\<rparr>)
      else Crash BadPc)"
| "exec_ld env (LD_ABS sz) i st = load_skb env sz (bi_imm i) st"
| "exec_ld env (LD_IND sz) i st =
     load_skb env sz (ucast ((scast (bi_imm i) :: u64) + regs st (bi_src i))) st"

section \<open>Dispatch\<close>

text \<open>Which labels read or write \<open>DST\<close> and \<open>SRC\<close>, that is \<open>regs[insn->dst_reg]\<close> and \<open>regs[insn->src_reg]\<close>.\<close>

fun uses_dst :: "label \<Rightarrow> bool" where
  "uses_dst (L_ALU _) = True"
| "uses_dst (L_JMP (JMP_X _)) = True"
| "uses_dst (L_JMP (JMP_K _)) = True"
| "uses_dst (L_JMP _) = False"
| "uses_dst (L_MEM _) = True"
| "uses_dst (L_LD LD_IMM_DW) = True"
| "uses_dst (L_LD _) = False"
| "uses_dst default_label = False"

fun uses_src :: "label \<Rightarrow> bool" where
  "uses_src (L_ALU l) =
     (case l of ALU64_X _ \<Rightarrow> True | ALU_X _ \<Rightarrow> True | ALU_MOV_X \<Rightarrow> True | ALU64_MOV_X \<Rightarrow> True
      | ALU64_ARSH_X \<Rightarrow> True | ALU64_MOD_X \<Rightarrow> True | ALU_MOD_X \<Rightarrow> True | ALU64_DIV_X \<Rightarrow> True
      | ALU_DIV_X \<Rightarrow> True | _ \<Rightarrow> False)"
| "uses_src (L_JMP (JMP_X _)) = True"
| "uses_src (L_JMP _) = False"
| "uses_src (L_MEM (ST_MEM _)) = False"
| "uses_src (L_MEM _) = True"
| "uses_src (L_LD (LD_IND _)) = True"
| "uses_src (L_LD _) = False"
| "uses_src default_label = False"

fun exec_label :: "bpf_env \<Rightarrow> label \<Rightarrow> bpf_insn \<Rightarrow> bpf_state \<Rightarrow> bpf_state outcome" where
  "exec_label env (L_ALU l) i st = exec_alu l i st"
| "exec_label env (L_JMP l) i st = exec_jmp env l i st"
| "exec_label env (L_MEM l) i st = exec_mem l i st"
| "exec_label env (L_LD l) i st = exec_ld env l i st"
| "exec_label env default_label i st = Return 0"

definition select_insn :: "bpf_env \<Rightarrow> bpf_state \<Rightarrow> bpf_state outcome" where
  "select_insn env st =
     (if 0 \<le> insn_pc st \<and> insn_pc st < int (length (insn_prog st)) then
        (let i = insn_prog st ! nat (insn_pc st); l = jumptable (bi_code i) in
         if uses_dst l \<and> bi_dst i > 10 \<or> uses_src l \<and> bi_src i > 10 then Crash BadReg
         else exec_label env l i st)
      else Crash BadPc)"

text \<open>The dispatch loop; \<open>None\<close> when \<open>fuel\<close> instructions were not enough to return.\<close>

fun bpf_run :: "bpf_env \<Rightarrow> nat \<Rightarrow> bpf_state \<Rightarrow> (u32 + fault) option" where
  "bpf_run env 0 st = None"
| "bpf_run env (Suc fuel) st =
     (case select_insn env st of
        Cont st' \<Rightarrow> bpf_run env fuel st'
      | Return r \<Rightarrow> Some (Inl r)
      | Crash u \<Rightarrow> Some (Inr u))"

text \<open>
  The prologue: the frame pointer is the end of the stack, the first argument the context,
  and the registers of classic programs start at zero; the other registers and the stack
  keep whatever they held (\<open>r0\<close>, \<open>m\<close>).
\<close>

definition init_state :: "(reg \<Rightarrow> u64) \<Rightarrow> mem \<Rightarrow> u64 \<Rightarrow> u64 \<Rightarrow> bpf_insn list \<Rightarrow> bpf_state" where
  "init_state r0 m fp ctx insns =
     \<lparr>regs = (((r0(BPF_REG_FP := fp))(BPF_REG_ARG1 := ctx))(BPF_REG_A := 0))(BPF_REG_X := 0),
      memory = m, insn_prog = insns, insn_pc = 0, tail_call_cnt = 0\<rparr>"

definition bpf_prog_run ::
  "bpf_env \<Rightarrow> nat \<Rightarrow> (reg \<Rightarrow> u64) \<Rightarrow> mem \<Rightarrow> u64 \<Rightarrow> u64 \<Rightarrow> bpf_insn list \<Rightarrow> (u32 + fault) option" where
  "bpf_prog_run env fuel r0 m fp ctx insns = bpf_run env fuel (init_state r0 m fp ctx insns)"

section \<open>Properties\<close>

text \<open>What a store instruction writes, a load instruction of the same width at the same address
  reads back, truncated to the width of the access; the store only needs the cells to be mapped.\<close>

theorem stx_ldx_roundtrip:
  assumes "load (memory st) (regs st (bi_dst i) + scast (bi_off i)) (size_bytes sz) \<noteq> None"
    and "regs st (bi_src j) + scast (bi_off j) = regs st (bi_dst i) + scast (bi_off i)"
  shows "\<exists>st'. exec_mem (STX_MEM sz) i st = Cont st' \<and> regs st' = regs st \<and>
    exec_mem (LDX_MEM sz) j st'
      = CONT (set_reg (bi_dst j) (take_bit (8 * size_bytes sz) (regs st (bi_src i))) st')"
proof -
  obtain m' where m': "store (memory st) (regs st (bi_dst i) + scast (bi_off i)) (size_bytes sz) (regs st (bi_src i)) = Some m'"
    using assms(1) store_mapped by blast
  have "size_bytes sz \<le> 8" by (cases sz) auto
  then show ?thesis using m' store_load_same [OF m'] assms(2) by (auto simp: store_cont_def CONT_def)
qed

definition ex_state :: bpf_state where
  "ex_state = \<lparr>regs = (\<lambda>r. if r = 1 then 0x123456789 else 0), memory = (\<lambda>_. Some 0), insn_prog = [],
     insn_pc = 0, tail_call_cnt = 0\<rparr>"

theorem stx_ldx_roundtrip_witness:
  "\<exists>st'. exec_mem (STX_MEM SZ_H) \<lparr>bi_code = 0x6b, bi_dst = 2, bi_src = 1, bi_off = 8, bi_imm = 0\<rparr> ex_state = Cont st' \<and>
    exec_mem (LDX_MEM SZ_H) \<lparr>bi_code = 0x69, bi_dst = 3, bi_src = 4, bi_off = 8, bi_imm = 0\<rparr> st'
      = CONT (set_reg 3 0x6789 st')"
proof -
  have "load (\<lambda>_. Some 0) 8 2 \<noteq> None" by (simp add: load_def numeral_eq_Suc)
  then show ?thesis
    using stx_ldx_roundtrip [of ex_state "\<lparr>bi_code = 0x6b, bi_dst = 2, bi_src = 1, bi_off = 8, bi_imm = 0\<rparr>" SZ_H
        "\<lparr>bi_code = 0x69, bi_dst = 3, bi_src = 4, bi_off = 8, bi_imm = 0\<rparr>"]
    by (auto simp: ex_state_def)
qed

text \<open>The 32-bit register division and modulo test the whole 64-bit divisor for zero but divide
  by its low half: they divide by zero exactly when the divisor is non-zero with a zero low half,
  and return 0 from the program when it is zero.\<close>

theorem alu32_div_mod_zero:
  "(exec_alu ALU_DIV_X i st = Crash DivZero \<longleftrightarrow> regs st (bi_src i) \<noteq> 0 \<and> (ucast (regs st (bi_src i)) :: u32) = 0) \<and>
   (exec_alu ALU_MOD_X i st = Crash DivZero \<longleftrightarrow> regs st (bi_src i) \<noteq> 0 \<and> (ucast (regs st (bi_src i)) :: u32) = 0)"
  by (auto simp: Let_def CONT_def)

end
