(* ===== verification/Bpf_Classic.thy ===== *)
theory Bpf_Classic
  imports Bpf_Check Bpf_Core
begin

text \<open>
  The specification of classic filters: the accumulator machine that
  \<^verbatim>\<open>Documentation/networking/filter.txt\<close> describes (accumulator \<open>A\<close>, index register
  \<open>X\<close>, sixteen scratch words \<open>M[]\<close>, a program counter), as a step function over decoded
  instructions. It is parametric in the packet: \<open>ld k n\<close> loads \<open>n\<close> bytes at offset
  \<open>k\<close>, \<open>plen\<close> is the packet length. The theory proves what the checker of
  \<^verbatim>\<open>net/core/filter.c\<close> promises about every filter it accepts.
\<close>

section \<open>Decoded classic instructions\<close>

datatype cinsn = C_ALU alu_op bool | C_DIV bool | C_MOD bool | C_NEG
  | C_LD_ABS bsize | C_LD_IND bsize | C_LD_LEN | C_LD_IMM | C_LD_MEM
  | C_LDX_LEN | C_LDX_MSH | C_LDX_IMM | C_LDX_MEM
  | C_ST | C_STX | C_TAX | C_TXA | C_RET_K | C_RET_A
  | C_JA | C_J jmp_op bool

text \<open>The flag tells whether the second operand is \<open>X\<close> (otherwise it is the constant \<open>k\<close>).\<close>

definition cdecode_table :: "(u16 \<times> cinsn) list" where
  "cdecode_table = [
    (0x04, C_ALU A_ADD False), (0x0c, C_ALU A_ADD True),
    (0x14, C_ALU A_SUB False), (0x1c, C_ALU A_SUB True),
    (0x24, C_ALU A_MUL False), (0x2c, C_ALU A_MUL True),
    (0x34, C_DIV False), (0x3c, C_DIV True),
    (0x94, C_MOD False), (0x9c, C_MOD True),
    (0x54, C_ALU A_AND False), (0x5c, C_ALU A_AND True),
    (0x44, C_ALU A_OR False), (0x4c, C_ALU A_OR True),
    (0xa4, C_ALU A_XOR False), (0xac, C_ALU A_XOR True),
    (0x64, C_ALU A_LSH False), (0x6c, C_ALU A_LSH True),
    (0x74, C_ALU A_RSH False), (0x7c, C_ALU A_RSH True),
    (0x84, C_NEG),
    (0x20, C_LD_ABS SZ_W), (0x28, C_LD_ABS SZ_H), (0x30, C_LD_ABS SZ_B),
    (0x80, C_LD_LEN),
    (0x40, C_LD_IND SZ_W), (0x48, C_LD_IND SZ_H), (0x50, C_LD_IND SZ_B),
    (0x00, C_LD_IMM), (0x60, C_LD_MEM),
    (0x81, C_LDX_LEN), (0xb1, C_LDX_MSH), (0x01, C_LDX_IMM), (0x61, C_LDX_MEM),
    (0x02, C_ST), (0x03, C_STX),
    (0x07, C_TAX), (0x87, C_TXA),
    (0x06, C_RET_K), (0x16, C_RET_A),
    (0x05, C_JA),
    (0x15, C_J J_EQ False), (0x1d, C_J J_EQ True),
    (0x35, C_J J_GE False), (0x3d, C_J J_GE True),
    (0x25, C_J J_GT False), (0x2d, C_J J_GT True),
    (0x45, C_J J_SET False), (0x4d, C_J J_SET True)]"

definition cdecode :: "u16 \<Rightarrow> cinsn option" where
  "cdecode c = map_of cdecode_table c"

lemma allowed_codes_eq: "allowed_codes = map fst cdecode_table"
  by (simp add: allowed_codes_def cdecode_table_def)

lemma chk_code_allowed_iff: "chk_code_allowed c \<longleftrightarrow> cdecode c \<noteq> None"
  by (simp add: chk_code_allowed_def cdecode_def allowed_codes_eq map_of_eq_None_iff)

section \<open>The classic machine\<close>

record cstate =
  cA :: u32
  cX :: u32
  cM :: "nat \<Rightarrow> u32"
  cpc :: nat

definition cnext :: "cstate \<Rightarrow> cstate outcome" where
  "cnext st = Cont (st\<lparr>cpc := Suc (cpc st)\<rparr>)"

definition cjump :: "nat \<Rightarrow> cstate \<Rightarrow> cstate outcome" where
  "cjump d st = Cont (st\<lparr>cpc := Suc (cpc st + d)\<rparr>)"

text \<open>A load that finds no data ends the filter with 0, as the old interpreter did.\<close>

definition cload :: "u8 list option result \<Rightarrow> (u32 \<Rightarrow> cstate outcome) \<Rightarrow> cstate outcome" where
  "cload r f = obind r (\<lambda>p. case p of None \<Rightarrow> Return 0 | Some bs \<Rightarrow> f (ucast (of_be 0 bs)))"

fun cjmp_taken :: "jmp_op \<Rightarrow> u32 \<Rightarrow> u32 \<Rightarrow> bool" where
  "cjmp_taken J_EQ a b \<longleftrightarrow> a = b"
| "cjmp_taken J_NE a b \<longleftrightarrow> a \<noteq> b"
| "cjmp_taken J_GT a b \<longleftrightarrow> a > b"
| "cjmp_taken J_GE a b \<longleftrightarrow> a \<ge> b"
| "cjmp_taken J_SGT a b \<longleftrightarrow> sint a > sint b"
| "cjmp_taken J_SGE a b \<longleftrightarrow> sint a \<ge> sint b"
| "cjmp_taken J_SET a b \<longleftrightarrow> a AND b \<noteq> 0"

definition opnd :: "bool \<Rightarrow> u32 \<Rightarrow> cstate \<Rightarrow> u32" where
  "opnd x k st = (if x then cX st else k)"

fun cexec :: "(u32 \<Rightarrow> nat \<Rightarrow> u8 list option result) \<Rightarrow> u32 \<Rightarrow> cinsn \<Rightarrow> sock_filter \<Rightarrow> cstate \<Rightarrow> cstate outcome" where
  "cexec ld plen (C_ALU oper x) f st =
     obind (alu_eval oper (cA st) (opnd x (sf_k f) st)) (\<lambda>v. cnext (st\<lparr>cA := v\<rparr>))"
| "cexec ld plen (C_DIV x) f st =
     (let d = opnd x (sf_k f) st in
      if d = 0 then (if x then Return 0 else Crash DivZero) else cnext (st\<lparr>cA := cA st div d\<rparr>))"
| "cexec ld plen (C_MOD x) f st =
     (let d = opnd x (sf_k f) st in
      if d = 0 then (if x then Return 0 else Crash DivZero) else cnext (st\<lparr>cA := cA st mod d\<rparr>))"
| "cexec ld plen C_NEG f st = cnext (st\<lparr>cA := - cA st\<rparr>)"
| "cexec ld plen (C_LD_ABS sz) f st =
     cload (ld (sf_k f) (size_bytes sz)) (\<lambda>v. cnext (st\<lparr>cA := v\<rparr>))"
| "cexec ld plen (C_LD_IND sz) f st =
     cload (ld (sf_k f + cX st) (size_bytes sz)) (\<lambda>v. cnext (st\<lparr>cA := v\<rparr>))"
| "cexec ld plen C_LD_LEN f st = cnext (st\<lparr>cA := plen\<rparr>)"
| "cexec ld plen C_LD_IMM f st = cnext (st\<lparr>cA := sf_k f\<rparr>)"
| "cexec ld plen C_LD_MEM f st =
     (if unat (sf_k f) < BPF_MEMWORDS then cnext (st\<lparr>cA := cM st (unat (sf_k f))\<rparr>) else Crash BadIndex)"
| "cexec ld plen C_LDX_LEN f st = cnext (st\<lparr>cX := plen\<rparr>)"
| "cexec ld plen C_LDX_MSH f st =
     cload (ld (sf_k f) 1) (\<lambda>v. cnext (st\<lparr>cX := push_bit 2 (v AND 0xf)\<rparr>))"
| "cexec ld plen C_LDX_IMM f st = cnext (st\<lparr>cX := sf_k f\<rparr>)"
| "cexec ld plen C_LDX_MEM f st =
     (if unat (sf_k f) < BPF_MEMWORDS then cnext (st\<lparr>cX := cM st (unat (sf_k f))\<rparr>) else Crash BadIndex)"
| "cexec ld plen C_ST f st =
     (if unat (sf_k f) < BPF_MEMWORDS then cnext (st\<lparr>cM := (cM st)(unat (sf_k f) := cA st)\<rparr>) else Crash BadIndex)"
| "cexec ld plen C_STX f st =
     (if unat (sf_k f) < BPF_MEMWORDS then cnext (st\<lparr>cM := (cM st)(unat (sf_k f) := cX st)\<rparr>) else Crash BadIndex)"
| "cexec ld plen C_TAX f st = cnext (st\<lparr>cX := cA st\<rparr>)"
| "cexec ld plen C_TXA f st = cnext (st\<lparr>cA := cX st\<rparr>)"
| "cexec ld plen C_RET_K f st = Return (sf_k f)"
| "cexec ld plen C_RET_A f st = Return (cA st)"
| "cexec ld plen C_JA f st = cjump (unat (sf_k f)) st"
| "cexec ld plen (C_J oper x) f st =
     cjump (unat (if cjmp_taken oper (cA st) (opnd x (sf_k f) st) then sf_jt f else sf_jf f)) st"

definition cstep :: "(u32 \<Rightarrow> nat \<Rightarrow> u8 list option result) \<Rightarrow> u32 \<Rightarrow> sock_filter list \<Rightarrow> cstate \<Rightarrow> cstate outcome" where
  "cstep ld plen p st =
     (if cpc st < length p then
        (let f = p ! cpc st in
         case cdecode (sf_code f) of None \<Rightarrow> Crash BugOn | Some ci \<Rightarrow> cexec ld plen ci f st)
      else Crash BadPc)"

fun crun :: "(u32 \<Rightarrow> nat \<Rightarrow> u8 list option result) \<Rightarrow> u32 \<Rightarrow> sock_filter list \<Rightarrow> nat \<Rightarrow> cstate \<Rightarrow> (u32 + fault) option" where
  "crun ld plen p 0 st = None"
| "crun ld plen p (Suc fuel) st =
     (case cstep ld plen p st of
        Cont st' \<Rightarrow> crun ld plen p fuel st'
      | Return r \<Rightarrow> Some (Inl r)
      | Crash u \<Rightarrow> Some (Inr u))"

definition cinit :: "(nat \<Rightarrow> u32) \<Rightarrow> cstate" where
  "cinit M0 = \<lparr>cA = 0, cX = 0, cM = M0, cpc = 0\<rparr>"

section \<open>What the checker guarantees\<close>

lemma cdecode_mem: "cdecode c = Some ci \<Longrightarrow> (c, ci) \<in> set cdecode_table"
  by (simp add: cdecode_def map_of_SomeD)

fun insn_ok :: "nat \<Rightarrow> nat \<Rightarrow> sock_filter \<Rightarrow> cinsn \<Rightarrow> bool" where
  "insn_ok n pc f (C_DIV False) = (sf_k f \<noteq> 0)"
| "insn_ok n pc f (C_MOD False) = (sf_k f \<noteq> 0)"
| "insn_ok n pc f (C_ALU A_LSH False) = (unat (sf_k f) < 32)"
| "insn_ok n pc f (C_ALU A_RSH False) = (unat (sf_k f) < 32)"
| "insn_ok n pc f C_LD_MEM = (unat (sf_k f) < BPF_MEMWORDS)"
| "insn_ok n pc f C_LDX_MEM = (unat (sf_k f) < BPF_MEMWORDS)"
| "insn_ok n pc f C_ST = (unat (sf_k f) < BPF_MEMWORDS)"
| "insn_ok n pc f C_STX = (unat (sf_k f) < BPF_MEMWORDS)"
| "insn_ok n pc f C_JA = (pc + unat (sf_k f) + 1 < n)"
| "insn_ok n pc f (C_J oper x) = (pc + unat (sf_jt f) + 1 < n \<and> pc + unat (sf_jf f) + 1 < n)"
| "insn_ok n pc f ci = True"

lemma ja_in_range:
  assumes "pc < n" and "n \<le> BPF_MAXINSNS" and "\<not> (k :: u32) \<ge> of_nat n - of_nat pc - 1"
  shows "pc + unat k + 1 < n"
proof -
  have "of_nat n - of_nat pc - 1 = (of_nat (n - pc - 1) :: u32)"
    using assms(1) by (simp add: of_nat_diff)
  moreover have "unat (of_nat (n - pc - 1) :: u32) = n - pc - 1"
    using assms(2) by (simp add: unsigned_of_nat take_bit_nat_eq_self_iff)
  ultimately have "unat k < n - pc - 1"
    using assms(3) by (simp add: word_le_nat_alt)
  then show ?thesis by simp
qed

lemma check_insn_ok:
  assumes "check_insn n pc f" and "cdecode (sf_code f) = Some ci" and "pc < n" and "n \<le> BPF_MAXINSNS"
  shows "insn_ok n pc f ci"
  using cdecode_mem [OF assms(2)] chk_code_allowed_iff [of "sf_code f"] assms(1,2) ja_in_range [OF assms(3,4), of "sf_k f"]
  unfolding cdecode_table_def
  apply (simp only: list.set insert_iff empty_iff prod.inject)
  apply (elim disjE conjE)
  by (auto simp: check_insn_def cond_jump_codes_def word_le_nat_alt Let_def)


lemma check_insns_nth:
  "check_insns n k fs \<Longrightarrow> i < length fs \<Longrightarrow> check_insn n (k + i) (fs ! i)"
proof (induction fs arbitrary: k i)
  case (Cons f fs)
  then show ?case using Cons.IH [of "Suc k" "i - 1"] by (cases i) auto
qed auto

text \<open>The facts the rest of the development uses of an accepted filter.\<close>

lemma check_classic_facts:
  assumes "bpf_check_classic mem_ok p = Ok ()"
  shows "0 < length p" and "length p \<le> BPF_MAXINSNS"
    and "\<And>pc. pc < length p \<Longrightarrow> check_insn (length p) pc (p ! pc)"
    and "cdecode (sf_code (p ! (length p - 1))) \<in> {Some C_RET_K, Some C_RET_A}"
    and "cls_loop p 0 (replicate (length p) (- 1)) 0 = Ok ()"
  using assms check_insns_nth [of "length p" 0 p]
  by (auto simp: bpf_check_classic_def check_load_and_stores_def Let_def cdecode_def cdecode_table_def
      split: if_splits)

lemma check_classic_decodes:
  assumes "bpf_check_classic mem_ok p = Ok ()" and "pc < length p"
  obtains ci where "cdecode (sf_code (p ! pc)) = Some ci" and "insn_ok (length p) pc (p ! pc) ci"
proof -
  have ck: "check_insn (length p) pc (p ! pc)" using check_classic_facts(3) [OF assms] .
  then have "chk_code_allowed (sf_code (p ! pc))" by (simp add: check_insn_def Let_def split: if_splits)
  then obtain ci where ci: "cdecode (sf_code (p ! pc)) = Some ci" by (auto simp: chk_code_allowed_iff)
  then show thesis
    using that check_insn_ok [OF ck ci assms(2) check_classic_facts(2) [OF assms(1)]] by blast
qed

text \<open>The possible outcomes of a step at an instruction that passed its check.\<close>

lemma cload_outcomes:
  assumes "\<exists>x. r = Ok x"
  shows "cload r f = Return 0 \<or> (\<exists>v. cload r f = f v)"
  using assms by (auto simp: cload_def split: option.splits)

fun step_fine :: "nat \<Rightarrow> nat \<Rightarrow> cinsn \<Rightarrow> cstate outcome \<Rightarrow> bool" where
  "step_fine n pc ci (Cont st) \<longleftrightarrow> pc < cpc st \<and> (cpc st = Suc pc \<or> cpc st < n) \<and> ci \<noteq> C_RET_K \<and> ci \<noteq> C_RET_A"
| "step_fine n pc ci (Return r) \<longleftrightarrow> True"
| "step_fine n pc ci (Crash u) \<longleftrightarrow> u = BadShift"

lemma alu_eval_cases:
  obtains v where "alu_eval oper (a :: 'a::len word) b = Ok v"
  | "alu_eval oper a b = Undef BadShift" and "oper \<in> {A_LSH, A_RSH}" and "unat b \<ge> LENGTH('a)"
  by (cases oper; cases "unat b < LENGTH('a)") auto

lemma cexec_fine:
  assumes "insn_ok n (cpc st) f ci" and "\<forall>k m. \<exists>r. ld k m = Ok r"
  shows "step_fine n (cpc st) ci (cexec ld plen ci f st)"
proof (cases ci)
  case (C_ALU oper x)
  then show ?thesis by (cases oper "cA st" "opnd x (sf_k f) st" rule: alu_eval_cases) (auto simp: cnext_def)
next
  case (C_LD_ABS sz)
  then show ?thesis using cload_outcomes [of "ld (sf_k f) (size_bytes sz)" "\<lambda>v. cnext (st\<lparr>cA := v\<rparr>)", OF assms(2) [rule_format]]
    by (auto simp: cnext_def)
next
  case (C_LD_IND sz)
  then show ?thesis
    using cload_outcomes [of "ld (sf_k f + cX st) (size_bytes sz)" "\<lambda>v. cnext (st\<lparr>cA := v\<rparr>)", OF assms(2) [rule_format]]
    by (auto simp: cnext_def)
next
  case C_LDX_MSH
  then show ?thesis
    using cload_outcomes [of "ld (sf_k f) 1" "\<lambda>v. cnext (st\<lparr>cX := push_bit 2 (v AND 0xf)\<rparr>)", OF assms(2) [rule_format]]
    by (auto simp: cnext_def)
next
  case (C_DIV x)
  then show ?thesis using assms(1) by (cases x) (auto simp: cnext_def opnd_def Let_def)
next
  case (C_MOD x)
  then show ?thesis using assms(1) by (cases x) (auto simp: cnext_def opnd_def Let_def)
qed (use assms(1) in \<open>auto simp: cnext_def cjump_def\<close>)

lemma cstep_fine:
  assumes "bpf_check_classic mem_ok p = Ok ()" and "cpc st < length p" and "\<forall>k m. \<exists>r. ld k m = Ok r"
  shows "(\<exists>st'. cstep ld plen p st = Cont st' \<and> cpc st < cpc st' \<and> cpc st' < length p) \<or>
    (\<exists>r. cstep ld plen p st = Return r) \<or> cstep ld plen p st = Crash BadShift"
proof -
  obtain ci where ci: "cdecode (sf_code (p ! cpc st)) = Some ci" and ok: "insn_ok (length p) (cpc st) (p ! cpc st) ci"
    using check_classic_decodes [OF assms(1,2)] .
  have fine: "step_fine (length p) (cpc st) ci (cstep ld plen p st)"
    using cexec_fine [OF ok assms(3)] ci assms(2) by (simp add: cstep_def Let_def)
  have "cpc st \<noteq> length p - 1" if "ci \<noteq> C_RET_K" "ci \<noteq> C_RET_A"
    using check_classic_facts(4) [OF assms(1)] ci that by auto
  then show ?thesis using fine assms(2) by (cases "cstep ld plen p st") auto
qed

lemma crun_terminates:
  assumes "bpf_check_classic mem_ok p = Ok ()" and "\<forall>k m. \<exists>r. ld k m = Ok r"
  shows "cpc st < length p \<Longrightarrow> length p - cpc st \<le> fuel \<Longrightarrow>
    (\<exists>r. crun ld plen p fuel st = Some (Inl r)) \<or> crun ld plen p fuel st = Some (Inr BadShift)"
proof (induction fuel arbitrary: st)
  case (Suc fuel)
  show ?case using cstep_fine [OF assms(1) Suc.prems(1) assms(2), where plen = plen]
    Suc.IH Suc.prems(2) by fastforce
qed simp

context packet_source
begin

lemma checked_filter_safe:
  assumes "bpf_check_classic mem_ok p = Ok ()" and "pinv pk"
  shows "(\<exists>r. crun (pload pk) plen p (length p) (cinit M0) = Some (Inl r)) \<or>
    crun (pload pk) plen p (length p) (cinit M0) = Some (Inr BadShift)"
  using crun_terminates [OF assms(1), of "pload pk", where st = "cinit M0" and fuel = "length p" and plen = plen]
    pload_total [OF assms(2)] check_classic_facts(1) [OF assms(1)] by (simp add: cinit_def)

end


text \<open>
  \<open>V pc\<close> is the set of cells (as a bit mask) the pass knows to be written whenever
  control reaches \<open>pc\<close>; \<open>mask_le\<close> is inclusion of such sets.
\<close>

definition mask_le :: "u16 \<Rightarrow> u16 \<Rightarrow> bool" where
  "mask_le a b \<longleftrightarrow> (\<forall>i. bit a i \<longrightarrow> bit b i)"

lemma mask_le_refl [simp]: "mask_le a a"
  and mask_le_and1 [simp]: "mask_le (a AND b) a"
  and mask_le_and2 [simp]: "mask_le (a AND b) b"
  and mask_le_minus1 [simp]: "mask_le a (- 1)"
  by (auto simp: mask_le_def bit_simps dest: bit_imp_le_length)

lemma mask_le_trans: "mask_le a b \<Longrightarrow> mask_le b c \<Longrightarrow> mask_le a c"
  by (auto simp: mask_le_def)

text \<open>What the pass establishes about the instruction at \<open>pc\<close> and its successors.\<close>

fun flow_ok :: "(nat \<Rightarrow> u16) \<Rightarrow> nat \<Rightarrow> sock_filter \<Rightarrow> cinsn \<Rightarrow> bool" where
  "flow_ok V pc f C_LD_MEM \<longleftrightarrow> bit (V pc) (unat (sf_k f)) \<and> mask_le (V (Suc pc)) (V pc)"
| "flow_ok V pc f C_LDX_MEM \<longleftrightarrow> bit (V pc) (unat (sf_k f)) \<and> mask_le (V (Suc pc)) (V pc)"
| "flow_ok V pc f C_ST \<longleftrightarrow> mask_le (V (Suc pc)) (V pc OR push_bit (unat (sf_k f)) 1)"
| "flow_ok V pc f C_STX \<longleftrightarrow> mask_le (V (Suc pc)) (V pc OR push_bit (unat (sf_k f)) 1)"
| "flow_ok V pc f C_JA \<longleftrightarrow> mask_le (V (Suc (pc + unat (sf_k f)))) (V pc)"
| "flow_ok V pc f (C_J oper x) \<longleftrightarrow>
     mask_le (V (Suc (pc + unat (sf_jt f)))) (V pc) \<and> mask_le (V (Suc (pc + unat (sf_jf f)))) (V pc)"
| "flow_ok V pc f ci \<longleftrightarrow> mask_le (V (Suc pc)) (V pc)"

definition masks_below :: "(nat \<Rightarrow> u16) \<Rightarrow> nat \<Rightarrow> u16 list \<Rightarrow> bool" where
  "masks_below V k masks \<longleftrightarrow> (\<forall>j. k \<le> j \<longrightarrow> j < length masks \<longrightarrow> mask_le (V j) (masks ! j))"

lemma and_mask_below:
  assumes "and_mask masks idx v = Ok masks'" and "masks_below V k masks'"
  shows "masks_below V k masks" and "k \<le> unat idx \<Longrightarrow> mask_le (V (unat idx)) v"
    and "length masks' = length masks" and "unat idx < length masks"
  using assms by (auto simp: and_mask_def masks_below_def nth_list_update mask_le_def bit_simps split: if_splits)

lemma unat_idx:
  assumes "pc + 1 + unat (k :: u32) < 4097"
  shows "unat (of_nat pc + 1 + k) = Suc (pc + unat k)"
  using assms by (simp add: unat_word_ariths unsigned_of_nat take_bit_nat_eq_self)

text \<open>The loop body over decoded instructions.\<close>

lemma cls_step_decode:
  assumes "cdecode (sf_code f) = Some ci"
  shows "cls_step f pc masks mv =
    (let v = mv AND masks ! pc; k = sf_k f;
         st = (if unat k \<ge> 32 then Undef BadShift else Ok (masks, v OR push_bit (unat k) 1));
         ld = (if unat k \<ge> 32 then Undef BadShift
               else if v AND push_bit (unat k) 1 = 0 then Err EINVAL else Ok (masks, v))
     in case ci of C_ST \<Rightarrow> st | C_STX \<Rightarrow> st | C_LD_MEM \<Rightarrow> ld | C_LDX_MEM \<Rightarrow> ld
        | C_JA \<Rightarrow> rbind (and_mask masks (of_nat pc + 1 + k) v) (\<lambda>masks. Ok (masks, - 1))
        | C_J oper x \<Rightarrow>
            rbind (and_mask masks (of_nat pc + 1 + ucast (sf_jt f)) v) (\<lambda>masks.
            rbind (and_mask masks (of_nat pc + 1 + ucast (sf_jf f)) v) (\<lambda>masks. Ok (masks, - 1)))
        | _ \<Rightarrow> Ok (masks, v))"
  using cdecode_mem [OF assms] unfolding cdecode_table_def
  apply (simp only: list.set insert_iff empty_iff prod.inject)
  apply (elim disjE conjE)
  by (simp_all add: cls_step_def cond_jump_codes_def)

text \<open>One iteration, read backwards: from the validity map of the rest to one that covers \<open>pc\<close>.\<close>

lemma cls_step_flow:
  assumes step: "cls_step f pc masks mv = Ok (masks', mv')"
    and dec: "cdecode (sf_code f) = Some ci"
    and ok: "insn_ok (length masks) pc f ci" and len: "length masks \<le> BPF_MAXINSNS"
    and below: "masks_below V (Suc pc) masks'"
    and nxt: "mask_le (V (Suc pc)) mv'"
  shows "masks_below V (Suc pc) masks" and "length masks' = length masks"
    and "flow_ok (V(pc := mv AND masks ! pc)) pc f ci"
proof -
  let ?v = "mv AND masks ! pc"
  have bit1: "bit ?v n" if "?v AND push_bit n 1 \<noteq> 0" for n
  proof -
    from that obtain m where "bit (?v AND push_bit n 1) m" by (metis bit_eqI bit_0_eq bot_apply bot_bool_def)
    then show ?thesis by (auto simp: bit_simps)
  qed
  have "masks_below V (Suc pc) masks \<and> length masks' = length masks \<and> flow_ok (V(pc := ?v)) pc f ci"
  proof (cases ci)
    case C_JA
    with step dec have am: "and_mask masks (of_nat pc + 1 + sf_k f) ?v = Ok masks'"
      by (auto simp: cls_step_decode Let_def)
    have "unat (of_nat pc + 1 + sf_k f) = Suc (pc + unat (sf_k f))"
      using ok len C_JA by (intro unat_idx) simp
    then show ?thesis using and_mask_below [OF am below] C_JA by simp
  next
    case (C_J oper x)
    with step dec obtain m where am: "and_mask masks (of_nat pc + 1 + ucast (sf_jt f)) ?v = Ok m"
      and am': "and_mask m (of_nat pc + 1 + ucast (sf_jf f)) ?v = Ok masks'"
      by (auto simp: cls_step_decode Let_def)
    have "unat (of_nat pc + 1 + ucast (sf_jt f) :: u32) = Suc (pc + unat (sf_jt f))"
      "unat (of_nat pc + 1 + ucast (sf_jf f) :: u32) = Suc (pc + unat (sf_jf f))"
      using ok len C_J unat_idx [of pc "ucast (sf_jt f)"] unat_idx [of pc "ucast (sf_jf f)"] by simp_all
    then show ?thesis
      using and_mask_below [OF am' below] and_mask_below [OF am and_mask_below(1) [OF am' below]] C_J by simp
  qed (use step dec below nxt bit1 in \<open>auto simp: cls_step_decode Let_def split: if_splits\<close>)
  then show "masks_below V (Suc pc) masks" and "length masks' = length masks"
    and "flow_ok (V(pc := ?v)) pc f ci" by auto
qed


lemma flow_ok_upd: "pc < j \<Longrightarrow> flow_ok (V(pc := x)) j f ci = flow_ok V j f ci"
  by (cases ci) auto

definition flow_cert :: "(nat \<Rightarrow> u16) \<Rightarrow> nat \<Rightarrow> sock_filter list \<Rightarrow> bool" where
  "flow_cert V k p \<longleftrightarrow>
     (\<forall>j ci. k \<le> j \<longrightarrow> j < length p \<longrightarrow> cdecode (sf_code (p ! j)) = Some ci \<longrightarrow> flow_ok V j (p ! j) ci)"

lemma cls_loop_flow:
  assumes chk: "bpf_check_classic mem_ok p = Ok ()"
  shows "cls_loop fs pc masks mv = Ok () \<Longrightarrow> fs = drop pc p \<Longrightarrow> length masks = length p \<Longrightarrow> pc \<le> length p \<Longrightarrow>
    \<exists>V. masks_below V pc masks \<and> flow_cert V pc p \<and>
        V pc = (if pc < length p then mv AND masks ! pc else 0)"
proof (induction fs arbitrary: pc masks mv)
  case Nil
  then have "pc = length p" by simp
  with Nil show ?case by (intro exI [of _ "\<lambda>_. 0"]) (auto simp: masks_below_def flow_cert_def)
next
  case (Cons f fs)
  note pc = drop_eq_ConsD(1) [OF Cons.prems(2)] and f = drop_eq_ConsD(2) [OF Cons.prems(2)]
    and fs = drop_eq_ConsD(3) [OF Cons.prems(2)]
  from Cons.prems(1) obtain masks' mv' where step: "cls_step f pc masks mv = Ok (masks', mv')"
    and rest: "cls_loop fs (Suc pc) masks' mv' = Ok ()" by auto
  obtain ci where ci: "cdecode (sf_code f) = Some ci" and ok: "insn_ok (length masks) pc f ci"
    using check_classic_decodes [OF chk pc] f Cons.prems(3) by auto
  have len': "length masks' = length p"
    using step ci Cons.prems(3)
    by (cases ci) (auto simp: cls_step_decode Let_def and_mask_def split: if_splits)
  obtain V where below: "masks_below V (Suc pc) masks'" and cert: "flow_cert V (Suc pc) p"
    and V: "V (Suc pc) = (if Suc pc < length p then mv' AND masks' ! Suc pc else 0)"
    using Cons.IH [OF rest fs len'] pc by auto
  have nxt: "mask_le (V (Suc pc)) mv'" using V by (auto simp: mask_le_def bit_simps)
  have len: "length masks \<le> BPF_MAXINSNS" using check_classic_facts(2) [OF chk] Cons.prems(3) by simp
  note fl = cls_step_flow [OF step ci ok len below nxt]
  let ?V = "V(pc := mv AND masks ! pc)"
  have "masks_below ?V pc masks" using fl(1) by (auto simp: masks_below_def)
  moreover have "flow_cert ?V pc p"
    unfolding flow_cert_def
  proof (intro allI impI)
    fix j ci'
    assume j: "pc \<le> j" "j < length p" "cdecode (sf_code (p ! j)) = Some ci'"
    show "flow_ok ?V j (p ! j) ci'"
      using j cert fl(3) ci f by (cases "j = pc") (auto simp: flow_cert_def flow_ok_upd)
  qed
  ultimately show ?case using pc by (metis fun_upd_same)
qed

text \<open>Two runs that agree on the cells known to be written stay in agreement.\<close>

definition agree :: "u16 \<Rightarrow> cstate \<Rightarrow> cstate \<Rightarrow> bool" where
  "agree v s t \<longleftrightarrow> cA s = cA t \<and> cX s = cX t \<and> cpc s = cpc t \<and> (\<forall>i. bit v i \<longrightarrow> cM s i = cM t i)"

fun agree_outcome :: "(nat \<Rightarrow> u16) \<Rightarrow> cstate outcome \<Rightarrow> cstate outcome \<Rightarrow> bool" where
  "agree_outcome V (Cont s) (Cont t) \<longleftrightarrow> agree (V (cpc s)) s t"
| "agree_outcome V r r' \<longleftrightarrow> (\<forall>s. r \<noteq> Cont s) \<and> r = r'"

lemma agree_mono: "agree v s t \<Longrightarrow> mask_le w v \<Longrightarrow> agree w s t"
  by (auto simp: agree_def mask_le_def)

lemma cexec_agree:
  assumes "agree (V (cpc s)) s t" and "flow_ok V (cpc s) f ci"
  shows "agree_outcome V (cexec ld plen ci f s) (cexec ld plen ci f t)"
proof (cases ci)
  case (C_ALU oper x)
  then show ?thesis using assms
    by (cases oper "cA s" "opnd x (sf_k f) s" rule: alu_eval_cases)
      (auto simp: cnext_def agree_def mask_le_def opnd_def)
next
  case (C_LD_ABS sz)
  then show ?thesis using assms
    by (cases "ld (sf_k f) (size_bytes sz)") (auto simp: cload_def cnext_def agree_def mask_le_def split: option.splits)
next
  case (C_LD_IND sz)
  then show ?thesis using assms
    by (cases "ld (sf_k f + cX s) (size_bytes sz)") (auto simp: cload_def cnext_def agree_def mask_le_def split: option.splits)
next
  case C_LDX_MSH
  then show ?thesis using assms
    by (cases "ld (sf_k f) 1") (auto simp: cload_def cnext_def agree_def mask_le_def split: option.splits)
qed (use assms in \<open>auto simp: cnext_def cjump_def agree_def mask_le_def opnd_def Let_def bit_simps\<close>)

lemma crun_agree:
  assumes "flow_cert V 0 p"
  shows "agree (V (cpc s)) s t \<Longrightarrow> crun ld plen p fuel s = crun ld plen p fuel t"
proof (induction fuel arbitrary: s t)
  case (Suc fuel)
  have pc: "cpc s = cpc t" using Suc.prems by (simp add: agree_def)
  show ?case
  proof (cases "cpc s < length p \<and> cdecode (sf_code (p ! cpc s)) \<noteq> None")
    case True
    then obtain ci where ci: "cdecode (sf_code (p ! cpc s)) = Some ci" by auto
    then have "flow_ok V (cpc s) (p ! cpc s) ci" using assms True by (simp add: flow_cert_def)
    then have "agree_outcome V (cstep ld plen p s) (cstep ld plen p t)"
      using cexec_agree [where V = V, OF Suc.prems] True ci pc by (simp add: cstep_def)
    then show ?thesis using Suc.IH
      by (cases "cstep ld plen p s"; cases "cstep ld plen p t") auto
  next
    case False
    then show ?thesis using pc by (auto simp: cstep_def)
  qed
qed simp

lemma checked_filter_scratch_independent:
  assumes "bpf_check_classic mem_ok p = Ok ()"
  shows "crun ld plen p fuel (cinit M0) = crun ld plen p fuel (cinit M1)"
proof -
  obtain V where "flow_cert V 0 p" and "V 0 = 0"
    using cls_loop_flow [OF assms check_classic_facts(5) [OF assms]] by auto
  then show ?thesis by (intro crun_agree [where V = V]) (auto simp: cinit_def agree_def)
qed

section \<open>The checker itself is memory safe\<close>

lemma and_mask_in_range:
  assumes "unat k + pc + 1 < length masks" and "length masks \<le> BPF_MAXINSNS"
  shows "\<exists>masks'. and_mask masks (of_nat pc + 1 + k) v = Ok masks' \<and> length masks' = length masks"
proof -
  have "of_nat pc + 1 + k = (of_nat (unat k + pc + 1) :: u32)" by (simp add: ac_simps)
  moreover have small: "unat (of_nat n :: u32) = n" if "n < 4096" for n
    using that by (simp add: unsigned_of_nat take_bit_nat_eq_self_iff)
  have "unat (of_nat (unat k + pc + 1) :: u32) = unat k + pc + 1" by (rule small) (use assms in linarith)
  ultimately have "unat (of_nat pc + 1 + k) = unat k + pc + 1" by (simp only:)
  then show ?thesis using assms(1) by (simp add: and_mask_def)
qed

lemma cls_step_safe:
  assumes "cdecode (sf_code f) = Some ci" and "insn_ok (length masks) pc f ci" and "length masks \<le> BPF_MAXINSNS"
  shows "(\<exists>masks' v. cls_step f pc masks mv = Ok (masks', v) \<and> length masks' = length masks) \<or>
    cls_step f pc masks mv = Err EINVAL"
proof -
  let ?mv = "mv AND masks ! pc"
  have jt: "\<exists>ms. and_mask ms0 (of_nat pc + 1 + ucast (j :: u8)) v = Ok ms \<and> length ms = length masks"
    if "pc + unat j + 1 < length masks" "length ms0 = length masks" for j v and ms0 :: "u16 list"
    using and_mask_in_range [of "ucast j" pc ms0 v] that assms(3) by (simp add: unat_ucast_u8_u32 ac_simps)
  note ja = and_mask_in_range [of "sf_k f" pc masks ?mv, OF _ assms(3)]
  have mem: "\<exists>ms v. cls_step f pc masks mv = Ok (ms, v) \<and> length ms = length masks"
    if j: "sf_code f \<in> set cond_jump_codes" "pc + unat (sf_jt f) + 1 < length masks" "pc + unat (sf_jf f) + 1 < length masks"
  proof -
    obtain m1 where m1: "and_mask masks (of_nat pc + 1 + ucast (sf_jt f)) ?mv = Ok m1" "length m1 = length masks"
      using jt [OF j(2) refl] by blast
    obtain m2 where m2: "and_mask m1 (of_nat pc + 1 + ucast (sf_jf f)) ?mv = Ok m2" "length m2 = length masks"
      using jt [OF j(3) m1(2)] by blast
    show ?thesis using j(1) m1 m2 by (auto simp: cls_step_def Let_def cond_jump_codes_def)
  qed
  have other: "\<exists>ms v. cls_step f pc masks mv = Ok (ms, v) \<and> length ms = length masks"
    if "ci \<notin> {C_JA, C_LD_MEM, C_LDX_MEM, C_ST, C_STX}" "\<forall>oper x. ci \<noteq> C_J oper x"
  proof -
    have "sf_code f \<notin> {2, 3, 5, 0x60, 0x61}" "sf_code f \<notin> set cond_jump_codes"
      using assms(1) that by (auto simp: cdecode_def cdecode_table_def cond_jump_codes_def all_bool_eq)
    then show ?thesis by (simp add: cls_step_def Let_def)
  qed
  have code: "(sf_code f, ci) \<in> set cdecode_table" using cdecode_mem [OF assms(1)] .
  show ?thesis
  proof (cases ci)
    case (C_J oper x)
    then have "sf_code f \<in> set cond_jump_codes" using code by (auto simp: cdecode_table_def cond_jump_codes_def)
    then show ?thesis using mem assms(2) C_J by simp
  next
    case C_JA
    then have "sf_code f = 5" using code by (auto simp: cdecode_table_def)
    moreover obtain ms where "and_mask masks (of_nat pc + 1 + sf_k f) ?mv = Ok ms" "length ms = length masks"
      using ja assms(2) C_JA by (auto simp: add.commute)
    ultimately show ?thesis by (simp add: cls_step_def Let_def)
  next
    case C_LD_MEM
    then have "sf_code f = 0x60" using code by (auto simp: cdecode_table_def)
    then show ?thesis using assms(2) C_LD_MEM by (auto simp: cls_step_def Let_def)
  next
    case C_LDX_MEM
    then have "sf_code f = 0x61" using code by (auto simp: cdecode_table_def)
    then show ?thesis using assms(2) C_LDX_MEM by (auto simp: cls_step_def Let_def)
  next
    case C_ST
    then have "sf_code f = 2" using code by (auto simp: cdecode_table_def)
    then show ?thesis using assms(2) C_ST by (auto simp: cls_step_def Let_def)
  next
    case C_STX
    then have "sf_code f = 3" using code by (auto simp: cdecode_table_def)
    then show ?thesis using assms(2) C_STX by (auto simp: cls_step_def Let_def)
  qed (use other in auto)
qed

lemma cls_loop_safe:
  "fs = drop pc p \<Longrightarrow> length masks = length p \<Longrightarrow> length p \<le> BPF_MAXINSNS \<Longrightarrow> check_insns (length p) 0 p \<Longrightarrow>
   cls_loop fs pc masks mv \<in> {Ok (), Err EINVAL}"
proof (induction fs arbitrary: pc masks mv)
  case (Cons f fs)
  note i = drop_eq_ConsD(1) [OF Cons.prems(1)] and f = drop_eq_ConsD(2) [OF Cons.prems(1)]
    and fs = drop_eq_ConsD(3) [OF Cons.prems(1)]
  have ck: "check_insn (length p) pc f" using check_insns_nth [OF Cons.prems(4) i] f by simp
  then obtain ci where ci: "cdecode (sf_code f) = Some ci"
    by (auto simp: check_insn_def Let_def chk_code_allowed_iff split: if_splits)
  have ok: "insn_ok (length masks) pc f ci"
    using check_insn_ok [OF ck ci i Cons.prems(3)] Cons.prems(2) by simp
  have IH: "cls_loop fs (Suc pc) ms v \<in> {Ok (), Err EINVAL}" if "length ms = length p" for ms v
    using Cons.IH [OF fs that Cons.prems(3,4)] .
  show ?case using cls_step_safe [OF ci ok, of mv] IH Cons.prems(2,3) by fastforce
qed simp

lemma bpf_check_classic_outcomes:
  "bpf_check_classic mem_ok p \<in> {Ok (), Err EINVAL, Err ENOMEM}"
  using cls_loop_safe [of p 0 p "replicate (length p) (- 1)" 0]
  by (auto simp: bpf_check_classic_def check_load_and_stores_def Let_def)

section \<open>Properties\<close>

definition ex_copy :: "sock_filter list" where
  "ex_copy = [BPF_STMT 0x30 0, BPF_STMT 0x02 3, BPF_STMT 0x00 7, BPF_STMT 0x60 3, BPF_STMT 0x16 0]"

lemma ex_copy_accepted: "bpf_check_classic True ex_copy = Ok ()"
  by code_simp



text \<open>C14. No information leak through scratch memory: the result of an accepted filter does not
  depend on what the scratch words held before the run, because \<open>check_load_and_stores\<close> only lets
  a filter read a word that every path to the read has written.\<close>

theorem accepted_filter_no_leak:
  assumes "bpf_check_classic mem_ok p = Ok ()"
  shows "crun ld plen p fuel (cinit M0) = crun ld plen p fuel (cinit M1)"
  by (rule checked_filter_scratch_independent [OF assms])

theorem accepted_filter_no_leak_witness:
  "crun (\<lambda>_ _. Ok (Some [9])) 2 ex_copy 5 (cinit (\<lambda>_. 0)) = crun (\<lambda>_ _. Ok (Some [9])) 2 ex_copy 5 (cinit (\<lambda>_. 77))"
  by (rule accepted_filter_no_leak [OF ex_copy_accepted])

text \<open>The opcode table of the checker is exactly the set of opcodes the classic machine executes.\<close>

theorem allowed_opcodes_decode:
  "chk_code_allowed c = (\<exists>ci. cdecode c = Some ci)"
  using chk_code_allowed_iff [of c] by auto

text \<open>The checker itself is safe on every input: whatever the program, it accepts it or returns
  \<open>-EINVAL\<close> or \<open>-ENOMEM\<close>; in particular the scratch memory pass never indexes its mask array out
  of bounds and never shifts by an undefined amount.\<close>

theorem bpf_check_classic_safe:
  "bpf_check_classic mem_ok p = Ok () \<or> bpf_check_classic mem_ok p = Err EINVAL \<or>
   bpf_check_classic mem_ok p = Err ENOMEM"
  using bpf_check_classic_outcomes [of mem_ok p] by auto

end
