(* ===== verification/Bpf_Convert.thy ===== *)
theory Bpf_Convert
  imports Bpf_Insn
begin

text \<open>
  The translation of classic filters to internal BPF in \<^verbatim>\<open>net/core/filter.c\<close>:
  \<open>convert_skb_access\<close>, \<open>convert_bpf_extensions\<close> and \<open>bpf_convert_filter\<close> with its
  passes over the program. The structure offsets and the distances of the helper functions
  from \<open>__bpf_call_base\<close> are fixed by the compiler; they are the fields of \<open>skb_layout\<close>.
  The configuration is the little-endian 64-bit one.
\<close>

record skb_layout =
  off_mark :: u16
  off_pkt_type :: u16
  off_queue_mapping :: u16
  off_vlan_tci :: u16
  off_protocol :: u16
  off_dev :: u16
  off_hash :: u16
  off_vlan_proto :: u16
  off_len :: u16
  off_ifindex :: u16
  off_dev_type :: u16
  fn_pay_offset :: u32
  fn_nlattr :: u32
  fn_nlattr_nest :: u32
  fn_raw_cpu_id :: u32
  fn_user_rnd :: u32

abbreviation (input) PKT_TYPE_MAX :: u32 where "PKT_TYPE_MAX \<equiv> 7"
abbreviation (input) VLAN_TAG_PRESENT :: u32 where "VLAN_TAG_PRESENT \<equiv> 0x1000"

section \<open>Loads of packet meta data\<close>

definition convert_skb_access :: "skb_layout \<Rightarrow> u32 \<Rightarrow> reg \<Rightarrow> reg \<Rightarrow> bpf_insn list" where
  "convert_skb_access L skb_field dst_reg src_reg =
     (if skb_field = SKF_AD_MARK then [BPF_LDX_MEM BPF_W dst_reg src_reg (off_mark L)]
      else if skb_field = SKF_AD_PKTTYPE then
        [BPF_LDX_MEM BPF_B dst_reg src_reg (off_pkt_type L),
         BPF_ALU32_IMM BPF_AND dst_reg PKT_TYPE_MAX]
      else if skb_field = SKF_AD_QUEUE then [BPF_LDX_MEM BPF_H dst_reg src_reg (off_queue_mapping L)]
      else if skb_field = SKF_AD_VLAN_TAG \<or> skb_field = SKF_AD_VLAN_TAG_PRESENT then
        BPF_LDX_MEM BPF_H dst_reg src_reg (off_vlan_tci L) #
        (if skb_field = SKF_AD_VLAN_TAG
         then [BPF_ALU32_IMM BPF_AND dst_reg (NOT VLAN_TAG_PRESENT)]
         else [BPF_ALU32_IMM BPF_RSH dst_reg 12, BPF_ALU32_IMM BPF_AND dst_reg 1])
      else [])"

definition convert_bpf_extensions :: "skb_layout \<Rightarrow> sock_filter \<Rightarrow> bpf_insn list option" where
  "convert_bpf_extensions L fp =
     (let k = sf_k fp;
          call = (\<lambda>f. [BPF_MOV64_REG BPF_REG_ARG1 BPF_REG_CTX, BPF_MOV64_REG BPF_REG_ARG2 BPF_REG_A,
                       BPF_MOV64_REG BPF_REG_ARG3 BPF_REG_X, BPF_EMIT_CALL f])
      in
      if k = SKF_AD_OFF + SKF_AD_PROTOCOL then
        Some [BPF_LDX_MEM BPF_H BPF_REG_A BPF_REG_CTX (off_protocol L), BPF_ENDIAN BPF_TO_BE BPF_REG_A 16]
      else if k = SKF_AD_OFF + SKF_AD_PKTTYPE then
        Some (convert_skb_access L SKF_AD_PKTTYPE BPF_REG_A BPF_REG_CTX)
      else if k = SKF_AD_OFF + SKF_AD_IFINDEX \<or> k = SKF_AD_OFF + SKF_AD_HATYPE then
        Some [BPF_LDX_MEM BPF_DW BPF_REG_TMP BPF_REG_CTX (off_dev L),
              BPF_JMP_IMM BPF_JNE BPF_REG_TMP 0 1,
              BPF_EXIT_INSN,
              (if k = SKF_AD_OFF + SKF_AD_IFINDEX
               then BPF_LDX_MEM BPF_W BPF_REG_A BPF_REG_TMP (off_ifindex L)
               else BPF_LDX_MEM BPF_H BPF_REG_A BPF_REG_TMP (off_dev_type L))]
      else if k = SKF_AD_OFF + SKF_AD_MARK then
        Some (convert_skb_access L SKF_AD_MARK BPF_REG_A BPF_REG_CTX)
      else if k = SKF_AD_OFF + SKF_AD_RXHASH then
        Some [BPF_LDX_MEM BPF_W BPF_REG_A BPF_REG_CTX (off_hash L)]
      else if k = SKF_AD_OFF + SKF_AD_QUEUE then
        Some (convert_skb_access L SKF_AD_QUEUE BPF_REG_A BPF_REG_CTX)
      else if k = SKF_AD_OFF + SKF_AD_VLAN_TAG then
        Some (convert_skb_access L SKF_AD_VLAN_TAG BPF_REG_A BPF_REG_CTX)
      else if k = SKF_AD_OFF + SKF_AD_VLAN_TAG_PRESENT then
        Some (convert_skb_access L SKF_AD_VLAN_TAG_PRESENT BPF_REG_A BPF_REG_CTX)
      else if k = SKF_AD_OFF + SKF_AD_VLAN_TPID then
        Some [BPF_LDX_MEM BPF_H BPF_REG_A BPF_REG_CTX (off_vlan_proto L), BPF_ENDIAN BPF_TO_BE BPF_REG_A 16]
      else if k = SKF_AD_OFF + SKF_AD_PAY_OFFSET then Some (call (fn_pay_offset L))
      else if k = SKF_AD_OFF + SKF_AD_NLATTR then Some (call (fn_nlattr L))
      else if k = SKF_AD_OFF + SKF_AD_NLATTR_NEST then Some (call (fn_nlattr_nest L))
      else if k = SKF_AD_OFF + SKF_AD_CPU then Some (call (fn_raw_cpu_id L))
      else if k = SKF_AD_OFF + SKF_AD_RANDOM then Some (call (fn_user_rnd L))
      else if k = SKF_AD_OFF + SKF_AD_ALU_XOR_X then Some [BPF_ALU32_REG BPF_XOR BPF_REG_A BPF_REG_X]
      else None)"

section \<open>One instruction\<close>

text \<open>
  \<open>BPF_EMIT_JMP\<close>: the offset field of a jump at position \<open>pos\<close> of the instructions for
  the classic instruction \<open>i\<close>, or the error exit. \<open>addrs\<close> is absent in the pass that
  only counts.
\<close>

definition emit_jmp :: "nat \<Rightarrow> int list option \<Rightarrow> nat \<Rightarrow> int \<Rightarrow> nat \<Rightarrow> u16 result" where
  "emit_jmp len addrs i target pos =
     (if target \<ge> int len \<or> target < 0 then Err EINVAL
      else Ok ((case addrs of None \<Rightarrow> 0 | Some a \<Rightarrow> word_of_int (a ! nat target - a ! i - 1)) - of_nat pos))"

definition conv_alu_ld_codes :: "u16 list" where
  "conv_alu_ld_codes = [
    BPF_ALU OR BPF_ADD OR BPF_X, BPF_ALU OR BPF_ADD OR BPF_K,
    BPF_ALU OR BPF_SUB OR BPF_X, BPF_ALU OR BPF_SUB OR BPF_K,
    BPF_ALU OR BPF_AND OR BPF_X, BPF_ALU OR BPF_AND OR BPF_K,
    BPF_ALU OR BPF_OR OR BPF_X, BPF_ALU OR BPF_OR OR BPF_K,
    BPF_ALU OR BPF_LSH OR BPF_X, BPF_ALU OR BPF_LSH OR BPF_K,
    BPF_ALU OR BPF_RSH OR BPF_X, BPF_ALU OR BPF_RSH OR BPF_K,
    BPF_ALU OR BPF_XOR OR BPF_X, BPF_ALU OR BPF_XOR OR BPF_K,
    BPF_ALU OR BPF_MUL OR BPF_X, BPF_ALU OR BPF_MUL OR BPF_K,
    BPF_ALU OR BPF_DIV OR BPF_X, BPF_ALU OR BPF_DIV OR BPF_K,
    BPF_ALU OR BPF_MOD OR BPF_X, BPF_ALU OR BPF_MOD OR BPF_K,
    BPF_ALU OR BPF_NEG,
    BPF_LD OR BPF_ABS OR BPF_W, BPF_LD OR BPF_ABS OR BPF_H, BPF_LD OR BPF_ABS OR BPF_B,
    BPF_LD OR BPF_IND OR BPF_W, BPF_LD OR BPF_IND OR BPF_H, BPF_LD OR BPF_IND OR BPF_B]"

definition conv_jmp_codes :: "u16 list" where
  "conv_jmp_codes = [
    BPF_JMP OR BPF_JEQ OR BPF_K, BPF_JMP OR BPF_JEQ OR BPF_X,
    BPF_JMP OR BPF_JSET OR BPF_K, BPF_JMP OR BPF_JSET OR BPF_X,
    BPF_JMP OR BPF_JGT OR BPF_K, BPF_JMP OR BPF_JGT OR BPF_X,
    BPF_JMP OR BPF_JGE OR BPF_K, BPF_JMP OR BPF_JGE OR BPF_X]"

text \<open>Conditional jumps: up to three internal instructions.\<close>

definition conv_jmp :: "nat \<Rightarrow> nat \<Rightarrow> int list option \<Rightarrow> sock_filter \<Rightarrow> bpf_insn list result" where
  "conv_jmp len i addrs fp =
     (let code = sf_code fp; k = sf_k fp;
          (pre, src, imm, bpf_src) =
            (if BPF_SRC code = BPF_K \<and> sint k < 0
             then ([BPF_MOV32_IMM BPF_REG_TMP k], BPF_REG_TMP, 0, BPF_X)
             else ([], if BPF_SRC code = BPF_X then BPF_REG_X else 0, k, BPF_SRC (ucast code :: u8)));
          insn = (\<lambda>oper off. BPF_RAW_INSN (BPF_JMP OR oper OR bpf_src) BPF_REG_A src off imm);
          oper = BPF_OP (ucast code :: u8);
          jt = int i + uint (sf_jt fp) + 1; jf = int i + uint (sf_jf fp) + 1;
          pos = length pre
      in
      if sf_jf fp = 0 then
        rbind (emit_jmp len addrs i jt pos) (\<lambda>off. Ok (pre @ [insn oper off]))
      else if sf_jt fp = 0 \<and> oper = BPF_JEQ then
        rbind (emit_jmp len addrs i jf pos) (\<lambda>off. Ok (pre @ [insn BPF_JNE off]))
      else
        rbind (emit_jmp len addrs i jt pos) (\<lambda>off.
        rbind (emit_jmp len addrs i jf (pos + 1)) (\<lambda>off'.
          Ok (pre @ [insn oper off, BPF_RAW_INSN (BPF_JMP OR BPF_JA) 0 0 off' 0]))))"

text \<open>\<open>-(BPF_MEMWORDS - k) * 4\<close>, as an offset from the frame pointer.\<close>

definition scratch_off :: "u32 \<Rightarrow> u16" where
  "scratch_off k = ucast (- (of_nat BPF_MEMWORDS - k) * 4)"

definition conv_insn :: "skb_layout \<Rightarrow> nat \<Rightarrow> nat \<Rightarrow> int list option \<Rightarrow> sock_filter \<Rightarrow> bpf_insn list result" where
  "conv_insn L len i addrs fp =
     (let code = sf_code fp; k = sf_k fp;
          a_or_x = (\<lambda>cls. if BPF_CLASS code = cls then BPF_REG_A else BPF_REG_X)
      in
      if code \<in> set conv_alu_ld_codes then
        (case (if BPF_CLASS code = BPF_LD \<and> BPF_MODE code = BPF_ABS then convert_bpf_extensions L fp else None) of
           Some insns \<Rightarrow> Ok insns
         | None \<Rightarrow> Ok [BPF_RAW_INSN (ucast code) BPF_REG_A BPF_REG_X 0 k])
      else if code = (BPF_JMP OR BPF_JA) then
        rbind (emit_jmp len addrs i (sint (of_nat i + k + 1)) 0) (\<lambda>off.
          Ok [BPF_RAW_INSN (ucast code) 0 0 off 0])
      else if code \<in> set conv_jmp_codes then conv_jmp len i addrs fp
      else if code = (BPF_LDX OR BPF_MSH OR BPF_B) then
        Ok [BPF_MOV64_REG BPF_REG_TMP BPF_REG_A,
            BPF_LD_ABS BPF_B k,
            BPF_ALU32_IMM BPF_AND BPF_REG_A 0xf,
            BPF_ALU32_IMM BPF_LSH BPF_REG_A 2,
            BPF_MOV64_REG BPF_REG_X BPF_REG_A,
            BPF_MOV64_REG BPF_REG_A BPF_REG_TMP]
      else if code = (BPF_RET OR BPF_A) \<or> code = (BPF_RET OR BPF_K) then
        Ok [BPF_MOV32_RAW (if BPF_RVAL code = BPF_K then BPF_K else BPF_X) BPF_REG_0 BPF_REG_A k,
            BPF_EXIT_INSN]
      else if code = BPF_ST \<or> code = BPF_STX then
        Ok [BPF_STX_MEM BPF_W BPF_REG_FP (a_or_x BPF_ST) (scratch_off k)]
      else if code = (BPF_LD OR BPF_MEM) \<or> code = (BPF_LDX OR BPF_MEM) then
        Ok [BPF_LDX_MEM BPF_W (a_or_x BPF_LD) BPF_REG_FP (scratch_off k)]
      else if code = (BPF_LD OR BPF_IMM) \<or> code = (BPF_LDX OR BPF_IMM) then
        Ok [BPF_MOV32_IMM (a_or_x BPF_LD) k]
      else if code = (BPF_MISC OR BPF_TAX) then Ok [BPF_MOV64_REG BPF_REG_X BPF_REG_A]
      else if code = (BPF_MISC OR BPF_TXA) then Ok [BPF_MOV64_REG BPF_REG_A BPF_REG_X]
      else if code = (BPF_LD OR BPF_W OR BPF_LEN) \<or> code = (BPF_LDX OR BPF_W OR BPF_LEN) then
        Ok [BPF_LDX_MEM BPF_W (a_or_x BPF_LD) BPF_REG_CTX (off_len L)]
      else if code = (BPF_LDX OR BPF_ABS OR BPF_W) then
        Ok [BPF_LDX_MEM BPF_W BPF_REG_A BPF_REG_CTX (ucast k)]
      else Err EINVAL)"

section \<open>The passes\<close>

text \<open>
  The loop over the program: \<open>new\<close> are the instructions emitted so far (only their number
  is used when \<open>new_prog\<close> is NULL); \<open>addrs[i]\<close> is set before instruction \<open>i\<close> is converted.
\<close>

fun conv_loop :: "skb_layout \<Rightarrow> nat \<Rightarrow> nat \<Rightarrow> int list option \<Rightarrow> bpf_insn list \<Rightarrow> sock_filter list \<Rightarrow>
    (int list option \<times> bpf_insn list) result" where
  "conv_loop L len i addrs new [] = Ok (addrs, new)"
| "conv_loop L len i addrs new (fp # fps) =
     (let addrs = map_option (\<lambda>a. a[i := int (length new)]) addrs in
      rbind (conv_insn L len i addrs fp) (\<lambda>insns. conv_loop L len (Suc i) addrs (new @ insns) fps))"

definition conv_start :: "bpf_insn list" where
  "conv_start = [BPF_MOV64_REG BPF_REG_CTX BPF_REG_ARG1]"

definition bad_len :: "sock_filter list \<Rightarrow> bool" where
  "bad_len p \<longleftrightarrow> length p = 0 \<or> length p > BPF_MAXINSNS"

text \<open>With \<open>new_prog == NULL\<close>: only the new length is computed.\<close>

definition bpf_convert_len :: "skb_layout \<Rightarrow> sock_filter list \<Rightarrow> nat result" where
  "bpf_convert_len L p =
     (if bad_len p then Err EINVAL
      else rbind (conv_loop L (length p) 0 None conv_start p) (\<lambda>(_, new). Ok (length new)))"

text \<open>
  The passes that fill \<open>new_prog\<close>, repeated until the length is stable, at most twice more;
  \<open>BUG_ON\<close> when the final length is not the one announced.
\<close>

function do_pass :: "skb_layout \<Rightarrow> sock_filter list \<Rightarrow> nat \<Rightarrow> int list \<Rightarrow> nat \<Rightarrow> nat \<Rightarrow> bpf_insn list result" where
  "do_pass L p new_len addrs new_flen pass =
     rbind (conv_loop L (length p) 0 (Some addrs) conv_start p) (\<lambda>(addrs', new).
       if new_flen \<noteq> length new then
         (if pass + 1 > 2 then Err EINVAL
          else do_pass L p new_len (the addrs') (length new) (pass + 1))
       else if new_len \<noteq> new_flen then Undef BugOn
       else Ok new)"
  by pat_completeness auto
termination
  by (relation "measure (\<lambda>(L, p, new_len, addrs, new_flen, pass). 2 - pass)") auto

text \<open>With a buffer: \<open>mem_ok\<close> tells whether the allocation of \<open>addrs\<close> succeeds.\<close>

definition bpf_convert_filter :: "skb_layout \<Rightarrow> bool \<Rightarrow> sock_filter list \<Rightarrow> nat \<Rightarrow> bpf_insn list result" where
  "bpf_convert_filter L mem_ok p new_len =
     (if bad_len p then Err EINVAL
      else if \<not> mem_ok then Err ENOMEM
      else do_pass L p new_len (replicate (length p) 0) 0 0)"

end
