(* ===== verification/Bpf_Conv_Layout.thy ===== *)
theory Bpf_Conv_Layout
  imports Bpf_Classic Bpf_Convert
begin

text \<open>
  The shape of converted programs. The conversion is restated over decoded instructions;
  every accepted classic program converts, the passes of \<open>bpf_convert_filter\<close> reach a
  stable length, and in the result the instructions of classic instruction \<open>i\<close> start at
  \<open>pos i\<close>, with jump offsets computed from those positions.
\<close>

section \<open>Conversion of a decoded instruction\<close>

lemma jumptable_of_decode:
  assumes "cdecode c = Some ci"
  shows "case ci of
      C_ALU oper x \<Rightarrow> jumptable (ucast c) = L_ALU (if x then ALU_X oper else ALU_K oper)
    | C_DIV x \<Rightarrow> jumptable (ucast c) = L_ALU (if x then ALU_DIV_X else ALU_DIV_K)
    | C_MOD x \<Rightarrow> jumptable (ucast c) = L_ALU (if x then ALU_MOD_X else ALU_MOD_K)
    | C_NEG \<Rightarrow> jumptable (ucast c) = L_ALU ALU_NEG
    | C_LD_ABS sz \<Rightarrow> jumptable (ucast c) = L_LD (LD_ABS sz)
    | C_LD_IND sz \<Rightarrow> jumptable (ucast c) = L_LD (LD_IND sz)
    | C_JA \<Rightarrow> jumptable (ucast c) = L_JMP JMP_JA
    | C_J oper x \<Rightarrow> jumptable (BPF_JMP OR BPF_OP (ucast c) OR BPF_X) = L_JMP (JMP_X oper) \<and>
        jumptable (BPF_JMP OR BPF_OP (ucast c) OR BPF_SRC (ucast c)) = L_JMP (if x then JMP_X oper else JMP_K oper)
        \<and> (BPF_OP (ucast c :: u8) = BPF_JEQ \<longleftrightarrow> oper = J_EQ)
        \<and> BPF_SRC c = (if x then BPF_X else BPF_K) \<and> BPF_SRC (ucast c :: u8) = (if x then BPF_X else BPF_K)
    | _ \<Rightarrow> True"
  using cdecode_mem [OF assms] unfolding cdecode_table_def
  apply (simp only: list.set insert_iff empty_iff prod.inject)
  apply (elim disjE conjE)
  by (simp_all add: jumptable_def jumptable_entries_def bpf_fields)

lemma conv_insn_decode:
  assumes "cdecode (sf_code f) = Some ci"
  shows "conv_insn L n i a f =
    (let k = sf_k f; raw = Ok [BPF_RAW_INSN (ucast (sf_code f)) BPF_REG_A BPF_REG_X 0 k] in
     case ci of
       C_ALU _ _ \<Rightarrow> raw | C_DIV _ \<Rightarrow> raw | C_MOD _ \<Rightarrow> raw | C_NEG \<Rightarrow> raw | C_LD_IND _ \<Rightarrow> raw
     | C_LD_ABS sz \<Rightarrow> (case convert_bpf_extensions L f of Some ins \<Rightarrow> Ok ins | None \<Rightarrow> raw)
     | C_JA \<Rightarrow> rbind (emit_jmp n a i (sint (of_nat i + k + 1)) 0) (\<lambda>off. Ok [BPF_RAW_INSN (ucast (sf_code f)) 0 0 off 0])
     | C_J _ _ \<Rightarrow> conv_jmp n i a f
     | C_LDX_MSH \<Rightarrow>
         Ok [BPF_MOV64_REG BPF_REG_TMP BPF_REG_A, BPF_LD_ABS BPF_B k, BPF_ALU32_IMM BPF_AND BPF_REG_A 0xf,
             BPF_ALU32_IMM BPF_LSH BPF_REG_A 2, BPF_MOV64_REG BPF_REG_X BPF_REG_A, BPF_MOV64_REG BPF_REG_A BPF_REG_TMP]
     | C_RET_K \<Rightarrow> Ok [BPF_MOV32_RAW BPF_K BPF_REG_0 BPF_REG_A k, BPF_EXIT_INSN]
     | C_RET_A \<Rightarrow> Ok [BPF_MOV32_RAW BPF_X BPF_REG_0 BPF_REG_A k, BPF_EXIT_INSN]
     | C_ST \<Rightarrow> Ok [BPF_STX_MEM BPF_W BPF_REG_FP BPF_REG_A (scratch_off k)]
     | C_STX \<Rightarrow> Ok [BPF_STX_MEM BPF_W BPF_REG_FP BPF_REG_X (scratch_off k)]
     | C_LD_MEM \<Rightarrow> Ok [BPF_LDX_MEM BPF_W BPF_REG_A BPF_REG_FP (scratch_off k)]
     | C_LDX_MEM \<Rightarrow> Ok [BPF_LDX_MEM BPF_W BPF_REG_X BPF_REG_FP (scratch_off k)]
     | C_LD_IMM \<Rightarrow> Ok [BPF_MOV32_IMM BPF_REG_A k]
     | C_LDX_IMM \<Rightarrow> Ok [BPF_MOV32_IMM BPF_REG_X k]
     | C_TAX \<Rightarrow> Ok [BPF_MOV64_REG BPF_REG_X BPF_REG_A]
     | C_TXA \<Rightarrow> Ok [BPF_MOV64_REG BPF_REG_A BPF_REG_X]
     | C_LD_LEN \<Rightarrow> Ok [BPF_LDX_MEM BPF_W BPF_REG_A BPF_REG_CTX (off_len L)]
     | C_LDX_LEN \<Rightarrow> Ok [BPF_LDX_MEM BPF_W BPF_REG_X BPF_REG_CTX (off_len L)])"
  using cdecode_mem [OF assms] unfolding cdecode_table_def
  apply (simp only: list.set insert_iff empty_iff prod.inject)
  apply (elim disjE conjE)
  by (simp_all add: conv_insn_def conv_alu_ld_codes_def conv_jmp_codes_def BPF_CLASS_def BPF_MODE_def BPF_RVAL_def
      split: option.split)


section \<open>Lengths and positions\<close>

text \<open>How many internal instructions a classic instruction becomes.\<close>

definition ilen :: "skb_layout \<Rightarrow> sock_filter \<Rightarrow> nat" where
  "ilen L f =
     (case cdecode (sf_code f) of
        Some (C_LD_ABS sz) \<Rightarrow> (case convert_bpf_extensions L f of Some ins \<Rightarrow> length ins | None \<Rightarrow> 1)
      | Some (C_J oper x) \<Rightarrow>
          (if \<not> x \<and> sint (sf_k f) < 0 then 1 else 0) +
          (if sf_jf f = 0 \<or> sf_jt f = 0 \<and> oper = J_EQ then 1 else 2)
      | Some C_LDX_MSH \<Rightarrow> 6 | Some C_RET_K \<Rightarrow> 2 | Some C_RET_A \<Rightarrow> 2 | _ \<Rightarrow> 1)"

lemma convert_bpf_extensions_len:
  "convert_bpf_extensions L f = Some ins \<Longrightarrow> 0 < length ins \<and> length ins \<le> 4"
  by (auto simp: convert_bpf_extensions_def convert_skb_access_def Let_def split: if_splits)

lemma ilen_bounds: "0 < ilen L f \<and> ilen L f \<le> 6"
  using convert_bpf_extensions_len [of L f]
  by (auto simp: ilen_def split: option.splits cinsn.splits)

definition joff :: "int list option \<Rightarrow> nat \<Rightarrow> nat \<Rightarrow> u16" where
  "joff a i t = (case a of None \<Rightarrow> 0 | Some a \<Rightarrow> word_of_int (a ! t - a ! i - 1))"

lemma emit_jmp_eq: "t < n \<Longrightarrow> emit_jmp n a i (int t) pos = Ok (joff a i t - of_nat pos)"
  by (simp add: emit_jmp_def joff_def split: option.split)

lemma ja_target:
  assumes "i + unat k + 1 < n" and "n \<le> BPF_MAXINSNS"
  shows "sint (of_nat i + k + 1 :: u32) = int (i + unat k + 1)"
proof -
  have "of_nat i + k + 1 = (of_nat (i + unat k + 1) :: u32)" by simp
  moreover have "signed_take_bit 31 (int (i + unat k + 1)) = int (i + unat k + 1)"
  proof (rule signed_take_bit_int_eq_self)
    have "- (2 ^ 31) \<le> (0 :: int)" by simp
    then show "- (2 ^ 31) \<le> int (i + unat k + 1)" by (rule order_trans) (rule of_nat_0_le_iff)
    have "int (i + unat k + 1) < int 4096" using assms by (intro iffD2 [OF of_nat_less_iff]) linarith
    then show "int (i + unat k + 1) < 2 ^ 31" by (rule order_less_le_trans) simp
  qed
  moreover have "sint (of_nat m :: u32) = signed_take_bit 31 (int m)" for m by (simp add: signed_of_nat)
  ultimately show ?thesis by (simp only:)
qed

lemma conv_insn_total:
  assumes "cdecode (sf_code f) = Some ci" and "insn_ok n i f ci" and "n \<le> BPF_MAXINSNS"
  shows "\<exists>ins. conv_insn L n i a f = Ok ins \<and> length ins = ilen L f"
proof (cases ci)
  case C_JA
  then show ?thesis
    using assms ja_target [of i "sf_k f" n] emit_jmp_eq [of "i + unat (sf_k f) + 1" n a i 0]
    by (simp add: conv_insn_decode ilen_def Let_def)
next
  case (C_J oper x)
  have "emit_jmp n a i (int i + uint (sf_jt f) + 1) q = Ok (joff a i (i + unat (sf_jt f) + 1) - of_nat q)"
    "emit_jmp n a i (int i + uint (sf_jf f) + 1) q = Ok (joff a i (i + unat (sf_jf f) + 1) - of_nat q)" for q
    using assms C_J emit_jmp_eq [of "i + unat (sf_jt f) + 1" n a i q]
      emit_jmp_eq [of "i + unat (sf_jf f) + 1" n a i q] by (simp_all add: algebra_simps)
  then show ?thesis using assms(1) C_J jumptable_of_decode [OF assms(1)]
    by (cases x) (auto simp: conv_insn_decode ilen_def conv_jmp_def Let_def)
qed (use assms in \<open>auto simp: conv_insn_decode ilen_def Let_def split: option.split\<close>)

text \<open>Where the instructions for classic instruction \<open>i\<close> start in the converted program.\<close>

definition pos :: "skb_layout \<Rightarrow> sock_filter list \<Rightarrow> nat \<Rightarrow> nat" where
  "pos L p i = 1 + sum_list (map (ilen L) (take i p))"

lemma pos_Suc: "i < length p \<Longrightarrow> pos L p (Suc i) = pos L p i + ilen L (p ! i)"
  by (simp add: pos_def take_Suc_conv_app_nth)

lemma pos_bound: "pos L p i \<le> 1 + 6 * i"
proof -
  have "sum_list (map (ilen L) xs) \<le> 6 * length xs" for xs
    using ilen_bounds [of L] by (induction xs) (auto intro!: add_mono)
  from this [of "take i p"] show ?thesis by (simp add: pos_def)
qed

lemma pos_mono: "i \<le> j \<Longrightarrow> pos L p i \<le> pos L p j"
proof -
  assume "i \<le> j"
  then have "take j p = take i p @ drop i (take j p)" by (metis append_take_drop_id min.absorb1 take_take)
  then have "sum_list (map (ilen L) (take j p)) = sum_list (map (ilen L) (take i p)) + sum_list (map (ilen L) (drop i (take j p)))"
    by (metis map_append sum_list_append)
  then show ?thesis by (simp add: pos_def)
qed

definition positions :: "skb_layout \<Rightarrow> sock_filter list \<Rightarrow> int list" where
  "positions L p = map (\<lambda>i. int (pos L p i)) [0..<length p]"


text \<open>Every pass over a program of convertible instructions succeeds and emits \<open>ilen\<close> instructions per classic one.\<close>

definition conv_ok :: "skb_layout \<Rightarrow> sock_filter list \<Rightarrow> bool" where
  "conv_ok L p \<longleftrightarrow> \<not> bad_len p \<and>
     (\<forall>i < length p. \<forall>a. \<exists>ins. conv_insn L (length p) i a (p ! i) = Ok ins \<and> length ins = ilen L (p ! i))"

lemma checked_conv_ok:
  assumes chk: "bpf_check_classic mem_ok p = Ok ()"
  shows "conv_ok L p"
  unfolding conv_ok_def
proof (intro conjI allI impI)
  show "\<not> bad_len p" using check_classic_facts(1,2) [OF chk] by (simp add: bad_len_def)
  fix i a assume "i < length p"
  then show "\<exists>ins. conv_insn L (length p) i a (p ! i) = Ok ins \<and> length ins = ilen L (p ! i)"
    using check_classic_decodes [OF chk] conv_insn_total check_classic_facts(2) [OF chk] by metis
qed

lemma conv_loop_total:
  assumes ok: "conv_ok L p"
  shows "fps = drop i p \<Longrightarrow> i \<le> length p \<Longrightarrow> length new = pos L p i \<Longrightarrow>
    \<exists>a' new'. conv_loop L (length p) i a new fps = Ok (a', new') \<and> length new' = pos L p (length p)"
proof (induction fps arbitrary: i a new)
  case Nil
  then show ?case by simp
next
  case (Cons f fps)
  note i = drop_eq_ConsD(1) [OF Cons.prems(1)] and f = drop_eq_ConsD(2) [OF Cons.prems(1)]
    and fps = drop_eq_ConsD(3) [OF Cons.prems(1)]
  let ?a = "map_option (\<lambda>a. a[i := int (length new)]) a"
  obtain ins where ins: "conv_insn L (length p) i ?a f = Ok ins" "length ins = ilen L f"
    using ok i f unfolding conv_ok_def by metis
  have "length (new @ ins) = pos L p (Suc i)" using Cons.prems(3) ins(2) f pos_Suc [OF i] by simp
  then show ?case using Cons.IH [OF fps, of "new @ ins" ?a] i ins(1) by simp
qed

lemma conv_loop_addrs:
  "conv_loop L n i (Some a) new fps = Ok (a', new') \<Longrightarrow> fps = drop i p \<Longrightarrow> i \<le> length p \<Longrightarrow>
   length a = length p \<Longrightarrow> length new = pos L p i \<Longrightarrow>
   (\<And>j ins a. i \<le> j \<Longrightarrow> j < length p \<Longrightarrow> conv_insn L n j a (p ! j) = Ok ins \<Longrightarrow> length ins = ilen L (p ! j)) \<Longrightarrow>
   (\<And>j. j < i \<Longrightarrow> a ! j = int (pos L p j)) \<Longrightarrow> a' = Some (positions L p)"
proof (induction fps arbitrary: i a new)
  case Nil
  then show ?case by (auto simp: positions_def intro!: nth_equalityI)
next
  case (Cons f fps)
  note i = drop_eq_ConsD(1) [OF Cons.prems(2)] and f = drop_eq_ConsD(2) [OF Cons.prems(2)]
    and fps = drop_eq_ConsD(3) [OF Cons.prems(2)]
  let ?a = "a[i := int (length new)]"
  obtain ins where ins: "conv_insn L n i (Some ?a) f = Ok ins"
    and rest: "conv_loop L n (Suc i) (Some ?a) (new @ ins) fps = Ok (a', new')"
    using Cons.prems(1) by (auto simp: Let_def)
  have len: "length ins = ilen L f" using Cons.prems(6) [OF order_refl i] ins f by auto
  show ?case
  proof (rule Cons.IH [OF rest fps])
    show "length (new @ ins) = pos L p (Suc i)" using Cons.prems(5) len f pos_Suc [OF i] by simp
    show "?a ! j = int (pos L p j)" if "j < Suc i" for j
      using that Cons.prems(4,5,7) i by (cases "j = i") auto
  qed (use i Cons.prems(4,6) in auto)
qed

text \<open>
  The layout of the final program: instruction \<open>i\<close>'s block, converted with the final
  addresses, sits at \<open>pos i\<close>.
\<close>

definition conv_layout :: "skb_layout \<Rightarrow> sock_filter list \<Rightarrow> bpf_insn list \<Rightarrow> bool" where
  "conv_layout L p P \<longleftrightarrow> length P = pos L p (length p) \<and> P ! 0 = BPF_MOV64_REG BPF_REG_CTX BPF_REG_ARG1 \<and>
     (\<forall>i < length p. \<exists>ins. conv_insn L (length p) i (Some (positions L p)) (p ! i) = Ok ins \<and>
        length ins = ilen L (p ! i) \<and> (\<forall>j < length ins. P ! (pos L p i + j) = ins ! j))"

lemma conv_loop_layout:
  "conv_loop L n i (Some (positions L p)) new fps = Ok (a', P) \<Longrightarrow> fps = drop i p \<Longrightarrow> i \<le> length p \<Longrightarrow>
   length new = pos L p i \<Longrightarrow>
   (\<And>j ins a. i \<le> j \<Longrightarrow> j < length p \<Longrightarrow> conv_insn L n j a (p ! j) = Ok ins \<Longrightarrow> length ins = ilen L (p ! j)) \<Longrightarrow>
   (\<exists>post. P = new @ post) \<and>
   (\<forall>k. i \<le> k \<longrightarrow> k < length p \<longrightarrow> (\<exists>ins. conv_insn L n k (Some (positions L p)) (p ! k) = Ok ins \<and>
        length ins = ilen L (p ! k) \<and> (\<forall>j < length ins. P ! (pos L p k + j) = ins ! j)))"
proof (induction fps arbitrary: i new)
  case Nil
  then show ?case by auto
next
  case (Cons f fps)
  note i = drop_eq_ConsD(1) [OF Cons.prems(2)] and f = drop_eq_ConsD(2) [OF Cons.prems(2)]
    and fps = drop_eq_ConsD(3) [OF Cons.prems(2)]
  have same: "(positions L p)[i := int (length new)] = positions L p"
    using i Cons.prems(4) by (intro nth_equalityI) (auto simp: positions_def nth_list_update)
  obtain ins where ins: "conv_insn L n i (Some (positions L p)) f = Ok ins"
    and rest: "conv_loop L n (Suc i) (Some (positions L p)) (new @ ins) fps = Ok (a', P)"
    using Cons.prems(1) same by (auto simp: Let_def)
  have len: "length ins = ilen L f" using Cons.prems(5) [OF order_refl i] ins f by auto
  have len': "length (new @ ins) = pos L p (Suc i)" using Cons.prems(4) len f pos_Suc [OF i] by simp
  note IH = Cons.IH [OF rest fps _ len', OF _ Cons.prems(5)]
  then obtain post where P: "P = (new @ ins) @ post" using i by fastforce
  have here: "\<forall>j < length ins. P ! (pos L p i + j) = ins ! j"
    using P Cons.prems(4) by (auto simp: nth_append)
  show ?case
  proof (intro conjI allI impI)
    show "\<exists>post. P = new @ post" using P by auto
    fix k assume k: "i \<le> k" "k < length p"
    show "\<exists>ins. conv_insn L n k (Some (positions L p)) (p ! k) = Ok ins \<and>
        length ins = ilen L (p ! k) \<and> (\<forall>j < length ins. P ! (pos L p k + j) = ins ! j)"
    proof (cases "k = i")
      case True
      then show ?thesis using here ins len f by auto
    next
      case False
      then show ?thesis using IH k i by auto
    qed
  qed
qed

text \<open>
  Such a program converts without error once memory is available, and the result has
  the announced length and the layout above.
\<close>

lemma convert_conv_ok:
  assumes ok: "conv_ok L p"
  obtains P where "bpf_convert_len L p = Ok (length P)" and "bpf_convert_filter L True p (length P) = Ok P"
    and "conv_layout L p P"
proof -
  let ?n = "length p"
  have bl: "\<not> bad_len p" using ok by (simp add: conv_ok_def)
  have s0: "length conv_start = pos L p 0" by (simp add: conv_start_def pos_def)
  have p0: "p = drop 0 p" by simp
  have clen: "length ins = ilen L (p ! j)" if "j < ?n" "conv_insn L ?n j a (p ! j) = Ok ins" for j ins a
    using ok that unfolding conv_ok_def by (metis result.inject(1))
  obtain a0 P0 where e0: "conv_loop L ?n 0 None conv_start p = Ok (a0, P0)" "length P0 = pos L p ?n"
    using conv_loop_total [OF ok p0 _ s0, of None] by auto
  obtain a1 P1 where e1: "conv_loop L ?n 0 (Some (replicate ?n 0)) conv_start p = Ok (a1, P1)" "length P1 = pos L p ?n"
    using conv_loop_total [OF ok p0 _ s0, of "Some (replicate ?n 0)"] by auto
  have a1: "a1 = Some (positions L p)"
    using conv_loop_addrs [OF e1(1) p0 _ _ s0] clen by auto
  obtain a2 P2 where e2: "conv_loop L ?n 0 (Some (positions L p)) conv_start p = Ok (a2, P2)" "length P2 = pos L p ?n"
    using conv_loop_total [OF ok p0 _ s0, of "Some (positions L p)"] by auto
  have lay: "(\<exists>post. P2 = conv_start @ post) \<and>
   (\<forall>k. 0 \<le> k \<longrightarrow> k < ?n \<longrightarrow> (\<exists>ins. conv_insn L ?n k (Some (positions L p)) (p ! k) = Ok ins \<and>
        length ins = ilen L (p ! k) \<and> (\<forall>j < length ins. P2 ! (pos L p k + j) = ins ! j)))"
    using conv_loop_layout [OF e2(1) p0 _ s0] clen by auto
  have "P1 \<noteq> []" using e1(2) by (auto simp: pos_def)
  then have "do_pass L p (length P2) (replicate ?n 0) 0 0 = Ok P2"
    using e1 e2 a1 by (simp add: do_pass.simps [of L p _ "replicate ?n 0"] do_pass.simps [of L p _ "positions L p"])
  then have "bpf_convert_filter L True p (length P2) = Ok P2" using bl by (simp add: bpf_convert_filter_def)
  moreover have "bpf_convert_len L p = Ok (length P2)" using bl e0 e2 by (simp add: bpf_convert_len_def)
  moreover have "conv_layout L p P2" using lay e2(2) by (auto simp: conv_layout_def conv_start_def)
  ultimately show thesis using that by blast
qed

lemma convert_checked:
  assumes chk: "bpf_check_classic mem_ok p = Ok ()"
  obtains P where "bpf_convert_len L p = Ok (length P)" and "bpf_convert_filter L True p (length P) = Ok P"
    and "conv_layout L p P"
  using convert_conv_ok [OF checked_conv_ok [OF chk]] that by blast

end
