(* ===== verification/Bpf_Conv_Correct.thy ===== *)
theory Bpf_Conv_Correct
  imports Bpf_Conv_Layout
begin

text \<open>
  The converted program computes what the classic program means: every classic instruction
  is simulated by the block of internal instructions \<^verbatim>\<open>bpf_convert_filter\<close> emits for it
  (\<open>block_sim\<close>), and a whole run of \<^verbatim>\<open>__bpf_prog_run\<close> on the converted program returns what the
  classic machine returns (\<open>convert_run\<close>).
\<close>

section \<open>Words\<close>

lemma ucast_uminus_u64_u32: "(ucast (- x :: u64) :: u32) = - ucast x"
proof -
  have "ucast x + ucast (- x) = (ucast (x + - x) :: u32)" by (rule ucast_add_u64_u32 [symmetric])
  then show ?thesis by (simp add: eq_neg_iff_add_eq_0 add.commute)
qed

lemma of_be_bits: "(\<And>n. m \<le> n \<Longrightarrow> \<not> bit acc n) \<Longrightarrow> m + 8 * length bs \<le> n \<Longrightarrow> \<not> bit (of_be acc bs) n"
proof (induction bs arbitrary: acc m)
  case (Cons b bs)
  show ?case
  proof (simp, rule Cons.IH [of "m + 8"])
    fix n assume "m + 8 \<le> n"
    then show "\<not> bit (push_bit 8 acc OR ucast b) n"
      using Cons.prems(1) [of "n - 8"] by (auto simp: bit_simps dest: bit_imp_le_length)
  qed (use Cons.prems(2) in simp)
qed auto

lemma of_be_u32: "length bs \<le> 4 \<Longrightarrow> ucast (ucast (of_be 0 bs) :: u32) = of_be 0 bs"
proof (rule bit_word_eqI)
  fix n assume len: "length bs \<le> 4"
  have "n < 32" if "bit (of_be 0 bs) n" using of_be_bits [of 0 0 bs n] that len by (cases "n < 32") simp_all
  then show "bit (ucast (ucast (of_be 0 bs) :: u32) :: u64) n = bit (of_be 0 bs) n"
    by (auto simp: bit_simps dest: bit_imp_le_length)
qed

lemma sint_u16_small:
  assumes "- 32768 \<le> y" and "y < 32768"
  shows "sint (word_of_int y :: u16) = y"
  using assms by (simp add: signed_of_int signed_take_bit_int_eq_self)

lemma scratch_off_nat:
  assumes "n < 16"
  shows "scast (scratch_off (of_nat n)) = (4 * of_nat n - 64 :: u64)"
proof -
  have "n \<in> {0,1,2,3,4,5,6,7,8,9,10,11,12,13,14,15}"
    using assms by (simp only: insert_iff empty_iff) arith
  then show ?thesis by (elim insertE emptyE) (simp_all add: scratch_off_def)
qed

lemma scratch_off_addr:
  "unat k < 16 \<Longrightarrow> fp + scast (scratch_off k) = (fp - 64 + 4 * of_nat (unat k) :: u64)"
  using scratch_off_nat [of "unat k"] by simp

lemma scratch_disjoint:
  assumes "x < 16" and "y < 16" and "x \<noteq> y" and "i < 4" and "j < 4"
  shows "(fp - 64 + 4 * of_nat x) + of_nat i \<noteq> (fp - 64 + 4 * of_nat y) + (of_nat j :: u64)"
proof
  assume "(fp - 64 + 4 * of_nat x) + of_nat i = (fp - 64 + 4 * of_nat y) + (of_nat j :: u64)"
  then have "(of_nat (4 * x + i) :: u64) = of_nat (4 * y + j)" by (simp add: algebra_simps)
  then have "4 * x + i = 4 * y + j" using assms by (subst (asm) of_nat_u64_eq_iff) simp_all
  then show False using assms by arith
qed

lemmas jumptable_eval = jumptable_def jumptable_entries_def

lemma jumptable_codes [simp]:
  "jumptable 0xbf = L_ALU ALU64_MOV_X" "jumptable 0xb4 = L_ALU ALU_MOV_K" "jumptable 0xbc = L_ALU ALU_MOV_X"
  "jumptable 0x54 = L_ALU (ALU_K A_AND)" "jumptable 0x64 = L_ALU (ALU_K A_LSH)"
  "jumptable 0x95 = L_JMP JMP_EXIT" "jumptable 0x05 = L_JMP JMP_JA"
  "jumptable 0x55 = L_JMP (JMP_K J_NE)" "jumptable 0x5d = L_JMP (JMP_X J_NE)"
  "jumptable 0x61 = L_MEM (LDX_MEM SZ_W)" "jumptable 0x63 = L_MEM (STX_MEM SZ_W)"
  "jumptable 0x30 = L_LD (LD_ABS SZ_B)"
  by (simp_all add: jumptable_eval)


section \<open>Runs of a block\<close>

fun exec_n :: "bpf_env \<Rightarrow> nat \<Rightarrow> bpf_state \<Rightarrow> bpf_state outcome" where
  "exec_n env 0 st = Cont st"
| "exec_n env (Suc k) st = (case select_insn env st of Cont st' \<Rightarrow> exec_n env k st' | Return r \<Rightarrow> Return r | Crash u \<Rightarrow> Crash u)"

lemma bpf_run_exec_n:
  "exec_n env k st = Cont st' \<Longrightarrow> bpf_run env (k + m) st = bpf_run env m st'"
  "exec_n env k st = Return r \<Longrightarrow> bpf_run env (k + m) st = Some (Inl r)"
  "exec_n env k st = Crash u \<Longrightarrow> bpf_run env (k + m) st = Some (Inr u)"
  by (induction k arbitrary: st) (auto split: outcome.splits)

text \<open>The relation between a state of the interpreter and a state of the classic machine.\<close>

definition sim :: "skb_layout \<Rightarrow> sock_filter list \<Rightarrow> bpf_insn list \<Rightarrow> u64 \<Rightarrow> u64 \<Rightarrow> u32 \<Rightarrow> bpf_state \<Rightarrow> cstate \<Rightarrow> bool" where
  "sim L p P fp ctx plen st c \<longleftrightarrow>
     insn_prog st = P \<and> insn_pc st = int (pos L p (cpc c)) \<and>
     regs st 0 = ucast (cA c) \<and> regs st 7 = ucast (cX c) \<and> regs st 6 = ctx \<and> regs st 10 = fp \<and>
     (\<forall>k < 16. load (memory st) (fp - 64 + 4 * of_nat k) 4 = Some (ucast (cM c k))) \<and>
     load (memory st) (ctx + scast (off_len L)) 4 = Some (ucast plen)"

fun matches :: "(bpf_state \<Rightarrow> cstate \<Rightarrow> bool) \<Rightarrow> bpf_state outcome \<Rightarrow> cstate outcome \<Rightarrow> bool" where
  "matches S (Cont st) (Cont c) \<longleftrightarrow> S st c"
| "matches S (Return r) (Return r') \<longleftrightarrow> r = r'"
| "matches S (Crash u) (Crash u') \<longleftrightarrow> u = u'"
| "matches S _ _ \<longleftrightarrow> False"

text \<open>Fetching the \<open>j\<close>-th instruction of the block of classic instruction \<open>i\<close>.\<close>

lemma select_block:
  assumes lay: "conv_layout L p P" and i: "i < length p"
    and ins: "conv_insn L (length p) i (Some (positions L p)) (p ! i) = Ok ins"
    and st: "insn_prog st = P" "insn_pc st = int (pos L p i) + int j" and j: "j < length ins"
  shows "select_insn env st =
    (if uses_dst (jumptable (bi_code (ins ! j))) \<and> bi_dst (ins ! j) > 10 \<or>
        uses_src (jumptable (bi_code (ins ! j))) \<and> bi_src (ins ! j) > 10 then Crash BadReg
     else exec_label env (jumptable (bi_code (ins ! j))) (ins ! j) st)"
proof -
  have P: "P ! (pos L p i + j) = ins ! j" and len: "length ins = ilen L (p ! i)"
    using lay i ins j by (auto simp: conv_layout_def)
  have "pos L p i + j < pos L p (Suc i)" using j len pos_Suc [OF i] by simp
  also have "\<dots> \<le> length P" using lay i pos_mono [of "Suc i" "length p"] by (simp add: conv_layout_def)
  finally show ?thesis using st P by (simp add: select_insn_def Let_def nat_add_distrib)
qed

lemma jump_offset:
  assumes "t < length p" and "i < length p" and "length p \<le> BPF_MAXINSNS" and "q \<le> 2"
  shows "sint (joff (Some (positions L p)) i t - of_nat q) = int (pos L p t) - int (pos L p i) - 1 - int q"
proof -
  have "pos L p t \<le> 24577" "pos L p i \<le> 24577"
    using pos_bound [of L p t] pos_bound [of L p i] assms by linarith+
  moreover have "joff (Some (positions L p)) i t - of_nat q
      = word_of_int (int (pos L p t) - int (pos L p i) - 1 - int q)"
    using assms by (simp add: joff_def positions_def)
  ultimately show ?thesis using assms(4) by (simp only:) (rule sint_u16_small, linarith+)
qed



lemma alu_block_sim:
  assumes "sim L p P fp ctx plen st c" and "i = cpc c" and "pos L p (Suc i) = pos L p i + 1"
    and "select_insn env st = exec_alu lab (BPF_RAW_INSN code 0 7 0 k) st"
    and "case ci of C_ALU oper x \<Rightarrow> lab = (if x then ALU_X oper else ALU_K oper)
         | C_DIV x \<Rightarrow> lab = (if x then ALU_DIV_X else ALU_DIV_K)
         | C_MOD x \<Rightarrow> lab = (if x then ALU_MOD_X else ALU_MOD_K)
         | C_NEG \<Rightarrow> lab = ALU_NEG | _ \<Rightarrow> False"
    and "k = sf_k f"
  shows "matches (sim L p P fp ctx plen) (select_insn env st) (cexec ld plen ci f c)"
proof (cases ci)
  case (C_ALU oper x)
  then show ?thesis using assms
    by (cases oper "cA c" "opnd x (sf_k f) c" rule: alu_eval_cases)
      (auto simp: sim_def CONT_def set_reg_def cnext_def BPF_RAW_INSN_def opnd_def)
qed (use assms in \<open>auto simp: sim_def CONT_def set_reg_def cnext_def BPF_RAW_INSN_def opnd_def Let_def ucast_uminus_u64_u32 split: if_splits\<close>)

text \<open>Loads from the packet.\<close>

lemma load_skb_sim:
  assumes "sim L p P fp ctx plen st c" and "pos L p (Suc (cpc c)) = pos L p (cpc c) + 1"
    and "env_skb env ctx = Some skb" and "skb_wf skb" and "sz \<noteq> SZ_DW"
  shows "matches (sim L p P fp ctx plen) (load_skb env sz off st)
    (cload (bpf_load_pointer skb off (size_bytes sz)) (\<lambda>v. cnext (c\<lparr>cA := v\<rparr>)))"
proof -
  obtain r where r: "bpf_load_pointer skb off (size_bytes sz) = Ok r" using skb.pload_total [OF assms(4)] by blast
  have "size_bytes sz \<le> 4" using assms(5) by (cases sz) auto
  then have "ucast (ucast (of_be 0 bs) :: u32) = of_be 0 bs" if "r = Some bs" for bs
    using skb.pload_length [OF assms(4)] r that by (intro of_be_u32) auto
  then show ?thesis using assms r
    by (cases r) (auto simp: load_skb_def cload_def sim_def CONT_def set_reg_def cnext_def)
qed

text \<open>Accesses to the scratch words.\<close>

definition len_separate :: "skb_layout \<Rightarrow> u64 \<Rightarrow> u64 \<Rightarrow> bool" where
  "len_separate L fp ctx \<longleftrightarrow>
     (\<forall>i < 4. \<forall>j < 64. ctx + scast (off_len L) + of_nat i \<noteq> fp - 64 + of_nat j)"

lemma scratch_store_sim:
  assumes sim: "sim L p P fp ctx plen st c" and k: "unat k < 16" and sep: "len_separate L fp ctx"
    and p1: "pos L p (Suc (cpc c)) = pos L p (cpc c) + 1"
  shows "matches (sim L p P fp ctx plen)
    (store_cont (store (memory st) (fp + scast (scratch_off k)) 4 (ucast (v :: u32))) st)
    (cnext (c\<lparr>cM := (cM c)(unat k := v)\<rparr>))"
proof -
  let ?a = "\<lambda>n. fp - 64 + 4 * of_nat n"
  have a: "fp + scast (scratch_off k) = ?a (unat k)" using scratch_off_addr [OF k] .
  have "load (memory st) (?a (unat k)) 4 = Some (ucast (cM c (unat k)))" using sim k by (auto simp: sim_def)
  then obtain m where m: "store (memory st) (?a (unat k)) 4 (ucast v) = Some m" using store_mapped by blast
  have same: "load m (?a (unat k)) 4 = Some (ucast v)"
    using store_load_same [OF m] by (simp add: take_bit_32_u64)
  have other: "load m (?a n) 4 = load (memory st) (?a n) 4" if "n < 16" "n \<noteq> unat k" for n
    using that k scratch_disjoint [of "unat k" n _ _ fp] by (intro store_load_other [OF m]) auto
  have "?a (unat k) + of_nat i \<noteq> ctx + scast (off_len L) + of_nat j" if "i < 4" "j < 4" for i j
  proof -
    have "4 * unat k + i < 64" using k that by simp
    then have "ctx + scast (off_len L) + of_nat j \<noteq> fp - 64 + of_nat (4 * unat k + i)"
      using sep that(2) unfolding len_separate_def by blast
    then show ?thesis by (simp add: algebra_simps)
  qed
  then have len: "load m (ctx + scast (off_len L)) 4 = load (memory st) (ctx + scast (off_len L)) 4"
    by (intro store_load_other [OF m]) auto
  have "\<forall>n < 16. load m (?a n) 4 = Some (ucast (((cM c)(unat k := v)) n))"
    using same other sim by (auto simp: sim_def)
  then show ?thesis unfolding a m store_cont_def
    using sim len p1 by (simp add: sim_def CONT_def cnext_def)
qed



text \<open>Conditional jumps.\<close>

definition jneg :: "bool \<Rightarrow> u32 \<Rightarrow> bool" where
  "jneg x k \<longleftrightarrow> \<not> x \<and> sint k < 0"

definition jpre :: "bool \<Rightarrow> u32 \<Rightarrow> bpf_insn list" where
  "jpre x k = (if jneg x k then [BPF_MOV32_IMM BPF_REG_TMP k] else [])"

definition jcmp :: "u8 \<Rightarrow> bool \<Rightarrow> u32 \<Rightarrow> u16 \<Rightarrow> bpf_insn" where
  "jcmp oper x k off =
     BPF_RAW_INSN (BPF_JMP OR oper OR (if x \<or> jneg x k then BPF_X else BPF_K)) BPF_REG_A
       (if jneg x k then BPF_REG_TMP else if x then BPF_REG_X else 0) off (if jneg x k then 0 else k)"

lemma conv_jmp_eq:
  assumes dec: "cdecode (sf_code f) = Some (C_J oper x)"
    and t: "i + unat (sf_jt f) + 1 < n" and e: "i + unat (sf_jf f) + 1 < n"
  shows "conv_jmp n i a f =
    Ok (jpre x (sf_k f) @
      (let q = length (jpre x (sf_k f)); oc = BPF_OP (ucast (sf_code f));
           ot = joff a i (i + unat (sf_jt f) + 1); oe = joff a i (i + unat (sf_jf f) + 1) in
       if sf_jf f = 0 then [jcmp oc x (sf_k f) (ot - of_nat q)]
       else if sf_jt f = 0 \<and> oper = J_EQ then [jcmp BPF_JNE x (sf_k f) (oe - of_nat q)]
       else [jcmp oc x (sf_k f) (ot - of_nat q), BPF_RAW_INSN 0x05 0 0 (oe - of_nat (q + 1)) 0]))"
proof -
  have "emit_jmp n a i (int i + uint (sf_jt f) + 1) q = Ok (joff a i (i + unat (sf_jt f) + 1) - of_nat q)"
    "emit_jmp n a i (int i + uint (sf_jf f) + 1) q = Ok (joff a i (i + unat (sf_jf f) + 1) - of_nat q)" for q
    using t e emit_jmp_eq [of "i + unat (sf_jt f) + 1" n a i q]
      emit_jmp_eq [of "i + unat (sf_jf f) + 1" n a i q] by (simp_all add: algebra_simps)
  then show ?thesis using jumptable_of_decode [OF dec]
    by (cases x; cases "sint (sf_k f) < 0")
      (simp_all add: conv_jmp_def jpre_def jcmp_def jneg_def Let_def)
qed

lemma cjump_ops: "cdecode c = Some (C_J oper x) \<Longrightarrow> oper \<in> {J_EQ, J_GE, J_GT, J_SET}"
  using cdecode_mem [of c "C_J oper x"] by (auto simp: cdecode_table_def)

lemma jmp_taken_ucast:
  "oper \<in> {J_EQ, J_NE, J_GE, J_GT, J_SET} \<Longrightarrow> jmp_taken oper (ucast (a :: u32)) (ucast b) = cjmp_taken oper a b"
  by (auto simp: ucast_u32_u64_and)

text \<open>The comparison at position \<open>q\<close> of the block, after the prefix has run.\<close>

lemma jcmp_step:
  assumes sel: "select_insn env st =
      exec_label env (jumptable (bi_code (jcmp oc x k off))) (jcmp oc x k off) st"
    and lab: "jumptable (BPF_JMP OR oc OR BPF_X) = L_JMP (JMP_X oper)"
      "\<not> x \<Longrightarrow> jumptable (BPF_JMP OR oc OR BPF_K) = L_JMP (JMP_K oper)"
    and oper: "oper \<in> {J_EQ, J_NE, J_GE, J_GT, J_SET}"
    and regs: "regs st 0 = ucast (cA c)" "regs st 7 = ucast (cX c)" "jneg x k \<Longrightarrow> regs st 8 = ucast k"
  shows "select_insn env st =
    Cont (st\<lparr>insn_pc := insn_pc st + (if cjmp_taken oper (cA c) (opnd x k c) then sint off else 0) + 1\<rparr>)"
proof -
  have "\<not> jneg x k \<Longrightarrow> \<not> x \<Longrightarrow> (scast k :: u64) = ucast k"
    by (intro scast_eq_ucast_nonneg) (simp add: jneg_def)
  then show ?thesis using sel lab regs jmp_taken_ucast [OF oper]
    by (cases x; cases "jneg x k")
      (auto simp: jcmp_def BPF_RAW_INSN_def jneg_def CONT_JMP_def CONT_def opnd_def)
qed


lemma exec_n_add: "exec_n env k st = Cont st' \<Longrightarrow> exec_n env (k + m) st = exec_n env m st'"
  by (induction k arbitrary: st) (auto split: outcome.splits)

text \<open>The state before the comparison: only the temporary register and the program counter have moved.\<close>

definition at_cmp :: "skb_layout \<Rightarrow> sock_filter list \<Rightarrow> bpf_insn list \<Rightarrow> u64 \<Rightarrow> u64 \<Rightarrow> u32 \<Rightarrow> bool \<Rightarrow> bpf_state \<Rightarrow> cstate \<Rightarrow> bool" where
  "at_cmp L p P fp ctx plen x st c \<longleftrightarrow>
     (let k = sf_k (p ! cpc c) in
      (jneg x k \<longrightarrow> regs st 8 = ucast k) \<and> insn_pc st = int (pos L p (cpc c)) + int (length (jpre x k)) \<and>
      (\<forall>t. sim L p P fp ctx plen (st\<lparr>insn_pc := int (pos L p t)\<rparr>) (c\<lparr>cpc := t\<rparr>)))"

lemma prefix_run:
  assumes lay: "conv_layout L p P" and i: "cpc c < length p"
    and ins: "conv_insn L (length p) (cpc c) (Some (positions L p)) (p ! cpc c) = Ok (jpre x (sf_k (p ! cpc c)) @ rest)"
    and sim: "sim L p P fp ctx plen st c"
  shows "\<exists>st1. exec_n env (length (jpre x (sf_k (p ! cpc c)))) st = Cont st1 \<and> at_cmp L p P fp ctx plen x st1 c"
proof (cases "jneg x (sf_k (p ! cpc c))")
  case True
  then have "select_insn env st = CONT (set_reg 8 (ucast (sf_k (p ! cpc c))) st)"
    using select_block [OF lay i ins, of st 0] sim by (simp add: sim_def jpre_def bpf_macros)
  then show ?thesis using True sim
    by (auto simp: at_cmp_def jpre_def sim_def CONT_def set_reg_def Let_def)
next
  case False
  then show ?thesis using sim by (auto simp: at_cmp_def jpre_def sim_def Let_def)
qed

lemma cmp_run:
  assumes lay: "conv_layout L p P" and n: "length p \<le> BPF_MAXINSNS" and i: "cpc c < length p" and t: "t < length p"
    and k: "k = sf_k (p ! cpc c)" and q: "q = length (jpre x k)"
    and ins: "conv_insn L (length p) (cpc c) (Some (positions L p)) (p ! cpc c) =
      Ok (jpre x k @ jcmp oc x k (joff (Some (positions L p)) (cpc c) t - of_nat q) # rest)"
    and lab: "jumptable (BPF_JMP OR oc OR BPF_X) = L_JMP (JMP_X oper)"
      "\<not> x \<Longrightarrow> jumptable (BPF_JMP OR oc OR BPF_K) = L_JMP (JMP_K oper)"
    and oper: "oper \<in> {J_EQ, J_NE, J_GE, J_GT, J_SET}"
    and at: "at_cmp L p P fp ctx plen x st c"
  shows "exec_n env 1 st = Cont (st\<lparr>insn_pc :=
    (if cjmp_taken oper (cA c) (opnd x k c) then int (pos L p t) else int (pos L p (cpc c)) + int q + 1)\<rparr>)"
proof -
  have st: "insn_prog st = P" "insn_pc st = int (pos L p (cpc c)) + int q"
    "regs st 0 = ucast (cA c)" "regs st 7 = ucast (cX c)" "jneg x k \<Longrightarrow> regs st 8 = ucast k"
    using at k q by (auto simp: at_cmp_def sim_def Let_def)
  have "q \<le> 1" using q by (simp add: jpre_def)
  then have off: "sint (joff (Some (positions L p)) (cpc c) t - of_nat q) = int (pos L p t) - int (pos L p (cpc c)) - 1 - int q"
    using jump_offset [OF t i n, of q L] by simp
  have "select_insn env st = exec_label env
      (jumptable (bi_code (jcmp oc x k (joff (Some (positions L p)) (cpc c) t - of_nat q))))
      (jcmp oc x k (joff (Some (positions L p)) (cpc c) t - of_nat q)) st"
    using select_block [OF lay i ins, of st q] st q by (simp add: jcmp_def BPF_RAW_INSN_def nth_append)
  from jcmp_step [OF this lab oper st(3-5)] show ?thesis using off st(2) by simp
qed

lemma cond_jump_sim:
  assumes lay: "conv_layout L p P" and chk: "bpf_check_classic mem_ok p = Ok ()"
    and i: "cpc c < length p" and sim: "sim L p P fp ctx plen st c"
    and dec: "cdecode (sf_code (p ! cpc c)) = Some (C_J oper x)"
  shows "\<exists>k. 0 < k \<and> k \<le> ilen L (p ! cpc c) \<and>
    matches (sim L p P fp ctx plen) (exec_n env k st) (cexec ld plen (C_J oper x) (p ! cpc c) c)"
proof -
  let ?i = "cpc c" let ?f = "p ! cpc c" let ?k = "sf_k (p ! cpc c)" let ?a = "Some (positions L p)"
  let ?q = "length (jpre x ?k)" let ?oc = "BPF_OP (ucast (sf_code ?f)) :: u8"
  let ?jt = "?i + unat (sf_jt ?f) + 1" let ?jf = "?i + unat (sf_jf ?f) + 1"
  let ?taken = "cjmp_taken oper (cA c) (opnd x ?k c)"
  have ok: "?jt < length p" "?jf < length p" using check_classic_decodes [OF chk i] dec by auto
  note n = check_classic_facts(2) [OF chk]
  obtain ins where ins: "conv_insn L (length p) ?i ?a ?f = Ok ins" and len: "length ins = ilen L ?f"
    using lay i by (auto simp: conv_layout_def)
  have "conv_jmp (length p) ?i ?a ?f = Ok ins" using ins dec by (simp add: conv_insn_decode)
  note insq = this [unfolded conv_jmp_eq [OF dec ok] Let_def, THEN result.inject(1) [THEN iffD1], symmetric]
  have lab: "jumptable (BPF_JMP OR ?oc OR BPF_X) = L_JMP (JMP_X oper)"
      "\<not> x \<Longrightarrow> jumptable (BPF_JMP OR ?oc OR BPF_K) = L_JMP (JMP_K oper)"
    using jumptable_of_decode [OF dec] by auto
  have ops: "oper \<in> {J_EQ, J_NE, J_GE, J_GT, J_SET}" using cjump_ops [OF dec] by auto
  have "ins = jpre x ?k @ drop ?q ins" using insq by (metis append_eq_conv_conj)
  then obtain st1 where run: "exec_n env ?q st = Cont st1" and at: "at_cmp L p P fp ctx plen x st1 c"
    using prefix_run [OF lay i _ sim, of x "drop ?q ins"] ins by auto
  have next_pos: "pos L p (Suc ?i) = pos L p ?i + length ins" using pos_Suc [OF i, of L] len by simp
  have goal: "\<exists>k. 0 < k \<and> k \<le> ilen L ?f \<and> matches (sim L p P fp ctx plen) (exec_n env k st) (cexec ld plen (C_J oper x) ?f c)"
    if "exec_n env (Suc m) st1 = Cont (st1\<lparr>insn_pc := int (pos L p (if ?taken then ?jt else ?jf))\<rparr>)"
      and "?q + Suc m \<le> length ins" for m
    using that at exec_n_add [OF run, of "Suc m"] len
    by (intro exI [of _ "?q + Suc m"]) (auto simp: at_cmp_def cjump_def Let_def)
  consider (jf0) "sf_jf ?f = 0" | (jt0) "sf_jf ?f \<noteq> 0" "sf_jt ?f = 0" "oper = J_EQ"
    | (both) "sf_jf ?f \<noteq> 0" "\<not> (sf_jt ?f = 0 \<and> oper = J_EQ)" by blast
  then show ?thesis
  proof cases
    case jf0
    then have e: "ins = jpre x ?k @ jcmp ?oc x ?k (joff ?a ?i ?jt - of_nat ?q) # []" using insq by simp
    show ?thesis
      using cmp_run [OF lay n i ok(1) refl refl ins [unfolded e] lab ops at, of env] jf0 next_pos e
      by (intro goal [of 0]) (simp_all split: if_splits)
  next
    case jt0
    then have e: "ins = jpre x ?k @ jcmp BPF_JNE x ?k (joff ?a ?i ?jf - of_nat ?q) # []" using insq by simp
    show ?thesis
      using cmp_run [OF lay n i ok(2) refl refl ins [unfolded e], of J_NE, OF _ _ _ at, of env] jt0 next_pos e
      by (intro goal [of 0]) (simp_all split: if_splits)
  next
    case both
    let ?ja = "BPF_RAW_INSN 0x05 0 0 (joff ?a ?i ?jf - of_nat (?q + 1)) 0"
    have e: "ins = jpre x ?k @ jcmp ?oc x ?k (joff ?a ?i ?jt - of_nat ?q) # [?ja]" using insq both by auto
    note cmp = cmp_run [OF lay n i ok(1) refl refl ins [unfolded e] lab ops at, of env]
    let ?st2 = "st1\<lparr>insn_pc := int (pos L p ?i) + int ?q + 1\<rparr>"
    have "sint (joff ?a ?i ?jf - of_nat (?q + 1)) = int (pos L p ?jf) - int (pos L p ?i) - 1 - int (?q + 1)"
      by (rule jump_offset [OF ok(2) i n]) (simp add: jpre_def)
    then have ja: "exec_n env 1 ?st2 = Cont (st1\<lparr>insn_pc := int (pos L p ?jf)\<rparr>)"
      using select_block [OF lay i ins, of ?st2 "?q + 1" env] at e
      by (simp add: at_cmp_def sim_def Let_def BPF_RAW_INSN_def CONT_def nth_append)
    show ?thesis
    proof (cases ?taken)
      case True
      then show ?thesis using cmp e by (intro goal [of 0]) simp_all
    next
      case False
      then show ?thesis using cmp ja e exec_n_add [of env 1 st1 ?st2 1] by (intro goal [of 1]) simp_all
    qed
  qed
qed



text \<open>The other instructions: one internal instruction, except returns and the header length load.\<close>

lemma one_step:
  assumes "matches S (select_insn env st) r" and "0 < n"
  shows "\<exists>k. 0 < k \<and> k \<le> n \<and> matches S (exec_n env k st) r"
proof -
  have "exec_n env (Suc 0) st = select_insn env st" by (cases "select_insn env st") auto
  then show ?thesis using assms by (intro exI [of _ "Suc 0"]) simp
qed

lemma ja_sim:
  assumes lay: "conv_layout L p P" and chk: "bpf_check_classic mem_ok p = Ok ()"
    and i: "cpc c < length p" and sim: "sim L p P fp ctx plen st c"
    and dec: "cdecode (sf_code (p ! cpc c)) = Some C_JA"
  shows "matches (sim L p P fp ctx plen) (select_insn env st) (cexec ld plen C_JA (p ! cpc c) c)"
proof -
  let ?f = "p ! cpc c" let ?t = "cpc c + unat (sf_k (p ! cpc c)) + 1"
  note n = check_classic_facts(2) [OF chk]
  have t: "?t < length p" using check_classic_decodes [OF chk i] dec by auto
  let ?off = "joff (Some (positions L p)) (cpc c) ?t"
  have ins: "conv_insn L (length p) (cpc c) (Some (positions L p)) ?f = Ok [BPF_RAW_INSN (ucast (sf_code ?f)) 0 0 ?off 0]"
    using dec ja_target [OF t n] emit_jmp_eq [OF t, of "Some (positions L p)" "cpc c" 0]
    by (simp add: conv_insn_decode)
  have "sint ?off = int (pos L p ?t) - int (pos L p (cpc c)) - 1"
    using jump_offset [OF t i n, of 0 L] by simp
  then show ?thesis
    using select_block [OF lay i ins, of st 0] sim jumptable_of_decode [OF dec]
    by (simp add: sim_def BPF_RAW_INSN_def CONT_def cjump_def)
qed

lemma ret_sim:
  assumes lay: "conv_layout L p P" and i: "cpc c < length p" and sim: "sim L p P fp ctx plen st c"
    and ins: "conv_insn L (length p) (cpc c) (Some (positions L p)) (p ! cpc c)
      = Ok [BPF_MOV32_RAW (if isk then BPF_K else BPF_X) BPF_REG_0 BPF_REG_A k, BPF_EXIT_INSN]"
  shows "exec_n env 2 st = Return (if isk then k else cA c)"
proof -
  have "select_insn env st = CONT (set_reg 0 (ucast (if isk then k else cA c)) st)"
    using select_block [OF lay i ins, of st 0] sim by (simp add: sim_def bpf_macros bpf_fields)
  moreover have "select_insn env ((set_reg 0 v st)\<lparr>insn_pc := insn_pc st + 1\<rparr>) = Return (ucast v)" for v
    using select_block [OF lay i ins, of "(set_reg 0 v st)\<lparr>insn_pc := insn_pc st + 1\<rparr>" 1] sim
    by (simp add: sim_def bpf_macros set_reg_def)
  ultimately show ?thesis by (simp add: numeral_2_eq_2 CONT_def set_reg_def)
qed

lemma msh_sim:
  assumes lay: "conv_layout L p P" and i: "cpc c < length p" and sim: "sim L p P fp ctx plen st c"
    and dec: "cdecode (sf_code (p ! cpc c)) = Some C_LDX_MSH"
    and skb: "env_skb env ctx = Some skb" "skb_wf skb"
  shows "\<exists>k. 0 < k \<and> k \<le> ilen L (p ! cpc c) \<and>
    matches (sim L p P fp ctx plen) (exec_n env k st) (cexec (bpf_load_pointer skb) plen C_LDX_MSH (p ! cpc c) c)"
proof -
  let ?k = "sf_k (p ! cpc c)"
  have ins: "conv_insn L (length p) (cpc c) (Some (positions L p)) (p ! cpc c) =
    Ok [BPF_MOV64_REG BPF_REG_TMP BPF_REG_A, BPF_LD_ABS BPF_B ?k, BPF_ALU32_IMM BPF_AND BPF_REG_A 0xf,
        BPF_ALU32_IMM BPF_LSH BPF_REG_A 2, BPF_MOV64_REG BPF_REG_X BPF_REG_A, BPF_MOV64_REG BPF_REG_A BPF_REG_TMP]"
    using dec by (simp add: conv_insn_decode)
  note sel = select_block [OF lay i ins]
  have len: "ilen L (p ! cpc c) = 6" using dec by (simp add: ilen_def)
  then have p6: "pos L p (Suc (cpc c)) = pos L p (cpc c) + 6" using pos_Suc [OF i, of L] by simp
  note st = sim [unfolded sim_def]
  let ?s1 = "(set_reg 8 (ucast (cA c)) st)\<lparr>insn_pc := int (pos L p (cpc c)) + 1\<rparr>"
  have s1: "select_insn env st = Cont ?s1"
    using sel [of st 0] st by (simp add: bpf_macros CONT_def set_reg_def)
  have s2: "select_insn env ?s1 = load_skb env SZ_B ?k ?s1"
    using sel [of ?s1 1] st by (simp add: bpf_macros bpf_fields set_reg_def)
  obtain r where r: "bpf_load_pointer skb ?k 1 = Ok r" using skb.pload_total [OF skb(2)] by blast
  show ?thesis
  proof (cases r)
    case None
    then have "exec_n env 2 st = Return 0" using s1 s2 r skb st
      by (simp add: numeral_2_eq_2 load_skb_def set_reg_def)
    then show ?thesis using r None len by (intro exI [of _ 2]) (simp add: cload_def)
  next
    case (Some bs)
    define v where "v = (ucast (of_be 0 bs) :: u32) AND 0xf"
    let ?at = "\<lambda>j a x. st\<lparr>regs := (((regs st)(8 := ucast (cA c)))(0 := a))(7 := x), insn_pc := int (pos L p (cpc c)) + j\<rparr>"
    have at2: "select_insn env ?s1 = Cont (?at 2 (of_be 0 bs) (regs st 7))"
      using s2 r Some skb st by (auto simp: load_skb_def set_reg_def CONT_def intro!: bpf_state.equality ext)
    have at3: "select_insn env (?at 2 (of_be 0 bs) x) = Cont (?at 3 (ucast v) x)" for x
      using sel [of "?at 2 (of_be 0 bs) x" 2] st
      by (simp add: bpf_macros bpf_fields CONT_def set_reg_def fun_upd_twist v_def)
    have at4: "select_insn env (?at 3 (ucast w) x) = Cont (?at 4 (ucast (push_bit 2 w)) x)" for w :: u32 and x
      using sel [of "?at 3 (ucast w) x" 3] st
      by (simp add: bpf_macros bpf_fields CONT_def set_reg_def fun_upd_twist)
    have at5: "select_insn env (?at 4 a x) = Cont (?at 5 a a)" for a x
      using sel [of "?at 4 a x" 4] st by (simp add: bpf_macros CONT_def set_reg_def)
    have at6: "select_insn env (?at 5 a x) = Cont (?at 6 (ucast (cA c)) x)" for a x
      using sel [of "?at 5 a x" 5] st by (simp add: bpf_macros CONT_def set_reg_def fun_upd_twist)
    have "exec_n env 6 st = Cont (?at 6 (ucast (cA c)) (ucast (push_bit 2 v)))"
      using s1 at2 at3 at4 at5 at6 by (simp add: eval_nat_numeral)
    moreover have "sim L p P fp ctx plen (?at 6 (ucast (cA c)) (ucast (push_bit 2 v)))
        (c\<lparr>cX := push_bit 2 v, cpc := Suc (cpc c)\<rparr>)"
      using st p6 by (simp add: sim_def)
    moreover have "cexec (bpf_load_pointer skb) plen C_LDX_MSH (p ! cpc c) c = Cont (c\<lparr>cX := push_bit 2 v, cpc := Suc (cpc c)\<rparr>)"
      using r Some by (simp add: cload_def cnext_def v_def)
    ultimately show ?thesis using len by (intro exI [of _ 6]) (simp del: cexec.simps)
  qed
qed


lemma simple_sim:
  assumes lay: "conv_layout L p P" and chk: "bpf_check_classic mem_ok p = Ok ()"
    and i: "cpc c < length p" and sim: "sim L p P fp ctx plen st c"
    and dec: "cdecode (sf_code (p ! cpc c)) = Some ci"
    and ci: "ci \<in> {C_LD_IMM, C_LDX_IMM, C_TAX, C_TXA, C_LD_LEN, C_LDX_LEN, C_LD_MEM, C_LDX_MEM, C_ST, C_STX}"
    and sep: "len_separate L fp ctx"
  shows "matches (sim L p P fp ctx plen) (select_insn env st) (cexec ld plen ci (p ! cpc c) c)"
proof -
  let ?f = "p ! cpc c"
  obtain ins where ins: "conv_insn L (length p) (cpc c) (Some (positions L p)) ?f = Ok ins"
    using lay i by (auto simp: conv_layout_def)
  have ok: "insn_ok (length p) (cpc c) ?f ci" using check_classic_decodes [OF chk i] dec by auto
  have p1: "pos L p (Suc (cpc c)) = pos L p (cpc c) + 1"
    using pos_Suc [OF i, of L] dec ci by (auto simp: ilen_def)
  note sel = select_block [OF lay i ins, of st 0 env]
  note st = sim [unfolded sim_def]
  consider (reg) "ci \<in> {C_LD_IMM, C_LDX_IMM, C_TAX, C_TXA, C_LD_LEN, C_LDX_LEN}"
    | (ld) "ci \<in> {C_LD_MEM, C_LDX_MEM}" | (st) "ci \<in> {C_ST, C_STX}" using ci by auto
  then show ?thesis
  proof cases
    case reg
    then show ?thesis using sel ins dec st p1
      by (auto simp: conv_insn_decode bpf_macros bpf_fields CONT_def set_reg_def cnext_def sim_def)
  next
    case ld
    then have k: "unat (sf_k ?f) < 16" using ok by auto
    have "load (memory st) (fp + scast (scratch_off (sf_k ?f))) 4 = Some (ucast (cM c (unat (sf_k ?f))))"
      unfolding scratch_off_addr [OF k] using st k by blast
    then show ?thesis using ld k sel ins dec st p1
      by (auto simp: conv_insn_decode bpf_macros bpf_fields CONT_def set_reg_def cnext_def sim_def)
  next
    case st
    then have k: "unat (sf_k ?f) < 16" using ok by auto
    show ?thesis using sel ins dec sim st p1 k scratch_store_sim [OF sim k sep p1]
      by (auto simp: conv_insn_decode bpf_macros bpf_fields sim_def)
  qed
qed

text \<open>One classic instruction is simulated by its block.\<close>

definition no_anc :: "sock_filter list \<Rightarrow> bool" where
  "no_anc p \<longleftrightarrow> (\<forall>f \<in> set p. sf_code f \<in> {0x20, 0x28, 0x30} \<longrightarrow> \<not> sf_k f \<ge> SKF_AD_OFF)"

lemma no_anc_conv:
  assumes "no_anc p" and "i < length p" and "cdecode (sf_code (p ! i)) = Some (C_LD_ABS sz)"
  shows "convert_bpf_extensions L (p ! i) = None"
proof -
  have "sf_code (p ! i) \<in> {0x20, 0x28, 0x30}"
    using cdecode_mem [OF assms(3)] by (auto simp: cdecode_table_def)
  then have "\<not> sf_k (p ! i) \<ge> SKF_AD_OFF" using assms(1) nth_mem [OF assms(2)] by (auto simp: no_anc_def)
  then show ?thesis by (auto simp: convert_bpf_extensions_def Let_def word_le_nat_alt)
qed

lemma block_sim:
  assumes lay: "conv_layout L p P" and chk: "bpf_check_classic mem_ok p = Ok ()"
    and i: "cpc c < length p" and sim: "sim L p P fp ctx plen st c"
    and na: "no_anc p" and sep: "len_separate L fp ctx"
    and skb: "env_skb env ctx = Some skb" "skb_wf skb"
  shows "\<exists>k. 0 < k \<and> k \<le> ilen L (p ! cpc c) \<and>
    matches (sim L p P fp ctx plen) (exec_n env k st) (cstep (bpf_load_pointer skb) plen p c)"
proof -
  let ?f = "p ! cpc c" let ?ld = "bpf_load_pointer skb"
  obtain ci where dec: "cdecode (sf_code ?f) = Some ci" using check_classic_decodes [OF chk i] .
  obtain ins where ins: "conv_insn L (length p) (cpc c) (Some (positions L p)) ?f = Ok ins"
    using lay i by (auto simp: conv_layout_def)
  have l1: "0 < ilen L ?f" using ilen_bounds by blast
  note sel = select_block [OF lay i ins, of st 0 env]
  have "\<exists>k. 0 < k \<and> k \<le> ilen L ?f \<and> matches (sim L p P fp ctx plen) (exec_n env k st) (cexec ?ld plen ci ?f c)"
  proof (cases ci)
    case (C_J oper x)
    then show ?thesis using cond_jump_sim [OF lay chk i sim] dec by blast
  next
    case C_JA
    then show ?thesis using ja_sim [OF lay chk i sim] dec l1 by (intro one_step) auto
  next
    case C_LDX_MSH
    then show ?thesis using msh_sim [OF lay i sim _ skb] dec by blast
  next
    case C_RET_K
    then have "exec_n env 2 st = Return (sf_k ?f)" "ilen L ?f = 2"
      using ret_sim [OF lay i sim, of True "sf_k ?f"] dec by (simp_all add: conv_insn_decode ilen_def)
    then show ?thesis using C_RET_K by (intro exI [of _ 2]) simp
  next
    case C_RET_A
    then have "exec_n env 2 st = Return (cA c)" "ilen L ?f = 2"
      using ret_sim [OF lay i sim, of False "sf_k ?f"] dec by (simp_all add: conv_insn_decode ilen_def)
    then show ?thesis using C_RET_A by (intro exI [of _ 2]) simp
  next
    case (C_LD_ABS sz)
    have sz: "sz \<noteq> SZ_DW" using cdecode_mem [OF dec] C_LD_ABS by (auto simp: cdecode_table_def)
    have p1: "pos L p (Suc (cpc c)) = pos L p (cpc c) + 1" and
      "select_insn env st = load_skb env sz (sf_k ?f) st"
      using no_anc_conv [OF na i] dec C_LD_ABS pos_Suc [OF i, of L] sel ins sim jumptable_of_decode [OF dec]
      by (auto simp: ilen_def conv_insn_decode BPF_RAW_INSN_def sim_def)
    then show ?thesis using load_skb_sim [OF sim p1 skb sz, of "sf_k ?f"] C_LD_ABS l1
      by (intro one_step) simp_all
  next
    case (C_LD_IND sz)
    have sz: "sz \<noteq> SZ_DW" using cdecode_mem [OF dec] C_LD_IND by (auto simp: cdecode_table_def)
    have p1: "pos L p (Suc (cpc c)) = pos L p (cpc c) + 1" and
      "select_insn env st = load_skb env sz (sf_k ?f + cX c) st"
      using dec C_LD_IND pos_Suc [OF i, of L] sel ins sim jumptable_of_decode [OF dec]
      by (auto simp: ilen_def conv_insn_decode BPF_RAW_INSN_def sim_def ucast_add_u64_u32)
    then show ?thesis using load_skb_sim [OF sim p1 skb sz, of "sf_k ?f + cX c"] C_LD_IND l1
      by (intro one_step) simp_all
  next
    case (C_ALU oper x)
    then show ?thesis using dec pos_Suc [OF i, of L] sel ins sim jumptable_of_decode [OF dec] l1
      by (intro one_step alu_block_sim [OF sim refl, where k = "sf_k ?f"])
        (auto simp: ilen_def conv_insn_decode sim_def BPF_RAW_INSN_def)
  next
    case (C_DIV x)
    then show ?thesis using dec pos_Suc [OF i, of L] sel ins sim jumptable_of_decode [OF dec] l1
      by (intro one_step alu_block_sim [OF sim refl, where k = "sf_k ?f"])
        (auto simp: ilen_def conv_insn_decode sim_def BPF_RAW_INSN_def)
  next
    case (C_MOD x)
    then show ?thesis using dec pos_Suc [OF i, of L] sel ins sim jumptable_of_decode [OF dec] l1
      by (intro one_step alu_block_sim [OF sim refl, where k = "sf_k ?f"])
        (auto simp: ilen_def conv_insn_decode sim_def BPF_RAW_INSN_def)
  next
    case C_NEG
    then show ?thesis using dec pos_Suc [OF i, of L] sel ins sim jumptable_of_decode [OF dec] l1
      by (intro one_step alu_block_sim [OF sim refl, where k = "sf_k ?f"])
        (auto simp: ilen_def conv_insn_decode sim_def BPF_RAW_INSN_def)
  qed (use simple_sim [OF lay chk i sim dec _ sep] l1 in \<open>auto intro!: one_step simp del: cexec.simps\<close>)
  then show ?thesis using dec i by (simp add: cstep_def)
qed

section \<open>Whole runs\<close>

lemma of_le_bits: "8 * length bs \<le> n \<Longrightarrow> \<not> bit (of_le bs) n"
proof (induction bs arbitrary: n)
  case (Cons b bs)
  then show ?case by (auto simp: bit_simps dest: bit_imp_le_length)
qed simp

lemma mread_len: "mread m a n = Some bs \<Longrightarrow> length bs = n"
  by (induction n arbitrary: a bs) (auto split: option.splits)

lemma load_u32:
  assumes "load m a 4 = Some w"
  shows "w = ucast (ucast w :: u32)"
proof (rule bit_word_eqI)
  fix n
  obtain bs where "mread m a 4 = Some bs" "w = of_le bs" using assms by (auto simp: load_def)
  then have "n < 32" if "bit w n" using that of_le_bits [of bs n] mread_len [of m a 4 bs] by (cases "n < 32") auto
  then show "bit w n = bit (ucast (ucast w :: u32) :: u64) n"
    by (auto simp: bit_simps dest: bit_imp_le_length)
qed

lemma run_sim:
  assumes lay: "conv_layout L p P" and chk: "bpf_check_classic mem_ok p = Ok ()"
    and na: "no_anc p" and sep: "len_separate L fp ctx"
    and skb: "env_skb env ctx = Some skb" "skb_wf skb"
  shows "crun (bpf_load_pointer skb) plen p n c = Some r \<Longrightarrow> cpc c < length p \<Longrightarrow>
    sim L p P fp ctx plen st c \<Longrightarrow> length P - pos L p (cpc c) \<le> fuel \<Longrightarrow> bpf_run env fuel st = Some r"
proof (induction n arbitrary: c st fuel)
  case (Suc n)
  let ?ld = "bpf_load_pointer skb"
  obtain k where k: "0 < k" "k \<le> ilen L (p ! cpc c)"
    and m: "matches (sim L p P fp ctx plen) (exec_n env k st) (cstep ?ld plen p c)"
    using block_sim [OF lay chk Suc.prems(2,3) na sep skb] by blast
  have "pos L p (Suc (cpc c)) \<le> length P"
    using lay Suc.prems(2) pos_mono [of "Suc (cpc c)" "length p"] by (simp add: conv_layout_def)
  then have "k \<le> fuel" using pos_Suc [OF Suc.prems(2), of L] k(2) Suc.prems(4) by linarith
  then obtain f' where f': "fuel = k + f'" using le_Suc_ex by blast
  have total: "\<forall>k m. \<exists>r. ?ld k m = Ok r" using skb.pload_total [OF skb(2)] by blast
  show ?case
  proof (cases "cstep ?ld plen p c")
    case (Cont c')
    then obtain st' where st': "exec_n env k st = Cont st'" "sim L p P fp ctx plen st' c'"
      using m by (cases "exec_n env k st") auto
    have c': "cpc c < cpc c'" "cpc c' < length p"
      using cstep_fine [OF chk Suc.prems(2) total, where plen = plen] Cont by auto
    have "pos L p (Suc (cpc c)) \<le> pos L p (cpc c')" using c'(1) pos_mono by simp
    then have "length P - pos L p (cpc c') \<le> f'"
      using Suc.prems(4) pos_Suc [OF Suc.prems(2), of L] k(2) f' by linarith
    moreover have "crun ?ld plen p n c' = Some r" using Suc.prems(1) Cont by simp
    ultimately show ?thesis using Suc.IH [of c' st' f'] c'(2) st' bpf_run_exec_n(1) f' by simp
  next
    case (Return x)
    then have "exec_n env k st = Return x" using m by (cases "exec_n env k st") auto
    then show ?thesis using bpf_run_exec_n(2) Suc.prems(1) Return f' by auto
  next
    case (Crash u)
    then have "exec_n env k st = Crash u" using m by (cases "exec_n env k st") auto
    then show ?thesis using bpf_run_exec_n(3) Suc.prems(1) Crash f' by auto
  qed
qed simp

text \<open>
  What a run relies on: the interpreter's stack frame is mapped, the length field of the
  buffer is readable and outside the frame, and the context is the buffer.
\<close>

definition run_env :: "skb_layout \<Rightarrow> bpf_env \<Rightarrow> mem \<Rightarrow> u64 \<Rightarrow> u64 \<Rightarrow> sk_buff \<Rightarrow> bool" where
  "run_env L env m fp ctx skb \<longleftrightarrow>
     env_skb env ctx = Some skb \<and> skb_wf skb \<and> len_separate L fp ctx \<and>
     (\<forall>k < 16. load m (fp - 64 + 4 * of_nat k) 4 \<noteq> None) \<and>
     load m (ctx + scast (off_len L)) 4 = Some (ucast (of_nat (skb_len skb) :: u32))"

lemma init_sim:
  assumes lay: "conv_layout L p P" and env: "run_env L env m fp ctx skb"
  shows "\<exists>st M. select_insn env (init_state r0 m fp ctx P) = Cont st \<and>
    sim L p P fp ctx (of_nat (skb_len skb)) st (cinit M)"
proof -
  define M :: "nat \<Rightarrow> u32" where "M k = ucast (the (load m (fp - 64 + 4 * of_nat k) 4))" for k
  have M: "load m (fp - 64 + 4 * of_nat k) 4 = Some (ucast (M k))" if "k < 16" for k
    using env that load_u32 unfolding run_env_def M_def by fastforce
  have "P ! 0 = BPF_MOV64_REG BPF_REG_CTX BPF_REG_ARG1" "length P = pos L p (length p)"
    using lay by (auto simp: conv_layout_def)
  moreover have "0 < pos L p (length p)" by (simp add: pos_def)
  ultimately have "select_insn env (init_state r0 m fp ctx P) =
      CONT (set_reg 6 ctx (init_state r0 m fp ctx P))"
    by (simp add: select_insn_def init_state_def BPF_MOV64_REG_def BPF_RAW_INSN_def Let_def)
  moreover have "sim L p P fp ctx (of_nat (skb_len skb)) ((set_reg 6 ctx (init_state r0 m fp ctx P))\<lparr>insn_pc := 1\<rparr>) (cinit M)"
    using env M by (simp add: sim_def cinit_def init_state_def set_reg_def pos_def run_env_def)
  ultimately show ?thesis by (intro exI) (auto simp: CONT_def init_state_def set_reg_def)
qed

lemma convert_run:
  assumes chk: "bpf_check_classic mem_ok p = Ok ()" and na: "no_anc p"
    and env: "run_env L env m fp ctx skb"
    and conv: "bpf_convert_filter L True p n = Ok P" "bpf_convert_len L p = Ok n"
  shows "bpf_prog_run env (length P) r0 m fp ctx P
    = crun (bpf_load_pointer skb) (of_nat (skb_len skb)) p (length p) (cinit M0)"
proof -
  obtain P' where P': "bpf_convert_len L p = Ok (length P')" "bpf_convert_filter L True p (length P') = Ok P'"
    and lay: "conv_layout L p P'"
    using convert_checked [OF chk] by blast
  then have P: "P' = P" using conv by auto
  obtain st M where st: "select_insn env (init_state r0 m fp ctx P) = Cont st"
    and sim: "sim L p P fp ctx (of_nat (skb_len skb)) st (cinit M)"
    using init_sim [OF lay env, of r0] P by blast
  have wf: "env_skb env ctx = Some skb" "skb_wf skb" "len_separate L fp ctx"
    using env by (auto simp: run_env_def)
  let ?run = "crun (bpf_load_pointer skb) (of_nat (skb_len skb)) p (length p)"
  obtain r where r: "?run (cinit M) = Some r"
    using skb.checked_filter_safe [OF chk wf(2)] by blast
  have pos0: "pos L p 0 = 1" by (simp add: pos_def)
  have "0 < length P" using lay P by (simp add: conv_layout_def pos_def)
  then obtain f where f: "length P = Suc f" by (cases "length P") auto
  have "bpf_run env f st = Some r"
    using run_sim [OF lay [unfolded P] chk na wf(3,1,2) r _ sim] check_classic_facts(1) [OF chk] pos0 f
    by (simp add: cinit_def)
  then have "bpf_prog_run env (length P) r0 m fp ctx P = ?run (cinit M)"
    using r st f by (simp add: bpf_prog_run_def)
  then show ?thesis using checked_filter_scratch_independent [OF chk] by metis
qed

section \<open>A concrete filter\<close>

text \<open>\<^verbatim>\<open>ldh [12]; jeq #0x800, L1, L2; L1: ret #0xffff; L2: ret #0\<close>, on an IPv4 frame.\<close>

definition ex_filter :: "sock_filter list" where
  "ex_filter = [BPF_STMT 0x28 12, BPF_JUMP 0x15 0x800 0 1, BPF_STMT 0x06 0xffff, BPF_STMT 0x06 0]"

definition ex_skb :: sk_buff where
  "ex_skb = Sk_buff (replicate 12 0 @ [8, 0, 0x45]) 0 15 15 0 0 14 [] []"

definition ex_layout :: skb_layout where
  "ex_layout = \<lparr>off_mark = 172, off_pkt_type = 145, off_queue_mapping = 140, off_vlan_tci = 166, off_protocol = 192,
     off_dev = 16, off_hash = 160, off_vlan_proto = 164, off_len = 128, off_ifindex = 256, off_dev_type = 512,
     fn_pay_offset = 0x100, fn_nlattr = 0x200, fn_nlattr_nest = 0x300, fn_raw_cpu_id = 0x400, fn_user_rnd = 0x500\<rparr>"

definition ex_mem :: mem where
  "ex_mem a = (if 0x1000 \<le> a \<and> a < 0x1200 then Some 0
     else if 0x8000 \<le> a \<and> a < 0x8100 then Some (if a = 0x8080 then 15 else 0) else None)"

definition ex_env :: bpf_env where
  "ex_env = \<lparr>env_skb = (\<lambda>a. if a = 0x8000 then Some ex_skb else None), env_call = (\<lambda>f args m. (0, m)),
     env_array = (\<lambda>_. None)\<rparr>"

lemma ex_filter_accepted: "bpf_check_classic True ex_filter = Ok ()"
  by code_simp

lemma ex_len_separate: "len_separate ex_layout 0x1200 0x8000"
proof -
  have "(0x8080 :: u64) + of_nat i \<noteq> 0x11c0 + of_nat j" if "i < 4" "j < 64" for i j
  proof -
    have "(of_nat (0x8080 + i) :: u64) \<noteq> of_nat (0x11c0 + j)"
      using that by (subst of_nat_u64_eq_iff) auto
    then show ?thesis by simp
  qed
  then show ?thesis by (simp add: len_separate_def ex_layout_def)
qed

lemma load_4:
  assumes "m a = Some b0" "m (a + 1) = Some b1" "m (a + 2) = Some b2" "m (a + 3) = Some b3"
  shows "load m a 4 = Some (of_le [b0, b1, b2, b3])"
proof -
  have "mread m a (Suc (Suc (Suc (Suc 0)))) = Some [b0, b1, b2, b3]"
    using assms by (simp add: add.assoc)
  then show ?thesis by (simp add: load_def numeral_eq_Suc)
qed

lemma ex_stack: "k < 16 \<Longrightarrow> load ex_mem (0x11c0 + 4 * of_nat k) 4 = Some 0"
proof -
  assume "k < 16"
  then have "k \<in> {0, 1, 2, 3, 4, 5, 6, 7, 8, 9, 10, 11, 12, 13, 14, 15}" by (simp, presburger)
  then show ?thesis unfolding insert_iff empty_iff
    by (elim disjE FalseE) (simp_all add: load_4 ex_mem_def)
qed

lemma ex_run_env: "run_env ex_layout ex_env ex_mem 0x1200 0x8000 ex_skb"
proof -
  have "skb_wf ex_skb" "skb_len ex_skb = 15" by (simp_all add: ex_skb_def)
  moreover have "load ex_mem 0x8080 4 = Some 15" by (simp add: load_4 ex_mem_def)
  ultimately show ?thesis using ex_len_separate ex_stack
    by (simp add: run_env_def ex_env_def ex_layout_def)
qed

lemma ex_no_anc: "no_anc ex_filter"
  by code_simp

section \<open>Properties\<close>





end
