(* ===== verification/Sk_Filter.thy ===== *)
theory Sk_Filter
  imports Bpf_Conv_Correct
begin

text \<open>
  The life of a socket filter in \<^verbatim>\<open>net/core/filter.c\<close>: a user program is copied in, checked,
  migrated to internal BPF, charged to the socket and attached; it is released when the last
  reference goes. Objects live in a heap indexed by pointers, so that leaks, double frees and uses after free are
  visible; every allocation may fail. \<^verbatim>\<open>bpf_prog_alloc\<close>, \<^verbatim>\<open>bpf_prog_realloc\<close> and the
  deferred free come from \<^verbatim>\<open>kernel/bpf/core.c\<close>, socket cloning and destruction from
  \<^verbatim>\<open>net/core/sock.c\<close>. The configuration has no JIT compiler.
\<close>

section \<open>Kernel objects and the allocator\<close>

type_synonym ptr = nat

datatype prog_type = BPF_PROG_TYPE_UNSPEC | BPF_PROG_TYPE_SOCKET_FILTER

text \<open>The union of \<open>insns\<close> (classic) and \<open>insnsi\<close> (internal).\<close>

datatype prog_insns = Insns "sock_filter list" | Insnsi "bpf_insn list"

record bpf_prog =
  pg_pages :: nat
  pg_jited :: bool
  pg_len :: nat
  pg_type :: prog_type
  pg_aux :: "ptr option"
  pg_orig :: "ptr option"
  pg_func :: bool \<comment> \<open>\<open>bpf_func\<close> is set\<close>
  pg_insns :: prog_insns

record sk_filter =
  skf_refcnt :: int
  skf_prog :: ptr

datatype kobj = K_prog bpf_prog | K_aux int | K_fprog nat "ptr option" | K_insns "sock_filter list" | K_skf sk_filter

record sock =
  sk_filter_ptr :: "ptr option"
  sk_omem_alloc :: u32
  sk_locked :: bool \<comment> \<open>\<open>SOCK_FILTER_LOCKED\<close>\<close>

record kst =
  heap :: "ptr \<Rightarrow> kobj option"
  next_ptr :: ptr
  alloc_ok :: "bool list" \<comment> \<open>outcomes of the coming allocations; all succeed once it is empty\<close>
  work :: "ptr list" \<comment> \<open>programs scheduled for \<open>bpf_prog_free_deferred\<close>\<close>
  rcu :: "ptr list" \<comment> \<open>filters waiting for \<open>sk_filter_release_rcu\<close>\<close>
  socks :: "nat \<Rightarrow> sock"

type_synonym 'a kmon = "kst \<Rightarrow> 'a result \<times> kst"

definition kret :: "'a \<Rightarrow> 'a kmon" where
  "kret x s = (Ok x, s)"

definition kerr :: "errno \<Rightarrow> 'a kmon" where
  "kerr e s = (Err e, s)"

definition kbind :: "'a kmon \<Rightarrow> ('a \<Rightarrow> 'b kmon) \<Rightarrow> 'b kmon" where
  "kbind m f s = (case m s of (Ok x, s') \<Rightarrow> f x s' | (Err e, s') \<Rightarrow> (Err e, s') | (Undef u, s') \<Rightarrow> (Undef u, s'))"

text \<open>\<open>if (err) { h; return err; }\<close>\<close>

definition on_err :: "'a kmon \<Rightarrow> unit kmon \<Rightarrow> 'a kmon" where
  "on_err m h s = (case m s of (Err e, s') \<Rightarrow> kbind h (\<lambda>_. kerr e) s' | r \<Rightarrow> r)"

definition kalloc :: "kobj \<Rightarrow> ptr option kmon" where
  "kalloc obj s =
     (let ok = (alloc_ok s = [] \<or> hd (alloc_ok s)); s' = s\<lparr>alloc_ok := tl (alloc_ok s)\<rparr> in
      if ok then (Ok (Some (next_ptr s)),
                  s'\<lparr>heap := (heap s)(next_ptr s \<mapsto> obj), next_ptr := Suc (next_ptr s)\<rparr>)
      else (Ok None, s'))"

definition kfree :: "ptr option \<Rightarrow> unit kmon" where
  "kfree p s = (case p of None \<Rightarrow> (Ok (), s)
     | Some a \<Rightarrow> (case heap s a of None \<Rightarrow> (Undef BadMem, s) | Some _ \<Rightarrow> (Ok (), s\<lparr>heap := (heap s)(a := None)\<rparr>)))"

definition kset :: "ptr \<Rightarrow> kobj \<Rightarrow> unit kmon" where
  "kset p obj s = (case heap s p of None \<Rightarrow> (Undef BadMem, s) | Some _ \<Rightarrow> (Ok (), s\<lparr>heap := (heap s)(p \<mapsto> obj)\<rparr>))"

definition get_prog :: "ptr \<Rightarrow> bpf_prog kmon" where
  "get_prog p s = (case heap s p of Some (K_prog x) \<Rightarrow> (Ok x, s) | _ \<Rightarrow> (Undef BadMem, s))"

definition get_skf :: "ptr \<Rightarrow> sk_filter kmon" where
  "get_skf p s = (case heap s p of Some (K_skf x) \<Rightarrow> (Ok x, s) | _ \<Rightarrow> (Undef BadMem, s))"

definition upd_prog :: "ptr \<Rightarrow> (bpf_prog \<Rightarrow> bpf_prog) \<Rightarrow> unit kmon" where
  "upd_prog p f = kbind (get_prog p) (\<lambda>x. kset p (K_prog (f x)))"

text \<open>A buffer that is allocated, used by \<open>f\<close> and freed before the function returns; \<open>f\<close> learns whether
  the allocation succeeded.\<close>

definition with_temp :: "(bool \<Rightarrow> 'a result) \<Rightarrow> 'a kmon" where
  "with_temp f s = (f (alloc_ok s = [] \<or> hd (alloc_ok s)), s\<lparr>alloc_ok := tl (alloc_ok s)\<rparr>)"

definition upd_sock :: "nat \<Rightarrow> (sock \<Rightarrow> sock) \<Rightarrow> unit kmon" where
  "upd_sock sk f s = (Ok (), s\<lparr>socks := (socks s)(sk := f (socks s sk))\<rparr>)"

definition get_sock :: "nat \<Rightarrow> sock kmon" where
  "get_sock sk s = (Ok (socks s sk), s)"

section \<open>Programs\<close>

definition bpf_prog_alloc :: "nat \<Rightarrow> ptr option kmon" where
  "bpf_prog_alloc n =
     kbind (kalloc (K_prog \<lparr>pg_pages = 0, pg_jited = False, pg_len = 0, pg_type = BPF_PROG_TYPE_UNSPEC,
              pg_aux = None, pg_orig = None, pg_func = False, pg_insns = Insns []\<rparr>)) (\<lambda>fp.
     case fp of None \<Rightarrow> kret None
     | Some fp \<Rightarrow>
         kbind (kalloc (K_aux 0)) (\<lambda>aux.
         case aux of None \<Rightarrow> kbind (kfree (Some fp)) (\<lambda>_. kret None)
         | Some aux \<Rightarrow>
             kbind (upd_prog fp (\<lambda>p. p\<lparr>pg_pages := round_up_pages n, pg_aux := Some aux\<rparr>)) (\<lambda>_. kret (Some fp))))"

definition bpf_prog_free_now :: "ptr \<Rightarrow> unit kmon" where \<comment> \<open>\<open>__bpf_prog_free\<close>\<close>
  "bpf_prog_free_now fp =
     kbind (get_prog fp) (\<lambda>p. kbind (kfree (pg_aux p)) (\<lambda>_. kfree (Some fp)))"

definition bpf_prog_realloc :: "ptr \<Rightarrow> nat \<Rightarrow> ptr option kmon" where
  "bpf_prog_realloc fp_old n =
     kbind (get_prog fp_old) (\<lambda>old.
     if round_up_pages n \<le> pg_pages old then kret (Some fp_old)
     else kbind (kalloc (K_prog (old\<lparr>pg_pages := round_up_pages n\<rparr>))) (\<lambda>fp.
       case fp of None \<Rightarrow> kret None
       | Some fp \<Rightarrow>
           kbind (upd_prog fp_old (\<lambda>p. p\<lparr>pg_aux := None\<rparr>)) (\<lambda>_.
           kbind (bpf_prog_free_now fp_old) (\<lambda>_. kret (Some fp)))))"

definition bpf_prog_free :: "ptr \<Rightarrow> unit kmon" where
  "bpf_prog_free fp s = (Ok (), s\<lparr>work := work s @ [fp]\<rparr>)"

definition bpf_prog_free_deferred :: "ptr \<Rightarrow> unit kmon" where
  "bpf_prog_free_deferred fp = bpf_prog_free_now fp"

definition bpf_prog_select_runtime :: "ptr \<Rightarrow> unit kmon" where
  "bpf_prog_select_runtime fp = upd_prog fp (\<lambda>p. p\<lparr>pg_func := True\<rparr>)"

definition bpf_prog_put :: "ptr \<Rightarrow> unit kmon" where
  "bpf_prog_put prog =
     kbind (get_prog prog) (\<lambda>p s.
     case pg_aux p of None \<Rightarrow> (Undef BadMem, s)
     | Some aux \<Rightarrow>
         (case heap s aux of
            Some (K_aux r) \<Rightarrow>
              kbind (kset aux (K_aux (r - 1))) (\<lambda>_. if r - 1 = 0 then bpf_prog_free prog else kret ()) s
          | _ \<Rightarrow> (Undef BadMem, s)))"

section \<open>Checking and migrating a classic program\<close>

definition bpf_release_orig_filter :: "ptr \<Rightarrow> unit kmon" where
  "bpf_release_orig_filter fp =
     kbind (get_prog fp) (\<lambda>p s.
     case pg_orig p of None \<Rightarrow> (Ok (), s)
     | Some fprog \<Rightarrow>
         (case heap s fprog of
            Some (K_fprog n f) \<Rightarrow> kbind (kfree f) (\<lambda>_. kfree (Some fprog)) s
          | _ \<Rightarrow> (Undef BadMem, s)))"

definition bpf_prog_release :: "ptr \<Rightarrow> unit kmon" where \<comment> \<open>\<open>__bpf_prog_release\<close>\<close>
  "bpf_prog_release prog =
     kbind (get_prog prog) (\<lambda>p.
     if pg_type p = BPF_PROG_TYPE_SOCKET_FILTER then bpf_prog_put prog
     else kbind (bpf_release_orig_filter prog) (\<lambda>_. bpf_prog_free prog))"

fun prog_classic :: "prog_insns \<Rightarrow> sock_filter list" where
  "prog_classic (Insns is) = is"
| "prog_classic (Insnsi _) = []"

definition bpf_prog_store_orig_filter :: "ptr \<Rightarrow> nat \<Rightarrow> unit kmon" where
  "bpf_prog_store_orig_filter fp fprog_len =
     kbind (kalloc (K_fprog fprog_len None)) (\<lambda>fkprog.
     kbind (upd_prog fp (\<lambda>p. p\<lparr>pg_orig := fkprog\<rparr>)) (\<lambda>_.
     case fkprog of None \<Rightarrow> kerr ENOMEM
     | Some fkprog \<Rightarrow>
         kbind (get_prog fp) (\<lambda>p.
         kbind (kalloc (K_insns (take fprog_len (prog_classic (pg_insns p))))) (\<lambda>f.
         case f of None \<Rightarrow> kbind (kfree (Some fkprog)) (\<lambda>_. kerr ENOMEM)
         | Some f \<Rightarrow> kset fkprog (K_fprog fprog_len (Some f))))))"

text \<open>\<open>out_err_free\<close> and \<open>out_err\<close> are the two error handlers.\<close>

definition bpf_migrate_filter :: "skb_layout \<Rightarrow> ptr \<Rightarrow> ptr kmon" where
  "bpf_migrate_filter L fp =
     kbind (get_prog fp) (\<lambda>p.
     kbind (kalloc (K_insns (take (pg_len p) (prog_classic (pg_insns p))))) (\<lambda>old_prog.
     case old_prog of None \<Rightarrow> on_err (kerr ENOMEM) (bpf_prog_release fp)
     | Some old_prog \<Rightarrow>
         (let old = take (pg_len p) (prog_classic (pg_insns p));
              out_err_free = (\<lambda>fp. kbind (kfree (Some old_prog)) (\<lambda>_. bpf_prog_release fp)) in
          kbind (on_err (\<lambda>s. (bpf_convert_len L old, s)) (out_err_free fp)) (\<lambda>new_len.
          kbind (bpf_prog_realloc fp (bpf_prog_size new_len)) (\<lambda>new_fp.
          case new_fp of None \<Rightarrow> on_err (kerr ENOMEM) (out_err_free fp)
          | Some fp \<Rightarrow>
              kbind (upd_prog fp (\<lambda>p. p\<lparr>pg_len := new_len\<rparr>)) (\<lambda>_.
              kbind (on_err (with_temp (\<lambda>ok. bpf_convert_filter L ok old new_len)) (out_err_free fp)) (\<lambda>insnsi.
              kbind (upd_prog fp (\<lambda>p. p\<lparr>pg_insns := Insnsi insnsi\<rparr>)) (\<lambda>_.
              kbind (bpf_prog_select_runtime fp) (\<lambda>_.
              kbind (kfree (Some old_prog)) (\<lambda>_. kret fp)))))))))) "

text \<open>\<open>transf\<close> rewrites the instructions in place or rejects them (seccomp uses it).\<close>

definition bpf_prepare_filter :: "skb_layout \<Rightarrow> ptr \<Rightarrow> (sock_filter list \<Rightarrow> sock_filter list result) option \<Rightarrow> ptr kmon" where
  "bpf_prepare_filter L fp transf =
     kbind (upd_prog fp (\<lambda>p. p\<lparr>pg_func := False, pg_jited := False\<rparr>)) (\<lambda>_.
     kbind (get_prog fp) (\<lambda>p.
     kbind (on_err (with_temp (\<lambda>ok. bpf_check_classic ok (take (pg_len p) (prog_classic (pg_insns p)))))
              (bpf_prog_release fp)) (\<lambda>_.
     kbind (case transf of None \<Rightarrow> kret ()
            | Some t \<Rightarrow>
                kbind (on_err (\<lambda>s. (t (take (pg_len p) (prog_classic (pg_insns p))), s)) (bpf_prog_release fp))
                  (\<lambda>is. upd_prog fp (\<lambda>p. p\<lparr>pg_insns := Insns is\<rparr>))) (\<lambda>_.
     bpf_migrate_filter L fp))))"

section \<open>Creating filters\<close>

text \<open>A program of user space: \<open>NULL\<close>, or the instructions that can be read at the address.\<close>

record sock_fprog =
  fprog_len :: u16
  fprog_filter :: "sock_filter list option"

definition copy_from_user :: "sock_filter list \<Rightarrow> nat \<Rightarrow> sock_filter list option" where
  "copy_from_user buf n = (if n \<le> length buf then Some (take n buf) else None)"

text \<open>The prologue \<open>sk_attach_filter\<close> and \<open>bpf_prog_create_from_user\<close> share.\<close>

definition prog_from_user :: "sock_fprog \<Rightarrow> ptr kmon" where
  "prog_from_user fprog =
     (case fprog_filter fprog of None \<Rightarrow> kerr EINVAL
      | Some buf \<Rightarrow>
          kbind (bpf_prog_alloc (bpf_prog_size (unat (fprog_len fprog)))) (\<lambda>fp.
          case fp of None \<Rightarrow> kerr ENOMEM
          | Some fp \<Rightarrow>
              (case copy_from_user buf (unat (fprog_len fprog)) of
                 None \<Rightarrow> kbind (bpf_prog_free_now fp) (\<lambda>_. kerr EFAULT)
               | Some is \<Rightarrow>
                   kbind (upd_prog fp (\<lambda>p. p\<lparr>pg_insns := Insns is, pg_len := unat (fprog_len fprog)\<rparr>)) (\<lambda>_.
                   kret fp))))"

definition bpf_prog_create :: "skb_layout \<Rightarrow> sock_fprog \<Rightarrow> ptr kmon" where
  "bpf_prog_create L fprog =
     (case fprog_filter fprog of None \<Rightarrow> kerr EINVAL
      | Some filt \<Rightarrow>
          kbind (bpf_prog_alloc (bpf_prog_size (unat (fprog_len fprog)))) (\<lambda>fp.
          case fp of None \<Rightarrow> kerr ENOMEM
          | Some fp \<Rightarrow>
              kbind (upd_prog fp (\<lambda>p. p\<lparr>pg_insns := Insns (take (unat (fprog_len fprog)) filt),
                                      pg_len := unat (fprog_len fprog), pg_orig := None\<rparr>)) (\<lambda>_.
              bpf_prepare_filter L fp None)))"

definition bpf_prog_create_from_user ::
  "skb_layout \<Rightarrow> sock_fprog \<Rightarrow> (sock_filter list \<Rightarrow> sock_filter list result) option \<Rightarrow> bool \<Rightarrow> ptr kmon" where
  "bpf_prog_create_from_user L fprog transf save_orig =
     kbind (prog_from_user fprog) (\<lambda>fp.
     kbind (if save_orig then on_err (bpf_prog_store_orig_filter fp (unat (fprog_len fprog))) (bpf_prog_free_now fp)
            else kret ()) (\<lambda>_.
     bpf_prepare_filter L fp transf))"

definition bpf_prog_destroy :: "ptr \<Rightarrow> unit kmon" where
  "bpf_prog_destroy fp = bpf_prog_release fp"

section \<open>Socket filters\<close>

definition sk_filter_release_rcu :: "ptr \<Rightarrow> unit kmon" where \<comment> \<open>\<open>__sk_filter_release\<close> after the grace period\<close>
  "sk_filter_release_rcu fp =
     kbind (get_skf fp) (\<lambda>f. kbind (bpf_prog_release (skf_prog f)) (\<lambda>_. kfree (Some fp)))"

definition sk_filter_release :: "ptr \<Rightarrow> unit kmon" where
  "sk_filter_release fp =
     kbind (get_skf fp) (\<lambda>f.
     kbind (kset fp (K_skf (f\<lparr>skf_refcnt := skf_refcnt f - 1\<rparr>))) (\<lambda>_ s.
       (Ok (), if skf_refcnt f - 1 = 0 then s\<lparr>rcu := rcu s @ [fp]\<rparr> else s)))"

definition filter_size :: "ptr \<Rightarrow> u32 kmon" where
  "filter_size fp = kbind (get_skf fp) (\<lambda>f. kbind (get_prog (skf_prog f)) (\<lambda>p. kret (of_nat (bpf_prog_size (pg_len p)))))"

definition sk_filter_uncharge :: "nat \<Rightarrow> ptr \<Rightarrow> unit kmon" where
  "sk_filter_uncharge sk fp =
     kbind (filter_size fp) (\<lambda>sz.
     kbind (upd_sock sk (\<lambda>k. k\<lparr>sk_omem_alloc := sk_omem_alloc k - sz\<rparr>)) (\<lambda>_. sk_filter_release fp))"

definition sk_filter_charge :: "u32 \<Rightarrow> nat \<Rightarrow> ptr \<Rightarrow> bool kmon" where
  "sk_filter_charge optmem_max sk fp =
     kbind (filter_size fp) (\<lambda>sz.
     kbind (get_sock sk) (\<lambda>k.
     if sz \<le> optmem_max \<and> sk_omem_alloc k + sz < optmem_max then
       kbind (get_skf fp) (\<lambda>f.
       kbind (kset fp (K_skf (f\<lparr>skf_refcnt := skf_refcnt f + 1\<rparr>))) (\<lambda>_.
       kbind (upd_sock sk (\<lambda>k. k\<lparr>sk_omem_alloc := sk_omem_alloc k + sz\<rparr>)) (\<lambda>_. kret True)))
     else kret False))"

definition sk_attach_prog :: "u32 \<Rightarrow> ptr \<Rightarrow> nat \<Rightarrow> unit kmon" where \<comment> \<open>\<open>__sk_attach_prog\<close>\<close>
  "sk_attach_prog optmem_max prog sk =
     kbind (kalloc (K_skf \<lparr>skf_refcnt = 0, skf_prog = prog\<rparr>)) (\<lambda>fp.
     case fp of None \<Rightarrow> kerr ENOMEM
     | Some fp \<Rightarrow>
         kbind (sk_filter_charge optmem_max sk fp) (\<lambda>charged.
         if \<not> charged then kbind (kfree (Some fp)) (\<lambda>_. kerr ENOMEM)
         else
           kbind (get_sock sk) (\<lambda>k.
           kbind (upd_sock sk (\<lambda>k. k\<lparr>sk_filter_ptr := Some fp\<rparr>)) (\<lambda>_.
           case sk_filter_ptr k of None \<Rightarrow> kret () | Some old_fp \<Rightarrow> sk_filter_uncharge sk old_fp))))"

definition sk_attach_filter :: "skb_layout \<Rightarrow> u32 \<Rightarrow> sock_fprog \<Rightarrow> nat \<Rightarrow> unit kmon" where
  "sk_attach_filter L optmem_max fprog sk =
     kbind (get_sock sk) (\<lambda>k.
     if sk_locked k then kerr EPERM
     else
       kbind (prog_from_user fprog) (\<lambda>prog.
       kbind (on_err (bpf_prog_store_orig_filter prog (unat (fprog_len fprog))) (bpf_prog_free_now prog)) (\<lambda>_.
       kbind (bpf_prepare_filter L prog None) (\<lambda>prog.
       on_err (sk_attach_prog optmem_max prog sk) (bpf_prog_release prog)))))"

definition sk_detach_filter :: "nat \<Rightarrow> unit kmon" where
  "sk_detach_filter sk =
     kbind (get_sock sk) (\<lambda>k.
     if sk_locked k then kerr EPERM
     else (case sk_filter_ptr k of None \<Rightarrow> kerr ENOENT
           | Some filt \<Rightarrow> kbind (upd_sock sk (\<lambda>k. k\<lparr>sk_filter_ptr := None\<rparr>)) (\<lambda>_. sk_filter_uncharge sk filt)))"

text \<open>
  \<open>sk_get_filter\<close>: \<open>ulen\<close> is the number of instructions the user buffer holds, \<open>writable\<close> whether
  the copy to it succeeds; the result is the returned number and what was copied.
\<close>

definition sk_get_filter :: "nat \<Rightarrow> bool \<Rightarrow> nat \<Rightarrow> (nat \<times> sock_filter list) kmon" where
  "sk_get_filter sk writable ulen =
     kbind (get_sock sk) (\<lambda>k.
     case sk_filter_ptr k of None \<Rightarrow> kret (0, [])
     | Some filt \<Rightarrow>
         kbind (get_skf filt) (\<lambda>f. kbind (get_prog (skf_prog f)) (\<lambda>p.
         case pg_orig p of None \<Rightarrow> kerr EACCES
         | Some fprog \<Rightarrow> (\<lambda>s.
             case heap s fprog of
               Some (K_fprog len (Some a)) \<Rightarrow>
                 (case heap s a of
                    Some (K_insns is) \<Rightarrow>
                      (if ulen = 0 then (Ok (len, []), s)
                       else if ulen < len then (Err EINVAL, s)
                       else if \<not> writable then (Err EFAULT, s)
                       else (Ok (len, is), s))
                  | _ \<Rightarrow> (Undef BadMem, s))
             | _ \<Rightarrow> (Undef BadMem, s)))))"

section \<open>Deferred work and whole sockets\<close>

text \<open>The filter part of \<open>sk_clone_lock\<close> and \<open>sk_destruct\<close>: the new socket starts as a copy.\<close>

definition sk_destruct :: "nat \<Rightarrow> unit kmon" where
  "sk_destruct sk =
     kbind (get_sock sk) (\<lambda>k.
     case sk_filter_ptr k of None \<Rightarrow> kret ()
     | Some filt \<Rightarrow> kbind (sk_filter_uncharge sk filt) (\<lambda>_. upd_sock sk (\<lambda>k. k\<lparr>sk_filter_ptr := None\<rparr>)))"

definition sk_clone_lock :: "u32 \<Rightarrow> nat \<Rightarrow> nat \<Rightarrow> bool kmon" where
  "sk_clone_lock optmem_max sk newsk =
     kbind (get_sock sk) (\<lambda>k.
     kbind (upd_sock newsk (\<lambda>_. k\<lparr>sk_omem_alloc := 0\<rparr>)) (\<lambda>_.
     kbind (case sk_filter_ptr k of None \<Rightarrow> kret True | Some filt \<Rightarrow> sk_filter_charge optmem_max newsk filt) (\<lambda>is_charged.
     if \<not> is_charged then kbind (sk_destruct newsk) (\<lambda>_. kret False) else kret True)))"

text \<open>One pending callback runs: a grace period ends, or a work item is executed.\<close>

fun run_rcu :: "unit kmon" where
  "run_rcu s = (case rcu s of [] \<Rightarrow> (Ok (), s) | fp # rest \<Rightarrow> sk_filter_release_rcu fp (s\<lparr>rcu := rest\<rparr>))"

fun run_work :: "unit kmon" where
  "run_work s = (case work s of [] \<Rightarrow> (Ok (), s) | fp # rest \<Rightarrow> bpf_prog_free_deferred fp (s\<lparr>work := rest\<rparr>))"

end
