(* ===== verification/Sk_Filter_Correct.thy ===== *)
theory Sk_Filter_Correct
  imports Sk_Filter
begin

text \<open>
  Resource safety and functional correctness of socket filters. The proofs follow the objects an
  operation owns: \<open>ext s objs w s'\<close> says that \<open>s'\<close> differs from \<open>s\<close> exactly by the fresh objects
  \<open>objs\<close> and the scheduled work \<open>w\<close>, and each operation maps such a description to the next.
\<close>

section \<open>Frames: the objects an operation owns on top of a state\<close>

definition heap_ok :: "kst \<Rightarrow> bool" where
  "heap_ok s \<longleftrightarrow> (\<forall>p. heap s p \<noteq> None \<longrightarrow> p < next_ptr s)"

text \<open>\<open>ext s objs w s'\<close>: \<open>s'\<close> is \<open>s\<close> with the fresh objects \<open>objs\<close> and the scheduled work \<open>w\<close> added;
  pointers and allocation outcomes may have been consumed.\<close>

definition ext :: "kst \<Rightarrow> (ptr \<Rightarrow> kobj option) \<Rightarrow> ptr list \<Rightarrow> kst \<Rightarrow> bool" where
  "ext s objs w s' \<longleftrightarrow> heap_ok s \<and>
     heap s' = heap s ++ objs \<and> work s' = work s @ w \<and> rcu s' = rcu s \<and> socks s' = socks s \<and>
     next_ptr s \<le> next_ptr s' \<and> (\<forall>p. objs p \<noteq> None \<longrightarrow> next_ptr s \<le> p \<and> p < next_ptr s')"

lemma ext_refl: "heap_ok s \<Longrightarrow> ext s Map.empty [] s"
  by (simp add: ext_def)

lemma ext_same: "ext s Map.empty [] s' \<Longrightarrow> heap s' = heap s \<and> work s' = work s"
  by (auto simp: ext_def)

lemma ext_other: "ext s objs w s' \<Longrightarrow> socks s' = socks s \<and> rcu s' = rcu s"
  by (auto simp: ext_def)

lemma ext_heap: "ext s objs w s' \<Longrightarrow> objs p = Some x \<Longrightarrow> heap s' p = Some x"
  by (auto simp: ext_def)

lemma ext_frame: "ext s objs w s' \<Longrightarrow> heap s p = Some x \<Longrightarrow> heap s' p = Some x"
proof -
  assume e: "ext s objs w s'" and h: "heap s p = Some x"
  then have "p < next_ptr s" by (auto simp: ext_def heap_ok_def)
  then have "objs p = None" using e by (meson ext_def leD)
  then show ?thesis using e h by (auto simp: ext_def map_add_def)
qed

lemma kalloc_ext:
  assumes "ext s objs w s'"
  shows "(\<exists>s''. kalloc obj s' = (Ok None, s'') \<and> ext s objs w s'') \<or>
    (\<exists>p s''. kalloc obj s' = (Ok (Some p), s'') \<and> objs p = None \<and> heap s p = None \<and> ext s (objs(p \<mapsto> obj)) w s'')"
proof (cases "alloc_ok s' = [] \<or> hd (alloc_ok s')")
  case True
  have "objs (next_ptr s') = None" "heap s (next_ptr s') = None"
    using assms unfolding ext_def heap_ok_def by (meson leD less_irrefl)+
  moreover have "ext s (objs(next_ptr s' \<mapsto> obj)) w (snd (kalloc obj s'))"
    using assms True unfolding ext_def kalloc_def by (auto simp: Let_def heap_ok_def)
  ultimately show ?thesis using True by (auto simp: kalloc_def Let_def)
next
  case False
  then show ?thesis using assms by (fastforce simp: ext_def kalloc_def Let_def)
qed

lemma kfree_ext:
  assumes "ext s objs w s'" and "objs p = Some x"
  shows "\<exists>s''. kfree (Some p) s' = (Ok (), s'') \<and> ext s (objs(p := None)) w s''"
proof -
  have "heap s p = None" using assms unfolding ext_def heap_ok_def by (metis leD option.distinct(1))
  then have "(heap s ++ objs)(p := None) = heap s ++ objs(p := None)" by (auto simp: map_add_def)
  then have "ext s (objs(p := None)) w (s'\<lparr>heap := (heap s')(p := None)\<rparr>)"
    using assms by (simp add: ext_def)
  then show ?thesis using ext_heap [OF assms] by (simp add: kfree_def)
qed

lemma kset_ext:
  assumes "ext s objs w s'" and "objs p = Some x"
  shows "\<exists>s''. kset p obj s' = (Ok (), s'') \<and> ext s (objs(p \<mapsto> obj)) w s''"
  using assms ext_heap [OF assms] unfolding ext_def kset_def by auto

lemma get_prog_ext: "ext s objs w s' \<Longrightarrow> objs p = Some (K_prog x) \<Longrightarrow> get_prog p s' = (Ok x, s')"
  by (simp add: get_prog_def ext_heap)

lemma upd_prog_ext:
  assumes "ext s objs w s'" and "objs p = Some (K_prog x)"
  shows "\<exists>s''. upd_prog p f s' = (Ok (), s'') \<and> ext s (objs(p \<mapsto> K_prog (f x))) w s''"
  using kset_ext [OF assms, of "K_prog (f x)"] get_prog_ext [OF assms] by (auto simp: upd_prog_def kbind_def)

lemma with_temp_ext:
  assumes "ext s objs w s'"
  shows "\<exists>b s''. with_temp f s' = (f b, s'') \<and> ext s objs w s''"
  using assms unfolding with_temp_def ext_def by auto

lemma bpf_prog_free_ext:
  assumes "ext s objs w s'"
  shows "\<exists>s''. bpf_prog_free fp s' = (Ok (), s'') \<and> ext s objs (w @ [fp]) s''"
  using assms unfolding bpf_prog_free_def ext_def by auto


section \<open>Building a program\<close>

text \<open>The objects of a program: itself, its auxiliary data and, when kept, the original filter.\<close>

definition orig_objs :: "(ptr \<times> ptr \<times> sock_filter list) option \<Rightarrow> ptr \<Rightarrow> kobj option" where
  "orig_objs og = (case og of None \<Rightarrow> Map.empty | Some (a, b, is) \<Rightarrow> [a \<mapsto> K_fprog (length is) (Some b), b \<mapsto> K_insns is])"

fun orig_ptrs :: "(ptr \<times> ptr \<times> sock_filter list) option \<Rightarrow> ptr list" where
  "orig_ptrs None = []"
| "orig_ptrs (Some (a, b, is)) = [a, b]"

definition prog_objs :: "ptr \<Rightarrow> bpf_prog \<Rightarrow> ptr \<Rightarrow> (ptr \<times> ptr \<times> sock_filter list) option \<Rightarrow> ptr \<Rightarrow> kobj option" where
  "prog_objs fp p aux og = (orig_objs og)(fp \<mapsto> K_prog p, aux \<mapsto> K_aux 0)"

definition prog_ok :: "ptr \<Rightarrow> bpf_prog \<Rightarrow> ptr \<Rightarrow> (ptr \<times> ptr \<times> sock_filter list) option \<Rightarrow> bool" where
  "prog_ok fp p aux og \<longleftrightarrow> pg_aux p = Some aux \<and> pg_orig p = map_option fst og \<and>
     pg_type p = BPF_PROG_TYPE_UNSPEC \<and> distinct (fp # aux # orig_ptrs og)"

lemma prog_objs_fp [simp]: "prog_ok fp p aux og \<Longrightarrow> prog_objs fp q aux og fp = Some (K_prog q)"
  by (simp add: prog_objs_def prog_ok_def)

lemma prog_objs_aux [simp]: "prog_objs fp q aux og aux = Some (K_aux 0)"
  by (simp add: prog_objs_def)

lemma prog_objs_upd: "prog_ok fp p aux og \<Longrightarrow> (prog_objs fp q aux og)(fp \<mapsto> K_prog r) = prog_objs fp r aux og"
  by (auto simp: prog_objs_def prog_ok_def)

lemma bpf_prog_free_now_ext:
  assumes "ext s (prog_objs fp p aux None) w s'" and "pg_aux p = Some aux" and "fp \<noteq> aux"
  shows "\<exists>s''. bpf_prog_free_now fp s' = (Ok (), s'') \<and> ext s Map.empty w s''"
proof -
  have g: "get_prog fp s' = (Ok p, s')" using assms(3) by (intro get_prog_ext [OF assms(1)]) (simp add: prog_objs_def)
  obtain s1 where s1: "kfree (Some aux) s' = (Ok (), s1)" "ext s ((prog_objs fp p aux None)(aux := None)) w s1"
    using kfree_ext [OF assms(1) prog_objs_aux] by blast
  obtain s2 where s2: "kfree (Some fp) s1 = (Ok (), s2)" "ext s ((prog_objs fp p aux None)(aux := None, fp := None)) w s2"
    using kfree_ext [OF s1(2), of fp "K_prog p"] assms(3) by (auto simp: prog_objs_def)
  moreover have "(prog_objs fp p aux None)(aux := None, fp := None) = Map.empty"
    by (auto simp: prog_objs_def orig_objs_def)
  ultimately show ?thesis using g s1(1) assms(2) by (auto simp: bpf_prog_free_now_def kbind_def)
qed

lemma bpf_prog_alloc_ext:
  assumes "ext s Map.empty [] s'"
  shows "(\<exists>s''. bpf_prog_alloc n s' = (Ok None, s'') \<and> ext s Map.empty [] s'') \<or>
    (\<exists>fp p aux s''. bpf_prog_alloc n s' = (Ok (Some fp), s'') \<and> prog_ok fp p aux None \<and>
       pg_pages p = round_up_pages n \<and> ext s (prog_objs fp p aux None) [] s'')"
proof -
  let ?zero = "\<lparr>pg_pages = 0, pg_jited = False, pg_len = 0, pg_type = BPF_PROG_TYPE_UNSPEC,
              pg_aux = None, pg_orig = None, pg_func = False, pg_insns = Insns []\<rparr>"
  consider s1 where "kalloc (K_prog ?zero) s' = (Ok None, s1)" "ext s Map.empty [] s1"
    | fp s1 where "kalloc (K_prog ?zero) s' = (Ok (Some fp), s1)" "ext s [fp \<mapsto> K_prog ?zero] [] s1"
    using kalloc_ext [OF assms, of "K_prog ?zero"] by auto
  then show ?thesis
  proof cases
    case 1
    then show ?thesis by (simp add: bpf_prog_alloc_def kbind_def kret_def)
  next
    case 2
    consider s2 where "kalloc (K_aux 0) s1 = (Ok None, s2)" "ext s [fp \<mapsto> K_prog ?zero] [] s2"
      | aux s2 where "kalloc (K_aux 0) s1 = (Ok (Some aux), s2)" "aux \<noteq> fp" "ext s [fp \<mapsto> K_prog ?zero, aux \<mapsto> K_aux 0] [] s2"
      using kalloc_ext [OF 2(2), of "K_aux 0"] by (auto split: if_splits)
    then show ?thesis
    proof cases
      case a: 1
      obtain s3 where "kfree (Some fp) s2 = (Ok (), s3)" "ext s ([fp \<mapsto> K_prog ?zero](fp := None)) [] s3"
        using kfree_ext [OF a(2), of fp] by auto
      then show ?thesis using 2(1) a(1) by (simp add: bpf_prog_alloc_def kbind_def kret_def)
    next
      case a: 2
      let ?p = "?zero\<lparr>pg_pages := round_up_pages n, pg_aux := Some aux\<rparr>"
      have at: "[fp \<mapsto> K_prog ?zero, aux \<mapsto> K_aux 0] fp = Some (K_prog ?zero)" using a(2) by simp
      obtain s3 where s3: "upd_prog fp (\<lambda>p. p\<lparr>pg_pages := round_up_pages n, pg_aux := Some aux\<rparr>) s2 = (Ok (), s3)"
        "ext s ([fp \<mapsto> K_prog ?zero, aux \<mapsto> K_aux 0](fp \<mapsto> K_prog ?p)) [] s3"
        using upd_prog_ext [OF a(3) at, of "\<lambda>p. p\<lparr>pg_pages := round_up_pages n, pg_aux := Some aux\<rparr>"] by blast
      have "[fp \<mapsto> K_prog ?zero, aux \<mapsto> K_aux 0](fp \<mapsto> K_prog ?p) = prog_objs fp ?p aux None"
        using a(2) by (auto simp: prog_objs_def orig_objs_def)
      then have "ext s (prog_objs fp ?p aux None) [] s3" using s3(2) by simp
      moreover have "prog_ok fp ?p aux None" using a(2) by (simp add: prog_ok_def)
      ultimately show ?thesis using 2(1) a(1) s3(1)
        by (intro disjI2 exI [of _ fp] exI [of _ ?p] exI [of _ aux] exI [of _ s3])
          (simp add: bpf_prog_alloc_def kbind_def kret_def)
    qed
  qed
qed

lemma prog_from_user_ext:
  assumes "heap_ok s"
  shows "(\<exists>e s''. prog_from_user fprog s = (Err e, s'') \<and> ext s Map.empty [] s'') \<or>
    (\<exists>fp p aux buf s''. prog_from_user fprog s = (Ok fp, s'') \<and> prog_ok fp p aux None \<and>
       fprog_filter fprog = Some buf \<and> unat (fprog_len fprog) \<le> length buf \<and>
       pg_insns p = Insns (take (unat (fprog_len fprog)) buf) \<and> pg_len p = unat (fprog_len fprog) \<and>
       ext s (prog_objs fp p aux None) [] s'')"
proof (cases "fprog_filter fprog")
  case None
  then show ?thesis using ext_refl [OF assms] by (auto simp: prog_from_user_def kerr_def)
next
  case (Some buf)
  let ?n = "unat (fprog_len fprog)"
  consider s1 where "bpf_prog_alloc (bpf_prog_size ?n) s = (Ok None, s1)" "ext s Map.empty [] s1"
    | fp p aux s1 where "bpf_prog_alloc (bpf_prog_size ?n) s = (Ok (Some fp), s1)" "prog_ok fp p aux None"
       "ext s (prog_objs fp p aux None) [] s1"
    using bpf_prog_alloc_ext [OF ext_refl [OF assms]] by blast
  then show ?thesis
  proof cases
    case 1
    then show ?thesis using Some by (auto simp: prog_from_user_def kbind_def kerr_def)
  next
    case 2
    show ?thesis
    proof (cases "?n \<le> length buf")
      case False
      obtain s2 where "bpf_prog_free_now fp s1 = (Ok (), s2)" "ext s Map.empty [] s2"
        using bpf_prog_free_now_ext [OF 2(3)] 2(2) by (auto simp: prog_ok_def)
      then show ?thesis using False Some 2(1)
        by (auto simp: prog_from_user_def kbind_def kerr_def copy_from_user_def)
    next
      case True
      let ?f = "\<lambda>p. p\<lparr>pg_insns := Insns (take ?n buf), pg_len := ?n\<rparr>"
      obtain s2 where s2: "upd_prog fp ?f s1 = (Ok (), s2)" "ext s (prog_objs fp (?f p) aux None) [] s2"
        using upd_prog_ext [OF 2(3) prog_objs_fp [OF 2(2)], of ?f] prog_objs_upd [OF 2(2)] by auto
      moreover have "prog_ok fp (?f p) aux None" using 2(2) by (simp add: prog_ok_def)
      ultimately show ?thesis using True Some 2(1)
        by (intro disjI2 exI [of _ fp] exI [of _ "?f p"] exI [of _ aux] exI [of _ buf] exI [of _ s2])
          (simp add: prog_from_user_def kbind_def kret_def copy_from_user_def)
    qed
  qed
qed


section \<open>Keeping the original, releasing, migrating\<close>

lemma store_orig_ext:
  assumes e: "ext s (prog_objs fp p aux None) [] s'" and ok: "prog_ok fp p aux None"
    and "is": "pg_insns p = Insns is" "n = length is"
  shows "(\<exists>q s''. bpf_prog_store_orig_filter fp n s' = (Err ENOMEM, s'') \<and> ext s (prog_objs fp (p\<lparr>pg_orig := q\<rparr>) aux None) [] s'') \<or>
    (\<exists>a b s''. bpf_prog_store_orig_filter fp n s' = (Ok (), s'') \<and>
       prog_ok fp (p\<lparr>pg_orig := Some a\<rparr>) aux (Some (a, b, is)) \<and>
       ext s (prog_objs fp (p\<lparr>pg_orig := Some a\<rparr>) aux (Some (a, b, is))) [] s'')"
proof -
  let ?o = "prog_objs fp p aux None"
  have ne: "fp \<noteq> aux" using ok by (simp add: prog_ok_def)
  consider s1 where "kalloc (K_fprog n None) s' = (Ok None, s1)" "ext s ?o [] s1"
    | a s1 where "kalloc (K_fprog n None) s' = (Ok (Some a), s1)" "?o a = None" "ext s (?o(a \<mapsto> K_fprog n None)) [] s1"
    using kalloc_ext [OF e] by blast
  then show ?thesis
  proof cases
    case 1
    obtain s2 where s2: "upd_prog fp (\<lambda>p. p\<lparr>pg_orig := None\<rparr>) s1 = (Ok (), s2)" "ext s (?o(fp \<mapsto> K_prog (p\<lparr>pg_orig := None\<rparr>))) [] s2"
      using upd_prog_ext [OF 1(2) prog_objs_fp [OF ok]] by blast
    then show ?thesis using 1(1) prog_objs_upd [OF ok]
      by (auto simp: bpf_prog_store_orig_filter_def kbind_def kerr_def)
  next
    case 2
    have a: "a \<noteq> fp" "a \<noteq> aux" using 2(2) by (auto simp: prog_objs_def split: if_splits)
    let ?q = "p\<lparr>pg_orig := Some a\<rparr>"
    have "(?o(a \<mapsto> K_fprog n None)) fp = Some (K_prog p)" using a ne by (simp add: prog_objs_def)
    then obtain s2 where s2: "upd_prog fp (\<lambda>p. p\<lparr>pg_orig := Some a\<rparr>) s1 = (Ok (), s2)"
      "ext s (?o(a \<mapsto> K_fprog n None, fp \<mapsto> K_prog ?q)) [] s2"
      using upd_prog_ext [OF 2(3)] by blast
    let ?o2 = "?o(a \<mapsto> K_fprog n None, fp \<mapsto> K_prog ?q)"
    have g: "get_prog fp s2 = (Ok ?q, s2)" by (rule get_prog_ext [OF s2(2)]) simp
    consider s3 where "kalloc (K_insns is) s2 = (Ok None, s3)" "ext s ?o2 [] s3"
      | b s3 where "kalloc (K_insns is) s2 = (Ok (Some b), s3)" "?o2 b = None" "ext s (?o2(b \<mapsto> K_insns is)) [] s3"
      using kalloc_ext [OF s2(2)] by blast
    then show ?thesis
    proof cases
      case b: 1
      obtain s4 where s4: "kfree (Some a) s3 = (Ok (), s4)" "ext s (?o2(a := None)) [] s4"
        using kfree_ext [OF b(2), of a "K_fprog n None"] a by auto
      have "?o2(a := None) = prog_objs fp ?q aux None"
        using a ne 2(2) by (auto simp: prog_objs_def orig_objs_def fun_eq_iff)
      then show ?thesis using 2(1) s2(1) g b(1) s4 "is"
        by (auto simp: bpf_prog_store_orig_filter_def kbind_def kerr_def)
    next
      case b: 2
      have bne: "b \<noteq> fp" "b \<noteq> aux" "b \<noteq> a" using b(2) by (auto simp: prog_objs_def split: if_splits)
      have at: "(?o2(b \<mapsto> K_insns is)) a = Some (K_fprog n None)" using a bne by simp
      obtain s4 where s4: "kset a (K_fprog n (Some b)) s3 = (Ok (), s4)"
        "ext s (?o2(b \<mapsto> K_insns is, a \<mapsto> K_fprog n (Some b))) [] s4"
        using kset_ext [OF b(3) at] by blast
      have "?o2(b \<mapsto> K_insns is, a \<mapsto> K_fprog n (Some b)) = prog_objs fp ?q aux (Some (a, b, is))"
        using a ne bne "is" by (auto simp: prog_objs_def orig_objs_def fun_eq_iff)
      moreover have "prog_ok fp ?q aux (Some (a, b, is))" using ok a bne by (auto simp: prog_ok_def)
      ultimately show ?thesis using 2(1) s2(1) g b(1) s4 "is"
        by (auto simp: bpf_prog_store_orig_filter_def kbind_def)
    qed
  qed
qed

lemma bpf_prog_release_ext:
  assumes e: "ext s (prog_objs fp p aux og) w s'" and ok: "prog_ok fp p aux og"
  shows "\<exists>s''. bpf_prog_release fp s' = (Ok (), s'') \<and> ext s (prog_objs fp p aux None) (w @ [fp]) s''"
proof -
  have g: "get_prog fp s' = (Ok p, s')" using get_prog_ext [OF e prog_objs_fp [OF ok]] .
  have "\<exists>s1. bpf_release_orig_filter fp s' = (Ok (), s1) \<and> ext s (prog_objs fp p aux None) w s1"
  proof (cases og)
    case None
    then show ?thesis using g ok e by (auto simp: bpf_release_orig_filter_def kbind_def prog_ok_def)
  next
    case (Some t)
    obtain a b "is" where t: "t = (a, b, is)" by (cases t)
    have d: "distinct [fp, aux, a, b]" using ok Some t by (simp add: prog_ok_def)
    let ?o = "prog_objs fp p aux og"
    have oa: "?o a = Some (K_fprog (length is) (Some b))" and ob: "?o b = Some (K_insns is)"
      using d Some t by (auto simp: prog_objs_def orig_objs_def)
    obtain s1 where s1: "kfree (Some b) s' = (Ok (), s1)" "ext s (?o(b := None)) w s1"
      using kfree_ext [OF e ob] by blast
    obtain s2 where s2: "kfree (Some a) s1 = (Ok (), s2)" "ext s (?o(b := None, a := None)) w s2"
      using kfree_ext [OF s1(2), of a] oa d by auto
    have "?o(b := None, a := None) = prog_objs fp p aux None"
      using d Some t by (auto simp: prog_objs_def orig_objs_def fun_eq_iff)
    then show ?thesis using g ok Some t s1 s2 ext_heap [OF e oa]
      by (auto simp: bpf_release_orig_filter_def kbind_def prog_ok_def)
  qed
  then obtain s1 where s1: "bpf_release_orig_filter fp s' = (Ok (), s1)" "ext s (prog_objs fp p aux None) w s1" by blast
  then show ?thesis using bpf_prog_free_ext [OF s1(2), of fp] g ok
    by (auto simp: bpf_prog_release_def kbind_def prog_ok_def)
qed

text \<open>A program that only waits for its deferred free.\<close>

definition doomed :: "kst \<Rightarrow> kst \<Rightarrow> bool" where
  "doomed s s' \<longleftrightarrow> (\<exists>fp q aux. ext s (prog_objs fp q aux None) [fp] s' \<and> pg_aux q = Some aux \<and> fp \<noteq> aux)"

lemma release_doomed:
  assumes "ext s (prog_objs fp p aux og) [] s'" and "prog_ok fp p aux og"
  shows "\<exists>s''. bpf_prog_release fp s' = (Ok (), s'') \<and> doomed s s''"
proof -
  have "pg_aux p = Some aux \<and> fp \<noteq> aux" using assms(2) by (simp add: prog_ok_def)
  then show ?thesis using bpf_prog_release_ext [OF assms] by (auto simp: doomed_def)
qed

lemma doomed_run_work:
  assumes "doomed s s'" and "work s = []"
  shows "\<exists>s''. run_work s' = (Ok (), s'') \<and> ext s Map.empty [] s''"
proof -
  obtain fp q aux where d: "ext s (prog_objs fp q aux None) [fp] s'" "pg_aux q = Some aux" "fp \<noteq> aux"
    using assms(1) by (auto simp: doomed_def)
  have "work s' = [fp]" "ext s (prog_objs fp q aux None) [] (s'\<lparr>work := []\<rparr>)"
    using d(1) assms(2) by (auto simp: ext_def)
  then show ?thesis using bpf_prog_free_now_ext [OF _ d(2,3)]
    by (auto simp: bpf_prog_free_deferred_def)
qed


text \<open>Growing a program while a temporary copy of the classic instructions is alive at \<open>t\<close>.\<close>

lemma bpf_prog_realloc_ext:
  assumes e: "ext s ((prog_objs fp p aux og)(t \<mapsto> x)) [] s'" and ok: "prog_ok fp p aux og"
    and t: "prog_objs fp p aux og t = None"
  shows "(\<exists>s''. bpf_prog_realloc fp n s' = (Ok None, s'') \<and> ext s ((prog_objs fp p aux og)(t \<mapsto> x)) [] s'') \<or>
    (\<exists>fp' q s''. bpf_prog_realloc fp n s' = (Ok (Some fp'), s'') \<and> prog_ok fp' q aux og \<and>
       prog_objs fp' q aux og t = None \<and> ext s ((prog_objs fp' q aux og)(t \<mapsto> x)) [] s'')"
proof -
  let ?o = "(prog_objs fp p aux og)(t \<mapsto> x)"
  have ne: "fp \<noteq> aux" "t \<noteq> fp" "t \<noteq> aux" using t ok by (auto simp: prog_objs_def prog_ok_def split: if_splits)
  have ofp: "?o fp = Some (K_prog p)" using ne ok by simp
  have g: "get_prog fp s' = (Ok p, s')" using get_prog_ext [OF e ofp] .
  show ?thesis
  proof (cases "round_up_pages n \<le> pg_pages p")
    case True
    then show ?thesis using g e ok t by (auto simp: bpf_prog_realloc_def kbind_def kret_def)
  next
    case False
    let ?q = "p\<lparr>pg_pages := round_up_pages n\<rparr>"
    consider s1 where "kalloc (K_prog ?q) s' = (Ok None, s1)" "ext s ?o [] s1"
      | fp' s1 where "kalloc (K_prog ?q) s' = (Ok (Some fp'), s1)" "?o fp' = None" "ext s (?o(fp' \<mapsto> K_prog ?q)) [] s1"
      using kalloc_ext [OF e] by blast
    then show ?thesis
    proof cases
      case 1
      then show ?thesis using g False by (auto simp: bpf_prog_realloc_def kbind_def kret_def)
    next
      case 2
      let ?r = "p\<lparr>pg_aux := None\<rparr>"
      have fne: "fp' \<noteq> fp" using 2(2) ofp by auto
      have "(?o(fp' \<mapsto> K_prog ?q)) fp = Some (K_prog p)" using fne ofp by simp
      then obtain s2 where s2: "upd_prog fp (\<lambda>p. p\<lparr>pg_aux := None\<rparr>) s1 = (Ok (), s2)"
        "ext s (?o(fp' \<mapsto> K_prog ?q, fp \<mapsto> K_prog ?r)) [] s2"
        using upd_prog_ext [OF 2(3)] by blast
      have g2: "get_prog fp s2 = (Ok ?r, s2)" by (rule get_prog_ext [OF s2(2)]) simp
      obtain s3 where s3: "kfree (Some fp) s2 = (Ok (), s3)"
        "ext s (?o(fp' \<mapsto> K_prog ?q, fp \<mapsto> K_prog ?r, fp := None)) [] s3"
        using kfree_ext [OF s2(2), of fp] by auto
      have none: "prog_objs fp p aux og fp' = None" "fp' \<noteq> t" using 2(2) by (auto split: if_splits)
      have og: "orig_objs og fp = None" using ok by (auto simp: prog_ok_def orig_objs_def split: option.splits)
      have og': "orig_objs og fp' = None" "fp' \<noteq> aux" using none(1) by (auto simp: prog_objs_def split: if_splits)
      have objs: "?o(fp' \<mapsto> K_prog ?q, fp \<mapsto> K_prog ?r, fp := None) = (prog_objs fp' ?q aux og)(t \<mapsto> x)"
        using ne fne none og og' by (auto simp: prog_objs_def fun_eq_iff)
      have "prog_ok fp' ?q aux og"
        using ok og' by (cases og) (auto simp: prog_ok_def orig_objs_def split: if_splits)
      moreover have "prog_objs fp' ?q aux og t = None"
        using t ne none by (auto simp: prog_objs_def split: if_splits)
      moreover have "bpf_prog_realloc fp n s' = (Ok (Some fp'), s3)"
        using g False 2(1) s2(1) g2 s3(1)
        by (simp add: bpf_prog_realloc_def kbind_def kret_def bpf_prog_free_now_def kfree_def)
      moreover have "ext s ((prog_objs fp' ?q aux og)(t \<mapsto> x)) [] s3" using s3(2) by (simp only: objs)
      ultimately show ?thesis by blast
    qed
  qed
qed



definition migrated :: "skb_layout \<Rightarrow> sock_filter list \<Rightarrow> bpf_prog \<Rightarrow> bool" where
  "migrated L is q \<longleftrightarrow> (\<exists>P. bpf_convert_len L is = Ok (length P) \<and> bpf_convert_filter L True is (length P) = Ok P \<and>
     pg_insns q = Insnsi P \<and> pg_len q = length P \<and> pg_func q)"

lemma free_temp_release_doomed:
  assumes "ext s ((prog_objs fp p aux og)(t \<mapsto> x)) [] s'" and "prog_ok fp p aux og" and "prog_objs fp p aux og t = None"
  shows "\<exists>s1 s2. kfree (Some t) s' = (Ok (), s1) \<and> bpf_prog_release fp s1 = (Ok (), s2) \<and> doomed s s2"
proof -
  obtain s1 where s1: "kfree (Some t) s' = (Ok (), s1)" "ext s ((prog_objs fp p aux og)(t \<mapsto> x, t := None)) [] s1"
    using kfree_ext [OF assms(1), of t x] by auto
  have "(prog_objs fp p aux og)(t \<mapsto> x, t := None) = prog_objs fp p aux og" using assms(3) by auto
  then show ?thesis using s1 release_doomed [OF _ assms(2), of s s1] by auto
qed

lemma bpf_migrate_filter_ext:
  assumes e: "ext s (prog_objs fp p aux og) [] s'" and ok: "prog_ok fp p aux og"
    and "is": "pg_insns p = Insns is" "pg_len p = length is" and chk: "bpf_check_classic b is = Ok ()"
  shows "(\<exists>s''. bpf_migrate_filter L fp s' = (Err ENOMEM, s'') \<and> doomed s s'') \<or>
    (\<exists>fp' q s''. bpf_migrate_filter L fp s' = (Ok fp', s'') \<and> prog_ok fp' q aux og \<and> migrated L is q \<and>
       ext s (prog_objs fp' q aux og) [] s'')"
proof -
  obtain P where P: "bpf_convert_len L is = Ok (length P)" "bpf_convert_filter L True is (length P) = Ok P"
    using convert_checked [OF chk] by blast
  have noenv: "bpf_convert_filter L False is (length P) = Err ENOMEM"
    using check_classic_facts(1,2) [OF chk] by (simp add: bpf_convert_filter_def bad_len_def)
  have g: "get_prog fp s' = (Ok p, s')" using get_prog_ext [OF e prog_objs_fp [OF ok]] .
  note unf = bpf_migrate_filter_def kbind_def on_err_def kerr_def kret_def Let_def
  consider s1 where "kalloc (K_insns is) s' = (Ok None, s1)" "ext s (prog_objs fp p aux og) [] s1"
    | t s1 where "kalloc (K_insns is) s' = (Ok (Some t), s1)" "prog_objs fp p aux og t = None"
        "ext s ((prog_objs fp p aux og)(t \<mapsto> K_insns is)) [] s1"
    using kalloc_ext [OF e] by blast
  then show ?thesis
  proof cases
    case 1
    then show ?thesis using g "is" release_doomed [OF 1(2) ok] by (auto simp: unf)
  next
    case 2
    let ?x = "K_insns is"
    consider s2 where "bpf_prog_realloc fp (bpf_prog_size (length P)) s1 = (Ok None, s2)"
        "ext s ((prog_objs fp p aux og)(t \<mapsto> ?x)) [] s2"
      | fp' q s2 where "bpf_prog_realloc fp (bpf_prog_size (length P)) s1 = (Ok (Some fp'), s2)" "prog_ok fp' q aux og"
        "prog_objs fp' q aux og t = None" "ext s ((prog_objs fp' q aux og)(t \<mapsto> ?x)) [] s2"
      using bpf_prog_realloc_ext [OF 2(3) ok 2(2)] by blast
    then show ?thesis
    proof cases
      case r: 1
      then show ?thesis using g "is" 2(1) P(1) free_temp_release_doomed [OF r(2) ok 2(2)]
        by (auto simp: unf)
    next
      case r: 2
      have ne: "t \<noteq> fp'" using r(2,3) by auto
      have upd: "(prog_objs fp' q1 aux og)(t \<mapsto> ?x, fp' \<mapsto> K_prog q') = (prog_objs fp' q' aux og)(t \<mapsto> ?x)" for q1 q'
        using ne prog_objs_upd [OF r(2), of q1 q'] by (simp add: fun_upd_twist)
      let ?q1 = "q\<lparr>pg_len := length P\<rparr>"
      let ?q2 = "?q1\<lparr>pg_insns := Insnsi P\<rparr>"
      let ?q3 = "?q2\<lparr>pg_func := True\<rparr>"
      have fp: "((prog_objs fp' q' aux og)(t \<mapsto> ?x)) fp' = Some (K_prog q')" for q' using ne r(2) by simp
      obtain s3 where s3: "upd_prog fp' (\<lambda>p. p\<lparr>pg_len := length P\<rparr>) s2 = (Ok (), s3)"
        "ext s ((prog_objs fp' ?q1 aux og)(t \<mapsto> ?x)) [] s3"
        using upd_prog_ext [OF r(4) fp, of "\<lambda>p. p\<lparr>pg_len := length P\<rparr>"] unfolding upd by blast
      have oks: "prog_ok fp' ?q1 aux og" "prog_ok fp' ?q3 aux og" using r(2) by (simp_all add: prog_ok_def)
      have nt: "prog_objs fp' q' aux og t = None" for q' using r(3) ne by (auto simp: prog_objs_def split: if_splits)
      obtain c s4 where s4: "with_temp (\<lambda>ok. bpf_convert_filter L ok is (length P)) s3 = (bpf_convert_filter L c is (length P), s4)"
        "ext s ((prog_objs fp' ?q1 aux og)(t \<mapsto> ?x)) [] s4"
        using with_temp_ext [OF s3(2)] by blast
      note run = g "is" 2(1) P(1) r(1) s3(1) s4(1)
      show ?thesis
      proof (cases c)
        case False
        then show ?thesis using run noenv free_temp_release_doomed [OF s4(2) oks(1) nt] by (auto simp: unf)
      next
        case True
        obtain s5 where s5: "upd_prog fp' (\<lambda>p. p\<lparr>pg_insns := Insnsi P\<rparr>) s4 = (Ok (), s5)"
          "ext s ((prog_objs fp' ?q2 aux og)(t \<mapsto> ?x)) [] s5"
          using upd_prog_ext [OF s4(2) fp, of "\<lambda>p. p\<lparr>pg_insns := Insnsi P\<rparr>"] unfolding upd by blast
        obtain s6 where s6: "upd_prog fp' (\<lambda>p. p\<lparr>pg_func := True\<rparr>) s5 = (Ok (), s6)"
          "ext s ((prog_objs fp' ?q3 aux og)(t \<mapsto> ?x)) [] s6"
          using upd_prog_ext [OF s5(2) fp, of "\<lambda>p. p\<lparr>pg_func := True\<rparr>"] unfolding upd by blast
        obtain s7 where s7: "kfree (Some t) s6 = (Ok (), s7)" "ext s ((prog_objs fp' ?q3 aux og)(t \<mapsto> ?x, t := None)) [] s7"
          using kfree_ext [OF s6(2), of t ?x] by auto
        have "(prog_objs fp' ?q3 aux og)(t \<mapsto> ?x, t := None) = prog_objs fp' ?q3 aux og" using nt by auto
        then have "ext s (prog_objs fp' ?q3 aux og) [] s7" using s7(2) by simp
        moreover have "migrated L is ?q3" using P by (auto simp: migrated_def)
        moreover have "bpf_migrate_filter L fp s' = (Ok fp', s7)"
          using run True P(2) s5(1) s6(1) s7(1) by (simp add: unf bpf_prog_select_runtime_def)
        ultimately show ?thesis using oks(2) by blast
      qed
    qed
  qed
qed


lemma bpf_prepare_filter_ext:
  assumes e: "ext s (prog_objs fp p aux og) [] s'" and ok: "prog_ok fp p aux og"
    and "is": "pg_insns p = Insns is" "pg_len p = length is"
  shows "(\<exists>err s''. bpf_prepare_filter L fp None s' = (Err err, s'') \<and> doomed s s'') \<or>
    (\<exists>fp' q s''. bpf_prepare_filter L fp None s' = (Ok fp', s'') \<and> prog_ok fp' q aux og \<and>
       bpf_check_classic True is = Ok () \<and> migrated L is q \<and> ext s (prog_objs fp' q aux og) [] s'')"
proof -
  let ?f = "\<lambda>p. p\<lparr>pg_func := False, pg_jited := False\<rparr>"
  let ?q = "?f p"
  obtain s1 where s1: "upd_prog fp ?f s' = (Ok (), s1)" "ext s (prog_objs fp ?q aux og) [] s1"
    using upd_prog_ext [OF e prog_objs_fp [OF ok], of ?f] unfolding prog_objs_upd [OF ok] by blast
  have ok1: "prog_ok fp ?q aux og" using ok by (simp add: prog_ok_def)
  have g: "get_prog fp s1 = (Ok ?q, s1)" using get_prog_ext [OF s1(2) prog_objs_fp [OF ok1]] .
  obtain c s2 where s2: "with_temp (\<lambda>ok. bpf_check_classic ok is) s1 = (bpf_check_classic c is, s2)"
    "ext s (prog_objs fp ?q aux og) [] s2"
    using with_temp_ext [OF s1(2)] by blast
  note unf = bpf_prepare_filter_def kbind_def on_err_def kerr_def kret_def
  show ?thesis
  proof (cases "bpf_check_classic c is = Ok ()")
    case False
    then obtain err where "bpf_check_classic c is = Err err" using bpf_check_classic_outcomes [of c "is"] by auto
    then show ?thesis using s1(1) g s2(1) "is" release_doomed [OF s2(2) ok1] by (auto simp: unf)
  next
    case True
    then have "bpf_prepare_filter L fp None s' = bpf_migrate_filter L fp s2"
      using s1(1) g s2(1) "is" by (simp add: unf split: prod.splits result.splits)
    moreover have "bpf_check_classic True is = Ok ()"
      using True by (auto simp: bpf_check_classic_def check_load_and_stores_def Let_def split: if_splits)
    moreover have "pg_insns ?q = Insns is" "pg_len ?q = length is" using "is" by simp_all
    ultimately show ?thesis
      using bpf_migrate_filter_ext [OF s2(2) ok1 _ _ True, of L] by metis
  qed
qed

section \<open>Attaching\<close>

definition filter_wf :: "kst \<Rightarrow> nat \<Rightarrow> bool" where
  "filter_wf s sk \<longleftrightarrow> (case sk_filter_ptr (socks s sk) of None \<Rightarrow> True
     | Some old \<Rightarrow> (\<exists>f p. heap s old = Some (K_skf f) \<and> heap s (skf_prog f) = Some (K_prog p)))"

definition charged_sock :: "kst \<Rightarrow> nat \<Rightarrow> ptr \<Rightarrow> u32 \<Rightarrow> kst" where
  "charged_sock s sk skf sz = s\<lparr>socks := (socks s)(sk := (socks s sk)\<lparr>sk_omem_alloc := sk_omem_alloc (socks s sk) + sz,
     sk_filter_ptr := Some skf\<rparr>)\<rparr>"

definition prog_bytes :: "bpf_prog \<Rightarrow> u32" where
  "prog_bytes q = of_nat (bpf_prog_size (pg_len q))"

lemma upd_sock_ext:
  assumes "ext s objs w s'"
  shows "\<exists>s''. upd_sock sk f s' = (Ok (), s'') \<and> ext (s\<lparr>socks := (socks s)(sk := f (socks s sk))\<rparr>) objs w s''"
  using assms by (simp add: ext_def upd_sock_def heap_ok_def)

lemma filter_size_eq:
  assumes "heap s fp = Some (K_skf f)" and "heap s (skf_prog f) = Some (K_prog q)"
  shows "filter_size fp s = (Ok (prog_bytes q), s)"
  using assms by (simp add: filter_size_def kbind_def get_skf_def get_prog_def kret_def prog_bytes_def)

lemma sk_filter_charge_ext:
  assumes e: "ext s ((prog_objs fp q aux og)(skf \<mapsto> K_skf f)) [] s'" and ok: "prog_ok fp q aux og"
    and skf: "prog_objs fp q aux og skf = None" and f: "skf_prog f = fp"
  shows "(sk_filter_charge mx sk skf s' = (Ok False, s')) \<or>
    (\<exists>s''. sk_filter_charge mx sk skf s' = (Ok True, s'') \<and>
       prog_bytes q \<le> mx \<and> sk_omem_alloc (socks s sk) + prog_bytes q < mx \<and>
       ext (s\<lparr>socks := (socks s)(sk := (socks s sk)\<lparr>sk_omem_alloc := sk_omem_alloc (socks s sk) + prog_bytes q\<rparr>)\<rparr>)
         ((prog_objs fp q aux og)(skf \<mapsto> K_skf (f\<lparr>skf_refcnt := skf_refcnt f + 1\<rparr>))) [] s'')"
proof -
  let ?o = "(prog_objs fp q aux og)(skf \<mapsto> K_skf f)"
  have ne: "skf \<noteq> fp" using skf ok by auto
  have h: "heap s' skf = Some (K_skf f)" "heap s' fp = Some (K_prog q)"
    using ext_heap [OF e] ne ok by simp_all
  have sz: "filter_size skf s' = (Ok (prog_bytes q), s')" using filter_size_eq h f by blast
  have same: "socks s' = socks s" using ext_other [OF e] by simp
  show ?thesis
  proof (cases "prog_bytes q \<le> mx \<and> sk_omem_alloc (socks s sk) + prog_bytes q < mx")
    case False
    then show ?thesis using sz same by (auto simp: sk_filter_charge_def kbind_def get_sock_def kret_def)
  next
    case True
    let ?f = "f\<lparr>skf_refcnt := skf_refcnt f + 1\<rparr>"
    obtain s1 where s1: "kset skf (K_skf ?f) s' = (Ok (), s1)" "ext s (?o(skf \<mapsto> K_skf ?f)) [] s1"
      using kset_ext [OF e, of skf "K_skf f" "K_skf ?f"] by auto
    obtain s2 where s2: "upd_sock sk (\<lambda>k. k\<lparr>sk_omem_alloc := sk_omem_alloc k + prog_bytes q\<rparr>) s1 = (Ok (), s2)"
      "ext (s\<lparr>socks := (socks s)(sk := (socks s sk)\<lparr>sk_omem_alloc := sk_omem_alloc (socks s sk) + prog_bytes q\<rparr>)\<rparr>)
        (?o(skf \<mapsto> K_skf ?f)) [] s2"
      using upd_sock_ext [OF s1(2)] by blast
    show ?thesis using True sz same s1(1) s2 h(1)
      by (simp add: sk_filter_charge_def kbind_def get_sock_def kret_def get_skf_def)
  qed
qed

text \<open>The reference a socket drops when its filter is replaced or removed.\<close>

definition dropped :: "nat \<Rightarrow> ptr \<Rightarrow> kst \<Rightarrow> kst" where
  "dropped sk old s =
     (case heap s old of
        Some (K_skf f) \<Rightarrow>
          (let sz = (case heap s (skf_prog f) of Some (K_prog p) \<Rightarrow> prog_bytes p | _ \<Rightarrow> 0) in
           s\<lparr>heap := (heap s)(old \<mapsto> K_skf (f\<lparr>skf_refcnt := skf_refcnt f - 1\<rparr>)),
             rcu := rcu s @ (if skf_refcnt f = 1 then [old] else []),
             socks := (socks s)(sk := (socks s sk)\<lparr>sk_omem_alloc := sk_omem_alloc (socks s sk) - sz\<rparr>)\<rparr>)
      | _ \<Rightarrow> s)"

lemma sk_filter_uncharge_eq:
  assumes "heap s old = Some (K_skf f)" and "heap s (skf_prog f) = Some (K_prog p)"
  shows "sk_filter_uncharge sk old s = (Ok (), dropped sk old s)"
  using assms filter_size_eq [OF assms]
  by (simp add: sk_filter_uncharge_def kbind_def upd_sock_def sk_filter_release_def get_skf_def kset_def dropped_def)

lemma sk_attach_prog_ext:
  assumes e: "ext s (prog_objs fp q aux og) [] s'" and ok: "prog_ok fp q aux og" and wf: "filter_wf s sk"
  shows "(\<exists>s''. sk_attach_prog mx fp sk s' = (Err ENOMEM, s'') \<and> ext s (prog_objs fp q aux og) [] s'') \<or>
    (\<exists>skf s''. prog_objs fp q aux og skf = None \<and> heap s skf = None \<and>
       prog_bytes q \<le> mx \<and> sk_omem_alloc (socks s sk) + prog_bytes q < mx \<and>
       ext (charged_sock s sk skf (prog_bytes q))
         ((prog_objs fp q aux og)(skf \<mapsto> K_skf \<lparr>skf_refcnt = 1, skf_prog = fp\<rparr>)) [] s'' \<and>
       sk_attach_prog mx fp sk s'
         = (Ok (), case sk_filter_ptr (socks s sk) of None \<Rightarrow> s'' | Some old \<Rightarrow> dropped sk old s''))"
proof -
  let ?f = "\<lparr>skf_refcnt = 0, skf_prog = fp\<rparr>"
  let ?o = "prog_objs fp q aux og"
  note unf = sk_attach_prog_def kbind_def kerr_def kret_def get_sock_def
  consider s1 where "kalloc (K_skf ?f) s' = (Ok None, s1)" "ext s ?o [] s1"
    | skf s1 where "kalloc (K_skf ?f) s' = (Ok (Some skf), s1)" "?o skf = None" "heap s skf = None"
        "ext s (?o(skf \<mapsto> K_skf ?f)) [] s1"
    using kalloc_ext [OF e] by blast
  then show ?thesis
  proof cases
    case 1
    then show ?thesis by (simp add: unf)
  next
    case 2
    consider "sk_filter_charge mx sk skf s1 = (Ok False, s1)"
      | s2 where "sk_filter_charge mx sk skf s1 = (Ok True, s2)"
        "prog_bytes q \<le> mx" "sk_omem_alloc (socks s sk) + prog_bytes q < mx"
        "ext (s\<lparr>socks := (socks s)(sk := (socks s sk)\<lparr>sk_omem_alloc := sk_omem_alloc (socks s sk) + prog_bytes q\<rparr>)\<rparr>)
           (?o(skf \<mapsto> K_skf \<lparr>skf_refcnt = 1, skf_prog = fp\<rparr>)) [] s2"
      using sk_filter_charge_ext [OF 2(4) ok 2(2), of mx sk] by auto
    then show ?thesis
    proof cases
      case c: 1
      obtain s2 where "kfree (Some skf) s1 = (Ok (), s2)" "ext s (?o(skf \<mapsto> K_skf ?f, skf := None)) [] s2"
        using kfree_ext [OF 2(4), of skf] by auto
      moreover have "?o(skf \<mapsto> K_skf ?f, skf := None) = ?o" using 2(2) by auto
      ultimately show ?thesis using 2(1) c by (auto simp: unf)
    next
      case c: 2
      obtain s3 where s3: "upd_sock sk (\<lambda>k. k\<lparr>sk_filter_ptr := Some skf\<rparr>) s2 = (Ok (), s3)"
        "ext (charged_sock s sk skf (prog_bytes q)) (?o(skf \<mapsto> K_skf \<lparr>skf_refcnt = 1, skf_prog = fp\<rparr>)) [] s3"
        using upd_sock_ext [OF c(4), of sk "\<lambda>k. k\<lparr>sk_filter_ptr := Some skf\<rparr>"] by (auto simp: charged_sock_def)
      have so: "sk_filter_ptr (socks s2 sk) = sk_filter_ptr (socks s sk)" using ext_other [OF c(4)] by simp
      have "sk_filter_uncharge sk old s3 = (Ok (), dropped sk old s3)" if o: "sk_filter_ptr (socks s sk) = Some old" for old
      proof -
        obtain f p where "heap s old = Some (K_skf f)" "heap s (skf_prog f) = Some (K_prog p)"
          using wf o by (auto simp: filter_wf_def)
        then show ?thesis
          using ext_frame [OF s3(2)] sk_filter_uncharge_eq by (simp add: charged_sock_def)
      qed
      then have "sk_attach_prog mx fp sk s'
         = (Ok (), case sk_filter_ptr (socks s sk) of None \<Rightarrow> s3 | Some old \<Rightarrow> dropped sk old s3)"
        using 2(1) c(1) s3(1) so by (auto simp: unf split: option.split)
      then show ?thesis using 2(2,3) c(2,3) s3(2) by blast
    qed
  qed
qed


lemma sk_attach_filter_outcomes:
  assumes ok: "heap_ok s" and wf: "filter_wf s sk"
  shows "(\<exists>err s'. sk_attach_filter L mx fprog sk s = (Err err, s') \<and> (ext s Map.empty [] s' \<or> doomed s s')) \<or>
    (\<exists>buf is fp q aux a b skf s''.
       fprog_filter fprog = Some buf \<and> unat (fprog_len fprog) \<le> length buf \<and> is = take (unat (fprog_len fprog)) buf \<and>
       \<not> sk_locked (socks s sk) \<and> bpf_check_classic True is = Ok () \<and> migrated L is q \<and>
       prog_ok fp q aux (Some (a, b, is)) \<and> prog_objs fp q aux (Some (a, b, is)) skf = None \<and> heap s skf = None \<and>
       prog_bytes q \<le> mx \<and> sk_omem_alloc (socks s sk) + prog_bytes q < mx \<and>
       ext (charged_sock s sk skf (prog_bytes q))
         ((prog_objs fp q aux (Some (a, b, is)))(skf \<mapsto> K_skf \<lparr>skf_refcnt = 1, skf_prog = fp\<rparr>)) [] s'' \<and>
       sk_attach_filter L mx fprog sk s
         = (Ok (), case sk_filter_ptr (socks s sk) of None \<Rightarrow> s'' | Some old \<Rightarrow> dropped sk old s''))"
proof (cases "sk_locked (socks s sk)")
  case True
  then show ?thesis using ext_refl [OF ok] by (auto simp: sk_attach_filter_def kbind_def get_sock_def kerr_def)
next
  case unlocked: False
  let ?n = "unat (fprog_len fprog)"
  have st: "sk_attach_filter L mx fprog sk s =
      kbind (prog_from_user fprog) (\<lambda>prog.
      kbind (on_err (bpf_prog_store_orig_filter prog ?n) (bpf_prog_free_now prog)) (\<lambda>_.
      kbind (bpf_prepare_filter L prog None) (\<lambda>prog.
      on_err (sk_attach_prog mx prog sk) (bpf_prog_release prog)))) s"
    using unlocked by (simp add: sk_attach_filter_def kbind_def [of "get_sock sk"] get_sock_def)
  note unf = st kbind_def on_err_def kerr_def
  consider e s1 where "prog_from_user fprog s = (Err e, s1)" "ext s Map.empty [] s1"
    | fp p aux buf s1 where "prog_from_user fprog s = (Ok fp, s1)" "prog_ok fp p aux None"
       "fprog_filter fprog = Some buf" "?n \<le> length buf" "pg_insns p = Insns (take ?n buf)" "pg_len p = ?n"
       "ext s (prog_objs fp p aux None) [] s1"
    using prog_from_user_ext [OF ok, of fprog] by blast
  then show ?thesis
  proof cases
    case 1
    then show ?thesis by (auto simp: unf)
  next
    case 2
    define "is" where "is = take ?n buf"
    have len: "length is = ?n" using 2(4) by (simp add: is_def)
    consider q s2 where "bpf_prog_store_orig_filter fp ?n s1 = (Err ENOMEM, s2)"
        "ext s (prog_objs fp (p\<lparr>pg_orig := q\<rparr>) aux None) [] s2"
      | a b s2 where "bpf_prog_store_orig_filter fp ?n s1 = (Ok (), s2)"
        "prog_ok fp (p\<lparr>pg_orig := Some a\<rparr>) aux (Some (a, b, is))"
        "ext s (prog_objs fp (p\<lparr>pg_orig := Some a\<rparr>) aux (Some (a, b, is))) [] s2"
      using store_orig_ext [OF 2(7,2), of "is" ?n] 2(5) len is_def by metis
    then show ?thesis
    proof cases
      case c: 1
      have "pg_aux p = Some aux" "fp \<noteq> aux" using 2(2) by (auto simp: prog_ok_def)
      then obtain s3 where "bpf_prog_free_now fp s2 = (Ok (), s3)" "ext s Map.empty [] s3"
        using bpf_prog_free_now_ext [OF c(2)] by auto
      then show ?thesis using 2(1) c(1) by (auto simp: unf)
    next
      case c: 2
      let ?og = "Some (a, b, is)" and ?p1 = "p\<lparr>pg_orig := Some a\<rparr>"
      consider err s3 where "bpf_prepare_filter L fp None s2 = (Err err, s3)" "doomed s s3"
        | fp' q s3 where "bpf_prepare_filter L fp None s2 = (Ok fp', s3)" "prog_ok fp' q aux ?og"
          "bpf_check_classic True is = Ok ()" "migrated L is q" "ext s (prog_objs fp' q aux ?og) [] s3"
        using bpf_prepare_filter_ext [OF c(3,2), of "is" L] 2(5,6) len is_def by auto
      then show ?thesis
      proof cases
        case d: 1
        then show ?thesis using 2(1) c(1) by (auto simp: unf)
      next
        case d: 2
        show ?thesis
        proof (cases "\<exists>s4. sk_attach_prog mx fp' sk s3 = (Err ENOMEM, s4) \<and> ext s (prog_objs fp' q aux ?og) [] s4")
          case True
          then obtain s4 where s4: "sk_attach_prog mx fp' sk s3 = (Err ENOMEM, s4)" "ext s (prog_objs fp' q aux ?og) [] s4"
            by blast
          then show ?thesis using 2(1) c(1) d(1) release_doomed [OF s4(2) d(2)] by (auto simp: unf)
        next
          case False
          then obtain skf s4 where f: "prog_objs fp' q aux ?og skf = None" "heap s skf = None"
            "prog_bytes q \<le> mx" "sk_omem_alloc (socks s sk) + prog_bytes q < mx"
            "ext (charged_sock s sk skf (prog_bytes q))
              ((prog_objs fp' q aux ?og)(skf \<mapsto> K_skf \<lparr>skf_refcnt = 1, skf_prog = fp'\<rparr>)) [] s4"
            "sk_attach_prog mx fp' sk s3
              = (Ok (), case sk_filter_ptr (socks s sk) of None \<Rightarrow> s4 | Some old \<Rightarrow> dropped sk old s4)"
            using sk_attach_prog_ext [OF d(5,2) wf, of mx] by blast
          have "sk_attach_filter L mx fprog sk s
              = (Ok (), case sk_filter_ptr (socks s sk) of None \<Rightarrow> s4 | Some old \<Rightarrow> dropped sk old s4)"
            using 2(1) c(1) d(1) f(6) by (simp add: unf)
          then show ?thesis using 2(3,4) is_def unlocked d(2,3,4) f(1-5) by blast
        qed
      qed
    qed
  qed
qed

section \<open>Detaching and the whole life cycle\<close>

lemma release_rcu_ext:
  assumes e: "ext s ((prog_objs fp q aux og)(skf \<mapsto> K_skf f)) [] s'" and ok: "prog_ok fp q aux og"
    and skf: "prog_objs fp q aux og skf = None" and f: "skf_prog f = fp"
  shows "\<exists>s''. sk_filter_release_rcu skf s' = (Ok (), s'') \<and> doomed s s''"
proof -
  have ne: "skf \<noteq> fp" "skf \<noteq> aux" using skf ok by auto
  have hf: "get_skf skf s' = (Ok f, s')" using ext_heap [OF e] by (simp add: get_skf_def)
  have g: "get_prog fp s' = (Ok q, s')" using get_prog_ext [OF e, of fp] ne ok by simp
  have "\<exists>s1. bpf_prog_release fp s' = (Ok (), s1) \<and> ext s ((prog_objs fp q aux None)(skf \<mapsto> K_skf f)) [fp] s1"
  proof (cases og)
    case None
    then show ?thesis using g ok bpf_prog_free_ext [OF e, of fp]
      by (auto simp: bpf_prog_release_def bpf_release_orig_filter_def kbind_def prog_ok_def)
  next
    case (Some t)
    obtain a b "is" where t: "t = (a, b, is)" by (cases t)
    let ?o = "(prog_objs fp q aux og)(skf \<mapsto> K_skf f)"
    have d: "distinct [fp, aux, a, b, skf]" using ok Some t skf
      by (auto simp: prog_ok_def prog_objs_def orig_objs_def split: if_splits)
    have oa: "?o a = Some (K_fprog (length is) (Some b))" and ob: "?o b = Some (K_insns is)"
      using d Some t by (auto simp: prog_objs_def orig_objs_def)
    obtain s1 where s1: "kfree (Some b) s' = (Ok (), s1)" "ext s (?o(b := None)) [] s1"
      using kfree_ext [OF e ob] by blast
    obtain s2 where s2: "kfree (Some a) s1 = (Ok (), s2)" "ext s (?o(b := None, a := None)) [] s2"
      using kfree_ext [OF s1(2), of a] oa d by auto
    have eq: "?o(b := None, a := None) = (prog_objs fp q aux None)(skf \<mapsto> K_skf f)"
      using d Some t by (auto simp: prog_objs_def orig_objs_def fun_eq_iff)
    obtain s3 where s3: "bpf_prog_free fp s2 = (Ok (), s3)" "ext s ((prog_objs fp q aux None)(skf \<mapsto> K_skf f)) [fp] s3"
      using bpf_prog_free_ext [OF s2(2), of fp] unfolding eq by auto
    then show ?thesis using g ok Some t s1(1) s2(1) ext_heap [OF e oa]
      by (auto simp: bpf_prog_release_def bpf_release_orig_filter_def kbind_def prog_ok_def)
  qed
  then obtain s1 where s1: "bpf_prog_release fp s' = (Ok (), s1)" "ext s ((prog_objs fp q aux None)(skf \<mapsto> K_skf f)) [fp] s1"
    by blast
  obtain s2 where s2: "kfree (Some skf) s1 = (Ok (), s2)" "ext s ((prog_objs fp q aux None)(skf \<mapsto> K_skf f, skf := None)) [fp] s2"
    using kfree_ext [OF s1(2), of skf] by auto
  have "(prog_objs fp q aux None)(skf \<mapsto> K_skf f, skf := None) = prog_objs fp q aux None"
    using skf ne by (auto simp: prog_objs_def orig_objs_def)
  then have "doomed s s2" using s2(2) ok by (auto simp: doomed_def prog_ok_def)
  then show ?thesis using hf f s1(1) s2(1) by (auto simp: sk_filter_release_rcu_def kbind_def)
qed

lemma detach_ext:
  assumes e: "ext (charged_sock s sk skf (prog_bytes q))
      ((prog_objs fp q aux og)(skf \<mapsto> K_skf \<lparr>skf_refcnt = 1, skf_prog = fp\<rparr>)) [] s'"
    and ok: "prog_ok fp q aux og" and skf: "prog_objs fp q aux og skf = None"
    and none: "sk_filter_ptr (socks s sk) = None" and ul: "\<not> sk_locked (socks s sk)" and rcu: "rcu s = []"
  shows "\<exists>s''. sk_detach_filter sk s' = (Ok (), s'') \<and> rcu s'' = [skf] \<and>
    ext s ((prog_objs fp q aux og)(skf \<mapsto> K_skf \<lparr>skf_refcnt = 0, skf_prog = fp\<rparr>)) [] (s''\<lparr>rcu := []\<rparr>)"
proof -
  let ?o = "(prog_objs fp q aux og)(skf \<mapsto> K_skf \<lparr>skf_refcnt = 1, skf_prog = fp\<rparr>)"
  have ne: "skf \<noteq> fp" using skf ok by auto
  have h: "heap s' skf = Some (K_skf \<lparr>skf_refcnt = 1, skf_prog = fp\<rparr>)" "heap s' fp = Some (K_prog q)"
    using ext_heap [OF e] ne ok by simp_all
  have so: "socks s' = socks (charged_sock s sk skf (prog_bytes q))" "rcu s' = []"
    using ext_other [OF e] rcu by (auto simp: charged_sock_def)
  let ?s1 = "s'\<lparr>socks := (socks s')(sk := (socks s' sk)\<lparr>sk_filter_ptr := None\<rparr>)\<rparr>"
  have "sk_detach_filter sk s' = sk_filter_uncharge sk skf ?s1"
    using so ul by (simp add: sk_detach_filter_def kbind_def get_sock_def charged_sock_def upd_sock_def)
  also have "\<dots> = (Ok (), dropped sk skf ?s1)"
    using h by (intro sk_filter_uncharge_eq) auto
  finally have 1: "sk_detach_filter sk s' = (Ok (), dropped sk skf ?s1)" .
  have 2: "rcu (dropped sk skf ?s1) = [skf]" using h so by (simp add: dropped_def)
  have same: "k\<lparr>sk_filter_ptr := None\<rparr> = k" if "sk_filter_ptr k = None" for k :: sock using that by (cases k) simp
  have "socks (dropped sk skf ?s1) = socks s"
    using h so none by (simp add: dropped_def charged_sock_def same)
  then have "ext s (?o(skf \<mapsto> K_skf \<lparr>skf_refcnt = 0, skf_prog = fp\<rparr>)) [] ((dropped sk skf ?s1)\<lparr>rcu := []\<rparr>)"
    using e h rcu by (auto simp: ext_def dropped_def charged_sock_def heap_ok_def)
  then show ?thesis using 1 2 by simp
qed


section \<open>Properties\<close>

definition ex_sock :: sock where
  "ex_sock = \<lparr>sk_filter_ptr = None, sk_omem_alloc = 0, sk_locked = False\<rparr>"

definition ex_kst :: "bool list \<Rightarrow> kst" where
  "ex_kst oks = \<lparr>heap = Map.empty, next_ptr = 0, alloc_ok = oks, work = [], rcu = [], socks = (\<lambda>_. ex_sock)\<rparr>"

definition ex_fprog :: sock_fprog where
  "ex_fprog = \<lparr>fprog_len = 4, fprog_filter = Some ex_filter\<rparr>"

lemma ex_kst_wf: "heap_ok (ex_kst oks)" "filter_wf (ex_kst oks) sk"
  by (simp_all add: ex_kst_def heap_ok_def filter_wf_def ex_sock_def)

lemma ex_attach_ok: "fst (sk_attach_filter ex_layout 20480 ex_fprog 0 (ex_kst [])) = Ok ()"
  by code_simp

text \<open>C19. A failed attachment leaves no trace. Whatever program user space passes and wherever an allocation fails,
  \<open>sk_attach_filter\<close> either succeeds or returns an error code with every socket as it was, and once the
  scheduled work has run the heap is exactly what it was before: nothing leaks, nothing is freed twice.\<close>

theorem attach_failure_no_trace:
  assumes "heap_ok s" and "filter_wf s sk" and "work s = []"
    and "sk_attach_filter L mx fprog sk s = (r, s')" and "r \<noteq> Ok ()"
  shows "(\<exists>err. r = Err err) \<and> socks s' = socks s \<and> rcu s' = rcu s \<and>
    (\<exists>s''. run_work s' = (Ok (), s'') \<and> heap s'' = heap s \<and> work s'' = [])"
proof -
  have fail: "\<exists>err. r = Err err" and out: "ext s Map.empty [] s' \<or> doomed s s'"
    using sk_attach_filter_outcomes [OF assms(1,2), of L mx fprog] assms(4,5) by auto
  from out show ?thesis
  proof
    assume "ext s Map.empty [] s'"
    then show ?thesis using fail ext_same ext_other assms(3) by auto
  next
    assume d: "doomed s s'"
    then have "socks s' = socks s \<and> rcu s' = rcu s" using ext_other by (auto simp: doomed_def)
    then show ?thesis using fail doomed_run_work [OF d assms(3)] ext_same assms(3) by fastforce
  qed
qed

theorem attach_failure_no_trace_witness:
  "\<exists>s' s''. sk_attach_filter ex_layout 20480 ex_fprog 0 (ex_kst [True, True, True, True, True, False]) = (Err ENOMEM, s') \<and>
     run_work s' = (Ok (), s'') \<and> heap s'' = Map.empty"
proof -
  let ?s = "ex_kst [True, True, True, True, True, False]"
  obtain r s' where st: "sk_attach_filter ex_layout 20480 ex_fprog 0 ?s = (r, s')" by fastforce
  moreover have "fst (sk_attach_filter ex_layout 20480 ex_fprog 0 ?s) = Err ENOMEM" by code_simp
  ultimately have r: "r = Err ENOMEM" by simp
  have "work ?s = []" "heap ?s = Map.empty" by (simp_all add: ex_kst_def)
  then show ?thesis using attach_failure_no_trace [OF ex_kst_wf _ st] r st by auto
qed



text \<open>\<open>sk_get_filter\<close> returns the program that was attached: after a successful attachment a large
  enough buffer receives exactly the instructions user space passed in.\<close>

theorem attach_get_roundtrip:
  assumes "heap_ok s" and "sk_filter_ptr (socks s sk) = None" and "sk_attach_filter L mx fprog sk s = (Ok (), s')"
    and "fprog_filter fprog = Some buf" and "unat (fprog_len fprog) \<le> n" and "0 < n"
  shows "sk_get_filter sk True n s' = (Ok (unat (fprog_len fprog), take (unat (fprog_len fprog)) buf), s')"
proof -
  have wf: "filter_wf s sk" using assms(2) by (simp add: filter_wf_def)
  let ?is = "take (unat (fprog_len fprog)) buf"
  obtain fp q aux a b skf where att: "unat (fprog_len fprog) \<le> length buf"
    "prog_ok fp q aux (Some (a, b, ?is))" "prog_objs fp q aux (Some (a, b, ?is)) skf = None"
    and e: "ext (charged_sock s sk skf (prog_bytes q))
       ((prog_objs fp q aux (Some (a, b, ?is)))(skf \<mapsto> K_skf \<lparr>skf_refcnt = 1, skf_prog = fp\<rparr>)) [] s'"
    using sk_attach_filter_outcomes [OF assms(1) wf, of L mx fprog] assms(2-4) by auto
  have d: "distinct [fp, aux, a, b, skf]" using att(2,3)
    by (auto simp: prog_ok_def prog_objs_def orig_objs_def split: if_splits)
  note h = ext_heap [OF e]
  have "heap s' skf = Some (K_skf \<lparr>skf_refcnt = 1, skf_prog = fp\<rparr>)" "heap s' fp = Some (K_prog q)"
    "heap s' a = Some (K_fprog (length ?is) (Some b))" "heap s' b = Some (K_insns ?is)"
    using d by (auto intro!: h simp: prog_objs_def orig_objs_def)
  moreover have "pg_orig q = Some a" using att(2) by (simp add: prog_ok_def)
  moreover have "sk_filter_ptr (socks s' sk) = Some skf" using ext_other [OF e] by (simp add: charged_sock_def)
  ultimately show ?thesis using assms(5,6) att(1)
    by (simp add: sk_get_filter_def kbind_def get_sock_def get_skf_def get_prog_def min_absorb2)
qed

theorem attach_get_roundtrip_witness:
  "\<exists>s'. sk_attach_filter ex_layout 20480 ex_fprog 0 (ex_kst []) = (Ok (), s') \<and>
     sk_get_filter 0 True 8 s' = (Ok (4, ex_filter), s')"
proof -
  obtain r s' where st: "sk_attach_filter ex_layout 20480 ex_fprog 0 (ex_kst []) = (r, s')" by fastforce
  then have r: "r = Ok ()" using ex_attach_ok by simp
  have "sk_filter_ptr (socks (ex_kst []) 0) = None" by (simp add: ex_kst_def ex_sock_def)
  moreover have "take 4 ex_filter = ex_filter" by (simp add: ex_filter_def)
  ultimately show ?thesis
    using st r attach_get_roundtrip [OF ex_kst_wf(1), of "[]" 0 ex_layout 20480 ex_fprog s' ex_filter 8]
    by (simp add: ex_fprog_def)
qed

text \<open>The whole life cycle leaks nothing: after attaching a filter to a socket without one, detaching it and
  letting the pending callbacks run, heap, sockets and charged memory are what they were before.\<close>

theorem attach_detach_no_leak:
  assumes "heap_ok s" and "sk_filter_ptr (socks s sk) = None" and "rcu s = []" and "work s = []"
    and "sk_attach_filter L mx fprog sk s = (Ok (), s')"
  shows "\<exists>s1 s2 s3. sk_detach_filter sk s' = (Ok (), s1) \<and> run_rcu s1 = (Ok (), s2) \<and> run_work s2 = (Ok (), s3) \<and>
    heap s3 = heap s \<and> socks s3 = socks s \<and> rcu s3 = [] \<and> work s3 = []"
proof -
  have wf: "filter_wf s sk" using assms(2) by (simp add: filter_wf_def)
  obtain "is" fp q aux a b skf where att: "\<not> sk_locked (socks s sk)" "prog_ok fp q aux (Some (a, b, is))"
    "prog_objs fp q aux (Some (a, b, is)) skf = None"
    and e: "ext (charged_sock s sk skf (prog_bytes q))
       ((prog_objs fp q aux (Some (a, b, is)))(skf \<mapsto> K_skf \<lparr>skf_refcnt = 1, skf_prog = fp\<rparr>)) [] s'"
    using sk_attach_filter_outcomes [OF assms(1) wf, of L mx fprog] assms(2,5) by auto
  obtain s1 where s1: "sk_detach_filter sk s' = (Ok (), s1)" "rcu s1 = [skf]"
    "ext s ((prog_objs fp q aux (Some (a, b, is)))(skf \<mapsto> K_skf \<lparr>skf_refcnt = 0, skf_prog = fp\<rparr>)) [] (s1\<lparr>rcu := []\<rparr>)"
    using detach_ext [OF e att(2,3) assms(2) att(1) assms(3)] by blast
  obtain s2 where s2: "run_rcu s1 = (Ok (), s2)" "doomed s s2"
    using release_rcu_ext [OF s1(3) att(2,3)] s1(2) by auto
  obtain s3 where s3: "run_work s2 = (Ok (), s3)" "ext s Map.empty [] s3"
    using doomed_run_work [OF s2(2) assms(4)] by blast
  then show ?thesis using s1(1) s2(1) ext_same [OF s3(2)] ext_other [OF s3(2)] assms(3,4) by auto
qed

theorem attach_detach_no_leak_witness:
  "\<exists>s' s1 s2 s3. sk_attach_filter ex_layout 20480 ex_fprog 0 (ex_kst []) = (Ok (), s') \<and>
     sk_detach_filter 0 s' = (Ok (), s1) \<and> run_rcu s1 = (Ok (), s2) \<and> run_work s2 = (Ok (), s3) \<and> heap s3 = Map.empty"
proof -
  obtain r s' where st: "sk_attach_filter ex_layout 20480 ex_fprog 0 (ex_kst []) = (r, s')" by fastforce
  then have r: "r = Ok ()" using ex_attach_ok by simp
  have "sk_filter_ptr (socks (ex_kst []) 0) = None" "rcu (ex_kst []) = []" "work (ex_kst []) = []" "heap (ex_kst []) = Map.empty"
    by (simp_all add: ex_kst_def ex_sock_def)
  then show ?thesis using st r attach_detach_no_leak [OF ex_kst_wf(1)] by metis
qed

text \<open>C40. When charging the program to a cloned socket fails, \<open>sk_clone_lock\<close> destroys the clone, which
  uncharges a filter it never charged: the only reference is dropped and the filter is queued for
  release while the original socket still points to it.\<close>

theorem clone_charge_failure_frees_live_filter:
  assumes "sk_filter_ptr (socks s sk) = Some fp" and "heap s fp = Some (K_skf f)" and "skf_refcnt f = 1"
    and "heap s (skf_prog f) = Some (K_prog p)" and "newsk \<noteq> sk" and "mx < prog_bytes p"
  shows "\<exists>s'. sk_clone_lock mx sk newsk s = (Ok False, s') \<and> rcu s' = rcu s @ [fp] \<and>
    sk_filter_ptr (socks s' sk) = Some fp \<and> heap s' fp = Some (K_skf (f\<lparr>skf_refcnt := 0\<rparr>))"
proof -
  let ?s1 = "s\<lparr>socks := (socks s)(newsk := (socks s sk)\<lparr>sk_omem_alloc := 0\<rparr>)\<rparr>"
  have h: "heap ?s1 fp = Some (K_skf f)" "heap ?s1 (skf_prog f) = Some (K_prog p)" using assms by simp_all
  have "\<not> prog_bytes p \<le> mx" using assms(6) by simp
  then have "sk_filter_charge mx newsk fp ?s1 = (Ok False, ?s1)"
    using filter_size_eq [OF h] by (simp add: sk_filter_charge_def kbind_def get_sock_def kret_def)
  moreover have "sk_filter_uncharge newsk fp ?s1 = (Ok (), dropped newsk fp ?s1)"
    by (rule sk_filter_uncharge_eq [OF h])
  ultimately show ?thesis
    using assms by (simp add: sk_clone_lock_def sk_destruct_def kbind_def get_sock_def upd_sock_def kret_def dropped_def)
qed

definition ex_kst_attached :: kst where
  "ex_kst_attached = (ex_kst [])\<lparr>
     heap := [0 \<mapsto> K_prog \<lparr>pg_pages = 1, pg_jited = False, pg_len = 1, pg_type = BPF_PROG_TYPE_UNSPEC, pg_aux = Some 1,
                pg_orig = None, pg_func = True, pg_insns = Insnsi []\<rparr>,
              1 \<mapsto> K_aux 0, 2 \<mapsto> K_skf \<lparr>skf_refcnt = 1, skf_prog = 0\<rparr>],
     next_ptr := 3, socks := (\<lambda>_. ex_sock)(0 := \<lparr>sk_filter_ptr = Some 2, sk_omem_alloc = 48, sk_locked = False\<rparr>)\<rparr>"

theorem clone_charge_failure_frees_live_filter_witness:
  "\<exists>s'. sk_clone_lock 40 0 1 ex_kst_attached = (Ok False, s') \<and> rcu s' = [2] \<and> sk_filter_ptr (socks s' 0) = Some 2"
  using clone_charge_failure_frees_live_filter [of ex_kst_attached 0 2 "\<lparr>skf_refcnt = 1, skf_prog = 0\<rparr>"
    "\<lparr>pg_pages = 1, pg_jited = False, pg_len = 1, pg_type = BPF_PROG_TYPE_UNSPEC, pg_aux = Some 1,
                pg_orig = None, pg_func = True, pg_insns = Insnsi []\<rparr>" 1 40]
  by (auto simp: ex_kst_attached_def ex_kst_def prog_bytes_def bpf_prog_size_def)

end
