(* ===== verification/Seccomp.thy ===== *)
theory Seccomp
  imports Bpf_Conv_Correct
begin

text \<open>
  Secure computing, \<^verbatim>\<open>kernel/seccomp.c\<close>: the check and rewriting of seccomp filters, the tree of
  reference-counted filters shared by tasks, installing a filter with or without thread
  synchronisation, the evaluation of all filters of a task on a system call, and the two phases of
  the system call hook. A filter object is addressed by a pointer; its program is the converted
  instruction list. Loops along \<open>prev\<close> pointers are partial functions: \<open>None\<close> is a loop that
  does not end.
\<close>

section \<open>Checking a filter\<close>

abbreviation (input) SECCOMP_DATA_SIZE :: u32 where "SECCOMP_DATA_SIZE \<equiv> 64"

definition seccomp_allowed_codes :: "u16 list" where
  "seccomp_allowed_codes = [
    BPF_RET OR BPF_K, BPF_RET OR BPF_A,
    BPF_ALU OR BPF_ADD OR BPF_K, BPF_ALU OR BPF_ADD OR BPF_X,
    BPF_ALU OR BPF_SUB OR BPF_K, BPF_ALU OR BPF_SUB OR BPF_X,
    BPF_ALU OR BPF_MUL OR BPF_K, BPF_ALU OR BPF_MUL OR BPF_X,
    BPF_ALU OR BPF_DIV OR BPF_K, BPF_ALU OR BPF_DIV OR BPF_X,
    BPF_ALU OR BPF_AND OR BPF_K, BPF_ALU OR BPF_AND OR BPF_X,
    BPF_ALU OR BPF_OR OR BPF_K, BPF_ALU OR BPF_OR OR BPF_X,
    BPF_ALU OR BPF_XOR OR BPF_K, BPF_ALU OR BPF_XOR OR BPF_X,
    BPF_ALU OR BPF_LSH OR BPF_K, BPF_ALU OR BPF_LSH OR BPF_X,
    BPF_ALU OR BPF_RSH OR BPF_K, BPF_ALU OR BPF_RSH OR BPF_X,
    BPF_ALU OR BPF_NEG,
    BPF_LD OR BPF_IMM, BPF_LDX OR BPF_IMM,
    BPF_MISC OR BPF_TAX, BPF_MISC OR BPF_TXA,
    BPF_LD OR BPF_MEM, BPF_LDX OR BPF_MEM,
    BPF_ST, BPF_STX,
    BPF_JMP OR BPF_JA,
    BPF_JMP OR BPF_JEQ OR BPF_K, BPF_JMP OR BPF_JEQ OR BPF_X,
    BPF_JMP OR BPF_JGE OR BPF_K, BPF_JMP OR BPF_JGE OR BPF_X,
    BPF_JMP OR BPF_JGT OR BPF_K, BPF_JMP OR BPF_JGT OR BPF_X,
    BPF_JMP OR BPF_JSET OR BPF_K, BPF_JMP OR BPF_JSET OR BPF_X]"

definition seccomp_check_insn :: "sock_filter \<Rightarrow> sock_filter result" where
  "seccomp_check_insn ftest =
     (let code = sf_code ftest; k = sf_k ftest in
      if code = (BPF_LD OR BPF_W OR BPF_ABS) then
        (if k \<ge> SECCOMP_DATA_SIZE \<or> k AND 3 \<noteq> 0 then Err EINVAL
         else Ok (ftest\<lparr>sf_code := BPF_LDX OR BPF_W OR BPF_ABS\<rparr>))
      else if code = (BPF_LD OR BPF_W OR BPF_LEN) then
        Ok (ftest\<lparr>sf_code := BPF_LD OR BPF_IMM, sf_k := SECCOMP_DATA_SIZE\<rparr>)
      else if code = (BPF_LDX OR BPF_W OR BPF_LEN) then
        Ok (ftest\<lparr>sf_code := BPF_LDX OR BPF_IMM, sf_k := SECCOMP_DATA_SIZE\<rparr>)
      else if code \<in> set seccomp_allowed_codes then Ok ftest
      else Err EINVAL)"

fun seccomp_check_filter :: "sock_filter list \<Rightarrow> sock_filter list result" where
  "seccomp_check_filter [] = Ok []"
| "seccomp_check_filter (f # fs) =
     rbind (seccomp_check_insn f) (\<lambda>f'. rbind (seccomp_check_filter fs) (\<lambda>fs'. Ok (f' # fs')))"

section \<open>Tasks and filters\<close>

type_synonym fptr = nat

record seccomp_filter =
  scf_usage :: int
  scf_prev :: "fptr option"
  scf_prog :: "bpf_insn list"

abbreviation (input) SECCOMP_MODE_DISABLED :: nat where "SECCOMP_MODE_DISABLED \<equiv> 0"
abbreviation (input) SECCOMP_MODE_STRICT :: nat where "SECCOMP_MODE_STRICT \<equiv> 1"
abbreviation (input) SECCOMP_MODE_FILTER :: nat where "SECCOMP_MODE_FILTER \<equiv> 2"

record task =
  t_mode :: nat
  t_filter :: "fptr option"
  t_nnp :: bool \<comment> \<open>\<open>no_new_privs\<close>\<close>
  t_tif :: bool \<comment> \<open>\<open>TIF_SECCOMP\<close>\<close>
  t_pid :: int

type_synonym filters = "fptr \<Rightarrow> seccomp_filter option"

record sec_state =
  sfs :: filters
  sf_next :: fptr
  tasks :: "nat \<Rightarrow> task"

section \<open>Evaluating the filters\<close>

abbreviation (input) SECCOMP_RET_KILL :: u32 where "SECCOMP_RET_KILL \<equiv> 0x00000000"
abbreviation (input) SECCOMP_RET_TRAP :: u32 where "SECCOMP_RET_TRAP \<equiv> 0x00030000"
abbreviation (input) SECCOMP_RET_ERRNO :: u32 where "SECCOMP_RET_ERRNO \<equiv> 0x00050000"
abbreviation (input) SECCOMP_RET_TRACE :: u32 where "SECCOMP_RET_TRACE \<equiv> 0x7ff00000"
abbreviation (input) SECCOMP_RET_ALLOW :: u32 where "SECCOMP_RET_ALLOW \<equiv> 0x7fff0000"
abbreviation (input) SECCOMP_RET_ACTION :: u32 where "SECCOMP_RET_ACTION \<equiv> 0x7fff0000"
abbreviation (input) SECCOMP_RET_DATA :: u32 where "SECCOMP_RET_DATA \<equiv> 0x0000ffff"

definition action :: "u32 \<Rightarrow> u32" where
  "action r = r AND SECCOMP_RET_ACTION"

text \<open>\<open>run prog\<close> is \<open>BPF_PROG_RUN(prog, sd)\<close> on the data of the current system call.\<close>

partial_function (option) run_loop :: "(bpf_insn list \<Rightarrow> u32) \<Rightarrow> filters \<Rightarrow> fptr option \<Rightarrow> u32 \<Rightarrow> u32 run" where
  "run_loop run fs f ret =
     (case f of None \<Rightarrow> Some (Ok ret)
      | Some a \<Rightarrow>
          (case fs a of None \<Rightarrow> Some (Undef BadMem)
           | Some sf \<Rightarrow>
               (let cur_ret = run (scf_prog sf) in
                run_loop run fs (scf_prev sf) (if action cur_ret < action ret then cur_ret else ret))))"

definition seccomp_run_filters :: "(bpf_insn list \<Rightarrow> u32) \<Rightarrow> sec_state \<Rightarrow> nat \<Rightarrow> u32 run" where
  "seccomp_run_filters run s current =
     (case t_filter (tasks s current) of None \<Rightarrow> Some (Ok SECCOMP_RET_KILL)
      | Some f \<Rightarrow> run_loop run (sfs s) (Some f) SECCOMP_RET_ALLOW)"

section \<open>Modes, ancestors and thread synchronisation\<close>

definition seccomp_may_assign_mode :: "sec_state \<Rightarrow> nat \<Rightarrow> nat \<Rightarrow> bool" where
  "seccomp_may_assign_mode s current seccomp_mode \<longleftrightarrow>
     \<not> (t_mode (tasks s current) \<noteq> 0 \<and> t_mode (tasks s current) \<noteq> seccomp_mode)"

definition upd_task :: "nat \<Rightarrow> (task \<Rightarrow> task) \<Rightarrow> sec_state \<Rightarrow> sec_state" where
  "upd_task t f s = s\<lparr>tasks := (tasks s)(t := f (tasks s t))\<rparr>"

definition seccomp_assign_mode :: "nat \<Rightarrow> nat \<Rightarrow> sec_state \<Rightarrow> sec_state" where
  "seccomp_assign_mode t seccomp_mode = upd_task t (\<lambda>k. k\<lparr>t_mode := seccomp_mode, t_tif := True\<rparr>)"

partial_function (option) ancestor_loop :: "filters \<Rightarrow> fptr \<Rightarrow> fptr option \<Rightarrow> bool run" where
  "ancestor_loop fs parent child =
     (case child of None \<Rightarrow> Some (Ok False)
      | Some c \<Rightarrow>
          (if c = parent then Some (Ok True)
           else (case fs c of None \<Rightarrow> Some (Undef BadMem) | Some sf \<Rightarrow> ancestor_loop fs parent (scf_prev sf))))"

definition is_ancestor :: "filters \<Rightarrow> fptr option \<Rightarrow> fptr option \<Rightarrow> bool run" where
  "is_ancestor fs parent child = (case parent of None \<Rightarrow> Some (Ok True) | Some p \<Rightarrow> ancestor_loop fs p child)"

text \<open>
  \<open>threads\<close> is the thread group of the caller in the order of \<open>for_each_thread\<close>. The result is 0,
  or the pid of the first thread that cannot be synchronised.
\<close>

fun seccomp_can_sync_threads :: "sec_state \<Rightarrow> nat \<Rightarrow> nat list \<Rightarrow> int run" where
  "seccomp_can_sync_threads s caller [] = Some (Ok 0)"
| "seccomp_can_sync_threads s caller (thread # ts) =
     (if thread = caller then seccomp_can_sync_threads s caller ts
      else
        (let failed = (if t_pid (tasks s thread) = 0 then Some (Err ESRCH) else Some (Ok (t_pid (tasks s thread)))) in
         if t_mode (tasks s thread) = SECCOMP_MODE_DISABLED then seccomp_can_sync_threads s caller ts
         else if t_mode (tasks s thread) = SECCOMP_MODE_FILTER then
           sbind (is_ancestor (sfs s) (t_filter (tasks s thread)) (t_filter (tasks s caller))) (\<lambda>anc.
             if anc then seccomp_can_sync_threads s caller ts else failed)
         else failed))"

definition get_seccomp_filter :: "nat \<Rightarrow> sec_state \<Rightarrow> sec_state run" where
  "get_seccomp_filter tsk s =
     (case t_filter (tasks s tsk) of None \<Rightarrow> Some (Ok s)
      | Some orig \<Rightarrow>
          (case sfs s orig of None \<Rightarrow> Some (Undef BadMem)
           | Some sf \<Rightarrow> Some (Ok (s\<lparr>sfs := (sfs s)(orig \<mapsto> sf\<lparr>scf_usage := scf_usage sf + 1\<rparr>)\<rparr>))))"

partial_function (option) put_loop :: "filters \<Rightarrow> fptr option \<Rightarrow> filters run" where
  "put_loop fs orig =
     (case orig of None \<Rightarrow> Some (Ok fs)
      | Some a \<Rightarrow>
          (case fs a of None \<Rightarrow> Some (Undef BadMem)
           | Some sf \<Rightarrow>
               (if scf_usage sf - 1 = 0 then put_loop (fs(a := None)) (scf_prev sf)
                else Some (Ok (fs(a \<mapsto> sf\<lparr>scf_usage := scf_usage sf - 1\<rparr>))))))"

definition put_seccomp_filter :: "nat \<Rightarrow> sec_state \<Rightarrow> sec_state run" where
  "put_seccomp_filter tsk s =
     sbind (put_loop (sfs s) (t_filter (tasks s tsk))) (\<lambda>fs. Some (Ok (s\<lparr>sfs := fs\<rparr>)))"

definition sync_thread :: "nat \<Rightarrow> nat \<Rightarrow> sec_state \<Rightarrow> sec_state run" where
  "sync_thread caller thread s =
     (if thread = caller then Some (Ok s)
      else
        sbind (get_seccomp_filter caller s) (\<lambda>s.
        sbind (put_seccomp_filter thread s) (\<lambda>s.
          let s = upd_task thread (\<lambda>k. k\<lparr>t_filter := t_filter (tasks s caller)\<rparr>) s in
          if t_mode (tasks s thread) = SECCOMP_MODE_DISABLED then
            (let s = (if t_nnp (tasks s caller) then upd_task thread (\<lambda>k. k\<lparr>t_nnp := True\<rparr>) s else s) in
             Some (Ok (seccomp_assign_mode thread SECCOMP_MODE_FILTER s)))
          else Some (Ok s))))"

fun seccomp_sync_threads :: "nat \<Rightarrow> nat list \<Rightarrow> sec_state \<Rightarrow> sec_state run" where
  "seccomp_sync_threads caller [] s = Some (Ok s)"
| "seccomp_sync_threads caller (thread # ts) s =
     sbind (sync_thread caller thread s) (seccomp_sync_threads caller ts)"

section \<open>Installing a filter\<close>

abbreviation (input) MAX_INSNS_PER_PATH :: nat where "MAX_INSNS_PER_PATH \<equiv> 32768"

partial_function (option) insns_loop :: "filters \<Rightarrow> fptr option \<Rightarrow> nat \<Rightarrow> nat run" where
  "insns_loop fs walker total_insns =
     (case walker of None \<Rightarrow> Some (Ok total_insns)
      | Some a \<Rightarrow>
          (case fs a of None \<Rightarrow> Some (Undef BadMem)
           | Some sf \<Rightarrow> insns_loop fs (scf_prev sf) (total_insns + length (scf_prog sf) + 4)))"

text \<open>The value-level image of \<open>bpf_prog_create_from_user\<close> with \<open>seccomp_check_filter\<close> as the
  additional check; \<open>ok1\<close> and \<open>ok2\<close> tell whether its buffers can be allocated.\<close>

definition seccomp_prog_create :: "skb_layout \<Rightarrow> bool \<Rightarrow> bool \<Rightarrow> sock_filter list \<Rightarrow> bpf_insn list result" where
  "seccomp_prog_create L ok1 ok2 is =
     rbind (bpf_check_classic ok1 is) (\<lambda>_.
     rbind (seccomp_check_filter is) (\<lambda>is.
     rbind (bpf_convert_len L is) (\<lambda>n. bpf_convert_filter L ok2 is n)))"

definition seccomp_prepare_filter ::
  "skb_layout \<Rightarrow> bool \<Rightarrow> bool list \<Rightarrow> sock_filter list \<Rightarrow> nat \<Rightarrow> sec_state \<Rightarrow> (fptr \<times> sec_state) result" where
  "seccomp_prepare_filter L capable oks is current s =
     (if length is = 0 \<or> length is > BPF_MAXINSNS then Err EINVAL
      else if \<not> t_nnp (tasks s current) \<and> \<not> capable then Err EACCES
      else if \<not> oks ! 0 then Err ENOMEM
      else
        rbind (seccomp_prog_create L (oks ! 1) (oks ! 2) is) (\<lambda>prog.
          Ok (sf_next s, s\<lparr>sfs := (sfs s)(sf_next s \<mapsto> \<lparr>scf_usage = 1, scf_prev = None, scf_prog = prog\<rparr>),
                           sf_next := Suc (sf_next s)\<rparr>)))"

definition seccomp_attach_filter :: "bool \<Rightarrow> fptr \<Rightarrow> nat \<Rightarrow> nat list \<Rightarrow> sec_state \<Rightarrow> (int \<times> sec_state) run" where
  "seccomp_attach_filter tsync filt current threads s =
     (case sfs s filt of None \<Rightarrow> Some (Undef BadMem)
      | Some sf \<Rightarrow>
          sbind (insns_loop (sfs s) (t_filter (tasks s current)) (length (scf_prog sf))) (\<lambda>total_insns.
          if total_insns > MAX_INSNS_PER_PATH then Some (Err ENOMEM)
          else
            sbind (if tsync then seccomp_can_sync_threads s current threads else Some (Ok 0)) (\<lambda>ret.
            if ret \<noteq> 0 then Some (Ok (ret, s))
            else
              (let s = s\<lparr>sfs := (sfs s)(filt \<mapsto> sf\<lparr>scf_prev := t_filter (tasks s current)\<rparr>)\<rparr>;
                   s = upd_task current (\<lambda>k. k\<lparr>t_filter := Some filt\<rparr>) s in
               sbind (if tsync then seccomp_sync_threads current threads s else Some (Ok s)) (\<lambda>s.
               Some (Ok (0, s)))))))"

text \<open>\<open>seccomp_filter_free\<close> of a filter that was prepared but not attached.\<close>

definition seccomp_filter_free :: "fptr \<Rightarrow> sec_state \<Rightarrow> sec_state" where
  "seccomp_filter_free filt s = s\<lparr>sfs := (sfs s)(filt := None)\<rparr>"

definition seccomp_set_mode_strict :: "nat \<Rightarrow> sec_state \<Rightarrow> int result \<times> sec_state" where
  "seccomp_set_mode_strict current s =
     (if \<not> seccomp_may_assign_mode s current SECCOMP_MODE_STRICT then (Err EINVAL, s)
      else (Ok 0, seccomp_assign_mode current SECCOMP_MODE_STRICT s))"

text \<open>
  \<open>flags\<close> are those of the system call; \<open>killed\<close> tells whether waiting for \<open>cred_guard_mutex\<close> was
  interrupted. On every path after the preparation that does not attach the filter it is freed.
\<close>

definition seccomp_set_mode_filter ::
  "skb_layout \<Rightarrow> bool \<Rightarrow> bool list \<Rightarrow> bool \<Rightarrow> u32 \<Rightarrow> sock_filter list option \<Rightarrow> nat \<Rightarrow> nat list \<Rightarrow> sec_state \<Rightarrow> (int result \<times> sec_state) option" where
  "seccomp_set_mode_filter L capable oks killed flags ufilter current threads s =
     (let tsync = (flags AND 1 \<noteq> 0) in
      if flags AND NOT 1 \<noteq> 0 then Some (Err EINVAL, s)
      else case ufilter of None \<Rightarrow> Some (Err EFAULT, s)
      | Some is \<Rightarrow>
          (case seccomp_prepare_filter L capable oks is current s of
             Err e \<Rightarrow> Some (Err e, s)
           | Undef u \<Rightarrow> Some (Undef u, s)
           | Ok (prepared, s1) \<Rightarrow>
               (if tsync \<and> killed then Some (Err EINVAL, seccomp_filter_free prepared s1)
                else if \<not> seccomp_may_assign_mode s1 current SECCOMP_MODE_FILTER
                then Some (Err EINVAL, seccomp_filter_free prepared s1)
                else (case seccomp_attach_filter tsync prepared current threads s1 of
                        None \<Rightarrow> None
                      | Some (Err e) \<Rightarrow> Some (Err e, seccomp_filter_free prepared s1)
                      | Some (Undef u) \<Rightarrow> Some (Undef u, s1)
                      | Some (Ok (ret, s2)) \<Rightarrow>
                          (if ret \<noteq> 0 then Some (Ok ret, seccomp_filter_free prepared s1)
                           else Some (Ok 0, seccomp_assign_mode current SECCOMP_MODE_FILTER s2))))))"

datatype seccomp_op = SECCOMP_SET_MODE_STRICT | SECCOMP_SET_MODE_FILTER | SECCOMP_OTHER

definition do_seccomp ::
  "skb_layout \<Rightarrow> bool \<Rightarrow> bool list \<Rightarrow> bool \<Rightarrow> seccomp_op \<Rightarrow> u32 \<Rightarrow> bool \<Rightarrow> sock_filter list option \<Rightarrow> nat \<Rightarrow> nat list \<Rightarrow> sec_state
   \<Rightarrow> (int result \<times> sec_state) option" where
  "do_seccomp L capable oks killed op flags uargs_null ufilter current threads s =
     (case op of
        SECCOMP_SET_MODE_STRICT \<Rightarrow>
          (if flags \<noteq> 0 \<or> \<not> uargs_null then Some (Err EINVAL, s) else Some (seccomp_set_mode_strict current s))
      | SECCOMP_SET_MODE_FILTER \<Rightarrow> seccomp_set_mode_filter L capable oks killed flags ufilter current threads s
      | SECCOMP_OTHER \<Rightarrow> Some (Err EINVAL, s))"

definition prctl_set_seccomp ::
  "skb_layout \<Rightarrow> bool \<Rightarrow> bool list \<Rightarrow> nat \<Rightarrow> sock_filter list option \<Rightarrow> nat \<Rightarrow> nat list \<Rightarrow> sec_state
   \<Rightarrow> (int result \<times> sec_state) option" where
  "prctl_set_seccomp L capable oks seccomp_mode ufilter current threads s =
     (if seccomp_mode = SECCOMP_MODE_STRICT
      then do_seccomp L capable oks False SECCOMP_SET_MODE_STRICT 0 True ufilter current threads s
      else if seccomp_mode = SECCOMP_MODE_FILTER
      then do_seccomp L capable oks False SECCOMP_SET_MODE_FILTER 0 False ufilter current threads s
      else Some (Err EINVAL, s))"

section \<open>Forking and exiting\<close>

definition copy_seccomp :: "nat \<Rightarrow> nat \<Rightarrow> sec_state \<Rightarrow> sec_state run" where
  "copy_seccomp p current s =
     sbind (get_seccomp_filter current s) (\<lambda>s.
       let s = upd_task p (\<lambda>k. k\<lparr>t_mode := t_mode (tasks s current), t_filter := t_filter (tasks s current)\<rparr>) s;
           s = (if t_nnp (tasks s current) then upd_task p (\<lambda>k. k\<lparr>t_nnp := True\<rparr>) s else s);
           s = (if t_mode (tasks s p) \<noteq> SECCOMP_MODE_DISABLED then upd_task p (\<lambda>k. k\<lparr>t_tif := True\<rparr>) s else s)
       in Some (Ok s))"

definition free_task :: "nat \<Rightarrow> sec_state \<Rightarrow> sec_state run" where
  "free_task tsk s = put_seccomp_filter tsk s"

section \<open>The system call hook\<close>

text \<open>Whether the task goes on after the hook, and the side effects on its registers and signals.\<close>

datatype 'a alive = Alive 'a | Killed

record sys_effect =
  fx_retval :: "int option" \<comment> \<open>\<open>syscall_set_return_value\<close>\<close>
  fx_sigsys :: "int option" \<comment> \<open>reason code of a forced \<open>SIGSYS\<close>\<close>

definition no_effect :: sys_effect where
  "no_effect = \<lparr>fx_retval = None, fx_sigsys = None\<rparr>"

abbreviation (input) SECCOMP_PHASE1_OK :: u32 where "SECCOMP_PHASE1_OK \<equiv> 0"
abbreviation (input) SECCOMP_PHASE1_SKIP :: u32 where "SECCOMP_PHASE1_SKIP \<equiv> 1"
abbreviation (input) MAX_ERRNO :: int where "MAX_ERRNO \<equiv> 4095"

text \<open>The strict whitelist is scanned up to its terminating zero, the first entry included even when it is zero.\<close>

fun strict_scan :: "int list \<Rightarrow> int \<Rightarrow> bool" where
  "strict_scan [] n = False"
| "strict_scan (w # ws) n = (if w = n then True else (case ws of [] \<Rightarrow> False | w' # _ \<Rightarrow> if w' \<noteq> 0 then strict_scan ws n else False))"

definition mode1_syscalls :: "int list" where \<comment> \<open>read, write, exit, rt_sigreturn on x86-64\<close>
  "mode1_syscalls = [0, 1, 60, 15, 0]"

definition secure_computing_strict :: "int \<Rightarrow> unit alive" where \<comment> \<open>\<open>__secure_computing_strict\<close>\<close>
  "secure_computing_strict this_syscall = (if strict_scan mode1_syscalls this_syscall then Alive () else Killed)"

definition seccomp_phase1_filter :: "u32 \<Rightarrow> (u32 \<times> sys_effect) alive" where \<comment> \<open>\<open>__seccomp_phase1_filter\<close> after the filters ran\<close>
  "seccomp_phase1_filter filter_ret =
     (let data = uint (filter_ret AND SECCOMP_RET_DATA); act = action filter_ret in
      if act = SECCOMP_RET_ERRNO then
        Alive (SECCOMP_PHASE1_SKIP, no_effect\<lparr>fx_retval := Some (- (if data > MAX_ERRNO then MAX_ERRNO else data))\<rparr>)
      else if act = SECCOMP_RET_TRAP then Alive (SECCOMP_PHASE1_SKIP, no_effect\<lparr>fx_sigsys := Some data\<rparr>)
      else if act = SECCOMP_RET_TRACE then Alive (filter_ret, no_effect)
      else if act = SECCOMP_RET_ALLOW then Alive (SECCOMP_PHASE1_OK, no_effect)
      else Killed)"

definition seccomp_phase1 :: "(bpf_insn list \<Rightarrow> u32) \<Rightarrow> bool \<Rightarrow> int \<Rightarrow> nat \<Rightarrow> sec_state \<Rightarrow> (u32 \<times> sys_effect) alive run" where
  "seccomp_phase1 run suspended this_syscall current s =
     (if suspended then Some (Ok (Alive (SECCOMP_PHASE1_OK, no_effect)))
      else if t_mode (tasks s current) = SECCOMP_MODE_STRICT then
        (case secure_computing_strict this_syscall of
           Killed \<Rightarrow> Some (Ok Killed) | Alive _ \<Rightarrow> Some (Ok (Alive (SECCOMP_PHASE1_OK, no_effect))))
      else if t_mode (tasks s current) = SECCOMP_MODE_FILTER then
        sbind (seccomp_run_filters run s current) (\<lambda>r. Some (Ok (seccomp_phase1_filter r)))
      else Some (Undef BugOn))"

text \<open>\<open>tracer\<close>: a tracer listens for seccomp events; \<open>fatal\<close> and \<open>nr\<close>: the pending fatal signal and
  the system call number after the event.\<close>

definition seccomp_phase2 :: "bool \<Rightarrow> bool \<Rightarrow> int \<Rightarrow> u32 \<Rightarrow> (int \<times> sys_effect) alive result" where
  "seccomp_phase2 tracer fatal nr phase1_result =
     (if action phase1_result \<noteq> SECCOMP_RET_TRACE then Undef BugOn
      else if \<not> tracer then Ok (Alive (-1, no_effect\<lparr>fx_retval := Some (-38)\<rparr>))
      else if fatal then Ok Killed
      else if nr < 0 then Ok (Alive (-1, no_effect))
      else Ok (Alive (0, no_effect)))"

definition secure_computing ::
  "(bpf_insn list \<Rightarrow> u32) \<Rightarrow> bool \<Rightarrow> int \<Rightarrow> bool \<Rightarrow> bool \<Rightarrow> int \<Rightarrow> nat \<Rightarrow> sec_state \<Rightarrow> (int \<times> sys_effect) alive run" where \<comment> \<open>\<open>__secure_computing\<close>\<close>
  "secure_computing run suspended this_syscall tracer fatal nr current s =
     sbind (seccomp_phase1 run suspended this_syscall current s) (\<lambda>r.
     case r of Killed \<Rightarrow> Some (Ok Killed)
     | Alive (phase1_result, fx) \<Rightarrow>
         (if phase1_result = SECCOMP_PHASE1_OK then Some (Ok (Alive (0, fx)))
          else if phase1_result = SECCOMP_PHASE1_SKIP then Some (Ok (Alive (-1, fx)))
          else Some (seccomp_phase2 tracer fatal nr phase1_result)))"

end
