(* ===== verification/Seccomp_Correct.thy ===== *)
theory Seccomp_Correct
  imports Seccomp
begin

text \<open>
  The filter tree of seccomp: its loops end, its reference counts are exact, every reachable state
  is well-formed, and no operation of a task ever relaxes what an installed filter forbids.
\<close>

section \<open>The filter tree\<close>

text \<open>The programs from a filter up to the root.\<close>

inductive path :: "filters \<Rightarrow> fptr option \<Rightarrow> bpf_insn list list \<Rightarrow> bool" where
  path_nil: "path fs None []"
| path_cons: "fs a = Some sf \<Longrightarrow> path fs (scf_prev sf) ps \<Longrightarrow> path fs (Some a) (scf_prog sf # ps)"

inductive_cases path_NoneE: "path fs None ps"
inductive_cases path_SomeE: "path fs (Some a) ps"

definition valid :: "filters \<Rightarrow> fptr option \<Rightarrow> bool" where
  "valid fs p \<longleftrightarrow> (\<forall>a. p = Some a \<longrightarrow> fs a \<noteq> None)"

definition forest :: "filters \<Rightarrow> bool" where
  "forest fs \<longleftrightarrow> finite (dom fs) \<and>
     (\<forall>a sf. fs a = Some sf \<longrightarrow> valid fs (scf_prev sf) \<and> (\<forall>b. scf_prev sf = Some b \<longrightarrow> b < a))"

lemma forest_prev: "forest fs \<Longrightarrow> fs a = Some sf \<Longrightarrow> valid fs (scf_prev sf)"
  by (auto simp: forest_def)

lemma path_exists:
  assumes "forest fs" and "valid fs p"
  shows "\<exists>ps. path fs p ps"
proof (cases p)
  case None
  then show ?thesis using path_nil by blast
next
  case (Some a)
  have "\<exists>ps. path fs (Some a) ps" if "fs a \<noteq> None" using that
  proof (induction a rule: less_induct)
    case (less a)
    then obtain sf where sf: "fs a = Some sf" by blast
    show ?case
    proof (cases "scf_prev sf")
      case None
      then show ?thesis using path_cons [where fs = fs and a = a, OF sf] path_nil by metis
    next
      case (Some b)
      then have "b < a" "fs b \<noteq> None" using assms(1) sf by (auto simp: forest_def valid_def)
      then show ?thesis using less.IH path_cons [where fs = fs and a = a, OF sf] Some by metis
    qed
  qed
  then show ?thesis using assms(2) Some by (simp add: valid_def)
qed

lemma path_unique: "path fs p ps \<Longrightarrow> path fs p qs \<Longrightarrow> ps = qs"
proof (induction arbitrary: qs rule: path.induct)
  case (path_nil fs)
  then show ?case by (auto elim: path_NoneE)
next
  case (path_cons fs a sf ps)
  from path_cons.prems show ?case by (rule path_SomeE) (use path_cons.hyps(1) path_cons.IH in auto)
qed

text \<open>\<open>fs'\<close> has some of the filters of \<open>fs\<close>, with their programs and links.\<close>

definition shrunk :: "filters \<Rightarrow> filters \<Rightarrow> bool" where
  "shrunk fs' fs \<longleftrightarrow> (\<forall>a sf'. fs' a = Some sf' \<longrightarrow>
     (\<exists>sf. fs a = Some sf \<and> scf_prev sf' = scf_prev sf \<and> scf_prog sf' = scf_prog sf))"

lemma shrunk_path: "path fs p ps \<Longrightarrow> shrunk fs' fs \<Longrightarrow> forest fs' \<Longrightarrow> valid fs' p \<Longrightarrow> path fs' p ps"
proof (induction rule: path.induct)
  case (path_nil fs)
  then show ?case by (simp add: path.path_nil)
next
  case (path_cons fs a sf ps)
  obtain sf' where sf': "fs' a = Some sf'" using path_cons.prems(3) by (auto simp: valid_def)
  then have eq: "scf_prev sf' = scf_prev sf" "scf_prog sf' = scf_prog sf"
    using path_cons.prems(1) path_cons.hyps(1) unfolding shrunk_def by (metis option.inject)+
  then have "path fs' (scf_prev sf) ps" using path_cons.IH path_cons.prems forest_prev [where fs = fs' and a = a, OF path_cons.prems(2) sf'] by simp
  then show ?case using path.path_cons [where fs = fs' and a = a, OF sf'] eq by simp
qed

lemma shrunk_refl: "shrunk fs fs" by (simp add: shrunk_def)

lemma shrunk_trans: "shrunk a b \<Longrightarrow> shrunk b c \<Longrightarrow> shrunk a c"
  unfolding shrunk_def by metis

section \<open>Loops along the tree\<close>

definition stricter :: "u32 \<Rightarrow> u32 \<Rightarrow> u32" where
  "stricter ret cur_ret = (if action cur_ret < action ret then cur_ret else ret)"

lemma run_loop_path:
  "path fs p ps \<Longrightarrow> run_loop run fs p ret = Some (Ok (foldl stricter ret (map run ps)))"
  by (induction arbitrary: ret rule: path.induct)
    (subst run_loop.simps, simp add: stricter_def Let_def)+

lemma insns_loop_path:
  "path fs p ps \<Longrightarrow> insns_loop fs p n = Some (Ok (n + sum_list (map (\<lambda>pr. length pr + 4) ps)))"
  by (induction arbitrary: n rule: path.induct) (subst insns_loop.simps, simp)+

lemma ancestor_loop_path:
  "path fs p ps \<Longrightarrow> \<exists>b. ancestor_loop fs parent p = Some (Ok b) \<and> (b \<longrightarrow> (\<exists>pre qs. ps = pre @ qs \<and> path fs (Some parent) qs))"
proof (induction rule: path.induct)
  case (path_nil fs)
  then show ?case by (subst ancestor_loop.simps) (auto intro!: exI [of _ False])
next
  case (path_cons fs a sf ps)
  show ?case
  proof (cases "a = parent")
    case True
    then have "ancestor_loop fs parent (Some a) = Some (Ok True)" by (subst ancestor_loop.simps) simp
    moreover have "path fs (Some parent) (scf_prog sf # ps)"
      using path.path_cons [where fs = fs and a = a, OF path_cons.hyps] True by simp
    ultimately show ?thesis by (metis append_Nil)
  next
    case False
    then have step: "ancestor_loop fs parent (Some a) = ancestor_loop fs parent (scf_prev sf)"
      using path_cons.hyps(1) by (subst ancestor_loop.simps) simp
    obtain b where b: "ancestor_loop fs parent (scf_prev sf) = Some (Ok b)"
      "b \<longrightarrow> (\<exists>pre qs. ps = pre @ qs \<and> path fs (Some parent) qs)" using path_cons.IH by blast
    have "\<exists>pre qs. scf_prog sf # ps = pre @ qs \<and> path fs (Some parent) qs" if "b"
    proof -
      obtain pre qs where "ps = pre @ qs" "path fs (Some parent) qs" using b(2) \<open>b\<close> by blast
      then show ?thesis by (intro exI [of _ "scf_prog sf # pre"] exI [of _ qs]) simp
    qed
    then show ?thesis using step b(1) by auto
  qed
qed

lemma is_ancestor_path:
  assumes "path fs child ps"
  shows "\<exists>b. is_ancestor fs parent child = Some (Ok b) \<and> (b \<longrightarrow> (\<exists>pre qs. ps = pre @ qs \<and> path fs parent qs))"
proof (cases parent)
  case None
  then have "is_ancestor fs parent child = Some (Ok True)" by (simp add: is_ancestor_def)
  then show ?thesis using path_nil [of fs] None by (metis append_Nil2)
next
  case (Some q)
  then have "is_ancestor fs parent child = ancestor_loop fs q child" by (simp add: is_ancestor_def)
  moreover obtain b where "ancestor_loop fs q child = Some (Ok b)"
    "b \<longrightarrow> (\<exists>pre qs. ps = pre @ qs \<and> path fs (Some q) qs)" using ancestor_loop_path [OF assms, of q] by blast
  ultimately show ?thesis using Some by (intro exI [of _ b]) simp
qed

section \<open>Reference counts\<close>

definition refs :: "nat set \<Rightarrow> (nat \<Rightarrow> task) \<Rightarrow> filters \<Rightarrow> fptr \<Rightarrow> nat" where
  "refs T tsk fs a = card {t \<in> T. t_filter (tsk t) = Some a} + card {b. \<exists>g. fs b = Some g \<and> scf_prev g = Some a}"

text \<open>Every count is the number of references, one more for \<open>x\<close>, a reference in flight.\<close>

definition counted :: "nat set \<Rightarrow> (nat \<Rightarrow> task) \<Rightarrow> filters \<Rightarrow> fptr option \<Rightarrow> bool" where
  "counted T tsk fs x \<longleftrightarrow>
     (\<forall>a sf. fs a = Some sf \<longrightarrow> scf_usage sf = int (refs T tsk fs a) + (if x = Some a then 1 else 0))"

definition tasks_valid :: "nat set \<Rightarrow> (nat \<Rightarrow> task) \<Rightarrow> filters \<Rightarrow> bool" where
  "tasks_valid T tsk fs \<longleftrightarrow> finite T \<and> (\<forall>t \<in> T. valid fs (t_filter (tsk t)))"

lemma finite_prevs: "forest fs \<Longrightarrow> finite {b. \<exists>g. fs b = Some g \<and> scf_prev g = Some a}"
  by (rule finite_subset [of _ "dom fs"]) (auto simp: forest_def)

lemma refs_remove:
  assumes "forest fs" and "fs a = Some sf"
  shows "refs T tsk (fs(a := None)) c = refs T tsk fs c - (if scf_prev sf = Some c then 1 else 0)"
proof -
  let ?P = "{b. \<exists>g. fs b = Some g \<and> scf_prev g = Some c}"
  have "{b. \<exists>g. (fs(a := None)) b = Some g \<and> scf_prev g = Some c} = ?P - {a}" by auto
  moreover have "card (?P - {a}) = card ?P - (if scf_prev sf = Some c then 1 else 0)"
  proof (cases "a \<in> ?P")
    case True
    then show ?thesis using finite_prevs [OF assms(1), of c] assms(2) by auto
  next
    case False
    then show ?thesis using assms(2) by auto
  qed
  moreover have "0 < card ?P" if "scf_prev sf = Some c"
    using finite_prevs [OF assms(1), of c] that assms(2) by (auto simp: card_gt_0_iff)
  ultimately show ?thesis unfolding refs_def by auto
qed

lemma put_loop_correct:
  assumes "forest fs" and "counted T tsk fs p" and "tasks_valid T tsk fs" and "valid fs p"
  shows "\<exists>fs'. put_loop fs p = Some (Ok fs') \<and> forest fs' \<and> counted T tsk fs' None \<and> tasks_valid T tsk fs' \<and> shrunk fs' fs"
proof (cases p)
  case None
  then show ?thesis using assms shrunk_refl by (subst put_loop.simps) simp
next
  case (Some a)
  have "\<exists>fs'. put_loop fs (Some a) = Some (Ok fs') \<and> forest fs' \<and> counted T tsk fs' None \<and> tasks_valid T tsk fs' \<and> shrunk fs' fs"
    if "forest fs" "counted T tsk fs (Some a)" "tasks_valid T tsk fs" "fs a \<noteq> None" for a fs
    using that
  proof (induction a arbitrary: fs rule: less_induct)
    case (less a)
    obtain sf where sf: "fs a = Some sf" using less.prems(4) by blast
    have use: "scf_usage sf = int (refs T tsk fs a) + 1" using less.prems(2) sf by (simp add: counted_def)
    show ?case
    proof (cases "refs T tsk fs a = 0")
      case False
      let ?fs = "fs(a \<mapsto> sf\<lparr>scf_usage := scf_usage sf - 1\<rparr>)"
      have prevs: "{b. \<exists>g. ?fs b = Some g \<and> scf_prev g = Some c} = {b. \<exists>g. fs b = Some g \<and> scf_prev g = Some c}" for c
        using sf by auto
      have "put_loop fs (Some a) = Some (Ok ?fs)" using sf use False by (subst put_loop.simps) simp
      moreover have "forest ?fs" using less.prems(1) sf by (auto simp: forest_def valid_def)
      moreover have "counted T tsk ?fs None"
        using less.prems(2) sf use unfolding counted_def refs_def prevs by (auto split: if_splits)
      moreover have "tasks_valid T tsk ?fs" using less.prems(3) by (auto simp: tasks_valid_def valid_def)
      moreover have "shrunk ?fs fs" using sf by (auto simp: shrunk_def)
      ultimately show ?thesis by blast
    next
      case True
      let ?fs = "fs(a := None)"
      have fin: "finite T" "finite {b. \<exists>g. fs b = Some g \<and> scf_prev g = Some a}"
        using less.prems(3) finite_prevs [OF less.prems(1)] by (auto simp: tasks_valid_def)
      have nob: "\<not> (fs b = Some g \<and> scf_prev g = Some a)" for b g
        using True fin by (auto simp: refs_def)
      have not: "t_filter (tsk t) \<noteq> Some a" if "t \<in> T" for t
        using True fin that by (auto simp: refs_def)
      have f: "forest ?fs" using less.prems(1) nob by (fastforce simp: forest_def valid_def)
      have tv: "tasks_valid T tsk ?fs" using less.prems(3) not by (auto simp: tasks_valid_def valid_def)
      have ne: "scf_prev sf \<noteq> Some a" using nob sf by blast
      have cnt: "counted T tsk ?fs (scf_prev sf)"
        unfolding counted_def
      proof (intro allI impI)
        fix c sfc assume c: "?fs c = Some sfc"
        then have "fs c = Some sfc" "c \<noteq> a" by (auto split: if_splits)
        then have u: "scf_usage sfc = int (refs T tsk fs c)" using less.prems(2) by (simp add: counted_def)
        have "0 < refs T tsk fs c" if "scf_prev sf = Some c"
          using that sf finite_prevs [OF less.prems(1), of c] by (auto simp: refs_def card_gt_0_iff)
        then show "scf_usage sfc = int (refs T tsk ?fs c) + (if scf_prev sf = Some c then 1 else 0)"
          using u refs_remove [OF less.prems(1) sf, of T tsk c] by auto
      qed
      have sh: "shrunk ?fs fs" by (simp add: shrunk_def)
      have step: "put_loop fs (Some a) = put_loop ?fs (scf_prev sf)" using sf use True by (subst put_loop.simps) simp
      show ?thesis
      proof (cases "scf_prev sf")
        case None
        then have "put_loop ?fs (scf_prev sf) = Some (Ok ?fs)" by (subst put_loop.simps) simp
        then show ?thesis using step f cnt tv sh None by auto
      next
        case (Some b)
        have b: "b < a" "fs b \<noteq> None" using less.prems(1) sf Some by (auto simp: forest_def valid_def)
        then have hb: "?fs b \<noteq> None" by simp
        have cb: "counted T tsk ?fs (Some b)" using cnt Some by simp
        obtain fs' where "put_loop ?fs (Some b) = Some (Ok fs')" "forest fs'" "counted T tsk fs' None"
          "tasks_valid T tsk fs'" "shrunk fs' ?fs"
          using less.IH [OF b(1) f cb tv hb] by blast
        then show ?thesis using step Some shrunk_trans [OF _ sh] by auto
      qed
    qed
  qed
  then show ?thesis using assms Some by (simp add: valid_def)
qed

lemma refs_task_upd:
  assumes "finite T" and "t \<in> T"
  shows "int (refs T (tsk(t := k)) fs a) =
    int (refs T tsk fs a) - (if t_filter (tsk t) = Some a then 1 else 0) + (if t_filter k = Some a then 1 else 0)"
proof -
  let ?A = "{u \<in> T. t_filter (tsk u) = Some a}" and ?B = "{u \<in> T. t_filter ((tsk(t := k)) u) = Some a}"
  have fin: "finite ?A" using assms(1) by simp
  have B: "?B = (if t_filter k = Some a then insert t (?A - {t}) else ?A - {t})" using assms(2) by auto
  have "card (?A - {t}) = card ?A - (if t_filter (tsk t) = Some a then 1 else 0)"
    using fin assms(2) by (auto simp: card_Diff_singleton_if)
  moreover have "0 < card ?A" if "t_filter (tsk t) = Some a" using fin assms(2) that by (auto simp: card_gt_0_iff)
  moreover have "card (insert t (?A - {t})) = Suc (card (?A - {t}))" using fin by (simp add: card.insert_remove)
  ultimately show ?thesis unfolding refs_def B by auto
qed

lemma refs_same_links:
  assumes "\<And>b. map_option scf_prev (fs b) = map_option scf_prev (fs' b)"
  shows "refs T tsk fs = refs T tsk fs'"
proof
  fix a
  have "(\<exists>g. fs b = Some g \<and> scf_prev g = Some a) \<longleftrightarrow> (\<exists>g. fs' b = Some g \<and> scf_prev g = Some a)" for b
    using assms [of b] by (cases "fs b"; cases "fs' b") auto
  then show "refs T tsk fs a = refs T tsk fs' a" by (simp add: refs_def)
qed

lemma refs_same_tasks: "(\<And>t. t \<in> T \<Longrightarrow> t_filter (tsk t) = t_filter (tsk' t)) \<Longrightarrow> refs T tsk fs = refs T tsk' fs"
  by (auto simp: refs_def fun_eq_iff intro: arg_cong [where f = card])

section \<open>Well-formed states\<close>

definition sec_inv :: "nat set \<Rightarrow> sec_state \<Rightarrow> bool" where
  "sec_inv T s \<longleftrightarrow> forest (sfs s) \<and> (\<forall>a. sfs s a \<noteq> None \<longrightarrow> a < sf_next s) \<and>
     counted T (tasks s) (sfs s) None \<and> tasks_valid T (tasks s) (sfs s) \<and>
     (\<forall>t \<in> T. t_mode (tasks s t) = SECCOMP_MODE_FILTER \<longrightarrow> t_filter (tasks s t) \<noteq> None)"

lemma sec_inv_path: "sec_inv T s \<Longrightarrow> t \<in> T \<Longrightarrow> \<exists>ps. path (sfs s) (t_filter (tasks s t)) ps"
  by (simp add: sec_inv_def path_exists tasks_valid_def)

lemma get_filter_counted:
  assumes "sec_inv T s" and "t \<in> T"
  shows "\<exists>s'. get_seccomp_filter t s = Some (Ok s') \<and> tasks s' = tasks s \<and> sf_next s' = sf_next s \<and> forest (sfs s') \<and>
    counted T (tasks s) (sfs s') (t_filter (tasks s t)) \<and> tasks_valid T (tasks s) (sfs s') \<and>
    shrunk (sfs s') (sfs s) \<and> (\<forall>a. sfs s' a = None \<longleftrightarrow> sfs s a = None)"
proof (cases "t_filter (tasks s t)")
  case None
  then show ?thesis using assms by (auto simp: get_seccomp_filter_def sec_inv_def shrunk_refl)
next
  case (Some f)
  have v: "valid (sfs s) (Some f)" using assms Some unfolding sec_inv_def tasks_valid_def by metis
  then obtain sf where sf: "sfs s f = Some sf" by (auto simp: valid_def)
  let ?fs = "(sfs s)(f \<mapsto> sf\<lparr>scf_usage := scf_usage sf + 1\<rparr>)"
  have rf: "refs T (tasks s) ?fs = refs T (tasks s) (sfs s)"
    using sf by (intro refs_same_links) auto
  have "counted T (tasks s) ?fs (Some f)"
    using assms(1) sf unfolding counted_def rf sec_inv_def by auto
  moreover have "forest ?fs" using assms(1) sf by (auto simp: sec_inv_def forest_def valid_def)
  moreover have "tasks_valid T (tasks s) ?fs" using assms(1) by (auto simp: sec_inv_def tasks_valid_def valid_def)
  moreover have "shrunk ?fs (sfs s)" using sf by (auto simp: shrunk_def)
  ultimately show ?thesis using Some sf by (auto simp: get_seccomp_filter_def)
qed

text \<open>Moving a task from its filter to one it takes a reference on.\<close>

lemma switch_filter:
  assumes inv: "sec_inv T s" and ct: "c \<in> T" "t \<in> T"
    and k: "t_filter k = t_filter (tasks s c)" "t_mode k = SECCOMP_MODE_FILTER \<longrightarrow> t_filter k \<noteq> None"
  shows "\<exists>s1 fs. get_seccomp_filter c s = Some (Ok s1) \<and> tasks s1 = tasks s \<and>
    put_loop (sfs s1) (t_filter (tasks s t)) = Some (Ok fs) \<and> sf_next s1 = sf_next s \<and>
    sec_inv T (s1\<lparr>sfs := fs, tasks := (tasks s)(t := k)\<rparr>) \<and> shrunk fs (sfs s)"
proof -
  obtain s1 where s1: "get_seccomp_filter c s = Some (Ok s1)" "tasks s1 = tasks s" "sf_next s1 = sf_next s" "forest (sfs s1)"
    "counted T (tasks s) (sfs s1) (t_filter (tasks s c))" "tasks_valid T (tasks s) (sfs s1)"
    "shrunk (sfs s1) (sfs s)" "\<forall>a. sfs s1 a = None \<longleftrightarrow> sfs s a = None"
    using get_filter_counted [OF inv ct(1)] by blast
  let ?tsk = "(tasks s)(t := k)"
  have fin: "finite T" using s1(6) by (simp add: tasks_valid_def)
  have cnt: "counted T ?tsk (sfs s1) (t_filter (tasks s t))"
    unfolding counted_def
  proof (intro allI impI)
    fix a sf assume "sfs s1 a = Some sf"
    then have "scf_usage sf = int (refs T (tasks s) (sfs s1) a) + (if t_filter (tasks s c) = Some a then 1 else 0)"
      using s1(5) by (simp add: counted_def)
    then show "scf_usage sf = int (refs T ?tsk (sfs s1) a) + (if t_filter (tasks s t) = Some a then 1 else 0)"
      using refs_task_upd [OF fin ct(2), of "tasks s" k "sfs s1" a] k(1) by simp
  qed
  have tv: "tasks_valid T ?tsk (sfs s1)" using s1(6) ct k(1) by (auto simp: tasks_valid_def)
  have "valid (sfs s1) (t_filter (tasks s t))" using s1(6) ct(2) by (simp add: tasks_valid_def)
  then obtain fs where fs: "put_loop (sfs s1) (t_filter (tasks s t)) = Some (Ok fs)" "forest fs" "counted T ?tsk fs None"
    "tasks_valid T ?tsk fs" "shrunk fs (sfs s1)"
    using put_loop_correct [OF s1(4) cnt tv] by blast
  have sh: "shrunk fs (sfs s)" using shrunk_trans [OF fs(5) s1(7)] .
  have "\<forall>a. fs a \<noteq> None \<longrightarrow> a < sf_next s" using sh inv by (fastforce simp: shrunk_def sec_inv_def)
  then have "sec_inv T (s1\<lparr>sfs := fs, tasks := ?tsk\<rparr>)"
    using fs inv k(2) s1(3) by (auto simp: sec_inv_def)
  then show ?thesis using s1 fs(1) sh by blast
qed

definition synced :: "task \<Rightarrow> task \<Rightarrow> task" where
  "synced c k = (if t_mode k = SECCOMP_MODE_DISABLED
     then k\<lparr>t_filter := t_filter c, t_nnp := t_nnp c \<or> t_nnp k, t_mode := SECCOMP_MODE_FILTER, t_tif := True\<rparr>
     else k\<lparr>t_filter := t_filter c\<rparr>)"

lemma sync_thread_correct:
  assumes inv: "sec_inv T s" and ct: "c \<in> T" "t \<in> T" and f: "t_filter (tasks s c) \<noteq> None"
  shows "\<exists>s'. sync_thread c t s = Some (Ok s') \<and> sec_inv T s' \<and> shrunk (sfs s') (sfs s) \<and> sf_next s' = sf_next s \<and>
    tasks s' = (if t = c then tasks s else (tasks s)(t := synced (tasks s c) (tasks s t)))"
proof (cases "t = c")
  case True
  then show ?thesis using inv shrunk_refl by (simp add: sync_thread_def)
next
  case False
  let ?k = "synced (tasks s c) (tasks s t)"
  have k: "t_filter ?k = t_filter (tasks s c)" "t_mode ?k = SECCOMP_MODE_FILTER \<longrightarrow> t_filter ?k \<noteq> None"
    using f by (auto simp: synced_def)
  obtain s1 fs where s1: "get_seccomp_filter c s = Some (Ok s1)" "tasks s1 = tasks s"
    "put_loop (sfs s1) (t_filter (tasks s t)) = Some (Ok fs)" "sf_next s1 = sf_next s"
    "sec_inv T (s1\<lparr>sfs := fs, tasks := (tasks s)(t := ?k)\<rparr>)" "shrunk fs (sfs s)"
    using switch_filter [OF inv ct k] by blast
  have put: "put_seccomp_filter t s1 = Some (Ok (s1\<lparr>sfs := fs\<rparr>))"
    using s1(2,3) by (simp add: put_seccomp_filter_def sbind_def)
  have "sync_thread c t s = Some (Ok (s1\<lparr>sfs := fs, tasks := (tasks s)(t := ?k)\<rparr>))"
    using False s1(1,2) put
    by (auto simp: sync_thread_def sbind_def upd_task_def seccomp_assign_mode_def synced_def Let_def)
  then show ?thesis using s1 False by auto
qed

lemma sync_threads_correct:
  assumes "c \<in> T"
  shows "sec_inv T s \<Longrightarrow> set ts \<subseteq> T \<Longrightarrow> t_filter (tasks s c) \<noteq> None \<Longrightarrow>
    \<exists>s'. seccomp_sync_threads c ts s = Some (Ok s') \<and> sec_inv T s' \<and> shrunk (sfs s') (sfs s) \<and> sf_next s' = sf_next s \<and>
      tasks s' c = tasks s c \<and>
      (\<forall>t. tasks s' t = tasks s t \<or>
         t \<in> set ts \<and> t \<noteq> c \<and> t_filter (tasks s' t) = t_filter (tasks s c) \<and>
         (t_mode (tasks s' t) = t_mode (tasks s t) \<or> t_mode (tasks s t) = 0 \<and> t_mode (tasks s' t) = SECCOMP_MODE_FILTER))"
proof (induction ts arbitrary: s)
  case Nil
  then show ?case by (simp add: shrunk_refl)
next
  case (Cons t ts)
  obtain s1 where s1: "sync_thread c t s = Some (Ok s1)" "sec_inv T s1" "shrunk (sfs s1) (sfs s)" "sf_next s1 = sf_next s"
    "tasks s1 = (if t = c then tasks s else (tasks s)(t := synced (tasks s c) (tasks s t)))"
    using sync_thread_correct [OF Cons.prems(1) assms, of t] Cons.prems by auto
  have c1: "tasks s1 c = tasks s c" using s1(5) by auto
  obtain s' where s': "seccomp_sync_threads c ts s1 = Some (Ok s')" "sec_inv T s'" "shrunk (sfs s') (sfs s1)"
    "sf_next s' = sf_next s1" "tasks s' c = tasks s1 c"
    "\<forall>u. tasks s' u = tasks s1 u \<or> u \<in> set ts \<and> u \<noteq> c \<and> t_filter (tasks s' u) = t_filter (tasks s1 c) \<and>
         (t_mode (tasks s' u) = t_mode (tasks s1 u) \<or> t_mode (tasks s1 u) = 0 \<and> t_mode (tasks s' u) = SECCOMP_MODE_FILTER)"
    using Cons.IH [OF s1(2)] Cons.prems c1 by auto
  have "tasks s' u = tasks s u \<or> u \<in> set (t # ts) \<and> u \<noteq> c \<and> t_filter (tasks s' u) = t_filter (tasks s c) \<and>
         (t_mode (tasks s' u) = t_mode (tasks s u) \<or> t_mode (tasks s u) = 0 \<and> t_mode (tasks s' u) = SECCOMP_MODE_FILTER)" for u
  proof -
    have "t_filter (synced a b) = t_filter a" "t_mode (synced a b) = (if t_mode b = 0 then 2 else t_mode b)" for a b
      by (simp_all add: synced_def)
    then show ?thesis using s'(6) [rule_format, of u] s1(5) c1 by (auto split: if_splits)
  qed
  then show ?case using s1(1,4) s' c1 shrunk_trans [OF s'(3) s1(3)] by (auto simp: sbind_def)
qed


section \<open>Preparing and attaching\<close>

lemma can_sync_outcomes:
  assumes ps: "path (sfs s) (t_filter (tasks s c)) ps"
  shows "(\<exists>e. seccomp_can_sync_threads s c ts = Some (Err e)) \<or>
    (\<exists>n. seccomp_can_sync_threads s c ts = Some (Ok n) \<and> (n = 0 \<longrightarrow>
      (\<forall>t \<in> set ts. t \<noteq> c \<longrightarrow> t_mode (tasks s t) = SECCOMP_MODE_DISABLED \<or>
         (\<exists>pre qs. ps = pre @ qs \<and> path (sfs s) (t_filter (tasks s t)) qs))))"
proof (induction ts)
  case (Cons t ts)
  obtain b where b: "is_ancestor (sfs s) (t_filter (tasks s t)) (t_filter (tasks s c)) = Some (Ok b)"
    "b \<longrightarrow> (\<exists>pre qs. ps = pre @ qs \<and> path (sfs s) (t_filter (tasks s t)) qs)"
    using is_ancestor_path [OF ps] by blast
  show ?case
  proof (cases "t = c \<or> t_mode (tasks s t) = 0 \<or> t_mode (tasks s t) = 2 \<and> b")
    case True
    then have "seccomp_can_sync_threads s c (t # ts) = seccomp_can_sync_threads s c ts"
      using b(1) by (auto simp: sbind_def Let_def)
    moreover have "t \<noteq> c \<longrightarrow> t_mode (tasks s t) = SECCOMP_MODE_DISABLED \<or>
         (\<exists>pre qs. ps = pre @ qs \<and> path (sfs s) (t_filter (tasks s t)) qs)" using True b(2) by blast
    ultimately show ?thesis using Cons by auto
  next
    case False
    then have "seccomp_can_sync_threads s c (t # ts) =
        (if t_pid (tasks s t) = 0 then Some (Err ESRCH) else Some (Ok (t_pid (tasks s t))))"
      using b(1) by (auto simp: sbind_def Let_def)
    then show ?thesis by simp
  qed
qed simp

lemma free_fresh_inv:
  assumes "sec_inv T s"
  shows "sec_inv T (seccomp_filter_free (sf_next s) (s\<lparr>sfs := (sfs s)(sf_next s \<mapsto> sf), sf_next := Suc (sf_next s)\<rparr>))"
proof -
  have "sfs s (sf_next s) = None" using assms unfolding sec_inv_def by (metis less_irrefl)
  then have "(sfs s)(sf_next s := None) = sfs s" by auto
  then show ?thesis using assms by (auto simp: sec_inv_def seccomp_filter_free_def less_SucI)
qed

lemma link_inv:
  fixes prog :: "bpf_insn list"
  assumes inv: "sec_inv T s" and c: "c \<in> T"
  defines "a \<equiv> sf_next s"
  defines "s2 \<equiv> s\<lparr>sfs := (sfs s)(a \<mapsto> \<lparr>scf_usage = 1, scf_prev = t_filter (tasks s c), scf_prog = prog\<rparr>), sf_next := Suc a,
     tasks := (tasks s)(c := (tasks s c)\<lparr>t_filter := Some a\<rparr>)\<rparr>"
  shows "sec_inv T s2"
proof -
  let ?n = "\<lparr>scf_usage = 1, scf_prev = t_filter (tasks s c), scf_prog = prog\<rparr>"
  let ?fs = "(sfs s)(a \<mapsto> ?n)" and ?tsk = "(tasks s)(c := (tasks s c)\<lparr>t_filter := Some a\<rparr>)"
  have na: "sfs s a = None" using inv unfolding sec_inv_def a_def by (metis less_irrefl)
  have fin: "finite T" and vt: "\<And>t. t \<in> T \<Longrightarrow> valid (sfs s) (t_filter (tasks s t))"
    using inv by (auto simp: sec_inv_def tasks_valid_def)
  have nt: "t_filter (tasks s t) \<noteq> Some a" if "t \<in> T" for t using vt [OF that] na by (auto simp: valid_def)
  have np: "scf_prev g \<noteq> Some a" if "sfs s b = Some g" for b g
  proof -
    have "forest (sfs s)" using inv by (simp add: sec_inv_def)
    then have "valid (sfs s) (scf_prev g)" using that by (rule forest_prev)
    then show ?thesis using na by (auto simp: valid_def)
  qed
  have lt: "b < a" if "sfs s b \<noteq> None" for b using inv that unfolding sec_inv_def a_def by blast
  have forest: "forest ?fs"
    using inv vt [OF c] lt by (auto simp: sec_inv_def forest_def valid_def)
  have prevs: "{b. \<exists>g. ?fs b = Some g \<and> scf_prev g = Some x} =
     (if t_filter (tasks s c) = Some x then insert a {b. \<exists>g. sfs s b = Some g \<and> scf_prev g = Some x}
      else {b. \<exists>g. sfs s b = Some g \<and> scf_prev g = Some x})" for x using na by auto
  have fp: "finite {b. \<exists>g. sfs s b = Some g \<and> scf_prev g = Some x}" for x
    using inv finite_prevs by (auto simp: sec_inv_def)
  have rf: "int (refs T (tasks s) ?fs x) = int (refs T (tasks s) (sfs s) x) + (if t_filter (tasks s c) = Some x then 1 else 0)" for x
    unfolding refs_def prevs using fp [of x] na by auto
  have rf2: "int (refs T ?tsk ?fs x) = int (refs T (tasks s) (sfs s) x) + (if x = a then 1 else 0)" for x
    using refs_task_upd [OF fin c, of "tasks s" "(tasks s c)\<lparr>t_filter := Some a\<rparr>" ?fs x] rf [of x] by auto
  have empty: "{t \<in> T. t_filter (tasks s t) = Some a} = {}" "{b. \<exists>g. sfs s b = Some g \<and> scf_prev g = Some a} = {}"
    using nt np by blast+
  have "refs T (tasks s) (sfs s) a = 0" unfolding refs_def empty by simp
  then have "counted T ?tsk ?fs None"
    using inv unfolding counted_def rf2 sec_inv_def by auto
  moreover have "tasks_valid T ?tsk ?fs" using fin vt by (auto simp: tasks_valid_def valid_def)
  ultimately show ?thesis using inv forest lt unfolding s2_def sec_inv_def a_def
    by (auto simp: less_SucI)
qed

text \<open>Following the new filter from the caller: its program, then the old path.\<close>

lemma link_path:
  assumes inv: "sec_inv T s" and c: "c \<in> T" and p: "path (sfs s) p ps" and v: "valid (sfs s) p"
  shows "path ((sfs s)(sf_next s \<mapsto> sf)) p ps"
proof -
  have na: "sfs s (sf_next s) = None" using inv unfolding sec_inv_def by (metis less_irrefl)
  from p show ?thesis
  proof (induction "sfs s" p ps rule: path.induct)
    case path_nil
    then show ?case by (rule path.path_nil)
  next
    case (path_cons a sf' ps)
    then have "((sfs s)(sf_next s \<mapsto> sf)) a = Some sf'" using na by auto
    then show ?case using path_cons.hyps(3) by (rule path.path_cons)
  qed
qed


section \<open>Conversion of checked seccomp filters\<close>

lemma seccomp_check_filter_nth:
  "seccomp_check_filter is = Ok is' \<Longrightarrow>
   length is' = length is \<and> (\<forall>i < length is. seccomp_check_insn (is ! i) = Ok (is' ! i))"
proof (induction "is" arbitrary: is')
  case (Cons f fs)
  then obtain f' fs' where f: "seccomp_check_insn f = Ok f'" "seccomp_check_filter fs = Ok fs'" "is' = f' # fs'" by auto
  then show ?case using Cons.IH [OF f(2)] by (auto simp: nth_Cons split: nat.split)
qed simp

lemma seccomp_check_filter_no_fault: "seccomp_check_filter is \<noteq> Undef u"
proof (induction "is")
  case (Cons f fs)
  have "seccomp_check_insn f \<noteq> Undef u" by (auto simp: seccomp_check_insn_def Let_def)
  then show ?case using Cons by (cases "seccomp_check_insn f"; cases "seccomp_check_filter fs") auto
qed simp

lemma seccomp_check_insn_codes:
  "seccomp_check_insn f = Ok g \<Longrightarrow> sf_code f \<in> {0x20, 0x80, 0x81} \<Longrightarrow> sf_code g \<in> {0x21, 0x00, 0x01}"
  by (auto simp: seccomp_check_insn_def Let_def split: if_splits)

lemma seccomp_conv_ok:
  assumes chk: "bpf_check_classic b is = Ok ()" and sc: "seccomp_check_filter is = Ok is'"
  shows "conv_ok L is'"
  unfolding conv_ok_def
proof (intro conjI allI impI)
  note len = seccomp_check_filter_nth [OF sc, THEN conjunct1]
  show "\<not> bad_len is'" using check_classic_facts(1,2) [OF chk] len by (simp add: bad_len_def)
  fix i a assume "i < length is'"
  then have i: "i < length is" using len by simp
  have f: "seccomp_check_insn (is ! i) = Ok (is' ! i)" using seccomp_check_filter_nth [OF sc] i by blast
  obtain ci where ci: "cdecode (sf_code (is ! i)) = Some ci" "insn_ok (length is') i (is ! i) ci"
    using check_classic_decodes [OF chk i] len by auto
  have mx: "length is' \<le> BPF_MAXINSNS" using check_classic_facts(2) [OF chk] len by simp
  show "\<exists>ins. conv_insn L (length is') i a (is' ! i) = Ok ins \<and> length ins = ilen L (is' ! i)"
  proof (cases "sf_code (is ! i) \<in> {0x20, 0x80, 0x81}")
    case False
    then have "is' ! i = is ! i" using f by (auto simp: seccomp_check_insn_def Let_def split: if_splits)
    then show ?thesis using conv_insn_total [OF ci mx] by simp
  next
    case True
    then consider "sf_code (is' ! i) = 0x21" | "sf_code (is' ! i) = 0x00" | "sf_code (is' ! i) = 0x01"
      using seccomp_check_insn_codes [OF f] by blast
    then show ?thesis
    proof cases
      case 1
      then show ?thesis
        by (auto simp: conv_insn_def ilen_def cdecode_def cdecode_table_def conv_alu_ld_codes_def conv_jmp_codes_def)
    next
      case 2
      then have d: "cdecode (sf_code (is' ! i)) = Some C_LD_IMM" by (simp add: cdecode_def cdecode_table_def)
      show ?thesis using conv_insn_total [OF d _ mx] by simp
    next
      case 3
      then have d: "cdecode (sf_code (is' ! i)) = Some C_LDX_IMM" by (simp add: cdecode_def cdecode_table_def)
      show ?thesis using conv_insn_total [OF d _ mx] by simp
    qed
  qed
qed

lemma seccomp_prog_create_no_fault: "seccomp_prog_create L ok1 ok2 is \<noteq> Undef u"
proof (cases "bpf_check_classic ok1 is = Ok ()")
  case False
  then show ?thesis using bpf_check_classic_outcomes [of ok1 "is"] by (auto simp: seccomp_prog_create_def)
next
  case chk: True
  show ?thesis
  proof (cases "seccomp_check_filter is")
    case (Ok is')
    obtain P where P: "bpf_convert_len L is' = Ok (length P)" "bpf_convert_filter L True is' (length P) = Ok P"
      using convert_conv_ok [OF seccomp_conv_ok [OF chk Ok]] by blast
    have "\<not> bad_len is'" using seccomp_conv_ok [OF chk Ok] by (auto simp: conv_ok_def)
    then have "bpf_convert_filter L False is' (length P) = Err ENOMEM" by (simp add: bpf_convert_filter_def)
    then show ?thesis using chk Ok P by (cases ok2) (simp_all add: seccomp_prog_create_def)
  next
    case (Err e)
    then show ?thesis using chk by (simp add: seccomp_prog_create_def)
  next
    case (Undef u')
    then show ?thesis using seccomp_check_filter_no_fault by blast
  qed
qed


section \<open>Installing a filter only adds restrictions\<close>

text \<open>In \<open>s'\<close> every task in seccomp mode keeps its mode and all its programs, possibly behind new ones.\<close>

definition tightens :: "nat set \<Rightarrow> sec_state \<Rightarrow> sec_state \<Rightarrow> bool" where
  "tightens T s s' \<longleftrightarrow> (\<forall>t \<in> T. t_mode (tasks s t) \<noteq> SECCOMP_MODE_DISABLED \<longrightarrow>
     t_mode (tasks s' t) = t_mode (tasks s t) \<and>
     (\<forall>ps. path (sfs s) (t_filter (tasks s t)) ps \<longrightarrow> (\<exists>pre. path (sfs s') (t_filter (tasks s' t)) (pre @ ps))))"

lemma tightens_same: "tasks s' = tasks s \<Longrightarrow> sfs s' = sfs s \<Longrightarrow> tightens T s s'"
  unfolding tightens_def by (metis append_Nil)

lemma seccomp_assign_mode_inv:
  assumes "sec_inv T s" and "m = SECCOMP_MODE_FILTER \<longrightarrow> t_filter (tasks s c) \<noteq> None"
  shows "sec_inv T (seccomp_assign_mode c m s)"
proof -
  let ?s = "seccomp_assign_mode c m s"
  have f: "t_filter (tasks ?s t) = t_filter (tasks s t)" for t by (simp add: seccomp_assign_mode_def upd_task_def)
  have same: "sfs ?s = sfs s" "sf_next ?s = sf_next s" by (simp_all add: seccomp_assign_mode_def upd_task_def)
  have "refs T (tasks ?s) (sfs s) = refs T (tasks s) (sfs s)" by (rule refs_same_tasks) (rule f)
  then have "counted T (tasks ?s) (sfs s) None" using assms(1) by (simp add: counted_def sec_inv_def)
  moreover have "tasks_valid T (tasks ?s) (sfs s)" using assms(1) f by (simp add: sec_inv_def tasks_valid_def)
  moreover have "t_mode (tasks ?s t) = SECCOMP_MODE_FILTER \<longrightarrow> t_filter (tasks ?s t) \<noteq> None" if "t \<in> T" for t
    using assms that by (auto simp: sec_inv_def seccomp_assign_mode_def upd_task_def)
  ultimately show ?thesis using assms(1) unfolding sec_inv_def same by blast
qed

text \<open>The state after the new filter has been linked in front of the caller's.\<close>

definition linked :: "nat \<Rightarrow> bpf_insn list \<Rightarrow> sec_state \<Rightarrow> sec_state" where
  "linked c prog s = s\<lparr>sfs := (sfs s)(sf_next s \<mapsto> \<lparr>scf_usage = 1, scf_prev = t_filter (tasks s c), scf_prog = prog\<rparr>),
     sf_next := Suc (sf_next s), tasks := (tasks s)(c := (tasks s c)\<lparr>t_filter := Some (sf_next s)\<rparr>)\<rparr>"

lemma linked_paths:
  assumes inv: "sec_inv T s" and c: "c \<in> T" and ps: "path (sfs s) (t_filter (tasks s c)) ps"
  shows "path (sfs (linked c prog s)) (Some (sf_next s)) (prog # ps)"
    and "t \<in> T \<Longrightarrow> t \<noteq> c \<Longrightarrow> path (sfs s) (t_filter (tasks s t)) qs \<Longrightarrow>
      path (sfs (linked c prog s)) (t_filter (tasks (linked c prog s) t)) qs"
proof -
  let ?n = "\<lparr>scf_usage = 1, scf_prev = t_filter (tasks s c), scf_prog = prog\<rparr>"
  have v: "valid (sfs s) (t_filter (tasks s t))" if "t \<in> T" for t using inv that by (simp add: sec_inv_def tasks_valid_def)
  have "path ((sfs s)(sf_next s \<mapsto> ?n)) (scf_prev ?n) ps"
    using link_path [OF inv c ps v [OF c]] by simp
  then have "path ((sfs s)(sf_next s \<mapsto> ?n)) (Some (sf_next s)) (scf_prog ?n # ps)"
    by (intro path.path_cons) simp_all
  then show "path (sfs (linked c prog s)) (Some (sf_next s)) (prog # ps)" by (simp add: linked_def)
  show "path (sfs (linked c prog s)) (t_filter (tasks (linked c prog s) t)) qs"
    if "t \<in> T" "t \<noteq> c" "path (sfs s) (t_filter (tasks s t)) qs"
    using link_path [OF inv c that(3) v [OF that(1)]] that(2) by (simp add: linked_def)
qed

lemma attach_correct:
  fixes prog :: "bpf_insn list"
  assumes inv: "sec_inv T s" and c: "c \<in> T" and ts: "set ts \<subseteq> T" and m: "t_mode (tasks s c) \<in> {0, 2}"
  defines "s1 \<equiv> s\<lparr>sfs := (sfs s)(sf_next s \<mapsto> \<lparr>scf_usage = 1, scf_prev = None, scf_prog = prog\<rparr>), sf_next := Suc (sf_next s)\<rparr>"
  shows "(\<exists>e. seccomp_attach_filter tsync (sf_next s) c ts s1 = Some (Err e)) \<or>
    (\<exists>n. n \<noteq> 0 \<and> seccomp_attach_filter tsync (sf_next s) c ts s1 = Some (Ok (n, s1))) \<or>
    (\<exists>s2. seccomp_attach_filter tsync (sf_next s) c ts s1 = Some (Ok (0, s2)) \<and> sec_inv T s2 \<and>
       t_filter (tasks s2 c) \<noteq> None \<and> t_mode (tasks s2 c) = t_mode (tasks s c) \<and>
       (\<exists>ps. path (sfs s2) (t_filter (tasks s2 c)) (prog # ps)) \<and> tightens T s s2)"
proof -
  let ?a = "sf_next s" and ?n = "\<lparr>scf_usage = 1, scf_prev = None, scf_prog = prog\<rparr>"
  obtain ps where ps: "path (sfs s) (t_filter (tasks s c)) ps" using sec_inv_path [OF inv c] by blast
  have v: "valid (sfs s) (t_filter (tasks s t))" if "t \<in> T" for t using inv that by (simp add: sec_inv_def tasks_valid_def)
  have ps1: "path (sfs s1) (t_filter (tasks s c)) ps" using link_path [OF inv c ps v [OF c]] by (simp add: s1_def)
  define tot where "tot = length prog + sum_list (map (\<lambda>pr. length pr + 4) ps)"
  have tot: "insns_loop (sfs s1) (t_filter (tasks s1 c)) (length prog) = Some (Ok tot)"
    using insns_loop_path [OF ps1] by (simp add: s1_def tot_def)
  let ?l = "linked c prog s"
  have lk: "upd_task c (\<lambda>k. k\<lparr>t_filter := Some ?a\<rparr>) (s1\<lparr>sfs := (sfs s1)(?a \<mapsto> ?n\<lparr>scf_prev := t_filter (tasks s1 c)\<rparr>)\<rparr>) = ?l"
    by (simp add: s1_def linked_def upd_task_def)
  have linv: "sec_inv T ?l" using link_inv [OF inv c] by (simp add: linked_def)
  have sfa: "sfs s1 ?a = Some ?n" by (simp add: s1_def)
  have eq: "seccomp_attach_filter tsync ?a c ts s1 =
      (if tot > MAX_INSNS_PER_PATH then Some (Err ENOMEM)
       else sbind (if tsync then seccomp_can_sync_threads s1 c ts else Some (Ok 0)) (\<lambda>ret.
         if ret \<noteq> 0 then Some (Ok (ret, s1))
         else sbind (if tsync then seccomp_sync_threads c ts ?l else Some (Ok ?l)) (\<lambda>s. Some (Ok (0, s)))))"
    unfolding seccomp_attach_filter_def sfa option.case Let_def lk
    by (simp add: tot sbind_def [of "Some (Ok tot)"])
  have lc: "tasks ?l c = (tasks s c)\<lparr>t_filter := Some ?a\<rparr>" "\<And>t. t \<noteq> c \<Longrightarrow> tasks ?l t = tasks s t"
    by (simp_all add: linked_def)
  note lp = linked_paths [OF inv c ps, where prog = prog]
  have uniq: "qs = ps" if "path (sfs s) (t_filter (tasks s c)) qs" for qs using path_unique [OF that ps] .
  show ?thesis
  proof (cases "tot > MAX_INSNS_PER_PATH")
    case True
    then show ?thesis by (simp add: eq)
  next
    case small: False
    show ?thesis
    proof (cases tsync)
      case False
      have "tightens T s ?l"
        unfolding tightens_def
      proof (intro ballI impI conjI allI)
        fix t assume t: "t \<in> T"
        show "t_mode (tasks ?l t) = t_mode (tasks s t)" using lc by (cases "t = c") auto
        fix qs assume q: "path (sfs s) (t_filter (tasks s t)) qs"
        show "\<exists>pre. path (sfs ?l) (t_filter (tasks ?l t)) (pre @ qs)"
        proof (cases "t = c")
          case True
          then show ?thesis using lp(1) lc(1) uniq q by (intro exI [of _ "[prog]"]) simp
        next
          case False
          then show ?thesis using lp(2) [OF t False q] by (intro exI [of _ "[]"]) simp
        qed
      qed
      moreover have "seccomp_attach_filter tsync ?a c ts s1 = Some (Ok (0, ?l))"
        unfolding eq using small False by (simp add: sbind_def)
      moreover have "t_filter (tasks ?l c) = Some ?a" "t_mode (tasks ?l c) = t_mode (tasks s c)" using lc(1) by simp_all
      ultimately show ?thesis using linv lp(1) by (metis option.distinct(1))
    next
      case True
      have inv1_path: "path (sfs s1) (t_filter (tasks s t)) qs \<longleftrightarrow> path (sfs s) (t_filter (tasks s t)) qs" if t: "t \<in> T" for t qs
      proof -
        obtain q0 where q0: "path (sfs s) (t_filter (tasks s t)) q0" using sec_inv_path [OF inv t] by blast
        then have "path (sfs s1) (t_filter (tasks s t)) q0" using link_path [OF inv c q0 v [OF t]] by (simp add: s1_def)
        then show ?thesis using q0 path_unique by metis
      qed
      have t1: "tasks s1 = tasks s" by (simp add: s1_def)
      have pc: "path (sfs s1) (t_filter (tasks s1 c)) ps" using ps1 t1 by simp
      consider e where "seccomp_can_sync_threads s1 c ts = Some (Err e)"
        | n where "seccomp_can_sync_threads s1 c ts = Some (Ok n)" "n \<noteq> 0"
        | "seccomp_can_sync_threads s1 c ts = Some (Ok 0)"
          "\<forall>t \<in> set ts. t \<noteq> c \<longrightarrow> t_mode (tasks s t) = SECCOMP_MODE_DISABLED \<or>
             (\<exists>pre qs. ps = pre @ qs \<and> path (sfs s1) (t_filter (tasks s t)) qs)"
        using can_sync_outcomes [OF pc, of ts] t1 by auto
      then show ?thesis
      proof cases
        case 1
        then have "seccomp_attach_filter tsync ?a c ts s1 = Some (Err e)"
          unfolding eq using small True by (simp add: sbind_def)
        then show ?thesis by blast
      next
        case 2
        then have "seccomp_attach_filter tsync ?a c ts s1 = Some (Ok (n, s1))"
          unfolding eq using small True by (simp add: sbind_def)
        then show ?thesis using 2(2) by blast
      next
        case 3
        obtain s2 where s2: "seccomp_sync_threads c ts ?l = Some (Ok s2)" "sec_inv T s2" "shrunk (sfs s2) (sfs ?l)"
          "tasks s2 c = tasks ?l c"
          "\<forall>t. tasks s2 t = tasks ?l t \<or> t \<in> set ts \<and> t \<noteq> c \<and> t_filter (tasks s2 t) = t_filter (tasks ?l c) \<and>
             (t_mode (tasks s2 t) = t_mode (tasks ?l t) \<or> t_mode (tasks ?l t) = 0 \<and> t_mode (tasks s2 t) = SECCOMP_MODE_FILTER)"
          using sync_threads_correct [OF c linv ts] lc(1) by auto
        have v2: "valid (sfs s2) (t_filter (tasks s2 t))" if "t \<in> T" for t using s2(2) that by (simp add: sec_inv_def tasks_valid_def)
        have f2: "forest (sfs s2)" using s2(2) by (simp add: sec_inv_def)
        have pc2: "path (sfs s2) (t_filter (tasks s2 c)) (prog # ps)"
          using shrunk_path [OF lp(1) s2(3) f2] v2 [OF c] s2(4) lc(1) by simp
        have "tightens T s s2"
          unfolding tightens_def
        proof (intro ballI impI conjI allI)
          fix t assume t: "t \<in> T" and mt: "t_mode (tasks s t) \<noteq> SECCOMP_MODE_DISABLED"
          have mode_l: "t_mode (tasks ?l t) = t_mode (tasks s t)" using lc by (cases "t = c") auto
          then show "t_mode (tasks s2 t) = t_mode (tasks s t)" using s2(5) mt by metis
          fix qs assume q: "path (sfs s) (t_filter (tasks s t)) qs"
          show "\<exists>pre. path (sfs s2) (t_filter (tasks s2 t)) (pre @ qs)"
          proof (cases "t = c")
            case True
            then show ?thesis using pc2 uniq q by (intro exI [of _ "[prog]"]) simp
          next
            case tc: False
            show ?thesis
            proof (cases "tasks s2 t = tasks ?l t")
              case True
              then show ?thesis using shrunk_path [OF lp(2) [OF t tc q] s2(3) f2] v2 [OF t] by (intro exI [of _ "[]"]) simp
            next
              case False
              then have st: "t \<in> set ts" "t_filter (tasks s2 t) = t_filter (tasks ?l c)" using s2(5) by blast+
              have "\<exists>pre qs. ps = pre @ qs \<and> path (sfs s1) (t_filter (tasks s t)) qs"
                using 3(2) [rule_format, OF st(1) tc] mt by (elim disjE) simp_all
              then obtain pre q' where pq: "ps = pre @ q'" "path (sfs s1) (t_filter (tasks s t)) q'"
                by (elim exE conjE) (rule that)
              then have "q' = qs" using inv1_path [OF t] path_unique [OF q] by blast
              then show ?thesis using pc2 st(2) s2(4) pq(1) by (intro exI [of _ "prog # pre"]) simp
            qed
          qed
        qed
        moreover have "seccomp_attach_filter tsync ?a c ts s1 = Some (Ok (0, s2))"
          unfolding eq using small True 3(1) s2(1) by (simp add: sbind_def)
        moreover have "t_filter (tasks s2 c) \<noteq> None" "t_mode (tasks s2 c) = t_mode (tasks s c)"
          using lc(1) s2(4) by simp_all
        ultimately show ?thesis using s2(2) pc2 by blast
      qed
    qed
  qed
qed


lemma set_mode_filter_correct:
  assumes inv: "sec_inv T s" and c: "c \<in> T" and ts: "set ts \<subseteq> T"
  shows "\<exists>r s'. seccomp_set_mode_filter L capable oks killed flags uf c ts s = Some (r, s') \<and> (\<forall>u. r \<noteq> Undef u) \<and>
    sec_inv T s' \<and> tightens T s s' \<and>
    (r = Ok 0 \<longrightarrow> (\<exists>is ps prog. uf = Some is \<and> seccomp_prog_create L (oks ! 1) (oks ! 2) is = Ok prog \<and>
       t_mode (tasks s' c) = SECCOMP_MODE_FILTER \<and> path (sfs s') (t_filter (tasks s' c)) (prog # ps)))"
proof -
  let ?F = "seccomp_set_mode_filter L capable oks killed flags uf c ts s"
  have fail: "?thesis" if "?F = Some (Err e, s')" "tasks s' = tasks s" "sfs s' = sfs s" "sec_inv T s'" for e s'
    using that tightens_same by auto
  show ?thesis
  proof (cases "flags AND NOT 1 \<noteq> 0 \<or> uf = None")
    case True
    then have "?F = Some (Err (if flags AND NOT 1 \<noteq> 0 then EINVAL else EFAULT), s)"
      by (auto simp: seccomp_set_mode_filter_def Let_def)
    then show ?thesis using fail inv by blast
  next
    case False
    then obtain "is" where uf: "uf = Some is" and fl: "flags AND NOT 1 = 0" by auto
    show ?thesis
    proof (cases "seccomp_prepare_filter L capable oks is c s")
      case (Err e)
      then have "?F = Some (Err e, s)" using uf fl by (simp add: seccomp_set_mode_filter_def Let_def)
      then show ?thesis using fail inv by blast
    next
      case (Undef u)
      then have False using seccomp_prog_create_no_fault [of L "oks ! 1" "oks ! 2" "is"]
        by (cases "seccomp_prog_create L (oks ! 1) (oks ! 2) is") (auto simp: seccomp_prepare_filter_def split: if_splits)
      then show ?thesis ..
    next
      case (Ok as1)
      then obtain prog where prog: "seccomp_prog_create L (oks ! 1) (oks ! 2) is = Ok prog"
        by (auto simp: seccomp_prepare_filter_def split: if_splits)
      define s1 where "s1 = s\<lparr>sfs := (sfs s)(sf_next s \<mapsto> \<lparr>scf_usage = 1, scf_prev = None, scf_prog = prog\<rparr>), sf_next := Suc (sf_next s)\<rparr>"
      have as1: "as1 = (sf_next s, s1)" using Ok prog by (auto simp: seccomp_prepare_filter_def s1_def split: if_splits)
      let ?free = "seccomp_filter_free (sf_next s) s1"
      have "sfs s (sf_next s) = None" using inv unfolding sec_inv_def by (metis less_irrefl)
      then have fr: "tasks ?free = tasks s" "sfs ?free = sfs s"
        by (auto simp: s1_def seccomp_filter_free_def)
      have frinv: "sec_inv T ?free" using free_fresh_inv [OF inv] by (simp add: s1_def)
      let ?ts = "flags AND 1 \<noteq> 0"
      have F: "?F = (if ?ts \<and> killed then Some (Err EINVAL, ?free)
          else if \<not> seccomp_may_assign_mode s1 c SECCOMP_MODE_FILTER then Some (Err EINVAL, ?free)
          else (case seccomp_attach_filter ?ts (sf_next s) c ts s1 of
                  None \<Rightarrow> None
                | Some (Err e) \<Rightarrow> Some (Err e, ?free)
                | Some (Undef u) \<Rightarrow> Some (Undef u, s1)
                | Some (Ok (ret, s2)) \<Rightarrow>
                    (if ret \<noteq> 0 then Some (Ok ret, ?free)
                     else Some (Ok 0, seccomp_assign_mode c SECCOMP_MODE_FILTER s2))))"
        using uf fl Ok as1 by (simp add: seccomp_set_mode_filter_def Let_def)
      show ?thesis
      proof (cases "?ts \<and> killed \<or> \<not> seccomp_may_assign_mode s1 c SECCOMP_MODE_FILTER")
        case True
        then have "?F = Some (Err EINVAL, ?free)" unfolding F by auto
        then show ?thesis using fail fr frinv by blast
      next
        case go: False
        then have m: "t_mode (tasks s c) \<in> {0, 2}" by (auto simp: seccomp_may_assign_mode_def s1_def)
        consider e where "seccomp_attach_filter ?ts (sf_next s) c ts s1 = Some (Err e)"
          | n where "n \<noteq> 0" "seccomp_attach_filter ?ts (sf_next s) c ts s1 = Some (Ok (n, s1))"
          | s2 ps where "seccomp_attach_filter ?ts (sf_next s) c ts s1 = Some (Ok (0, s2))" "sec_inv T s2"
            "t_filter (tasks s2 c) \<noteq> None" "t_mode (tasks s2 c) = t_mode (tasks s c)"
            "path (sfs s2) (t_filter (tasks s2 c)) (prog # ps)" "tightens T s s2"
          using attach_correct [OF inv c ts m, of ?ts prog] unfolding s1_def by blast
        then show ?thesis
        proof cases
          case 1
          then have "?F = Some (Err e, ?free)" unfolding F using go by auto
          then show ?thesis using fail fr frinv by blast
        next
          case 2
          then have "?F = Some (Ok n, ?free)" unfolding F using go by auto
          then show ?thesis using 2(1) fr frinv tightens_same by auto
        next
          case 3
          let ?s' = "seccomp_assign_mode c SECCOMP_MODE_FILTER s2"
          have "?F = Some (Ok 0, ?s')" unfolding F using go 3(1) by auto
          moreover have "sec_inv T ?s'" using seccomp_assign_mode_inv [OF 3(2)] 3(3) by blast
          moreover have same: "sfs ?s' = sfs s2" "t_filter (tasks ?s' t) = t_filter (tasks s2 t)"
            "t \<noteq> c \<Longrightarrow> tasks ?s' t = tasks s2 t" "t_mode (tasks ?s' c) = SECCOMP_MODE_FILTER" for t
            by (simp_all add: seccomp_assign_mode_def upd_task_def)
          moreover have "tightens T s ?s'"
            using 3(6) m same unfolding tightens_def by (metis empty_iff insert_iff)
          ultimately show ?thesis using uf prog 3(5) by auto
        qed
      qed
    qed
  qed
qed

section \<open>Reachable states\<close>

text \<open>What tasks do to the seccomp state: call \<open>seccomp(2)\<close> or \<open>prctl(2)\<close>, fork, exit.\<close>

inductive sec_step :: "nat set \<times> sec_state \<Rightarrow> nat set \<times> sec_state \<Rightarrow> bool" where
  sys: "c \<in> T \<Longrightarrow> set ts \<subseteq> T \<Longrightarrow>
    do_seccomp L capable oks killed op flags unull uf c ts s = Some (r, s') \<Longrightarrow> sec_step (T, s) (T, s')"
| fork: "c \<in> T \<Longrightarrow> p \<notin> T \<Longrightarrow> copy_seccomp p c s = Some (Ok s') \<Longrightarrow> sec_step (T, s) (insert p T, s')"
| exit: "t \<in> T \<Longrightarrow> free_task t s = Some (Ok s') \<Longrightarrow> sec_step (T, s) (T - {t}, s')"

inductive_cases sec_stepE: "sec_step (T, s) (T', s')"

lemma do_seccomp_correct:
  assumes inv: "sec_inv T s" and c: "c \<in> T" and ts: "set ts \<subseteq> T"
  shows "\<exists>r s'. do_seccomp L capable oks killed op flags unull uf c ts s = Some (r, s') \<and> (\<forall>u. r \<noteq> Undef u) \<and>
    sec_inv T s' \<and> tightens T s s'"
proof (cases op)
  case SECCOMP_SET_MODE_STRICT
  have "sec_inv T (seccomp_assign_mode c SECCOMP_MODE_STRICT s)" using seccomp_assign_mode_inv [OF inv] by simp
  moreover have "tightens T s (seccomp_assign_mode c SECCOMP_MODE_STRICT s)" if "seccomp_may_assign_mode s c SECCOMP_MODE_STRICT"
  proof -
    let ?s = "seccomp_assign_mode c SECCOMP_MODE_STRICT s"
    have "sfs ?s = sfs s" "t_filter (tasks ?s t) = t_filter (tasks s t)"
      "t_mode (tasks s t) \<noteq> 0 \<Longrightarrow> t_mode (tasks ?s t) = t_mode (tasks s t)" for t
      using that by (auto simp: seccomp_assign_mode_def upd_task_def seccomp_may_assign_mode_def)
    then show ?thesis unfolding tightens_def by (metis append_Nil)
  qed
  ultimately show ?thesis using SECCOMP_SET_MODE_STRICT inv tightens_same
    by (auto simp: do_seccomp_def seccomp_set_mode_strict_def)
next
  case SECCOMP_SET_MODE_FILTER
  then show ?thesis
    using set_mode_filter_correct [OF assms, of L capable oks killed flags uf] by (auto simp: do_seccomp_def)
next
  case SECCOMP_OTHER
  then show ?thesis using inv tightens_same by (simp add: do_seccomp_def)
qed

lemma copy_seccomp_correct:
  assumes inv: "sec_inv T s" and c: "c \<in> T" and p: "p \<notin> T"
  shows "\<exists>s'. copy_seccomp p c s = Some (Ok s') \<and> sec_inv (insert p T) s' \<and> tightens T s s'"
proof -
  obtain s1 where s1: "get_seccomp_filter c s = Some (Ok s1)" "tasks s1 = tasks s" "sf_next s1 = sf_next s" "forest (sfs s1)"
    "counted T (tasks s) (sfs s1) (t_filter (tasks s c))" "tasks_valid T (tasks s) (sfs s1)"
    "shrunk (sfs s1) (sfs s)" "\<forall>a. sfs s1 a = None \<longleftrightarrow> sfs s a = None"
    using get_filter_counted [OF inv c] by blast
  obtain s' where s': "copy_seccomp p c s = Some (Ok s')" "sfs s' = sfs s1" "sf_next s' = sf_next s"
    "\<And>t. t \<noteq> p \<Longrightarrow> tasks s' t = tasks s t" "t_filter (tasks s' p) = t_filter (tasks s c)"
    "t_mode (tasks s' p) = t_mode (tasks s c)"
    using s1(1,2,3) p c by (auto simp: copy_seccomp_def sbind_def Let_def upd_task_def)
  have fin: "finite T" using s1(6) by (simp add: tasks_valid_def)
  have eqT: "\<forall>t \<in> T. tasks s' t = tasks s t" using s'(4) p by metis
  have rf: "refs (insert p T) (tasks s') fs a = refs T (tasks s) fs a + (if t_filter (tasks s c) = Some a then 1 else 0)" for fs a
  proof -
    have "{t \<in> insert p T. t_filter (tasks s' t) = Some a} =
      (if t_filter (tasks s c) = Some a then insert p {t \<in> T. t_filter (tasks s t) = Some a}
       else {t \<in> T. t_filter (tasks s t) = Some a})"
      using eqT s'(5) p by auto
    then show ?thesis using p fin by (simp add: refs_def)
  qed
  have "counted (insert p T) (tasks s') (sfs s1) None" using s1(5) unfolding counted_def rf by auto
  moreover have "tasks_valid (insert p T) (tasks s') (sfs s1)"
    using s1(6) s'(4,5) c p unfolding tasks_valid_def by (metis finite_insert insert_iff)
  moreover have "t_mode (tasks s' t) = SECCOMP_MODE_FILTER \<longrightarrow> t_filter (tasks s' t) \<noteq> None" if "t \<in> insert p T" for t
    using inv that s'(4,5,6) c p unfolding sec_inv_def by (metis insert_iff)
  ultimately have "sec_inv (insert p T) s'"
    using inv s1(4,8) s'(2,3) unfolding sec_inv_def by auto
  moreover have "tightens T s s'"
    unfolding tightens_def
  proof (intro ballI impI conjI allI)
    fix t assume t: "t \<in> T"
    then have eq: "tasks s' t = tasks s t" using eqT by blast
    then show "t_mode (tasks s' t) = t_mode (tasks s t)" by simp
    fix ps assume "path (sfs s) (t_filter (tasks s t)) ps"
    then have "path (sfs s') (t_filter (tasks s' t)) ps"
      using shrunk_path [OF _ s1(7,4)] s1(6) t eq s'(2) by (simp add: tasks_valid_def)
    then show "\<exists>pre. path (sfs s') (t_filter (tasks s' t)) (pre @ ps)" by (metis append_Nil)
  qed
  ultimately show ?thesis using s'(1) by blast
qed

lemma free_task_correct:
  assumes inv: "sec_inv T s" and t: "t \<in> T"
  shows "\<exists>s'. free_task t s = Some (Ok s') \<and> sec_inv (T - {t}) s' \<and> tightens (T - {t}) s s'"
proof -
  have fin: "finite T" and f: "forest (sfs s)" and tv: "tasks_valid T (tasks s) (sfs s)"
    using inv by (auto simp: sec_inv_def tasks_valid_def)
  have rf: "int (refs T (tasks s) (sfs s) a) = int (refs (T - {t}) (tasks s) (sfs s) a) + (if t_filter (tasks s t) = Some a then 1 else 0)" for a
  proof -
    let ?A = "{u \<in> T - {t}. t_filter (tasks s u) = Some a}"
    have "{u \<in> T. t_filter (tasks s u) = Some a} = (if t_filter (tasks s t) = Some a then insert t ?A else ?A)" using t by auto
    moreover have "finite ?A" "t \<notin> ?A" using fin by auto
    ultimately show ?thesis unfolding refs_def by simp
  qed
  have cnt: "counted (T - {t}) (tasks s) (sfs s) (t_filter (tasks s t))"
    using inv rf unfolding counted_def sec_inv_def by simp
  have tv': "tasks_valid (T - {t}) (tasks s) (sfs s)" using tv by (simp add: tasks_valid_def)
  have v: "valid (sfs s) (t_filter (tasks s t))" using tv t by (simp add: tasks_valid_def)
  obtain fs where fs: "put_loop (sfs s) (t_filter (tasks s t)) = Some (Ok fs)" "forest fs" "counted (T - {t}) (tasks s) fs None"
    "tasks_valid (T - {t}) (tasks s) fs" "shrunk fs (sfs s)"
    using put_loop_correct [OF f cnt tv' v] by blast
  let ?s = "s\<lparr>sfs := fs\<rparr>"
  have st: "free_task t s = Some (Ok ?s)" using fs(1) by (simp add: free_task_def put_seccomp_filter_def sbind_def)
  have "\<forall>a. fs a \<noteq> None \<longrightarrow> a < sf_next s" using fs(5) inv by (fastforce simp: shrunk_def sec_inv_def)
  then have "sec_inv (T - {t}) ?s" using fs inv by (auto simp: sec_inv_def)
  moreover have "tightens (T - {t}) s ?s"
    unfolding tightens_def
  proof (intro ballI impI conjI allI)
    fix u ps assume "u \<in> T - {t}" "path (sfs s) (t_filter (tasks s u)) ps"
    then have "path fs (t_filter (tasks s u)) ps" using shrunk_path [OF _ fs(5,2)] fs(4) by (simp add: tasks_valid_def)
    then show "\<exists>pre. path (sfs ?s) (t_filter (tasks ?s u)) (pre @ ps)" by (intro exI [of _ "[]"]) simp
  qed simp
  ultimately show ?thesis using st by blast
qed

lemma sec_step_correct:
  assumes "sec_step (T, s) (T', s')" and "sec_inv T s"
  shows "sec_inv T' s' \<and> tightens (T \<inter> T') s s'"
  using assms(1)
proof (rule sec_stepE)
  fix c ts L capable oks killed op flags unull uf r
  assume a: "T' = T" "c \<in> T" "set ts \<subseteq> T" "do_seccomp L capable oks killed op flags unull uf c ts s = Some (r, s')"
  obtain r2 s2 where "do_seccomp L capable oks killed op flags unull uf c ts s = Some (r2, s2)" "sec_inv T s2" "tightens T s s2"
    using do_seccomp_correct [OF assms(2) a(2,3)] by blast
  then show ?thesis using a(1,4) by simp
next
  fix c p assume a: "T' = insert p T" "c \<in> T" "p \<notin> T" "copy_seccomp p c s = Some (Ok s')"
  then have "T \<inter> T' = T" by auto
  then show ?thesis using copy_seccomp_correct [OF assms(2) a(2,3)] a by auto
next
  fix t assume a: "T' = T - {t}" "t \<in> T" "free_task t s = Some (Ok s')"
  then have "T \<inter> T' = T - {t}" by auto
  then show ?thesis using free_task_correct [OF assms(2) a(2)] a by auto
qed

section \<open>Evaluation\<close>

text \<open>The result is one of the values, and no value has a stricter action.\<close>

lemma foldl_stricter:
  "action (foldl stricter r xs) \<le> action r \<and> (\<forall>x \<in> set xs. action (foldl stricter r xs) \<le> action x) \<and>
   foldl stricter r xs \<in> insert r (set xs)"
proof (induction xs arbitrary: r)
  case (Cons x xs)
  have "action (stricter r x) \<le> action r" "action (stricter r x) \<le> action x" "stricter r x \<in> {r, x}"
    by (auto simp: stricter_def)
  then show ?case using Cons.IH [of "stricter r x"] by auto
qed simp

lemma run_filters_path:
  assumes "sec_inv T s" and "t \<in> T" and "t_filter (tasks s t) \<noteq> None" and "path (sfs s) (t_filter (tasks s t)) ps"
  shows "seccomp_run_filters run s t = Some (Ok (foldl stricter SECCOMP_RET_ALLOW (map run ps)))"
  using run_loop_path [OF assms(4)] assms(3) by (auto simp: seccomp_run_filters_def)

lemma run_filters_total:
  assumes "sec_inv T s" and "t \<in> T" and "t_mode (tasks s t) = SECCOMP_MODE_FILTER"
  shows "\<exists>r. seccomp_run_filters run s t = Some (Ok r)"
proof -
  have "t_filter (tasks s t) \<noteq> None" using assms by (auto simp: sec_inv_def)
  then show ?thesis using sec_inv_path [OF assms(1,2)] run_filters_path [OF assms(1,2)] by blast
qed

section \<open>Properties\<close>

definition sec_init :: "nat set \<Rightarrow> sec_state \<Rightarrow> bool" where
  "sec_init T s \<longleftrightarrow> finite T \<and> sfs s = Map.empty \<and> (\<forall>t \<in> T. t_mode (tasks s t) = SECCOMP_MODE_DISABLED \<and> t_filter (tasks s t) = None)"


definition ex_task :: task where
  "ex_task = \<lparr>t_mode = 0, t_filter = None, t_nnp = True, t_tif = False, t_pid = 7\<rparr>"

definition ex_sec :: sec_state where
  "ex_sec = \<lparr>sfs = Map.empty, sf_next = 0, tasks = (\<lambda>_. ex_task)\<rparr>"

lemma ex_sec_init: "sec_init {0, 1} ex_sec"
  by (simp add: sec_init_def ex_sec_def ex_task_def)

lemma ex_sec_inv: "sec_inv {0, 1} ex_sec"
  by (simp add: ex_sec_def ex_task_def sec_inv_def forest_def counted_def tasks_valid_def valid_def)


text \<open>C16. Filters can only be tightened. In one step of the system (a system call of any task, with or without thread
  synchronisation, a fork or an exit), a surviving task in seccomp mode keeps its mode, and if it
  is in filter mode, the verdict of its filters on any system call data is at least as strict as before.\<close>

theorem seccomp_never_relaxes:
  assumes "sec_inv T s" and "sec_step (T, s) (T', s')" and "t \<in> T" and "t \<in> T'"
    and "t_mode (tasks s t) \<noteq> SECCOMP_MODE_DISABLED"
  shows "t_mode (tasks s' t) = t_mode (tasks s t) \<and>
    (t_mode (tasks s t) = SECCOMP_MODE_FILTER \<longrightarrow>
      (\<exists>r r'. seccomp_run_filters run s t = Some (Ok r) \<and> seccomp_run_filters run s' t = Some (Ok r') \<and> action r' \<le> action r))"
proof -
  have inv': "sec_inv T' s'" and tig: "tightens (T \<inter> T') s s'" using sec_step_correct [OF assms(2,1)] by auto
  have m: "t_mode (tasks s' t) = t_mode (tasks s t)" using tig assms(3-5) by (simp add: tightens_def)
  obtain ps where ps: "path (sfs s) (t_filter (tasks s t)) ps" using sec_inv_path [OF assms(1,3)] by blast
  obtain pre where pre: "path (sfs s') (t_filter (tasks s' t)) (pre @ ps)"
    using tig assms(3-5) ps by (auto simp: tightens_def)
  have "\<exists>r r'. seccomp_run_filters run s t = Some (Ok r) \<and> seccomp_run_filters run s' t = Some (Ok r') \<and> action r' \<le> action r"
    if f: "t_mode (tasks s t) = SECCOMP_MODE_FILTER"
  proof -
    have "t_filter (tasks s t) \<noteq> None" "t_filter (tasks s' t) \<noteq> None"
      using assms(1,3,4) inv' f m by (auto simp: sec_inv_def)
    then have r: "seccomp_run_filters run s t = Some (Ok (foldl stricter SECCOMP_RET_ALLOW (map run ps)))"
      and r': "seccomp_run_filters run s' t = Some (Ok (foldl stricter SECCOMP_RET_ALLOW (map run (pre @ ps))))"
      using run_filters_path [OF assms(1,3) _ ps] run_filters_path [OF inv' assms(4) _ pre] by auto
    have "foldl stricter SECCOMP_RET_ALLOW (map run ps) \<in> insert SECCOMP_RET_ALLOW (set (map run ps))"
      using foldl_stricter by blast
    then have "action (foldl stricter SECCOMP_RET_ALLOW (map run (pre @ ps))) \<le> action (foldl stricter SECCOMP_RET_ALLOW (map run ps))"
      using foldl_stricter [of SECCOMP_RET_ALLOW "map run (pre @ ps)"] by auto
    then show ?thesis using r r' by blast
  qed
  then show ?thesis using m by blast
qed

definition ex_sec_filtered :: sec_state where
  "ex_sec_filtered = \<lparr>sfs = [0 \<mapsto> \<lparr>scf_usage = 1, scf_prev = None, scf_prog = []\<rparr>], sf_next = 1,
     tasks = (\<lambda>_. ex_task)(0 := ex_task\<lparr>t_mode := 2, t_filter := Some 0\<rparr>)\<rparr>"

lemma ex_sec_filtered_inv: "sec_inv {0} ex_sec_filtered"
proof -
  have "{t. t = 0 \<and> t_filter (((\<lambda>_. ex_task)(0 := ex_task\<lparr>t_mode := 2, t_filter := Some 0\<rparr>)) t) = Some 0} = {0 :: nat}" by auto
  then show ?thesis
    by (auto simp: ex_sec_filtered_def sec_inv_def forest_def valid_def counted_def refs_def tasks_valid_def)
qed

theorem seccomp_never_relaxes_witness:
  "\<exists>s'. copy_seccomp 1 0 ex_sec_filtered = Some (Ok s') \<and> t_mode (tasks s' 0) = SECCOMP_MODE_FILTER \<and>
     (\<exists>r'. seccomp_run_filters (\<lambda>_. SECCOMP_RET_ERRNO) s' 0 = Some (Ok r') \<and> action r' \<le> SECCOMP_RET_ERRNO)"
proof -
  obtain s' where s': "copy_seccomp 1 0 ex_sec_filtered = Some (Ok s')"
    using copy_seccomp_correct [OF ex_sec_filtered_inv, of 0 1] by auto
  have st: "sec_step ({0}, ex_sec_filtered) (insert 1 {0}, s')" by (rule sec_step.fork [OF _ _ s']) auto
  have m: "t_mode (tasks ex_sec_filtered 0) = SECCOMP_MODE_FILTER" by (simp add: ex_sec_filtered_def)
  have "path (sfs ex_sec_filtered) (t_filter (tasks ex_sec_filtered 0)) [[]]"
    using path_cons [of "sfs ex_sec_filtered" 0 "\<lparr>scf_usage = 1, scf_prev = None, scf_prog = []\<rparr>" "[]"] path_nil
    by (simp add: ex_sec_filtered_def)
  then have "seccomp_run_filters (\<lambda>_. SECCOMP_RET_ERRNO) ex_sec_filtered 0 = Some (Ok SECCOMP_RET_ERRNO)"
    using run_filters_path [OF ex_sec_filtered_inv, of 0 "[[]]"] by (simp add: ex_sec_filtered_def stricter_def action_def)
  moreover have "action SECCOMP_RET_ERRNO = SECCOMP_RET_ERRNO" by (simp add: action_def)
  ultimately show ?thesis
    using seccomp_never_relaxes [OF ex_sec_filtered_inv st, of 0 "\<lambda>_. SECCOMP_RET_ERRNO"] s' m by auto
qed

text \<open>C26. \<open>seccomp_run_filters\<close> ends and returns the value of one of the task's filters (or the initial allow) whose
  action no other filter's action undercuts.\<close>

theorem seccomp_run_filters_strictest:
  assumes "sec_inv T s" and "t \<in> T" and "t_mode (tasks s t) = SECCOMP_MODE_FILTER"
  shows "\<exists>ps r. path (sfs s) (t_filter (tasks s t)) ps \<and> seccomp_run_filters run s t = Some (Ok r) \<and>
    r \<in> insert SECCOMP_RET_ALLOW (run ` set ps) \<and> (\<forall>p \<in> set ps. action r \<le> action (run p))"
proof -
  obtain ps where ps: "path (sfs s) (t_filter (tasks s t)) ps" using sec_inv_path [OF assms(1,2)] by blast
  have "t_filter (tasks s t) \<noteq> None" using assms by (auto simp: sec_inv_def)
  then show ?thesis
    using run_filters_path [OF assms(1,2) _ ps, of run] ps foldl_stricter [of SECCOMP_RET_ALLOW "map run ps"] by auto
qed

theorem seccomp_run_filters_strictest_witness:
  "\<exists>r. seccomp_run_filters (\<lambda>_. SECCOMP_RET_TRAP) ex_sec_filtered 0 = Some (Ok r)"
proof -
  have "t_mode (tasks ex_sec_filtered 0) = SECCOMP_MODE_FILTER" by (simp add: ex_sec_filtered_def)
  then show ?thesis using seccomp_run_filters_strictest [OF ex_sec_filtered_inv, of 0] by blast
qed

text \<open>C25. The operations always finish without undefined behaviour: from a well-formed state \<open>seccomp(2)\<close> returns
  a number or an error, and forking and exiting never follow a dangling filter pointer.\<close>

theorem seccomp_operations_total:
  assumes "sec_inv T s" and "c \<in> T" and "set ts \<subseteq> T" and "p \<notin> T"
  shows "(\<exists>r s'. do_seccomp L capable oks killed op flags unull uf c ts s = Some (r, s') \<and> (\<forall>u. r \<noteq> Undef u)) \<and>
    (\<exists>s'. copy_seccomp p c s = Some (Ok s')) \<and> (\<exists>s'. free_task c s = Some (Ok s'))"
  using do_seccomp_correct [OF assms(1-3), of L capable oks killed op flags unull uf] copy_seccomp_correct [OF assms(1,2,4)]
    free_task_correct [OF assms(1,2)] by blast

theorem seccomp_operations_total_witness:
  "\<exists>s'. free_task 0 ex_sec_filtered = Some (Ok s')"
  using seccomp_operations_total [OF ex_sec_filtered_inv, of 0 "[]" 1 ex_layout False "[]" False SECCOMP_OTHER 0 False None] by simp

text \<open>A successful installation puts the converted program in front of the caller's filters and leaves the caller in filter mode.\<close>

theorem seccomp_install:
  assumes "sec_inv T s" and "c \<in> T" and "set ts \<subseteq> T"
    and "seccomp_set_mode_filter L capable oks killed flags uf c ts s = Some (Ok 0, s')"
  shows "\<exists>is prog ps. uf = Some is \<and> seccomp_prog_create L (oks ! 1) (oks ! 2) is = Ok prog \<and>
    t_mode (tasks s' c) = SECCOMP_MODE_FILTER \<and> path (sfs s') (t_filter (tasks s' c)) (prog # ps)"
  using set_mode_filter_correct [OF assms(1-3), of L capable oks killed flags uf] assms(4) by auto

definition ex_sfilter :: "sock_filter list" where
  "ex_sfilter = [BPF_STMT 0x20 0, BPF_JUMP 0x15 59 0 1, BPF_STMT 0x06 0, BPF_STMT 0x06 0x7fff0000]"

theorem seccomp_install_witness:
  "\<exists>s' prog ps. seccomp_set_mode_filter ex_layout False [True, True, True] False 0 (Some ex_sfilter) 0 [] ex_sec = Some (Ok 0, s') \<and>
     path (sfs s') (t_filter (tasks s' 0)) (prog # ps)"
proof -
  let ?F = "seccomp_set_mode_filter ex_layout False [True, True, True] False 0 (Some ex_sfilter) 0 [] ex_sec"
  have "is_ok (seccomp_prog_create ex_layout True True ex_sfilter)" by code_simp
  then obtain prog where prog: "seccomp_prog_create ex_layout True True ex_sfilter = Ok prog" by (auto simp: is_ok_iff)
  have "case seccomp_prog_create ex_layout True True ex_sfilter of Ok p \<Rightarrow> length p < 20 | _ \<Rightarrow> False" by code_simp
  then have "length prog \<le> 32768" using prog by simp
  moreover have "length ex_sfilter = 4" by (simp add: ex_sfilter_def)
  then have "ex_sfilter \<noteq> []" "length ex_sfilter \<le> 4096" by auto
  ultimately have "\<exists>s'. ?F = Some (Ok 0, s')" using prog
    unfolding seccomp_set_mode_filter_def seccomp_prepare_filter_def seccomp_attach_filter_def
    by (auto simp: ex_sec_def ex_task_def seccomp_may_assign_mode_def insns_loop.simps sbind_def Let_def)
  then obtain s' where "?F = Some (Ok 0, s')" by blast
  then show ?thesis using seccomp_install [OF ex_sec_inv, of 0 "[]"] by fastforce
qed

text \<open>The system call hook lets a system call run exactly when seccomp is suspended by the tracer, or strict mode and the call is
  read, write, exit or sigreturn, or filter mode and the verdict is \<open>ALLOW\<close>, or \<open>TRACE\<close> with a listening tracer that
  neither killed the task nor cancelled the call.\<close>

theorem secure_computing_allows:
  assumes "sec_inv T s" and "t \<in> T" and "t_mode (tasks s t) \<noteq> SECCOMP_MODE_DISABLED" and "t_mode (tasks s t) \<le> 2"
  shows "(\<exists>fx. secure_computing run suspended sysno tracer fatal nr t s = Some (Ok (Alive (0, fx)))) \<longleftrightarrow>
    suspended \<or>
    t_mode (tasks s t) = SECCOMP_MODE_STRICT \<and> sysno \<in> {0, 1, 60, 15} \<or>
    t_mode (tasks s t) = SECCOMP_MODE_FILTER \<and>
      (\<exists>r. seccomp_run_filters run s t = Some (Ok r) \<and>
        (action r = SECCOMP_RET_ALLOW \<or> action r = SECCOMP_RET_TRACE \<and> tracer \<and> \<not> fatal \<and> 0 \<le> nr))"
proof -
  consider (st) "t_mode (tasks s t) = SECCOMP_MODE_STRICT" | (fl) "t_mode (tasks s t) = SECCOMP_MODE_FILTER"
    using assms(3,4) by linarith
  then show ?thesis
  proof cases
    case st
    then show ?thesis
      by (auto simp: secure_computing_def seccomp_phase1_def sbind_def secure_computing_strict_def mode1_syscalls_def
          split: alive.splits if_splits)
  next
    case fl
    obtain r where r: "seccomp_run_filters run s t = Some (Ok r)"
      using run_filters_total [OF assms(1,2) fl] by blast
    have ne: "r \<noteq> 0" "r \<noteq> 1" if "action r = SECCOMP_RET_TRACE" using that by (auto simp: action_def)
    show ?thesis using fl r ne
      by (auto simp: secure_computing_def seccomp_phase1_def sbind_def seccomp_phase1_filter_def seccomp_phase2_def Let_def
          split: if_splits)
  qed
qed


theorem secure_computing_allows_witness:
  "\<exists>fx. secure_computing (\<lambda>_. 0x7fff0000) False 2 False False 2 0 ex_sec_filtered = Some (Ok (Alive (0, fx)))"
proof -
  have "t_mode (tasks ex_sec_filtered 0) = 2" by (simp add: ex_sec_filtered_def)
  moreover have "path (sfs ex_sec_filtered) (t_filter (tasks ex_sec_filtered 0)) [[]]"
    using path_cons [of "sfs ex_sec_filtered" 0 "\<lparr>scf_usage = 1, scf_prev = None, scf_prog = []\<rparr>" "[]"] path_nil
    by (simp add: ex_sec_filtered_def)
  then have "seccomp_run_filters (\<lambda>_. 0x7fff0000) ex_sec_filtered 0 = Some (Ok 0x7fff0000)"
    using run_filters_path [OF ex_sec_filtered_inv, of 0 "[[]]"] by (simp add: ex_sec_filtered_def stricter_def)
  moreover have "action 0x7fff0000 = SECCOMP_RET_ALLOW" by (simp add: action_def)
  ultimately show ?thesis
    using secure_computing_allows [OF ex_sec_filtered_inv, of 0 "\<lambda>_. 0x7fff0000" False 2 False False 2] by simp
qed



end
