(* ===== verification/Bpf_Cfg.thy ===== *)
theory Bpf_Cfg
  imports Bpf_Core
begin

text \<open>
  The control flow check of the verifier of internal programs, \<open>check_cfg\<close> and \<open>push_insn\<close> of
  \<^verbatim>\<open>kernel/bpf/verifier.c\<close>: a depth-first search with an explicit stack that labels edges in the state of
  each instruction. The theory shows that the search decides exactly whether the flow graph is
  closed, connected and acyclic, and that the interpreter therefore ends on accepted programs,
  tail calls included.
\<close>

section \<open>The search\<close>

abbreviation (input) DISCOVERED :: nat where "DISCOVERED \<equiv> 0x10"
abbreviation (input) EXPLORED :: nat where "EXPLORED \<equiv> 0x20"
abbreviation (input) FALLTHROUGH :: nat where "FALLTHROUGH \<equiv> 1"
abbreviation (input) BRANCH :: nat where "BRANCH \<equiv> 2"

text \<open>
  \<open>insn_stack\<close> holds the used part of the array, the top first, so that \<open>cur_stack\<close> is its length;
  \<open>marks\<close> tells which entries of \<open>explored_states\<close> are \<open>STATE_LIST_MARK\<close>.
\<close>

record cfg =
  insn_state :: "nat list"
  insn_stack :: "nat list"
  marks :: "bool list"

definition push_insn :: "nat \<Rightarrow> nat \<Rightarrow> int \<Rightarrow> nat \<Rightarrow> cfg \<Rightarrow> (bool \<times> cfg) result" where
  "push_insn len t w e s =
     (if t \<ge> length (insn_state s) then Undef BadIndex
      else if e = FALLTHROUGH \<and> insn_state s ! t \<ge> (DISCOVERED OR FALLTHROUGH) then Ok (False, s)
      else if e = BRANCH \<and> insn_state s ! t \<ge> (DISCOVERED OR BRANCH) then Ok (False, s)
      else if w < 0 \<or> w \<ge> int len then Err EINVAL
      else if nat w \<ge> length (insn_state s) then Undef BadIndex
      else
        (let w = nat w;
             s = (if e = BRANCH then s\<lparr>marks := (marks s)[w := True]\<rparr> else s)
         in
         if insn_state s ! w = 0 then
           (let s = s\<lparr>insn_state := (insn_state s)[t := DISCOVERED OR e, w := DISCOVERED]\<rparr> in
            if length (insn_stack s) \<ge> len then Err E2BIG
            else Ok (True, s\<lparr>insn_stack := w # insn_stack s\<rparr>))
         else if (insn_state s ! w) AND 0xF0 = DISCOVERED then Err EINVAL
         else if insn_state s ! w = EXPLORED then
           Ok (False, s\<lparr>insn_state := (insn_state s)[t := DISCOVERED OR e]\<rparr>)
         else Err EFAULT))"

text \<open>
  The part of the loop between \<open>peek_stack\<close> and \<open>mark_explored\<close>: whether it goes back to
  \<open>peek_stack\<close>, with the new state.
\<close>

definition visit :: "bpf_insn list \<Rightarrow> nat \<Rightarrow> cfg \<Rightarrow> (bool \<times> cfg) result" where
  "visit insns t s =
     (if t \<ge> length insns then Undef BadIndex
      else
        (let i = insns ! t; insn_cnt = length insns in
         if BPF_CLASS (bi_code i) = BPF_JMP then
           (let opcode = BPF_OP (bi_code i) in
            if opcode = BPF_EXIT then Ok (False, s)
            else if opcode = BPF_CALL then push_insn insn_cnt t (int t + 1) FALLTHROUGH s
            else if opcode = BPF_JA then
              (if BPF_SRC (bi_code i) \<noteq> BPF_K then Err EINVAL
               else
                 rbind (push_insn insn_cnt t (int t + sint (bi_off i) + 1) FALLTHROUGH s) (\<lambda>(pushed, s).
                   if pushed then Ok (True, s)
                   else Ok (False, if t + 1 < insn_cnt then s\<lparr>marks := (marks s)[t + 1 := True]\<rparr> else s)))
            else
              rbind (push_insn insn_cnt t (int t + 1) FALLTHROUGH s) (\<lambda>(pushed, s).
                if pushed then Ok (True, s)
                else push_insn insn_cnt t (int t + sint (bi_off i) + 1) BRANCH s))
         else push_insn insn_cnt t (int t + 1) FALLTHROUGH s))"

text \<open>The search ends from any state: a step discovers an instruction or removes one from the stack.\<close>

definition undiscovered :: "cfg \<Rightarrow> nat" where
  "undiscovered s = card {i. i < length (insn_state s) \<and> insn_state s ! i = 0}"

lemma discovered_or [simp]: "DISCOVERED OR e \<noteq> 0"
  unfolding or_eq_0_iff by simp

lemma undiscovered_le:
  assumes "length xs = length (insn_state s)" and "\<And>i. i < length xs \<Longrightarrow> xs ! i = 0 \<Longrightarrow> insn_state s ! i = 0"
  shows "undiscovered (s\<lparr>insn_state := xs\<rparr>) \<le> undiscovered s"
  unfolding undiscovered_def by (rule card_mono) (use assms in auto)

lemma undiscovered_less:
  assumes "length xs = length (insn_state s)" and "\<And>i. i < length xs \<Longrightarrow> xs ! i = 0 \<Longrightarrow> insn_state s ! i = 0"
    and "w < length xs" and "insn_state s ! w = 0" and "xs ! w \<noteq> 0"
  shows "undiscovered (s\<lparr>insn_state := xs\<rparr>) < undiscovered s"
proof -
  have "w \<in> {i. i < length (insn_state s) \<and> insn_state s ! i = 0} - {i. i < length xs \<and> xs ! i = 0}"
    using assms by simp
  moreover have "{i. i < length xs \<and> xs ! i = 0} \<subseteq> {i. i < length (insn_state s) \<and> insn_state s ! i = 0}"
    using assms(1,2) by auto
  ultimately have "{i. i < length xs \<and> xs ! i = 0} \<subset> {i. i < length (insn_state s) \<and> insn_state s ! i = 0}" by blast
  then show ?thesis unfolding undiscovered_def by (simp add: psubset_card_mono)
qed

lemma undiscovered_cong [simp]:
  "undiscovered (s\<lparr>marks := m\<rparr>) = undiscovered s"
  "undiscovered (s\<lparr>insn_stack := st\<rparr>) = undiscovered s"
  by (simp_all add: undiscovered_def)

lemma nth_update_zero: "y \<noteq> 0 \<Longrightarrow> i < length xs \<Longrightarrow> xs[t := y] ! i = (0 :: nat) \<Longrightarrow> xs ! i = 0"
  by (cases "i = t") auto

lemma push_insn_measure:
  "push_insn len t w e s = Ok (True, s') \<Longrightarrow> undiscovered s' < undiscovered s"
  "push_insn len t w e s = Ok (False, s') \<Longrightarrow> undiscovered s' \<le> undiscovered s \<and> insn_stack s' = insn_stack s"
proof -
  have *: "undiscovered (s\<lparr>insn_state := (insn_state s)[t := DISCOVERED OR e, nat w := DISCOVERED]\<rparr>) < undiscovered s"
    if "nat w < length (insn_state s)" "insn_state s ! nat w = 0" for s :: cfg
    by (rule undiscovered_less [where w = "nat w"]) (use that in \<open>auto simp: nth_list_update split: if_splits intro: nth_update_zero [OF discovered_or]\<close>)
  show "push_insn len t w e s = Ok (True, s') \<Longrightarrow> undiscovered s' < undiscovered s"
    using * [of s] * [of "s\<lparr>marks := (marks s)[nat w := True]\<rparr>"]
    by (auto simp: push_insn_def Let_def split: if_splits)
  have **: "undiscovered (s\<lparr>insn_state := (insn_state s)[t := DISCOVERED OR e]\<rparr>) \<le> undiscovered s" for s :: cfg
    by (rule undiscovered_le) (auto intro: nth_update_zero [OF discovered_or])
  show "push_insn len t w e s = Ok (False, s') \<Longrightarrow> undiscovered s' \<le> undiscovered s \<and> insn_stack s' = insn_stack s"
    using ** [of s] ** [of "s\<lparr>marks := (marks s)[nat w := True]\<rparr>"]
    by (auto simp: push_insn_def Let_def split: if_splits)
qed

lemma visit_measure:
  "visit insns t s = Ok (True, s') \<Longrightarrow> undiscovered s' < undiscovered s"
  "visit insns t s = Ok (False, s') \<Longrightarrow> undiscovered s' \<le> undiscovered s \<and> insn_stack s' = insn_stack s"
  by (force simp: visit_def Let_def dest: push_insn_measure split: if_splits)+

definition mark_explored :: "nat \<Rightarrow> cfg \<Rightarrow> cfg" where
  "mark_explored t s = s\<lparr>insn_state := (insn_state s)[t := EXPLORED], insn_stack := tl (insn_stack s)\<rparr>"

function cfg_loop :: "bpf_insn list \<Rightarrow> cfg \<Rightarrow> cfg result" where
  "cfg_loop insns s =
     (case insn_stack s of
        [] \<Rightarrow> Ok s
      | t # _ \<Rightarrow>
          (case visit insns t s of
             Ok (True, s') \<Rightarrow> cfg_loop insns s'
           | Ok (False, s') \<Rightarrow> cfg_loop insns (mark_explored t s')
           | Err e \<Rightarrow> Err e
           | Undef u \<Rightarrow> Undef u))"
  by pat_completeness auto
termination
proof (relation "measures [\<lambda>(insns, s). undiscovered s, \<lambda>(insns, s). length (insn_stack s)]", goal_cases)
  case 1 show ?case by simp
next
  case (2 insns s t st s') then show ?case using visit_measure(1) by simp
next
  case (3 insns s t st ps pushed s')
  then have v: "undiscovered s' \<le> undiscovered s \<and> insn_stack s' = insn_stack s" using visit_measure(2) by simp
  have "undiscovered (mark_explored t s') \<le> undiscovered s'"
    unfolding mark_explored_def by simp (rule undiscovered_le, auto intro: nth_update_zero [of EXPLORED, simplified])
  with v 3 show ?case by (auto simp: mark_explored_def)
qed

declare cfg_loop.simps [simp del]

text \<open>\<open>kcalloc\<close> of zero elements returns an address that cannot be written to.\<close>

definition check_cfg :: "bool \<Rightarrow> bool \<Rightarrow> bpf_insn list \<Rightarrow> bool list \<Rightarrow> bool list result" where
  "check_cfg ok1 ok2 insns explored_states =
     (let insn_cnt = length insns in
      if \<not> ok1 \<or> \<not> ok2 then Err ENOMEM
      else if insn_cnt = 0 then Undef BadMem
      else
        rbind (cfg_loop insns \<lparr>insn_state = (replicate insn_cnt 0)[0 := DISCOVERED], insn_stack = [0], marks = explored_states\<rparr>)
          (\<lambda>s. if list_all (\<lambda>x. x = EXPLORED) (insn_state s) then Ok (marks s) else Err EINVAL))"


section \<open>Specification\<close>

text \<open>The positions control can reach from an instruction in one step, in the order the search labels them.\<close>

definition succs :: "bpf_insn list \<Rightarrow> nat \<Rightarrow> int list" where
  "succs insns t =
     (let i = insns ! t; opcode = BPF_OP (bi_code i) in
      if BPF_CLASS (bi_code i) = BPF_JMP then
        (if opcode = BPF_EXIT then []
         else if opcode = BPF_CALL then [int t + 1]
         else if opcode = BPF_JA then [int t + sint (bi_off i) + 1]
         else [int t + 1, int t + sint (bi_off i) + 1])
      else [int t + 1])"

definition ja_ok :: "bpf_insn list \<Rightarrow> nat \<Rightarrow> bool" where
  "ja_ok insns t \<longleftrightarrow>
     (BPF_CLASS (bi_code (insns ! t)) = BPF_JMP \<and> BPF_OP (bi_code (insns ! t)) = BPF_JA
      \<longrightarrow> BPF_SRC (bi_code (insns ! t)) = BPF_K)"

definition edges :: "bpf_insn list \<Rightarrow> (nat \<times> nat) set" where
  "edges insns = {(t, w). t < length insns \<and> int w \<in> set (succs insns t)}"

text \<open>The programs the check is meant to accept.\<close>

definition cfg_ok :: "bpf_insn list \<Rightarrow> bool" where
  "cfg_ok insns \<longleftrightarrow>
     (\<forall>t < length insns. ja_ok insns t \<and> (\<forall>w \<in> set (succs insns t). 0 \<le> w \<and> w < int (length insns))) \<and>
     (\<forall>t < length insns. (0, t) \<in> (edges insns)\<^sup>*) \<and> acyclic (edges insns)"

text \<open>
  The explored instructions in the order of their completion, the latest first, are sorted
  topologically: every successor was completed before.
\<close>

fun topo :: "bpf_insn list \<Rightarrow> nat list \<Rightarrow> bool" where
  "topo insns [] = True"
| "topo insns (t # fin) =
     (t < length insns \<and> t \<notin> set fin \<and> ja_ok insns t \<and> set (succs insns t) \<subseteq> int ` set fin \<and> topo insns fin)"

lemma topo_succs: "topo insns fin \<Longrightarrow> t \<in> set fin \<Longrightarrow> t < length insns \<and> ja_ok insns t \<and> set (succs insns t) \<subseteq> int ` set fin"
  by (induction fin) auto

fun rank :: "nat list \<Rightarrow> nat \<Rightarrow> nat" where
  "rank [] t = 0"
| "rank (x # fin) t = (if x = t then length fin else rank fin t)"

lemma rank_less: "t \<in> set fin \<Longrightarrow> rank fin t < length fin"
  by (induction fin) (auto intro: less_SucI)

lemma topo_rank: "topo insns fin \<Longrightarrow> t \<in> set fin \<Longrightarrow> int w \<in> set (succs insns t) \<Longrightarrow> rank fin w < rank fin t"
proof (induction fin)
  case (Cons x fin)
  show ?case
  proof (cases "x = t")
    case True
    then have "w \<in> set fin" "w \<noteq> x" using Cons.prems by auto
    then show ?thesis using True rank_less by simp
  next
    case False
    then have t: "t \<in> set fin" using Cons.prems by simp
    then have "int w \<in> int ` set fin" using topo_succs [of insns fin t] Cons.prems by auto
    then have "w \<noteq> x" using Cons.prems(1) by auto
    then show ?thesis using Cons t False by simp
  qed
qed simp

lemma topo_acyclic:
  assumes "topo insns fin" and "{..< length insns} \<subseteq> set fin"
  shows "acyclic (edges insns)"
proof -
  have "edges insns \<subseteq> (measure (rank fin))\<inverse>"
    using assms topo_rank by (fastforce simp: edges_def)
  then have "(edges insns)\<inverse> \<subseteq> measure (rank fin)" by blast
  then have "wf ((edges insns)\<inverse>)" by (rule wf_subset [OF wf_measure])
  then show ?thesis using wf_acyclic acyclic_converse by blast
qed

section \<open>The invariant of the search\<close>

text \<open>The successors the state of an instruction says are labelled.\<close>

definition labelled :: "bpf_insn list \<Rightarrow> nat list \<Rightarrow> nat \<Rightarrow> int set" where
  "labelled insns st t = set (take (st ! t - DISCOVERED) (succs insns t))"

text \<open>The stack is a path, and labelled successors are explored or the next instruction on the path.\<close>

fun path_ok :: "bpf_insn list \<Rightarrow> nat list \<Rightarrow> nat set \<Rightarrow> nat set \<Rightarrow> nat list \<Rightarrow> bool" where
  "path_ok insns st fin nxt [] = True"
| "path_ok insns st fin nxt (t # stk) =
     (labelled insns st t \<subseteq> int ` (fin \<union> nxt) \<and>
      (case stk of [] \<Rightarrow> True | p # _ \<Rightarrow> (p, t) \<in> edges insns) \<and> path_ok insns st fin {t} stk)"

definition gray :: "nat \<Rightarrow> bool" where
  "gray v \<longleftrightarrow> v \<in> {0x10, 0x11, 0x12}"

lemma gray_simps [simp]: "gray 0x10" "j < 2 \<Longrightarrow> gray (17 + j)" "\<not> gray 0x20" "\<not> gray 0"
  by (auto simp: gray_def)

lemma gray_pos: "gray v \<Longrightarrow> 0 < v"
  by (auto simp: gray_def)

definition cfg_inv :: "bpf_insn list \<Rightarrow> cfg \<Rightarrow> nat list \<Rightarrow> bool" where
  "cfg_inv insns s fin \<longleftrightarrow>
     length (insn_state s) = length insns \<and>
     topo insns fin \<and> set fin = {t. t < length insns \<and> insn_state s ! t = EXPLORED} \<and>
     distinct (insn_stack s) \<and>
     set (insn_stack s) = {t. t < length insns \<and> gray (insn_state s ! t)} \<and>
     (\<forall>t < length insns. insn_state s ! t = 0 \<or> gray (insn_state s ! t) \<or> insn_state s ! t = EXPLORED) \<and>
     path_ok insns (insn_state s) (set fin) {} (insn_stack s) \<and>
     insns \<noteq> [] \<and> insn_state s ! 0 \<noteq> 0 \<and>
     (\<forall>t < length insns. insn_state s ! t \<noteq> 0 \<longrightarrow> (0, t) \<in> (edges insns)\<^sup>*)"

lemma path_ok_reach: "path_ok insns st fin nxt (t # stk) \<Longrightarrow> w \<in> set (t # stk) \<Longrightarrow> (w, t) \<in> (edges insns)\<^sup>*"
proof (induction stk arbitrary: nxt t)
  case (Cons p stk)
  show ?case
  proof (cases "w = t")
    case False
    then have "(w, p) \<in> (edges insns)\<^sup>*" using Cons.IH [of "{t}" p] Cons.prems by auto
    then show ?thesis using Cons.prems(1) by (auto intro: rtrancl_into_rtrancl)
  qed simp
qed auto

lemma path_ok_cong:
  assumes "\<And>x. x \<in> set stk \<Longrightarrow> labelled insns st' x = labelled insns st x"
  shows "path_ok insns st' fin nxt stk = path_ok insns st fin nxt stk"
  using assms by (induction stk arbitrary: nxt) auto

lemma path_ok_explored:
  assumes "path_ok insns st fin {t} stk"
  shows "path_ok insns st (insert t fin) {} stk"
proof -
  have mono: "path_ok insns st fin nxt stk \<Longrightarrow> fin \<subseteq> fin' \<Longrightarrow> path_ok insns st fin' nxt stk" for nxt stk fin'
    by (induction stk arbitrary: nxt) (auto, blast)
  show ?thesis using assms mono [of "{t}" stk "insert t fin"] by (cases stk) auto
qed


lemma cfg_inv_marks [simp]:
  "cfg_inv insns (s\<lparr>marks := m\<rparr>) fin = cfg_inv insns s fin"
  "cfg_inv insns (s\<lparr>marks := m, insn_state := st\<rparr>) fin = cfg_inv insns (s\<lparr>insn_state := st\<rparr>) fin"
  "cfg_inv insns (s\<lparr>marks := m, insn_state := st, insn_stack := stk\<rparr>) fin
     = cfg_inv insns (s\<lparr>insn_state := st, insn_stack := stk\<rparr>) fin"
  by (simp_all add: cfg_inv_def)

lemma discovered_branch [simp]: "DISCOVERED OR Suc (Suc 0) = 0x12"
  by (simp add: numeral_2_eq_2 [symmetric])

lemma length_succs: "length (succs insns t) \<le> 2"
  by (simp add: succs_def Let_def)

lemma cfg_inv_top:
  assumes "cfg_inv insns s fin" and "insn_stack s = t # stk"
  shows "t < length insns" and "gray (insn_state s ! t)" and "t \<notin> set stk" and "t \<notin> set fin"
    and "labelled insns (insn_state s) t \<subseteq> int ` set fin"
    and "path_ok insns (insn_state s) (set fin) {t} stk"
    and "length (insn_stack s) \<le> length insns"
proof -
  have "t \<in> set (insn_stack s)" using assms(2) by simp
  then show a: "t < length insns" and b: "gray (insn_state s ! t)" using assms(1) by (auto simp: cfg_inv_def)
  show "t \<notin> set stk" "labelled insns (insn_state s) t \<subseteq> int ` set fin" "path_ok insns (insn_state s) (set fin) {t} stk"
    using assms by (auto simp: cfg_inv_def)
  show "t \<notin> set fin" using assms b by (auto simp: cfg_inv_def)
  have "set (insn_stack s) \<subseteq> {..< length insns}" using assms(1) by (auto simp: cfg_inv_def)
  then have "card (set (insn_stack s)) \<le> card {..< length insns}" by (intro card_mono) auto
  moreover have "distinct (insn_stack s)" using assms(1) by (simp add: cfg_inv_def)
  ultimately show "length (insn_stack s) \<le> length insns" by (simp add: distinct_card)
qed

lemma labelled_update_other [simp]: "x \<noteq> t \<Longrightarrow> labelled insns (st[t := v]) x = labelled insns st x"
  by (simp add: labelled_def)

lemma path_ok_update [simp]: "t \<notin> set stk \<Longrightarrow> path_ok insns (st[t := v]) fin nxt stk = path_ok insns st fin nxt stk"
  by (rule path_ok_cong) (metis labelled_update_other)

lemma labelled_update_Suc:
  assumes "t < length st" and "st ! t = DISCOVERED + j" and "j < length (succs insns t)"
  shows "labelled insns (st[t := DISCOVERED + Suc j]) t = insert (succs insns t ! j) (labelled insns st t)"
  using assms by (auto simp: labelled_def take_Suc_conv_app_nth)

lemma cfg_inv_relabel:
  assumes inv: "cfg_inv insns s fin" and stk: "insn_stack s = t # stk"
    and j: "insn_state s ! t = DISCOVERED + j" "j < length (succs insns t)" and w: "succs insns t ! j \<in> int ` set fin"
  shows "cfg_inv insns (s\<lparr>insn_state := (insn_state s)[t := DISCOVERED + Suc j]\<rparr>) fin"
proof -
  note top = cfg_inv_top [OF inv stk]
  have len: "length (insn_state s) = length insns" using inv by (simp add: cfg_inv_def)
  have j2: "j < 2" using j(2) length_succs [of insns t] by linarith
  let ?st = "(insn_state s)[t := DISCOVERED + Suc j]"
  have "path_ok insns ?st (set fin) {t} stk"
    using top(3,6) by simp
  then have "path_ok insns ?st (set fin) {} (t # stk)"
    using top(5) w inv stk labelled_update_Suc [of t "insn_state s" j insns] top(1) len j
    by (auto simp: cfg_inv_def split: list.splits)
  moreover have "gray (?st ! x) = gray (insn_state s ! x)" "?st ! x = EXPLORED \<longleftrightarrow> insn_state s ! x = EXPLORED"
    "?st ! x = 0 \<longleftrightarrow> insn_state s ! x = 0" if "x < length insns" for x
    using that j(1) j2 len top(1,2) by (auto simp: nth_list_update)
  ultimately show ?thesis using inv stk by (simp add: cfg_inv_def cong: conj_cong)
qed

lemma cfg_inv_push:
  assumes inv: "cfg_inv insns s fin" and stk: "insn_stack s = t # stk"
    and j: "insn_state s ! t = DISCOVERED + j" "j < length (succs insns t)" and w: "succs insns t ! j = int w" "w < length insns"
    and w0: "insn_state s ! w = 0"
  shows "cfg_inv insns (s\<lparr>insn_state := (insn_state s)[t := DISCOVERED + Suc j, w := DISCOVERED], insn_stack := w # t # stk\<rparr>) fin"
    (is "cfg_inv insns ?s fin")
proof -
  note top = cfg_inv_top [OF inv stk]
  have len: "length (insn_state s) = length insns" using inv by (simp add: cfg_inv_def)
  have j2: "j < 2" using j(2) length_succs [of insns t] by linarith
  let ?st = "(insn_state s)[t := DISCOVERED + Suc j, w := DISCOVERED]"
  have wt: "w \<noteq> t" using w0 j(1) by auto
  have wstk: "w \<notin> set stk" using inv stk w0 by (auto simp: cfg_inv_def)
  have e: "(t, w) \<in> edges insns" using top(1) w j(2) nth_mem [OF j(2)] by (auto simp: edges_def)
  have "path_ok insns ?st (set fin) {t} stk"
    using top(3,6) wstk by simp
  moreover have "labelled insns ?st t = insert (int w) (labelled insns (insn_state s) t)"
    using labelled_update_Suc [of t "insn_state s" j insns] top(1) len j w(1) wt by auto
  moreover have "labelled insns ?st w = {}" using w(2) len by (simp add: labelled_def)
  ultimately have "path_ok insns ?st (set fin) {} (w # t # stk)"
    using top(5) inv stk e by (auto simp: cfg_inv_def)
  moreover have st: "gray (?st ! x) \<longleftrightarrow> x = w \<or> gray (insn_state s ! x)" "?st ! x = EXPLORED \<longleftrightarrow> insn_state s ! x = EXPLORED"
    "?st ! x = 0 \<longleftrightarrow> x \<noteq> w \<and> insn_state s ! x = 0" if "x < length insns" for x
    using that j(1) j2 len top(1,2) w0 w(2) by (auto simp: nth_list_update)
  moreover have "{x. x < length insns \<and> gray (?st ! x)} = insert w {x. x < length insns \<and> gray (insn_state s ! x)}"
    using st w(2) by blast
  moreover have "(0, w) \<in> (edges insns)\<^sup>*"
    using inv top(1) j(1) e by (auto simp: cfg_inv_def intro: rtrancl_into_rtrancl)
  ultimately show ?thesis using inv stk wstk wt w(2) w0 by (simp add: cfg_inv_def cong: conj_cong) blast
qed

lemma cfg_inv_explored:
  assumes inv: "cfg_inv insns s fin" and stk: "insn_stack s = t # stk"
    and lab: "insn_state s ! t \<ge> DISCOVERED + length (succs insns t)" and ja: "ja_ok insns t"
  shows "cfg_inv insns (mark_explored t s) (t # fin)"
proof -
  note top = cfg_inv_top [OF inv stk]
  have len: "length (insn_state s) = length insns" using inv by (simp add: cfg_inv_def)
  let ?st = "(insn_state s)[t := EXPLORED]"
  have "path_ok insns ?st (set (t # fin)) {} stk"
    using path_ok_explored [OF top(6)] top(3) by simp
  moreover have "labelled insns (insn_state s) t = set (succs insns t)" using lab by (simp add: labelled_def)
  moreover have st: "gray (?st ! x) \<longleftrightarrow> x \<noteq> t \<and> gray (insn_state s ! x)" "?st ! x = EXPLORED \<longleftrightarrow> x = t \<or> insn_state s ! x = EXPLORED"
    "?st ! x = 0 \<longleftrightarrow> insn_state s ! x = 0" if "x < length insns" for x
    using that top(1) gray_pos [OF top(2)] len by (auto simp: nth_list_update)
  moreover have "set stk = {x. x < length insns \<and> gray (?st ! x)}"
  proof -
    have "set (insn_stack s) - {t} = {x. x < length insns \<and> gray (?st ! x)}" using inv st by (auto simp: cfg_inv_def)
    then show ?thesis using stk top(3) by simp
  qed
  moreover have "insert t (set fin) = {x. x < length insns \<and> ?st ! x = EXPLORED}"
    using inv st top(1) by (auto simp: cfg_inv_def)
  ultimately show ?thesis using inv stk top ja by (simp add: cfg_inv_def mark_explored_def) blast
qed


text \<open>What a step of the search may return: it keeps the invariant, or the program is bad.\<close>

fun step_ok :: "bpf_insn list \<Rightarrow> nat \<Rightarrow> nat list \<Rightarrow> nat list \<Rightarrow> nat \<Rightarrow> (bool \<times> cfg) result \<Rightarrow> bool" where
  "step_ok insns t stk fin k (Ok (True, s)) = cfg_inv insns s fin"
| "step_ok insns t stk fin k (Ok (False, s)) = (cfg_inv insns s fin \<and> insn_stack s = t # stk \<and> insn_state s ! t \<ge> DISCOVERED + k)"
| "step_ok insns t stk fin k (Err x) = (x = EINVAL \<and> \<not> cfg_ok insns)"
| "step_ok insns t stk fin k (Undef u) = False"

lemma back_edge_bad:
  assumes "cfg_inv insns s fin" and "insn_stack s = t # stk" and "(t, w) \<in> edges insns" and "w \<in> set (insn_stack s)"
  shows "\<not> cfg_ok insns"
proof -
  have "path_ok insns (insn_state s) (set fin) {} (insn_stack s)" using assms(1) unfolding cfg_inv_def by blast
  then have "(w, t) \<in> (edges insns)\<^sup>*" using path_ok_reach assms(2,4) by metis
  then have "(t, t) \<in> (edges insns)\<^sup>+" using assms(3) by (meson rtrancl_into_trancl2)
  then show ?thesis by (auto simp: cfg_ok_def acyclic_def)
qed

lemma gray_cases: "gray v \<Longrightarrow> (v AND 0xF0 = DISCOVERED)"
  by (auto simp: gray_def)

lemma push_insn_inv:
  assumes inv: "cfg_inv insns s fin" and stk: "insn_stack s = t # stk"
    and j: "j < length (succs insns t)" "insn_state s ! t \<ge> DISCOVERED + j" and w: "w = succs insns t ! j"
  shows "step_ok insns t stk fin (Suc j) (push_insn (length insns) t w (Suc j) s)"
proof -
  note top = cfg_inv_top [OF inv stk]
  have len: "length (insn_state s) = length insns" using inv by (simp add: cfg_inv_def)
  have j2: "j = 0 \<or> j = 1" using j(1) length_succs [of insns t] by linarith
  have or: "DISCOVERED OR Suc j = DISCOVERED + Suc j" using j2 by (auto simp: numeral_2_eq_2 [symmetric])
  have ws: "w \<in> set (succs insns t)" using w j(1) by simp
  consider (lab) "insn_state s ! t \<ge> DISCOVERED + Suc j" | (out) "insn_state s ! t = DISCOVERED + j" "w < 0 \<or> w \<ge> int (length insns)"
    | (fresh) "insn_state s ! t = DISCOVERED + j" "0 \<le> w" "nat w < length insns" "insn_state s ! nat w = 0"
    | (gray) "insn_state s ! t = DISCOVERED + j" "0 \<le> w" "nat w < length insns" "gray (insn_state s ! nat w)"
    | (explored) "insn_state s ! t = DISCOVERED + j" "0 \<le> w" "nat w < length insns" "insn_state s ! nat w = EXPLORED"
  proof (cases "insn_state s ! t = DISCOVERED + j")
    case True
    show ?thesis
    proof (cases "w < 0 \<or> w \<ge> int (length insns)")
      case False
      then have r: "0 \<le> w" "nat w < length insns" by linarith+
      then have "insn_state s ! nat w = 0 \<or> gray (insn_state s ! nat w) \<or> insn_state s ! nat w = EXPLORED"
        using inv unfolding cfg_inv_def by blast
      then show ?thesis by (elim disjE) (rule that(3,4,5) [OF True r], assumption)+
    qed (rule that(2) [OF True])
  qed (rule that(1), use j(2) in simp)
  then show ?thesis
  proof cases
    case lab
    from lab show ?thesis using j2 inv stk top(1) len by (auto simp: push_insn_def)
  next
    case out
    then have "\<not> cfg_ok insns" using top(1) ws by (force simp: cfg_ok_def)
    then show ?thesis using out j2 top(1) len by (auto simp: push_insn_def)
  next
    case fresh
    have inv': "cfg_inv insns (s\<lparr>insn_state := (insn_state s)[t := DISCOVERED + Suc j, nat w := DISCOVERED], insn_stack := nat w # t # stk\<rparr>) fin"
      by (rule cfg_inv_push [OF inv stk]) (use fresh j(1) w in auto)
    then have "length (nat w # t # stk) \<le> length insns" using cfg_inv_top(7) [OF inv'] by simp
    then have "\<not> length (insn_stack s) \<ge> length insns" using stk by simp
    then show ?thesis using fresh j2 inv' stk top(1) len by (auto simp: push_insn_def Let_def)
  next
    case gray
    have "(t, nat w) \<in> edges insns" using ws gray(2) top(1) by (simp add: edges_def)
    moreover have "nat w \<in> set (insn_stack s)" using gray(3,4) inv by (simp add: cfg_inv_def)
    ultimately have "\<not> cfg_ok insns" using back_edge_bad [OF inv stk] by blast
    then show ?thesis using gray gray_pos [OF gray(4)] gray_cases [OF gray(4)] j2 top(1) len by (auto simp: push_insn_def Let_def)
  next
    case explored
    have "nat w \<in> set fin" using explored(3,4) inv by (simp add: cfg_inv_def)
    then have "w \<in> int ` set fin" using explored(2) by (metis image_eqI int_nat_eq)
    then have inv': "cfg_inv insns (s\<lparr>insn_state := (insn_state s)[t := DISCOVERED + Suc j]\<rparr>) fin"
      using cfg_inv_relabel [OF inv stk explored(1) j(1)] w by simp
    then show ?thesis using explored j2 stk top(1) len by (auto simp: push_insn_def Let_def)
  qed
qed

lemma step_ok_bind:
  assumes "step_ok insns t stk fin k r"
    and "\<And>s. cfg_inv insns s fin \<Longrightarrow> insn_stack s = t # stk \<Longrightarrow> insn_state s ! t \<ge> DISCOVERED + k \<Longrightarrow> step_ok insns t stk fin k' (f s)"
  shows "step_ok insns t stk fin k' (rbind r (\<lambda>(pushed, s). if pushed then Ok (True, s) else f s))"
proof (cases r)
  case (Ok p)
  then show ?thesis using assms by (cases p; cases "fst p") auto
qed (use assms(1) in auto)

lemma visit_inv:
  assumes inv: "cfg_inv insns s fin" and stk: "insn_stack s = t # stk"
  shows "step_ok insns t stk fin (length (succs insns t)) (visit insns t s) \<and> (is_ok (visit insns t s) \<longrightarrow> ja_ok insns t)"
proof -
  note top = cfg_inv_top [OF inv stk]
  have ge: "insn_state s ! t \<ge> DISCOVERED" using top(2) by (auto simp: gray_def)
  let ?i = "insns ! t" and ?n = "length insns"
  have first: "step_ok insns t stk fin 1 (push_insn ?n t w FALLTHROUGH s)" if "w = succs insns t ! 0" "succs insns t \<noteq> []" for w
    using push_insn_inv [OF inv stk, of 0 w] that ge by simp
  consider (exit) "BPF_CLASS (bi_code ?i) = BPF_JMP" "BPF_OP (bi_code ?i) = BPF_EXIT" "succs insns t = []"
    | (fall) "succs insns t = [int t + 1]" "visit insns t s = push_insn ?n t (int t + 1) FALLTHROUGH s" "ja_ok insns t"
    | (ja) "BPF_CLASS (bi_code ?i) = BPF_JMP" "BPF_OP (bi_code ?i) = BPF_JA" "succs insns t = [int t + sint (bi_off ?i) + 1]"
    | (cond) "succs insns t = [int t + 1, int t + sint (bi_off ?i) + 1]" "ja_ok insns t"
        "visit insns t s = rbind (push_insn ?n t (int t + 1) FALLTHROUGH s) (\<lambda>(pushed, s).
           if pushed then Ok (True, s) else push_insn ?n t (int t + sint (bi_off ?i) + 1) BRANCH s)"
  proof (cases "BPF_CLASS (bi_code ?i) = BPF_JMP")
    case True
    consider "BPF_OP (bi_code ?i) = BPF_EXIT" | "BPF_OP (bi_code ?i) = BPF_CALL" | "BPF_OP (bi_code ?i) = BPF_JA"
      | "BPF_OP (bi_code ?i) \<noteq> BPF_EXIT" "BPF_OP (bi_code ?i) \<noteq> BPF_CALL" "BPF_OP (bi_code ?i) \<noteq> BPF_JA" by blast
    then show ?thesis
    proof cases
      case 1 then show ?thesis using that(1) True by (simp add: succs_def Let_def)
    next
      case 2 then show ?thesis using that(2) True top(1) by (simp add: succs_def visit_def Let_def ja_ok_def)
    next
      case 3 then show ?thesis using that(3) True by (simp add: succs_def Let_def)
    next
      case 4 then show ?thesis using that(4) True top(1) by (simp add: succs_def visit_def Let_def ja_ok_def)
    qed
  next
    case False
    then show ?thesis using that(2) top(1) by (simp add: succs_def visit_def Let_def ja_ok_def)
  qed
  then show ?thesis
  proof cases
    case exit
    then show ?thesis using inv stk ge top(1) by (simp add: visit_def ja_ok_def)
  next
    case fall
    then show ?thesis using first by simp
  next
    case ja
    show ?thesis
    proof (cases "BPF_SRC (bi_code ?i) = BPF_K")
      case True
      have "step_ok insns t stk fin 1 (visit insns t s)"
        using first [of "int t + sint (bi_off ?i) + 1"] ja True top(1)
        by (auto simp: visit_def Let_def intro!: step_ok_bind [where k = 1])
      then show ?thesis using True ja by (simp add: ja_ok_def)
    next
      case False
      then have "\<not> cfg_ok insns" using ja top(1) by (auto simp: cfg_ok_def ja_ok_def)
      then show ?thesis using False ja top(1) by (simp add: visit_def Let_def)
    qed
  next
    case cond
    have "step_ok insns t stk fin 2 (visit insns t s)" unfolding cond(3)
    proof (rule step_ok_bind [OF first])
      fix s' assume "cfg_inv insns s' fin" "insn_stack s' = t # stk" "insn_state s' ! t \<ge> DISCOVERED + 1"
      then show "step_ok insns t stk fin 2 (push_insn ?n t (int t + sint (bi_off ?i) + 1) BRANCH s')"
        using push_insn_inv [of insns s' fin t stk 1] cond(1) by (simp add: numeral_2_eq_2)
    qed (use cond in auto)
    then show ?thesis using cond by (simp add: numeral_2_eq_2)
  qed
qed


lemma cfg_loop_inv:
  assumes "cfg_inv insns s fin"
  shows "case cfg_loop insns s of
      Ok s' \<Rightarrow> \<exists>fin'. cfg_inv insns s' fin' \<and> insn_stack s' = []
    | Err x \<Rightarrow> x = EINVAL \<and> \<not> cfg_ok insns
    | Undef u \<Rightarrow> False"
  using assms
proof (induction insns s arbitrary: fin rule: cfg_loop.induct)
  case (1 insns s)
  show ?case
  proof (cases "insn_stack s")
    case Nil
    then show ?thesis using "1.prems" by (auto simp: cfg_loop.simps [of insns s])
  next
    case (Cons t stk)
    note v = visit_inv [OF "1.prems" Cons]
    show ?thesis
    proof (cases "visit insns t s")
      case (Ok p)
      obtain b s' where p: "p = (b, s')" by fastforce
      show ?thesis
      proof (cases b)
        case True
        then have "cfg_inv insns s' fin" using v Ok p by simp
        from "1.IH"(1) [OF Cons Ok p [symmetric] eqTrueI [OF True] this] show ?thesis
          using True Ok p Cons by (simp add: cfg_loop.simps [of insns s])
      next
        case False
        then have "cfg_inv insns (mark_explored t s') (t # fin)"
          using v Ok p cfg_inv_explored [of insns s' fin t stk] by simp
        from "1.IH"(2) [OF Cons Ok p [symmetric] iffD2 [OF eq_False False] this] show ?thesis
          using False Ok p Cons by (simp add: cfg_loop.simps [of insns s])
      qed
    qed (use v Cons in \<open>simp_all add: cfg_loop.simps [of insns s]\<close>)
  qed
qed

lemma cfg_inv_init:
  assumes "insns \<noteq> []"
  shows "cfg_inv insns \<lparr>insn_state = (replicate (length insns) 0)[0 := DISCOVERED], insn_stack = [0], marks = m\<rparr> []"
proof -
  have "(replicate (length insns) (0 :: nat))[0 := DISCOVERED] ! t = (if t = 0 then DISCOVERED else 0)" if "t < length insns" for t
    using that by (cases t) (auto simp: nth_list_update)
  then show ?thesis using assms by (auto simp: cfg_inv_def labelled_def split: if_splits)
qed

lemma explored_closed:
  assumes "cfg_inv insns s fin" and "insn_stack s = []" and "(0, t) \<in> (edges insns)\<^sup>*"
  shows "t \<in> set fin"
  using assms(3)
proof (induction rule: rtrancl_induct)
  case base
  show ?case using assms(1,2) by (auto simp: cfg_inv_def)
next
  case (step x y)
  then have "int y \<in> int ` set fin" using topo_succs [of insns fin x] assms(1) by (auto simp: cfg_inv_def edges_def)
  then show ?case by auto
qed

text \<open>When every instruction was explored the program is good, and the other way round.\<close>

lemma all_explored_iff:
  assumes inv: "cfg_inv insns s fin" and stk: "insn_stack s = []"
  shows "list_all (\<lambda>x. x = EXPLORED) (insn_state s) \<longleftrightarrow> cfg_ok insns"
proof
  assume "list_all (\<lambda>x. x = EXPLORED) (insn_state s)"
  then have all: "set fin = {..< length insns}" using inv by (auto simp: cfg_inv_def list_all_length)
  have topo: "topo insns fin" using inv by (simp add: cfg_inv_def)
  have "ja_ok insns t \<and> (\<forall>w \<in> set (succs insns t). 0 \<le> w \<and> w < int (length insns))" if "t < length insns" for t
    using topo_succs [OF topo, of t] that all by auto
  moreover have "(0, t) \<in> (edges insns)\<^sup>*" if "t < length insns" for t
    using inv that all unfolding cfg_inv_def by (metis (mono_tags, lifting) lessThan_iff mem_Collect_eq zero_neq_numeral)
  ultimately show "cfg_ok insns" using topo_acyclic [OF topo] all by (simp add: cfg_ok_def)
next
  assume ok: "cfg_ok insns"
  have "insn_state s ! t = EXPLORED" if "t < length insns" for t
  proof -
    have "t \<in> set fin" using explored_closed [OF inv stk] ok that by (simp add: cfg_ok_def)
    then show ?thesis using inv by (auto simp: cfg_inv_def)
  qed
  then show "list_all (\<lambda>x. x = EXPLORED) (insn_state s)" using inv by (simp add: list_all_length cfg_inv_def)
qed

lemma check_cfg_decides:
  assumes "insns \<noteq> []"
  shows "if cfg_ok insns then is_ok (check_cfg True True insns m) else check_cfg True True insns m = Err EINVAL"
proof -
  let ?s = "\<lparr>insn_state = (replicate (length insns) 0)[0 := DISCOVERED], insn_stack = [0], marks = m\<rparr>"
  note loop = cfg_loop_inv [OF cfg_inv_init [OF assms], of m]
  show ?thesis
  proof (cases "cfg_loop insns ?s")
    case (Ok s')
    then obtain fin where "cfg_inv insns s' fin" "insn_stack s' = []" using loop by auto
    then show ?thesis using all_explored_iff assms Ok by (auto simp: check_cfg_def Let_def)
  qed (use loop assms in \<open>auto simp: check_cfg_def Let_def\<close>)
qed


lemma cfg_ok_topo:
  assumes "insns \<noteq> []" and "cfg_ok insns"
  obtains fin where "topo insns fin" and "set fin = {..< length insns}" and "length fin = length insns"
proof -
  let ?s = "\<lparr>insn_state = (replicate (length insns) 0)[0 := DISCOVERED], insn_stack = [0], marks = []\<rparr>"
  obtain s' fin where s': "cfg_inv insns s' fin" "insn_stack s' = []"
    using cfg_loop_inv [OF cfg_inv_init [OF assms(1)], of "[]"] assms(2) by (auto split: result.splits)
  have topo: "topo insns fin" using s'(1) by (simp add: cfg_inv_def)
  have "set fin = {..< length insns}"
    using explored_closed [OF s'] topo_succs [OF topo] assms(2) by (auto simp: cfg_ok_def)
  moreover have "distinct fin" using topo by (induction fin) auto
  ultimately show ?thesis using that topo by (metis card_lessThan distinct_card)
qed

section \<open>The interpreter ends on accepted programs\<close>

text \<open>What the verifier establishes before the search: a 64-bit load has its second half.\<close>

definition ld_imm64_ok :: "bpf_insn list \<Rightarrow> bool" where
  "ld_imm64_ok insns \<longleftrightarrow>
     (\<forall>t < length insns. bi_code (insns ! t) = (BPF_LD OR BPF_IMM OR BPF_DW) \<longrightarrow>
        t + 1 < length insns \<and> bi_code (insns ! (t + 1)) = 0)"

fun flow_of :: "label \<Rightarrow> u8 \<Rightarrow> bool" where
  "flow_of (L_JMP JMP_EXIT) c = True"
| "flow_of (L_JMP JMP_CALL) c = (BPF_CLASS c = BPF_JMP \<and> BPF_OP c = BPF_CALL)"
| "flow_of (L_JMP JMP_TAIL_CALL) c = (BPF_CLASS c = BPF_JMP \<and> BPF_OP c = BPF_CALL)"
| "flow_of (L_JMP JMP_JA) c = (BPF_CLASS c = BPF_JMP \<and> BPF_OP c = BPF_JA)"
| "flow_of (L_JMP _) c = (BPF_CLASS c = BPF_JMP \<and> BPF_OP c \<noteq> BPF_JA \<and> BPF_OP c \<noteq> BPF_CALL \<and> BPF_OP c \<noteq> BPF_EXIT)"
| "flow_of (L_LD LD_IMM_DW) c = (c = BPF_LD OR BPF_IMM OR BPF_DW \<and> BPF_CLASS c \<noteq> BPF_JMP)"
| "flow_of default_label c = True"
| "flow_of _ c = (BPF_CLASS c \<noteq> BPF_JMP)"

lemma jumptable_flow: "flow_of (jumptable c) c"
proof -
  have "list_all (\<lambda>(c, l). flow_of l c) jumptable_entries"
    by (simp add: jumptable_entries_def bpf_fields)
  then show ?thesis by (auto simp: jumptable_def list_all_iff split: option.splits dest!: map_of_SomeD)
qed


text \<open>One step moves along the flow graph, or enters the program of a tail call.\<close>

definition same_prog :: "bpf_state \<Rightarrow> bpf_state \<Rightarrow> int \<Rightarrow> bool" where
  "same_prog st st' pc \<longleftrightarrow> insn_prog st' = insn_prog st \<and> tail_call_cnt st' = tail_call_cnt st \<and> insn_pc st' = pc"

lemma obind_eq_Cont: "obind r f = Cont st' \<longleftrightarrow> (\<exists>x. r = Ok x \<and> f x = Cont st')"
  by (cases r) auto

lemma CONT_same_prog: "CONT (st\<lparr>insn_pc := pc\<rparr>) = Cont st' \<Longrightarrow> same_prog st st' (pc + 1)"
  "CONT st = Cont st' \<Longrightarrow> same_prog st st' (insn_pc st + 1)"
  "CONT (set_reg r v st) = Cont st' \<Longrightarrow> same_prog st st' (insn_pc st + 1)"
  "CONT (st\<lparr>memory := m\<rparr>) = Cont st' \<Longrightarrow> same_prog st st' (insn_pc st + 1)"
  "CONT (set_reg r v (st\<lparr>memory := m\<rparr>)) = Cont st' \<Longrightarrow> same_prog st st' (insn_pc st + 1)"
  "CONT (set_reg r v st\<lparr>insn_pc := pc\<rparr>) = Cont st' \<Longrightarrow> same_prog st st' (pc + 1)"
  by (auto simp: CONT_def set_reg_def same_prog_def)

lemma exec_alu_flow: "exec_alu l i st = Cont st' \<Longrightarrow> same_prog st st' (insn_pc st + 1)"
  by (cases l) (auto simp: obind_eq_Cont Let_def split: if_splits intro: CONT_same_prog)

lemma exec_mem_flow: "exec_mem l i st = Cont st' \<Longrightarrow> same_prog st st' (insn_pc st + 1)"
  by (cases l) (auto simp: store_cont_def Let_def split: option.splits intro: CONT_same_prog)

lemma load_skb_flow: "load_skb env sz off st = Cont st' \<Longrightarrow> same_prog st st' (insn_pc st + 1)"
  by (auto simp: load_skb_def obind_eq_Cont split: option.splits intro: CONT_same_prog)

lemma exec_ld_flow:
  assumes "exec_ld env l i st = Cont st'"
  shows "same_prog st st' (if l = LD_IMM_DW then insn_pc st + 2 else insn_pc st + 1)"
proof (cases l)
  case LD_IMM_DW
  then have "CONT (set_reg (bi_dst i) (ucast (bi_imm i) OR push_bit 32 (ucast (bi_imm (insn_prog st ! nat (insn_pc st + 1))))) st
      \<lparr>insn_pc := insn_pc st + 1\<rparr>) = Cont st'" using assms by (simp split: if_splits)
  from CONT_same_prog(6) [OF this] show ?thesis using LD_IMM_DW by (simp add: add.commute)
qed (use assms load_skb_flow in auto)

text \<open>The effect of a tail call.\<close>

definition tail_step :: "bpf_env \<Rightarrow> bpf_state \<Rightarrow> bpf_state \<Rightarrow> bool" where
  "tail_step env st st' \<longleftrightarrow> tail_call_cnt st \<le> MAX_TAIL_CALL_CNT \<and> tail_call_cnt st' = tail_call_cnt st + 1 \<and>
     (insn_prog st' = insn_prog st \<and> insn_pc st' = insn_pc st + 1 \<or>
      insn_pc st' = 0 \<and> (\<exists>a max ptrs index. env_array env a = Some (max, ptrs) \<and> ptrs index = Some (insn_prog st')))"

lemma exec_tail_call_flow:
  assumes "exec_jmp env JMP_TAIL_CALL i st = Cont st'"
  shows "same_prog st st' (insn_pc st + 1) \<or> tail_step env st st'"
  using assms
  by (auto simp: Let_def not_le not_less tail_step_def same_prog_def CONT_def split: option.splits if_splits)

lemma cfg_edge:
  assumes "cfg_ok insns" and "t < length insns" and "w \<in> set (succs insns t)"
  shows "0 \<le> w \<and> nat w < length insns \<and> (t, nat w) \<in> (edges insns)\<^sup>+"
proof -
  have "0 \<le> w \<and> w < int (length insns)" using assms by (auto simp: cfg_ok_def)
  then show ?thesis using assms by (auto simp: edges_def)
qed

lemma edges_range: "cfg_ok insns \<Longrightarrow> (t, w) \<in> edges insns \<Longrightarrow> w < length insns"
  unfolding cfg_ok_def edges_def by fastforce

lemma select_insn_flow:
  assumes ok: "cfg_ok (insn_prog st)" "ld_imm64_ok (insn_prog st)" and step: "select_insn env st = Cont st'"
  shows "(insn_prog st' = insn_prog st \<and> 0 \<le> insn_pc st' \<and> (nat (insn_pc st), nat (insn_pc st')) \<in> (edges (insn_prog st))\<^sup>+ \<and>
          tail_call_cnt st' = tail_call_cnt st) \<or>
         (tail_step env st st' \<and> (insn_prog st' = insn_prog st \<and> insn_pc st' = insn_pc st + 1 \<longrightarrow>
            (nat (insn_pc st), nat (insn_pc st')) \<in> (edges (insn_prog st))\<^sup>+))"
proof -
  let ?p = "insn_prog st" and ?t = "nat (insn_pc st)"
  let ?i = "?p ! ?t" let ?l = "jumptable (bi_code ?i)"
  have pc: "0 \<le> insn_pc st" "?t < length ?p" and ex: "exec_label env ?l ?i st = Cont st'"
    using step by (auto simp: select_insn_def Let_def split: if_splits)
  note flow = jumptable_flow [of "bi_code ?i"]
  have fall: "(?t, nat (insn_pc st + 1)) \<in> (edges ?p)\<^sup>+ \<and> nat (insn_pc st + 1) < length ?p" if "insn_pc st + 1 \<in> set (succs ?p ?t)"
    using cfg_edge [OF ok(1) pc(2) that] by simp
  show ?thesis
  proof (cases ?l)
    case (L_ALU a)
    then have "insn_pc st + 1 \<in> set (succs ?p ?t)" using flow pc by (simp add: succs_def)
    then show ?thesis using fall exec_alu_flow [of a ?i st st'] ex L_ALU pc by (simp add: same_prog_def)
  next
    case (L_MEM a)
    then have "insn_pc st + 1 \<in> set (succs ?p ?t)" using flow pc by (simp add: succs_def)
    then show ?thesis using fall exec_mem_flow [of a ?i st st'] ex L_MEM pc by (simp add: same_prog_def)
  next
    case (L_LD a)
    then have f: "insn_pc st + 1 \<in> set (succs ?p ?t)" using flow pc by (cases a) (simp_all add: succs_def bpf_fields)
    show ?thesis
    proof (cases "a = LD_IMM_DW")
      case True
      then have c0: "nat (insn_pc st + 1) < length ?p" "bi_code (?p ! nat (insn_pc st + 1)) = 0"
        using ok(2) flow L_LD pc by (auto simp: ld_imm64_ok_def nat_add_distrib)
      then have "insn_pc st + 2 \<in> set (succs ?p (nat (insn_pc st + 1)))" using pc by (simp add: succs_def bpf_fields)
      then have "(nat (insn_pc st + 1), nat (insn_pc st + 2)) \<in> (edges ?p)\<^sup>+" using cfg_edge [OF ok(1) c0(1)] by simp
      then have "(?t, nat (insn_pc st + 2)) \<in> (edges ?p)\<^sup>+" using fall [OF f] by (meson trancl_trans)
      then show ?thesis using exec_ld_flow [of env a ?i st st'] ex L_LD True pc by (simp add: same_prog_def)
    next
      case False
      then show ?thesis using fall [OF f] exec_ld_flow [of env a ?i st st'] ex L_LD pc by (simp add: same_prog_def)
    qed
  next
    case (L_JMP j)
    have branch: "(?t, nat (insn_pc st + sint (bi_off ?i) + 1)) \<in> (edges ?p)\<^sup>+ \<and> 0 \<le> insn_pc st + sint (bi_off ?i) + 1"
      if "insn_pc st + sint (bi_off ?i) + 1 \<in> set (succs ?p ?t)" using cfg_edge [OF ok(1) pc(2) that] by simp
    have cond: ?thesis if "CONT_JMP b ?i st = Cont st'" "set (succs ?p ?t) = {insn_pc st + 1, insn_pc st + sint (bi_off ?i) + 1}" for b
      using that fall branch pc by (auto simp: CONT_JMP_def CONT_def split: if_splits)
    show ?thesis
    proof (cases j)
      case JMP_CALL
      then have "insn_pc st + 1 \<in> set (succs ?p ?t)" using flow pc L_JMP by (simp add: succs_def)
      moreover have "same_prog st st' (insn_pc st + 1)" using ex L_JMP JMP_CALL by (auto simp: Let_def split: prod.splits intro: CONT_same_prog)
      ultimately show ?thesis using fall pc by (simp add: same_prog_def)
    next
      case JMP_TAIL_CALL
      then have "insn_pc st + 1 \<in> set (succs ?p ?t)" using flow pc L_JMP by (simp add: succs_def)
      moreover have "same_prog st st' (insn_pc st + 1) \<or> tail_step env st st'"
        using exec_tail_call_flow [of env ?i st st'] ex L_JMP JMP_TAIL_CALL by simp
      ultimately show ?thesis using fall pc by (auto simp: same_prog_def)
    next
      case JMP_JA
      then have "insn_pc st + sint (bi_off ?i) + 1 \<in> set (succs ?p ?t)" using flow pc L_JMP by (simp add: succs_def)
      moreover have "same_prog st st' (insn_pc st + sint (bi_off ?i) + 1)" using ex L_JMP JMP_JA CONT_same_prog(1) by simp
      ultimately show ?thesis using branch by (simp add: same_prog_def)
    next
      case (JMP_X oper)
      then show ?thesis using flow pc L_JMP ex by (intro cond) (auto simp: succs_def Let_def)
    next
      case (JMP_K oper)
      then show ?thesis using flow pc L_JMP ex by (intro cond) (auto simp: succs_def Let_def)
    next
      case JMP_EXIT
      then show ?thesis using ex L_JMP by simp
    qed
  next
    case default_label
    then show ?thesis using ex by simp
  qed
qed


text \<open>Loads from a packet only fault on memory.\<close>

definition mem_fault :: "'a result \<Rightarrow> bool" where
  "mem_fault r \<longleftrightarrow> (\<forall>u. r = Undef u \<longrightarrow> u = BadMem)"

lemma mem_fault_simps [simp]: "mem_fault (Ok x)" "mem_fault (Err e)" "mem_fault (Undef u) \<longleftrightarrow> u = BadMem"
  by (auto simp: mem_fault_def)

lemma mem_fault_rbind [intro]: "mem_fault r \<Longrightarrow> (\<And>x. r = Ok x \<Longrightarrow> mem_fault (f x)) \<Longrightarrow> mem_fault (rbind r f)"
  by (cases r) auto

lemma mem_fault_buf_slice [simp]: "mem_fault (buf_slice bs off n)"
  by (simp add: buf_slice_def)

lemma mem_fault_copy_piece: "(\<And>n. mem_fault (rd n)) \<Longrightarrow> mem_fault (copy_piece rd bs e off len)"
  by (auto simp: copy_piece_def Let_def)

lemma mem_fault_copy_frags: "mem_fault (copy_frags fs st)"
  by (induction fs st rule: copy_frags.induct) (auto intro!: mem_fault_copy_piece)

lemma mem_fault_skb_copy_bits:
  "mem_fault (skb_copy_bits skb offset len)" "mem_fault (skb_walk_frags fl st)"
proof (induction skb offset len and fl st rule: skb_copy_bits_skb_walk_frags.induct)
  case (1 head data tail skblen data_len mac net frags frag_list offset len)
  then show ?case
    by (auto simp: Let_def intro!: mem_fault_rbind mem_fault_copy_piece mem_fault_copy_frags split: copy_state.splits)
qed (auto intro!: mem_fault_copy_piece)

lemma mem_fault_bpf_load_pointer: "mem_fault (bpf_load_pointer skb k n)"
proof -
  have "mem_fault (skb_header_pointer skb off len)" for off len
    using mem_fault_skb_copy_bits(1) [of skb off len] by (auto simp: skb_header_pointer_def split: result.splits)
  then show ?thesis by (auto simp: bpf_load_pointer_def bpf_internal_load_pointer_neg_helper_def Let_def)
qed

definition prog_ok :: "bpf_insn list \<Rightarrow> bool" where
  "prog_ok insns \<longleftrightarrow> insns \<noteq> [] \<and> cfg_ok insns \<and> ld_imm64_ok insns"

definition env_ok :: "nat \<Rightarrow> bpf_env \<Rightarrow> bool" where
  "env_ok N env \<longleftrightarrow> (\<forall>a max ptrs index p. env_array env a = Some (max, ptrs) \<longrightarrow> ptrs index = Some p \<longrightarrow> prog_ok p \<and> length p \<le> N)"

lemma select_insn_no_BadPc:
  assumes "prog_ok (insn_prog st)" and "0 \<le> insn_pc st" and "nat (insn_pc st) < length (insn_prog st)"
  shows "select_insn env st \<noteq> Crash BadPc"
proof
  let ?i = "insn_prog st ! nat (insn_pc st)"
  assume "select_insn env st = Crash BadPc"
  then have ex: "exec_label env (jumptable (bi_code ?i)) ?i st = Crash BadPc"
    using assms(2,3) by (auto simp: select_insn_def Let_def split: if_splits)
  show False
  proof (cases "jumptable (bi_code ?i)")
    case (L_ALU a)
    then show ?thesis using ex
      by (cases a; simp add: Let_def CONT_def split: if_splits; rename_tac oper; case_tac oper; simp split: if_splits)
  next
    case (L_JMP j)
    then show ?thesis using ex by (cases j) (auto simp: Let_def CONT_def CONT_JMP_def split: prod.splits option.splits if_splits)
  next
    case (L_MEM a)
    then show ?thesis using ex by (cases a) (auto simp: store_cont_def Let_def CONT_def split: option.splits)
  next
    case (L_LD a)
    have skb: "load_skb env sz off st \<noteq> Crash BadPc" for sz off
    proof (cases "env_skb env (regs st BPF_REG_CTX)")
      case (Some skb)
      then show ?thesis using mem_fault_bpf_load_pointer [of skb off "size_bytes sz"]
        by (cases "bpf_load_pointer skb off (size_bytes sz)") (auto simp: load_skb_def CONT_def split: option.splits)
    qed (simp add: load_skb_def)
    have "a = LD_IMM_DW \<Longrightarrow> nat (insn_pc st + 1) < length (insn_prog st)"
      using assms L_LD jumptable_flow [of "bi_code ?i"] by (auto simp: prog_ok_def ld_imm64_ok_def nat_add_distrib)
    then show ?thesis using ex L_LD skb by (cases a) (auto simp: CONT_def)
  qed (use ex in simp)
qed

lemma tail_step_cnt:
  assumes "tail_step env st st'"
  shows "unat (tail_call_cnt st') = Suc (unat (tail_call_cnt st)) \<and> tail_call_cnt st' \<le> 33 \<and> unat (tail_call_cnt st) \<le> 32"
proof -
  have le: "unat (tail_call_cnt st) \<le> 32" and eq: "tail_call_cnt st' = tail_call_cnt st + 1"
    using assms by (auto simp: tail_step_def word_le_nat_alt)
  have "unat (tail_call_cnt st + 1) = Suc (unat (tail_call_cnt st))" using le by (simp add: unat_word_ariths)
  then show ?thesis using le eq by (simp add: word_le_nat_alt)
qed

lemma bpf_run_ends:
  assumes env: "env_ok N env" and ok: "prog_ok (insn_prog st)" "length (insn_prog st) \<le> N"
    and fin: "topo (insn_prog st) fin" "set fin = {..< length (insn_prog st)}" "length fin = length (insn_prog st)"
    and pc: "0 \<le> insn_pc st" "nat (insn_pc st) < length (insn_prog st)" and cnt: "tail_call_cnt st \<le> 33"
    and fuel: "fuel > (33 - unat (tail_call_cnt st)) * N + rank fin (nat (insn_pc st))"
  shows "bpf_run env fuel st \<notin> {None, Some (Inr BadPc)}"
  using ok fin pc cnt fuel
proof (induction fuel arbitrary: st fin)
  case (Suc fuel)
  show ?case
  proof (cases "select_insn env st")
    case (Cont st')
    let ?p = "insn_prog st"
    have rank: "rank fin w < rank fin t" if "(t, w) \<in> (edges ?p)\<^sup>+" for t w
      using that
    proof (induction rule: trancl_induct)
      case (base w) then show ?case using topo_rank [OF Suc.prems(3)] Suc.prems(4) by (auto simp: edges_def)
    next
      case (step w v) then show ?case using topo_rank [OF Suc.prems(3), of w v] Suc.prems(4) by (fastforce simp: edges_def)
    qed
    have range: "w < length ?p" if "(t, w) \<in> (edges ?p)\<^sup>+" for t w
      using that edges_range [of ?p] Suc.prems(1) unfolding prog_ok_def by (meson tranclD2)
    have flow: "cfg_ok ?p" "ld_imm64_ok ?p" using Suc.prems(1) by (auto simp: prog_ok_def)
    have ih: ?thesis if "prog_ok (insn_prog st')" "length (insn_prog st') \<le> N" "topo (insn_prog st') fin'"
      "set fin' = {..< length (insn_prog st')}" "length fin' = length (insn_prog st')" "0 \<le> insn_pc st'"
      "nat (insn_pc st') < length (insn_prog st')" "tail_call_cnt st' \<le> 33"
      "fuel > (33 - unat (tail_call_cnt st')) * N + rank fin' (nat (insn_pc st'))" for fin'
      using Suc.IH [OF that] Cont by simp
    consider (move) "insn_prog st' = ?p" "0 \<le> insn_pc st'" "(nat (insn_pc st), nat (insn_pc st')) \<in> (edges ?p)\<^sup>+"
        "tail_call_cnt st' = tail_call_cnt st"
      | (skip) "tail_step env st st'" "insn_prog st' = ?p" "insn_pc st' = insn_pc st + 1"
          "(nat (insn_pc st), nat (insn_pc st')) \<in> (edges ?p)\<^sup>+"
      | (tail) "tail_step env st st'" "insn_pc st' = 0" "prog_ok (insn_prog st')" "length (insn_prog st') \<le> N"
      using select_insn_flow [OF flow Cont] env unfolding tail_step_def env_ok_def by blast
    then show ?thesis
    proof cases
      case move
      then show ?thesis using ih [of fin] Suc.prems range [OF move(3)] rank [OF move(3)] by simp
    next
      case skip
      have c: "unat (tail_call_cnt st') = Suc (unat (tail_call_cnt st))" "tail_call_cnt st' \<le> 33"
        using tail_step_cnt [OF skip(1)] by auto
      have "(33 - unat (tail_call_cnt st')) * N \<le> (33 - unat (tail_call_cnt st)) * N" using c(1) by (intro mult_right_mono) auto
      then have "fuel > (33 - unat (tail_call_cnt st')) * N + rank fin (nat (insn_pc st'))"
        using Suc.prems(9) rank [OF skip(4)] by linarith
      then show ?thesis using ih [of fin] Suc.prems(1-6) range [OF skip(4)] skip(2,3) c(2) by simp
    next
      case tail
      have c: "unat (tail_call_cnt st') = Suc (unat (tail_call_cnt st))" "tail_call_cnt st' \<le> 33" "unat (tail_call_cnt st) \<le> 32"
        using tail_step_cnt [OF tail(1)] by auto
      obtain fin' where fin': "topo (insn_prog st') fin'" "set fin' = {..< length (insn_prog st')}" "length fin' = length (insn_prog st')"
        using cfg_ok_topo tail(3) unfolding prog_ok_def by blast
      have "0 < length (insn_prog st')" using tail(3) by (simp add: prog_ok_def)
      then have "rank fin' 0 < N" using rank_less [of 0 fin'] fin' tail(4) by simp
      moreover have "33 - unat (tail_call_cnt st) = Suc (33 - unat (tail_call_cnt st'))" using c by linarith
      ultimately have "fuel > (33 - unat (tail_call_cnt st')) * N + rank fin' (nat (insn_pc st'))"
        using Suc.prems(9) tail(2) by simp
      then show ?thesis using ih [OF tail(3,4) fin'] tail(2) c(2) \<open>0 < length (insn_prog st')\<close> by simp
    qed
  next
    case (Crash u)
    then show ?thesis using select_insn_no_BadPc [OF Suc.prems(1,6,7), of env] by auto
  qed simp
qed simp

lemma bpf_prog_run_ends:
  assumes "is_ok (check_cfg True True insns m)" and "ld_imm64_ok insns" and "length insns \<le> N" and "env_ok N env"
  shows "\<exists>r. bpf_prog_run env (34 * N) r0 mem fp ctx insns = Some r \<and> r \<noteq> Inr BadPc"
proof -
  have ne: "insns \<noteq> []" using assms(1) by (auto simp: check_cfg_def)
  then have ok: "cfg_ok insns" using check_cfg_decides [OF ne, of m] assms(1) by (auto split: if_splits)
  obtain fin where fin: "topo insns fin" "set fin = {..< length insns}" "length fin = length insns"
    using cfg_ok_topo [OF ne ok] .
  have "rank fin 0 < N" using rank_less [of 0 fin] fin assms(3) ne by simp
  then have "bpf_run env (34 * N) (init_state r0 mem fp ctx insns) \<notin> {None, Some (Inr BadPc)}"
    using bpf_run_ends [of N env "init_state r0 mem fp ctx insns" fin] assms ne ok fin by (simp add: init_state_def prog_ok_def)
  then show ?thesis by (auto simp: bpf_prog_run_def)
qed

section \<open>Properties\<close>

text \<open>C5. The control flow check accepts exactly the programs whose flow graph is well formed: every jump
  stays inside the program, every instruction can be reached from the first one, and there is no
  cycle. Every other program is rejected with \<open>-EINVAL\<close>, and no access leaves the arrays of the
  search.\<close>

theorem check_cfg_exact:
  assumes "insns \<noteq> []"
  shows "if cfg_ok insns then is_ok (check_cfg True True insns m) else check_cfg True True insns m = Err EINVAL"
  using check_cfg_decides [OF assms] .

text \<open>C6. A program that passed the control flow check ends: the interpreter returns or faults after at
  most 34 times \<open>N\<close> instructions when all programs tail calls can reach passed it too and have at
  most \<open>N\<close> instructions, and it never leaves a program.\<close>

theorem checked_program_ends:
  assumes "is_ok (check_cfg True True insns m)" and "ld_imm64_ok insns" and "length insns \<le> N" and "env_ok N env"
  shows "\<exists>r. bpf_prog_run env (34 * N) r0 mem fp ctx insns = Some r \<and> r \<noteq> Inr BadPc"
  using bpf_prog_run_ends [OF assms] .

text \<open>A program with a branch, a join and a 64-bit load; one with a loop.\<close>

definition ex_prog :: "bpf_insn list" where
  "ex_prog =
     [BPF_JMP_IMM BPF_JEQ 1 0 2,
      BPF_RAW_INSN (BPF_LD OR BPF_IMM OR BPF_DW) 0 0 0 7, BPF_RAW_INSN 0 0 0 0 0,
      BPF_MOV32_IMM 0 1, BPF_EXIT_INSN]"

definition ex_loop :: "bpf_insn list" where
  "ex_loop = [BPF_MOV32_IMM 0 1, BPF_JMP_IMM BPF_JEQ 0 0 (- 2), BPF_EXIT_INSN]"

lemma ex_checks:
  "check_cfg True True ex_prog (replicate 5 False) = Ok [False, False, False, True, False]"
  "check_cfg True True ex_loop (replicate 3 False) = Err EINVAL"
  by code_simp+

theorem check_cfg_exact_witness: "\<not> cfg_ok ex_loop \<and> cfg_ok ex_prog"
proof -
  have "ex_loop \<noteq> []" "ex_prog \<noteq> []" by (simp_all add: ex_loop_def ex_prog_def)
  then show ?thesis
    using check_cfg_exact [of ex_loop "replicate 3 False"] check_cfg_exact [of ex_prog "replicate 5 False"]
    unfolding ex_checks by (auto split: if_splits)
qed

definition ex_env :: bpf_env where
  "ex_env = \<lparr>env_skb = (\<lambda>_. None), env_call = (\<lambda>_ _ m. (0, m)), env_array = (\<lambda>_. None)\<rparr>"

theorem checked_program_ends_witness:
  "\<exists>r. bpf_prog_run ex_env (34 * 5) (\<lambda>_. 0) (\<lambda>_. None) 0 0 ex_prog = Some r \<and> r \<noteq> Inr BadPc"
proof (rule checked_program_ends [where m = "replicate 5 False"])
  show "ld_imm64_ok ex_prog"
by code_simp
qed (simp_all add: ex_checks, simp_all add: ex_prog_def env_ok_def ex_env_def)

end
