(* ===== verification/Bpf_Verifier.thy ===== *)
theory Bpf_Verifier
  imports Bpf_Cfg
begin

text \<open>
  The symbolic execution of the verifier, \<open>do_check\<close> of \<^verbatim>\<open>kernel/bpf/verifier.c\<close>: the types of registers and stack slots,
  the check of every kind of instruction, the stack of branches that are still to be explored, and the
  pruning of states that are covered by an explored one. Logging is left out.
\<close>

section \<open>Register and stack states\<close>

datatype bpf_reg_type = NOT_INIT | UNKNOWN_VALUE | PTR_TO_CTX | CONST_PTR_TO_MAP | PTR_TO_MAP_VALUE
  | PTR_TO_MAP_VALUE_OR_NULL | FRAME_PTR | PTR_TO_STACK | CONST_IMM

fun type_code :: "bpf_reg_type \<Rightarrow> u32" where
  "type_code NOT_INIT = 0"
| "type_code UNKNOWN_VALUE = 1"
| "type_code PTR_TO_CTX = 2"
| "type_code CONST_PTR_TO_MAP = 3"
| "type_code PTR_TO_MAP_VALUE = 4"
| "type_code PTR_TO_MAP_VALUE_OR_NULL = 5"
| "type_code FRAME_PTR = 6"
| "type_code PTR_TO_STACK = 7"
| "type_code CONST_IMM = 8"

text \<open>\<open>ru\<close> is the union of \<open>imm\<close>, its low half, and \<open>map_ptr\<close>.\<close>

record reg_state =
  rtype :: bpf_reg_type
  ru :: u64

definition reg_imm :: "reg_state \<Rightarrow> u32" where
  "reg_imm r = ucast (ru r)"

definition set_imm :: "u32 \<Rightarrow> reg_state \<Rightarrow> reg_state" where
  "set_imm v r = r\<lparr>ru := (ru r AND 0xFFFFFFFF00000000) OR ucast v\<rparr>"

datatype stack_slot = STACK_INVALID | STACK_SPILL | STACK_MISC

type_synonym vregs = "reg \<Rightarrow> reg_state"

record verifier_state =
  vregs :: vregs
  stack_slot_type :: "nat \<Rightarrow> stack_slot"
  spilled_regs :: "nat \<Rightarrow> reg_state"

abbreviation (input) BPF_REG_SIZE :: nat where "BPF_REG_SIZE \<equiv> 8"

definition empty_reg :: reg_state where
  "empty_reg = \<lparr>rtype = NOT_INIT, ru = 0\<rparr>"

definition init_reg_state :: vregs where
  "init_reg_state = (\<lambda>_. empty_reg)(BPF_REG_FP := \<lparr>rtype = FRAME_PTR, ru = 0\<rparr>, BPF_REG_ARG1 := \<lparr>rtype = PTR_TO_CTX, ru = 0\<rparr>)"

definition mark_reg_unknown_value :: "reg \<Rightarrow> vregs \<Rightarrow> vregs" where
  "mark_reg_unknown_value regno rs = rs(regno := \<lparr>rtype = UNKNOWN_VALUE, ru = 0\<rparr>)"

datatype reg_arg_type = SRC_OP | DST_OP | DST_OP_NO_MARK

definition check_reg_arg :: "vregs \<Rightarrow> reg \<Rightarrow> reg_arg_type \<Rightarrow> vregs result" where
  "check_reg_arg rs regno t =
     (if regno > 10 then Err EINVAL
      else if t = SRC_OP then (if rtype (rs regno) = NOT_INIT then Err EACCES else Ok rs)
      else if regno = BPF_REG_FP then Err EACCES
      else if t = DST_OP then Ok (mark_reg_unknown_value regno rs)
      else Ok rs)"

definition bpf_size_to_bytes :: "u8 \<Rightarrow> nat result" where
  "bpf_size_to_bytes bpf_size =
     (if bpf_size = BPF_W then Ok 4 else if bpf_size = BPF_H then Ok 2 else if bpf_size = BPF_B then Ok 1
      else if bpf_size = BPF_DW then Ok 8 else Err EINVAL)"

definition is_spillable_regtype :: "bpf_reg_type \<Rightarrow> bool" where
  "is_spillable_regtype type \<longleftrightarrow>
     type \<in> {PTR_TO_MAP_VALUE, PTR_TO_MAP_VALUE_OR_NULL, PTR_TO_STACK, PTR_TO_CTX, FRAME_PTR, CONST_PTR_TO_MAP}"

section \<open>Parameters of a verification\<close>

datatype bpf_arg_type = ARG_DONTCARE | ARG_CONST_MAP_PTR | ARG_PTR_TO_MAP_KEY | ARG_PTR_TO_MAP_VALUE | ARG_PTR_TO_STACK
  | ARG_CONST_STACK_SIZE | ARG_PTR_TO_CTX | ARG_ANYTHING

datatype bpf_return_type = RET_INTEGER | RET_VOID | RET_PTR_TO_MAP_VALUE_OR_NULL

record bpf_func_proto =
  gpl_only :: bool
  ret_type :: bpf_return_type
  arg_types :: "bpf_arg_type list"

datatype bpf_prog_type = PROG_TYPE_UNSPEC | PROG_TYPE_SOCKET_FILTER | PROG_TYPE_KPROBE | PROG_TYPE_SCHED_CLS | PROG_TYPE_SCHED_ACT

record map_info =
  mi_key_size :: u32
  mi_value_size :: u32
  mi_map_type :: nat

text \<open>
  What the verifier knows about the program: its type with the operations of that type, its license, the
  privileges of the user, and the maps behind the addresses in the program.
\<close>

record verifier_prog =
  prog_type :: bpf_prog_type
  is_valid_access_op :: "(int \<Rightarrow> int \<Rightarrow> bool \<Rightarrow> bool) option"
  get_func_proto :: "(nat \<Rightarrow> bpf_func_proto option) option"
  gpl_compatible :: bool
  allow_ptr_leaks :: bool
  map_at :: "u64 \<Rightarrow> map_info"

section \<open>Memory accesses\<close>

definition set_slots :: "nat \<Rightarrow> nat \<Rightarrow> stack_slot \<Rightarrow> (nat \<Rightarrow> stack_slot) \<Rightarrow> nat \<Rightarrow> stack_slot" where
  "set_slots lo n v f = (\<lambda>i. if lo \<le> i \<and> i < lo + n then v else f i)"

definition check_stack_write :: "verifier_state \<Rightarrow> int \<Rightarrow> nat \<Rightarrow> reg option \<Rightarrow> verifier_state result" where
  "check_stack_write state off sz value_regno =
     (let lo = nat (int MAX_BPF_STACK + off);
          misc = state\<lparr>spilled_regs := (spilled_regs state)(lo div BPF_REG_SIZE := empty_reg),
                       stack_slot_type := set_slots lo sz STACK_MISC (stack_slot_type state)\<rparr>
      in
      case value_regno of
        None \<Rightarrow> Ok misc
      | Some r \<Rightarrow>
          (if is_spillable_regtype (rtype (vregs state r)) then
             (if sz \<noteq> BPF_REG_SIZE then Err EACCES
              else Ok (state\<lparr>spilled_regs := (spilled_regs state)(lo div BPF_REG_SIZE := vregs state r),
                             stack_slot_type := set_slots lo BPF_REG_SIZE STACK_SPILL (stack_slot_type state)\<rparr>))
           else Ok misc))"

definition check_stack_read :: "verifier_state \<Rightarrow> int \<Rightarrow> nat \<Rightarrow> reg option \<Rightarrow> verifier_state result" where
  "check_stack_read state off sz value_regno =
     (let lo = nat (int MAX_BPF_STACK + off); slot_type = (\<lambda>i. stack_slot_type state (lo + i)) in
      if slot_type 0 = STACK_SPILL then
        (if sz \<noteq> BPF_REG_SIZE then Err EACCES
         else if \<not> (\<forall>i < BPF_REG_SIZE. 1 \<le> i \<longrightarrow> slot_type i = STACK_SPILL) then Err EACCES
         else (case value_regno of
                 None \<Rightarrow> Ok state
               | Some r \<Rightarrow> Ok (state\<lparr>vregs := (vregs state)(r := spilled_regs state (lo div BPF_REG_SIZE))\<rparr>)))
      else if \<not> (\<forall>i < sz. slot_type i = STACK_MISC) then Err EACCES
      else (case value_regno of
              None \<Rightarrow> Ok state
            | Some r \<Rightarrow> Ok (state\<lparr>vregs := mark_reg_unknown_value r (vregs state)\<rparr>)))"

definition check_map_access :: "verifier_prog \<Rightarrow> vregs \<Rightarrow> reg \<Rightarrow> int \<Rightarrow> nat \<Rightarrow> unit result" where
  "check_map_access p rs regno off sz =
     (if off < 0 \<or> off + int sz > uint (mi_value_size (map_at p (ru (rs regno)))) then Err EACCES else Ok ())"

definition check_ctx_access :: "verifier_prog \<Rightarrow> int \<Rightarrow> nat \<Rightarrow> bool \<Rightarrow> unit result" where
  "check_ctx_access p off sz write =
     (case is_valid_access_op p of None \<Rightarrow> Err EACCES | Some f \<Rightarrow> if f off (int sz) write then Ok () else Err EACCES)"

definition is_pointer_value :: "verifier_prog \<Rightarrow> vregs \<Rightarrow> reg \<Rightarrow> bool" where
  "is_pointer_value p rs regno \<longleftrightarrow>
     \<not> allow_ptr_leaks p \<and> \<not> (rtype (rs regno) = UNKNOWN_VALUE \<or> rtype (rs regno) = CONST_IMM)"

text \<open>\<open>off\<close> is an \<open>int\<close>; the addition of the offset of a stack pointer wraps at 32 bits.\<close>

definition check_mem_access ::
  "verifier_prog \<Rightarrow> verifier_state \<Rightarrow> reg \<Rightarrow> u16 \<Rightarrow> u8 \<Rightarrow> bool \<Rightarrow> reg option \<Rightarrow> verifier_state result" where
  "check_mem_access p state regno insn_off bpf_size write value_regno =
     (let reg = vregs state regno;
          off = (if rtype reg = PTR_TO_STACK then sint (scast insn_off + reg_imm reg) else sint insn_off);
          leaks = (case value_regno of None \<Rightarrow> False | Some r \<Rightarrow> write \<and> is_pointer_value p (vregs state) r);
          readback = (case value_regno of
              None \<Rightarrow> state | Some r \<Rightarrow> if write then state else state\<lparr>vregs := mark_reg_unknown_value r (vregs state)\<rparr>)
      in
      rbind (bpf_size_to_bytes bpf_size) (\<lambda>sz.
      if off mod int sz \<noteq> 0 then Err EACCES
      else if rtype reg = PTR_TO_MAP_VALUE then
        (if leaks then Err EACCES else rbind (check_map_access p (vregs state) regno off sz) (\<lambda>_. Ok readback))
      else if rtype reg = PTR_TO_CTX then
        (if leaks then Err EACCES else rbind (check_ctx_access p off sz write) (\<lambda>_. Ok readback))
      else if rtype reg = FRAME_PTR \<or> rtype reg = PTR_TO_STACK then
        (if off \<ge> 0 \<or> off < - int MAX_BPF_STACK then Err EACCES
         else if write then
           (if \<not> allow_ptr_leaks p \<and> stack_slot_type state (nat (int MAX_BPF_STACK + off)) = STACK_SPILL \<and> sz \<noteq> BPF_REG_SIZE
            then Err EACCES else check_stack_write state off sz value_regno)
         else check_stack_read state off sz value_regno)
      else Err EACCES))"

definition check_xadd :: "verifier_prog \<Rightarrow> bpf_insn \<Rightarrow> verifier_state \<Rightarrow> verifier_state result" where
  "check_xadd p insn state =
     (if (BPF_SIZE (bi_code insn) \<noteq> BPF_W \<and> BPF_SIZE (bi_code insn) \<noteq> BPF_DW) \<or> bi_imm insn \<noteq> 0 then Err EINVAL
      else
        rbind (check_reg_arg (vregs state) (bi_src insn) SRC_OP) (\<lambda>_.
        rbind (check_reg_arg (vregs state) (bi_dst insn) SRC_OP) (\<lambda>_.
        rbind (check_mem_access p state (bi_dst insn) (bi_off insn) (BPF_SIZE (bi_code insn)) False None) (\<lambda>state.
          check_mem_access p state (bi_dst insn) (bi_off insn) (BPF_SIZE (bi_code insn)) True None))))"

section \<open>Calls\<close>

definition check_stack_boundary :: "verifier_state \<Rightarrow> reg \<Rightarrow> u32 \<Rightarrow> unit result" where
  "check_stack_boundary state regno access_size =
     (if rtype (vregs state regno) \<noteq> PTR_TO_STACK then Err EACCES
      else
        (let off = sint (reg_imm (vregs state regno)) in
         if off \<ge> 0 \<or> off < - int MAX_BPF_STACK \<or> sint (reg_imm (vregs state regno) + access_size) > 0 \<or> sint access_size \<le> 0
         then Err EACCES
         else if \<not> (\<forall>i < unat access_size. stack_slot_type state (nat (int MAX_BPF_STACK + off) + i) = STACK_MISC) then Err EACCES
         else Ok ()))"

text \<open>The result is the map that was passed so far; addresses of maps are not null.\<close>

definition check_func_arg :: "verifier_prog \<Rightarrow> verifier_state \<Rightarrow> reg \<Rightarrow> bpf_arg_type \<Rightarrow> u64 option \<Rightarrow> u64 option result" where
  "check_func_arg p state regno arg_type mapp =
     (let reg = vregs state regno;
          expect = (\<lambda>t r. if rtype reg \<noteq> t then Err EACCES else r)
      in
      if arg_type = ARG_DONTCARE then Ok mapp
      else if rtype reg = NOT_INIT then Err EACCES
      else
        (case arg_type of
           ARG_DONTCARE \<Rightarrow> Ok mapp
         | ARG_ANYTHING \<Rightarrow> if is_pointer_value p (vregs state) regno then Err EACCES else Ok mapp
         | ARG_PTR_TO_STACK \<Rightarrow> expect PTR_TO_STACK (Ok mapp)
         | ARG_CONST_MAP_PTR \<Rightarrow> expect CONST_PTR_TO_MAP (Ok (Some (ru reg)))
         | ARG_PTR_TO_CTX \<Rightarrow> expect PTR_TO_CTX (Ok mapp)
         | ARG_PTR_TO_MAP_KEY \<Rightarrow> expect PTR_TO_STACK
             (case mapp of None \<Rightarrow> Err EACCES
              | Some m \<Rightarrow> rbind (check_stack_boundary state regno (mi_key_size (map_at p m))) (\<lambda>_. Ok mapp))
         | ARG_PTR_TO_MAP_VALUE \<Rightarrow> expect PTR_TO_STACK
             (case mapp of None \<Rightarrow> Err EACCES
              | Some m \<Rightarrow> rbind (check_stack_boundary state regno (mi_value_size (map_at p m))) (\<lambda>_. Ok mapp))
         | ARG_CONST_STACK_SIZE \<Rightarrow> expect CONST_IMM
             (if regno = 0 then Err EACCES
              else rbind (check_stack_boundary state (regno - 1) (reg_imm reg)) (\<lambda>_. Ok mapp))))"

definition func_limit :: "(nat \<times> nat) list" where \<comment> \<open>map type and function\<close>
  "func_limit = [(3, 12), (4, 22), (4, 25)]"

definition check_map_func_compatibility :: "verifier_prog \<Rightarrow> u64 option \<Rightarrow> nat \<Rightarrow> unit result" where
  "check_map_func_compatibility p mapp func_id =
     (case mapp of None \<Rightarrow> Ok ()
      | Some m \<Rightarrow>
          (if list_all (\<lambda>(map_type, func). \<not> (func_id = func \<and> mi_map_type (map_at p m) \<noteq> map_type)) func_limit
           then Ok () else Err EINVAL))"

fun check_args :: "verifier_prog \<Rightarrow> verifier_state \<Rightarrow> (reg \<times> bpf_arg_type) list \<Rightarrow> u64 option \<Rightarrow> u64 option result" where
  "check_args p state [] mapp = Ok mapp"
| "check_args p state ((r, t) # args) mapp = rbind (check_func_arg p state r t mapp) (check_args p state args)"

definition reset_caller_saved :: "vregs \<Rightarrow> vregs" where
  "reset_caller_saved rs = (\<lambda>r. if r \<le> 5 then set_imm 0 (rs r)\<lparr>rtype := NOT_INIT\<rparr> else rs r)"

abbreviation (input) BPF_FUNC_MAX_ID :: int where "BPF_FUNC_MAX_ID \<equiv> 26"

definition check_call :: "verifier_prog \<Rightarrow> u32 \<Rightarrow> verifier_state \<Rightarrow> verifier_state result" where
  "check_call p func_id state =
     (if sint func_id < 0 \<or> sint func_id \<ge> BPF_FUNC_MAX_ID then Err EINVAL
      else case (case get_func_proto p of None \<Rightarrow> None | Some f \<Rightarrow> f (unat func_id)) of
        None \<Rightarrow> Err EINVAL
      | Some fn \<Rightarrow>
          (if \<not> gpl_compatible p \<and> gpl_only fn then Err EINVAL
           else
             rbind (check_args p state (zip [1, 2, 3, 4, 5] (arg_types fn)) None) (\<lambda>mapp.
             let rs = reset_caller_saved (vregs state) in
             rbind (case ret_type fn of
                      RET_INTEGER \<Rightarrow> Ok (rs(0 := rs 0\<lparr>rtype := UNKNOWN_VALUE\<rparr>))
                    | RET_VOID \<Rightarrow> Ok (rs(0 := rs 0\<lparr>rtype := NOT_INIT\<rparr>))
                    | RET_PTR_TO_MAP_VALUE_OR_NULL \<Rightarrow>
                        (case mapp of None \<Rightarrow> Err EINVAL
                         | Some m \<Rightarrow> Ok (rs(0 := \<lparr>rtype = PTR_TO_MAP_VALUE_OR_NULL, ru = m\<rparr>)))) (\<lambda>rs.
             rbind (check_map_func_compatibility p mapp (unat func_id)) (\<lambda>_.
               Ok (state\<lparr>vregs := rs\<rparr>))))))"

section \<open>Arithmetic\<close>

definition check_alu_op :: "verifier_prog \<Rightarrow> bpf_insn \<Rightarrow> vregs \<Rightarrow> vregs result" where
  "check_alu_op p insn rs =
     (let opcode = BPF_OP (bi_code insn); dst = bi_dst insn; src = bi_src insn;
          X = (BPF_SRC (bi_code insn) = BPF_X); alu64 = (BPF_CLASS (bi_code insn) = BPF_ALU64)
      in
      if opcode = BPF_END \<or> opcode = BPF_NEG then
        (if opcode = BPF_NEG \<and> (BPF_SRC (bi_code insn) \<noteq> 0 \<or> src \<noteq> 0 \<or> bi_off insn \<noteq> 0 \<or> bi_imm insn \<noteq> 0) then Err EINVAL
         else if opcode = BPF_END \<and> (src \<noteq> 0 \<or> bi_off insn \<noteq> 0 \<or> bi_imm insn \<notin> {16, 32, 64}) then Err EINVAL
         else
           rbind (check_reg_arg rs dst SRC_OP) (\<lambda>rs.
           if is_pointer_value p rs dst then Err EACCES else check_reg_arg rs dst DST_OP))
      else if opcode = BPF_MOV then
        (if X \<and> (bi_imm insn \<noteq> 0 \<or> bi_off insn \<noteq> 0) then Err EINVAL
         else if \<not> X \<and> (src \<noteq> 0 \<or> bi_off insn \<noteq> 0) then Err EINVAL
         else
           rbind (if X then check_reg_arg rs src SRC_OP else Ok rs) (\<lambda>rs.
           rbind (check_reg_arg rs dst DST_OP) (\<lambda>rs.
           if X then
             (if alu64 then Ok (rs(dst := rs src))
              else if is_pointer_value p rs src then Err EACCES
              else Ok (rs(dst := \<lparr>rtype = UNKNOWN_VALUE, ru = 0\<rparr>)))
           else Ok (rs(dst := set_imm (bi_imm insn) (rs dst\<lparr>rtype := CONST_IMM\<rparr>))))))
      else if opcode > BPF_END then Err EINVAL
      else
        (if X \<and> (bi_imm insn \<noteq> 0 \<or> bi_off insn \<noteq> 0) then Err EINVAL
         else if \<not> X \<and> (src \<noteq> 0 \<or> bi_off insn \<noteq> 0) then Err EINVAL
         else
           rbind (if X then check_reg_arg rs src SRC_OP else Ok rs) (\<lambda>rs.
           rbind (check_reg_arg rs dst SRC_OP) (\<lambda>rs.
           if (opcode = BPF_MOD \<or> opcode = BPF_DIV) \<and> \<not> X \<and> bi_imm insn = 0 then Err EINVAL
           else if (opcode = BPF_LSH \<or> opcode = BPF_RSH \<or> opcode = BPF_ARSH) \<and> \<not> X \<and>
                   (sint (bi_imm insn) < 0 \<or> sint (bi_imm insn) \<ge> (if alu64 then 64 else 32)) then Err EINVAL
           else
             (let stack_relative = (opcode = BPF_ADD \<and> alu64 \<and> rtype (rs dst) = FRAME_PTR \<and> \<not> X) in
              if \<not> stack_relative \<and> (is_pointer_value p rs dst \<or> X \<and> is_pointer_value p rs src) then Err EACCES
              else
                rbind (check_reg_arg rs dst DST_OP) (\<lambda>rs.
                  if stack_relative then Ok (rs(dst := set_imm (bi_imm insn) (rs dst\<lparr>rtype := PTR_TO_STACK\<rparr>)))
                  else Ok rs))))))"

section \<open>Jumps and loads of constants and packets\<close>

text \<open>
  A conditional jump: the registers of the path that is followed, whether that is the jump, and the
  registers of the path that is pushed on the stack, if any. \<open>can_push\<close> is the outcome of \<open>push_stack\<close>.
\<close>

definition check_cond_jmp_op :: "verifier_prog \<Rightarrow> bool \<Rightarrow> bpf_insn \<Rightarrow> vregs \<Rightarrow> (vregs \<times> bool \<times> vregs option) result" where
  "check_cond_jmp_op p can_push insn rs =
     (let opcode = BPF_OP (bi_code insn); dst = bi_dst insn; src = bi_src insn; imm = bi_imm insn;
          X = (BPF_SRC (bi_code insn) = BPF_X); eq_ne = (opcode = BPF_JEQ \<or> opcode = BPF_JNE);
          known = (\<lambda>v r. set_imm v (r\<lparr>rtype := CONST_IMM\<rparr>))
      in
      if opcode > BPF_EXIT then Err EINVAL
      else
        rbind (if X then
                 (if imm \<noteq> 0 then Err EINVAL
                  else rbind (check_reg_arg rs src SRC_OP) (\<lambda>rs. if is_pointer_value p rs src then Err EACCES else Ok rs))
               else if src \<noteq> 0 then Err EINVAL else Ok rs) (\<lambda>rs.
        rbind (check_reg_arg rs dst SRC_OP) (\<lambda>rs.
        if \<not> X \<and> eq_ne \<and> rtype (rs dst) = CONST_IMM \<and> reg_imm (rs dst) = imm then
          Ok (rs, opcode = BPF_JEQ, None)
        else if \<not> can_push then Err EFAULT
        else if \<not> X \<and> imm = 0 \<and> eq_ne \<and> rtype (rs dst) = PTR_TO_MAP_VALUE_OR_NULL then
          (let null = rs(dst := known 0 (rs dst)); value = rs(dst := rs dst\<lparr>rtype := PTR_TO_MAP_VALUE\<rparr>) in
           if opcode = BPF_JEQ then Ok (value, False, Some null) else Ok (null, False, Some value))
        else if is_pointer_value p rs dst then Err EACCES
        else if \<not> X \<and> eq_ne then
          (let equal = rs(dst := known imm (rs dst)) in
           if opcode = BPF_JEQ then Ok (rs, False, Some equal) else Ok (equal, False, Some rs))
        else Ok (rs, False, Some rs))))"

definition ld_imm64 :: "bpf_insn \<Rightarrow> bpf_insn \<Rightarrow> u64" where \<comment> \<open>\<open>ld_imm64_to_map_ptr\<close>\<close>
  "ld_imm64 i j = ucast (bi_imm i) OR push_bit 32 (ucast (bi_imm j))"

text \<open>\<open>second\<close> is the instruction behind the load, if the program has one.\<close>

definition check_ld_imm :: "bpf_insn \<Rightarrow> bpf_insn option \<Rightarrow> vregs \<Rightarrow> vregs result" where
  "check_ld_imm insn second rs =
     (if BPF_SIZE (bi_code insn) \<noteq> BPF_DW then Err EINVAL
      else if bi_off insn \<noteq> 0 then Err EINVAL
      else
        rbind (check_reg_arg rs (bi_dst insn) DST_OP) (\<lambda>rs.
        if bi_src insn = 0 then Ok rs
        else if bi_src insn \<noteq> 1 then Undef BugOn
        else
          (case second of
             None \<Rightarrow> Undef BadIndex
           | Some insn1 \<Rightarrow> Ok (rs(bi_dst insn := \<lparr>rtype = CONST_PTR_TO_MAP, ru = ld_imm64 insn insn1\<rparr>)))))"

definition may_access_skb :: "bpf_prog_type \<Rightarrow> bool" where
  "may_access_skb type \<longleftrightarrow> type \<in> {PROG_TYPE_SOCKET_FILTER, PROG_TYPE_SCHED_CLS, PROG_TYPE_SCHED_ACT}"

definition check_ld_abs :: "verifier_prog \<Rightarrow> bpf_insn \<Rightarrow> vregs \<Rightarrow> vregs result" where
  "check_ld_abs p insn rs =
     (let mode = BPF_MODE (bi_code insn) in
      if \<not> may_access_skb (prog_type p) then Err EINVAL
      else if bi_dst insn \<noteq> 0 \<or> bi_off insn \<noteq> 0 \<or> mode = BPF_ABS \<and> bi_src insn \<noteq> 0 then Err EINVAL
      else
        rbind (check_reg_arg rs BPF_REG_CTX SRC_OP) (\<lambda>rs.
        if rtype (rs BPF_REG_CTX) \<noteq> PTR_TO_CTX then Err EINVAL
        else
          rbind (if mode = BPF_IND then check_reg_arg rs (bi_src insn) SRC_OP else Ok rs) (\<lambda>rs.
            let rs = reset_caller_saved rs in Ok (rs(0 := rs 0\<lparr>rtype := UNKNOWN_VALUE\<rparr>)))))"

section \<open>Exploring the program\<close>

text \<open>\<open>memcmp\<close> of two register states compares their fields.\<close>

definition states_equal :: "verifier_state \<Rightarrow> verifier_state \<Rightarrow> bool" where
  "states_equal old cur \<longleftrightarrow>
     list_all (\<lambda>r. vregs old r = vregs cur r \<or> rtype (vregs old r) = NOT_INIT \<or>
                   rtype (vregs old r) = UNKNOWN_VALUE \<and> rtype (vregs cur r) \<noteq> NOT_INIT)
       [0, 1, 2, 3, 4, 5, 6, 7, 8, 9, 10] \<and>
     list_all (\<lambda>i. stack_slot_type old i = STACK_INVALID \<or>
                   stack_slot_type old i = stack_slot_type cur i \<and>
                   (i mod BPF_REG_SIZE = 0 \<longrightarrow> spilled_regs old (i div BPF_REG_SIZE) = spilled_regs cur (i div BPF_REG_SIZE)))
       [0..<MAX_BPF_STACK]"

text \<open>
  An entry of \<open>explored_states\<close> is \<open>None\<close> for \<open>NULL\<close>, and the list in front of \<open>STATE_LIST_MARK\<close> otherwise.
  The result tells whether the search can be pruned.
\<close>

type_synonym explored = "nat \<Rightarrow> verifier_state list option"

definition is_state_visited :: "bool \<Rightarrow> nat \<Rightarrow> verifier_state \<Rightarrow> explored \<Rightarrow> (bool \<times> explored) result" where
  "is_state_visited alloc_ok insn_idx cur explored =
     (case explored insn_idx of
        None \<Rightarrow> Ok (False, explored)
      | Some sl \<Rightarrow>
          (if list_ex (\<lambda>old. states_equal old cur) sl then Ok (True, explored)
           else if \<not> alloc_ok then Err ENOMEM
           else Ok (False, explored(insn_idx \<mapsto> cur # sl))))"

text \<open>Where the exploration goes after an instruction: the next instruction with its state, or the end of the path.\<close>

datatype vnext = VCont int verifier_state | VExit

text \<open>The type of pointer an access instruction was seen with is kept in its \<open>imm\<close> field.\<close>

definition mark_access :: "bpf_reg_type \<Rightarrow> bpf_insn \<Rightarrow> bpf_insn result" where
  "mark_access type insn =
     (if bi_imm insn = 0 then Ok (insn\<lparr>bi_imm := type_code type\<rparr>)
      else if type_code type \<noteq> bi_imm insn \<and> (type = PTR_TO_CTX \<or> bi_imm insn = type_code PTR_TO_CTX) then Err EINVAL
      else Ok insn)"

text \<open>
  One iteration of the loop of \<open>do_check\<close> after the pruning: the continuation, the state and position pushed on
  the stack, and the program with its marks.
\<close>

definition check_one :: "verifier_prog \<Rightarrow> bool \<Rightarrow> nat \<Rightarrow> bpf_insn list \<Rightarrow> verifier_state \<Rightarrow>
    (vnext \<times> (int \<times> verifier_state) option \<times> bpf_insn list) result" where
  "check_one p can_push idx insns state =
     (let insn = insns ! idx; code = bi_code insn; class = BPF_CLASS code; rs = vregs state;
          goto = (\<lambda>i st. Ok (VCont i st, None, insns)); next = int idx + 1
      in
      if class = BPF_ALU \<or> class = BPF_ALU64 then
        rbind (check_alu_op p insn rs) (\<lambda>rs. goto next (state\<lparr>vregs := rs\<rparr>))
      else if class = BPF_LDX then
        rbind (check_reg_arg rs (bi_src insn) SRC_OP) (\<lambda>_.
        rbind (check_reg_arg rs (bi_dst insn) DST_OP_NO_MARK) (\<lambda>_.
        rbind (check_mem_access p state (bi_src insn) (bi_off insn) (BPF_SIZE code) False (Some (bi_dst insn))) (\<lambda>state'.
        if BPF_SIZE code \<noteq> BPF_W then goto next state'
        else rbind (mark_access (rtype (rs (bi_src insn))) insn) (\<lambda>insn'. Ok (VCont next state', None, insns[idx := insn'])))))
      else if class = BPF_STX then
        (if BPF_MODE code = BPF_XADD then rbind (check_xadd p insn state) (goto next)
         else
           rbind (check_reg_arg rs (bi_src insn) SRC_OP) (\<lambda>_.
           rbind (check_reg_arg rs (bi_dst insn) SRC_OP) (\<lambda>_.
           rbind (check_mem_access p state (bi_dst insn) (bi_off insn) (BPF_SIZE code) True (Some (bi_src insn))) (\<lambda>state'.
           rbind (mark_access (rtype (rs (bi_dst insn))) insn) (\<lambda>insn'. Ok (VCont next state', None, insns[idx := insn']))))))
      else if class = BPF_ST then
        (if BPF_MODE code \<noteq> BPF_MEM \<or> bi_src insn \<noteq> 0 then Err EINVAL
         else
           rbind (check_reg_arg rs (bi_dst insn) SRC_OP) (\<lambda>_.
           rbind (check_mem_access p state (bi_dst insn) (bi_off insn) (BPF_SIZE code) True None) (goto next)))
      else if class = BPF_JMP then
        (let opcode = BPF_OP code; K = (BPF_SRC code = BPF_K) in
         if opcode = BPF_CALL then
           (if \<not> K \<or> bi_off insn \<noteq> 0 \<or> bi_src insn \<noteq> 0 \<or> bi_dst insn \<noteq> 0 then Err EINVAL
            else rbind (check_call p (bi_imm insn) state) (goto next))
         else if opcode = BPF_JA then
           (if \<not> K \<or> bi_imm insn \<noteq> 0 \<or> bi_src insn \<noteq> 0 \<or> bi_dst insn \<noteq> 0 then Err EINVAL
            else goto (int idx + sint (bi_off insn) + 1) state)
         else if opcode = BPF_EXIT then
           (if \<not> K \<or> bi_imm insn \<noteq> 0 \<or> bi_src insn \<noteq> 0 \<or> bi_dst insn \<noteq> 0 then Err EINVAL
            else
              rbind (check_reg_arg rs BPF_REG_0 SRC_OP) (\<lambda>_.
              if is_pointer_value p rs BPF_REG_0 then Err EACCES else Ok (VExit, None, insns)))
         else
           rbind (check_cond_jmp_op p can_push insn rs) (\<lambda>(rs, jump, other).
             Ok (VCont (if jump then int idx + sint (bi_off insn) + 1 else next) (state\<lparr>vregs := rs\<rparr>),
                 map_option (\<lambda>rs. (int idx + sint (bi_off insn) + 1, state\<lparr>vregs := rs\<rparr>)) other, insns)))
      else if class = BPF_LD then
        (let mode = BPF_MODE code in
         if mode = BPF_ABS \<or> mode = BPF_IND then rbind (check_ld_abs p insn rs) (\<lambda>rs. goto next (state\<lparr>vregs := rs\<rparr>))
         else if mode = BPF_IMM then
           rbind (check_ld_imm insn (if idx + 1 < length insns then Some (insns ! (idx + 1)) else None) rs)
             (\<lambda>rs. goto (int idx + 2) (state\<lparr>vregs := rs\<rparr>))
         else Err EINVAL)
      else Err EINVAL)"

abbreviation (input) MAX_STACK_STATES :: nat where "MAX_STACK_STATES \<equiv> 1024"
abbreviation (input) MAX_PROCESSED :: nat where "MAX_PROCESSED \<equiv> 32768"

text \<open>
  The loop: \<open>n\<close> instructions were processed, \<open>stack\<close> holds the branches still to be explored (\<open>env->head\<close>), and
  \<open>visit_ok n\<close> and \<open>push_ok n\<close> are the outcomes of the two allocations of an iteration. A negative position
  would read in front of the program.
\<close>

function check_loop :: "verifier_prog \<Rightarrow> (nat \<Rightarrow> bool) \<Rightarrow> (nat \<Rightarrow> bool) \<Rightarrow> nat \<Rightarrow> int \<Rightarrow> verifier_state \<Rightarrow>
    (int \<times> verifier_state) list \<Rightarrow> explored \<Rightarrow> bpf_insn list \<Rightarrow> bpf_insn list result" where
  "check_loop p visit_ok push_ok n insn_idx cur stack explored insns =
     (if insn_idx \<ge> int (length insns) then Err EFAULT
      else if insn_idx < 0 then Undef BadIndex
      else if Suc n > MAX_PROCESSED then Err E2BIG
      else
        (case is_state_visited (visit_ok n) (nat insn_idx) cur explored of
           Err e \<Rightarrow> Err e
         | Undef u \<Rightarrow> Undef u
         | Ok (True, explored) \<Rightarrow>
             (case stack of [] \<Rightarrow> Ok insns
              | (i, st) # stack \<Rightarrow> check_loop p visit_ok push_ok (Suc n) i st stack explored insns)
         | Ok (False, explored) \<Rightarrow>
             (case check_one p (push_ok n \<and> length stack < MAX_STACK_STATES) (nat insn_idx) insns cur of
                Err e \<Rightarrow> Err e
              | Undef u \<Rightarrow> Undef u
              | Ok (VExit, _, insns) \<Rightarrow>
                  (case stack of [] \<Rightarrow> Ok insns
                   | (i, st) # stack \<Rightarrow> check_loop p visit_ok push_ok (Suc n) i st stack explored insns)
              | Ok (VCont i st, other, insns) \<Rightarrow>
                  check_loop p visit_ok push_ok (Suc n) i st (case other of None \<Rightarrow> stack | Some b \<Rightarrow> b # stack) explored insns)))"
  by pat_completeness auto
termination
  by (relation "measure (\<lambda>(p, vo, po, n, i, cur, stack, ex, insns). MAX_PROCESSED - n)") auto

declare check_loop.simps [simp del]

text \<open>The first state: \<open>kzalloc\<close> leaves the stack empty.\<close>

definition init_vstate :: verifier_state where
  "init_vstate = \<lparr>vregs = init_reg_state, stack_slot_type = (\<lambda>_. STACK_INVALID), spilled_regs = (\<lambda>_. empty_reg)\<rparr>"

text \<open>\<open>marked\<close> are the entries of \<open>explored_states\<close> that \<open>check_cfg\<close> marked; the environment starts zeroed.\<close>

definition do_check :: "verifier_prog \<Rightarrow> (nat \<Rightarrow> bool) \<Rightarrow> (nat \<Rightarrow> bool) \<Rightarrow> bpf_insn list \<Rightarrow> bool list \<Rightarrow> bpf_insn list result" where
  "do_check p visit_ok push_ok insns marked =
     check_loop p visit_ok push_ok 0 0
       init_vstate []
       (\<lambda>i. if i < length marked \<and> marked ! i then Some [] else None) insns"

end
