(* ===== verification/Bpf_World.thy ===== *)
theory Bpf_World
  imports Bpf_Verifier
begin

text \<open>
  What the register and stack states of the verifier mean: which values and which memory they describe, and that
  the memory accesses the verifier admits stay inside the stack, the context and the map values, and keep the
  description true.
\<close>

section \<open>Areas of memory\<close>

definition span :: "u64 \<Rightarrow> nat \<Rightarrow> u64 set" where
  "span a n = (\<lambda>i. a + of_nat i) ` {..<n}"

lemma span_subset: "k + n \<le> N \<Longrightarrow> span (a + of_nat k) n \<subseteq> span a N"
  by (force simp: span_def add.assoc simp flip: of_nat_add)

lemma mread_dom: "span a n \<subseteq> dom m \<Longrightarrow> \<exists>bs. mread m a n = Some bs"
proof (induction n arbitrary: a)
  case (Suc n)
  have "a \<in> span a (Suc n)" by (force simp: span_def)
  then obtain b where "m a = Some b" using Suc.prems by blast
  moreover have "span (a + 1) n \<subseteq> span a (Suc n)" using span_subset [of 1 n "Suc n" a] by simp
  moreover have "span (a + 1) n \<subseteq> dom m" using calculation(2) Suc.prems by blast
  ultimately show ?case using Suc.IH [of "a + 1"] by auto
qed simp

lemma load_dom: "span a n \<subseteq> dom m \<Longrightarrow> \<exists>v. load m a n = Some v"
  using mread_dom [of a n m] by (auto simp: load_def)

lemma store_dom: "span a n \<subseteq> dom m \<Longrightarrow> \<exists>m'. store m a n v = Some m'"
  using load_dom store_mapped by blast

lemma mwrite_keeps_dom: "mwrite m a bs = Some m' \<Longrightarrow> dom m' = dom m"
proof (induction bs arbitrary: m a)
  case (Cons b bs)
  then obtain c where c: "m a = Some c" and w: "mwrite (m(a \<mapsto> b)) (a + 1) bs = Some m'" by (auto split: option.splits)
  show ?case using Cons.IH [OF w] c by (simp del: fun_upd_apply add: insert_absorb domI)
qed simp

lemma store_keeps_dom: "store m a n v = Some m' \<Longrightarrow> dom m' = dom m"
  by (simp add: store_def mwrite_keeps_dom)

lemma store_load_apart:
  assumes "store m a n v = Some m'" and "span a n \<inter> span b k = {}"
  shows "load m' b k = load m b k"
  using store_load_other [OF assms(1), of k b] assms(2) by (fastforce simp: span_def)

lemma span_apart:
  assumes "k + n \<le> 512" and "j + l \<le> 512" and "k + n \<le> j \<or> j + l \<le> k"
  shows "span (a + of_nat k) n \<inter> span (a + of_nat j) l = {}"
proof -
  have "a + of_nat k + of_nat i \<noteq> a + of_nat j + of_nat i'" if "i < n" "i' < l" for i i'
  proof
    assume "a + of_nat k + of_nat i = a + of_nat j + of_nat i'"
    then have "(of_nat (k + i) :: u64) = of_nat (j + i')" by (simp add: add.assoc)
    then have "k + i = j + i'" using assms that by (subst (asm) of_nat_u64_eq_iff) auto
    then show False using assms(3) that by linarith
  qed
  then show ?thesis by (force simp: span_def)
qed

lemma area_addr:
  assumes "0 \<le> sint (off :: u16)" and "sint off + int sz \<le> int n"
  shows "span (a + scast off) sz \<subseteq> span a n"
proof -
  have "(scast off :: u64) = of_nat (nat (sint off))" using assms(1) by (simp add: of_nat_nat)
  then show ?thesis using assms span_subset [of "nat (sint off)" sz n a] by simp
qed

section \<open>The world of a program\<close>

text \<open>The frame, the context, and the maps with the addresses of their values a program runs with.\<close>

record world =
  w_fp :: u64
  w_ctx :: u64
  w_ctx_size :: nat
  w_maps :: "u64 set"
  w_values :: "u64 \<Rightarrow> u64 set"

definition stack_base :: "world \<Rightarrow> u64" where
  "stack_base W = w_fp W - 512"

definition value_size :: "verifier_prog \<Rightarrow> u64 \<Rightarrow> nat" where
  "value_size p a = unat (mi_value_size (map_at p a))"

definition mem_ok :: "verifier_prog \<Rightarrow> world \<Rightarrow> mem \<Rightarrow> bool" where
  "mem_ok p W m \<longleftrightarrow> span (stack_base W) 512 \<subseteq> dom m \<and> span (w_ctx W) (w_ctx_size W) \<subseteq> dom m \<and>
     (\<forall>a. \<forall>v \<in> w_values W a. span v (value_size p a) \<subseteq> dom m)"

definition frame_apart :: "verifier_prog \<Rightarrow> world \<Rightarrow> bool" where
  "frame_apart p W \<longleftrightarrow> span (stack_base W) 512 \<inter> span (w_ctx W) (w_ctx_size W) = {} \<and>
     (\<forall>a. \<forall>v \<in> w_values W a. span (stack_base W) 512 \<inter> span v (value_size p a) = {})"

text \<open>The contract of the access check of a program type: what it admits lies inside the \<open>n\<close> bytes of the context.\<close>

locale ctx_checker =
  fixes n :: nat and valid :: "int \<Rightarrow> int \<Rightarrow> bool \<Rightarrow> bool"
  assumes inside: "sz \<in> {1, 2, 4, 8 :: nat} \<Longrightarrow> valid off (int sz) w \<Longrightarrow> 0 \<le> off \<and> off + int sz \<le> int n"

text \<open>An admitted access stays away from everything that is apart from the context.\<close>

context ctx_checker
begin

lemma access_area:
  assumes "sz \<in> {1, 2, 4, 8}" and "valid (sint (off :: u16)) (int sz) w"
  shows "span (a + scast off) sz \<subseteq> span a n"
  using area_addr inside [OF assms] by blast

end

section \<open>The meaning of verifier states\<close>

fun type_ok :: "world \<Rightarrow> bpf_reg_type \<Rightarrow> u64 \<Rightarrow> u64 \<Rightarrow> bool" where
  "type_ok W NOT_INIT u v = True"
| "type_ok W UNKNOWN_VALUE u v = True"
| "type_ok W PTR_TO_CTX u v = (v = w_ctx W)"
| "type_ok W CONST_PTR_TO_MAP u v = (v = u \<and> u \<in> w_maps W)"
| "type_ok W PTR_TO_MAP_VALUE u v = (v \<in> w_values W u)"
| "type_ok W PTR_TO_MAP_VALUE_OR_NULL u v = (v = 0 \<or> v \<in> w_values W u)"
| "type_ok W FRAME_PTR u v = (v = w_fp W)"
| "type_ok W PTR_TO_STACK u v = (v = w_fp W + scast (ucast u :: u32))"
| "type_ok W CONST_IMM u v = (v = scast (ucast u :: u32))"

definition val_ok :: "world \<Rightarrow> reg_state \<Rightarrow> u64 \<Rightarrow> bool" where
  "val_ok W r v = type_ok W (rtype r) (ru r) v"

definition stack_ok :: "world \<Rightarrow> verifier_state \<Rightarrow> mem \<Rightarrow> bool" where
  "stack_ok W vs m \<longleftrightarrow>
     (\<forall>k < 64. (\<forall>i < 8. stack_slot_type vs (8 * k + i) = STACK_SPILL) \<longrightarrow>
        (\<exists>v. load m (stack_base W + of_nat (8 * k)) 8 = Some v \<and> val_ok W (spilled_regs vs k) v))"

definition regs_ok :: "world \<Rightarrow> vregs \<Rightarrow> (reg \<Rightarrow> u64) \<Rightarrow> bool" where
  "regs_ok W rs f \<longleftrightarrow> (\<forall>r \<le> 10. val_ok W (rs r) (f r))"

definition state_ok :: "verifier_prog \<Rightarrow> world \<Rightarrow> verifier_state \<Rightarrow> bpf_state \<Rightarrow> bool" where
  "state_ok p W vs st \<longleftrightarrow> regs_ok W (vregs vs) (regs st) \<and> stack_ok W vs (memory st) \<and> mem_ok p W (memory st)"

lemma val_ok_unknown [simp]: "rtype r = UNKNOWN_VALUE \<Longrightarrow> val_ok W r v" "rtype r = NOT_INIT \<Longrightarrow> val_ok W r v"
  by (simp_all add: val_ok_def)

lemma ucast_set_imm [simp]: "reg_imm (set_imm k r) = k" "rtype (set_imm k r) = rtype r"
proof -
  have "(0xFFFFFFFF00000000 :: u64) = push_bit 32 (mask 32)" by (simp add: mask_eq_exp_minus_1 push_bit_eq_mult)
  then have "set_imm k r = r\<lparr>ru := (ru r AND push_bit 32 (mask 32)) OR ucast k\<rparr>" by (simp only: set_imm_def)
  then show "reg_imm (set_imm k r) = k" "rtype (set_imm k r) = rtype r"
    by (auto simp: reg_imm_def bit_simps intro!: bit_word_eqI)
qed

lemma set_imm_rtype [simp]: "set_imm k (r\<lparr>rtype := t\<rparr>) = set_imm k r\<lparr>rtype := t\<rparr>" "reg_imm (r\<lparr>rtype := t\<rparr>) = reg_imm r"
  by (simp_all add: set_imm_def reg_imm_def)

lemma val_ok_imm: "rtype r = CONST_IMM \<Longrightarrow> val_ok W r v \<longleftrightarrow> v = scast (reg_imm r)"
  "rtype r = PTR_TO_STACK \<Longrightarrow> val_ok W r v \<longleftrightarrow> v = w_fp W + scast (reg_imm r)"
  by (simp_all add: val_ok_def reg_imm_def)

lemma regs_okD: "regs_ok W rs f \<Longrightarrow> r \<le> 10 \<Longrightarrow> val_ok W (rs r) (f r)"
  by (simp add: regs_ok_def)

lemma regs_ok_upd: "regs_ok W rs f \<Longrightarrow> val_ok W x v \<Longrightarrow> regs_ok W (rs(r := x)) (f(r := v))"
  by (simp add: regs_ok_def)

lemma mem_ok_dom: "mem_ok p W m \<Longrightarrow> dom m' = dom m \<Longrightarrow> mem_ok p W m'"
  by (simp add: mem_ok_def)

lemma stack_ok_vregs [simp]: "stack_ok W (vs\<lparr>vregs := f\<rparr>) m = stack_ok W vs m"
  by (simp add: stack_ok_def)

section \<open>A state that covers another\<close>

lemma states_equal_covers:
  assumes "states_equal old cur" and "state_ok p W cur st"
  shows "state_ok p W old st"
proof -
  have "val_ok W (vregs old r) (regs st r)" if "r \<le> 10" for r
  proof -
    have "unat r \<le> 10" using that by (simp add: word_le_nat_alt)
    then have "r \<in> set [0, 1, 2, 3, 4, 5, 6, 7, 8, 9, 10]" 
      by (simp add: word_unat_eq_iff) presburger
    then have "vregs old r = vregs cur r \<or> rtype (vregs old r) = NOT_INIT \<or> rtype (vregs old r) = UNKNOWN_VALUE"
      using assms(1) unfolding states_equal_def list_all_iff by blast
    then show ?thesis using assms(2) that by (auto simp: state_ok_def regs_ok_def)
  qed
  moreover have "stack_ok W old (memory st)"
    unfolding stack_ok_def
  proof (intro allI impI)
    fix k :: nat assume k: "k < 64" "\<forall>i < 8. stack_slot_type old (8 * k + i) = STACK_SPILL"
    have slot: "stack_slot_type old j = STACK_INVALID \<or> stack_slot_type old j = stack_slot_type cur j \<and>
        (j mod 8 = 0 \<longrightarrow> spilled_regs old (j div 8) = spilled_regs cur (j div 8))" if "j < 512" for j
      using assms(1) that unfolding states_equal_def list_all_iff by simp
    have "stack_slot_type cur (8 * k + i) = STACK_SPILL" if "i < 8" for i
      using slot [of "8 * k + i"] k that by simp
    moreover have "spilled_regs old k = spilled_regs cur k"
      using slot [of "8 * k"] k(1) k(2) [rule_format, of 0] by simp
    ultimately show "\<exists>v. load (memory st) (stack_base W + of_nat (8 * k)) 8 = Some v \<and> val_ok W (spilled_regs old k) v"
      using assms(2) k(1) by (simp add: state_ok_def stack_ok_def)
  qed
  ultimately show ?thesis using assms(2) by (simp add: state_ok_def regs_ok_def)
qed

section \<open>Addresses of accesses\<close>

lemma sint_add_in_frame:
  assumes "- 512 \<le> sint (scast o16 + x :: u32)" and "sint (scast o16 + x) < 0"
  shows "sint (scast (o16 :: u16) + x :: u32) = sint o16 + sint x"
proof -
  let ?k = "sint o16 + sint x"
  have b: "- (2 ^ 15) \<le> sint o16" "sint o16 < 2 ^ 15" "- (2 ^ 31) \<le> sint x" "sint x < 2 ^ 31"
    using sint_range_size [of o16] sint_range_size [of x] by (simp_all add: word_size)
  have "x = of_int (sint x)" by simp
  then have "(scast o16 :: u32) + x = of_int ?k" by (metis of_int_add scast_eq)
  then have "sint (scast o16 + x) = signed_take_bit 31 ?k" by (simp only: signed_of_int) simp
  then have s: "sint (scast o16 + x) = (?k + 2 ^ 31) mod 2 ^ 32 - 2 ^ 31"
    by (simp only: signed_take_bit_eq_take_bit_shift take_bit_eq_mod) simp
  consider "?k < - (2 ^ 31)" | "- (2 ^ 31) \<le> ?k" "?k < 2 ^ 31" | "2 ^ 31 \<le> ?k" by linarith
  then show ?thesis
  proof cases
    case 1
    then have "(?k + 2 ^ 31) mod 2 ^ 32 = ?k + 2 ^ 31 + 2 ^ 32"
      using b by (intro int_mod_pos_eq [where q = "- 1"]) auto
    then have False using s assms b by simp
    then show ?thesis ..
  next
    case 2
    then show ?thesis using s by simp
  next
    case 3
    then have "(?k + 2 ^ 31) mod 2 ^ 32 = ?k + 2 ^ 31 - 2 ^ 32"
      using b by (intro int_mod_pos_eq [where q = 1]) auto
    then have False using s assms b by simp
    then show ?thesis ..
  qed
qed

lemma frame_addr:
  assumes "- 512 \<le> off" and "off < 0"
  shows "w_fp W + of_int off = stack_base W + of_nat (nat (512 + off))"
proof -
  have "(of_nat (nat (512 + off)) :: u64) = of_int (512 + off)" using assms by (simp add: of_nat_nat)
  then show ?thesis by (simp add: stack_base_def)
qed

lemma bpf_size_to_bytes_cases: "bpf_size_to_bytes b = Ok sz \<Longrightarrow> sz \<in> {1, 2, 4, 8}"
  by (auto simp: bpf_size_to_bytes_def split: if_splits)

lemma aligned_in_frame:
  assumes "sz \<in> {1, 2, 4, 8 :: nat}" and "off mod int sz = 0" and "- 512 \<le> off" and "off < 0"
  shows "nat (512 + off) + sz \<le> 512" and "nat (512 + off) mod sz = 0"
proof -
  have d: "int sz dvd off" using assms(2) by auto
  moreover have "int sz dvd 512" using assms(1) by auto
  ultimately have "int sz dvd int (nat (512 + off))" using assms(3) by simp
  then show "nat (512 + off) mod sz = 0" by (simp only: int_dvd_int_iff mod_eq_0_iff_dvd)
  have "int sz \<le> - off" using d assms(4) by (simp add: zdvd_imp_le)
  then show "nat (512 + off) + sz \<le> 512" using assms(3) by linarith
qed

definition accesses_ok :: "verifier_prog \<Rightarrow> world \<Rightarrow> bool" where
  "accesses_ok p W \<longleftrightarrow> frame_apart p W \<and>
     (\<forall>valid. is_valid_access_op p = Some valid \<longrightarrow> ctx_checker (w_ctx_size W) valid)"

definition readback :: "bool \<Rightarrow> reg option \<Rightarrow> verifier_state \<Rightarrow> verifier_state" where
  "readback write vr vs =
     (case vr of None \<Rightarrow> vs | Some r \<Rightarrow> if write then vs else vs\<lparr>vregs := mark_reg_unknown_value r (vregs vs)\<rparr>)"

lemma check_mem_access_cases:
  assumes chk: "check_mem_access p vs r off bsz write vr = Ok vs'" and v: "val_ok W (vregs vs r) a"
    and m: "mem_ok p W m" and acc: "accesses_ok p W"
  obtains (stack) sz k where "bpf_size_to_bytes bsz = Ok sz" and "k + sz \<le> 512" and "k mod sz = 0"
      and "a + scast off = stack_base W + of_nat k"
      and "(if write then check_stack_write else check_stack_read) vs (int k - 512) sz vr = Ok vs'"
  | (other) sz where "bpf_size_to_bytes bsz = Ok sz" and "span (a + scast off) sz \<subseteq> dom m"
      and "span (a + scast off) sz \<inter> span (stack_base W) 512 = {}" and "vs' = readback write vr vs"
proof -
  let ?r = "vregs vs r"
  obtain sz where sz: "bpf_size_to_bytes bsz = Ok sz" using chk by (auto simp: check_mem_access_def Let_def)
  have area: thesis if "span (a + scast off) sz \<subseteq> A" "A \<subseteq> dom m" "span (stack_base W) 512 \<inter> A = {}" "vs' = readback write vr vs" for A
    using that other [OF sz] by blast
  consider (elem) "rtype ?r = PTR_TO_MAP_VALUE" | (ctx) "rtype ?r = PTR_TO_CTX" | (frame) "rtype ?r \<in> {FRAME_PTR, PTR_TO_STACK}"
    using chk by (auto simp: check_mem_access_def Let_def split: if_splits)
  then show thesis
  proof cases
    case elem
    then have "a \<in> w_values W (ru ?r)" using v by (simp add: val_ok_def)
    moreover have "0 \<le> sint off" "sint off + int sz \<le> int (value_size p (ru ?r))" "vs' = readback write vr vs"
      using chk elem sz by (auto simp: check_mem_access_def check_map_access_def Let_def readback_def value_size_def split: if_splits)
    ultimately show thesis
      using area [of "span a (value_size p (ru ?r))"] area_addr [of off sz "value_size p (ru ?r)" a] m acc
      by (auto simp: mem_ok_def accesses_ok_def frame_apart_def)
  next
    case ctx
    then have "a = w_ctx W" using v by (simp add: val_ok_def)
    moreover obtain valid where "is_valid_access_op p = Some valid" "valid (sint off) (int sz) write" "vs' = readback write vr vs"
      using chk ctx sz by (auto simp: check_mem_access_def check_ctx_access_def Let_def readback_def split: if_splits option.splits)
    moreover have "span (a + scast off) sz \<subseteq> span a (w_ctx_size W)"
      using acc calculation ctx_checker.access_area [OF _ bpf_size_to_bytes_cases [OF sz]] unfolding accesses_ok_def by blast
    ultimately show thesis
      using area [of "span a (w_ctx_size W)"] m acc by (auto simp: mem_ok_def accesses_ok_def frame_apart_def)
  next
    case frame
    define o' where "o' = (if rtype ?r = PTR_TO_STACK then sint (scast off + reg_imm ?r) else sint off)"
    have o': "- 512 \<le> o'" "o' < 0" "o' mod int sz = 0"
        "(if write then check_stack_write else check_stack_read) vs o' sz vr = Ok vs'"
      using chk frame sz unfolding check_mem_access_def Let_def o'_def by (auto split: if_splits)
    have "a + scast off = w_fp W + of_int o'"
    proof (cases "rtype ?r = PTR_TO_STACK")
      case True
      then have "o' = sint off + sint (reg_imm ?r)" using o'(1,2) sint_add_in_frame [of off "reg_imm ?r"] by (simp add: o'_def)
      then show ?thesis using v True by (simp add: val_ok_imm)
    qed (use frame v in \<open>simp add: o'_def val_ok_def\<close>)
    then show thesis
      using stack [OF sz, of "nat (512 + o')"] frame_addr [OF o'(1,2), of W]
        aligned_in_frame [OF bpf_size_to_bytes_cases [OF sz] o'(3,1,2)] o'
      by simp
  qed
qed

section \<open>The stack\<close>

lemma slot_of_aligned:
  assumes "k mod sz = 0" and "sz \<in> {1, 2, 4, 8 :: nat}" and "j \<noteq> k div 8"
  shows "k + sz \<le> 8 * j \<or> 8 * j + 8 \<le> k"
proof -
  obtain q where q: "8 = sz * q" using assms(2) by fastforce
  have k: "k = sz * (k div sz)" using assms(1) by auto
  have "k < 8 * j \<Longrightarrow> k + sz \<le> 8 * j"
  proof -
    assume "k < 8 * j"
    then have "sz * (k div sz) < sz * (q * j)" using k q by (simp add: mult.assoc)
    then have "k div sz + 1 \<le> q * j" by simp
    then have "sz * (k div sz + 1) \<le> sz * (q * j)" by (rule mult_le_mono2)
    moreover have "sz * (q * j) = 8 * j" using q by (metis mult.assoc)
    ultimately show ?thesis using k by (simp add: distrib_left)
  qed
  moreover have "k < 8 * j \<or> 8 * j + 8 \<le> k" using assms(3) by linarith
  ultimately show ?thesis by blast
qed

text \<open>Storing into a part of one slot of the frame keeps the other slots.\<close>

lemma stack_ok_store:
  assumes ok: "stack_ok W vs m" and st: "store m (stack_base W + of_nat k) sz v = Some m'"
    and k: "k + sz \<le> 512" "k mod sz = 0" "sz \<in> {1, 2, 4, 8 :: nat}"
    and other: "\<And>j i. j \<noteq> k div 8 \<Longrightarrow> i < 8 \<Longrightarrow> stack_slot_type vs' (8 * j + i) = stack_slot_type vs (8 * j + i)"
      "\<And>j. j \<noteq> k div 8 \<Longrightarrow> spilled_regs vs' j = spilled_regs vs j"
    and own: "(\<forall>i < 8. stack_slot_type vs' (8 * (k div 8) + i) = STACK_SPILL) \<Longrightarrow> sz = 8 \<and> val_ok W (spilled_regs vs' (k div 8)) v"
  shows "stack_ok W vs' m'"
  unfolding stack_ok_def
proof (intro allI impI)
  fix j :: nat assume j: "j < 64" and sp: "\<forall>i < 8. stack_slot_type vs' (8 * j + i) = STACK_SPILL"
  show "\<exists>w. load m' (stack_base W + of_nat (8 * j)) 8 = Some w \<and> val_ok W (spilled_regs vs' j) w"
  proof (cases "j = k div 8")
    case True
    then have "sz = 8" "val_ok W (spilled_regs vs' j) v" using own sp by auto
    moreover have "8 * j = k" using True k(2) calculation(1) by auto
    ultimately show ?thesis using store_load_same [OF st] by (simp add: take_bit_word_eq_self)
  next
    case False
    have "load m' (stack_base W + of_nat (8 * j)) 8 = load m (stack_base W + of_nat (8 * j)) 8"
      using slot_of_aligned [OF k(2,3) False] k(1) j by (intro store_load_apart [OF st] span_apart) auto
    then show ?thesis using ok j sp other [OF False] by (simp add: stack_ok_def)
  qed
qed

lemma stack_ok_store_apart:
  assumes "stack_ok W vs m" and "store m a n v = Some m'" and "span a n \<inter> span (stack_base W) 512 = {}"
  shows "stack_ok W vs m'"
proof -
  have "load m' (stack_base W + of_nat (8 * k)) 8 = load m (stack_base W + of_nat (8 * k)) 8" if "k < 64" for k
    using span_subset [of "8 * k" 8 512 "stack_base W"] that assms(3)
    by (intro store_load_apart [OF assms(2)]) auto
  then show ?thesis using assms(1) by (simp add: stack_ok_def)
qed

lemma set_slots_other: "j \<noteq> k div 8 \<Longrightarrow> i < 8 \<Longrightarrow> k mod sz = 0 \<Longrightarrow> sz \<in> {1, 2, 4, 8 :: nat} \<Longrightarrow>
    set_slots k sz x f (8 * j + i) = f (8 * j + i)"
  using slot_of_aligned [of k sz j] by (auto simp: set_slots_def)

lemma set_slots_own:
  assumes "\<forall>i < 8. set_slots k sz STACK_MISC f (8 * (k div 8) + i) = STACK_SPILL" and "0 < (sz :: nat)"
  shows False
proof -
  have "8 * (k div 8) + k mod 8 = k" by simp
  then have "set_slots k sz STACK_MISC f k = STACK_SPILL" using assms(1) [rule_format, of "k mod 8"] by simp
  then show False using assms(2) by (simp add: set_slots_def)
qed

lemma check_stack_write_ok:
  assumes chk: "check_stack_write vs (int k - 512) sz vr = Ok vs'" and ok: "stack_ok W vs m"
    and st: "store m (stack_base W + of_nat k) sz v = Some m'" and k: "k + sz \<le> 512" "k mod sz = 0" "sz \<in> {1, 2, 4, 8 :: nat}"
    and v: "\<And>r. vr = Some r \<Longrightarrow> val_ok W (vregs vs r) v"
  shows "stack_ok W vs' m' \<and> vregs vs' = vregs vs"
proof -
  define misc where "misc = vs\<lparr>spilled_regs := (spilled_regs vs)(k div 8 := empty_reg),
    stack_slot_type := set_slots k sz STACK_MISC (stack_slot_type vs)\<rparr>"
  have misc: "stack_ok W misc m'"
  proof (rule stack_ok_store [OF ok st k])
    show "sz = 8 \<and> val_ok W (spilled_regs misc (k div 8)) v"
      if "\<forall>i < 8. stack_slot_type misc (8 * (k div 8) + i) = STACK_SPILL"
      using set_slots_own [of k sz "stack_slot_type vs"] that k(3) by (auto simp: misc_def)
  qed (use set_slots_other [OF _ _ k(2,3)] in \<open>simp_all add: misc_def\<close>)
  consider "vs' = misc" | r where "vr = Some r" "sz = 8" "vs' = vs\<lparr>spilled_regs := (spilled_regs vs)(k div 8 := vregs vs r),
      stack_slot_type := set_slots k 8 STACK_SPILL (stack_slot_type vs)\<rparr>"
    using chk by (auto simp: check_stack_write_def Let_def misc_def split: option.splits if_splits)
  then show ?thesis
  proof cases
    case 1
    then show ?thesis using misc by (simp add: misc_def)
  next
    case 2
    have "stack_ok W vs' m'"
      using v [OF 2(1)] set_slots_other [OF _ _ k(2,3)] 2 by (intro stack_ok_store [OF ok st k]) simp_all
    then show ?thesis using 2 by simp
  qed
qed

lemma check_stack_read_ok:
  assumes chk: "check_stack_read vs (int k - 512) sz vr = Ok vs'" and ok: "stack_ok W vs m"
    and ld: "load m (stack_base W + of_nat k) sz = Some v" and k: "k + sz \<le> 512" "k mod sz = 0"
  shows "case vr of None \<Rightarrow> vs' = vs | Some r \<Rightarrow> \<exists>x. vs' = vs\<lparr>vregs := (vregs vs)(r := x)\<rparr> \<and> val_ok W x v"
proof (cases "stack_slot_type vs k = STACK_SPILL")
  case True
  then have sz: "sz = 8" and sp: "\<forall>i < 8. 1 \<le> i \<longrightarrow> stack_slot_type vs (k + i) = STACK_SPILL"
      and vs': "vs' = (case vr of None \<Rightarrow> vs | Some r \<Rightarrow> vs\<lparr>vregs := (vregs vs)(r := spilled_regs vs (k div 8))\<rparr>)"
    using chk by (auto simp: check_stack_read_def Let_def split: if_splits option.splits)
  have k8: "8 * (k div 8) = k" "k div 8 < 64" using k sz by auto
  have "stack_slot_type vs (k + i) = STACK_SPILL" if "i < 8" for i
    using sp True that by (cases "i = 0") auto
  then have "val_ok W (spilled_regs vs (k div 8)) v"
    using ok [unfolded stack_ok_def, rule_format, of "k div 8"] ld k8 sz by simp
  then show ?thesis using vs' by (auto split: option.splits)
next
  case False
  then show ?thesis using chk
    by (auto simp: check_stack_read_def Let_def mark_reg_unknown_value_def split: if_splits option.splits)
qed

section \<open>Loads and stores of the program\<close>

lemma mem_read_ok:
  assumes chk: "check_mem_access p vs r off bsz False vr = Ok vs'" and ok: "state_ok p W vs st" and r: "r \<le> 10"
    and acc: "accesses_ok p W"
  shows "\<exists>sz v. bpf_size_to_bytes bsz = Ok sz \<and> load (memory st) (regs st r + scast off) sz = Some v \<and>
    (case vr of None \<Rightarrow> vs' = vs | Some d \<Rightarrow> \<exists>x. vs' = vs\<lparr>vregs := (vregs vs)(d := x)\<rparr> \<and> val_ok W x v)"
proof -
  have v: "val_ok W (vregs vs r) (regs st r)" and m: "mem_ok p W (memory st)" and s: "stack_ok W vs (memory st)"
    using ok r by (auto simp: state_ok_def regs_ok_def)
  show ?thesis using chk v m acc
  proof (cases rule: check_mem_access_cases)
    case (stack sz k)
    have "span (stack_base W + of_nat k) sz \<subseteq> dom (memory st)"
      using span_subset [OF stack(2)] m by (auto simp: mem_ok_def)
    then obtain v where "load (memory st) (stack_base W + of_nat k) sz = Some v" using load_dom by blast
    then show ?thesis using check_stack_read_ok [of vs k sz vr vs' W] stack s by fastforce
  next
    case (other sz)
    then obtain v where "load (memory st) (regs st r + scast off) sz = Some v" using load_dom by blast
    moreover have "case vr of None \<Rightarrow> vs' = vs | Some d \<Rightarrow> \<exists>x. vs' = vs\<lparr>vregs := (vregs vs)(d := x)\<rparr> \<and> val_ok W x v"
      using other(4) by (auto simp: readback_def mark_reg_unknown_value_def split: option.splits)
    ultimately show ?thesis using other(1) by blast
  qed
qed

lemma mem_write_ok:
  assumes chk: "check_mem_access p vs r off bsz True vr = Ok vs'" and ok: "state_ok p W vs st" and r: "r \<le> 10"
    and acc: "accesses_ok p W" and x: "\<And>s. vr = Some s \<Longrightarrow> val_ok W (vregs vs s) x"
  shows "\<exists>sz m'. bpf_size_to_bytes bsz = Ok sz \<and> store (memory st) (regs st r + scast off) sz x = Some m' \<and>
    state_ok p W vs' (st\<lparr>memory := m'\<rparr>)"
proof -
  have v: "val_ok W (vregs vs r) (regs st r)" and m: "mem_ok p W (memory st)" and s: "stack_ok W vs (memory st)"
    and f: "regs_ok W (vregs vs) (regs st)"
    using ok r by (auto simp: state_ok_def regs_ok_def)
  have fin: "state_ok p W vs' (st\<lparr>memory := m'\<rparr>)"
    if "store (memory st) a sz x = Some m'" "stack_ok W vs' m'" "vregs vs' = vregs vs" for a sz m'
    using that f mem_ok_dom [OF m store_keeps_dom [OF that(1)]] by (simp add: state_ok_def)
  show ?thesis using chk v m acc
  proof (cases rule: check_mem_access_cases)
    case (stack sz k)
    have "span (stack_base W + of_nat k) sz \<subseteq> dom (memory st)"
      using span_subset [OF stack(2)] m by (auto simp: mem_ok_def)
    then obtain m' where m': "store (memory st) (stack_base W + of_nat k) sz x = Some m'" using store_dom by blast
    have "stack_ok W vs' m' \<and> vregs vs' = vregs vs"
      using check_stack_write_ok [OF _ s m' stack(2,3) bpf_size_to_bytes_cases [OF stack(1)] x] stack(5) by simp
    then show ?thesis using stack(1,4) m' fin by auto
  next
    case (other sz)
    then obtain m' where m': "store (memory st) (regs st r + scast off) sz x = Some m'" using store_dom by blast
    have "vs' = vs" using other(4) by (simp add: readback_def split: option.splits)
    then show ?thesis using stack_ok_store_apart [OF s m' other(3)] other(1) m' fin by auto
  qed
qed

section \<open>The contract of helper functions\<close>

text \<open>
  The arguments of a call with their types. A pointer to a key or a value has the size the map passed before
  says, and a size belongs to the argument in front of it.
\<close>

fun arg_bufs :: "verifier_prog \<Rightarrow> u64 option \<Rightarrow> u64 option \<Rightarrow> (bpf_arg_type \<times> u64) list \<Rightarrow> (u64 \<times> nat) list" where
  "arg_bufs p mapp prev [] = []"
| "arg_bufs p mapp prev ((t, v) # args) =
     (case (t, mapp, prev) of
        (ARG_PTR_TO_MAP_KEY, Some a, _) \<Rightarrow> [(v, unat (mi_key_size (map_at p a)))]
      | (ARG_PTR_TO_MAP_VALUE, Some a, _) \<Rightarrow> [(v, value_size p a)]
      | (ARG_CONST_STACK_SIZE, _, Some b) \<Rightarrow> [(b, unat v)]
      | _ \<Rightarrow> []) @ arg_bufs p (if t = ARG_CONST_MAP_PTR then Some v else mapp) (Some v) args"

fun arg_map :: "u64 option \<Rightarrow> (bpf_arg_type \<times> u64) list \<Rightarrow> u64 option" where
  "arg_map mapp [] = mapp"
| "arg_map mapp ((t, v) # args) = arg_map (if t = ARG_CONST_MAP_PTR then Some v else mapp) args"

fun arg_typed :: "world \<Rightarrow> bpf_arg_type \<Rightarrow> u64 \<Rightarrow> bool" where
  "arg_typed W ARG_CONST_MAP_PTR v = (v \<in> w_maps W)"
| "arg_typed W ARG_PTR_TO_CTX v = (v = w_ctx W)"
| "arg_typed W t v = True"

definition in_frame :: "world \<Rightarrow> (nat \<Rightarrow> bool) \<Rightarrow> u64 \<times> nat \<Rightarrow> bool" where
  "in_frame W P b \<longleftrightarrow> (\<exists>k. k + snd b \<le> 512 \<and> fst b = stack_base W + of_nat k \<and> (\<forall>i < snd b. P (k + i)))"

text \<open>
  What the verifier relies on: a helper that is called with arguments of its types, with buffers inside the
  frame, maps and unmaps nothing, changes the frame only inside the buffers, and returns what its type says.
\<close>

definition helpers_ok :: "verifier_prog \<Rightarrow> world \<Rightarrow> bpf_env \<Rightarrow> bool" where
  "helpers_ok p W env \<longleftrightarrow>
     (\<forall>id protos fn vals m. get_func_proto p = Some protos \<longrightarrow> protos (unat id) = Some fn \<longrightarrow> length vals = 5 \<longrightarrow> mem_ok p W m \<longrightarrow>
        (let args = zip (arg_types fn) vals; bufs = arg_bufs p None None args; (r, m') = env_call env id vals m in
         list_all (\<lambda>(t, v). arg_typed W t v) args \<longrightarrow> list_all (in_frame W (\<lambda>_. True)) bufs \<longrightarrow>
         dom m' = dom m \<and>
         (\<forall>a \<in> span (stack_base W) 512. m' a = m a \<or> (\<exists>(b, n) \<in> set bufs. a \<in> span b n)) \<and>
         (ret_type fn = RET_PTR_TO_MAP_VALUE_OR_NULL \<longrightarrow>
            (case arg_map None args of None \<Rightarrow> True | Some a \<Rightarrow> r = 0 \<or> r \<in> w_values W a))))"

lemma check_stack_boundary_ok:
  assumes "check_stack_boundary vs r n = Ok ()" and "val_ok W (vregs vs r) a"
  shows "in_frame W (\<lambda>i. stack_slot_type vs i = STACK_MISC) (a, unat n) \<and> 0 < sint n"
proof -
  let ?off = "sint (reg_imm (vregs vs r))"
  have off: "- 512 \<le> ?off" "?off < 0" and n: "sint (reg_imm (vregs vs r) + n) \<le> 0" "0 < sint n"
    and misc: "\<forall>i < unat n. stack_slot_type vs (nat (512 + ?off) + i) = STACK_MISC" and t: "rtype (vregs vs r) = PTR_TO_STACK"
    using assms(1) by (auto simp: check_stack_boundary_def Let_def split: if_splits)
  have un: "int (unat n) = sint n" using n(2) sint_nonneg_eq_uint [of n] by simp
  have "sint n < 2 ^ 31" using sint_range_size [of n] by (simp add: word_size)
  then have "sint (reg_imm (vregs vs r) + n) = ?off + sint n"
    using off n(2) by (simp add: sint_word_add signed_take_bit_int_eq_self)
  then have "nat (512 + ?off) + unat n \<le> 512" using n(1) off un by linarith
  moreover have "a = stack_base W + of_nat (nat (512 + ?off))"
    using assms(2) t frame_addr [OF off, of W] by (simp add: val_ok_imm)
  ultimately show ?thesis using misc n(2) by (auto simp: in_frame_def)
qed

fun consecutive :: "reg \<Rightarrow> (reg \<times> bpf_arg_type) list \<Rightarrow> bool" where
  "consecutive r [] = True"
| "consecutive r ((s, t) # args) = (s = r \<and> s \<le> 10 \<and> s - 1 \<le> 10 \<and> consecutive (r + 1) args)"

lemma check_func_arg_ok:
  assumes chk: "check_func_arg p vs r t mapp = Ok mapp'" and ok: "regs_ok W (vregs vs) f" and r: "r \<le> 10" "r - 1 \<le> 10"
    and prev: "prev = None \<or> prev = Some (f (r - 1))"
  shows "arg_typed W t (f r) \<and> mapp' = (if t = ARG_CONST_MAP_PTR then Some (f r) else mapp) \<and>
    list_all (in_frame W (\<lambda>i. stack_slot_type vs i = STACK_MISC)) (arg_bufs p mapp prev [(t, f r)])"
proof -
  note v = regs_okD [OF ok r(1)] regs_okD [OF ok r(2)]
  show ?thesis
  proof (cases t)
    case ARG_CONST_MAP_PTR
    then show ?thesis using chk v(1) by (auto simp: check_func_arg_def Let_def val_ok_def split: if_splits)
  next
    case ARG_PTR_TO_CTX
    then show ?thesis using chk v(1) by (auto simp: check_func_arg_def Let_def val_ok_def split: if_splits)
  next
    case ARG_PTR_TO_MAP_KEY
    then obtain a where "mapp = Some a" "mapp' = mapp" "check_stack_boundary vs r (mi_key_size (map_at p a)) = Ok ()"
      using chk by (auto simp: check_func_arg_def Let_def split: if_splits option.splits)
    then show ?thesis using check_stack_boundary_ok v(1) ARG_PTR_TO_MAP_KEY by simp
  next
    case ARG_PTR_TO_MAP_VALUE
    then obtain a where "mapp = Some a" "mapp' = mapp" "check_stack_boundary vs r (mi_value_size (map_at p a)) = Ok ()"
      using chk by (auto simp: check_func_arg_def Let_def split: if_splits option.splits)
    then show ?thesis using check_stack_boundary_ok v(1) ARG_PTR_TO_MAP_VALUE by (simp add: value_size_def)
  next
    case ARG_CONST_STACK_SIZE
    then have c: "mapp' = mapp" "check_stack_boundary vs (r - 1) (reg_imm (vregs vs r)) = Ok ()" "rtype (vregs vs r) = CONST_IMM"
      using chk by (auto simp: check_func_arg_def Let_def split: if_splits)
    then have b: "in_frame W (\<lambda>i. stack_slot_type vs i = STACK_MISC) (f (r - 1), unat (reg_imm (vregs vs r)))" "0 < sint (reg_imm (vregs vs r))"
      using check_stack_boundary_ok v(2) by blast+
    have "unat (f r) = unat (reg_imm (vregs vs r))"
      using v(1) c(3) b(2) scast_eq_ucast_nonneg [of "reg_imm (vregs vs r)"] by (simp add: val_ok_imm)
    then show ?thesis using b(1) c(1) prev ARG_CONST_STACK_SIZE by auto
  qed (use chk in \<open>auto simp: check_func_arg_def Let_def split: if_splits\<close>)
qed

lemma arg_bufs_Cons:
  "arg_bufs p mapp prev ((t, v) # args) =
     arg_bufs p mapp prev [(t, v)] @ arg_bufs p (if t = ARG_CONST_MAP_PTR then Some v else mapp) (Some v) args"
  by simp

lemma check_args_ok:
  assumes "check_args p vs rts mapp = Ok mapp'" and "regs_ok W (vregs vs) f" and "consecutive r rts"
    and "prev = None \<or> prev = Some (f (r - 1))"
  defines "args \<equiv> map (\<lambda>(r, t). (t, f r)) rts"
  shows "list_all (\<lambda>(t, v). arg_typed W t v) args \<and> arg_map mapp args = mapp' \<and>
    list_all (in_frame W (\<lambda>i. stack_slot_type vs i = STACK_MISC)) (arg_bufs p mapp prev args)"
  using assms(1,3,4) unfolding args_def
proof (induction rts arbitrary: mapp r prev)
  case (Cons rt rts)
  obtain t where rt: "rt = (r, t)" and r: "r \<le> 10" "r - 1 \<le> 10" and c: "consecutive (r + 1) rts"
    using Cons.prems(2) by (cases rt) auto
  obtain mapp1 where c1: "check_func_arg p vs r t mapp = Ok mapp1" and c2: "check_args p vs rts mapp1 = Ok mapp'"
    using Cons.prems(1) rt by auto
  note arg = check_func_arg_ok [OF c1 assms(2) r Cons.prems(3)]
  have "Some (f r) = None \<or> Some (f r) = Some (f (r + 1 - 1))" by simp
  note IH = Cons.IH [OF c2 c this]
  have m1: "mapp1 = (if t = ARG_CONST_MAP_PTR then Some (f r) else mapp)" using arg by blast
  show ?case using arg IH [unfolded m1] arg_bufs_Cons [of p mapp prev t "f r" "map (\<lambda>(r, t). (t, f r)) rts"] rt
    by (simp del: arg_bufs.simps)
qed simp

lemma in_frame_mono: "in_frame W P b \<Longrightarrow> in_frame W (\<lambda>_. True) b"
  by (auto simp: in_frame_def)

text \<open>A call that only changes buffers without spilled registers keeps the frame.\<close>

lemma stack_ok_call:
  assumes ok: "stack_ok W vs m"
    and bufs: "list_all (in_frame W (\<lambda>i. stack_slot_type vs i = STACK_MISC)) bufs"
    and m': "\<forall>a \<in> span (stack_base W) 512. m' a = m a \<or> (\<exists>(b, n) \<in> set bufs. a \<in> span b n)"
  shows "stack_ok W vs m'"
  unfolding stack_ok_def
proof (intro allI impI)
  fix k :: nat assume k: "k < 64" and sp: "\<forall>i < 8. stack_slot_type vs (8 * k + i) = STACK_SPILL"
  have "m' (stack_base W + of_nat (8 * k) + of_nat i) = m (stack_base W + of_nat (8 * k) + of_nat i)" if i: "i < 8" for i
  proof (rule ccontr)
    let ?a = "stack_base W + of_nat (8 * k) + of_nat i"
    assume "m' ?a \<noteq> m ?a"
    moreover have "?a \<in> span (stack_base W + of_nat (8 * k)) 8" using i by (auto simp: span_def)
    then have "?a \<in> span (stack_base W) 512" using span_subset [of "8 * k" 8 512 "stack_base W"] k by auto
    ultimately obtain b n where b: "(b, n) \<in> set bufs" "?a \<in> span b n" using m' by blast
    then obtain j where j: "j + n \<le> 512" "b = stack_base W + of_nat j" "\<forall>i < n. stack_slot_type vs (j + i) = STACK_MISC"
      using bufs by (auto simp: list_all_iff in_frame_def)
    then obtain i' where i': "i' < n" "(of_nat (8 * k + i) :: u64) = of_nat (j + i')"
      using b(2) by (auto simp: span_def add.assoc)
    then have "8 * k + i = j + i'" using j(1) k i by (subst (asm) of_nat_u64_eq_iff) auto
    then show False using sp i j(3) i'(1) by (metis stack_slot.distinct(5))
  qed
  then have "load m' (stack_base W + of_nat (8 * k)) 8 = load m (stack_base W + of_nat (8 * k)) 8"
    using mread_cong [of 8 m' "stack_base W + of_nat (8 * k)" m] by (simp add: load_def)
  then show "\<exists>v. load m' (stack_base W + of_nat (8 * k)) 8 = Some v \<and> val_ok W (spilled_regs vs k) v"
    using ok k sp by (simp add: stack_ok_def)
qed

lemma reset_caller_saved_ok: "regs_ok W rs f \<Longrightarrow> regs_ok W (reset_caller_saved rs) f"
  by (simp add: regs_ok_def reset_caller_saved_def)

lemma regs_ok_dst: "regs_ok W rs f \<Longrightarrow> rtype x \<in> {UNKNOWN_VALUE, NOT_INIT} \<Longrightarrow> regs_ok W (rs(r := x)) (f(r := v))"
  by (auto intro: regs_ok_upd)

lemma zip_map_swap: "zip ts (map f rs) = map (\<lambda>(r, t). (t, f r)) (zip rs ts)"
proof (induction rs arbitrary: ts)
  case (Cons r rs)
  then show ?case by (cases ts) auto
qed simp

lemma check_call_ok:
  assumes chk: "check_call p func vs = Ok vs'" and ok: "state_ok p W vs st" and h: "helpers_ok p W env"
    and call: "env_call env func (map (regs st) [1, 2, 3, 4, 5]) (memory st) = (r, m')"
  shows "state_ok p W vs' (set_reg 0 r (st\<lparr>memory := m'\<rparr>))"
proof -
  have f: "regs_ok W (vregs vs) (regs st)" and s: "stack_ok W vs (memory st)" and m: "mem_ok p W (memory st)"
    using ok by (auto simp: state_ok_def)
  obtain protos fn mapp rs where fn: "get_func_proto p = Some protos" "protos (unat func) = Some fn"
    and args: "check_args p vs (zip [1, 2, 3, 4, 5] (arg_types fn)) None = Ok mapp" and vs': "vs' = vs\<lparr>vregs := rs\<rparr>"
    and rs: "(case ret_type fn of
        RET_INTEGER \<Rightarrow> Ok ((reset_caller_saved (vregs vs))(0 := reset_caller_saved (vregs vs) 0\<lparr>rtype := UNKNOWN_VALUE\<rparr>))
      | RET_VOID \<Rightarrow> Ok ((reset_caller_saved (vregs vs))(0 := reset_caller_saved (vregs vs) 0\<lparr>rtype := NOT_INIT\<rparr>))
      | RET_PTR_TO_MAP_VALUE_OR_NULL \<Rightarrow> (case mapp of None \<Rightarrow> Err EINVAL
         | Some a \<Rightarrow> Ok ((reset_caller_saved (vregs vs))(0 := \<lparr>rtype = PTR_TO_MAP_VALUE_OR_NULL, ru = a\<rparr>)))) = Ok rs"
    using chk by (auto simp: check_call_def Let_def split: if_splits option.splits)
  define vals where "vals = map (regs st) [1, 2, 3, 4, 5]"
  have len: "length vals = 5" by (simp add: vals_def)
  define A where "A = zip (arg_types fn) vals"
  have A: "A = map (\<lambda>(r, t). (t, regs st r)) (zip [1, 2, 3, 4, 5] (arg_types fn))"
    unfolding A_def vals_def by (rule zip_map_swap)
  have cons: "consecutive 1 (zip [1, 2, 3, 4, 5] (arg_types fn))"
    by (simp add: zip_Cons1 split: list.split)
  have a: "list_all (\<lambda>(t, v). arg_typed W t v) A" "arg_map None A = mapp"
    "list_all (in_frame W (\<lambda>i. stack_slot_type vs i = STACK_MISC)) (arg_bufs p None None A)"
    using check_args_ok [OF args f cons, of None] unfolding A by simp_all
  have "list_all (in_frame W (\<lambda>_. True)) (arg_bufs p None None A)"
    using a(3) by (auto simp: list_all_iff intro: in_frame_mono)
  then have post: "dom m' = dom (memory st)"
    "\<forall>a \<in> span (stack_base W) 512. m' a = memory st a \<or> (\<exists>(b, n) \<in> set (arg_bufs p None None A). a \<in> span b n)"
    "ret_type fn = RET_PTR_TO_MAP_VALUE_OR_NULL \<Longrightarrow> (case mapp of None \<Rightarrow> True | Some a \<Rightarrow> r = 0 \<or> r \<in> w_values W a)"
    using h [unfolded helpers_ok_def, rule_format, OF fn len m] call [folded vals_def] a(1,2)
    by (simp_all add: Let_def A_def)
  have "regs_ok W rs ((regs st)(0 := r))"
    using rs post(3) reset_caller_saved_ok [OF f]
    by (auto split: bpf_return_type.splits option.splits intro!: regs_ok_upd simp: val_ok_def)
  then show ?thesis using stack_ok_call [OF s a(3) post(2)] mem_ok_dom [OF m post(1)] vs'
    by (simp add: state_ok_def set_reg_def)
qed

end
