(* ===== verification/Bpf_Verifier_Sound.thy ===== *)
theory Bpf_Verifier_Sound
  imports Bpf_World
begin

text \<open>
  The verifier is sound: a program that \<open>do_check\<close> accepts only accesses the stack, the context and map values, never
  uses a register number out of range and never leaves the program. The simulation relates each instruction of
  the interpreter to the check of that instruction; the states the search processed are closed under it.
\<close>

section \<open>Opcodes of the labels\<close>

fun alu_bits :: "alu_op \<Rightarrow> u8" where
  "alu_bits A_ADD = BPF_ADD" | "alu_bits A_SUB = BPF_SUB" | "alu_bits A_AND = BPF_AND" | "alu_bits A_OR = BPF_OR"
| "alu_bits A_LSH = BPF_LSH" | "alu_bits A_RSH = BPF_RSH" | "alu_bits A_XOR = BPF_XOR" | "alu_bits A_MUL = BPF_MUL"

fun jmp_bits :: "jmp_op \<Rightarrow> u8" where
  "jmp_bits J_EQ = BPF_JEQ" | "jmp_bits J_NE = BPF_JNE" | "jmp_bits J_GT = BPF_JGT" | "jmp_bits J_GE = BPF_JGE"
| "jmp_bits J_SGT = BPF_JSGT" | "jmp_bits J_SGE = BPF_JSGE" | "jmp_bits J_SET = BPF_JSET"

fun size_bits :: "bsize \<Rightarrow> u8" where
  "size_bits SZ_B = BPF_B" | "size_bits SZ_H = BPF_H" | "size_bits SZ_W = BPF_W" | "size_bits SZ_DW = BPF_DW"

fun alu_code :: "alu_label \<Rightarrow> u8" where
  "alu_code (ALU64_X oper) = BPF_ALU64 OR alu_bits oper OR BPF_X"
| "alu_code (ALU_X oper) = BPF_ALU OR alu_bits oper OR BPF_X"
| "alu_code (ALU64_K oper) = BPF_ALU64 OR alu_bits oper"
| "alu_code (ALU_K oper) = BPF_ALU OR alu_bits oper"
| "alu_code ALU_NEG = BPF_ALU OR BPF_NEG"
| "alu_code ALU64_NEG = BPF_ALU64 OR BPF_NEG"
| "alu_code ALU_MOV_X = BPF_ALU OR BPF_MOV OR BPF_X"
| "alu_code ALU_MOV_K = BPF_ALU OR BPF_MOV"
| "alu_code ALU64_MOV_X = BPF_ALU64 OR BPF_MOV OR BPF_X"
| "alu_code ALU64_MOV_K = BPF_ALU64 OR BPF_MOV"
| "alu_code ALU64_ARSH_X = BPF_ALU64 OR BPF_ARSH OR BPF_X"
| "alu_code ALU64_ARSH_K = BPF_ALU64 OR BPF_ARSH"
| "alu_code ALU64_MOD_X = BPF_ALU64 OR BPF_MOD OR BPF_X"
| "alu_code ALU_MOD_X = BPF_ALU OR BPF_MOD OR BPF_X"
| "alu_code ALU64_MOD_K = BPF_ALU64 OR BPF_MOD"
| "alu_code ALU_MOD_K = BPF_ALU OR BPF_MOD"
| "alu_code ALU64_DIV_X = BPF_ALU64 OR BPF_DIV OR BPF_X"
| "alu_code ALU_DIV_X = BPF_ALU OR BPF_DIV OR BPF_X"
| "alu_code ALU64_DIV_K = BPF_ALU64 OR BPF_DIV"
| "alu_code ALU_DIV_K = BPF_ALU OR BPF_DIV"
| "alu_code ALU_END_TO_BE = BPF_ALU OR BPF_END OR BPF_TO_BE"
| "alu_code ALU_END_TO_LE = BPF_ALU OR BPF_END OR BPF_TO_LE"

fun label_code :: "label \<Rightarrow> u8 option" where
  "label_code (L_ALU l) = Some (alu_code l)"
| "label_code (L_JMP JMP_CALL) = Some (BPF_JMP OR BPF_CALL)"
| "label_code (L_JMP JMP_TAIL_CALL) = Some (BPF_JMP OR BPF_CALL OR BPF_X)"
| "label_code (L_JMP JMP_JA) = Some (BPF_JMP OR BPF_JA)"
| "label_code (L_JMP (JMP_X oper)) = Some (BPF_JMP OR jmp_bits oper OR BPF_X)"
| "label_code (L_JMP (JMP_K oper)) = Some (BPF_JMP OR jmp_bits oper)"
| "label_code (L_JMP JMP_EXIT) = Some (BPF_JMP OR BPF_EXIT)"
| "label_code (L_MEM (STX_MEM sz)) = Some (BPF_STX OR BPF_MEM OR size_bits sz)"
| "label_code (L_MEM (ST_MEM sz)) = Some (BPF_ST OR BPF_MEM OR size_bits sz)"
| "label_code (L_MEM (LDX_MEM sz)) = Some (BPF_LDX OR BPF_MEM OR size_bits sz)"
| "label_code (L_MEM STX_XADD_W) = Some (BPF_STX OR BPF_XADD OR BPF_W)"
| "label_code (L_MEM STX_XADD_DW) = Some (BPF_STX OR BPF_XADD OR BPF_DW)"
| "label_code (L_LD LD_IMM_DW) = Some (BPF_LD OR BPF_IMM OR BPF_DW)"
| "label_code (L_LD (LD_ABS sz)) = Some (BPF_LD OR BPF_ABS OR size_bits sz)"
| "label_code (L_LD (LD_IND sz)) = Some (BPF_LD OR BPF_IND OR size_bits sz)"
| "label_code default_label = None"

lemma jumptable_code: "jumptable c = default_label \<or> label_code (jumptable c) = Some c"
proof -
  have "list_all (\<lambda>(c, l). label_code l = Some c) jumptable_entries"
    by (simp add: jumptable_entries_def)
  then show ?thesis by (auto simp: jumptable_def list_all_iff split: option.splits dest!: map_of_SomeD)
qed

section \<open>Faults that remain\<close>

text \<open>The verifier does not look at the values of register operands: these instructions may still fault.\<close>

fun label_fault :: "label \<Rightarrow> fault \<Rightarrow> bool" where
  "label_fault (L_ALU (ALU64_X oper)) u = (oper \<in> {A_LSH, A_RSH} \<and> u = BadShift)"
| "label_fault (L_ALU (ALU_X oper)) u = (oper \<in> {A_LSH, A_RSH} \<and> u = BadShift)"
| "label_fault (L_ALU ALU64_ARSH_X) u = (u = BadShift)"
| "label_fault (L_ALU ALU_DIV_X) u = (u = DivZero)"
| "label_fault (L_ALU ALU_MOD_X) u = (u = DivZero)"
| "label_fault _ u = False"

definition may_fault :: "bpf_insn \<Rightarrow> fault \<Rightarrow> bool" where
  "may_fault i u \<longleftrightarrow> label_fault (jumptable (bi_code i)) u"

text \<open>
  The effect of an instruction matches the check of it: execution goes on in one of the states the check
  gave, returns, or runs into a fault of the instruction.
\<close>

definition reaches :: "verifier_prog \<Rightarrow> world \<Rightarrow> vnext \<Rightarrow> (int \<times> verifier_state) option \<Rightarrow> bpf_state \<Rightarrow> bool" where
  "reaches p W nx other st \<longleftrightarrow> (\<exists>vs. (nx = VCont (insn_pc st) vs \<or> other = Some (insn_pc st, vs)) \<and> state_ok p W vs st)"

fun vstep_ok :: "verifier_prog \<Rightarrow> world \<Rightarrow> bpf_insn list \<Rightarrow> bpf_insn \<Rightarrow> vnext \<Rightarrow> (int \<times> verifier_state) option \<Rightarrow>
    bpf_state outcome \<Rightarrow> bool" where
  "vstep_ok p W q i nx other (Cont st) = (insn_prog st = q \<and> reaches p W nx other st)"
| "vstep_ok p W q i nx other (Return r) = True"
| "vstep_ok p W q i nx other (Crash u) = may_fault i u"

definition reg_nums_ok :: "bpf_insn \<Rightarrow> bool" where
  "reg_nums_ok i \<longleftrightarrow> (let l = jumptable (bi_code i) in (uses_dst l \<longrightarrow> bi_dst i \<le> 10) \<and> (uses_src l \<longrightarrow> bi_src i \<le> 10))"

lemma check_reg_arg_src: "check_reg_arg rs r SRC_OP = Ok rs' \<longleftrightarrow> r \<le> 10 \<and> rtype (rs r) \<noteq> NOT_INIT \<and> rs' = rs"
  by (auto simp: check_reg_arg_def not_le split: if_splits)

lemma check_reg_arg_dst: "check_reg_arg rs r DST_OP = Ok rs' \<longleftrightarrow> r \<le> 10 \<and> r \<noteq> 10 \<and> rs' = mark_reg_unknown_value r rs"
  by (auto simp: check_reg_arg_def not_le split: if_splits)

lemma check_reg_arg_no_mark: "check_reg_arg rs r DST_OP_NO_MARK = Ok rs' \<longleftrightarrow> r \<le> 10 \<and> r \<noteq> 10 \<and> rs' = rs"
  by (auto simp: check_reg_arg_def not_le split: if_splits)

lemmas check_reg_arg_simps = check_reg_arg_src check_reg_arg_dst check_reg_arg_no_mark

section \<open>Arithmetic\<close>

text \<open>What the check of an arithmetic instruction makes of the destination.\<close>

lemma check_alu_op_shape:
  assumes "check_alu_op p i rs = Ok rs'"
  shows "bi_dst i \<le> 10 \<and> (BPF_SRC (bi_code i) = BPF_X \<and> BPF_OP (bi_code i) \<noteq> BPF_END \<longrightarrow> bi_src i \<le> 10) \<and>
    (\<exists>x. rs' = rs(bi_dst i := x) \<and>
      (if BPF_OP (bi_code i) = BPF_MOV \<and> BPF_SRC (bi_code i) = BPF_X \<and> BPF_CLASS (bi_code i) = BPF_ALU64
       then x = mark_reg_unknown_value (bi_dst i) rs (bi_src i)
       else if BPF_OP (bi_code i) = BPF_MOV \<and> BPF_SRC (bi_code i) \<noteq> BPF_X then rtype x = CONST_IMM \<and> reg_imm x = bi_imm i
       else if BPF_OP (bi_code i) = BPF_ADD \<and> BPF_CLASS (bi_code i) = BPF_ALU64 \<and> rtype (rs (bi_dst i)) = FRAME_PTR \<and>
               BPF_SRC (bi_code i) \<noteq> BPF_X then rtype x = PTR_TO_STACK \<and> reg_imm x = bi_imm i
       else rtype x = UNKNOWN_VALUE))"
  using assms unfolding check_alu_op_def Let_def
  by (auto simp: check_reg_arg_simps mark_reg_unknown_value_def split: if_splits)

lemma check_alu_op_const:
  assumes "check_alu_op p i rs = Ok rs'" and "BPF_SRC (bi_code i) \<noteq> BPF_X"
  shows "BPF_OP (bi_code i) \<in> {BPF_MOD, BPF_DIV} \<Longrightarrow> bi_imm i \<noteq> 0"
    and "BPF_OP (bi_code i) \<in> {BPF_LSH, BPF_RSH, BPF_ARSH} \<Longrightarrow>
      0 \<le> sint (bi_imm i) \<and> sint (bi_imm i) < (if BPF_CLASS (bi_code i) = BPF_ALU64 then 64 else 32)"
  using assms unfolding check_alu_op_def Let_def
  by (auto simp: check_reg_arg_simps not_less split: if_splits)

lemma unat_shift: "0 \<le> sint (k :: u32) \<Longrightarrow> sint k < int n \<Longrightarrow> unat k < n \<and> unat (scast k :: u64) < n"
proof -
  assume k: "0 \<le> sint k" "sint k < int n"
  then have "int (unat k) = sint k" using sint_nonneg_eq_uint [of k] by simp
  then have "unat k < n" using k by linarith
  then show ?thesis using scast_eq_ucast_nonneg [OF k(1)] by simp
qed

lemma scast_eq_0: "(scast (k :: u32) :: u64) = 0 \<longleftrightarrow> k = 0"
  by (metis scast_u32_u64_u32 ucast_0 signed_0)

lemma alu_eval_total: "oper \<notin> {A_LSH, A_RSH} \<or> unat b < LENGTH('a) \<Longrightarrow> \<exists>v. alu_eval oper (a :: 'a::len word) b = Ok v"
  by (cases oper) auto

lemma alu_eval_X: "alu_eval oper a b = Undef BadShift \<and> oper \<in> {A_LSH, A_RSH} \<or> (\<exists>v. alu_eval oper a b = Ok v)"
  by (cases oper) auto

text \<open>The effect of an arithmetic label on the state.\<close>

definition alu_effect :: "alu_label \<Rightarrow> bpf_insn \<Rightarrow> bpf_state \<Rightarrow> bpf_state outcome \<Rightarrow> bool" where
  "alu_effect l i st out \<longleftrightarrow>
     (case out of Cont st' \<Rightarrow> \<exists>v. Cont st' = CONT (set_reg (bi_dst i) v st) \<and>
         (l = ALU64_MOV_X \<longrightarrow> v = regs st (bi_src i)) \<and> (l = ALU64_MOV_K \<longrightarrow> v = scast (bi_imm i)) \<and>
         (l = ALU_MOV_K \<longrightarrow> v = ucast (bi_imm i)) \<and> (l = ALU64_K A_ADD \<longrightarrow> v = regs st (bi_dst i) + scast (bi_imm i))
      | Return r \<Rightarrow> True | Crash u \<Rightarrow> label_fault (L_ALU l) u)"

lemma alu_effect_CONT: "alu_effect l i st (CONT (set_reg (bi_dst i) v st))"
  if "l = ALU64_MOV_X \<Longrightarrow> v = regs st (bi_src i)" "l = ALU64_MOV_K \<Longrightarrow> v = scast (bi_imm i)"
    "l = ALU_MOV_K \<Longrightarrow> v = ucast (bi_imm i)" "l = ALU64_K A_ADD \<Longrightarrow> v = regs st (bi_dst i) + scast (bi_imm i)"
  using that unfolding alu_effect_def by (auto simp: CONT_def)

lemma CONT_set_reg_self: "CONT st = CONT (set_reg r (regs st r) st)"
  by (simp add: CONT_def set_reg_def)

lemma exec_alu_effect:
  assumes "check_alu_op p i rs = Ok rs'" and "bi_code i = alu_code l"
  shows "alu_effect l i st (exec_alu l i st)"
proof -
  note K = check_alu_op_const [OF assms(1), unfolded assms(2)]
  have shift: "unat (bi_imm i) < n \<and> unat (scast (bi_imm i) :: u64) < n"
    if "0 \<le> sint (bi_imm i) \<and> sint (bi_imm i) < int n" for n using unat_shift that by blast
  show ?thesis
  proof (cases l)
    case (ALU64_K oper)
    have "\<exists>v. alu_eval oper (regs st (bi_dst i)) (scast (bi_imm i)) = Ok v"
      using K(2) shift [of 64] ALU64_K by (intro alu_eval_total) (cases oper; simp add: bpf_fields)
    then show ?thesis using ALU64_K by (auto intro!: alu_effect_CONT)
  next
    case (ALU_K oper)
    have "\<exists>v. alu_eval oper (ucast (regs st (bi_dst i)) :: u32) (bi_imm i) = Ok v"
      using K(2) shift [of 32] ALU_K by (intro alu_eval_total) (cases oper; simp add: bpf_fields)
    then show ?thesis using ALU_K by (auto intro!: alu_effect_CONT)
  next
    case (ALU64_X oper)
    then show ?thesis using alu_eval_X [of oper "regs st (bi_dst i)" "regs st (bi_src i)"]
      by (auto intro!: alu_effect_CONT simp: alu_effect_def [of _ _ _ "Crash _"])
  next
    case (ALU_X oper)
    then show ?thesis using alu_eval_X [of oper "ucast (regs st (bi_dst i)) :: u32" "ucast (regs st (bi_src i))"]
      by (auto intro!: alu_effect_CONT simp: alu_effect_def [of _ _ _ "Crash _"])
  next
    case ALU64_ARSH_K
    then show ?thesis using K(2) shift [of 64] by (auto simp: bpf_fields Let_def intro!: alu_effect_CONT)
  next
    case ALU_END_TO_BE
    then show ?thesis using CONT_set_reg_self [of st "bi_dst i"] by (auto simp: Let_def intro!: alu_effect_CONT)
  next
    case ALU_END_TO_LE
    then show ?thesis using CONT_set_reg_self [of st "bi_dst i"] by (auto simp: Let_def intro!: alu_effect_CONT)
  qed (use K(1) in \<open>auto simp: bpf_fields Let_def scast_eq_0 alu_effect_def [of _ _ _ "Crash _"] alu_effect_def [of _ _ _ "Return _"]
        intro!: alu_effect_CONT\<close>)
qed

text \<open>
  The check takes the constant of a 32-bit move for a signed value that is extended to 64 bits, while the
  interpreter extends it with zeros. The two only agree when the constant is not negative.
\<close>

definition mov32_ok :: "bpf_insn \<Rightarrow> bool" where
  "mov32_ok i \<longleftrightarrow> (jumptable (bi_code i) = L_ALU ALU_MOV_K \<longrightarrow> 0 \<le> sint (bi_imm i))"

lemma alu_src_regs:
  assumes "check_alu_op p i rs = Ok rs'" and "jumptable (bi_code i) = L_ALU l" and "bi_code i = alu_code l"
  shows "reg_nums_ok i"
proof -
  have "uses_src (L_ALU l) \<Longrightarrow> BPF_SRC (bi_code i) = BPF_X \<and> BPF_OP (bi_code i) \<noteq> BPF_END"
    unfolding assms(3)
  proof (cases l)
    case (ALU64_X oper) then show "BPF_SRC (alu_code l) = BPF_X \<and> BPF_OP (alu_code l) \<noteq> BPF_END" by (cases oper) (simp_all add: bpf_fields)
  next
    case (ALU_X oper) then show "BPF_SRC (alu_code l) = BPF_X \<and> BPF_OP (alu_code l) \<noteq> BPF_END" by (cases oper) (simp_all add: bpf_fields)
  qed (simp_all add: bpf_fields)
  then show ?thesis using check_alu_op_shape [OF assms(1)] assms(2) by (auto simp: reg_nums_ok_def)
qed

lemma alu_code_mov: "BPF_OP (alu_code l) = BPF_MOV \<longleftrightarrow> l \<in> {ALU64_MOV_X, ALU64_MOV_K, ALU_MOV_X, ALU_MOV_K}"
proof (cases l)
  case (ALU64_X oper) then show ?thesis by (cases oper) (simp_all add: bpf_fields)
next
  case (ALU_X oper) then show ?thesis by (cases oper) (simp_all add: bpf_fields)
next
  case (ALU64_K oper) then show ?thesis by (cases oper) (simp_all add: bpf_fields)
next
  case (ALU_K oper) then show ?thesis by (cases oper) (simp_all add: bpf_fields)
qed (simp_all add: bpf_fields)

lemma alu_code_add: "BPF_OP (alu_code l) = BPF_ADD \<and> BPF_CLASS (alu_code l) = BPF_ALU64 \<and> BPF_SRC (alu_code l) \<noteq> BPF_X \<longleftrightarrow> l = ALU64_K A_ADD"
proof (cases l)
  case (ALU64_X oper) then show ?thesis by (cases oper) (simp_all add: bpf_fields)
next
  case (ALU_X oper) then show ?thesis by (cases oper) (simp_all add: bpf_fields)
next
  case (ALU64_K oper) then show ?thesis by (cases oper) (simp_all add: bpf_fields)
next
  case (ALU_K oper) then show ?thesis by (cases oper) (simp_all add: bpf_fields)
qed (simp_all add: bpf_fields)

lemma alu_guards:
  "(BPF_OP (alu_code l) = BPF_MOV \<and> BPF_SRC (alu_code l) = BPF_X \<and> BPF_CLASS (alu_code l) = BPF_ALU64) = (l = ALU64_MOV_X)"
  "(BPF_OP (alu_code l) = BPF_MOV \<and> BPF_SRC (alu_code l) \<noteq> BPF_X) = (l \<in> {ALU64_MOV_K, ALU_MOV_K})"
  "(BPF_OP (alu_code l) = BPF_ADD \<and> BPF_CLASS (alu_code l) = BPF_ALU64 \<and> frame \<and> BPF_SRC (alu_code l) \<noteq> BPF_X) =
     (l = ALU64_K A_ADD \<and> frame)"
proof -
  show "(BPF_OP (alu_code l) = BPF_ADD \<and> BPF_CLASS (alu_code l) = BPF_ALU64 \<and> frame \<and> BPF_SRC (alu_code l) \<noteq> BPF_X) =
     (l = ALU64_K A_ADD \<and> frame)" using alu_code_add [of l] by blast
qed (unfold alu_code_mov, auto simp: bpf_fields)

lemma alu_dst_ok:
  assumes chk: "check_alu_op p i rs = Ok rs'" and code: "bi_code i = alu_code l" and ok: "regs_ok W rs (regs st)"
    and k: "l = ALU_MOV_K \<Longrightarrow> 0 \<le> sint (bi_imm i)"
    and eff: "l = ALU64_MOV_X \<Longrightarrow> v = regs st (bi_src i)" "l = ALU64_MOV_K \<Longrightarrow> v = scast (bi_imm i)"
      "l = ALU_MOV_K \<Longrightarrow> v = ucast (bi_imm i)" "l = ALU64_K A_ADD \<Longrightarrow> v = regs st (bi_dst i) + scast (bi_imm i)"
  shows "regs_ok W rs' ((regs st)(bi_dst i := v))"
proof -
  note shape = check_alu_op_shape [OF chk]
  obtain x where x: "rs' = rs(bi_dst i := x)" and cases:
      "if l = ALU64_MOV_X then x = mark_reg_unknown_value (bi_dst i) rs (bi_src i)
       else if l \<in> {ALU64_MOV_K, ALU_MOV_K} then rtype x = CONST_IMM \<and> reg_imm x = bi_imm i
       else if l = ALU64_K A_ADD \<and> rtype (rs (bi_dst i)) = FRAME_PTR then rtype x = PTR_TO_STACK \<and> reg_imm x = bi_imm i
       else rtype x = UNKNOWN_VALUE"
    using shape unfolding code alu_guards by blast
  have dst: "val_ok W (rs (bi_dst i)) (regs st (bi_dst i))" using regs_okD [OF ok] shape by blast
  have src: "l = ALU64_MOV_X \<Longrightarrow> val_ok W (rs (bi_src i)) (regs st (bi_src i))"
    using regs_okD [OF ok] shape unfolding code by (auto simp: bpf_fields)
  have "val_ok W x v"
  proof (cases "l \<in> {ALU64_MOV_X, ALU64_MOV_K, ALU_MOV_K} \<or> l = ALU64_K A_ADD \<and> rtype (rs (bi_dst i)) = FRAME_PTR")
    case True
    then show ?thesis using cases eff src dst k scast_eq_ucast_nonneg [of "bi_imm i"]
      by (auto simp: val_ok_imm mark_reg_unknown_value_def val_ok_def [of W "rs (bi_dst i)"] split: if_splits)
  qed (use cases in \<open>auto split: if_splits\<close>)
  then show ?thesis using x ok by (simp add: regs_ok_upd)
qed

lemma alu_sound:
  assumes chk: "check_alu_op p i (vregs vs) = Ok rs" and l: "jumptable (bi_code i) = L_ALU l" and k: "mov32_ok i"
    and st: "state_ok p W vs st"
  shows "vstep_ok p W (insn_prog st) i (VCont (insn_pc st + 1) (vs\<lparr>vregs := rs\<rparr>)) None (exec_alu l i st) \<and> reg_nums_ok i"
proof -
  have code: "bi_code i = alu_code l" using jumptable_code [of "bi_code i"] l by simp
  have eff: "alu_effect l i st (exec_alu l i st)" using exec_alu_effect [OF chk code] .
  have "vstep_ok p W (insn_prog st) i (VCont (insn_pc st + 1) (vs\<lparr>vregs := rs\<rparr>)) None (exec_alu l i st)"
  proof (cases "exec_alu l i st")
    case (Cont st')
    then obtain v where st': "Cont st' = CONT (set_reg (bi_dst i) v st)" and
        "l = ALU64_MOV_X \<Longrightarrow> v = regs st (bi_src i)" "l = ALU64_MOV_K \<Longrightarrow> v = scast (bi_imm i)"
        "l = ALU_MOV_K \<Longrightarrow> v = ucast (bi_imm i)" "l = ALU64_K A_ADD \<Longrightarrow> v = regs st (bi_dst i) + scast (bi_imm i)"
      using eff by (auto simp: alu_effect_def)
    then have "regs_ok W rs ((regs st)(bi_dst i := v))"
      using st k l by (intro alu_dst_ok [OF chk code]) (auto simp: state_ok_def mov32_ok_def)
    then show ?thesis using Cont st' st by (auto simp: reaches_def state_ok_def CONT_def set_reg_def)
  qed (use eff l in \<open>simp_all add: alu_effect_def may_fault_def\<close>)
  then show ?thesis using alu_src_regs [OF chk l code] by blast
qed

section \<open>Jumps\<close>

lemma regs_ok_refine: "regs_ok W rs f \<Longrightarrow> val_ok W x (f r) \<Longrightarrow> regs_ok W (rs(r := x)) f"
  using regs_ok_upd [of W rs f x "f r" r] by simp

lemma regs_ok_known: "regs_ok W rs f \<Longrightarrow> f r = scast k \<Longrightarrow> regs_ok W (rs(r := set_imm k (rs r)\<lparr>rtype := CONST_IMM\<rparr>)) f"
  by (rule regs_ok_refine) (simp_all add: val_ok_imm)

lemma jmp_bits_simps:
  "BPF_OP (BPF_JMP OR jmp_bits oper OR BPF_X) = jmp_bits oper" "BPF_OP (BPF_JMP OR jmp_bits oper) = jmp_bits oper"
  "BPF_SRC (BPF_JMP OR jmp_bits oper OR BPF_X) = BPF_X" "BPF_SRC (BPF_JMP OR jmp_bits oper) = BPF_K"
  "BPF_CLASS (BPF_JMP OR jmp_bits oper OR BPF_X) = BPF_JMP" "BPF_CLASS (BPF_JMP OR jmp_bits oper) = BPF_JMP"
  "jmp_bits oper = BPF_JEQ \<longleftrightarrow> oper = J_EQ" "jmp_bits oper = BPF_JNE \<longleftrightarrow> oper = J_NE"
  "jmp_bits oper \<noteq> BPF_CALL" "jmp_bits oper \<noteq> BPF_JA" "jmp_bits oper \<noteq> BPF_EXIT" "\<not> BPF_EXIT < jmp_bits oper"
  by (cases oper; simp add: bpf_fields)+

definition branches_ok :: "world \<Rightarrow> bool \<Rightarrow> vregs \<times> bool \<times> vregs option \<Rightarrow> (reg \<Rightarrow> u64) \<Rightarrow> bool" where
  "branches_ok W taken res f \<longleftrightarrow>
     (case res of (rs, jump, other) \<Rightarrow>
        if taken then jump \<and> regs_ok W rs f \<or> (\<exists>rs'. other = Some rs' \<and> regs_ok W rs' f) else \<not> jump \<and> regs_ok W rs f)"

lemma cond_jmp_X:
  assumes chk: "check_cond_jmp_op p cp i rs = Ok res" and ok: "regs_ok W rs f" and code: "BPF_SRC (bi_code i) = BPF_X"
  shows "branches_ok W taken res f \<and> bi_dst i \<le> 10 \<and> bi_src i \<le> 10"
  using chk ok code unfolding check_cond_jmp_op_def Let_def
  by (auto simp: check_reg_arg_simps branches_ok_def split: if_splits)

lemma cond_jmp_K:
  assumes chk: "check_cond_jmp_op p cp i rs = Ok res" and ok: "regs_ok W rs f"
    and code: "BPF_SRC (bi_code i) = BPF_K" "BPF_OP (bi_code i) = jmp_bits oper"
  shows "branches_ok W (jmp_taken oper (f (bi_dst i)) (scast (bi_imm i))) res f \<and> bi_dst i \<le> 10"
proof -
  let ?d = "bi_dst i" and ?k = "bi_imm i"
  have d: "?d \<le> 10" using chk unfolding check_cond_jmp_op_def Let_def by (auto simp: check_reg_arg_simps split: if_splits)
  have v: "val_ok W (rs ?d) (f ?d)" using regs_okD [OF ok d] .
  have eqne: "jmp_taken oper (f ?d) (scast ?k) \<longleftrightarrow> (if oper = J_EQ then f ?d = scast ?k else f ?d \<noteq> scast ?k)" if "oper \<in> {J_EQ, J_NE}"
    using that by auto
  note K = code jmp_bits_simps
  consider (const) "oper \<in> {J_EQ, J_NE}" "rtype (rs ?d) = CONST_IMM" "reg_imm (rs ?d) = ?k" "res = (rs, oper = J_EQ, None)"
    | (null) "oper \<in> {J_EQ, J_NE}" "?k = 0" "rtype (rs ?d) = PTR_TO_MAP_VALUE_OR_NULL"
        "res = (if oper = J_EQ then (rs(?d := rs ?d\<lparr>rtype := PTR_TO_MAP_VALUE\<rparr>), False, Some (rs(?d := set_imm 0 (rs ?d)\<lparr>rtype := CONST_IMM\<rparr>)))
                else (rs(?d := set_imm 0 (rs ?d)\<lparr>rtype := CONST_IMM\<rparr>), False, Some (rs(?d := rs ?d\<lparr>rtype := PTR_TO_MAP_VALUE\<rparr>))))"
    | (equal) "oper \<in> {J_EQ, J_NE}" "res = (if oper = J_EQ then (rs, False, Some (rs(?d := set_imm ?k (rs ?d)\<lparr>rtype := CONST_IMM\<rparr>)))
                else (rs(?d := set_imm ?k (rs ?d)\<lparr>rtype := CONST_IMM\<rparr>), False, Some rs))"
    | (other) "res = (rs, False, Some rs)"
    using chk unfolding check_cond_jmp_op_def Let_def
    by (auto simp: check_reg_arg_simps K split: if_splits)
  then have "branches_ok W (jmp_taken oper (f ?d) (scast ?k)) res f"
  proof cases
    case const
    then show ?thesis using v ok by (auto simp: branches_ok_def val_ok_imm)
  next
    case null
    have "regs_ok W (rs(?d := rs ?d\<lparr>rtype := PTR_TO_MAP_VALUE\<rparr>)) f" if "f ?d \<noteq> 0"
      using v null(3) that by (intro regs_ok_refine [OF ok]) (simp add: val_ok_def)
    then show ?thesis using null(2,4) eqne [OF null(1)] regs_ok_known [OF ok, of ?d 0] by (auto simp: branches_ok_def)
  next
    case equal
    then show ?thesis using ok eqne [OF equal(1)] regs_ok_known [OF ok, of ?d ?k] by (auto simp: branches_ok_def)
  next
    case other
    then show ?thesis using ok by (simp add: branches_ok_def)
  qed
  then show ?thesis using d by blast
qed

section \<open>One instruction\<close>

definition runtime_ok :: "verifier_prog \<Rightarrow> world \<Rightarrow> bpf_env \<Rightarrow> bool" where
  "runtime_ok p W env \<longleftrightarrow> accesses_ok p W \<and> helpers_ok p W env \<and>
     (may_access_skb (prog_type p) \<longrightarrow> (\<exists>skb. env_skb env (w_ctx W) = Some skb \<and> skb_wf skb))"

lemma size_bits_simps:
  "BPF_CLASS (BPF_STX OR BPF_MEM OR size_bits sz) = BPF_STX" "BPF_CLASS (BPF_ST OR BPF_MEM OR size_bits sz) = BPF_ST"
  "BPF_CLASS (BPF_LDX OR BPF_MEM OR size_bits sz) = BPF_LDX" "BPF_MODE (BPF_STX OR BPF_MEM OR size_bits sz) = BPF_MEM"
  "BPF_SIZE (BPF_STX OR BPF_MEM OR size_bits sz) = size_bits sz" "BPF_SIZE (BPF_ST OR BPF_MEM OR size_bits sz) = size_bits sz"
  "BPF_SIZE (BPF_LDX OR BPF_MEM OR size_bits sz) = size_bits sz" "bpf_size_to_bytes (size_bits sz) = Ok (size_bytes sz)"
  "BPF_CLASS (BPF_ABS OR size_bits sz) = BPF_LD" "BPF_MODE (BPF_ABS OR size_bits sz) = BPF_ABS"
  "BPF_CLASS (BPF_IND OR size_bits sz) = BPF_LD" "BPF_MODE (BPF_IND OR size_bits sz) = BPF_IND"
  by (cases sz; simp add: bpf_fields bpf_size_to_bytes_def)+

lemma stx_sound:
  assumes chk: "check_mem_access p vs (bi_dst i) (bi_off i) (size_bits sz) True vr = Ok vs'" and ok: "state_ok p W vs st"
    and acc: "accesses_ok p W" and r: "bi_dst i \<le> 10" and x: "\<And>s. vr = Some s \<Longrightarrow> val_ok W (vregs vs s) v"
  shows "vstep_ok p W (insn_prog st) i (VCont (insn_pc st + 1) vs') None
    (store_cont (store (memory st) (regs st (bi_dst i) + scast (bi_off i)) (size_bytes sz) v) st)"
proof -
  obtain m' where "store (memory st) (regs st (bi_dst i) + scast (bi_off i)) (size_bytes sz) v = Some m'"
      "state_ok p W vs' (st\<lparr>memory := m'\<rparr>)"
    using mem_write_ok [OF chk ok r acc x] by (auto simp: size_bits_simps)
  then show ?thesis by (simp add: store_cont_def CONT_def reaches_def state_ok_def)
qed

lemma xadd_sound:
  assumes chk: "check_xadd p i vs = Ok vs'" and code: "BPF_SIZE (bi_code i) = size_bits sz" and ok: "state_ok p W vs st"
    and acc: "accesses_ok p W"
  shows "bi_dst i \<le> 10 \<and> bi_src i \<le> 10 \<and> vstep_ok p W (insn_prog st) i (VCont (insn_pc st + 1) vs') None
    (let a = regs st (bi_dst i) + scast (bi_off i) in
     case load (memory st) a (size_bytes sz) of None \<Rightarrow> Crash BadMem
     | Some v \<Rightarrow> store_cont (store (memory st) a (size_bytes sz) (v + regs st (bi_src i))) st)"
proof -
  obtain vs1 where r: "bi_dst i \<le> 10" "bi_src i \<le> 10"
    and rd: "check_mem_access p vs (bi_dst i) (bi_off i) (size_bits sz) False None = Ok vs1"
    and wr: "check_mem_access p vs1 (bi_dst i) (bi_off i) (size_bits sz) True None = Ok vs'"
    using chk by (auto simp: check_xadd_def check_reg_arg_simps code split: if_splits)
  obtain v where "load (memory st) (regs st (bi_dst i) + scast (bi_off i)) (size_bytes sz) = Some v" and "vs1 = vs"
    using mem_read_ok [OF rd ok r(1) acc] by (auto simp: size_bits_simps)
  then show ?thesis using stx_sound [OF wr _ acc r(1)] ok r by (simp add: Let_def)
qed

lemma mem_sound:
  assumes chk: "check_one p cp idx insns vs = Ok (nx, other, insns')" and l: "jumptable (bi_code (insns ! idx)) = L_MEM l"
    and ok: "state_ok p W vs st" and pc: "insn_pc st = int idx" and acc: "accesses_ok p W"
  shows "vstep_ok p W (insn_prog st) (insns ! idx) nx other (exec_mem l (insns ! idx) st) \<and> reg_nums_ok (insns ! idx)"
proof -
  let ?i = "insns ! idx"
  have code: "label_code (L_MEM l) = Some (bi_code ?i)" using jumptable_code [of "bi_code ?i"] l by simp
  have regs: "regs_ok W (vregs vs) (regs st)" using ok by (simp add: state_ok_def)
  show ?thesis
  proof (cases l)
    case (STX_MEM sz)
    then have c: "bi_code ?i = BPF_STX OR BPF_MEM OR size_bits sz" using code by simp
    obtain vs' where r: "bi_src ?i \<le> 10" "bi_dst ?i \<le> 10" and res: "nx = VCont (int idx + 1) vs'" "other = None"
      and m: "check_mem_access p vs (bi_dst ?i) (bi_off ?i) (size_bits sz) True (Some (bi_src ?i)) = Ok vs'"
      using chk by (auto simp: check_one_def Let_def c size_bits_simps check_reg_arg_simps)
    then show ?thesis using stx_sound [OF m ok acc r(2), of "regs st (bi_src ?i)"] regs_okD [OF regs r(1)] STX_MEM l pc
      by (simp add: reg_nums_ok_def)
  next
    case (ST_MEM sz)
    then have c: "bi_code ?i = BPF_ST OR BPF_MEM OR size_bits sz" using code by simp
    obtain vs' where r: "bi_dst ?i \<le> 10" and res: "nx = VCont (int idx + 1) vs'" "other = None"
      and m: "check_mem_access p vs (bi_dst ?i) (bi_off ?i) (size_bits sz) True None = Ok vs'"
      using chk by (auto simp: check_one_def Let_def c size_bits_simps check_reg_arg_simps split: if_splits)
    then show ?thesis using stx_sound [OF m ok acc r, of "scast (bi_imm ?i)"] ST_MEM l pc by (simp add: reg_nums_ok_def)
  next
    case (LDX_MEM sz)
    then have c: "bi_code ?i = BPF_LDX OR BPF_MEM OR size_bits sz" using code by simp
    obtain vs' where r: "bi_src ?i \<le> 10" "bi_dst ?i \<le> 10" and res: "nx = VCont (int idx + 1) vs'" "other = None"
      and m: "check_mem_access p vs (bi_src ?i) (bi_off ?i) (size_bits sz) False (Some (bi_dst ?i)) = Ok vs'"
      using chk by (auto simp: check_one_def Let_def c size_bits_simps check_reg_arg_simps split: if_splits)
    obtain v x where "load (memory st) (regs st (bi_src ?i) + scast (bi_off ?i)) (size_bytes sz) = Some v"
        "vs' = vs\<lparr>vregs := (vregs vs)(bi_dst ?i := x)\<rparr>" "val_ok W x v"
      using mem_read_ok [OF m ok r(1) acc] by (auto simp: size_bits_simps)
    then show ?thesis using LDX_MEM l pc res r ok regs_ok_upd [OF regs]
      by (auto simp: reg_nums_ok_def CONT_def set_reg_def reaches_def state_ok_def)
  next
    case STX_XADD_W
    then obtain vs' where m: "check_xadd p ?i vs = Ok vs'" "nx = VCont (int idx + 1) vs'" "other = None"
      using chk code by (auto simp: check_one_def Let_def bpf_fields split: if_splits)
    then show ?thesis using xadd_sound [OF m(1) _ ok acc, of SZ_W, unfolded size_bytes.simps] code l pc STX_XADD_W by (auto simp: bpf_fields reg_nums_ok_def)
  next
    case STX_XADD_DW
    then obtain vs' where m: "check_xadd p ?i vs = Ok vs'" "nx = VCont (int idx + 1) vs'" "other = None"
      using chk code by (auto simp: check_one_def Let_def bpf_fields split: if_splits)
    then show ?thesis using xadd_sound [OF m(1) _ ok acc, of SZ_DW, unfolded size_bytes.simps] code l pc STX_XADD_DW by (auto simp: bpf_fields reg_nums_ok_def)
  qed
qed

lemma jmp_sound:
  assumes chk: "check_one p cp idx insns vs = Ok (nx, other, insns')" and l: "jumptable (bi_code (insns ! idx)) = L_JMP l"
    and ok: "state_ok p W vs st" and pc: "insn_pc st = int idx" and h: "helpers_ok p W env"
  shows "vstep_ok p W (insn_prog st) (insns ! idx) nx other (exec_jmp env l (insns ! idx) st) \<and> reg_nums_ok (insns ! idx)"
proof -
  let ?i = "insns ! idx"
  have code: "label_code (L_JMP l) = Some (bi_code ?i)" using jumptable_code [of "bi_code ?i"] l by simp
  have regs: "regs_ok W (vregs vs) (regs st)" using ok by (simp add: state_ok_def)
  have cond: "vstep_ok p W (insn_prog st) ?i nx other (CONT_JMP taken ?i st)"
    if "check_cond_jmp_op p cp ?i (vregs vs) = Ok (rs, jump, br)" "branches_ok W taken (rs, jump, br) (regs st)"
      "nx = VCont (if jump then int idx + sint (bi_off ?i) + 1 else int idx + 1) (vs\<lparr>vregs := rs\<rparr>)"
      "other = map_option (\<lambda>rs. (int idx + sint (bi_off ?i) + 1, vs\<lparr>vregs := rs\<rparr>)) br" for taken rs jump br
    using that(2-4) ok pc by (cases taken) (auto simp: branches_ok_def CONT_JMP_def CONT_def reaches_def state_ok_def)
  show ?thesis
  proof (cases l)
    case JMP_CALL
    then obtain vs' where c: "check_call p (bi_imm ?i) vs = Ok vs'" "nx = VCont (int idx + 1) vs'" "other = None"
      using chk code by (auto simp: check_one_def Let_def bpf_fields split: if_splits)
    obtain r m' where call: "env_call env (bi_imm ?i) [regs st 1, regs st 2, regs st 3, regs st 4, regs st 5] (memory st) = (r, m')"
      by fastforce
    have "state_ok p W vs' (set_reg 0 r (st\<lparr>memory := m'\<rparr>))" using check_call_ok [OF c(1) ok h] call by simp
    then show ?thesis using JMP_CALL l c(2,3) call pc by (simp add: reg_nums_ok_def CONT_def reaches_def state_ok_def set_reg_def)
  next
    case JMP_TAIL_CALL
    then show ?thesis using chk code by (auto simp: check_one_def Let_def bpf_fields split: if_splits)
  next
    case JMP_JA
    then have "nx = VCont (int idx + sint (bi_off ?i) + 1) vs" "other = None"
      using chk code by (auto simp: check_one_def Let_def bpf_fields split: if_splits)
    then show ?thesis using JMP_JA l ok pc by (simp add: reg_nums_ok_def CONT_def reaches_def state_ok_def)
  next
    case (JMP_X oper)
    then have c: "bi_code ?i = BPF_JMP OR jmp_bits oper OR BPF_X" using code by simp
    obtain rs jump br where b: "check_cond_jmp_op p cp ?i (vregs vs) = Ok (rs, jump, br)"
      "nx = VCont (if jump then int idx + sint (bi_off ?i) + 1 else int idx + 1) (vs\<lparr>vregs := rs\<rparr>)"
      "other = map_option (\<lambda>rs. (int idx + sint (bi_off ?i) + 1, vs\<lparr>vregs := rs\<rparr>)) br"
      using chk by (auto simp: check_one_def Let_def c jmp_bits_simps)
    have "branches_ok W taken (rs, jump, br) (regs st) \<and> bi_dst ?i \<le> 10 \<and> bi_src ?i \<le> 10" for taken
      using cond_jmp_X [OF b(1) regs] c by (simp add: jmp_bits_simps)
    then show ?thesis using cond [OF b(1) _ b(2,3)] JMP_X l by (simp add: reg_nums_ok_def)
  next
    case (JMP_K oper)
    then have c: "bi_code ?i = BPF_JMP OR jmp_bits oper" using code by simp
    obtain rs jump br where b: "check_cond_jmp_op p cp ?i (vregs vs) = Ok (rs, jump, br)"
      "nx = VCont (if jump then int idx + sint (bi_off ?i) + 1 else int idx + 1) (vs\<lparr>vregs := rs\<rparr>)"
      "other = map_option (\<lambda>rs. (int idx + sint (bi_off ?i) + 1, vs\<lparr>vregs := rs\<rparr>)) br"
      using chk by (auto simp: check_one_def Let_def c jmp_bits_simps)
    have "branches_ok W (jmp_taken oper (regs st (bi_dst ?i)) (scast (bi_imm ?i))) (rs, jump, br) (regs st) \<and> bi_dst ?i \<le> 10"
      using cond_jmp_K [OF b(1) regs, of oper] c by (simp add: jmp_bits_simps)
    then show ?thesis using cond [OF b(1) _ b(2,3)] JMP_K l by (simp add: reg_nums_ok_def)
  next
    case JMP_EXIT
    then show ?thesis using l by (simp add: reg_nums_ok_def)
  qed
qed

lemma load_skb_sound:
  assumes chk: "check_ld_abs p i (vregs vs) = Ok rs" and ok: "state_ok p W vs st" and run: "runtime_ok p W env"
  shows "vstep_ok p W (insn_prog st) i (VCont (insn_pc st + 1) (vs\<lparr>vregs := rs\<rparr>)) None (load_skb env sz off st)"
proof -
  have regs: "regs_ok W (vregs vs) (regs st)" using ok by (simp add: state_ok_def)
  have c: "may_access_skb (prog_type p)" "rtype (vregs vs 6) = PTR_TO_CTX"
      "rs = (reset_caller_saved (vregs vs))(0 := reset_caller_saved (vregs vs) 0\<lparr>rtype := UNKNOWN_VALUE\<rparr>)"
    using chk by (auto simp: check_ld_abs_def Let_def check_reg_arg_simps split: if_splits)
  have "regs st 6 = w_ctx W" using regs_okD [OF regs, of 6] c(2) by (simp add: val_ok_def)
  then obtain skb where skb: "env_skb env (regs st 6) = Some skb" "skb_wf skb" using run c(1) by (auto simp: runtime_ok_def)
  then obtain ptr where ptr: "env_skb env (regs st 6) = Some skb" "bpf_load_pointer skb off (size_bytes sz) = Ok ptr"
    using skb.pload_total [OF skb(2)] by blast
  have "regs_ok W rs ((regs st)(0 := v))" for v
    unfolding c(3) by (rule regs_ok_dst [OF reset_caller_saved_ok [OF regs]]) simp
  then show ?thesis using ptr ok by (cases ptr) (auto simp: load_skb_def CONT_def set_reg_def reaches_def state_ok_def)
qed

lemma ld_sound:
  assumes chk: "check_one p cp idx insns vs = Ok (nx, other, insns')" and l: "jumptable (bi_code (insns ! idx)) = L_LD l"
    and ok: "state_ok p W vs st" and pc: "insn_pc st = int idx" and run: "runtime_ok p W env"
    and len: "length (insn_prog st) = length insns"
    and nxt: "l = LD_IMM_DW \<Longrightarrow> idx + 1 < length insns \<and> bi_imm (insn_prog st ! (idx + 1)) = bi_imm (insns ! (idx + 1)) \<and>
      (bi_src (insns ! idx) = 1 \<longrightarrow> ld_imm64 (insns ! idx) (insns ! (idx + 1)) \<in> w_maps W)"
  shows "vstep_ok p W (insn_prog st) (insns ! idx) nx other (exec_ld env l (insns ! idx) st) \<and> reg_nums_ok (insns ! idx)"
proof -
  let ?i = "insns ! idx"
  have code: "label_code (L_LD l) = Some (bi_code ?i)" using jumptable_code [of "bi_code ?i"] l by simp
  have regs: "regs_ok W (vregs vs) (regs st)" using ok by (simp add: state_ok_def)
  show ?thesis
  proof (cases l)
    case LD_IMM_DW
    have len1: "idx + 1 < length insns" using nxt [OF LD_IMM_DW] by blast
    obtain rs where c: "check_ld_imm ?i (Some (insns ! (idx + 1))) (vregs vs) = Ok rs"
        "nx = VCont (int idx + 2) (vs\<lparr>vregs := rs\<rparr>)" "other = None"
      using chk code LD_IMM_DW len1 by (auto simp: check_one_def Let_def bpf_fields split: if_splits)
    then obtain x where x: "rs = (vregs vs)(bi_dst ?i := x)" "val_ok W x (ld_imm64 ?i (insns ! (idx + 1)))" "bi_dst ?i \<le> 10"
      using nxt [OF LD_IMM_DW]
      by (auto simp: check_ld_imm_def check_reg_arg_simps mark_reg_unknown_value_def val_ok_def split: if_splits)
    have "nat (int idx + 1) = idx + 1" by simp
    then show ?thesis using LD_IMM_DW l c x regs_ok_upd [OF regs x(2), of "bi_dst ?i"] nxt [OF LD_IMM_DW] ok pc len
      by (simp add: reg_nums_ok_def CONT_def set_reg_def reaches_def state_ok_def ld_imm64_def)
  next
    case (LD_ABS sz)
    then have code: "bi_code ?i = BPF_ABS OR size_bits sz" using code by simp
    then obtain rs where c: "check_ld_abs p ?i (vregs vs) = Ok rs" "nx = VCont (int idx + 1) (vs\<lparr>vregs := rs\<rparr>)" "other = None"
      using chk code by (auto simp: check_one_def Let_def size_bits_simps split: if_splits)
    then show ?thesis using load_skb_sound [OF c(1) ok run] LD_ABS l pc by (simp add: reg_nums_ok_def)
  next
    case (LD_IND sz)
    then have code: "bi_code ?i = BPF_IND OR size_bits sz" using code by simp
    then obtain rs where c: "check_ld_abs p ?i (vregs vs) = Ok rs" "nx = VCont (int idx + 1) (vs\<lparr>vregs := rs\<rparr>)" "other = None"
      using chk code by (auto simp: check_one_def Let_def size_bits_simps split: if_splits)
    have "bi_src ?i \<le> 10" using c(1) code LD_IND by (auto simp: check_ld_abs_def Let_def size_bits_simps check_reg_arg_simps split: if_splits)
    then show ?thesis using load_skb_sound [OF c(1) ok run] LD_IND l pc c(2,3) by (simp add: reg_nums_ok_def)
  qed
qed

section \<open>Programs with marks\<close>

text \<open>The check leaves marks in the immediate field of loads and stores, which the interpreter does not read.\<close>

definition unmark :: "bpf_insn \<Rightarrow> bpf_insn" where
  "unmark i = (if BPF_CLASS (bi_code i) \<in> {BPF_LDX, BPF_STX} then i\<lparr>bi_imm := 0\<rparr> else i)"

definition same_marks :: "bpf_insn list \<Rightarrow> bpf_insn list \<Rightarrow> bool" where
  "same_marks q insns \<longleftrightarrow> map unmark q = map unmark insns"

lemma unmark_simps [simp]: "bi_code (unmark i) = bi_code i" "bi_dst (unmark i) = bi_dst i" "bi_src (unmark i) = bi_src i"
  "bi_off (unmark i) = bi_off i" "unmark (i\<lparr>bi_imm := k\<rparr>) = (if BPF_CLASS (bi_code i) \<in> {BPF_LDX, BPF_STX} then unmark i else i\<lparr>bi_imm := k\<rparr>)"
  by (auto simp: unmark_def)

lemma same_marks_nth: "same_marks q insns \<Longrightarrow> t < length insns \<Longrightarrow> unmark (q ! t) = unmark (insns ! t) \<and> length q = length insns"
  unfolding same_marks_def by (metis length_map nth_map)

lemma mark_access_unmark: "mark_access t i = Ok i' \<Longrightarrow> BPF_CLASS (bi_code i) \<in> {BPF_LDX, BPF_STX} \<Longrightarrow> unmark i' = unmark i"
  by (auto simp: mark_access_def split: if_splits)

lemma check_one_marks:
  assumes "check_one p cp idx insns vs = Ok (nx, other, insns')" and "same_marks q insns"
  shows "same_marks q insns'"
proof -
  have "same_marks q (insns[idx := i'])" if "unmark i' = unmark (insns ! idx)" for i'
    using assms(2) that unfolding same_marks_def map_update by (metis list_update_id map_update)
  then show ?thesis using assms unfolding check_one_def Let_def
    by (auto dest!: mark_access_unmark split: if_splits)
qed

lemma alu_class: "BPF_CLASS (alu_code a) = BPF_ALU \<or> BPF_CLASS (alu_code a) = BPF_ALU64"
  by (cases a rule: alu_code.cases; simp add: bpf_fields; rename_tac oper; case_tac oper; simp)

lemma label_class:
  assumes "label_code l = Some c" and "BPF_CLASS c \<in> {BPF_LDX, BPF_STX}"
  shows "\<exists>sz. l \<in> {L_MEM (STX_MEM sz), L_MEM (LDX_MEM sz), L_MEM STX_XADD_W, L_MEM STX_XADD_DW}"
proof (cases l)
  case (L_ALU a)
  then show ?thesis using assms alu_class [of a] by auto
next
  case (L_LD a)
  then show ?thesis using assms by (cases a) (auto simp: size_bits_simps, auto simp: bpf_fields)
next
  case (L_JMP a)
  then show ?thesis using assms by (cases a) (auto simp: jmp_bits_simps, auto simp: bpf_fields)
next
  case (L_MEM a)
  then show ?thesis using assms by (cases a) (auto simp: size_bits_simps)
qed (use assms in simp)

lemma exec_unmark: "exec_label env (jumptable (bi_code i)) (unmark i) st = exec_label env (jumptable (bi_code i)) i st"
proof (cases "BPF_CLASS (bi_code i) \<in> {BPF_LDX, BPF_STX} \<and> jumptable (bi_code i) \<noteq> default_label")
  case True
  then obtain sz where "jumptable (bi_code i) \<in> {L_MEM (STX_MEM sz), L_MEM (LDX_MEM sz), L_MEM STX_XADD_W, L_MEM STX_XADD_DW}"
    using label_class [of "jumptable (bi_code i)"] jumptable_code [of "bi_code i"] by blast
  then show ?thesis by (auto simp: Let_def split: option.split)
qed (auto simp: unmark_def)

definition maps_bound :: "world \<Rightarrow> bpf_insn list \<Rightarrow> bool" where
  "maps_bound W q \<longleftrightarrow> (\<forall>t. t + 1 < length q \<longrightarrow> bi_code (q ! t) = (BPF_LD OR BPF_IMM OR BPF_DW) \<longrightarrow> bi_src (q ! t) = 1 \<longrightarrow>
     ld_imm64 (q ! t) (q ! (t + 1)) \<in> w_maps W)"

definition prog_cond :: "world \<Rightarrow> bpf_insn list \<Rightarrow> bool" where
  "prog_cond W q \<longleftrightarrow> ld_imm64_ok q \<and> (\<forall>i \<in> set q. mov32_ok i) \<and> maps_bound W q"

lemma check_one_sound:
  assumes run: "runtime_ok p W env" and chk: "check_one p cp idx insns vs = Ok (nx, other, insns')"
    and ok: "state_ok p W vs st" and pc: "insn_pc st = int idx" and idx: "idx < length insns"
    and marks: "same_marks (insn_prog st) insns" and cond: "prog_cond W (insn_prog st)"
  shows "vstep_ok p W (insn_prog st) (insns ! idx) nx other (select_insn env st)"
proof -
  let ?i = "insns ! idx" and ?q = "insn_prog st"
  let ?l = "jumptable (bi_code ?i)"
  have eq: "unmark (?q ! idx) = unmark ?i" "length ?q = length insns" using same_marks_nth [OF marks idx] by auto
  then have fields: "bi_code (?q ! idx) = bi_code ?i" "bi_dst (?q ! idx) = bi_dst ?i" "bi_src (?q ! idx) = bi_src ?i"
    by (metis unmark_simps(1), metis unmark_simps(2), metis unmark_simps(3))
  have same: "?q ! t = insns ! t" if "t < length insns" "BPF_CLASS (bi_code (insns ! t)) \<notin> {BPF_LDX, BPF_STX}" for t
  proof -
    have "unmark (?q ! t) = unmark (insns ! t)" using same_marks_nth [OF marks that(1)] by blast
    moreover from arg_cong [OF this, of bi_code] have "bi_code (?q ! t) = bi_code (insns ! t)" by simp
    ultimately show ?thesis using that(2) by (simp add: unmark_def)
  qed
  have "vstep_ok p W ?q ?i nx other (exec_label env ?l ?i st) \<and> reg_nums_ok ?i"
  proof (cases ?l)
    case (L_ALU a)
    then have cls: "BPF_CLASS (bi_code ?i) \<in> {BPF_ALU, BPF_ALU64}"
      using jumptable_code [of "bi_code ?i"] alu_class [of a] by auto
    then obtain rs where "check_alu_op p ?i (vregs vs) = Ok rs" "nx = VCont (int idx + 1) (vs\<lparr>vregs := rs\<rparr>)" "other = None"
      using chk by (auto simp: check_one_def Let_def split: if_splits)
    moreover have "mov32_ok ?i" using cond same [OF idx] cls idx eq(2) by (auto simp: prog_cond_def) (metis nth_mem)+
    ultimately show ?thesis using alu_sound [OF _ L_ALU _ ok] L_ALU pc by simp
  next
    case (L_JMP j)
    then show ?thesis using jmp_sound [OF chk L_JMP ok pc, of env] run by (simp add: runtime_ok_def)
  next
    case (L_MEM a)
    then show ?thesis using mem_sound [OF chk L_MEM ok pc] run by (simp add: runtime_ok_def)
  next
    case (L_LD a)
    have "a = LD_IMM_DW \<Longrightarrow> idx + 1 < length insns \<and> bi_imm (?q ! (idx + 1)) = bi_imm (insns ! (idx + 1)) \<and>
      (bi_src ?i = 1 \<longrightarrow> ld_imm64 ?i (insns ! (idx + 1)) \<in> w_maps W)"
    proof -
      assume "a = LD_IMM_DW"
      then have code: "bi_code ?i = (BPF_LD OR BPF_IMM OR BPF_DW)" using jumptable_code [of "bi_code ?i"] L_LD by simp
      then have n: "idx + 1 < length insns" "bi_code (?q ! (idx + 1)) = 0"
        using cond idx fields(1) eq(2) by (auto simp: prog_cond_def ld_imm64_ok_def)
      moreover have "bi_code (insns ! (idx + 1)) = 0" using same_marks_nth [OF marks n(1)] n(2) by (metis unmark_simps(1))
      ultimately have "?q ! (idx + 1) = insns ! (idx + 1)" using same [of "idx + 1"] by (simp add: bpf_fields)
      moreover have "?q ! idx = ?i" using same [OF idx] code by (simp add: bpf_fields)
      ultimately show ?thesis using cond n eq(2) code by (auto simp: prog_cond_def maps_bound_def)
    qed
    then show ?thesis using ld_sound [OF chk L_LD ok pc run eq(2)] L_LD by simp
  qed (simp add: reg_nums_ok_def)
  moreover have "exec_label env ?l (?q ! idx) st = exec_label env ?l ?i st"
    using exec_unmark [of env ?i st] exec_unmark [of env "?q ! idx" st] eq(1) fields(1) by simp
  ultimately show ?thesis using idx pc eq(2) fields
    by (auto simp: select_insn_def Let_def reg_nums_ok_def dest: leD)
qed

section \<open>The search\<close>

text \<open>A point is covered by a set of points when the set has a state at the position that describes more.\<close>

type_synonym point = "int \<times> verifier_state"

definition covered :: "point set \<Rightarrow> point \<Rightarrow> bool" where
  "covered D x \<longleftrightarrow> (\<exists>old. (fst x, old) \<in> D \<and> (old = snd x \<or> states_equal old (snd x)))"

text \<open>A point whose check succeeded, and whose successors are covered or still pending.\<close>

definition checked :: "verifier_prog \<Rightarrow> bpf_insn list \<Rightarrow> point set \<Rightarrow> point set \<Rightarrow> point \<Rightarrow> bool" where
  "checked p q D P x \<longleftrightarrow> (\<exists>cp insns nx other insns'. 0 \<le> fst x \<and> fst x < int (length insns) \<and> same_marks q insns \<and>
     check_one p cp (nat (fst x)) insns (snd x) = Ok (nx, other, insns') \<and>
     (\<forall>j v. nx = VCont j v \<or> other = Some (j, v) \<longrightarrow> covered D (j, v) \<or> (j, v) \<in> P))"

lemma covered_mono: "covered D x \<Longrightarrow> D \<subseteq> D' \<Longrightarrow> covered D' x"
  by (auto simp: covered_def)

lemma checked_mono: "checked p q D P x \<Longrightarrow> D \<subseteq> D' \<Longrightarrow> (\<And>y. y \<in> P \<Longrightarrow> y \<in> P' \<or> covered D' y) \<Longrightarrow> checked p q D' P' x"
  unfolding checked_def by (meson covered_mono)

lemma check_one_exit: "check_one p cp idx insns vs = Ok (VExit, other, insns') \<Longrightarrow> other = None"
  unfolding check_one_def Let_def by (auto split: if_splits)

lemma is_state_visited_cases:
  assumes "is_state_visited alloc i cur ex = Ok (prune, ex')"
  obtains (pruned) old sl where "prune" "ex' = ex" "ex i = Some sl" "old \<in> set sl" "states_equal old cur"
  | (new) "\<not> prune" "ex' = ex" | (added) sl where "\<not> prune" "ex i = Some sl" "ex' = ex(i \<mapsto> cur # sl)"
  using assms by (auto simp: is_state_visited_def list_ex_iff split: option.splits if_splits)

definition resume :: "verifier_prog \<Rightarrow> (nat \<Rightarrow> bool) \<Rightarrow> (nat \<Rightarrow> bool) \<Rightarrow> nat \<Rightarrow> point list \<Rightarrow> explored \<Rightarrow> bpf_insn list \<Rightarrow> bpf_insn list result" where
  "resume p vo po n pts ex insns = (case pts of [] \<Rightarrow> Ok insns | (i, v) # stack \<Rightarrow> check_loop p vo po n i v stack ex insns)"

lemma check_loop_step:
  assumes "check_loop p vo po n i cur stack ex insns = Ok res"
  obtains (pruned) ex' where "0 \<le> i" "i < int (length insns)" "n < 32768" "is_state_visited (vo n) (nat i) cur ex = Ok (True, ex')"
      "resume p vo po (Suc n) stack ex' insns = Ok res"
  | (step) ex' cp nx other insns' pts where "0 \<le> i" "i < int (length insns)" "n < 32768"
      "is_state_visited (vo n) (nat i) cur ex = Ok (False, ex')" "check_one p cp (nat i) insns cur = Ok (nx, other, insns')"
      "set pts = set stack \<union> {(j, v). nx = VCont j v \<or> other = Some (j, v)}"
      "resume p vo po (Suc n) pts ex' insns' = Ok res"
proof -
  let ?cp = "po n \<and> length stack < 1024"
  note eq = assms [unfolded check_loop.simps [of p vo po n i]]
  have b: "0 \<le> i" "i < int (length insns)" "n < 32768" using eq by (auto split: if_splits)
  obtain prune ex' where vis: "is_state_visited (vo n) (nat i) cur ex = Ok (prune, ex')" using eq b by (auto split: result.splits)
  show thesis
  proof (cases prune)
    case True
    then have "resume p vo po (Suc n) stack ex' insns = Ok res" using eq b vis by (simp add: resume_def)
    then show thesis using pruned [OF b] vis True by simp
  next
    case False
    then obtain nx other insns' where one: "check_one p ?cp (nat i) insns cur = Ok (nx, other, insns')"
      using eq b vis by (auto split: result.splits)
    show thesis
    proof (cases nx)
      case VExit
      then have "other = None" "resume p vo po (Suc n) stack ex' insns' = Ok res"
        using eq b vis False one check_one_exit by (auto simp: resume_def)
      then show thesis using step [OF b _ one, of ex' stack] vis False VExit by simp
    next
      case (VCont j v)
      then have "resume p vo po (Suc n) ((j, v) # (case other of None \<Rightarrow> stack | Some b \<Rightarrow> b # stack)) ex' insns' = Ok res"
        using eq b vis False one by (simp add: resume_def)
      moreover have "set ((j, v) # (case other of None \<Rightarrow> stack | Some b \<Rightarrow> b # stack)) =
          set stack \<union> {(j, v). nx = VCont j v \<or> other = Some (j, v)}"
        using VCont by (auto split: option.splits)
      moreover have "is_state_visited (vo n) (nat i) cur ex = Ok (False, ex')" using vis False by simp
      ultimately show thesis using step [OF b _ one] by blast
    qed
  qed
qed

definition search_inv :: "verifier_prog \<Rightarrow> bpf_insn list \<Rightarrow> point set \<Rightarrow> point set \<Rightarrow> explored \<Rightarrow> bpf_insn list \<Rightarrow> bool" where
  "search_inv p q D P ex insns \<longleftrightarrow> same_marks q insns \<and> (\<forall>x \<in> D. checked p q D P x) \<and>
     (\<forall>j sl. ex j = Some sl \<longrightarrow> (\<forall>v \<in> set sl. (int j, v) \<in> D))"

lemma search_inv_prune:
  assumes inv: "search_inv p q D (insert (i, cur) P) ex insns" and i: "0 \<le> i"
    and vis: "is_state_visited alloc (nat i) cur ex = Ok (True, ex')"
  shows "search_inv p q D P ex' insns \<and> covered D (i, cur)"
  using vis
proof (cases rule: is_state_visited_cases)
  case (pruned old sl)
  then have "(i, old) \<in> D" using inv i unfolding search_inv_def by (metis nat_0_le)
  then have c: "covered D (i, cur)" using pruned(5) by (auto simp: covered_def)
  then have "checked p q D P x" if "x \<in> D" for x
    using inv that checked_mono [of p q D "insert (i, cur) P" x D P] unfolding search_inv_def by blast
  then show ?thesis using inv c pruned(2) by (simp add: search_inv_def)
qed simp_all

lemma search_inv_step:
  assumes inv: "search_inv p q D (insert (i, cur) P) ex insns" and i: "0 \<le> i" "i < int (length insns)"
    and vis: "is_state_visited alloc (nat i) cur ex = Ok (False, ex')"
    and one: "check_one p cp (nat i) insns cur = Ok (nx, other, insns')"
    and P': "P' = P \<union> {(j, v). nx = VCont j v \<or> other = Some (j, v)}"
  shows "search_inv p q (insert (i, cur) D) P' ex' insns' \<and> covered (insert (i, cur) D) (i, cur)"
proof -
  let ?D = "insert (i, cur) D"
  have c: "covered ?D (i, cur)" by (auto simp: covered_def)
  have marks: "same_marks q insns" using inv by (simp add: search_inv_def)
  have "checked p q ?D P' (i, cur)" unfolding checked_def using i marks one P' by fastforce
  moreover have "checked p q ?D P' x" if "x \<in> D" for x
    using inv that checked_mono [of p q D "insert (i, cur) P" x ?D P'] c P' unfolding search_inv_def by blast
  moreover have "\<forall>j sl. ex' j = Some sl \<longrightarrow> (\<forall>v \<in> set sl. (int j, v) \<in> ?D)"
    using vis
  proof (cases rule: is_state_visited_cases)
    case (added sl)
    then have "\<forall>v \<in> set sl. (i, v) \<in> D" using inv i unfolding search_inv_def by (metis nat_0_le)
    then show ?thesis using inv i(1) added by (auto simp: search_inv_def)
  qed (use inv in \<open>auto simp: search_inv_def\<close>)
  ultimately show ?thesis using check_one_marks [OF one marks] c by (simp add: search_inv_def)
qed

lemma check_loop_closed:
  assumes "resume p vo po n pts ex insns = Ok res" and "search_inv p q D (set pts) ex insns"
  shows "\<exists>D'. D \<subseteq> D' \<and> (\<forall>x \<in> D'. checked p q D' {} x) \<and> (\<forall>x \<in> set pts. covered D' x) \<and> same_marks q res"
  using assms
proof (induction "32768 - n" arbitrary: n pts ex insns D rule: less_induct)
  case less
  show ?case
  proof (cases pts)
    case Nil
    then show ?thesis using less.prems by (auto simp: resume_def search_inv_def)
  next
    case (Cons x stack)
    obtain i cur where x: "x = (i, cur)" by fastforce
    have loop: "check_loop p vo po n i cur stack ex insns = Ok res" using less.prems(1) Cons x by (simp add: resume_def)
    have inv: "search_inv p q D (insert (i, cur) (set stack)) ex insns" using less.prems(2) Cons x by simp
    show ?thesis using loop
    proof (cases rule: check_loop_step)
      case (pruned ex')
      note s = search_inv_prune [OF inv pruned(1,4)]
      then obtain D' where "D \<subseteq> D'" "\<forall>x \<in> D'. checked p q D' {} x" "\<forall>x \<in> set stack. covered D' x" "same_marks q res"
        using less.hyps [OF _ pruned(5), of D] diff_less_mono2 [OF lessI pruned(3)] by blast
      then show ?thesis using s Cons x covered_mono by (metis set_ConsD)
    next
      case (step ex' cp nx other insns' pts')
      note s = search_inv_step [OF inv step(1,2,4,5,6)]
      then obtain D' where "insert (i, cur) D \<subseteq> D'" "\<forall>x \<in> D'. checked p q D' {} x" "\<forall>x \<in> set pts'. covered D' x" "same_marks q res"
        using less.hyps [OF _ step(7), of "insert (i, cur) D"] diff_less_mono2 [OF lessI step(3)] by blast
      moreover have "covered D' (i, cur)" using s calculation(1) covered_mono by blast
      ultimately show ?thesis using Cons x step(6) by (intro exI [of _ D']) auto
    qed
  qed
qed

section \<open>Runs of accepted programs\<close>

lemma closed_run:
  assumes closed: "\<forall>x \<in> D. checked p q D {} x" and run: "runtime_ok p W env" and cond: "prog_cond W q"
    and st: "insn_prog st = q" "covered D (insn_pc st, vs)" "state_ok p W vs st"
  shows "case bpf_run env fuel st of Some (Inr u) \<Rightarrow> \<exists>i \<in> set q. may_fault i u | _ \<Rightarrow> True"
  using st
proof (induction fuel arbitrary: st vs)
  case (Suc fuel)
  obtain old where old: "(insn_pc st, old) \<in> D" "old = vs \<or> states_equal old vs" using Suc.prems(2) by (auto simp: covered_def)
  have ok: "state_ok p W old st" using old(2) Suc.prems(3) states_equal_covers by blast
  obtain cp insns nx other insns' where c: "0 \<le> insn_pc st" "insn_pc st < int (length insns)" "same_marks q insns"
      "check_one p cp (nat (insn_pc st)) insns old = Ok (nx, other, insns')"
      "\<forall>j v. nx = VCont j v \<or> other = Some (j, v) \<longrightarrow> covered D (j, v)"
    using bspec [OF closed old(1)] unfolding checked_def fst_conv snd_conv empty_iff by blast
  let ?t = "nat (insn_pc st)"
  have t: "?t < length insns" using c(1,2) by linarith
  have step: "vstep_ok p W q (insns ! ?t) nx other (select_insn env st)"
    using check_one_sound [OF run c(4) ok _ t] c(1,3) cond Suc.prems(1) by simp
  show ?case
  proof (cases "select_insn env st")
    case (Cont st')
    then obtain v where "insn_prog st' = q" "nx = VCont (insn_pc st') v \<or> other = Some (insn_pc st', v)" "state_ok p W v st'"
      using step by (auto simp: reaches_def)
    then show ?thesis using Suc.IH [of st' v] c(5) Cont by simp
  next
    case (Crash u)
    then have "may_fault (insns ! ?t) u" using step by simp
    moreover have "bi_code (q ! ?t) = bi_code (insns ! ?t)" "?t < length q"
      using same_marks_nth [OF c(3) t] t by (metis unmark_simps(1), simp)
    ultimately show ?thesis using Crash by (auto simp: may_fault_def intro!: bexI [of _ "q ! ?t"])
  qed simp
qed simp

lemma init_state_ok:
  assumes "mem_ok p W m"
  shows "state_ok p W init_vstate
    (init_state r0 m (w_fp W) (w_ctx W) insns)"
proof -
  have "stack_ok W init_vstate m"
    unfolding stack_ok_def init_vstate_def by fastforce
  then show ?thesis using assms
    by (auto simp: state_ok_def init_state_def init_vstate_def regs_ok_def init_reg_state_def empty_reg_def val_ok_def)
qed

lemma do_check_closed:
  assumes "do_check p vo po insns marked = Ok res"
  obtains D where "\<forall>x \<in> D. checked p insns D {} x" and "same_marks insns res"
    and "covered D (0, init_vstate)"
proof -
  let ?ex = "\<lambda>i. if i < length marked \<and> marked ! i then Some [] else None"
  have r: "resume p vo po 0 [(0, init_vstate)] ?ex insns = Ok res" using assms by (simp add: do_check_def resume_def)
  have "search_inv p insns {} (set [(0, init_vstate)]) ?ex insns" by (auto simp: search_inv_def same_marks_def)
  then show thesis using check_loop_closed [OF r, of insns "{}"] that by auto
qed

lemma checked_runs_safe:
  assumes "do_check p vo po insns marked = Ok res" and "runtime_ok p W env" and "prog_cond W insns" and "mem_ok p W m"
  shows "case bpf_prog_run env fuel r0 m (w_fp W) (w_ctx W) insns of Some (Inr u) \<Rightarrow> \<exists>i \<in> set insns. may_fault i u | _ \<Rightarrow> True"
proof -
  obtain D where "\<forall>x \<in> D. checked p insns D {} x"
    "covered D (0, init_vstate)"
    using do_check_closed [OF assms(1)] .
  then show ?thesis
    using closed_run [OF _ assms(2,3) _ _ init_state_ok [OF assms(4)], of D] by (simp add: bpf_prog_run_def init_state_def)
qed

end
