(* ===== verification/Bpf_Verifier_Total.thy ===== *)
theory Bpf_Verifier_Total
  imports Bpf_Verifier_Sound
begin

text \<open>
  The verifier itself is safe: on a program that passed the control flow check and whose 64-bit loads are complete,
  \<open>do_check\<close> only looks at instructions of the program and never violates its \<open>BUG_ON\<close>, whatever the allocator does.
\<close>

section \<open>Checks that cannot fault\<close>

definition defined :: "'a result \<Rightarrow> bool" where
  "defined r \<longleftrightarrow> (\<forall>u. r \<noteq> Undef u)"

named_theorems total \<open>checks without undefined behaviour\<close>

lemma defined_simps [simp]: "defined (Ok x)" "defined (Err e)" "\<not> defined (Undef u)"
  by (auto simp: defined_def)

lemma defined_rbind [intro!]: "defined r \<Longrightarrow> (\<And>x. r = Ok x \<Longrightarrow> defined (f x)) \<Longrightarrow> defined (rbind r f)"
  by (cases r) auto

lemma defined_if: "(b \<Longrightarrow> defined r) \<Longrightarrow> (\<not> b \<Longrightarrow> defined s) \<Longrightarrow> defined (if b then r else s)"
  by simp

lemma defined_split: "(\<And>x y. defined (f x y)) \<Longrightarrow> defined (case z of (x, y) \<Rightarrow> f x y)"
  by (cases z) simp

lemma defined_leaves [total]:
  "defined (check_reg_arg rs r t)" "defined (bpf_size_to_bytes b)" "defined (check_stack_write vs off sz vr)"
  "defined (check_stack_read vs off sz vr)" "defined (check_map_access p rs r off sz)" "defined (check_ctx_access p off sz w)"
  "defined (check_stack_boundary vs r n)" "defined (check_map_func_compatibility p mapp func)" "defined (mark_access ty i)"
  by (auto simp: check_reg_arg_def bpf_size_to_bytes_def check_stack_write_def check_stack_read_def check_map_access_def check_ctx_access_def
      check_stack_boundary_def check_map_func_compatibility_def mark_access_def Let_def split: option.split)

lemma defined_mem [total]: "defined (check_mem_access p vs r off b w vr)"
  by (auto simp: check_mem_access_def Let_def intro!: total)

lemma defined_xadd [total]: "defined (check_xadd p i vs)"
  by (auto simp: check_xadd_def intro!: total)

lemma defined_func_arg [total]: "defined (check_func_arg p vs r t mapp)"
  by (auto simp: check_func_arg_def Let_def intro!: total split: bpf_arg_type.split option.split)

lemma defined_args [total]: "defined (check_args p vs rts mapp)"
  by (induction rts arbitrary: mapp) (auto intro!: total)

lemma defined_call [total]: "defined (check_call p f vs)"
  by (auto simp: check_call_def Let_def intro!: total split: option.split bpf_return_type.split)

lemma defined_alu [total]: "defined (check_alu_op p i rs)"
  by (auto simp: check_alu_op_def Let_def intro!: total)

lemma defined_cond_jmp [total]: "defined (check_cond_jmp_op p cp i rs)"
  by (auto simp: check_cond_jmp_op_def Let_def intro!: total)

lemma defined_ld_abs [total]: "defined (check_ld_abs p i rs)"
  by (auto simp: check_ld_abs_def Let_def intro!: total)

text \<open>A 64-bit load is complete and has one of the two defined kinds of source.\<close>

definition ld_pseudo_ok :: "bpf_insn list \<Rightarrow> bool" where
  "ld_pseudo_ok q \<longleftrightarrow> (\<forall>i \<in> set q. bi_code i = (BPF_LD OR BPF_IMM OR BPF_DW) \<longrightarrow> bi_src i = 0 \<or> bi_src i = 1)"

lemma ld_imm_code:
  assumes "BPF_CLASS (c :: u8) = BPF_LD" and "BPF_MODE c = BPF_IMM" and "BPF_SIZE c = BPF_DW"
  shows "c = BPF_LD OR BPF_IMM OR BPF_DW"
proof -
  have "(0x07 OR 0xe0 OR 0x18 :: u8) = - 1" by simp
  then have "c = (c AND 0x07) OR (c AND 0xe0) OR (c AND 0x18)"
    by (metis bit.conj_disj_distrib bit.conj_one_right)
  then show ?thesis using assms by (simp add: bpf_fields)
qed

lemma succs_marks:
  assumes "same_marks q insns" and "t < length insns"
  shows "succs q t = succs insns t" and "bi_code (q ! t) = bi_code (insns ! t)" and "bi_src (q ! t) = bi_src (insns ! t)"
    and "length q = length insns"
proof -
  have "unmark (q ! t) = unmark (insns ! t)" and l: "length q = length insns" using same_marks_nth [OF assms] by auto
  from arg_cong [OF this(1), of bi_code] arg_cong [OF this(1), of bi_off] arg_cong [OF this(1), of bi_src]
  have "bi_code (q ! t) = bi_code (insns ! t)" "bi_off (q ! t) = bi_off (insns ! t)" "bi_src (q ! t) = bi_src (insns ! t)" by simp_all
  then show "succs q t = succs insns t" "bi_code (q ! t) = bi_code (insns ! t)" "bi_src (q ! t) = bi_src (insns ! t)"
    "length q = length insns" using l by (simp_all add: succs_def Let_def)
qed

definition vprog_ok :: "bpf_insn list \<Rightarrow> bool" where
  "vprog_ok q \<longleftrightarrow> q \<noteq> [] \<and> cfg_ok q \<and> ld_imm64_ok q \<and> ld_pseudo_ok q"

lemma defined_one:
  assumes ok: "vprog_ok q" and marks: "same_marks q insns" and idx: "idx < length insns"
  shows "defined (check_one p cp idx insns vs)"
proof -
  have ld: "defined (check_ld_imm (insns ! idx) (if idx + 1 < length insns then Some (insns ! (idx + 1)) else None) rs)"
    if "BPF_CLASS (bi_code (insns ! idx)) = BPF_LD" "BPF_MODE (bi_code (insns ! idx)) = BPF_IMM" for rs
  proof (cases "BPF_SIZE (bi_code (insns ! idx)) = BPF_DW")
    case True
    then have code: "bi_code (q ! idx) = BPF_LD OR BPF_IMM OR BPF_DW"
      using ld_imm_code that succs_marks(2) [OF marks idx] by metis
    moreover have "q ! idx \<in> set q" using idx succs_marks(4) [OF marks idx] by simp
    ultimately have "idx + 1 < length insns" "bi_src (insns ! idx) = 0 \<or> bi_src (insns ! idx) = 1"
      using ok idx succs_marks(3,4) [OF marks idx] by (auto simp: vprog_ok_def ld_imm64_ok_def ld_pseudo_ok_def)
    then show ?thesis by (auto simp: check_ld_imm_def intro!: total)
  qed (simp add: check_ld_imm_def)
  show ?thesis unfolding check_one_def Let_def
    by (intro defined_if defined_rbind defined_split total defined_simps ld; assumption)
qed

lemma check_one_in_range:
  assumes ok: "vprog_ok q" and marks: "same_marks q insns" and idx: "idx < length insns"
    and one: "check_one p cp idx insns vs = Ok (nx, other, insns')" and nxt: "nx = VCont j v \<or> other = Some (j, v)"
  shows "0 \<le> j \<and> j < int (length q)"
proof -
  have edge: "0 \<le> w \<and> w < int (length q)" if "w \<in> set (succs insns t)" "t < length insns" for w t
    using ok that succs_marks(1,4) [OF marks that(2)] unfolding vprog_ok_def cfg_ok_def by metis
  show ?thesis
  proof (cases "BPF_CLASS (bi_code (insns ! idx)) = BPF_LD \<and> BPF_MODE (bi_code (insns ! idx)) = BPF_IMM")
    case True
    then have "BPF_SIZE (bi_code (insns ! idx)) = BPF_DW" and j: "j = int idx + 2"
      using one nxt by (auto simp: check_one_def Let_def check_ld_imm_def split: if_splits)
    then have code: "bi_code (q ! idx) = BPF_LD OR BPF_IMM OR BPF_DW"
      using ld_imm_code True succs_marks(2) [OF marks idx] by metis
    then have n: "idx + 1 < length insns" "bi_code (q ! (idx + 1)) = 0"
      using ok idx succs_marks(4) [OF marks idx] by (auto simp: vprog_ok_def ld_imm64_ok_def)
    then have "bi_code (insns ! (idx + 1)) = 0" using succs_marks(2) [OF marks n(1)] by simp
    then have "int (idx + 1) + 1 \<in> set (succs insns (idx + 1))" by (simp add: succs_def bpf_fields)
    then show ?thesis using edge [OF _ n(1), of "int (idx + 1) + 1"] j by (simp add: add.commute)
  next
    case False
    then have "j \<in> set (succs insns idx)"
      using one nxt unfolding check_one_def Let_def succs_def by (auto split: if_splits)
    then show ?thesis using edge idx by blast
  qed
qed

lemma defined_resume:
  assumes ok: "vprog_ok q" and "same_marks q insns" and "\<forall>(i, v) \<in> set pts. 0 \<le> i \<and> i < int (length q)"
  shows "defined (resume p vo po n pts ex insns)"
  using assms(2,3)
proof (induction "32768 - n" arbitrary: n pts ex insns rule: less_induct)
  case less
  show ?case
  proof (cases pts)
    case (Cons x stack)
    obtain i cur where x: "x = (i, cur)" by fastforce
    have i: "0 \<le> i" "i < int (length insns)" using less.prems Cons x by (auto simp: same_marks_def dest: map_eq_imp_length_eq)
    then have idx: "nat i < length insns" by linarith
    show ?thesis
    proof (cases "n < 32768")
      case True
      note ih = less.hyps [OF diff_less_mono2 [OF lessI True]]
      let ?cp = "po n \<and> length stack < 1024"
      have vis: "defined (is_state_visited (vo n) (nat i) cur ex)" by (auto simp: is_state_visited_def split: option.split)
      have one: "defined (check_one p ?cp (nat i) insns cur)" using defined_one [OF ok less.prems(1) idx] .
      have pop: "defined (case stack of [] \<Rightarrow> Ok insns' | (i, st) # stack \<Rightarrow> check_loop p vo po (Suc n) i st stack ex' insns')"
        if "same_marks q insns'" for ex' insns'
        using ih [of insns' stack ex'] that less.prems(2) Cons by (simp add: resume_def)
      have go: "defined (check_loop p vo po (Suc n) j st (case other of None \<Rightarrow> stack | Some b \<Rightarrow> b # stack) ex' insns')"
        if c: "check_one p ?cp (nat i) insns cur = Ok (VCont j st, other, insns')" for j st other ex' insns'
      proof -
        have "0 \<le> j' \<and> j' < int (length q)" if "(j', v) \<in> set ((j, st) # (case other of None \<Rightarrow> stack | Some b \<Rightarrow> b # stack))" for j' v
          using check_one_in_range [OF ok less.prems(1) idx c, of j' v] that less.prems(2) Cons by (auto split: option.splits)
        then show ?thesis
          using ih [OF check_one_marks [OF c less.prems(1)], of "(j, st) # (case other of None \<Rightarrow> stack | Some b \<Rightarrow> b # stack)" ex']
          unfolding resume_def list.case prod.case by blast
      qed
      show ?thesis unfolding Cons x resume_def list.case prod.case check_loop.simps [of p vo po n i]
        using i vis one pop [OF less.prems(1)] pop [OF check_one_marks [OF _ less.prems(1)]] go
        by (auto split: result.split bool.split vnext.split)
    next
      case False
      then show ?thesis using i by (simp add: Cons x resume_def check_loop.simps [of p vo po n i])
    qed
  qed (simp add: resume_def)
qed

end
