(* ===== verification/Bpf_Map.thy ===== *)
theory Bpf_Map
  imports Kernel_Prelude
begin

text \<open>
  What every kind of BPF map shares: the attributes user space passes to create one, the rounding
  macros of \<^verbatim>\<open>include/linux/kernel.h\<close> and \<^verbatim>\<open>include/linux/log2.h\<close> the sizes are computed
  with, and the contract of \<open>struct bpf_map_ops\<close> (\<^verbatim>\<open>include/linux/bpf.h\<close>) as a locale: a map object
  represents a finite map from keys to values, and the function pointers look up, update, delete
  and enumerate it. What user space and programs rely on is proved once in the locale.
\<close>

section \<open>Attributes and sizes\<close>

record bpf_attr =
  at_key_size :: u32
  at_value_size :: u32
  at_max_entries :: u32

abbreviation (input) BPF_ANY :: u64 where "BPF_ANY \<equiv> 0"
abbreviation (input) BPF_NOEXIST :: u64 where "BPF_NOEXIST \<equiv> 1"
abbreviation (input) BPF_EXIST :: u64 where "BPF_EXIST \<equiv> 2"

abbreviation (input) PAGE_SHIFT :: nat where "PAGE_SHIFT \<equiv> 12"
abbreviation (input) PAGE_SIZE :: "'a::len word" where "PAGE_SIZE \<equiv> 4096"
abbreviation (input) U32_MAX :: u64 where "U32_MAX \<equiv> 0xffffffff"
abbreviation (input) KMALLOC_SHIFT_MAX :: nat where "KMALLOC_SHIFT_MAX \<equiv> 23" \<comment> \<open>SLUB on x86-64: \<open>MAX_ORDER + PAGE_SHIFT\<close>\<close>

definition round_up :: "'a::len word \<Rightarrow> 'a word \<Rightarrow> 'a word" where
  "round_up x y = ((x - 1) OR (y - 1)) + 1"

text \<open>\<open>fls_long\<close>: the position of the highest set bit, counted from one.\<close>

fun fls_bits :: "nat \<Rightarrow> u64 \<Rightarrow> nat" where
  "fls_bits 0 w = 0"
| "fls_bits (Suc n) w = (if bit w n then Suc n else fls_bits n w)"

definition fls_long :: "u64 \<Rightarrow> nat" where
  "fls_long w = fls_bits 64 w"

definition roundup_pow_of_two :: "u64 \<Rightarrow> u64" where
  "roundup_pow_of_two n = push_bit (fls_long (n - 1)) 1"

lemma unat_pred: "x \<noteq> 0 \<Longrightarrow> unat x = unat (x - 1) + 1"
  by (metis One_nat_def add.right_neutral add_Suc_right diff_add_cancel unatSuc add.commute)

lemma round_up_unat:
  assumes "x \<noteq> (0 :: 'a::len word)" and "n < LENGTH('a)" and "(unat (x - 1) div 2 ^ n + 1) * 2 ^ n < 2 ^ LENGTH('a)"
  shows "unat (round_up x (2 ^ n)) = (unat (x - 1) div 2 ^ n + 1) * 2 ^ n"
proof -
  let ?y = "unat (x - 1)"
  have "unat (mask n :: 'a word) = mask n" using assms(2) by (intro bit_eqI) (auto simp: bit_simps)
  then have "unat ((x - 1) OR mask n) = ?y OR mask n" by (simp add: unsigned_or_eq)
  also have "\<dots> = push_bit n (drop_bit n ?y) OR mask n" by (rule bit_eqI) (auto simp: bit_simps)
  also have "\<dots> = push_bit n (drop_bit n ?y) + mask n"
    by (rule disjunctive_add_eq_or [symmetric]) (auto intro!: bit_eqI simp: bit_simps)
  finally have e: "unat ((x - 1) OR mask n) = ?y div 2 ^ n * 2 ^ n + mask n"
    by (simp add: push_bit_eq_mult drop_bit_eq_div)
  have m: "Suc (mask n) = 2 ^ n" by (simp add: mask_eq_exp_minus_1)
  then have l: "unat ((x - 1) OR mask n) + 1 = (?y div 2 ^ n + 1) * 2 ^ n" using e by (simp add: algebra_simps)
  then have "unat (((x - 1) OR mask n) + 1) = unat ((x - 1) OR mask n) + unat (1 :: 'a word)"
    using assms(3) by (intro iffD1 [OF unat_add_lem]) simp
  then show ?thesis using l by (simp add: round_up_def mask_eq_exp_minus_1)
qed

lemma round_up_bounds:
  assumes "x \<noteq> (0 :: 'a::len word)" and "n < LENGTH('a)" and "unat x + 2 ^ n \<le> 2 ^ LENGTH('a)"
  shows "unat x \<le> unat (round_up x (2 ^ n))" and "unat (round_up x (2 ^ n)) < unat x + 2 ^ n"
    and "2 ^ n dvd unat (round_up x (2 ^ n))"
proof -
  let ?y = "unat (x - 1)"
  have y: "unat x = ?y + 1" using assms(1) by (rule unat_pred)
  have d: "?y = ?y div 2 ^ n * 2 ^ n + ?y mod 2 ^ n" by (rule div_mult_mod_eq [symmetric])
  have l: "?y mod 2 ^ n < 2 ^ n" by simp
  have b: "(?y div 2 ^ n + 1) * 2 ^ n < unat x + 2 ^ n" using d y unfolding distrib_right by linarith
  note r = round_up_unat [OF assms(1,2) order_less_le_trans [OF b assms(3)]]
  show "unat x \<le> unat (round_up x (2 ^ n))" using d l y unfolding r distrib_right by linarith
  show "unat (round_up x (2 ^ n)) < unat x + 2 ^ n" using b by (simp only: r)
  show "2 ^ n dvd unat (round_up x (2 ^ n))" by (simp only: r) simp
qed

lemma fls_bits_bound: "fls_bits n w \<le> n \<and> (\<forall>i < n. bit w i \<longrightarrow> i < fls_bits n w)"
  by (induction n) (auto simp: less_Suc_eq)

lemma fls_bits_top: "fls_bits n w = 0 \<or> bit w (fls_bits n w - 1)"
  by (induction n) auto

lemma roundup_pow_of_two_correct:
  assumes "n \<noteq> 0" and "unat n \<le> 2 ^ 32"
  shows "\<exists>k \<le> 32. roundup_pow_of_two n = 2 ^ k \<and> unat n \<le> 2 ^ k"
proof -
  let ?k = "fls_long (n - 1)"
  have u: "unat n = unat (n - 1) + 1" using assms(1) by (rule unat_pred)
  have "take_bit ?k (n - 1) = n - 1"
    by (rule bit_word_eqI) (use fls_bits_bound [of 64 "n - 1"] in \<open>auto simp: bit_simps fls_long_def\<close>)
  then have "unat (n - 1) < 2 ^ ?k" by (metis unsigned_take_bit_eq take_bit_nat_eq_self_iff)
  moreover have "?k \<le> 32"
  proof (rule ccontr)
    assume "\<not> ?k \<le> 32"
    then have k: "bit (unat (n - 1)) (?k - 1)" "32 \<le> ?k - 1" using fls_bits_top [of 64 "n - 1"]
      by (auto simp: fls_long_def bit_unsigned_iff)
    have "unat (n - 1) < 2 ^ 32" using u assms(2) by linarith
    also have "(2 :: nat) ^ 32 \<le> 2 ^ (?k - 1)" using k(2) by (rule power_increasing) simp
    finally show False using k(1) by (simp add: bit_iff_odd)
  qed
  ultimately show ?thesis using u by (intro exI [of _ ?k]) (simp add: roundup_pow_of_two_def push_bit_eq_mult)
qed

section \<open>The contract of a map implementation\<close>

text \<open>The key after \<open>k\<close> in an enumeration; the first one when \<open>k\<close> is not in it.\<close>

fun next_in :: "'k list \<Rightarrow> 'k \<Rightarrow> 'k option" where
  "next_in [] k = None"
| "next_in (x # xs) k = (if x = k then (case xs of [] \<Rightarrow> None | y # _ \<Rightarrow> Some y) else next_in xs k)"

definition key_after :: "'k list \<Rightarrow> 'k \<Rightarrow> 'k result" where
  "key_after ks k =
     (case (if k \<in> set ks then next_in ks k else (case ks of [] \<Rightarrow> None | y # _ \<Rightarrow> Some y)) of
        None \<Rightarrow> Err ENOENT | Some y \<Rightarrow> Ok y)"

lemma next_in_nth: "distinct ks \<Longrightarrow> i < length ks \<Longrightarrow> next_in ks (ks ! i) = (if Suc i < length ks then Some (ks ! Suc i) else None)"
proof (induction ks arbitrary: i)
  case (Cons x xs)
  show ?case
  proof (cases i)
    case 0
    then show ?thesis by (cases xs) auto
  next
    case (Suc j)
    then have "x \<noteq> xs ! j" using Cons.prems by auto
    then show ?thesis using Cons Suc by auto
  qed
qed simp

text \<open>The status and the map after an operation that changes the map only if it succeeds.\<close>

fun settle :: "'m \<Rightarrow> 'm result \<Rightarrow> unit result \<times> 'm" where
  "settle m (Ok m') = (Ok (), m')"
| "settle m (Err e) = (Err e, m)"
| "settle m (Undef u) = (Undef u, m)"

text \<open>
  \<open>rep m M\<close>: the object \<open>m\<close> is well formed and holds the map \<open>M\<close>. An operation may not end (\<open>None\<close>);
  \<open>ok\<close> tells whether the allocations of an update succeed.
\<close>

locale bpf_map_ops =
  fixes rep :: "'m \<Rightarrow> (u8 list \<rightharpoonup> u8 list) \<Rightarrow> bool"
    and ksize :: "'m \<Rightarrow> nat"
    and vsize :: "'m \<Rightarrow> nat"
    and lookup :: "'m \<Rightarrow> u8 list \<Rightarrow> u8 list option run"
    and update :: "bool \<Rightarrow> 'm \<Rightarrow> u8 list \<Rightarrow> u8 list \<Rightarrow> u64 \<Rightarrow> (unit result \<times> 'm) option"
    and delete :: "'m \<Rightarrow> u8 list \<Rightarrow> (unit result \<times> 'm) option"
    and next_key :: "'m \<Rightarrow> u8 list \<Rightarrow> u8 list run"
  assumes lookup_rep: "rep m M \<Longrightarrow> length k = ksize m \<Longrightarrow> lookup m k = Some (Ok (M k))"
    and update_rep: "rep m M \<Longrightarrow> length k = ksize m \<Longrightarrow> length v = vsize m \<Longrightarrow>
      \<exists>r m'. update ok m k v flags = Some (r, m') \<and> ksize m' = ksize m \<and> vsize m' = vsize m \<and>
        (r = Ok () \<and> rep m' (M(k \<mapsto> v)) \<or> (\<exists>e. r = Err e) \<and> rep m' M)"
    and delete_rep: "rep m M \<Longrightarrow> length k = ksize m \<Longrightarrow>
      \<exists>r m'. delete m k = Some (r, m') \<and> ksize m' = ksize m \<and> vsize m' = vsize m \<and>
        (r = Ok () \<and> M k \<noteq> None \<and> rep m' (M(k := None)) \<or> (\<exists>e. r = Err e) \<and> rep m' M)"
    and next_key_rep: "rep m M \<Longrightarrow>
      \<exists>ks. distinct ks \<and> set ks = dom M \<and> (\<forall>k. length k = ksize m \<longrightarrow> next_key m k = Some (key_after ks k))"
    and rep_keys: "rep m M \<Longrightarrow> M k = Some v \<Longrightarrow> length k = ksize m \<and> length v = vsize m"
begin

text \<open>A value written by a successful update is read back until the key is updated or deleted.\<close>

lemma update_lookup:
  assumes "rep m M" and "length k = ksize m" and "length v = vsize m" and "length k' = ksize m"
    and "update ok m k v flags = Some (Ok (), m')"
  shows "lookup m' k' = (if k' = k then Some (Ok (Some v)) else lookup m k')"
  using update_rep [OF assms(1-3), of ok flags] assms lookup_rep [OF assms(1,4)] lookup_rep [of m' _ k'] by auto

lemma update_failure:
  assumes "rep m M" and "length k = ksize m" and "length v = vsize m" and "length k' = ksize m"
    and "update ok m k v flags = Some (r, m')" and "r \<noteq> Ok ()"
  shows "lookup m' k' = lookup m k'"
  using update_rep [OF assms(1-3), of ok flags] assms lookup_rep [OF assms(1,4)] lookup_rep [of m' _ k'] by auto

lemma delete_lookup:
  assumes "rep m M" and "length k = ksize m" and "length k' = ksize m" and "delete m k = Some (Ok (), m')"
  shows "lookup m' k' = (if k' = k then Some (Ok None) else lookup m k')"
  using delete_rep [OF assms(1,2)] assms lookup_rep [OF assms(1,3)] lookup_rep [of m' _ k'] by auto

text \<open>The idiom of user space: start from a key that is not in the map and follow \<open>next_key\<close> to the end.\<close>

fun walk :: "nat \<Rightarrow> 'm \<Rightarrow> u8 list \<Rightarrow> u8 list list option" where
  "walk 0 m k = None"
| "walk (Suc n) m k =
     (case next_key m k of
        Some (Ok k') \<Rightarrow> map_option ((#) k') (walk n m k')
      | Some (Err ENOENT) \<Rightarrow> Some []
      | _ \<Rightarrow> None)"

lemma walk_from:
  assumes "distinct ks" and "set ks = dom M" and "\<And>k. length k = ksize m \<Longrightarrow> next_key m k = Some (key_after ks k)"
    and "rep m M" and "i < length ks"
  shows "walk (length ks - i) m (ks ! i) = Some (drop (Suc i) ks)"
  using assms(5)
proof (induction "length ks - i" arbitrary: i)
  case (Suc n)
  have "ks ! i \<in> dom M" using Suc.prems assms(2) nth_mem by blast
  then have l: "length (ks ! i) = ksize m" using rep_keys [OF assms(4)] by blast
  have a: "key_after ks (ks ! i) = (if Suc i < length ks then Ok (ks ! Suc i) else Err ENOENT)"
    using next_in_nth [OF assms(1) Suc.prems] Suc.prems by (simp add: key_after_def)
  show ?case
  proof (cases "Suc i < length ks")
    case True
    then have "walk (length ks - Suc i) m (ks ! Suc i) = Some (drop (Suc (Suc i)) ks)" using Suc by simp
    moreover have "length ks - i = Suc (length ks - Suc i)" using Suc.prems by simp
    ultimately show ?thesis using True a assms(3) [OF l] by (simp add: Cons_nth_drop_Suc)
  next
    case False
    then have "length ks - i = Suc 0" using Suc.prems by simp
    then show ?thesis using False a assms(3) [OF l] by simp
  qed
qed simp

lemma walk_all:
  assumes "rep m M" and "length k = ksize m" and "M k = None"
  shows "\<exists>ks n. walk n m k = Some ks \<and> distinct ks \<and> set ks = dom M"
proof -
  obtain ks where ks: "distinct ks" "set ks = dom M" "\<And>k. length k = ksize m \<Longrightarrow> next_key m k = Some (key_after ks k)"
    using next_key_rep [OF assms(1)] by blast
  have "k \<notin> set ks" using ks(2) assms(3) by blast
  then have "walk (Suc (length ks)) m k = Some ks"
    using ks(3) [OF assms(2)] walk_from [OF ks assms(1), of 0]
    by (cases ks) (auto simp: key_after_def)
  then show ?thesis using ks by blast
qed

end

end
