(* ===== verification/Jhash.thy ===== *)
theory Jhash
  imports Kernel_Prelude
begin

text \<open>
  The Jenkins hash of the kernel, \<^verbatim>\<open>include/linux/jhash.h\<close>: hashing a byte string (\<open>jhash\<close>), an array
  of 32-bit words (\<open>jhash2\<close>) and up to three words. On the little-endian configuration the
  variants agree on the same data.
\<close>

definition rol32 :: "u32 \<Rightarrow> nat \<Rightarrow> u32" where
  "rol32 word shift = push_bit shift word OR drop_bit (nat ((- int shift) mod 32)) word"

text \<open>\<open>__jhash_mix\<close> and \<open>__jhash_final\<close>, assignment by assignment.\<close>

definition jhash_mix :: "u32 \<Rightarrow> u32 \<Rightarrow> u32 \<Rightarrow> u32 \<times> u32 \<times> u32" where
  "jhash_mix a b c =
     (let a = a - c; a = a XOR rol32 c 4; c = c + b;
          b = b - a; b = b XOR rol32 a 6; a = a + c;
          c = c - b; c = c XOR rol32 b 8; b = b + a;
          a = a - c; a = a XOR rol32 c 16; c = c + b;
          b = b - a; b = b XOR rol32 a 19; a = a + c;
          c = c - b; c = c XOR rol32 b 4; b = b + a
      in (a, b, c))"

definition jhash_final :: "u32 \<Rightarrow> u32 \<Rightarrow> u32 \<Rightarrow> u32" where
  "jhash_final a b c =
     (let c = c XOR b; c = c - rol32 b 14;
          a = a XOR c; a = a - rol32 c 11;
          b = b XOR a; b = b - rol32 a 25;
          c = c XOR b; c = c - rol32 b 16;
          a = a XOR c; a = a - rol32 c 4;
          b = b XOR a; b = b - rol32 a 14;
          c = c XOR b; c = c - rol32 b 24
      in c)"

abbreviation (input) JHASH_INITVAL :: u32 where "JHASH_INITVAL \<equiv> 0xdeadbeef"

section \<open>Hashing bytes\<close>

definition get_unaligned_cpu32 :: "u8 list \<Rightarrow> u32" where \<comment> \<open>\<open>__get_unaligned_cpu32\<close>, little endian\<close>
  "get_unaligned_cpu32 k = ucast (of_le (take 4 k))"

fun jhash_loop :: "u8 list \<Rightarrow> u32 \<times> u32 \<times> u32 \<Rightarrow> u8 list \<times> u32 \<times> u32 \<times> u32" where
  "jhash_loop k (a, b, c) =
     (if length k > 12 then
        jhash_loop (drop 12 k)
          (jhash_mix (a + get_unaligned_cpu32 k) (b + get_unaligned_cpu32 (drop 4 k)) (c + get_unaligned_cpu32 (drop 8 k)))
      else (k, a, b, c))"

declare jhash_loop.simps [simp del]

text \<open>The fall-through \<open>switch\<close> over the last block: each label adds one byte if the block reaches it.\<close>

definition jhash_tail :: "u8 list \<Rightarrow> u32 \<Rightarrow> u32 \<Rightarrow> u32 \<Rightarrow> u32" where
  "jhash_tail k a b c =
     (let n = length k; at = (\<lambda>i s. push_bit s (ucast (k ! i)) :: u32);
          c = (if n \<ge> 12 then c + at 11 24 else c);
          c = (if n \<ge> 11 then c + at 10 16 else c);
          c = (if n \<ge> 10 then c + at 9 8 else c);
          c = (if n \<ge> 9 then c + at 8 0 else c);
          b = (if n \<ge> 8 then b + at 7 24 else b);
          b = (if n \<ge> 7 then b + at 6 16 else b);
          b = (if n \<ge> 6 then b + at 5 8 else b);
          b = (if n \<ge> 5 then b + at 4 0 else b);
          a = (if n \<ge> 4 then a + at 3 24 else a);
          a = (if n \<ge> 3 then a + at 2 16 else a);
          a = (if n \<ge> 2 then a + at 1 8 else a)
      in if n \<ge> 1 then jhash_final (a + at 0 0) b c else c)"

definition jhash :: "u8 list \<Rightarrow> u32 \<Rightarrow> u32" where
  "jhash key initval =
     (let i = JHASH_INITVAL + of_nat (length key) + initval
      in case jhash_loop key (i, i, i) of (k, a, b, c) \<Rightarrow> jhash_tail k a b c)"

section \<open>Hashing words\<close>

fun jhash2_loop :: "u32 list \<Rightarrow> u32 \<times> u32 \<times> u32 \<Rightarrow> u32 list \<times> u32 \<times> u32 \<times> u32" where
  "jhash2_loop k (a, b, c) =
     (if length k > 3 then jhash2_loop (drop 3 k) (jhash_mix (a + k ! 0) (b + k ! 1) (c + k ! 2))
      else (k, a, b, c))"

declare jhash2_loop.simps [simp del]

definition jhash2 :: "u32 list \<Rightarrow> u32 \<Rightarrow> u32" where
  "jhash2 key initval =
     (let i = JHASH_INITVAL + push_bit 2 (of_nat (length key)) + initval
      in case jhash2_loop key (i, i, i) of (k, a, b, c) \<Rightarrow>
           (let n = length k;
                c = (if n \<ge> 3 then c + k ! 2 else c);
                b = (if n \<ge> 2 then b + k ! 1 else b)
            in if n \<ge> 1 then jhash_final (a + k ! 0) b c else c))"

definition jhash_nwords :: "u32 \<Rightarrow> u32 \<Rightarrow> u32 \<Rightarrow> u32 \<Rightarrow> u32" where
  "jhash_nwords a b c initval = jhash_final (a + initval) (b + initval) (c + initval)"

definition jhash_3words :: "u32 \<Rightarrow> u32 \<Rightarrow> u32 \<Rightarrow> u32 \<Rightarrow> u32" where
  "jhash_3words a b c initval = jhash_nwords a b c (initval + JHASH_INITVAL + 12)"

definition jhash_2words :: "u32 \<Rightarrow> u32 \<Rightarrow> u32 \<Rightarrow> u32" where
  "jhash_2words a b initval = jhash_nwords a b 0 (initval + JHASH_INITVAL + 8)"

definition jhash_1word :: "u32 \<Rightarrow> u32 \<Rightarrow> u32" where
  "jhash_1word a initval = jhash_nwords a 0 0 (initval + JHASH_INITVAL + 4)"

section \<open>The variants agree\<close>

text \<open>The bytes of an array of words in memory.\<close>

definition word_bytes :: "u32 list \<Rightarrow> u8 list" where
  "word_bytes ws = concat (map (\<lambda>w. le_bytes 4 (ucast w)) ws)"

lemma length_word_bytes [simp]: "length (word_bytes ws) = 4 * length ws"
  by (induction ws) (auto simp: word_bytes_def)

lemma word_bytes_Cons [simp]: "word_bytes (w # ws) = le_bytes 4 (ucast w) @ word_bytes ws"
  by (simp add: word_bytes_def)

lemma get_word_bytes [simp]: "get_unaligned_cpu32 (le_bytes 4 (ucast (w :: u32)) @ k) = w"
  by (simp add: get_unaligned_cpu32_def of_le_le_bytes take_bit_32_u64)

lemma jhash_loop_words:
  "jhash_loop (word_bytes ws) s = (case jhash2_loop ws s of (k, r) \<Rightarrow> (word_bytes k, r))"
proof (induction ws s rule: jhash2_loop.induct)
  case (1 k a b c)
  show ?case
  proof (cases "length k > 3")
    case True
    then obtain x y z w k' where k: "k = x # y # z # w # k'"
      by (cases k; cases "tl k"; cases "tl (tl k)"; cases "tl (tl (tl k))") auto
    have d: "drop 4 (word_bytes k) = word_bytes (drop 1 k)" "drop 8 (word_bytes k) = word_bytes (drop 2 k)"
      "drop 12 (word_bytes k) = word_bytes (drop 3 k)" by (simp_all add: k)
    have g: "get_unaligned_cpu32 (word_bytes k) = k ! 0" "get_unaligned_cpu32 (word_bytes (drop 1 k)) = k ! 1"
      "get_unaligned_cpu32 (word_bytes (drop 2 k)) = k ! 2" by (simp_all add: k)
    have l: "12 < length (word_bytes k)" using True by simp
    show ?thesis
      unfolding jhash_loop.simps [of "word_bytes k"] jhash2_loop.simps [of k]
      using 1 [OF True] True l by (simp only: d g if_True)
  next
    case False
    then show ?thesis by (simp add: jhash_loop.simps jhash2_loop.simps)
  qed
qed

text \<open>Adding the bytes of a word one by one adds the word.\<close>

lemma add_disjoint: "(\<And>n. \<not> (bit a n \<and> bit b n)) \<Longrightarrow> (a :: u32) + b = a OR b"
  by (rule disjunctive_add_eq_or) (auto intro!: bit_word_eqI simp: bit_simps)

lemma bytes_sum:
  "push_bit 24 (ucast (ucast (drop_bit 24 w) :: u8)) + (push_bit 16 (ucast (ucast (drop_bit 16 w) :: u8)) +
     (push_bit 8 (ucast (ucast (drop_bit 8 w) :: u8)) + ucast (ucast w :: u8))) = (w :: u32)"
proof -
  let ?x = "push_bit 8 (ucast (ucast (drop_bit 8 w) :: u8)) :: u32" and ?y = "push_bit 16 (ucast (ucast (drop_bit 16 w) :: u8)) :: u32"
    and ?z = "push_bit 24 (ucast (ucast (drop_bit 24 w) :: u8)) :: u32"
  have 1: "?x + ucast (ucast w :: u8) = ?x OR ucast (ucast w :: u8)"
    by (rule add_disjoint) (auto simp: bit_simps)
  have 2: "?y + (?x OR ucast (ucast w :: u8)) = ?y OR (?x OR ucast (ucast w :: u8))"
    by (rule add_disjoint) (auto simp: bit_simps)
  have 3: "?z + (?y OR (?x OR ucast (ucast w :: u8))) = ?z OR (?y OR (?x OR ucast (ucast w :: u8)))"
    by (rule add_disjoint) (auto simp: bit_simps)
  have "?z OR (?y OR (?x OR ucast (ucast w :: u8))) = w"
  proof (rule bit_word_eqI)
    fix n assume n: "n < LENGTH(32)"
    consider "n < 8" | "8 \<le> n" "n < 16" | "16 \<le> n" "n < 24" | "24 \<le> n" by linarith
    then show "bit (?z OR (?y OR (?x OR ucast (ucast w :: u8)))) n = bit w n"
      by cases (use n in \<open>auto simp: bit_simps less_diff_conv2\<close>)
  qed
  then show ?thesis by (simp only: 1 2 3)
qed

lemma le_bytes_4: "le_bytes 4 (ucast w) =
    [ucast w, ucast (drop_bit 8 w), ucast (drop_bit 16 w), ucast (drop_bit 24 (w :: u32))]"
proof -
  have n: "(4 :: nat) = Suc (Suc (Suc (Suc 0)))" by simp
  have u: "(ucast (drop_bit n (ucast w :: u64)) :: u8) = ucast (drop_bit n w)" for n
    by (rule bit_word_eqI) (auto simp: bit_simps dest: bit_imp_le_length)
  show ?thesis using u [of 0] u [of 8] u [of 16] u [of 24] by (simp add: n)
qed

lemma jhash_tail_words:
  assumes "length k \<le> 3"
  shows "jhash_tail (word_bytes k) a b c =
    (let n = length k; c = (if n \<ge> 3 then c + k ! 2 else c); b = (if n \<ge> 2 then b + k ! 1 else b)
     in if n \<ge> 1 then jhash_final (a + k ! 0) b c else c)"
proof -
  consider "k = []" | x where "k = [x]" | x y where "k = [x, y]" | x y z where "k = [x, y, z]"
    using assms by (cases k; cases "tl k"; cases "tl (tl k)"; cases "tl (tl (tl k))") auto
  then show ?thesis
    by cases (simp_all add: jhash_tail_def le_bytes_4 bytes_sum add.assoc word_bytes_def)
qed

lemma jhash2_loop_length: "jhash2_loop ws s = (k, r) \<Longrightarrow> length k \<le> 3"
proof (induction ws s rule: jhash2_loop.induct)
  case (1 k a b c)
  then show ?case by (cases "length k > 3") (auto simp: jhash2_loop.simps [of k])
qed

text \<open>Hashing the bytes of an array of 32-bit words with \<open>jhash\<close> gives the same value as hashing the words with \<open>jhash2\<close>
  (little-endian configuration), for every length, block and tail alike.\<close>

theorem jhash_jhash2: "jhash (word_bytes ws) initval = jhash2 ws initval"
proof -
  let ?i = "JHASH_INITVAL + push_bit 2 (of_nat (length ws)) + initval"
  have i: "JHASH_INITVAL + of_nat (length (word_bytes ws)) + initval = ?i" by (simp add: push_bit_eq_mult)
  obtain k a b c where l: "jhash2_loop ws (?i, ?i, ?i) = (k, a, b, c)" by (metis prod_cases4)
  have "length k \<le> 3" using jhash2_loop_length [OF l] .
  note t = jhash_tail_words [OF this]
  show ?thesis unfolding jhash_def jhash2_def i Let_def jhash_loop_words l prod.case t ..
qed

lemma jhash2_loop_short: "length k \<le> 3 \<Longrightarrow> jhash2_loop k (a, b, c) = (k, a, b, c)"
  by (subst jhash2_loop.simps) simp

text \<open>The variants for one, two and three words are \<open>jhash2\<close> on arrays of that length.\<close>

lemma jhash_nwords_eq:
  "jhash_1word a initval = jhash2 [a] initval"
  "jhash_2words a b initval = jhash2 [a, b] initval"
  "jhash_3words a b c initval = jhash2 [a, b, c] initval"
proof -
  have i: "x + (initval + j + l) = j + l + initval + x" for x j l :: u32 by simp
  have l: "push_bit 2 (of_nat (length [a])) = (4 :: u32)" "push_bit 2 (of_nat (length [a, b])) = (8 :: u32)"
    "push_bit 2 (of_nat (length [a, b, c])) = (12 :: u32)" by (simp_all add: push_bit_eq_mult)
  have s: "jhash2_loop [a] (x, x, x) = ([a], x, x, x)" "jhash2_loop [a, b] (x, x, x) = ([a, b], x, x, x)"
    "jhash2_loop [a, b, c] (x, x, x) = ([a, b, c], x, x, x)" for x by (simp_all add: jhash2_loop_short)
  show "jhash_1word a initval = jhash2 [a] initval"
    unfolding jhash_1word_def jhash_nwords_def jhash2_def l s Let_def prod.case i by simp
  show "jhash_2words a b initval = jhash2 [a, b] initval"
    unfolding jhash_2words_def jhash_nwords_def jhash2_def l s Let_def prod.case i by simp
  show "jhash_3words a b c initval = jhash2 [a, b, c] initval"
    unfolding jhash_3words_def jhash_nwords_def jhash2_def l s Let_def prod.case i by simp
qed

end
