(* ===== verification/Bpf_Array.thy ===== *)
theory Bpf_Array
  imports Bpf_Map Jhash
begin

text \<open>
  Array maps, \<^verbatim>\<open>kernel/bpf/arraymap.c\<close>. All elements live in one buffer behind
  \<open>struct bpf_array\<close>; a key is a 32-bit index in the byte order of the machine. Sizes and offsets
  are computed in \<open>u32\<close>, and the development shows they do not wrap.
\<close>

section \<open>Operations\<close>

record bpf_array =
  ar_key_size :: u32
  ar_value_size :: u32
  ar_max_entries :: u32
  ar_pages :: u32
  ar_elem_size :: u32
  ar_value :: "u8 list"

abbreviation (input) sizeof_bpf_array :: "'a::len word" where "sizeof_bpf_array \<equiv> 96" \<comment> \<open>on x86-64\<close>

text \<open>\<open>kzalloc_ok\<close> and \<open>vzalloc_ok\<close>: whether the two attempts to allocate succeed.\<close>

definition array_map_alloc :: "bool \<Rightarrow> bool \<Rightarrow> bpf_attr \<Rightarrow> bpf_array result" where
  "array_map_alloc kzalloc_ok vzalloc_ok attr =
     (if at_max_entries attr = 0 \<or> at_key_size attr \<noteq> 4 \<or> at_value_size attr = 0 then Err EINVAL
      else if at_value_size attr \<ge> push_bit (KMALLOC_SHIFT_MAX - 1) 1 then Err E2BIG
      else
        (let elem_size = round_up (at_value_size attr) 8 in
         if elem_size = 0 \<or>
            ucast (at_max_entries attr) > (U32_MAX - PAGE_SIZE - sizeof_bpf_array) div ucast elem_size
         then Err ENOMEM
         else
           (let array_size = (ucast (sizeof_bpf_array + ucast (at_max_entries attr * elem_size) :: u64) :: u32) in
            if \<not> kzalloc_ok \<and> \<not> vzalloc_ok then Err ENOMEM
            else Ok \<lparr>ar_key_size = at_key_size attr, ar_value_size = at_value_size attr, ar_max_entries = at_max_entries attr,
                     ar_pages = drop_bit PAGE_SHIFT (round_up array_size PAGE_SIZE),
                     ar_elem_size = elem_size, ar_value = replicate (unat array_size - 96) 0\<rparr>)))"

text \<open>\<open>*(u32 *)key\<close>\<close>

definition key_index :: "u8 list \<Rightarrow> u32 result" where
  "key_index key = (if length key \<ge> 4 then Ok (get_unaligned_cpu32 key) else Undef BadMem)"

text \<open>The result of a lookup is a pointer into the buffer, here its offset.\<close>

definition array_map_lookup_elem :: "bpf_array \<Rightarrow> u8 list \<Rightarrow> nat option result" where
  "array_map_lookup_elem array key =
     rbind (key_index key) (\<lambda>index.
       if index \<ge> ar_max_entries array then Ok None else Ok (Some (unat (ar_elem_size array * index))))"

definition array_map_get_next_key :: "bpf_array \<Rightarrow> u8 list \<Rightarrow> u8 list result" where
  "array_map_get_next_key array key =
     rbind (key_index key) (\<lambda>index.
       if index \<ge> ar_max_entries array then Ok (le_bytes 4 0)
       else if index = ar_max_entries array - 1 then Err ENOENT
       else Ok (le_bytes 4 (ucast (index + 1))))"

text \<open>\<open>memcpy\<close> into and out of the buffer.\<close>

definition buf_write :: "u8 list \<Rightarrow> nat \<Rightarrow> u8 list \<Rightarrow> u8 list result" where
  "buf_write buf off bs =
     (if off + length bs \<le> length buf then Ok (take off buf @ bs @ drop (off + length bs) buf) else Undef BadMem)"

definition buf_read :: "u8 list \<Rightarrow> nat \<Rightarrow> nat \<Rightarrow> u8 list result" where
  "buf_read buf off n = (if off + n \<le> length buf then Ok (take n (drop off buf)) else Undef BadMem)"

definition array_map_update_elem :: "bpf_array \<Rightarrow> u8 list \<Rightarrow> u8 list \<Rightarrow> u64 \<Rightarrow> bpf_array result" where
  "array_map_update_elem array key value map_flags =
     rbind (key_index key) (\<lambda>index.
       if map_flags > BPF_EXIST then Err EINVAL
       else if index \<ge> ar_max_entries array then Err E2BIG
       else if map_flags = BPF_NOEXIST then Err EEXIST
       else
         rbind (buf_read value 0 (unat (ar_value_size array))) (\<lambda>src.
         rbind (buf_write (ar_value array) (unat (ar_elem_size array * index)) src) (\<lambda>buf.
           Ok (array\<lparr>ar_value := buf\<rparr>))))"

definition array_map_delete_elem :: "bpf_array \<Rightarrow> u8 list \<Rightarrow> unit result" where
  "array_map_delete_elem array key = Err EINVAL"

text \<open>Reading a value: the lookup and the copy of \<open>value_size\<close> bytes its callers do.\<close>

definition array_map_read :: "bpf_array \<Rightarrow> u8 list \<Rightarrow> u8 list option result" where
  "array_map_read array key =
     rbind (array_map_lookup_elem array key) (\<lambda>p.
       case p of None \<Rightarrow> Ok None
       | Some off \<Rightarrow> rbind (buf_read (ar_value array) off (unat (ar_value_size array))) (\<lambda>v. Ok (Some v)))"

section \<open>The invariant\<close>

definition array_ok :: "bpf_array \<Rightarrow> bool" where
  "array_ok array \<longleftrightarrow>
     ar_key_size array = 4 \<and> ar_max_entries array \<noteq> 0 \<and> ar_value_size array \<noteq> 0 \<and>
     unat (ar_value_size array) \<le> unat (ar_elem_size array) \<and> 8 dvd unat (ar_elem_size array) \<and>
     length (ar_value array) = unat (ar_max_entries array) * unat (ar_elem_size array) \<and>
     unat (ar_max_entries array) * unat (ar_elem_size array) + 96 + 4096 < 2 ^ 32 \<and>
     unat (ar_pages array) * 4096 \<ge> unat (ar_max_entries array) * unat (ar_elem_size array) + 96"

lemma array_slot:
  assumes "array_ok array" and "index < ar_max_entries array"
  shows "unat (ar_elem_size array * index) = unat index * unat (ar_elem_size array)"
    and "unat index * unat (ar_elem_size array) + unat (ar_elem_size array) \<le> length (ar_value array)"
proof -
  let ?e = "unat (ar_elem_size array)" and ?m = "unat (ar_max_entries array)"
  have "unat index + 1 \<le> ?m" using assms(2) by (simp add: word_less_nat_alt)
  then have "(unat index + 1) * ?e \<le> ?m * ?e" by (rule mult_le_mono1)
  then show b: "unat index * ?e + ?e \<le> length (ar_value array)" using assms(1) by (simp add: array_ok_def)
  then have "?e * unat index < 2 ^ 32" using assms(1) by (simp add: array_ok_def mult.commute)
  then show "unat (ar_elem_size array * index) = unat index * ?e"
    using unat_mult_lem [of "ar_elem_size array" index] by (simp add: mult.commute)
qed

lemma array_map_alloc_ok:
  assumes "array_map_alloc ok1 ok2 attr = Ok array"
  shows "array_ok array"
proof -
  let ?v = "at_value_size attr" and ?m = "at_max_entries attr" and ?e = "round_up (at_value_size attr) 8"
  let ?s = "ucast (96 + ucast (?m * ?e) :: u64) :: u32"
  have c: "?m \<noteq> 0" "at_key_size attr = 4" "?v \<noteq> 0" "\<not> ?v \<ge> push_bit 22 1" "?e \<noteq> 0"
      "\<not> ucast ?m > (U32_MAX - PAGE_SIZE - 96) div (ucast ?e :: u64)"
    and a: "array = \<lparr>ar_key_size = 4, ar_value_size = ?v, ar_max_entries = ?m,
      ar_pages = drop_bit 12 (round_up ?s 4096), ar_elem_size = ?e, ar_value = replicate (unat ?s - 96) 0\<rparr>"
    using assms by (auto simp: array_map_alloc_def Let_def split: if_splits)
  have v: "unat ?v < 2 ^ 22" using c(4) by (simp add: word_le_nat_alt not_le push_bit_eq_mult)
  have e: "unat ?v \<le> unat ?e" "8 dvd unat ?e" using round_up_bounds [OF c(3), of 3] v by simp_all
  have "unat (ucast ?m :: u64) \<le> unat ((U32_MAX - PAGE_SIZE - 96) div (ucast ?e :: u64))"
    using c(6) by (simp add: word_le_nat_alt not_less)
  then have "unat ?m \<le> 4294963103 div unat ?e" by (simp add: unat_div)
  then have "unat ?m * unat ?e \<le> 4294963103 div unat ?e * unat ?e" by (rule mult_le_mono1)
  also have "\<dots> \<le> 4294963103" by (rule div_times_less_eq_dividend)
  finally have p: "unat ?m * unat ?e \<le> 4294963103" .
  then have m: "unat (?m * ?e) = unat ?m * unat ?e" using unat_mult_lem [of ?m ?e] by simp
  have s: "unat ?s = unat ?m * unat ?e + 96"
  proof -
    have "unat (96 + ucast (?m * ?e) :: u64) = 96 + unat (?m * ?e)"
      using unat_add_lem [of "96 :: u64" "ucast (?m * ?e)"] m p by simp
    then show ?thesis using m p by (simp add: unsigned_ucast_eq take_bit_nat_eq_self)
  qed
  have "?s \<noteq> 0" using s by (metis add_eq_0_iff_both_eq_0 unsigned_0 zero_neq_numeral)
  then have r: "unat ?s \<le> unat (round_up ?s 4096)" "4096 dvd unat (round_up ?s 4096)"
    using round_up_bounds [of ?s 12] s p by simp_all
  then have "unat (drop_bit 12 (round_up ?s 4096)) * 4096 = unat (round_up ?s 4096)"
    by (simp add: drop_bit_eq_div unat_div)
  then show ?thesis using a c e s r p by (simp add: array_ok_def)
qed

section \<open>Array maps implement the contract\<close>

lemma key_bytes: "length k = 4 \<Longrightarrow> le_bytes 4 (ucast (get_unaligned_cpu32 k)) = k"
  using le_bytes_of_le [of k] of_le_take_bit [of k] by (simp add: get_unaligned_cpu32_def flip: take_bit_32_u64)

lemma bytes_key [simp]: "get_unaligned_cpu32 (le_bytes 4 (ucast (w :: u32))) = w"
  using get_word_bytes [of w "[]"] by simp

definition slot :: "bpf_array \<Rightarrow> u32 \<Rightarrow> u8 list" where
  "slot a i = take (unat (ar_value_size a)) (drop (unat i * unat (ar_elem_size a)) (ar_value a))"

definition array_rep :: "bpf_array \<Rightarrow> (u8 list \<rightharpoonup> u8 list) \<Rightarrow> bool" where
  "array_rep a M \<longleftrightarrow> array_ok a \<and>
     M = (\<lambda>k. if length k = 4 \<and> get_unaligned_cpu32 k < ar_max_entries a then Some (slot a (get_unaligned_cpu32 k)) else None)"

lemma array_read_rep:
  assumes "array_rep a M" and "length k = 4"
  shows "array_map_read a k = Ok (M k)"
proof (cases "get_unaligned_cpu32 k < ar_max_entries a")
  case True
  have ok: "array_ok a" using assms(1) by (simp add: array_rep_def)
  note s = array_slot [OF ok True]
  have "unat (get_unaligned_cpu32 k) * unat (ar_elem_size a) + unat (ar_value_size a) \<le> length (ar_value a)"
    using s(2) ok unfolding array_ok_def by linarith
  then show ?thesis using assms True s(1)
    by (simp add: array_map_read_def array_map_lookup_elem_def key_index_def buf_read_def array_rep_def slot_def not_le)
next
  case False
  then show ?thesis using assms
    by (simp add: array_map_read_def array_map_lookup_elem_def key_index_def array_rep_def not_less)
qed

text \<open>Writing one slot leaves the others alone.\<close>

lemma write_before: "j + n \<le> p \<Longrightarrow> p \<le> length xs \<Longrightarrow> take n (drop j (take p xs @ ys)) = take n (drop j xs)"
  by (simp add: drop_take)

lemma write_after:
  "p + length v \<le> j \<Longrightarrow> p + length v \<le> length xs \<Longrightarrow> drop j (take p xs @ v @ drop (p + length v) xs) = drop j xs"
  by simp

lemma slot_write:
  assumes "array_ok a" and "i < ar_max_entries a" and "j < ar_max_entries a" and "length v = unat (ar_value_size a)"
  shows "slot (a\<lparr>ar_value := take (unat i * unat (ar_elem_size a)) (ar_value a) @ v @
            drop (unat i * unat (ar_elem_size a) + length v) (ar_value a)\<rparr>) j = (if j = i then v else slot a j)"
proof -
  let ?e = "unat (ar_elem_size a)"
  have e: "length v \<le> ?e" using assms(1,4) by (simp add: array_ok_def)
  have i: "unat i * ?e + ?e \<le> length (ar_value a)" and j: "unat j * ?e + ?e \<le> length (ar_value a)"
    using array_slot assms(1-3) by auto
  have step: "unat x * ?e + ?e \<le> unat y * ?e" if "unat x < unat y" for x y :: u32
  proof -
    have "(unat x + 1) * ?e \<le> unat y * ?e" using that by (intro mult_le_mono1) simp
    then show ?thesis by simp
  qed
  consider "j = i" | "unat j < unat i" | "unat i < unat j" by (metis linorder_neqE_nat word_unat_eq_iff)
  then show ?thesis
  proof cases
    case 1
    then show ?thesis using i e assms(4) by (simp add: slot_def)
  next
    case 2
    have "unat j * ?e + unat (ar_value_size a) \<le> unat i * ?e" using step [OF 2] e assms(4) by simp
    then show ?thesis using i 2 write_before [of "unat j * ?e" _ "unat i * ?e" "ar_value a"] by (auto simp: slot_def)
  next
    case 3
    have "unat i * ?e + length v \<le> unat j * ?e" using step [OF 3] e by simp
    then show ?thesis using i e 3 write_after [of "unat i * ?e" v "unat j * ?e" "ar_value a"] by (auto simp: slot_def)
  qed
qed

lemma array_update_rep:
  assumes "array_rep a M" and "length k = 4" and "length v = unat (ar_value_size a)"
  shows "array_map_update_elem a k v flags = Err EINVAL \<or> array_map_update_elem a k v flags = Err E2BIG \<or>
    array_map_update_elem a k v flags = Err EEXIST \<or>
    (\<exists>buf. array_map_update_elem a k v flags = Ok (a\<lparr>ar_value := buf\<rparr>) \<and> array_rep (a\<lparr>ar_value := buf\<rparr>) (M(k \<mapsto> v)))"
proof (cases "flags > BPF_EXIST \<or> get_unaligned_cpu32 k \<ge> ar_max_entries a \<or> flags = BPF_NOEXIST")
  case True
  then show ?thesis using assms(2) by (auto simp: array_map_update_elem_def key_index_def)
next
  case False
  let ?i = "get_unaligned_cpu32 k" and ?e = "unat (ar_elem_size a)"
  let ?buf = "take (unat ?i * ?e) (ar_value a) @ v @ drop (unat ?i * ?e + length v) (ar_value a)"
  have ok: "array_ok a" and lt: "?i < ar_max_entries a" using assms(1) False by (auto simp: array_rep_def not_le)
  note s = array_slot [OF ok lt]
  have l: "unat ?i * ?e + length v \<le> length (ar_value a)" using s(2) assms(3) ok by (simp add: array_ok_def)
  have "array_map_update_elem a k v flags = Ok (a\<lparr>ar_value := ?buf\<rparr>)"
    using False assms(2,3) s(1) l by (simp add: array_map_update_elem_def key_index_def buf_read_def buf_write_def)
  moreover have ok': "array_ok (a\<lparr>ar_value := ?buf\<rparr>)" using ok l by (simp add: array_ok_def)
  have upd: "(if length k' = 4 \<and> get_unaligned_cpu32 k' < ar_max_entries a
      then Some (slot (a\<lparr>ar_value := ?buf\<rparr>) (get_unaligned_cpu32 k')) else None) = (M(k \<mapsto> v)) k'" for k'
  proof (cases "length k' = 4 \<and> get_unaligned_cpu32 k' < ar_max_entries a")
    case True
    have "k' = k \<longleftrightarrow> get_unaligned_cpu32 k' = ?i" using key_bytes [of k'] key_bytes [of k] True assms(2) by metis
    then show ?thesis using slot_write [OF ok lt _ assms(3)] True assms(1) by (auto simp: array_rep_def)
  next
    case False
    then show ?thesis using assms(1,2) lt by (auto simp: array_rep_def)
  qed
  have "array_rep (a\<lparr>ar_value := ?buf\<rparr>) (M(k \<mapsto> v))"
    unfolding array_rep_def using ok' by (intro conjI HOL.ext) (use upd in simp_all)
  ultimately show ?thesis by blast
qed

definition array_keys :: "bpf_array \<Rightarrow> u8 list list" where
  "array_keys a = map (\<lambda>i. le_bytes 4 (ucast (of_nat i :: u32))) [0 ..< unat (ar_max_entries a)]"

lemma array_next_key_rep:
  assumes "array_rep a M"
  shows "distinct (array_keys a)" and "set (array_keys a) = dom M"
    and "length k = 4 \<Longrightarrow> array_map_get_next_key a k = key_after (array_keys a) k"
proof -
  let ?n = "unat (ar_max_entries a)"
  have n: "?n \<noteq> 0" "?n < 2 ^ 32" using assms unsigned_less [of "ar_max_entries a"] by (auto simp: array_rep_def array_ok_def unat_eq_0)
  have idx: "unat (of_nat i :: u32) = i" if "i < ?n" for i
    using that n(2) by (simp add: unat_of_nat take_bit_nat_eq_self)
  have get: "get_unaligned_cpu32 (array_keys a ! i) = of_nat i" if "i < ?n" for i using that by (simp add: array_keys_def)
  have len: "length (array_keys a) = ?n" by (simp add: array_keys_def)
  show d: "distinct (array_keys a)"
    unfolding distinct_conv_nth len using get idx by metis
  have key: "array_keys a ! unat (get_unaligned_cpu32 k) = k"
    if "length k = 4" "get_unaligned_cpu32 k < ar_max_entries a" for k
    using that key_bytes [of k] by (simp add: array_keys_def word_less_nat_alt)
  show dom: "set (array_keys a) = dom M"
  proof (intro set_eqI iffI)
    fix k assume "k \<in> set (array_keys a)"
    then show "k \<in> dom M" using assms idx by (auto simp: array_keys_def array_rep_def word_less_nat_alt)
  next
    fix k assume "k \<in> dom M"
    then have "length k = 4" "get_unaligned_cpu32 k < ar_max_entries a" using assms by (auto simp: array_rep_def split: if_splits)
    then show "k \<in> set (array_keys a)" using key [of k] len by (metis nth_mem word_less_nat_alt)
  qed
  show "array_map_get_next_key a k = key_after (array_keys a) k" if k: "length k = 4"
  proof (cases "get_unaligned_cpu32 k < ar_max_entries a")
    case True
    let ?i = "get_unaligned_cpu32 k"
    have lt: "unat ?i < ?n" using True by (simp add: word_less_nat_alt)
    have nle: "\<not> ar_max_entries a \<le> ?i" using True by (simp add: not_le)
    have m: "k \<in> set (array_keys a)" using key [OF k True] len lt by (metis nth_mem)
    have e: "?i = ar_max_entries a - 1 \<longleftrightarrow> \<not> Suc (unat ?i) < ?n"
      
    proof -
      have "ar_max_entries a \<noteq> 0" using n(1) by auto
      then have "unat (ar_max_entries a - 1) = ?n - 1" by (rule unat_minus_one)
      then have "?i = ar_max_entries a - 1 \<longleftrightarrow> unat ?i = ?n - 1" by (metis word_unat_eq_iff)
      then show ?thesis using lt by linarith
    qed
    have s: "of_nat (Suc (unat ?i)) = ?i + 1" by simp
    have nx: "next_in (array_keys a) k = (if Suc (unat ?i) < ?n then Some (array_keys a ! Suc (unat ?i)) else None)"
      using next_in_nth [OF d, of "unat ?i"] len lt unfolding key [OF k True] by simp
    have at: "array_keys a ! Suc (unat ?i) = le_bytes 4 (ucast (?i + 1))" if "Suc (unat ?i) < ?n"
      using that s by (simp add: array_keys_def add.commute)
    show ?thesis
    proof (cases "Suc (unat ?i) < ?n")
      case T: True
      then show ?thesis using True k m e
        by (simp add: array_map_get_next_key_def key_index_def key_after_def nx at nle)
    next
      case False
      then show ?thesis using True k m e
        by (simp add: array_map_get_next_key_def key_index_def key_after_def nx nle)
    qed
  next
    case False
    then have "k \<notin> set (array_keys a)" using dom assms by (auto simp: array_rep_def dom_def)
    moreover have "array_keys a = le_bytes 4 (ucast (of_nat 0 :: u32)) # tl (array_keys a)"
      using n(1) by (simp add: array_keys_def upt_rec [of 0])
    ultimately show ?thesis using False k
      by (auto simp: array_map_get_next_key_def key_index_def key_after_def not_less split: list.splits)
  qed
qed

interpretation arr: bpf_map_ops array_rep "\<lambda>a. unat (ar_key_size a)" "\<lambda>a. unat (ar_value_size a)"
  "\<lambda>a k. Some (array_map_read a k)" "\<lambda>_ a k v flags. Some (settle a (array_map_update_elem a k v flags))"
  "\<lambda>a k. Some (array_map_delete_elem a k, a)" "\<lambda>a k. Some (array_map_get_next_key a k)"
proof
  have ks: "unat (ar_key_size a) = 4" if "array_rep a M" for a M using that by (simp add: array_rep_def array_ok_def)
  fix a M and k :: "u8 list" assume rep: "array_rep a M"
  show "\<exists>ks. distinct ks \<and> set ks = dom M \<and>
      (\<forall>k. length k = unat (ar_key_size a) \<longrightarrow> Some (array_map_get_next_key a k) = Some (key_after ks k))"
    using array_next_key_rep [OF rep] ks [OF rep] by (intro exI [of _ "array_keys a"]) simp
  assume k: "length k = unat (ar_key_size a)"
  show "Some (array_map_read a k) = Some (Ok (M k))" using array_read_rep [OF rep] k ks [OF rep] by simp
  show "\<exists>r m'. Some (array_map_delete_elem a k, a) = Some (r, m') \<and> unat (ar_key_size m') = unat (ar_key_size a) \<and>
      unat (ar_value_size m') = unat (ar_value_size a) \<and>
      (r = Ok () \<and> M k \<noteq> None \<and> array_rep m' (M(k := None)) \<or> (\<exists>e. r = Err e) \<and> array_rep m' M)"
    using rep by (simp add: array_map_delete_elem_def)
  fix v :: "u8 list" and flags and ok :: bool assume "length v = unat (ar_value_size a)"
  then show "\<exists>r m'. Some (settle a (array_map_update_elem a k v flags)) = Some (r, m') \<and>
      unat (ar_key_size m') = unat (ar_key_size a) \<and> unat (ar_value_size m') = unat (ar_value_size a) \<and>
      (r = Ok () \<and> array_rep m' (M(k \<mapsto> v)) \<or> (\<exists>e. r = Err e) \<and> array_rep m' M)"
    using array_update_rep [OF rep, of k v flags] rep k ks [OF rep] by auto
next
  fix a M k v assume "array_rep a M" "M k = Some v"
  then show "length k = unat (ar_key_size a) \<and> length v = unat (ar_value_size a)"
    using array_slot [of a "get_unaligned_cpu32 k"] by (auto simp: array_rep_def array_ok_def slot_def split: if_splits)
qed

section \<open>Properties\<close>

lemma array_map_alloc_zero:
  assumes "array_map_alloc ok1 ok2 attr = Ok a"
  shows "\<exists>n. ar_value a = replicate n 0"
  using assms by (auto simp: array_map_alloc_def Let_def split: if_splits)

text \<open>C31. A successfully created array map never computes an element address outside its buffer: for every index below
  \<open>max_entries\<close> the offset, computed in 32 bits, is the exact product, is aligned to 8 bytes and leaves room for a whole value; the
  pages charged to the user cover the allocation; and every element starts out as zeros.\<close>

theorem array_map_alloc_in_bounds:
  assumes "array_map_alloc ok1 ok2 attr = Ok a" and "length k = 4" and "get_unaligned_cpu32 k < ar_max_entries a"
  shows "\<exists>off. array_map_lookup_elem a k = Ok (Some off) \<and> off = unat (get_unaligned_cpu32 k) * unat (ar_elem_size a) \<and>
      8 dvd off \<and> off + unat (ar_value_size a) \<le> length (ar_value a) \<and>
      length (ar_value a) + 96 \<le> unat (ar_pages a) * 4096 \<and>
      array_map_read a k = Ok (Some (replicate (unat (ar_value_size a)) 0))"
proof -
  have ok: "array_ok a" using array_map_alloc_ok [OF assms(1)] .
  obtain n where n: "ar_value a = replicate n 0" using array_map_alloc_zero [OF assms(1)] by blast
  note s = array_slot [OF ok assms(3)]
  have off: "array_map_lookup_elem a k = Ok (Some (unat (get_unaligned_cpu32 k) * unat (ar_elem_size a)))"
    using assms(2,3) s(1) by (simp add: array_map_lookup_elem_def key_index_def not_le)
  have room: "unat (get_unaligned_cpu32 k) * unat (ar_elem_size a) + unat (ar_value_size a) \<le> length (ar_value a)"
    using s(2) ok unfolding array_ok_def by linarith
  have "array_map_read a k = Ok (Some (replicate (unat (ar_value_size a)) 0))"
    using off room n by (simp add: array_map_read_def buf_read_def)
  then show ?thesis using off room ok by (auto simp: array_ok_def)
qed

definition ex_array_attr :: bpf_attr where
  "ex_array_attr = \<lparr>at_key_size = 4, at_value_size = 5, at_max_entries = 3\<rparr>"

theorem array_map_alloc_in_bounds_witness:
  "\<exists>a. array_map_alloc True True ex_array_attr = Ok a \<and> array_map_lookup_elem a [2, 0, 0, 0] = Ok (Some 16)"
proof -
  have "is_ok (array_map_alloc True True ex_array_attr)" by code_simp
  then obtain a where a: "array_map_alloc True True ex_array_attr = Ok a" by (auto simp: is_ok_iff)
  have k: "get_unaligned_cpu32 [2, 0, 0, 0] = 2" by code_simp
  have "ar_max_entries a = 3 \<and> ar_elem_size a = 8"
    using a by (auto simp: array_map_alloc_def ex_array_attr_def round_up_def Let_def split: if_splits)
  then show ?thesis using array_map_alloc_in_bounds [OF a, of "[2, 0, 0, 0]"] a k by auto
qed

end
