(* ===== verification/Klist.thy ===== *)
theory Klist
  imports Kernel_Prelude
begin

text \<open>
  The intrusive lists of the kernel, \<^verbatim>\<open>include/linux/list.h\<close>, \<^verbatim>\<open>include/linux/rculist.h\<close> and the copy of
  \<^verbatim>\<open>list.h\<close> under \<^verbatim>\<open>src/src/list_example\<close>: circular doubly linked lists (\<open>struct list_head\<close>) and the
  hash bucket lists with a pointer back to the previous link (\<open>struct hlist_head\<close>,
  \<open>struct hlist_node\<close>). The heap gives the two link fields of every node; an operation is the sequence
  of its assignments. The locale \<open>intrusive_list\<close> is the contract both kinds fulfil: a list
  represents a sequence of nodes, insertion and deletion act on the sequence and leave every other
  list alone. A family of lists (the buckets of a hash table, the lists of a program) is handled once, in the locale.
\<close>

section \<open>The contract\<close>

text \<open>
  \<open>seq h b xs\<close>: the list with head \<open>b\<close> holds the nodes \<open>xs\<close> in this order; \<open>own b\<close> are the nodes the
  head itself occupies.
\<close>

locale intrusive_list =
  fixes seq :: "'h \<Rightarrow> 'b \<Rightarrow> 'n list \<Rightarrow> bool"
    and own :: "'b \<Rightarrow> 'n set"
    and add :: "'n \<Rightarrow> 'b \<Rightarrow> 'h \<Rightarrow> 'h"
    and del :: "'n \<Rightarrow> 'h \<Rightarrow> 'h result"
    and first :: "'h \<Rightarrow> 'b \<Rightarrow> 'n option"
    and succ :: "'h \<Rightarrow> 'b \<Rightarrow> 'n \<Rightarrow> 'n option"
  assumes seq_distinct: "seq h b xs \<Longrightarrow> distinct xs"
    and seq_unique: "seq h b xs \<Longrightarrow> seq h b ys \<Longrightarrow> xs = ys"
    and seq_first: "seq h b xs \<Longrightarrow> first h b = (case xs of [] \<Rightarrow> None | x # _ \<Rightarrow> Some x)"
    and seq_succ: "seq h b (xs @ n # ys) \<Longrightarrow> succ h b n = (case ys of [] \<Rightarrow> None | y # _ \<Rightarrow> Some y)"
    and seq_add: "seq h b xs \<Longrightarrow> n \<notin> set xs \<union> own b \<Longrightarrow> seq (add n b h) b (n # xs)"
    and seq_del: "seq h b (xs @ n # ys) \<Longrightarrow> \<exists>h'. del n h = Ok h' \<and> seq h' b (xs @ ys)"
    and add_frame: "seq h b xs \<Longrightarrow> seq h c ys \<Longrightarrow> b \<noteq> c \<Longrightarrow> n \<notin> set ys \<union> own c \<Longrightarrow>
      (set xs \<union> own b) \<inter> (set ys \<union> own c) = {} \<Longrightarrow> seq (add n b h) c ys"
    and del_frame: "seq h b xs \<Longrightarrow> seq h c ys \<Longrightarrow> b \<noteq> c \<Longrightarrow> n \<in> set xs \<Longrightarrow>
      (set xs \<union> own b) \<inter> (set ys \<union> own c) = {} \<Longrightarrow> del n h = Ok h' \<Longrightarrow> seq h' c ys"
begin

definition family :: "'b set \<Rightarrow> 'h \<Rightarrow> ('b \<Rightarrow> 'n list) \<Rightarrow> bool" where
  "family B h f \<longleftrightarrow> (\<forall>b \<in> B. seq h b (f b)) \<and>
     (\<forall>b \<in> B. \<forall>c \<in> B. b \<noteq> c \<longrightarrow> (set (f b) \<union> own b) \<inter> (set (f c) \<union> own c) = {})"

lemma family_seq: "family B h f \<Longrightarrow> b \<in> B \<Longrightarrow> seq h b (f b)"
  by (simp add: family_def)

lemma family_disjoint:
  "family B h f \<Longrightarrow> b \<in> B \<Longrightarrow> c \<in> B \<Longrightarrow> b \<noteq> c \<Longrightarrow> (set (f b) \<union> own b) \<inter> (set (f c) \<union> own c) = {}"
  by (simp add: family_def)

lemma family_node_unique: "family B h f \<Longrightarrow> b \<in> B \<Longrightarrow> c \<in> B \<Longrightarrow> n \<in> set (f b) \<Longrightarrow> n \<in> set (f c) \<Longrightarrow> b = c"
  unfolding family_def by blast

lemma family_add:
  assumes "family B h f" and "b \<in> B" and "\<And>c. c \<in> B \<Longrightarrow> n \<notin> set (f c) \<union> own c"
  shows "family B (add n b h) (f(b := n # f b))"
proof -
  have "seq (add n b h) c ((f(b := n # f b)) c)" if c: "c \<in> B" for c
  proof (cases "c = b")
    case True
    then show ?thesis using seq_add [OF family_seq [OF assms(1,2)] assms(3) [OF assms(2)]] by simp
  next
    case False
    then show ?thesis
      using add_frame [OF family_seq [OF assms(1,2)] family_seq [OF assms(1) c] _ assms(3) [OF c]]
        family_disjoint [OF assms(1,2) c] by simp
  qed
  moreover have "(set ((f(b := n # f b)) c) \<union> own c) \<inter> (set ((f(b := n # f b)) d) \<union> own d) = {}"
    if "c \<in> B" "d \<in> B" "c \<noteq> d" for c d
  proof -
    have "(set (f c) \<union> own c) \<inter> (set (f d) \<union> own d) = {}" using assms(1) that by (simp add: family_def)
    then show ?thesis using assms(3) [OF that(1)] assms(3) [OF that(2)] that(3) by auto
  qed
  ultimately show ?thesis by (simp add: family_def)
qed

lemma family_del:
  assumes "family B h f" and "b \<in> B" and "f b = xs @ n # ys"
  shows "\<exists>h'. del n h = Ok h' \<and> family B h' (f(b := xs @ ys))"
proof -
  obtain h' where h': "del n h = Ok h'" and s: "seq h' b (xs @ ys)"
    using seq_del family_seq [OF assms(1,2)] assms(3) by metis
  have "seq h' c ((f(b := xs @ ys)) c)" if c: "c \<in> B" for c
  proof (cases "c = b")
    case False
    moreover have "n \<in> set (f b)" using assms(3) by simp
    ultimately show ?thesis
      using del_frame [OF family_seq [OF assms(1,2)] family_seq [OF assms(1) c]] family_disjoint [OF assms(1,2) c] h'
      by simp
  qed (simp add: s)
  moreover have "(set ((f(b := xs @ ys)) c) \<union> own c) \<inter> (set ((f(b := xs @ ys)) d) \<union> own d) = {}"
    if "c \<in> B" "d \<in> B" "c \<noteq> d" for c d
    using family_disjoint [OF assms(1) that] assms(3) that(3) by auto
  ultimately show ?thesis using h' by (auto simp: family_def)
qed

end

section \<open>Circular doubly linked lists\<close>

record list_heap =
  lh_next :: "nat \<Rightarrow> nat"
  lh_prev :: "nat \<Rightarrow> nat"

abbreviation (input) LIST_POISON1 :: nat where "LIST_POISON1 \<equiv> 0x100"
abbreviation (input) LIST_POISON2 :: nat where "LIST_POISON2 \<equiv> 0x200"

definition set_next :: "nat \<Rightarrow> nat \<Rightarrow> list_heap \<Rightarrow> list_heap" where
  "set_next a v h = h\<lparr>lh_next := (lh_next h)(a := v)\<rparr>"

definition set_prev :: "nat \<Rightarrow> nat \<Rightarrow> list_heap \<Rightarrow> list_heap" where
  "set_prev a v h = h\<lparr>lh_prev := (lh_prev h)(a := v)\<rparr>"

definition INIT_LIST_HEAD :: "nat \<Rightarrow> list_heap \<Rightarrow> list_heap" where
  "INIT_LIST_HEAD list h = set_prev list list (set_next list list h)"

definition list_add_between :: "nat \<Rightarrow> nat \<Rightarrow> nat \<Rightarrow> list_heap \<Rightarrow> list_heap" where \<comment> \<open>\<open>__list_add\<close>\<close>
  "list_add_between new prev next h =
     set_next prev new (set_prev new prev (set_next new next (set_prev next new h)))"

definition list_add :: "nat \<Rightarrow> nat \<Rightarrow> list_heap \<Rightarrow> list_heap" where
  "list_add new head h = list_add_between new head (lh_next h head) h"

definition list_add_tail :: "nat \<Rightarrow> nat \<Rightarrow> list_heap \<Rightarrow> list_heap" where
  "list_add_tail new head h = list_add_between new (lh_prev h head) head h"

definition list_del_between :: "nat \<Rightarrow> nat \<Rightarrow> list_heap \<Rightarrow> list_heap" where \<comment> \<open>\<open>__list_del\<close>\<close>
  "list_del_between prev next h = set_next prev next (set_prev next prev h)"

definition list_del_entry :: "nat \<Rightarrow> list_heap \<Rightarrow> list_heap" where \<comment> \<open>\<open>__list_del_entry\<close>\<close>
  "list_del_entry entry h = list_del_between (lh_prev h entry) (lh_next h entry) h"

definition list_del :: "nat \<Rightarrow> list_heap \<Rightarrow> list_heap" where
  "list_del entry h =
     set_prev entry LIST_POISON2 (set_next entry LIST_POISON1 (list_del_between (lh_prev h entry) (lh_next h entry) h))"

definition list_replace :: "nat \<Rightarrow> nat \<Rightarrow> list_heap \<Rightarrow> list_heap" where
  "list_replace old new h =
     (let h = set_next new (lh_next h old) h;
          h = set_prev (lh_next h new) new h;
          h = set_prev new (lh_prev h old) h
      in set_next (lh_prev h new) new h)"

definition list_replace_init :: "nat \<Rightarrow> nat \<Rightarrow> list_heap \<Rightarrow> list_heap" where
  "list_replace_init old new h = INIT_LIST_HEAD old (list_replace old new h)"

definition list_del_init :: "nat \<Rightarrow> list_heap \<Rightarrow> list_heap" where
  "list_del_init entry h = INIT_LIST_HEAD entry (list_del_entry entry h)"

definition list_move :: "nat \<Rightarrow> nat \<Rightarrow> list_heap \<Rightarrow> list_heap" where
  "list_move list head h = list_add list head (list_del_entry list h)"

definition list_move_tail :: "nat \<Rightarrow> nat \<Rightarrow> list_heap \<Rightarrow> list_heap" where
  "list_move_tail list head h = list_add_tail list head (list_del_entry list h)"

definition list_is_last :: "list_heap \<Rightarrow> nat \<Rightarrow> nat \<Rightarrow> bool" where
  "list_is_last h list head \<longleftrightarrow> lh_next h list = head"

definition list_empty :: "list_heap \<Rightarrow> nat \<Rightarrow> bool" where
  "list_empty h head \<longleftrightarrow> lh_next h head = head"

definition list_empty_careful :: "list_heap \<Rightarrow> nat \<Rightarrow> bool" where
  "list_empty_careful h head \<longleftrightarrow> (let next = lh_next h head in next = head \<and> next = lh_prev h head)"

definition list_rotate_left :: "nat \<Rightarrow> list_heap \<Rightarrow> list_heap" where
  "list_rotate_left head h =
     (if \<not> list_empty h head then list_move_tail (lh_next h head) head h else h)"

definition list_is_singular :: "list_heap \<Rightarrow> nat \<Rightarrow> bool" where
  "list_is_singular h head \<longleftrightarrow> \<not> list_empty h head \<and> lh_next h head = lh_prev h head"

definition list_cut :: "nat \<Rightarrow> nat \<Rightarrow> nat \<Rightarrow> list_heap \<Rightarrow> list_heap" where \<comment> \<open>\<open>__list_cut_position\<close>\<close>
  "list_cut list head entry h =
     (let new_first = lh_next h entry;
          h = set_next list (lh_next h head) h;
          h = set_prev (lh_next h list) list h;
          h = set_prev list entry h;
          h = set_next entry list h;
          h = set_next head new_first h
      in set_prev new_first head h)"

definition list_cut_position :: "nat \<Rightarrow> nat \<Rightarrow> nat \<Rightarrow> list_heap \<Rightarrow> list_heap" where
  "list_cut_position list head entry h =
     (if list_empty h head then h
      else if list_is_singular h head \<and> lh_next h head \<noteq> entry \<and> head \<noteq> entry then h
      else if entry = head then INIT_LIST_HEAD list h
      else list_cut list head entry h)"

definition list_splice_between :: "nat \<Rightarrow> nat \<Rightarrow> nat \<Rightarrow> list_heap \<Rightarrow> list_heap" where \<comment> \<open>\<open>__list_splice\<close>\<close>
  "list_splice_between list prev next h =
     (let first = lh_next h list; last = lh_prev h list;
          h = set_prev first prev h;
          h = set_next prev first h;
          h = set_next last next h
      in set_prev next last h)"

definition list_splice :: "nat \<Rightarrow> nat \<Rightarrow> list_heap \<Rightarrow> list_heap" where
  "list_splice list head h = (if \<not> list_empty h list then list_splice_between list head (lh_next h head) h else h)"

definition list_splice_tail :: "nat \<Rightarrow> nat \<Rightarrow> list_heap \<Rightarrow> list_heap" where
  "list_splice_tail list head h = (if \<not> list_empty h list then list_splice_between list (lh_prev h head) head h else h)"

definition list_splice_init :: "nat \<Rightarrow> nat \<Rightarrow> list_heap \<Rightarrow> list_heap" where
  "list_splice_init list head h =
     (if \<not> list_empty h list then INIT_LIST_HEAD list (list_splice_between list head (lh_next h head) h) else h)"

definition list_splice_tail_init :: "nat \<Rightarrow> nat \<Rightarrow> list_heap \<Rightarrow> list_heap" where
  "list_splice_tail_init list head h =
     (if \<not> list_empty h list then INIT_LIST_HEAD list (list_splice_between list (lh_prev h head) head h) else h)"

definition list_first_entry_or_null :: "list_heap \<Rightarrow> nat \<Rightarrow> nat option" where
  "list_first_entry_or_null h head = (if \<not> list_empty h head then Some (lh_next h head) else None)"

text \<open>The step of \<open>list_for_each\<close>: the next node, or the end of the loop at the head.\<close>

definition list_for_each_next :: "list_heap \<Rightarrow> nat \<Rightarrow> nat \<Rightarrow> nat option" where
  "list_for_each_next h head pos = (let p = lh_next h pos in if p \<noteq> head then Some p else None)"

lemma link_sel [simp]:
  "lh_next (set_next a v h) = (lh_next h)(a := v)" "lh_prev (set_next a v h) = lh_prev h"
  "lh_prev (set_prev a v h) = (lh_prev h)(a := v)" "lh_next (set_prev a v h) = lh_next h"
  by (simp_all add: set_next_def set_prev_def)

subsection \<open>Segments\<close>

text \<open>\<open>lseg h a xs b\<close>: from \<open>a\<close> the links lead through \<open>xs\<close> to \<open>b\<close>, forwards and backwards.\<close>

fun lseg :: "list_heap \<Rightarrow> nat \<Rightarrow> nat list \<Rightarrow> nat \<Rightarrow> bool" where
  "lseg h a [] b \<longleftrightarrow> lh_next h a = b \<and> lh_prev h b = a"
| "lseg h a (x # xs) b \<longleftrightarrow> lh_next h a = x \<and> lh_prev h x = a \<and> lseg h x xs b"

definition clist :: "list_heap \<Rightarrow> nat \<Rightarrow> nat list \<Rightarrow> bool" where
  "clist h head xs \<longleftrightarrow> distinct (head # xs) \<and> lseg h head xs head"

lemma lseg_append [simp]: "lseg h a (xs @ y # ys) b \<longleftrightarrow> lseg h a xs y \<and> lseg h y ys b"
  by (induction xs arbitrary: a) auto

lemma lseg_next_upd [simp]: "c \<notin> insert a (set xs) \<Longrightarrow> lseg (set_next c v h) a xs b \<longleftrightarrow> lseg h a xs b"
  by (induction xs arbitrary: a) auto

lemma lseg_prev_upd [simp]: "c \<notin> insert b (set xs) \<Longrightarrow> lseg (set_prev c v h) a xs b \<longleftrightarrow> lseg h a xs b"
  by (induction xs arbitrary: a) auto

lemma lseg_first: "lseg h a xs b \<Longrightarrow> lh_next h a = (case xs of [] \<Rightarrow> b | x # _ \<Rightarrow> x)"
  by (cases xs) auto

lemma lseg_last: "lseg h a xs b \<Longrightarrow> lh_prev h b = (if xs = [] then a else last xs)"
  by (induction xs arbitrary: a) auto

lemma lseg_unique: "lseg h a xs b \<Longrightarrow> lseg h a ys b \<Longrightarrow> b \<notin> set xs \<Longrightarrow> b \<notin> set ys \<Longrightarrow> xs = ys"
proof (induction xs arbitrary: a ys)
  case Nil
  then show ?case by (cases ys) auto
next
  case (Cons x xs)
  then show ?case by (cases ys) auto
qed

text \<open>A segment only depends on the links it goes through.\<close>

lemma lseg_cong:
  assumes "\<And>x. x \<in> insert a (set xs) \<Longrightarrow> lh_next g x = lh_next h x"
    and "\<And>x. x \<in> insert b (set xs) \<Longrightarrow> lh_prev g x = lh_prev h x"
  shows "lseg g a xs b \<longleftrightarrow> lseg h a xs b"
  using assms by (induction xs arbitrary: a) auto

lemma lseg_links:
  "lseg h a xs b \<Longrightarrow> x \<in> insert a (set xs) \<Longrightarrow> lh_next h x \<in> insert b (set xs)"
  "lseg h a xs b \<Longrightarrow> x \<in> insert b (set xs) \<Longrightarrow> lh_prev h x \<in> insert a (set xs)"
  by (induction xs arbitrary: a) auto

text \<open>Ending a segment elsewhere, or starting it elsewhere.\<close>

lemma lseg_snoc: "lseg h a (xs @ [y]) b \<longleftrightarrow> lseg h a xs y \<and> lh_next h y = b \<and> lh_prev h b = y"
  by simp

subsection \<open>The operations on represented sequences\<close>

lemma clist_empty_iff: "clist h a xs \<Longrightarrow> list_empty h a \<longleftrightarrow> xs = []"
  by (cases xs) (auto simp: clist_def list_empty_def)

lemma clist_init: "clist (INIT_LIST_HEAD a h) a []"
  by (simp add: clist_def INIT_LIST_HEAD_def)

lemma clist_add: "clist h a xs \<Longrightarrow> n \<notin> set xs \<union> {a} \<Longrightarrow> clist (list_add n a h) a (n # xs)"
  by (cases xs) (auto simp: clist_def list_add_def list_add_between_def)

lemma clist_add_tail: "clist h a xs \<Longrightarrow> n \<notin> set xs \<union> {a} \<Longrightarrow> clist (list_add_tail n a h) a (xs @ [n])"
  by (cases xs rule: rev_cases) (auto simp: clist_def list_add_tail_def list_add_between_def)

lemma clist_del_entry: "clist h a (xs @ n # ys) \<Longrightarrow> clist (list_del_entry n h) a (xs @ ys)"
  by (cases xs rule: rev_cases; cases ys) (auto simp: clist_def list_del_entry_def list_del_between_def)

lemma clist_del: "clist h a (xs @ n # ys) \<Longrightarrow> clist (list_del n h) a (xs @ ys)"
  by (cases xs rule: rev_cases; cases ys) (auto simp: clist_def list_del_def list_del_between_def)

lemma clist_replace:
  "clist h a (xs @ m # ys) \<Longrightarrow> n \<notin> set (xs @ m # ys) \<union> {a} \<Longrightarrow> clist (list_replace m n h) a (xs @ n # ys)"
  by (cases xs rule: rev_cases; cases ys) (auto simp: clist_def list_replace_def Let_def)

lemma clist_cut:
  assumes "clist h a (xs @ e # ys)" and "l \<notin> set (xs @ e # ys) \<union> {a}"
  shows "clist (list_cut_position l a e h) l (xs @ [e])" and "clist (list_cut_position l a e h) a ys"
proof -
  have "\<not> list_empty h a" using clist_empty_iff [OF assms(1)] by simp
  moreover have "e \<noteq> a" using assms(1) by (auto simp: clist_def)
  moreover have "lh_next h a = e" if "list_is_singular h a"
    using that assms(1) by (cases xs; cases ys rule: rev_cases) (auto simp: clist_def list_is_singular_def)
  ultimately have cut: "list_cut_position l a e h = list_cut l a e h" by (auto simp: list_cut_position_def)
  show "clist (list_cut_position l a e h) l (xs @ [e])" unfolding cut
    using assms by (cases xs; cases ys) (auto simp: clist_def list_cut_def Let_def)
  show "clist (list_cut_position l a e h) a ys" unfolding cut
    using assms by (cases xs; cases ys) (auto simp: clist_def list_cut_def Let_def)
qed

text \<open>The links of a spliced list, by the shape of the two sequences.\<close>

lemma list_ends:
  obtains "xs = []" | x where "xs = [x]" | x zs z where "xs = x # zs @ [z]"
  by (metis append_Nil neq_Nil_conv rev_exhaust append_Cons)

lemma clist_splice:
  assumes "clist h l xs" and "clist h a ys" and "({l} \<union> set xs) \<inter> ({a} \<union> set ys) = {}"
  shows "clist (list_splice l a h) a (xs @ ys)"
  using assms
  by (cases xs rule: list_ends; cases ys)
    (auto simp: clist_def list_splice_def list_splice_between_def list_empty_def Let_def)

lemma clist_splice_tail:
  assumes "clist h l xs" and "clist h a ys" and "({l} \<union> set xs) \<inter> ({a} \<union> set ys) = {}"
  shows "clist (list_splice_tail l a h) a (ys @ xs)"
  using assms
  by (cases xs rule: list_ends; cases ys rule: rev_cases)
    (auto simp: clist_def list_splice_tail_def list_splice_between_def list_empty_def Let_def)

text \<open>Frames: an operation on one list leaves a disjoint list alone.\<close>

lemma clist_next_frame [simp]: "c \<notin> insert a (set xs) \<Longrightarrow> clist (set_next c v h) a xs \<longleftrightarrow> clist h a xs"
  by (simp add: clist_def)

lemma clist_prev_frame [simp]: "c \<notin> insert a (set xs) \<Longrightarrow> clist (set_prev c v h) a xs \<longleftrightarrow> clist h a xs"
  by (simp add: clist_def)

lemma clist_links:
  assumes "clist h a xs" and "x \<in> insert a (set xs)"
  shows "lh_next h x \<in> insert a (set xs)" and "lh_prev h x \<in> insert a (set xs)"
  using assms lseg_links [of h a xs a x] unfolding clist_def by blast+

lemma clist_add_frame:
  assumes "clist h a xs" and "clist h b ys" and "n \<notin> insert b (set ys)" and "insert a (set xs) \<inter> insert b (set ys) = {}"
  shows "clist (list_add n a h) b ys"
proof -
  have "lh_next h a \<in> insert a (set xs)" using clist_links [OF assms(1)] by blast
  then have "lh_next h a \<notin> insert b (set ys)" "a \<notin> insert b (set ys)" using assms(4) by blast+
  then show ?thesis using assms(2,3) by (simp add: list_add_def list_add_between_def)
qed

lemma clist_del_entry_frame:
  assumes "clist h a xs" and "clist h b ys" and "n \<in> set xs" and "insert a (set xs) \<inter> insert b (set ys) = {}"
  shows "clist (list_del_entry n h) b ys"
proof -
  have "lh_next h n \<in> insert a (set xs)" "lh_prev h n \<in> insert a (set xs)" using clist_links [OF assms(1)] assms(3) by blast+
  then have "lh_next h n \<notin> insert b (set ys)" "lh_prev h n \<notin> insert b (set ys)" using assms(4) by blast+
  then show ?thesis using assms(2) by (simp add: list_del_entry_def list_del_between_def)
qed

lemma list_del_alt: "list_del n h = set_prev n LIST_POISON2 (set_next n LIST_POISON1 (list_del_entry n h))"
  by (simp add: list_del_def list_del_entry_def)

lemma clist_unique: "clist h a xs \<Longrightarrow> clist h a ys \<Longrightarrow> xs = ys"
  by (auto simp: clist_def intro: lseg_unique)

interpretation dl: intrusive_list clist "\<lambda>a. {a}" list_add "\<lambda>n h. Ok (list_del n h)" list_first_entry_or_null list_for_each_next
proof
  show "distinct xs" if "clist h a xs" for h a xs using that by (simp add: clist_def)
  show "xs = ys" if "clist h a xs" "clist h a ys" for h a xs ys using that by (rule clist_unique)
  show "list_first_entry_or_null h a = (case xs of [] \<Rightarrow> None | x # _ \<Rightarrow> Some x)" if "clist h a xs" for h a xs
    using that by (cases xs) (auto simp: clist_def list_first_entry_or_null_def list_empty_def)
  show "list_for_each_next h a n = (case ys of [] \<Rightarrow> None | y # _ \<Rightarrow> Some y)" if "clist h a (xs @ n # ys)" for h a xs n ys
    using that by (cases ys) (auto simp: clist_def list_for_each_next_def)
  show "clist h' b ys"
    if "clist h a xs" "clist h b ys" "n \<in> set xs" "(set xs \<union> {a}) \<inter> (set ys \<union> {b}) = {}" "Ok (list_del n h) = Ok h'"
    for h a xs b ys n h'
  proof -
    have "insert a (set xs) \<inter> insert b (set ys) = {}" using that(4) by auto
    moreover have "n \<notin> insert b (set ys)" using that(3,4) by auto
    ultimately show ?thesis using clist_del_entry_frame [OF that(1-3)] that(5) by (auto simp: list_del_alt)
  qed
qed (auto intro: clist_add clist_del clist_add_frame)

lemma clist_move:
  assumes "clist h a (xs @ n # ys)" and "clist h b zs" and "({a, n} \<union> set (xs @ ys)) \<inter> ({b} \<union> set zs) = {}"
  shows "clist (list_move n b h) b (n # zs)" and "clist (list_move n b h) a (xs @ ys)"
proof -
  let ?h = "list_del_entry n h"
  have a: "clist ?h a (xs @ ys)" using clist_del_entry [OF assms(1)] .
  have b: "clist ?h b zs" using clist_del_entry_frame [OF assms(1,2)] assms(3) by auto
  have n: "n \<notin> set zs \<union> {b}" "n \<notin> insert a (set (xs @ ys))" using assms(1,3) by (auto simp: clist_def)
  show "clist (list_move n b h) b (n # zs)" using clist_add [OF b n(1)] by (simp add: list_move_def)
  show "clist (list_move n b h) a (xs @ ys)"
    using clist_add_frame [OF b a n(2)] assms(3) by (auto simp: list_move_def)
qed

lemma clist_rotate_left:
  assumes "clist h a xs"
  shows "clist (list_rotate_left a h) a (rotate1 xs)"
proof (cases xs)
  case Nil
  then show ?thesis using assms clist_empty_iff by (simp add: list_rotate_left_def)
next
  case (Cons x ys)
  have "clist (list_del_entry x h) a ys" using clist_del_entry [of h a "[]" x ys] assms Cons by simp
  then have "clist (list_move_tail x a h) a (ys @ [x])"
    using clist_add_tail assms Cons by (auto simp: list_move_tail_def clist_def)
  then show ?thesis using Cons clist_empty_iff [OF assms] lseg_first assms
    by (auto simp: list_rotate_left_def clist_def)
qed

section \<open>Hash bucket lists\<close>

text \<open>
  A node points to the next node and to the link that points to it: the \<open>first\<close> field of a head or
  the \<open>next\<close> field of a node. \<open>PNull\<close> and \<open>PPoison\<close> are the values of \<open>pprev\<close> that are no link.
\<close>

datatype hlink = First nat | Next nat

datatype pprev = PNull | PPoison | Link hlink

record hlist_heap =
  hh_first :: "nat \<Rightarrow> nat option"
  hh_next :: "nat \<Rightarrow> nat option"
  hh_pprev :: "nat \<Rightarrow> pprev"

fun get_link :: "hlist_heap \<Rightarrow> hlink \<Rightarrow> nat option" where
  "get_link h (First b) = hh_first h b"
| "get_link h (Next n) = hh_next h n"

fun set_link :: "hlink \<Rightarrow> nat option \<Rightarrow> hlist_heap \<Rightarrow> hlist_heap" where
  "set_link (First b) v h = h\<lparr>hh_first := (hh_first h)(b := v)\<rparr>"
| "set_link (Next n) v h = h\<lparr>hh_next := (hh_next h)(n := v)\<rparr>"

definition set_pprev :: "nat \<Rightarrow> pprev \<Rightarrow> hlist_heap \<Rightarrow> hlist_heap" where
  "set_pprev n p h = h\<lparr>hh_pprev := (hh_pprev h)(n := p)\<rparr>"

definition set_pprev_opt :: "nat option \<Rightarrow> pprev \<Rightarrow> hlist_heap \<Rightarrow> hlist_heap" where \<comment> \<open>\<open>if (n) n->pprev = p\<close>\<close>
  "set_pprev_opt n p h = (case n of None \<Rightarrow> h | Some m \<Rightarrow> set_pprev m p h)"

definition INIT_HLIST_HEAD :: "nat \<Rightarrow> hlist_heap \<Rightarrow> hlist_heap" where
  "INIT_HLIST_HEAD b h = set_link (First b) None h"

definition INIT_HLIST_NODE :: "nat \<Rightarrow> hlist_heap \<Rightarrow> hlist_heap" where
  "INIT_HLIST_NODE n h = set_pprev n PNull (set_link (Next n) None h)"

definition hlist_unhashed :: "hlist_heap \<Rightarrow> nat \<Rightarrow> bool" where
  "hlist_unhashed h n \<longleftrightarrow> hh_pprev h n = PNull"

definition hlist_empty :: "hlist_heap \<Rightarrow> nat \<Rightarrow> bool" where
  "hlist_empty h b \<longleftrightarrow> hh_first h b = None"

text \<open>A write through a \<open>pprev\<close> that is no link is a write to an unmapped address.\<close>

definition hlist_unlink :: "nat \<Rightarrow> hlist_heap \<Rightarrow> hlist_heap result" where \<comment> \<open>\<open>__hlist_del\<close>\<close>
  "hlist_unlink n h =
     (case hh_pprev h n of
        Link l \<Rightarrow> Ok (set_pprev_opt (hh_next h n) (Link l) (set_link l (hh_next h n) h))
      | _ \<Rightarrow> Undef BadMem)"

definition hlist_del_rcu :: "nat \<Rightarrow> hlist_heap \<Rightarrow> hlist_heap result" where
  "hlist_del_rcu n h = rbind (hlist_unlink n h) (\<lambda>h. Ok (set_pprev n PPoison h))"

definition hlist_del_init :: "nat \<Rightarrow> hlist_heap \<Rightarrow> hlist_heap result" where
  "hlist_del_init n h =
     (if \<not> hlist_unhashed h n then rbind (hlist_unlink n h) (\<lambda>h. Ok (INIT_HLIST_NODE n h)) else Ok h)"

definition hlist_add_head :: "nat \<Rightarrow> nat \<Rightarrow> hlist_heap \<Rightarrow> hlist_heap" where
  "hlist_add_head n b h =
     (let first = hh_first h b;
          h = set_link (Next n) first h;
          h = set_pprev_opt first (Link (Next n)) h;
          h = set_link (First b) (Some n) h
      in set_pprev n (Link (First b)) h)"

definition hlist_add_head_rcu :: "nat \<Rightarrow> nat \<Rightarrow> hlist_heap \<Rightarrow> hlist_heap" where
  "hlist_add_head_rcu n b h =
     (let first = hh_first h b;
          h = set_link (Next n) first h;
          h = set_pprev n (Link (First b)) h;
          h = set_link (First b) (Some n) h
      in set_pprev_opt first (Link (Next n)) h)"

definition hlist_add_before :: "nat \<Rightarrow> nat \<Rightarrow> hlist_heap \<Rightarrow> hlist_heap result" where
  "hlist_add_before n nxt h =
     (let h = set_pprev n (hh_pprev h nxt) h;
          h = set_link (Next n) (Some nxt) h;
          h = set_pprev nxt (Link (Next n)) h
      in case hh_pprev h n of Link l \<Rightarrow> Ok (set_link l (Some n) h) | _ \<Rightarrow> Undef BadMem)"

definition hlist_add_behind :: "nat \<Rightarrow> nat \<Rightarrow> hlist_heap \<Rightarrow> hlist_heap" where
  "hlist_add_behind n prev h =
     (let h = set_link (Next n) (hh_next h prev) h;
          h = set_link (Next prev) (Some n) h;
          h = set_pprev n (Link (Next prev)) h
      in set_pprev_opt (hh_next h n) (Link (Next n)) h)"

definition hlist_move_list :: "nat \<Rightarrow> nat \<Rightarrow> hlist_heap \<Rightarrow> hlist_heap" where
  "hlist_move_list old new h =
     (let h = set_link (First new) (hh_first h old) h;
          h = set_pprev_opt (hh_first h new) (Link (First new)) h
      in set_link (First old) None h)"

subsection \<open>Segments\<close>

fun hseg :: "hlist_heap \<Rightarrow> hlink \<Rightarrow> nat list \<Rightarrow> bool" where
  "hseg h l [] \<longleftrightarrow> get_link h l = None"
| "hseg h l (x # xs) \<longleftrightarrow> get_link h l = Some x \<and> hh_pprev h x = Link l \<and> hseg h (Next x) xs"

definition hlist :: "hlist_heap \<Rightarrow> nat \<Rightarrow> nat list \<Rightarrow> bool" where
  "hlist h b xs \<longleftrightarrow> hseg h (First b) xs"

lemma hlink_sel [simp]:
  "get_link (set_link l v h) m = (if m = l then v else get_link h m)"
  "get_link (set_pprev n p h) m = get_link h m"
  "get_link (set_pprev_opt k p h) m = get_link h m"
  "hh_pprev (set_link l v h) = hh_pprev h"
  "hh_pprev (set_pprev n p h) = (hh_pprev h)(n := p)"
  "hh_pprev (set_pprev_opt (Some n) p h) = (hh_pprev h)(n := p)"
  "hh_pprev (set_pprev_opt None p h) = hh_pprev h"
  by (cases l; cases m; cases k; auto simp: set_pprev_def set_pprev_opt_def)+

text \<open>The fields are reasoned about as links.\<close>

declare get_link.simps [simp del] set_link.simps [simp del]

lemmas get_link_fold [simp] = get_link.simps [symmetric]

lemma link_image [simp]: "First b \<notin> Next ` S" "Next n \<in> Next ` S \<longleftrightarrow> n \<in> S"
  by auto

text \<open>The part \<open>xs\<close> of a list from link \<open>l\<close>, and the link after it.\<close>

fun hpath :: "hlist_heap \<Rightarrow> hlink \<Rightarrow> nat list \<Rightarrow> bool" where
  "hpath h l [] \<longleftrightarrow> True"
| "hpath h l (x # xs) \<longleftrightarrow> get_link h l = Some x \<and> hh_pprev h x = Link l \<and> hpath h (Next x) xs"

fun hend :: "hlink \<Rightarrow> nat list \<Rightarrow> hlink" where
  "hend l [] = l"
| "hend l (x # xs) = hend (Next x) xs"

lemma hseg_append [simp]: "hseg h l (xs @ ys) \<longleftrightarrow> hpath h l xs \<and> hseg h (hend l xs) ys"
  by (induction xs arbitrary: l) auto

lemma hseg_path: "hseg h l xs \<longleftrightarrow> hpath h l xs \<and> get_link h (hend l xs) = None"
  by (induction xs arbitrary: l) auto

lemma hpath_append [simp]: "hpath h l (xs @ ys) \<longleftrightarrow> hpath h l xs \<and> hpath h (hend l xs) ys"
  by (induction xs arbitrary: l) auto

lemma hend_snoc [simp]: "hend l (xs @ [x]) = Next x"
  by (induction xs arbitrary: l) auto

lemma hpath_link_upd [simp]: "m \<notin> insert l (Next ` set xs) \<Longrightarrow> hpath (set_link m v h) l xs \<longleftrightarrow> hpath h l xs"
  by (induction xs arbitrary: l) auto

lemma hseg_link_upd [simp]: "m \<notin> insert l (Next ` set xs) \<Longrightarrow> hseg (set_link m v h) l xs \<longleftrightarrow> hseg h l xs"
  by (induction xs arbitrary: l) auto

lemma hpath_pprev_upd [simp]: "n \<notin> set xs \<Longrightarrow> hpath (set_pprev n p h) l xs \<longleftrightarrow> hpath h l xs"
  by (induction xs arbitrary: l) auto

lemma hseg_pprev_upd [simp]: "n \<notin> set xs \<Longrightarrow> hseg (set_pprev n p h) l xs \<longleftrightarrow> hseg h l xs"
  by (induction xs arbitrary: l) auto

lemma set_pprev_opt_simps [simp]: "set_pprev_opt None p h = h" "set_pprev_opt (Some n) p h = set_pprev n p h"
  by (simp_all add: set_pprev_opt_def)

lemma hseg_unique: "hseg h l xs \<Longrightarrow> hseg h l ys \<Longrightarrow> xs = ys"
proof (induction xs arbitrary: l ys)
  case Nil
  then show ?case by (cases ys) auto
next
  case (Cons x xs)
  then show ?case by (cases ys) auto
qed

lemma hseg_distinct: "hseg h l xs \<Longrightarrow> distinct xs"
proof (induction xs arbitrary: l)
  case (Cons x xs)
  have "x \<notin> set xs"
  proof
    assume "x \<in> set xs"
    then obtain us vs where xs: "xs = us @ x # vs" by (meson split_list)
    then have "hseg h (Next x) vs" and "hseg h (Next x) (us @ x # vs)" using Cons.prems by auto
    then show False using hseg_unique [of h "Next x" vs "us @ x # vs"] by simp
  qed
  then show ?case using Cons.IH [of "Next x"] Cons.prems by simp
qed simp

lemma hend_mem: "hend l xs \<in> insert l (Next ` set xs)"
  by (induction xs arbitrary: l) auto

lemma hseg_head_next: "hseg h l xs \<Longrightarrow> get_link h l = (case xs of [] \<Rightarrow> None | x # _ \<Rightarrow> Some x)"
  by (cases xs) auto

lemma hlist_add_head_rcu_correct:
  assumes "hlist h b xs" and "n \<notin> set xs"
  shows "hlist (hlist_add_head_rcu n b h) b (n # xs)"
  using assms hseg_distinct [of h "First b" xs]
  by (cases xs) (auto simp: hlist_def hlist_add_head_rcu_def Let_def)

lemma hlist_unlink_correct:
  assumes "hlist h b (xs @ n # ys)"
  shows "\<exists>h'. hlist_unlink n h = Ok h' \<and> hlist h' b (xs @ ys)"
proof -
  let ?m = "hend (First b) xs"
  have d: "distinct (xs @ n # ys)" using hseg_distinct assms unfolding hlist_def by blast
  have p: "hpath h (First b) xs" "get_link h ?m = Some n" "hh_pprev h n = Link ?m" "hseg h (Next n) ys"
    using assms by (auto simp: hlist_def)
  have nn: "hh_next h n = (case ys of [] \<Rightarrow> None | y # _ \<Rightarrow> Some y)" using hseg_head_next [OF p(4)] by simp
  have path: "hpath (set_link ?m v h) (First b) xs" for v
  proof (cases xs rule: rev_cases)
    case (snoc zs z)
    then show ?thesis using p(1) d hend_mem [of "First b" zs] by auto
  qed simp
  have "?m \<noteq> Next n" "?m \<notin> Next ` set ys" using hend_mem [of "First b" xs] d by auto
  then have "hlist (set_pprev_opt (hh_next h n) (Link ?m) (set_link ?m (hh_next h n) h)) b (xs @ ys)"
    using path p(4) nn d hseg_path [of _ _ xs] by (cases ys) (auto simp: hlist_def)
  then show ?thesis using p(3) by (simp add: hlist_unlink_def)
qed

lemma hlist_del_rcu_correct:
  assumes "hlist h b (xs @ n # ys)"
  shows "\<exists>h'. hlist_del_rcu n h = Ok h' \<and> hlist h' b (xs @ ys)"
proof -
  obtain h' where "hlist_unlink n h = Ok h'" and "hlist h' b (xs @ ys)" using hlist_unlink_correct [OF assms] by blast
  moreover have "n \<notin> set (xs @ ys)" using assms hseg_distinct [of h "First b" "xs @ n # ys"] by (simp add: hlist_def)
  ultimately show ?thesis by (auto simp: hlist_del_rcu_def hlist_def)
qed

text \<open>Every link and node an operation on one list writes belongs to that list.\<close>

lemma hseg_links: "hseg h l xs \<Longrightarrow> x \<in> set xs \<Longrightarrow> \<exists>m. hh_pprev h x = Link m \<and> m \<in> insert l (Next ` set xs)"
  by (induction xs arbitrary: l) auto

lemma hseg_next: "hseg h l xs \<Longrightarrow> x \<in> set xs \<Longrightarrow> get_link h (Next x) = Some y \<Longrightarrow> y \<in> set xs"
proof (induction xs arbitrary: l)
  case (Cons a xs)
  then show ?case using hseg_head_next [of h "Next a" xs] by (cases xs) auto
qed simp

lemma hlist_add_head_rcu_frame:
  assumes "hlist h b xs" and "hlist h c ys" and "b \<noteq> c" and "n \<notin> set ys" and "set xs \<inter> set ys = {}"
  shows "hlist (hlist_add_head_rcu n b h) c ys"
  using assms by (cases xs) (auto simp: hlist_def hlist_add_head_rcu_def Let_def)

lemma hlist_del_rcu_frame:
  assumes "hlist h b xs" and "hlist h c ys" and "b \<noteq> c" and "n \<in> set xs" and "set xs \<inter> set ys = {}"
    and "hlist_del_rcu n h = Ok h'"
  shows "hlist h' c ys"
proof -
  obtain m where m: "hh_pprev h n = Link m" "m \<in> insert (First b) (Next ` set xs)"
    using hseg_links assms(1,4) unfolding hlist_def by blast
  then have "m \<notin> insert (First c) (Next ` set ys)" using assms(3,5) by auto
  moreover have "y \<notin> set ys" if "get_link h (Next n) = Some y" for y
    using hseg_next [of h "First b" xs n y] that assms(1,4,5) by (auto simp: hlist_def)
  moreover have "n \<notin> set ys" using assms(4,5) by blast
  ultimately show ?thesis using assms(2,6) m(1)
    by (cases "get_link h (Next n)") (auto simp: hlist_def hlist_del_rcu_def hlist_unlink_def)
qed

interpretation hl: intrusive_list hlist "\<lambda>_. {}" hlist_add_head_rcu hlist_del_rcu hh_first "\<lambda>h _. hh_next h"
proof
  show "hh_first h b = (case xs of [] \<Rightarrow> None | x # _ \<Rightarrow> Some x)" if "hlist h b xs" for h b xs
    using hseg_head_next that by (auto simp: hlist_def)
  show "hh_next h n = (case ys of [] \<Rightarrow> None | y # _ \<Rightarrow> Some y)" if "hlist h b (xs @ n # ys)" for h b xs n ys
    using hseg_head_next [of h "Next n" ys] that by (auto simp: hlist_def)
  show "xs = ys" if "hlist h b xs" "hlist h b ys" for h b xs ys using that hseg_unique by (auto simp: hlist_def)
  show "distinct xs" if "hlist h b xs" for h b xs using that hseg_distinct by (auto simp: hlist_def)
  show "\<exists>h'. hlist_del_rcu n h = Ok h' \<and> hlist h' b (xs @ ys)" if "hlist h b (xs @ n # ys)" for h b xs n ys
    using hlist_del_rcu_correct [OF that] .
qed (auto intro: hlist_add_head_rcu_correct hlist_add_head_rcu_frame hlist_del_rcu_frame)

subsection \<open>The other insertions\<close>

lemma hpath_hend_upd [simp]:
  assumes "distinct xs" and "l \<notin> Next ` set xs"
  shows "hpath (set_link (hend l xs) v h) l xs \<longleftrightarrow> hpath h l xs"
proof (cases xs rule: rev_cases)
  case (snoc zs z)
  then show ?thesis using assms hend_mem [of l zs] by auto
qed simp

lemma hlist_add_head_correct:
  assumes "hlist h b xs" and "n \<notin> set xs"
  shows "hlist (hlist_add_head n b h) b (n # xs)"
  using assms hseg_distinct [of h "First b" xs]
  by (cases xs) (auto simp: hlist_def hlist_add_head_def Let_def)

lemma hlist_add_before_correct:
  assumes "hlist h b (xs @ m # ys)" and "n \<notin> set (xs @ m # ys)"
  shows "\<exists>h'. hlist_add_before n m h = Ok h' \<and> hlist h' b (xs @ n # m # ys)"
proof -
  have d: "distinct (xs @ m # ys)" using assms(1) hseg_distinct unfolding hlist_def by blast
  then have "hend (First b) xs \<noteq> Next m" "hend (First b) xs \<notin> Next ` set ys" using hend_mem [of "First b" xs] by auto
  then show ?thesis using assms d hend_mem [of "First b" xs]
    by (auto simp: hlist_def hlist_add_before_def Let_def)
qed

lemma hlist_add_behind_correct:
  assumes "hlist h b (xs @ m # ys)" and "n \<notin> set (xs @ m # ys)"
  shows "hlist (hlist_add_behind n m h) b (xs @ m # n # ys)"
proof -
  have "distinct (xs @ m # ys)" using assms(1) hseg_distinct unfolding hlist_def by blast
  then show ?thesis using assms hend_mem [of "First b" xs]
    by (cases ys) (auto simp: hlist_def hlist_add_behind_def Let_def)
qed

lemma hlist_move_list_correct:
  assumes "hlist h b xs" and "b \<noteq> c"
  shows "hlist (hlist_move_list b c h) c xs" and "hlist (hlist_move_list b c h) b []"
  using assms hseg_distinct [of h "First b" xs]
  by (cases xs; auto simp: hlist_def hlist_move_list_def Let_def)+

section \<open>Properties\<close>

lemma clist_operations:
  assumes "clist h head (xs @ m # ys)" and "new \<notin> insert head (set (xs @ m # ys))"
  shows "clist (list_add new head h) head (new # xs @ m # ys)"
    and "clist (list_add_tail new head h) head (xs @ m # ys @ [new])"
    and "clist (list_del m h) head (xs @ ys)"
    and "clist (list_replace m new h) head (xs @ new # ys)"
    and "clist (list_rotate_left head h) head (rotate1 (xs @ m # ys))"
    and "list_is_singular h head \<longleftrightarrow> xs @ ys = []" and "\<not> list_empty h head"
    and "list_empty (list_del m h) head \<longleftrightarrow> xs @ ys = []"
proof -
  have "new \<notin> set (xs @ m # ys) \<union> {head}" using assms(2) by auto
  then show "clist (list_add new head h) head (new # xs @ m # ys)" "clist (list_add_tail new head h) head (xs @ m # ys @ [new])"
    "clist (list_replace m new h) head (xs @ new # ys)"
    using clist_add [OF assms(1)] clist_add_tail [OF assms(1)] clist_replace [OF assms(1)] by auto
  show "clist (list_del m h) head (xs @ ys)" "list_empty (list_del m h) head \<longleftrightarrow> xs @ ys = []"
    using clist_del [OF assms(1)] clist_empty_iff by blast+
  show "clist (list_rotate_left head h) head (rotate1 (xs @ m # ys))" using clist_rotate_left [OF assms(1)] .
  show "\<not> list_empty h head" using clist_empty_iff [OF assms(1)] by simp
  then show "list_is_singular h head \<longleftrightarrow> xs @ ys = []" using assms(1)
    by (cases xs; cases ys rule: rev_cases) (auto simp: clist_def list_is_singular_def)
qed

lemma clist_cut_splice:
  assumes "clist h head (xs @ entry # ys)" and "list \<notin> insert head (set (xs @ entry # ys))"
  shows "clist (list_cut_position list head entry h) list (xs @ [entry])"
    and "clist (list_cut_position list head entry h) head ys"
    and "clist (list_splice list head (list_cut_position list head entry h)) head (xs @ entry # ys)"
proof -
  have l: "list \<notin> set (xs @ entry # ys) \<union> {head}" using assms(2) by auto
  note cut = clist_cut [OF assms(1) l]
  show "clist (list_cut_position list head entry h) list (xs @ [entry])" "clist (list_cut_position list head entry h) head ys"
    using cut by auto
  have "({list} \<union> set (xs @ [entry])) \<inter> ({head} \<union> set ys) = {}" using assms l by (auto simp: clist_def)
  then show "clist (list_splice list head (list_cut_position list head entry h)) head (xs @ entry # ys)"
    using clist_splice [OF cut] by simp
qed

definition ex_list :: list_heap where \<comment> \<open>head 0, nodes 1, 2, 3\<close>
  "ex_list = list_add_tail 3 0 (list_add_tail 2 0 (list_add_tail 1 0 (INIT_LIST_HEAD 0 \<lparr>lh_next = (\<lambda>_. 0), lh_prev = (\<lambda>_. 0)\<rparr>)))"

lemma ex_list: "clist ex_list 0 ([1] @ 2 # [3])"
  by (simp add: ex_list_def clist_def list_add_tail_def list_add_between_def INIT_LIST_HEAD_def)

text \<open>C32. The operations on circular lists act on the sequence of nodes a list represents: insertion at either end, deletion,
  replacement, rotation, and the tests for empty and one-element lists.\<close>

theorem list_operations_refine:
  assumes "clist h head (xs @ m # ys)" and "new \<notin> insert head (set (xs @ m # ys))"
  shows "clist (list_add new head h) head (new # xs @ m # ys) \<and>
    clist (list_add_tail new head h) head (xs @ m # ys @ [new]) \<and>
    clist (list_del m h) head (xs @ ys) \<and>
    clist (list_replace m new h) head (xs @ new # ys) \<and>
    clist (list_rotate_left head h) head (rotate1 (xs @ m # ys)) \<and>
    (list_is_singular h head \<longleftrightarrow> xs @ ys = []) \<and> (list_empty (list_del m h) head \<longleftrightarrow> xs @ ys = [])"
  using clist_operations [OF assms] by blast

theorem list_operations_refine_witness: "clist (list_rotate_left 0 ex_list) 0 [2, 3, 1] \<and> clist (list_del 2 ex_list) 0 [1, 3]"
  using list_operations_refine [OF ex_list, of 9] by simp

text \<open>Cutting a list after any of its entries and splicing the parts together again gives the list back.\<close>

theorem list_cut_splice_roundtrip:
  assumes "clist h head (xs @ entry # ys)" and "list \<notin> insert head (set (xs @ entry # ys))"
  shows "clist (list_cut_position list head entry h) list (xs @ [entry]) \<and>
    clist (list_cut_position list head entry h) head ys \<and>
    clist (list_splice list head (list_cut_position list head entry h)) head (xs @ entry # ys)"
  using clist_cut_splice [OF assms] by blast

theorem list_cut_splice_roundtrip_witness:
  "clist (list_cut_position 9 0 2 ex_list) 9 [1, 2] \<and> clist (list_splice 9 0 (list_cut_position 9 0 2 ex_list)) 0 [1, 2, 3]"
  using list_cut_splice_roundtrip [OF ex_list, of 9] by simp

end
