(* ===== verification/Bpf_Htab.thy ===== *)
theory Bpf_Htab
  imports Bpf_Map Jhash Klist
begin

text \<open>
  Hash maps, \<^verbatim>\<open>kernel/bpf/hashtab.c\<close>. The buckets are the hash lists of \<open>Klist\<close>; an element is an object on
  the heap of the map that holds its hash, key and value. Freed elements leave the heap at once: the
  grace period of \<open>kfree_rcu\<close> only delays it. The operations run under the lock of the table.
\<close>

section \<open>Operations\<close>

record htab_elem =
  he_hash :: u32
  he_key :: "u8 list"
  he_val :: "u8 list"

record bpf_htab =
  ht_key_size :: u32
  ht_value_size :: u32
  ht_max_entries :: u32
  ht_pages :: u32
  ht_count :: u32
  ht_n_buckets :: u32
  ht_elem_size :: u32
  ht_lists :: hlist_heap
  ht_elems :: "nat \<Rightarrow> htab_elem option"
  ht_next :: nat \<comment> \<open>the address the next allocation returns\<close>

abbreviation (input) MAX_BPF_STACK :: "'a::len word" where "MAX_BPF_STACK \<equiv> 512"
abbreviation (input) sizeof_htab_elem :: "'a::len word" where "sizeof_htab_elem \<equiv> 40" \<comment> \<open>on x86-64\<close>
abbreviation (input) sizeof_hlist_head :: "'a::len word" where "sizeof_hlist_head \<equiv> 8"

text \<open>\<open>INIT_HLIST_HEAD\<close> on every bucket.\<close>

fun init_buckets :: "nat \<Rightarrow> hlist_heap \<Rightarrow> hlist_heap" where
  "init_buckets 0 h = h"
| "init_buckets (Suc i) h = INIT_HLIST_HEAD i (init_buckets i h)"

text \<open>\<open>oks\<close>: whether the three allocations (the table, the buckets by \<open>kmalloc_array\<close>, or else by \<open>vmalloc\<close>) succeed;
  \<open>h0\<close> is the uninitialised memory of the buckets.\<close>

definition htab_map_alloc :: "bool \<Rightarrow> bool \<Rightarrow> bool \<Rightarrow> hlist_heap \<Rightarrow> bpf_attr \<Rightarrow> bpf_htab result" where
  "htab_map_alloc htab_ok kmalloc_ok vmalloc_ok h0 attr =
     (let key_size = at_key_size attr; value_size = at_value_size attr; max_entries = at_max_entries attr in
      if \<not> htab_ok then Err ENOMEM
      else if max_entries = 0 \<or> key_size = 0 \<or> value_size = 0 then Err EINVAL
      else
        (let n_buckets = (ucast (roundup_pow_of_two (ucast max_entries)) :: u32) in
         if key_size > MAX_BPF_STACK then Err E2BIG
         else if ucast value_size \<ge> (push_bit (KMALLOC_SHIFT_MAX - 1) 1 - MAX_BPF_STACK - sizeof_htab_elem :: u64) then Err E2BIG
         else
           (let elem_size = sizeof_htab_elem + round_up key_size 8 + value_size in
            if n_buckets = 0 \<or> ucast n_buckets > (U32_MAX div sizeof_hlist_head :: u64) then Err E2BIG
            else if ucast n_buckets * sizeof_hlist_head + ucast elem_size * ucast max_entries \<ge> U32_MAX - PAGE_SIZE then Err E2BIG
            else
              (let pages = (ucast (drop_bit PAGE_SHIFT
                     (round_up (ucast n_buckets * sizeof_hlist_head + ucast (elem_size * max_entries) :: u64) PAGE_SIZE)) :: u32) in
               if \<not> kmalloc_ok \<and> \<not> vmalloc_ok then Err ENOMEM
               else Ok \<lparr>ht_key_size = key_size, ht_value_size = value_size, ht_max_entries = max_entries, ht_pages = pages,
                        ht_count = 0, ht_n_buckets = n_buckets, ht_elem_size = elem_size,
                        ht_lists = init_buckets (unat n_buckets) h0, ht_elems = (\<lambda>_. None), ht_next = 0\<rparr>))))"

definition htab_map_hash :: "u8 list \<Rightarrow> u32 \<Rightarrow> u32" where
  "htab_map_hash key key_len = jhash (take (unat key_len) key) 0"

definition select_bucket :: "bpf_htab \<Rightarrow> u32 \<Rightarrow> nat" where
  "select_bucket htab hash = unat (hash AND (ht_n_buckets htab - 1))"

text \<open>\<open>lookup_elem_raw\<close>, from the node the walk has reached; the result is the address of the element.\<close>

partial_function (option) lookup_elem_raw ::
  "hlist_heap \<Rightarrow> (nat \<Rightarrow> htab_elem option) \<Rightarrow> nat option \<Rightarrow> u32 \<Rightarrow> u8 list \<Rightarrow> nat \<Rightarrow> nat option run" where
  "lookup_elem_raw h elems pos hash key key_size =
     (case pos of None \<Rightarrow> Some (Ok None)
      | Some l \<Rightarrow>
          (case elems l of None \<Rightarrow> Some (Undef BadMem)
           | Some e \<Rightarrow>
               (if he_hash e = hash \<and> take key_size (he_key e) = take key_size key then Some (Ok (Some l))
                else lookup_elem_raw h elems (hh_next h l) hash key key_size)))"

definition find_elem :: "bpf_htab \<Rightarrow> u8 list \<Rightarrow> nat option run" where
  "find_elem htab key =
     (let hash = htab_map_hash key (ht_key_size htab) in
      lookup_elem_raw (ht_lists htab) (ht_elems htab) (hh_first (ht_lists htab) (select_bucket htab hash))
        hash key (unat (ht_key_size htab)))"

text \<open>The element a lookup points to; its callers read the value.\<close>

definition htab_map_lookup_elem :: "bpf_htab \<Rightarrow> u8 list \<Rightarrow> u8 list option run" where
  "htab_map_lookup_elem htab key =
     sbind (find_elem htab key) (\<lambda>l.
       case l of None \<Rightarrow> Some (Ok None)
       | Some a \<Rightarrow> (case ht_elems htab a of None \<Rightarrow> Some (Undef BadMem) | Some e \<Rightarrow> Some (Ok (Some (he_val e)))))"

definition elem_key :: "bpf_htab \<Rightarrow> nat \<Rightarrow> u8 list run" where
  "elem_key htab a = (case ht_elems htab a of None \<Rightarrow> Some (Undef BadMem) | Some e \<Rightarrow> Some (Ok (he_key e)))"

text \<open>The loop after \<open>find_first_elem\<close>: the first element of the buckets from \<open>i\<close> on.\<close>

function find_first_elem :: "bpf_htab \<Rightarrow> nat \<Rightarrow> u8 list run" where
  "find_first_elem htab i =
     (if i < unat (ht_n_buckets htab) then
        (case hh_first (ht_lists htab) (select_bucket htab (of_nat i)) of
           Some next_l \<Rightarrow> elem_key htab next_l
         | None \<Rightarrow> find_first_elem htab (Suc i))
      else Some (Err ENOENT))"
  by pat_completeness auto
termination
  by (relation "measure (\<lambda>(htab, i). unat (ht_n_buckets htab) - i)") auto

declare find_first_elem.simps [simp del]

definition htab_map_get_next_key :: "bpf_htab \<Rightarrow> u8 list \<Rightarrow> u8 list run" where
  "htab_map_get_next_key htab key =
     sbind (find_elem htab key) (\<lambda>l.
       case l of None \<Rightarrow> find_first_elem htab 0
       | Some a \<Rightarrow>
           (case hh_next (ht_lists htab) a of
              Some next_l \<Rightarrow> elem_key htab next_l
            | None \<Rightarrow> find_first_elem htab (unat (htab_map_hash key (ht_key_size htab) AND (ht_n_buckets htab - 1)) + 1)))"

definition kfree_elem :: "nat \<Rightarrow> bpf_htab \<Rightarrow> bpf_htab" where
  "kfree_elem a htab = htab\<lparr>ht_elems := (ht_elems htab)(a := None)\<rparr>"

definition htab_map_update_elem ::
  "bool \<Rightarrow> bpf_htab \<Rightarrow> u8 list \<Rightarrow> u8 list \<Rightarrow> u64 \<Rightarrow> (unit result \<times> bpf_htab) option" where
  "htab_map_update_elem kmalloc_ok htab key value map_flags =
     (if map_flags > BPF_EXIST then Some (Err EINVAL, htab)
      else if \<not> kmalloc_ok then Some (Err ENOMEM, htab)
      else
        (let l_new = ht_next htab;
             hash = htab_map_hash key (ht_key_size htab);
             e = \<lparr>he_hash = hash, he_key = take (unat (ht_key_size htab)) key, he_val = take (unat (ht_value_size htab)) value\<rparr>;
             htab = htab\<lparr>ht_elems := (ht_elems htab)(l_new \<mapsto> e), ht_next := Suc l_new\<rparr>;
             head = select_bucket htab hash
         in case lookup_elem_raw (ht_lists htab) (ht_elems htab) (hh_first (ht_lists htab) head) hash key (unat (ht_key_size htab)) of
              None \<Rightarrow> None
            | Some (Err e) \<Rightarrow> Some (Err e, htab)
            | Some (Undef u) \<Rightarrow> Some (Undef u, htab)
            | Some (Ok l_old) \<Rightarrow>
                (if l_old = None \<and> ht_count htab \<ge> ht_max_entries htab then Some (Err E2BIG, kfree_elem l_new htab)
                 else if l_old \<noteq> None \<and> map_flags = BPF_NOEXIST then Some (Err EEXIST, kfree_elem l_new htab)
                 else if l_old = None \<and> map_flags = BPF_EXIST then Some (Err ENOENT, kfree_elem l_new htab)
                 else
                   (let htab = htab\<lparr>ht_lists := hlist_add_head_rcu l_new head (ht_lists htab)\<rparr> in
                    case l_old of
                      None \<Rightarrow> Some (Ok (), htab\<lparr>ht_count := ht_count htab + 1\<rparr>)
                    | Some old \<Rightarrow>
                        (case hlist_del_rcu old (ht_lists htab) of
                           Ok h \<Rightarrow> Some (Ok (), kfree_elem old (htab\<lparr>ht_lists := h\<rparr>))
                         | Err e \<Rightarrow> Some (Err e, htab)
                         | Undef u \<Rightarrow> Some (Undef u, htab))))))"

definition htab_map_delete_elem :: "bpf_htab \<Rightarrow> u8 list \<Rightarrow> (unit result \<times> bpf_htab) option" where
  "htab_map_delete_elem htab key =
     (case find_elem htab key of
        None \<Rightarrow> None
      | Some (Err e) \<Rightarrow> Some (Err e, htab)
      | Some (Undef u) \<Rightarrow> Some (Undef u, htab)
      | Some (Ok None) \<Rightarrow> Some (Err ENOENT, htab)
      | Some (Ok (Some l)) \<Rightarrow>
          (case hlist_del_rcu l (ht_lists htab) of
             Ok h \<Rightarrow> Some (Ok (), kfree_elem l (htab\<lparr>ht_lists := h, ht_count := ht_count htab - 1\<rparr>))
           | Err e \<Rightarrow> Some (Err e, htab)
           | Undef u \<Rightarrow> Some (Undef u, htab)))"

text \<open>\<open>delete_all_elements\<close>: the inner loop over one bucket reads the next node before it deletes the current one.\<close>

partial_function (option) delete_bucket :: "nat option \<Rightarrow> bpf_htab \<Rightarrow> bpf_htab run" where
  "delete_bucket pos htab =
     (case pos of None \<Rightarrow> Some (Ok htab)
      | Some l \<Rightarrow>
          (let n = hh_next (ht_lists htab) l in
           case hlist_del_rcu l (ht_lists htab) of
             Ok h \<Rightarrow> delete_bucket n (kfree_elem l (htab\<lparr>ht_lists := h, ht_count := ht_count htab - 1\<rparr>))
           | Err e \<Rightarrow> Some (Err e)
           | Undef u \<Rightarrow> Some (Undef u)))"

fun delete_buckets :: "nat list \<Rightarrow> bpf_htab \<Rightarrow> bpf_htab run" where
  "delete_buckets [] htab = Some (Ok htab)"
| "delete_buckets (i # is) htab =
     sbind (delete_bucket (hh_first (ht_lists htab) (select_bucket htab (of_nat i))) htab) (delete_buckets is)"

definition delete_all_elements :: "bpf_htab \<Rightarrow> bpf_htab run" where
  "delete_all_elements htab = delete_buckets [0 ..< unat (ht_n_buckets htab)] htab"

section \<open>The invariant\<close>

text \<open>
  \<open>f\<close> gives the nodes of each bucket. Every element is on the list of the bucket of its hash, no two
  elements have the same key, the counter counts the elements, and the heap holds nothing else.
\<close>

definition elem_ok :: "bpf_htab \<Rightarrow> htab_elem \<Rightarrow> bool" where
  "elem_ok t e \<longleftrightarrow> length (he_key e) = unat (ht_key_size t) \<and> length (he_val e) = unat (ht_value_size t) \<and>
     he_hash e = jhash (he_key e) 0"

definition shape_ok :: "bpf_htab \<Rightarrow> bool" where
  "shape_ok t \<longleftrightarrow> (\<exists>k \<le> 29. ht_n_buckets t = 2 ^ k)"

definition htab_linked :: "bpf_htab \<Rightarrow> (nat \<Rightarrow> nat list) \<Rightarrow> bool" where
  "htab_linked t f \<longleftrightarrow> shape_ok t \<and>
     hl.family {..< unat (ht_n_buckets t)} (ht_lists t) f \<and>
     (\<forall>a. (\<exists>b < unat (ht_n_buckets t). a \<in> set (f b)) \<longleftrightarrow> a \<in> dom (ht_elems t)) \<and>
     (\<forall>a e. ht_elems t a = Some e \<longrightarrow> a < ht_next t \<and> elem_ok t e \<and> a \<in> set (f (select_bucket t (he_hash e))))"

definition keys_unique :: "(nat \<Rightarrow> htab_elem option) \<Rightarrow> bool" where
  "keys_unique E \<longleftrightarrow> (\<forall>a a' e e'. E a = Some e \<longrightarrow> E a' = Some e' \<longrightarrow> he_key e = he_key e' \<longrightarrow> a = a')"

definition htab_counted :: "bpf_htab \<Rightarrow> bool" where
  "htab_counted t \<longleftrightarrow> keys_unique (ht_elems t) \<and>
     finite (dom (ht_elems t)) \<and> unat (ht_count t) = card (dom (ht_elems t)) \<and> ht_count t \<le> ht_max_entries t"

definition htab_content :: "bpf_htab \<Rightarrow> (u8 list \<rightharpoonup> u8 list) \<Rightarrow> bool" where
  "htab_content t M \<longleftrightarrow> (\<forall>k v. M k = Some v \<longleftrightarrow> (\<exists>a e. ht_elems t a = Some e \<and> he_key e = k \<and> he_val e = v))"

definition htab_rep :: "bpf_htab \<Rightarrow> (u8 list \<rightharpoonup> u8 list) \<Rightarrow> bool" where
  "htab_rep t M \<longleftrightarrow> (\<exists>f. htab_linked t f) \<and> htab_counted t \<and> htab_content t M"

lemma unat_u32_less: "unat (w :: u32) < 4294967296"
  by (rule order_less_le_trans [OF unsigned_less]) simp

lemma pow2_mask: "(2 ^ k :: 'a::len word) - 1 = mask k"
  by (simp add: mask_eq_exp_minus_1)

lemma unat_pow2: "k \<le> 29 \<Longrightarrow> unat (2 ^ k :: u32) = 2 ^ k"
proof -
  assume "k \<le> 29"
  then have "(2 :: nat) ^ k \<le> 2 ^ 29" by (rule power_increasing) simp
  then have "unat (of_nat (2 ^ k) :: u32) = 2 ^ k" unfolding unat_of_nat by (intro mod_less) simp
  then show ?thesis by simp
qed

lemma select_bucket_less:
  assumes "shape_ok t"
  shows "select_bucket t hash < unat (ht_n_buckets t)"
proof -
  obtain k where k: "k \<le> 29" "ht_n_buckets t = 2 ^ k" using assms by (auto simp: shape_ok_def)
  have "unat (hash AND mask k) < 2 ^ k"
    by (simp add: unsigned_take_bit_eq flip: take_bit_eq_mask)
  moreover have "unat (2 ^ k :: u32) = 2 ^ k" using k(1) by (simp add: unat_pow2)
  ultimately show ?thesis using k by (simp add: select_bucket_def pow2_mask)
qed

lemma select_bucket_of_nat:
  assumes "shape_ok t" and "i < unat (ht_n_buckets t)"
  shows "select_bucket t (of_nat i) = i"
proof -
  obtain k where k: "k \<le> 29" "ht_n_buckets t = 2 ^ k" using assms by (auto simp: shape_ok_def)
  have "i < 2 ^ k" using assms(2) k by (simp add: unat_pow2)
  moreover have "(2 :: nat) ^ k \<le> 2 ^ 29" using k(1) by (rule power_increasing) simp
  ultimately have "take_bit k (i mod 2 ^ 32) = i" by (simp add: take_bit_nat_eq_self)
  then show ?thesis using k
    by (simp add: select_bucket_def pow2_mask unsigned_take_bit_eq unat_of_nat flip: take_bit_eq_mask)
qed

lemma htab_linked_elem:
  assumes "htab_linked t f" and "ht_elems t a = Some e"
  shows "a < ht_next t" and "elem_ok t e" and "a \<in> set (f (select_bucket t (he_hash e)))"
  using assms unfolding htab_linked_def by blast+

lemma elem_bucket:
  "htab_linked t f \<Longrightarrow> ht_elems t a = Some e \<Longrightarrow> b < unat (ht_n_buckets t) \<Longrightarrow>
    a \<in> set (f b) \<longleftrightarrow> b = select_bucket t (he_hash e)"
  using hl.family_node_unique [of "{..< unat (ht_n_buckets t)}" "ht_lists t" f] select_bucket_less
  by (auto simp: htab_linked_def)

text \<open>The walk along a bucket finds the first node whose element has the key.\<close>

lemma lookup_elem_raw_find:
  assumes "hlist h b (xs @ ys)" and "\<And>a. a \<in> set ys \<Longrightarrow> elems a \<noteq> None"
  shows "lookup_elem_raw h elems (case ys of [] \<Rightarrow> None | y # _ \<Rightarrow> Some y) hash key n =
    Some (Ok (List.find (\<lambda>a. he_hash (the (elems a)) = hash \<and> take n (he_key (the (elems a))) = take n key) ys))"
  using assms
proof (induction ys arbitrary: xs)
  case Nil
  then show ?case by (simp add: lookup_elem_raw.simps)
next
  case (Cons y ys)
  obtain e where e: "elems y = Some e" using Cons.prems(2) by fastforce
  have n: "hh_next h y = (case ys of [] \<Rightarrow> None | z # _ \<Rightarrow> Some z)" using hl.seq_succ [of h b xs y ys] Cons.prems(1) by simp
  have "hlist h b ((xs @ [y]) @ ys)" using Cons.prems(1) by simp
  note IH = Cons.IH [OF this]
  show ?case using e n IH Cons.prems(2) by (subst lookup_elem_raw.simps) simp
qed

text \<open>Looking a key up in its bucket; the heap of elements may hold more than the table (a new element not yet linked).\<close>

lemma bucket_find:
  assumes wf: "htab_linked t f" and k: "length k = unat (ht_key_size t)"
    and same: "\<And>a. a \<in> dom (ht_elems t) \<Longrightarrow> elems a = ht_elems t a"
  obtains "lookup_elem_raw (ht_lists t) elems (hh_first (ht_lists t) (select_bucket t (jhash k 0))) (jhash k 0) k (unat (ht_key_size t)) =
      Some (Ok None)" and "\<And>a e. ht_elems t a = Some e \<Longrightarrow> he_key e \<noteq> k"
  | a e where "lookup_elem_raw (ht_lists t) elems (hh_first (ht_lists t) (select_bucket t (jhash k 0))) (jhash k 0) k (unat (ht_key_size t)) =
      Some (Ok (Some a))" and "ht_elems t a = Some e" and "he_key e = k" and "a \<in> set (f (select_bucket t (jhash k 0)))"
proof -
  let ?b = "select_bucket t (jhash k 0)"
  let ?p = "\<lambda>a. he_hash (the (elems a)) = jhash k 0 \<and> take (unat (ht_key_size t)) (he_key (the (elems a))) = take (unat (ht_key_size t)) k"
  have b: "?b < unat (ht_n_buckets t)" using select_bucket_less wf by (auto simp: htab_linked_def)
  then have seq: "hlist (ht_lists t) ?b (f ?b)" using wf hl.family_seq unfolding htab_linked_def by blast
  have el: "\<exists>e. elems a = Some e \<and> ht_elems t a = Some e \<and> elem_ok t e" if "a \<in> set (f ?b)" for a
  proof -
    have "a \<in> dom (ht_elems t)" using wf b that unfolding htab_linked_def by blast
    then show ?thesis using same wf unfolding htab_linked_def by fastforce
  qed
  have r: "lookup_elem_raw (ht_lists t) elems (hh_first (ht_lists t) ?b) (jhash k 0) k (unat (ht_key_size t)) = Some (Ok (List.find ?p (f ?b)))"
    using lookup_elem_raw_find [of "ht_lists t" ?b "[]" "f ?b" elems] seq el hl.seq_first [OF seq] by fastforce
  have match: "?p a \<longleftrightarrow> he_key e = k" if "a \<in> set (f ?b)" "ht_elems t a = Some e" for a e
    using el [OF that(1)] that(2) k by (auto simp: elem_ok_def)
  show thesis
  proof (cases "List.find ?p (f ?b)")
    case None
    have "he_key e \<noteq> k" if e: "ht_elems t a = Some e" for a e
    proof
      assume "he_key e = k"
      then have "a \<in> set (f ?b)" using htab_linked_elem(2,3) [OF wf e] by (simp add: elem_ok_def)
      moreover have "\<not> ?p a" using None calculation by (simp only: find_None_iff) blast
      ultimately show False using match e \<open>he_key e = k\<close> by blast
    qed
    then show thesis using r None that(1) by simp
  next
    case (Some a)
    then have "a \<in> set (f ?b)" "?p a" by (auto simp: find_Some_iff)
    then obtain e where "ht_elems t a = Some e" "he_key e = k" using el match by blast
    then show thesis using that(2) r Some \<open>a \<in> set (f ?b)\<close> by simp
  qed
qed

lemma find_elem_eq:
  "length k = unat (ht_key_size t) \<Longrightarrow> find_elem t k =
    lookup_elem_raw (ht_lists t) (ht_elems t) (hh_first (ht_lists t) (select_bucket t (jhash k 0))) (jhash k 0) k (unat (ht_key_size t))"
  by (simp add: find_elem_def htab_map_hash_def Let_def)

lemma htab_contentD: "htab_content t M \<Longrightarrow> ht_elems t a = Some e \<Longrightarrow> M (he_key e) = Some (he_val e)"
  by (auto simp: htab_content_def)

lemma htab_content_None: "htab_content t M \<Longrightarrow> M k = None \<longleftrightarrow> (\<forall>a e. ht_elems t a = Some e \<longrightarrow> he_key e \<noteq> k)"
  unfolding htab_content_def by (metis not_None_eq)

lemma htab_lookup_rep:
  assumes "htab_rep t M" and "length k = unat (ht_key_size t)"
  shows "htab_map_lookup_elem t k = Some (Ok (M k))"
proof -
  obtain f where wf: "htab_linked t f" and c: "htab_content t M" using assms(1) by (auto simp: htab_rep_def)
  show ?thesis
  proof (rule bucket_find [OF wf assms(2), of "ht_elems t"])
    assume "lookup_elem_raw (ht_lists t) (ht_elems t) (hh_first (ht_lists t) (select_bucket t (jhash k 0))) (jhash k 0) k (unat (ht_key_size t)) =
      Some (Ok None)" and "\<And>a e. ht_elems t a = Some e \<Longrightarrow> he_key e \<noteq> k"
    then show ?thesis using htab_content_None [OF c, of k] assms(2) by (auto simp: htab_map_lookup_elem_def find_elem_eq)
  next
    fix a e assume "lookup_elem_raw (ht_lists t) (ht_elems t) (hh_first (ht_lists t) (select_bucket t (jhash k 0))) (jhash k 0) k (unat (ht_key_size t)) =
      Some (Ok (Some a))" and "ht_elems t a = Some e" and "he_key e = k"
    then show ?thesis using htab_contentD [OF c] assms(2) by (auto simp: htab_map_lookup_elem_def find_elem_eq)
  qed simp
qed

text \<open>Linking a new element, unlinking an old one.\<close>

lemma htab_linked_family:
  "htab_linked t f \<Longrightarrow> hl.family {..< unat (ht_n_buckets t)} (ht_lists t) f"
  by (simp add: htab_linked_def)

lemma htab_linked_dom:
  "htab_linked t f \<Longrightarrow> b < unat (ht_n_buckets t) \<Longrightarrow> a \<in> set (f b) \<Longrightarrow> \<exists>e. ht_elems t a = Some e"
  unfolding htab_linked_def by blast

text \<open>What the two operations on the table change besides the lists.\<close>

lemma link_elem:
  assumes "htab_linked t f" and "elem_ok t e"
  defines "b \<equiv> select_bucket t (he_hash e)"
  defines "t' \<equiv> t\<lparr>ht_elems := (ht_elems t)(ht_next t \<mapsto> e), ht_next := Suc (ht_next t),
      ht_lists := hlist_add_head_rcu (ht_next t) b (ht_lists t)\<rparr>"
  shows "htab_linked t' (f(b := ht_next t # f b))"
proof -
  have sh: "shape_ok t" and b: "b < unat (ht_n_buckets t)"
    using assms(1) select_bucket_less by (auto simp: htab_linked_def b_def)
  have fresh: "ht_next t \<notin> set (f c)" if "c < unat (ht_n_buckets t)" for c
    using htab_linked_dom [OF assms(1) that] htab_linked_elem(1) [OF assms(1)] by fastforce
  have "hl.family {..< unat (ht_n_buckets t)} (hlist_add_head_rcu (ht_next t) b (ht_lists t)) (f(b := ht_next t # f b))"
    using hl.family_add [OF htab_linked_family [OF assms(1)]] b fresh by auto
  moreover have "(\<exists>c < unat (ht_n_buckets t). a \<in> set ((f(b := ht_next t # f b)) c)) \<longleftrightarrow> a \<in> dom ((ht_elems t)(ht_next t \<mapsto> e))" for a
  proof -
    have "(\<exists>c < unat (ht_n_buckets t). a \<in> set (f c)) \<longleftrightarrow> a \<in> dom (ht_elems t)" using assms(1) by (simp add: htab_linked_def)
    then show ?thesis using b by auto
  qed
  moreover have "a < Suc (ht_next t) \<and> elem_ok t e' \<and> a \<in> set ((f(b := ht_next t # f b)) (select_bucket t (he_hash e')))"
    if "((ht_elems t)(ht_next t \<mapsto> e)) a = Some e'" for a e'
  proof (cases "a = ht_next t")
    case True
    then show ?thesis using that assms(2) by (simp add: b_def)
  next
    case False
    then show ?thesis using that htab_linked_elem [OF assms(1), of a e'] by auto
  qed
  moreover have "elem_ok t' = elem_ok t" "select_bucket t' = select_bucket t" "shape_ok t'"
    using sh by (auto simp: t'_def elem_ok_def select_bucket_def shape_ok_def fun_eq_iff)
  ultimately show ?thesis unfolding htab_linked_def by (simp add: t'_def)
qed

lemma unlink_node:
  assumes "htab_linked t f" and "b < unat (ht_n_buckets t)" and "f b = xs @ a # ys"
  shows "\<exists>h. hlist_del_rcu a (ht_lists t) = Ok h \<and>
    htab_linked (t\<lparr>ht_lists := h, ht_elems := (ht_elems t)(a := None)\<rparr>) (f(b := xs @ ys))"
proof -
  let ?n = "unat (ht_n_buckets t)"
  have sh: "shape_ok t" using assms(1) by (simp add: htab_linked_def)
  obtain e where e: "ht_elems t a = Some e" using htab_linked_dom [OF assms(1,2)] assms(3) by fastforce
  have b: "b = select_bucket t (he_hash e)" using elem_bucket [OF assms(1) e assms(2)] assms(3) by simp
  obtain h where h: "hlist_del_rcu a (ht_lists t) = Ok h" and fam: "hl.family {..< ?n} h (f(b := xs @ ys))"
    using hl.family_del [OF htab_linked_family [OF assms(1)] _ assms(3)] assms(2) by auto
  have "distinct (f b)" using hl.seq_distinct [OF hl.family_seq [OF htab_linked_family [OF assms(1)]]] assms(2) by simp
  then have na: "a \<notin> set (xs @ ys)" using assms(3) by simp
  have other: "a \<notin> set (f c)" if "c < ?n" "c \<noteq> b" for c using elem_bucket [OF assms(1) e that(1)] that(2) b by simp
  have "(\<exists>c < ?n. x \<in> set ((f(b := xs @ ys)) c)) \<longleftrightarrow> x \<in> dom ((ht_elems t)(a := None))" for x
  proof -
    have "(\<exists>c < ?n. x \<in> set (f c)) \<longleftrightarrow> x \<in> dom (ht_elems t)" using assms(1) by (simp add: htab_linked_def)
    then show ?thesis using assms(2,3) na other by (cases "x = a") (auto, metis Un_iff insert_iff list.simps(15) set_append)
  qed
  moreover have "x < ht_next t \<and> elem_ok t e' \<and> x \<in> set ((f(b := xs @ ys)) (select_bucket t (he_hash e')))"
    if "((ht_elems t)(a := None)) x = Some e'" for x e'
    using that htab_linked_elem [OF assms(1), of x e'] assms(3) by (auto split: if_splits)
  moreover let ?t = "t\<lparr>ht_lists := h, ht_elems := (ht_elems t)(a := None)\<rparr>"
  have "elem_ok ?t = elem_ok t" "select_bucket ?t = select_bucket t" "shape_ok ?t"
    using sh by (auto simp: elem_ok_def select_bucket_def shape_ok_def fun_eq_iff)
  ultimately have "htab_linked ?t (f(b := xs @ ys))" unfolding htab_linked_def using fam by simp
  then show ?thesis using h by blast
qed

lemma unlink_elem:
  assumes "htab_linked t f" and "ht_elems t a = Some e"
  shows "\<exists>h f'. hlist_del_rcu a (ht_lists t) = Ok h \<and>
    htab_linked (t\<lparr>ht_lists := h, ht_elems := (ht_elems t)(a := None)\<rparr>) f'"
proof -
  have "shape_ok t" using assms(1) by (simp add: htab_linked_def)
  moreover obtain xs ys where "f (select_bucket t (he_hash e)) = xs @ a # ys"
    using htab_linked_elem(3) [OF assms] by (meson split_list)
  ultimately show ?thesis using unlink_node [OF assms(1)] select_bucket_less by blast
qed

lemma htab_upd_indep [simp]:
  "elem_ok (t\<lparr>ht_next := n\<rparr>) = elem_ok t" "elem_ok (t\<lparr>ht_count := c\<rparr>) = elem_ok t"
  "select_bucket (t\<lparr>ht_next := n\<rparr>) = select_bucket t" "select_bucket (t\<lparr>ht_count := c\<rparr>) = select_bucket t"
  "shape_ok (t\<lparr>ht_next := n\<rparr>) = shape_ok t" "shape_ok (t\<lparr>ht_count := c\<rparr>) = shape_ok t"
  by (auto simp: elem_ok_def select_bucket_def shape_ok_def fun_eq_iff)

text \<open>The counter is not part of the lists, and a failed update only advances the allocator.\<close>

lemma htab_linked_count [simp]: "htab_linked (t\<lparr>ht_count := c\<rparr>) f \<longleftrightarrow> htab_linked t f"
  by (simp add: htab_linked_def)

lemma htab_linked_next: "htab_linked t f \<Longrightarrow> htab_linked (t\<lparr>ht_next := Suc (ht_next t)\<rparr>) f"
  by (simp add: htab_linked_def less_Suc_eq)

lemma htab_next_rep: "htab_rep t M \<Longrightarrow> htab_rep (t\<lparr>ht_next := Suc (ht_next t)\<rparr>) M"
  unfolding htab_rep_def htab_counted_def htab_content_def using htab_linked_next by auto

lemma htab_fresh: "htab_rep t M \<Longrightarrow> ht_elems t (ht_next t) = None"
  using htab_linked_elem(1) by (fastforce simp: htab_rep_def)

lemma counted_insert:
  assumes "htab_counted t" and "ht_elems t a = None" and "\<And>x e'. ht_elems t x = Some e' \<Longrightarrow> he_key e' \<noteq> he_key e"
    and "ht_count t < ht_max_entries t" and "ht_elems t' = (ht_elems t)(a \<mapsto> e)" and "ht_count t' = ht_count t + 1"
    and "ht_max_entries t' = ht_max_entries t"
  shows "htab_counted t'"
proof -
  have c: "finite (dom (ht_elems t))" "unat (ht_count t) = card (dom (ht_elems t))" using assms(1) by (auto simp: htab_counted_def)
  have lt: "unat (ht_count t) < unat (ht_max_entries t)" using assms(4) by (simp add: word_less_nat_alt)
  then have u: "unat (ht_count t + 1) = unat (ht_count t) + 1"
    using unat_add_lem [of "ht_count t" 1] unat_u32_less [of "ht_max_entries t"] by simp
  have "a \<notin> dom (ht_elems t)" using assms(2) by auto
  then have "card (dom (ht_elems t')) = unat (ht_count t) + 1" using c assms(5) by simp
  moreover have "keys_unique (ht_elems t')"
    using assms(1,3,5) unfolding htab_counted_def keys_unique_def by (metis fun_upd_apply option.inject)
  moreover have "finite (dom (ht_elems t'))" using c assms(5) by simp
  ultimately show ?thesis using u lt assms(6,7) by (simp add: htab_counted_def word_le_nat_alt)
qed

lemma counted_delete:
  assumes "htab_counted t" and "ht_elems t a = Some e" and "ht_elems t' = (ht_elems t)(a := None)"
    and "ht_count t' = ht_count t - 1" and "ht_max_entries t' = ht_max_entries t"
  shows "htab_counted t'"
proof -
  have c: "unat (ht_count t) = card (dom (ht_elems t))" "finite (dom (ht_elems t))" "unat (ht_count t) \<le> unat (ht_max_entries t)"
    using assms(1) by (auto simp: htab_counted_def word_le_nat_alt)
  have a: "a \<in> dom (ht_elems t)" using assms(2) by auto
  then have "ht_count t \<noteq> 0" using c by (auto simp: card_eq_0_iff)
  then have m: "unat (ht_count t - 1) = unat (ht_count t) - 1" by (rule unat_minus_one)
  have "card (dom (ht_elems t')) = unat (ht_count t) - 1" using c a assms(3) by simp
  moreover have "keys_unique (ht_elems t')"
    using assms(1,3) unfolding htab_counted_def keys_unique_def by (metis fun_upd_apply option.distinct(1))
  moreover have "finite (dom (ht_elems t'))" using c assms(3) by simp
  ultimately show ?thesis using m c assms(4,5) by (simp add: htab_counted_def word_le_nat_alt)
qed

lemma counted_replace:
  assumes "htab_counted t" and "ht_elems t a = Some e" and "ht_elems t b = None" and "he_key e' = he_key e"
    and "ht_elems t' = (ht_elems t)(b \<mapsto> e', a := None)" and "ht_count t' = ht_count t" and "ht_max_entries t' = ht_max_entries t"
  shows "htab_counted t'"
proof -
  have c: "finite (dom (ht_elems t))" "unat (ht_count t) = card (dom (ht_elems t))" using assms(1) by (auto simp: htab_counted_def)
  have ab: "a \<in> dom (ht_elems t)" "b \<notin> dom (ht_elems t)" "a \<noteq> b" using assms(2,3) by auto
  have d: "dom (ht_elems t') = insert b (dom (ht_elems t) - {a})" using assms(5) ab by auto
  have "card (dom (ht_elems t')) = Suc (card (dom (ht_elems t) - {a}))" unfolding d using ab c(1) by simp
  then have "card (dom (ht_elems t')) = card (dom (ht_elems t))" using ab c(1) by (simp only: card.remove [of "dom (ht_elems t)" a])
  moreover have "keys_unique (ht_elems t')" unfolding keys_unique_def
  proof (intro allI impI)
    fix x y ex ey assume "ht_elems t' x = Some ex" "ht_elems t' y = Some ey" "he_key ex = he_key ey"
    moreover have "z = a" if "ht_elems t z = Some ez" "he_key ez = he_key e'" for z ez
      using assms(1,2,4) that unfolding htab_counted_def keys_unique_def by metis
    moreover have "p = q" if "ht_elems t p = Some ep" "ht_elems t q = Some eq" "he_key ep = he_key eq" for p q ep eq
      using assms(1) that unfolding htab_counted_def keys_unique_def by metis
    ultimately show "x = y" unfolding assms(5) by (metis fun_upd_apply option.distinct(1) option.inject)
  qed
  moreover have "finite (dom (ht_elems t'))" using c d by simp
  ultimately show ?thesis using assms(1,6,7) c by (simp add: htab_counted_def)
qed

lemma content_upd:
  assumes "htab_content t M" and "ht_elems t a = None" and "\<And>x e'. ht_elems t x = Some e' \<Longrightarrow> he_key e' \<noteq> he_key e"
    and "ht_elems t' = (ht_elems t)(a \<mapsto> e)"
  shows "htab_content t' (M(he_key e \<mapsto> he_val e))"
  unfolding htab_content_def
proof (intro allI)
  fix k v
  have M: "M k = Some v \<longleftrightarrow> (\<exists>x e. ht_elems t x = Some e \<and> he_key e = k \<and> he_val e = v)"
    using assms(1) by (simp add: htab_content_def)
  show "(M(he_key e \<mapsto> he_val e)) k = Some v \<longleftrightarrow> (\<exists>a e. ht_elems t' a = Some e \<and> he_key e = k \<and> he_val e = v)"
  proof (cases "k = he_key e")
    case True
    then show ?thesis using assms(3) unfolding assms(4) by (auto split: if_splits)
  next
    case False
    then show ?thesis using M assms(2) unfolding assms(4) by (auto split: if_splits) (metis option.distinct(1))
  qed
qed

lemma content_del:
  assumes "htab_content t M" and "keys_unique (ht_elems t)" and "ht_elems t a = Some e" and "ht_elems t' = (ht_elems t)(a := None)"
  shows "htab_content t' (M(he_key e := None))"
  unfolding htab_content_def
proof (intro allI)
  fix k v
  have M: "M k = Some v \<longleftrightarrow> (\<exists>x e. ht_elems t x = Some e \<and> he_key e = k \<and> he_val e = v)"
    using assms(1) by (simp add: htab_content_def)
  have u: "x = a" if "ht_elems t x = Some e'" "he_key e' = he_key e" for x e'
    using assms(2,3) that unfolding keys_unique_def by metis
  show "(M(he_key e := None)) k = Some v \<longleftrightarrow> (\<exists>a e. ht_elems t' a = Some e \<and> he_key e = k \<and> he_val e = v)"
  proof (cases "k = he_key e")
    case True
    then show ?thesis using u unfolding assms(4) by (auto split: if_splits)
  next
    case False
    then show ?thesis using M assms(3) unfolding assms(4) by (auto split: if_splits) (metis option.inject)
  qed
qed

lemma content_replace:
  assumes "htab_content t M" and "keys_unique (ht_elems t)" and "ht_elems t a = Some e" and "ht_elems t b = None"
    and "he_key e' = he_key e" and "ht_elems t' = (ht_elems t)(b \<mapsto> e', a := None)"
  shows "htab_content t' (M(he_key e' \<mapsto> he_val e'))"
proof -
  let ?t = "t\<lparr>ht_elems := (ht_elems t)(a := None)\<rparr>"
  have ab: "a \<noteq> b" using assms(3,4) by auto
  have "htab_content ?t (M(he_key e := None))" using content_del [OF assms(1-3)] by simp
  moreover have "ht_elems ?t b = None" using assms(4) by simp
  moreover have "he_key x \<noteq> he_key e'" if "ht_elems ?t p = Some x" for p x
    using that assms(2,3,5) unfolding keys_unique_def by (auto split: if_splits)
  moreover have "ht_elems t' = (ht_elems ?t)(b \<mapsto> e')" using assms(6) ab by auto
  ultimately have "htab_content t' ((M(he_key e := None))(he_key e' \<mapsto> he_val e'))" by (rule content_upd)
  then show ?thesis using assms(5) by simp
qed

section \<open>Hash maps implement the contract\<close>

lemma htab_delete_rep:
  assumes "htab_rep t M" and "length k = unat (ht_key_size t)"
  shows "\<exists>t'. htab_map_delete_elem t k = Some (if M k = None then Err ENOENT else Ok (), t') \<and>
    ht_key_size t' = ht_key_size t \<and> ht_value_size t' = ht_value_size t \<and> htab_rep t' (M(k := None))"
proof -
  obtain f where l: "htab_linked t f" and c: "htab_counted t" and m: "htab_content t M" using assms(1) by (auto simp: htab_rep_def)
  show ?thesis
  proof (rule bucket_find [OF l assms(2), of "ht_elems t"])
    assume "lookup_elem_raw (ht_lists t) (ht_elems t) (hh_first (ht_lists t) (select_bucket t (jhash k 0))) (jhash k 0) k (unat (ht_key_size t)) =
      Some (Ok None)" and "\<And>a e. ht_elems t a = Some e \<Longrightarrow> he_key e \<noteq> k"
    moreover from this have "M k = None" using htab_content_None [OF m, of k] by blast
    moreover from this have "M(k := None) = M" by (rule fun_upd_idem)
    ultimately show ?thesis using assms by (simp add: htab_map_delete_elem_def find_elem_eq)
  next
    fix a e assume find: "lookup_elem_raw (ht_lists t) (ht_elems t) (hh_first (ht_lists t) (select_bucket t (jhash k 0))) (jhash k 0) k (unat (ht_key_size t)) =
      Some (Ok (Some a))" and a: "ht_elems t a = Some e" and k: "he_key e = k"
    obtain h f' where h: "hlist_del_rcu a (ht_lists t) = Ok h" and l': "htab_linked (t\<lparr>ht_lists := h, ht_elems := (ht_elems t)(a := None)\<rparr>) f'"
      using unlink_elem [OF l a] by blast
    let ?t = "kfree_elem a (t\<lparr>ht_lists := h, ht_count := ht_count t - 1\<rparr>)"
    have "?t = (t\<lparr>ht_lists := h, ht_elems := (ht_elems t)(a := None)\<rparr>)\<lparr>ht_count := ht_count t - 1\<rparr>" by (simp add: kfree_elem_def)
    then have "htab_linked ?t f'" using l' by (simp only: htab_linked_count)
    moreover have "htab_counted ?t" by (rule counted_delete [OF c a]) (simp_all add: kfree_elem_def)
    moreover have "htab_content ?t (M(he_key e := None))"
      by (rule content_del [OF m _ a]) (use c in \<open>simp_all add: htab_counted_def kfree_elem_def\<close>)
    moreover have "M k \<noteq> None" using htab_contentD [OF m a] k by simp
    ultimately show ?thesis using find h k assms(2)
      by (auto simp: htab_map_delete_elem_def find_elem_eq htab_rep_def kfree_elem_def)
  qed simp
qed

lemma htab_update_rep:
  assumes "htab_rep t M" and "length k = unat (ht_key_size t)" and "length v = unat (ht_value_size t)"
  shows "\<exists>r t'. htab_map_update_elem ok t k v flags = Some (r, t') \<and>
    ht_key_size t' = ht_key_size t \<and> ht_value_size t' = ht_value_size t \<and>
    r = (if flags > BPF_EXIST then Err EINVAL else if \<not> ok then Err ENOMEM
         else if M k = None \<and> ht_count t \<ge> ht_max_entries t then Err E2BIG
         else if M k \<noteq> None \<and> flags = BPF_NOEXIST then Err EEXIST
         else if M k = None \<and> flags = BPF_EXIST then Err ENOENT else Ok ()) \<and>
    htab_rep t' (if r = Ok () then M(k \<mapsto> v) else M)"
proof (cases "flags > BPF_EXIST \<or> \<not> ok")
  case True
  then show ?thesis using assms(1) by (auto simp: htab_map_update_elem_def)
next
  case False
  obtain f where l: "htab_linked t f" and c: "htab_counted t" and m: "htab_content t M" using assms(1) by (auto simp: htab_rep_def)
  let ?e = "\<lparr>he_hash = jhash k 0, he_key = k, he_val = v\<rparr>" and ?n = "ht_next t" and ?b = "select_bucket t (jhash k 0)"
  let ?E = "(ht_elems t)(?n \<mapsto> ?e)"
  let ?t1 = "t\<lparr>ht_elems := ?E, ht_next := Suc ?n\<rparr>"
  let ?t2 = "t\<lparr>ht_elems := ?E, ht_next := Suc ?n, ht_lists := hlist_add_head_rcu ?n ?b (ht_lists t)\<rparr>"
  have fresh: "ht_elems t ?n = None" using htab_fresh [OF assms(1)] .
  have ok: "elem_ok t ?e" using assms(2,3) by (simp add: elem_ok_def)
  have undo: "kfree_elem ?n ?t1 = t\<lparr>ht_next := Suc ?n\<rparr>" 
    using fun_upd_idem [of "ht_elems t" ?n None, OF fresh] by (intro bpf_htab.equality) (simp_all add: kfree_elem_def)
  have sel: "select_bucket ?t1 = select_bucket t" by (simp add: select_bucket_def fun_eq_iff)
  note link = link_elem [OF l ok]
  have "\<And>a. a \<in> dom (ht_elems t) \<Longrightarrow> ?E a = ht_elems t a" using fresh by auto
  then show ?thesis
  proof (rule bucket_find [OF l assms(2)])
    assume find: "lookup_elem_raw (ht_lists t) ?E (hh_first (ht_lists t) ?b) (jhash k 0) k (unat (ht_key_size t)) = Some (Ok None)"
      and none: "\<And>a e. ht_elems t a = Some e \<Longrightarrow> he_key e \<noteq> k"
    have mk: "M k = None" using htab_content_None [OF m, of k] none by blast
    have up: "htab_map_update_elem ok t k v flags =
        (if ht_count t \<ge> ht_max_entries t then Some (Err E2BIG, kfree_elem ?n ?t1)
         else if flags = BPF_EXIST then Some (Err ENOENT, kfree_elem ?n ?t1) else Some (Ok (), ?t2\<lparr>ht_count := ht_count t + 1\<rparr>))"
      using False find assms(2,3) sel by (simp add: htab_map_update_elem_def Let_def htab_map_hash_def)
    have "htab_rep (?t2\<lparr>ht_count := ht_count t + 1\<rparr>) (M(k \<mapsto> v))" if "\<not> ht_count t \<ge> ht_max_entries t"
    proof -
      have "htab_counted (?t2\<lparr>ht_count := ht_count t + 1\<rparr>)"
        by (rule counted_insert [OF c fresh, of ?e]) (use none that in \<open>auto simp: not_le\<close>)
      moreover have "htab_content (?t2\<lparr>ht_count := ht_count t + 1\<rparr>) (M(he_key ?e \<mapsto> he_val ?e))"
        by (rule content_upd [OF m fresh]) (use none in auto)
      ultimately show ?thesis using link by (auto simp: htab_rep_def)
    qed
    then show ?thesis unfolding up undo using False mk htab_next_rep [OF assms(1)] by auto
  next
    fix a e assume find: "lookup_elem_raw (ht_lists t) ?E (hh_first (ht_lists t) ?b) (jhash k 0) k (unat (ht_key_size t)) = Some (Ok (Some a))"
      and a: "ht_elems t a = Some e" and k: "he_key e = k"
    have mk: "M k \<noteq> None" using htab_contentD [OF m a] k by simp
    have an: "a \<noteq> ?n" using a fresh by auto
    then have e2: "ht_elems ?t2 a = Some e" using a by simp
    have l2: "htab_linked ?t2 (f(?b := ?n # f ?b))" using link by simp
    obtain h f' where h: "hlist_del_rcu a (ht_lists ?t2) = Ok h"
      and l': "htab_linked (?t2\<lparr>ht_lists := h, ht_elems := (ht_elems ?t2)(a := None)\<rparr>) f'"
      using unlink_elem [OF l2 e2] by blast
    let ?t3 = "kfree_elem a (?t2\<lparr>ht_lists := h\<rparr>)"
    have up: "htab_map_update_elem ok t k v flags =
        (if flags = BPF_NOEXIST then Some (Err EEXIST, kfree_elem ?n ?t1) else Some (Ok (), ?t3))"
      using False find assms(2,3) sel h by (simp add: htab_map_update_elem_def Let_def htab_map_hash_def)
    have "htab_linked ?t3 f'" using l' by (simp add: kfree_elem_def)
    moreover have "htab_counted ?t3" by (rule counted_replace [OF c a fresh, of ?e]) (use k in \<open>simp_all add: kfree_elem_def\<close>)
    moreover have "htab_content ?t3 (M(he_key ?e \<mapsto> he_val ?e))"
      by (rule content_replace [OF m _ a fresh]) (use c k in \<open>simp_all add: htab_counted_def kfree_elem_def\<close>)
    ultimately have "htab_rep ?t3 (M(k \<mapsto> v))" by (auto simp: htab_rep_def)
    then show ?thesis unfolding up undo using False mk htab_next_rep [OF assms(1)] by (auto simp: kfree_elem_def)
  qed
qed

subsection \<open>Enumerating the keys\<close>

text \<open>The order of the enumeration: the buckets in turn, each from its head.\<close>

definition htab_nodes :: "bpf_htab \<Rightarrow> (nat \<Rightarrow> nat list) \<Rightarrow> nat \<Rightarrow> nat list" where
  "htab_nodes t f i = concat (map f [i ..< unat (ht_n_buckets t)])"

definition node_key :: "bpf_htab \<Rightarrow> nat \<Rightarrow> u8 list" where
  "node_key t a = he_key (the (ht_elems t a))"

lemma htab_nodes_rec:
  "htab_nodes t f i = (if i < unat (ht_n_buckets t) then f i @ htab_nodes t f (Suc i) else [])"
  by (simp add: htab_nodes_def upt_rec [of i])

lemma set_htab_nodes: "set (htab_nodes t f i) = (\<Union>b \<in> {i ..< unat (ht_n_buckets t)}. set (f b))"
  by (auto simp: htab_nodes_def)

lemma distinct_htab_nodes:
  assumes "htab_linked t f"
  shows "distinct (htab_nodes t f i)"
proof (induction "unat (ht_n_buckets t) - i" arbitrary: i)
  case 0
  then show ?case by (simp add: htab_nodes_def)
next
  case (Suc m)
  have fam: "hl.family {..< unat (ht_n_buckets t)} (ht_lists t) f" using htab_linked_family [OF assms] .
  have i: "i < unat (ht_n_buckets t)" using Suc.hyps(2) by simp
  have "distinct (f i)" using hl.seq_distinct [OF hl.family_seq [OF fam]] i by simp
  moreover have "set (f i) \<inter> set (htab_nodes t f (Suc i)) = {}"
    using hl.family_disjoint [OF fam, of i] i by (fastforce simp: set_htab_nodes)
  moreover have "distinct (htab_nodes t f (Suc i))" using Suc.hyps(1) [of "Suc i"] Suc.hyps(2) by simp
  ultimately show ?case using htab_nodes_rec [of t f i] i by simp
qed

lemma elem_key_node: "ht_elems t a = Some e \<Longrightarrow> elem_key t a = Some (Ok (node_key t a))"
  by (simp add: elem_key_def node_key_def)

lemma find_first_elem_correct:
  assumes "htab_linked t f"
  shows "find_first_elem t i = Some (case htab_nodes t f i of [] \<Rightarrow> Err ENOENT | a # _ \<Rightarrow> Ok (node_key t a))"
proof (induction "unat (ht_n_buckets t) - i" arbitrary: i)
  case 0
  then show ?case by (subst find_first_elem.simps) (simp add: htab_nodes_def)
next
  case (Suc m)
  have i: "i < unat (ht_n_buckets t)" using Suc.hyps(2) by simp
  have sel: "select_bucket t (of_nat i) = i" using select_bucket_of_nat [OF _ i] assms by (simp add: htab_linked_def)
  have first: "hh_first (ht_lists t) i = (case f i of [] \<Rightarrow> None | x # _ \<Rightarrow> Some x)"
    using hl.seq_first [OF hl.family_seq [OF htab_linked_family [OF assms]]] i by simp
  have IH: "find_first_elem t (Suc i) = Some (case htab_nodes t f (Suc i) of [] \<Rightarrow> Err ENOENT | a # _ \<Rightarrow> Ok (node_key t a))"
    using Suc.hyps(1) [of "Suc i"] Suc.hyps(2) by simp
  show ?case
  proof (cases "f i")
    case Nil
    then show ?thesis using i sel first IH htab_nodes_rec [of t f i] by (subst find_first_elem.simps) simp
  next
    case (Cons a as)
    obtain e where "ht_elems t a = Some e" using htab_linked_dom [OF assms i] Cons by fastforce
    then show ?thesis using i sel first Cons htab_nodes_rec [of t f i] elem_key_node
      by (subst find_first_elem.simps) simp
  qed
qed

lemma next_in_split: "x \<notin> set us \<Longrightarrow> next_in (us @ x # vs) x = (case vs of [] \<Rightarrow> None | y # _ \<Rightarrow> Some y)"
  by (induction us) (auto split: list.splits)

lemma key_after_split:
  "x \<notin> set us \<Longrightarrow> key_after (us @ x # map g vs) x = (case vs of [] \<Rightarrow> Err ENOENT | y # _ \<Rightarrow> Ok (g y))"
  by (cases vs) (simp_all add: key_after_def next_in_split)

lemma htab_nodes_split: "b < unat (ht_n_buckets t) \<Longrightarrow> htab_nodes t f 0 = concat (map f [0 ..< b]) @ f b @ htab_nodes t f (Suc b)"
proof -
  assume b: "b < unat (ht_n_buckets t)"
  then have "[0 ..< unat (ht_n_buckets t)] = [0 ..< b] @ [b ..< unat (ht_n_buckets t)]"
    using upt_add_eq_append [of 0 b "unat (ht_n_buckets t) - b"] by simp
  then show ?thesis using htab_nodes_rec [of t f b] b by (simp add: htab_nodes_def)
qed

lemma htab_next_key_rep:
  assumes "htab_rep t M" and f: "htab_linked t f"
  defines "ks \<equiv> map (node_key t) (htab_nodes t f 0)"
  shows "distinct ks" and "set ks = dom M" and "length k = unat (ht_key_size t) \<Longrightarrow> htab_map_get_next_key t k = Some (key_after ks k)"
proof -
  have c: "htab_counted t" and m: "htab_content t M" using assms(1) by (auto simp: htab_rep_def)
  have nodes: "set (htab_nodes t f 0) = dom (ht_elems t)"
  proof (rule set_eqI)
    fix a
    have "(\<exists>b < unat (ht_n_buckets t). a \<in> set (f b)) \<longleftrightarrow> a \<in> dom (ht_elems t)" using f by (simp add: htab_linked_def)
    then show "a \<in> set (htab_nodes t f 0) \<longleftrightarrow> a \<in> dom (ht_elems t)" by (auto simp: set_htab_nodes)
  qed
  have inj: "inj_on (node_key t) (dom (ht_elems t))"
    using c unfolding inj_on_def htab_counted_def keys_unique_def node_key_def by (metis domD option.sel)
  show d: "distinct ks" using distinct_htab_nodes [OF f] nodes inj by (simp add: ks_def distinct_map)
  show dom: "set ks = dom M"
  proof (intro set_eqI iffI)
    fix k assume "k \<in> set ks"
    then show "k \<in> dom M" using htab_contentD [OF m] by (auto simp: ks_def nodes node_key_def)
  next
    fix k assume "k \<in> dom M"
    then obtain a e where "ht_elems t a = Some e" "he_key e = k" using m unfolding htab_content_def by blast
    then show "k \<in> set ks" by (force simp: ks_def nodes node_key_def)
  qed
  show "htab_map_get_next_key t k = Some (key_after ks k)" if k: "length k = unat (ht_key_size t)"
  proof (rule bucket_find [OF f k, of "ht_elems t"])
    assume find: "lookup_elem_raw (ht_lists t) (ht_elems t) (hh_first (ht_lists t) (select_bucket t (jhash k 0))) (jhash k 0) k (unat (ht_key_size t)) =
      Some (Ok None)" and none: "\<And>a e. ht_elems t a = Some e \<Longrightarrow> he_key e \<noteq> k"
    have "k \<notin> set ks" using none htab_content_None [OF m, of k] dom by blast
    then show ?thesis using find k find_first_elem_correct [OF f, of 0]
      by (auto simp: htab_map_get_next_key_def find_elem_eq key_after_def ks_def split: list.splits)
  next
    let ?b = "select_bucket t (jhash k 0)"
    fix a e assume find: "lookup_elem_raw (ht_lists t) (ht_elems t) (hh_first (ht_lists t) ?b) (jhash k 0) k (unat (ht_key_size t)) =
      Some (Ok (Some a))" and a: "ht_elems t a = Some e" and ke: "he_key e = k" and mem: "a \<in> set (f ?b)"
    have b: "?b < unat (ht_n_buckets t)" using select_bucket_less f by (auto simp: htab_linked_def)
    obtain xs ys where fb: "f ?b = xs @ a # ys" using mem by (meson split_list)
    have nk: "node_key t a = k" using a ke by (simp add: node_key_def)
    let ?us = "concat (map f [0 ..< ?b]) @ xs" and ?vs = "ys @ htab_nodes t f (Suc ?b)"
    have sp: "htab_nodes t f 0 = ?us @ a # ?vs" using htab_nodes_split [OF b, of f] fb by simp
    then have ks: "ks = map (node_key t) ?us @ k # map (node_key t) ?vs" using nk by (simp add: ks_def)
    then have after: "key_after ks k = (case ?vs of [] \<Rightarrow> Err ENOENT | y # _ \<Rightarrow> Ok (node_key t y))"
      using d key_after_split [of k "map (node_key t) ?us" "node_key t" ?vs] by simp
    have nxt: "hh_next (ht_lists t) a = (case ys of [] \<Rightarrow> None | y # _ \<Rightarrow> Some y)"
      using hl.seq_succ [of "ht_lists t" ?b xs a ys] hl.family_seq [OF htab_linked_family [OF f], of ?b] b fb by simp
    have hash: "unat (htab_map_hash k (ht_key_size t) AND (ht_n_buckets t - 1)) = ?b"
      using k by (simp add: htab_map_hash_def select_bucket_def)
    show ?thesis
    proof (cases ys)
      case Nil
      then show ?thesis using find k nxt hash after find_first_elem_correct [OF f, of "Suc ?b"]
        by (simp add: htab_map_get_next_key_def find_elem_eq)
    next
      case (Cons y ys')
      obtain e' where "ht_elems t y = Some e'" using htab_linked_dom [OF f b, of y] fb Cons by auto
      then show ?thesis using find k nxt after Cons elem_key_node by (simp add: htab_map_get_next_key_def find_elem_eq)
    qed
  qed simp
qed

interpretation htb: bpf_map_ops htab_rep "\<lambda>t. unat (ht_key_size t)" "\<lambda>t. unat (ht_value_size t)"
  htab_map_lookup_elem htab_map_update_elem htab_map_delete_elem htab_map_get_next_key
proof
  fix t M and k v :: "u8 list" and ok :: bool and flags :: u64
  assume rep: "htab_rep t M"
  show "\<exists>ks. distinct ks \<and> set ks = dom M \<and> (\<forall>k. length k = unat (ht_key_size t) \<longrightarrow> htab_map_get_next_key t k = Some (key_after ks k))"
    using htab_next_key_rep [OF rep] rep unfolding htab_rep_def by metis
  show "length k = unat (ht_key_size t) \<and> length v = unat (ht_value_size t)" if "M k = Some v"
    using that rep htab_linked_elem(2) unfolding htab_rep_def htab_content_def elem_ok_def by metis
  assume k: "length k = unat (ht_key_size t)"
  show "htab_map_lookup_elem t k = Some (Ok (M k))" using htab_lookup_rep [OF rep k] .
  show "\<exists>r m'. htab_map_delete_elem t k = Some (r, m') \<and> unat (ht_key_size m') = unat (ht_key_size t) \<and>
      unat (ht_value_size m') = unat (ht_value_size t) \<and>
      (r = Ok () \<and> M k \<noteq> None \<and> htab_rep m' (M(k := None)) \<or> (\<exists>e. r = Err e) \<and> htab_rep m' M)"
  proof (cases "M k = None")
    case True
    then have "M(k := None) = M" by (rule fun_upd_idem)
    then show ?thesis using htab_delete_rep [OF rep k] True by auto
  next
    case False
    then show ?thesis using htab_delete_rep [OF rep k] by auto
  qed
  assume v: "length v = unat (ht_value_size t)"
  show "\<exists>r m'. htab_map_update_elem ok t k v flags = Some (r, m') \<and> unat (ht_key_size m') = unat (ht_key_size t) \<and>
      unat (ht_value_size m') = unat (ht_value_size t) \<and>
      (r = Ok () \<and> htab_rep m' (M(k \<mapsto> v)) \<or> (\<exists>e. r = Err e) \<and> htab_rep m' M)"
    using htab_update_rep [OF rep k v, of ok flags] by (auto split: if_splits)
qed

section \<open>Creating and freeing a table\<close>

lemma init_buckets_hlist: "b < n \<Longrightarrow> hlist (init_buckets n h) b []"
  by (induction n) (auto simp: hlist_def INIT_HLIST_HEAD_def less_Suc_eq)

lemma ucast_pow2: "(ucast (2 ^ k :: u64) :: u32) = 2 ^ k"
  by (rule bit_word_eqI) (auto simp: bit_simps)

lemma unat_pow2_u32: "k < 32 \<Longrightarrow> unat (2 ^ k :: u32) = 2 ^ k"
proof -
  assume "k < 32"
  then have "(2 :: nat) ^ k < 2 ^ 32" by (rule power_strict_increasing) simp
  then have "unat (of_nat (2 ^ k) :: u32) = 2 ^ k" unfolding unat_of_nat by (intro mod_less) simp
  then show ?thesis by simp
qed

lemma htab_map_alloc_shape:
  assumes "htab_map_alloc ok1 ok2 ok3 h0 attr = Ok t"
  shows "shape_ok t" and "unat (ht_max_entries t) \<le> unat (ht_n_buckets t)"
proof -
  let ?m = "at_max_entries attr"
  have m: "?m \<noteq> 0" and n: "ht_n_buckets t = ucast (roundup_pow_of_two (ucast ?m))" "ht_n_buckets t \<noteq> 0" "ht_max_entries t = ?m"
    and b: "\<not> (ucast (ht_n_buckets t) :: u64) > U32_MAX div 8"
    using assms by (auto simp: htab_map_alloc_def Let_def split: if_splits)
  have "unat (ucast ?m :: u64) \<le> 2 ^ 32" using unat_u32_less [of ?m] by simp
  then obtain k where k: "k \<le> 32" "roundup_pow_of_two (ucast ?m) = 2 ^ k" "unat ?m \<le> 2 ^ k"
    using roundup_pow_of_two_correct [of "ucast ?m"] m by auto
  have nk: "ht_n_buckets t = 2 ^ k" using n(1) k(2) ucast_pow2 by simp
  have k32: "k < 32" using n(2) nk k(1) by (cases "k = 32") auto
  have "unat (ucast (ht_n_buckets t) :: u64) \<le> 536870911" using b by (simp add: not_less word_le_nat_alt)
  then have "2 ^ k \<le> (536870911 :: nat)" using nk k32 unat_pow2_u32 by simp
  then have "k \<le> 29" using power_increasing [of 30 k "2 :: nat"] by (cases "k \<le> 29") auto
  then show "shape_ok t" using nk by (auto simp: shape_ok_def)
  show "unat (ht_max_entries t) \<le> unat (ht_n_buckets t)" using n(3) nk k(3) unat_pow2_u32 [OF k32] by simp
qed

lemma htab_map_alloc_rep:
  assumes "htab_map_alloc ok1 ok2 ok3 h0 attr = Ok t"
  shows "htab_rep t Map.empty"
proof -
  have t: "ht_elems t = (\<lambda>_. None)" "ht_count t = 0" "ht_lists t = init_buckets (unat (ht_n_buckets t)) h0"
    using assms by (auto simp: htab_map_alloc_def Let_def split: if_splits)
  have "hl.family {..< unat (ht_n_buckets t)} (ht_lists t) (\<lambda>_. [])" using t(3) init_buckets_hlist by (simp add: hl.family_def)
  then have "htab_linked t (\<lambda>_. [])" using htab_map_alloc_shape(1) [OF assms] t(1) by (simp add: htab_linked_def)
  then show ?thesis using t by (auto simp: htab_rep_def htab_counted_def keys_unique_def htab_content_def)
qed

lemma delete_bucket_correct:
  assumes "htab_linked t f" and "htab_counted t" and "b < unat (ht_n_buckets t)"
  shows "\<exists>t'. delete_bucket (case f b of [] \<Rightarrow> None | x # _ \<Rightarrow> Some x) t = Some (Ok t') \<and>
    htab_linked t' (f(b := [])) \<and> htab_counted t' \<and> ht_n_buckets t' = ht_n_buckets t"
  using assms
proof (induction "f b" arbitrary: f t)
  case Nil
  then have "f(b := []) = f" by (metis fun_upd_idem)
  then show ?case using Nil by (auto simp: delete_bucket.simps)
next
  case (Cons a ys)
  obtain h where h: "hlist_del_rcu a (ht_lists t) = Ok h"
    and l: "htab_linked (t\<lparr>ht_lists := h, ht_elems := (ht_elems t)(a := None)\<rparr>) (f(b := ys))"
    using unlink_node [OF Cons.prems(1,3), of "[]" a ys] Cons.hyps(2) by auto
  obtain e where e: "ht_elems t a = Some e" using htab_linked_dom [OF Cons.prems(1,3)] Cons.hyps(2) by (metis list.set_intros(1))
  have nxt: "hh_next (ht_lists t) a = (case ys of [] \<Rightarrow> None | y # _ \<Rightarrow> Some y)"
    using hl.seq_succ [of "ht_lists t" b "[]" a ys] hl.family_seq [OF htab_linked_family [OF Cons.prems(1)], of b] Cons.prems(3) Cons.hyps(2) by simp
  let ?t = "kfree_elem a (t\<lparr>ht_lists := h, ht_count := ht_count t - 1\<rparr>)"
  have "?t = (t\<lparr>ht_lists := h, ht_elems := (ht_elems t)(a := None)\<rparr>)\<lparr>ht_count := ht_count t - 1\<rparr>" by (simp add: kfree_elem_def)
  then have l': "htab_linked ?t (f(b := ys))" using l by (simp only: htab_linked_count)
  have c': "htab_counted ?t" by (rule counted_delete [OF Cons.prems(2) e]) (simp_all add: kfree_elem_def)
  have "\<exists>t'. delete_bucket (case (f(b := ys)) b of [] \<Rightarrow> None | x # _ \<Rightarrow> Some x) ?t = Some (Ok t') \<and>
    htab_linked t' ((f(b := ys))(b := [])) \<and> htab_counted t' \<and> ht_n_buckets t' = ht_n_buckets ?t"
    by (rule Cons.hyps(1) [OF _ l' c']) (use Cons.prems(3) in \<open>simp_all add: kfree_elem_def\<close>)
  then show ?case using h nxt Cons.hyps(2) [symmetric]
    by (subst delete_bucket.simps) (auto simp: kfree_elem_def)
qed

lemma delete_buckets_correct:
  assumes "htab_linked t f" and "htab_counted t" and "set is \<subseteq> {..< unat (ht_n_buckets t)}"
  shows "\<exists>t'. delete_buckets is t = Some (Ok t') \<and> htab_linked t' (\<lambda>b. if b \<in> set is then [] else f b) \<and> htab_counted t' \<and>
    ht_n_buckets t' = ht_n_buckets t"
  using assms
proof (induction "is" arbitrary: t f)
  case Nil
  then show ?case by simp
next
  case (Cons i "is")
  have i: "i < unat (ht_n_buckets t)" using Cons.prems(3) by simp
  have first: "hh_first (ht_lists t) (select_bucket t (of_nat i)) = (case f i of [] \<Rightarrow> None | x # _ \<Rightarrow> Some x)"
    using hl.seq_first [OF hl.family_seq [OF htab_linked_family [OF Cons.prems(1)], of i]] i select_bucket_of_nat [OF _ i] Cons.prems(1)
    by (simp add: htab_linked_def)
  obtain t1 where t1: "delete_bucket (case f i of [] \<Rightarrow> None | x # _ \<Rightarrow> Some x) t = Some (Ok t1)"
    "htab_linked t1 (f(i := []))" "htab_counted t1" "ht_n_buckets t1 = ht_n_buckets t"
    using delete_bucket_correct [OF Cons.prems(1,2) i] by blast
  have "(\<lambda>b. if b \<in> set is then [] else (f(i := [])) b) = (\<lambda>b. if b \<in> set (i # is) then [] else f b)" by auto
  then show ?case using Cons.IH [OF t1(2,3)] t1 first Cons.prems(3) by simp
qed

lemma delete_all_correct:
  assumes "htab_rep t M"
  shows "\<exists>t'. delete_all_elements t = Some (Ok t') \<and> ht_elems t' = (\<lambda>_. None) \<and> ht_count t' = 0"
proof -
  obtain f where f: "htab_linked t f" "htab_counted t" using assms by (auto simp: htab_rep_def)
  obtain t' where t': "delete_all_elements t = Some (Ok t')" "htab_linked t' (\<lambda>b. if b \<in> {..< unat (ht_n_buckets t)} then [] else f b)"
    "htab_counted t'" "ht_n_buckets t' = ht_n_buckets t"
    using delete_buckets_correct [OF f, of "[0 ..< unat (ht_n_buckets t)]"] by (auto simp: delete_all_elements_def lessThan_atLeast0)
  have "a \<notin> dom (ht_elems t')" for a
  proof -
    have "a \<in> dom (ht_elems t') \<longleftrightarrow> (\<exists>b < unat (ht_n_buckets t'). a \<in> set (if b \<in> {..< unat (ht_n_buckets t)} then [] else f b))"
      using t'(2) by (simp add: htab_linked_def)
    then show ?thesis using t'(4) by auto
  qed
  then have e: "dom (ht_elems t') = {}" by blast
  then have "unat (ht_count t') = 0" using t'(3) by (simp add: htab_counted_def)
  then show ?thesis using t'(1) e by (auto simp: unat_eq_0 dom_def)
qed

section \<open>Properties\<close>

text \<open>Creating a hash map gives an empty map with a power-of-two number of buckets, at least as many as entries.\<close>

theorem htab_map_alloc_sound:
  assumes "htab_map_alloc ok1 ok2 ok3 h0 attr = Ok t"
  shows "htab_rep t Map.empty \<and> (\<exists>k. ht_n_buckets t = 2 ^ k) \<and> unat (ht_max_entries t) \<le> unat (ht_n_buckets t) \<and>
    (\<forall>key. length key = unat (ht_key_size t) \<longrightarrow> htab_map_lookup_elem t key = Some (Ok None))"
  using htab_map_alloc_rep [OF assms] htab_map_alloc_shape [OF assms] htab_lookup_rep by (auto simp: shape_ok_def)

definition ex_htab_attr :: bpf_attr where
  "ex_htab_attr = \<lparr>at_key_size = 2, at_value_size = 3, at_max_entries = 3\<rparr>"

definition ex_h0 :: hlist_heap where
  "ex_h0 = \<lparr>hh_first = (\<lambda>_. Some 7), hh_next = (\<lambda>_. None), hh_pprev = (\<lambda>_. PNull)\<rparr>"

lemma ex_htab: "\<exists>t. htab_map_alloc True True True ex_h0 ex_htab_attr = Ok t \<and> ht_key_size t = 2 \<and> ht_value_size t = 3 \<and>
    ht_max_entries t = 3 \<and> ht_count t = 0"
proof -
  have "is_ok (htab_map_alloc True True True ex_h0 ex_htab_attr)" by code_simp
  then obtain t where "htab_map_alloc True True True ex_h0 ex_htab_attr = Ok t" by (auto simp: is_ok_iff)
  then show ?thesis by (auto simp: htab_map_alloc_def ex_htab_attr_def Let_def split: if_splits)
qed

theorem htab_map_alloc_sound_witness:
  "\<exists>t. htab_map_alloc True True True ex_h0 ex_htab_attr = Ok t \<and> htab_map_lookup_elem t [1, 2] = Some (Ok None)"
  using ex_htab htab_map_alloc_sound [of True True True ex_h0 ex_htab_attr] by fastforce

text \<open>C18. The exact outcome of every update of a hash map: which error is returned under which condition, that an error leaves
  the map as it was, and that success stores the value and nothing else changes. The bucket lists, the element
  heap and the counter stay consistent on every path.\<close>

theorem htab_map_update_exact:
  assumes "htab_rep t M" and "length key = unat (ht_key_size t)" and "length val = unat (ht_value_size t)"
  shows "\<exists>r t'. htab_map_update_elem ok t key val flags = Some (r, t') \<and>
    r = (if flags > BPF_EXIST then Err EINVAL else if \<not> ok then Err ENOMEM
         else if M key = None \<and> ht_count t \<ge> ht_max_entries t then Err E2BIG
         else if M key \<noteq> None \<and> flags = BPF_NOEXIST then Err EEXIST
         else if M key = None \<and> flags = BPF_EXIST then Err ENOENT else Ok ()) \<and>
    htab_rep t' (if r = Ok () then M(key \<mapsto> val) else M)"
  using htab_update_rep [OF assms, of ok flags] by blast

theorem htab_map_update_exact_witness:
  "\<exists>t r t'. htab_map_alloc True True True ex_h0 ex_htab_attr = Ok t \<and>
     htab_map_update_elem True t [1, 2] [5, 6, 7] 0 = Some (r, t') \<and> r = Ok () \<and> htab_rep t' [[1, 2] \<mapsto> [5, 6, 7]]"
proof -
  obtain t where t: "htab_map_alloc True True True ex_h0 ex_htab_attr = Ok t" "ht_key_size t = 2" "ht_value_size t = 3"
    "ht_max_entries t = 3" "ht_count t = 0" using ex_htab by blast
  show ?thesis
    using htab_map_update_exact [OF htab_map_alloc_rep [OF t(1)], of "[1, 2]" "[5, 6, 7]" True 0] t by auto
qed

text \<open>Freeing a hash map ends, frees every element exactly once and leaves none behind.\<close>

theorem htab_free_complete:
  assumes "htab_rep t M"
  shows "\<exists>t'. delete_all_elements t = Some (Ok t') \<and> ht_elems t' = (\<lambda>_. None) \<and> ht_count t' = 0"
  using delete_all_correct [OF assms] .

theorem htab_free_complete_witness:
  "\<exists>t t'. htab_map_alloc True True True ex_h0 ex_htab_attr = Ok t \<and> delete_all_elements t = Some (Ok t') \<and> ht_count t' = 0"
  using ex_htab htab_free_complete [OF htab_map_alloc_rep] by blast

end
