(* ===== verification/Bpf_Syscall.thy ===== *)
theory Bpf_Syscall
  imports Bpf_Array Bpf_Htab
begin

text \<open>
  The map commands of the \<open>bpf\<close> system call, \<^verbatim>\<open>kernel/bpf/syscall.c\<close>: creating a map, charging its
  memory to the user, the file descriptors and reference counts that keep it alive, deferred
  freeing, and looking up, updating, deleting and enumerating elements from user space. A map is
  an array or a hash table; the calls go through the table of operations of its kind, which again fulfils
  the contract \<open>bpf_map_ops\<close>.
\<close>

section \<open>Dispatch to the implementation\<close>

datatype map_impl = Array bpf_array | Hash bpf_htab

fun ops_key_size :: "map_impl \<Rightarrow> u32" where
  "ops_key_size (Array a) = ar_key_size a"
| "ops_key_size (Hash t) = ht_key_size t"

fun ops_value_size :: "map_impl \<Rightarrow> u32" where
  "ops_value_size (Array a) = ar_value_size a"
| "ops_value_size (Hash t) = ht_value_size t"

fun ops_pages :: "map_impl \<Rightarrow> u32" where
  "ops_pages (Array a) = ar_pages a"
| "ops_pages (Hash t) = ht_pages t"

fun ops_lookup :: "map_impl \<Rightarrow> u8 list \<Rightarrow> u8 list option run" where
  "ops_lookup (Array a) key = Some (array_map_read a key)"
| "ops_lookup (Hash t) key = htab_map_lookup_elem t key"

fun ops_update :: "bool \<Rightarrow> map_impl \<Rightarrow> u8 list \<Rightarrow> u8 list \<Rightarrow> u64 \<Rightarrow> (unit result \<times> map_impl) option" where
  "ops_update ok (Array a) key value flags =
     (case settle a (array_map_update_elem a key value flags) of (r, a') \<Rightarrow> Some (r, Array a'))"
| "ops_update ok (Hash t) key value flags =
     map_option (map_prod id Hash) (htab_map_update_elem ok t key value flags)"

fun ops_delete :: "map_impl \<Rightarrow> u8 list \<Rightarrow> (unit result \<times> map_impl) option" where
  "ops_delete (Array a) key = Some (array_map_delete_elem a key, Array a)"
| "ops_delete (Hash t) key = map_option (map_prod id Hash) (htab_map_delete_elem t key)"

fun ops_get_next_key :: "map_impl \<Rightarrow> u8 list \<Rightarrow> u8 list run" where
  "ops_get_next_key (Array a) key = Some (array_map_get_next_key a key)"
| "ops_get_next_key (Hash t) key = htab_map_get_next_key t key"

text \<open>\<open>map_free\<close>: an array is one allocation; a hash table first deletes its elements.\<close>

fun ops_map_free :: "map_impl \<Rightarrow> unit run" where
  "ops_map_free (Array a) = Some (Ok ())"
| "ops_map_free (Hash t) = sbind (delete_all_elements t) (\<lambda>_. Some (Ok ()))"

fun impl_rep :: "map_impl \<Rightarrow> (u8 list \<rightharpoonup> u8 list) \<Rightarrow> bool" where
  "impl_rep (Array a) M = array_rep a M"
| "impl_rep (Hash t) M = htab_rep t M"

interpretation mp: bpf_map_ops impl_rep "\<lambda>m. unat (ops_key_size m)" "\<lambda>m. unat (ops_value_size m)"
  ops_lookup ops_update ops_delete ops_get_next_key
proof
  fix m M and k v :: "u8 list" and ok flags
  assume rep: "impl_rep m M"
  show "\<exists>ks. distinct ks \<and> set ks = dom M \<and> (\<forall>k. length k = unat (ops_key_size m) \<longrightarrow> ops_get_next_key m k = Some (key_after ks k))"
    using rep arr.next_key_rep htb.next_key_rep by (cases m) fastforce+
  show "length k = unat (ops_key_size m) \<and> length v = unat (ops_value_size m)" if "M k = Some v"
    using rep that arr.rep_keys htb.rep_keys by (cases m) auto
  assume k: "length k = unat (ops_key_size m)"
  show "ops_lookup m k = Some (Ok (M k))" using rep k arr.lookup_rep htb.lookup_rep by (cases m) auto
  show "\<exists>r m'. ops_delete m k = Some (r, m') \<and> unat (ops_key_size m') = unat (ops_key_size m) \<and>
      unat (ops_value_size m') = unat (ops_value_size m) \<and>
      (r = Ok () \<and> M k \<noteq> None \<and> impl_rep m' (M(k := None)) \<or> (\<exists>e. r = Err e) \<and> impl_rep m' M)"
    using rep k arr.delete_rep [of _ M k] htb.delete_rep [of _ M k] by (cases m) fastforce+
  assume v: "length v = unat (ops_value_size m)"
  show "\<exists>r m'. ops_update ok m k v flags = Some (r, m') \<and> unat (ops_key_size m') = unat (ops_key_size m) \<and>
      unat (ops_value_size m') = unat (ops_value_size m) \<and>
      (r = Ok () \<and> impl_rep m' (M(k \<mapsto> v)) \<or> (\<exists>e. r = Err e) \<and> impl_rep m' M)"
  proof (cases m)
    case (Array a)
    then show ?thesis using rep k v arr.update_rep [of a M k v flags] by (auto split: prod.splits)
  next
    case (Hash t)
    then show ?thesis using rep k v htb.update_rep [of t M k v ok flags] by auto
  qed
qed

lemma ops_map_free_total: "impl_rep m M \<Longrightarrow> ops_map_free m = Some (Ok ())"
  using delete_all_correct by (cases m) fastforce+

section \<open>Maps, files and users\<close>

datatype bpf_file = MapFile nat | ProgFile nat | OtherFile

record kmap =
  km_impl :: map_impl
  km_refcnt :: int
  km_usercnt :: int
  km_user :: nat

record bpf_sys =
  maps :: "nat \<Rightarrow> kmap option"
  map_next :: nat
  fds :: "nat \<Rightarrow> bpf_file option"
  locked_vm :: "nat \<Rightarrow> int" \<comment> \<open>pages charged to each user\<close>
  uid_refs :: "nat \<Rightarrow> int"
  work :: "nat list" \<comment> \<open>maps whose deferred freeing is scheduled\<close>

definition upd_map :: "nat \<Rightarrow> (kmap \<Rightarrow> kmap) \<Rightarrow> bpf_sys \<Rightarrow> bpf_sys" where
  "upd_map m f s = s\<lparr>maps := (maps s)(m := map_option f (maps s m))\<rparr>"

datatype map_type = BPF_MAP_TYPE_HASH | BPF_MAP_TYPE_ARRAY | BPF_MAP_TYPE_UNKNOWN

text \<open>\<open>oks\<close> are the outcomes of the allocations of the implementation, \<open>h0\<close> the memory the buckets are placed in.\<close>

definition find_and_alloc_map :: "map_type \<Rightarrow> bool list \<Rightarrow> hlist_heap \<Rightarrow> bpf_attr \<Rightarrow> map_impl result" where
  "find_and_alloc_map type oks h0 attr =
     (case type of
        BPF_MAP_TYPE_HASH \<Rightarrow> rbind (htab_map_alloc (oks ! 0) (oks ! 1) (oks ! 2) h0 attr) (\<lambda>t. Ok (Hash t))
      | BPF_MAP_TYPE_ARRAY \<Rightarrow> rbind (array_map_alloc (oks ! 0) (oks ! 1) attr) (\<lambda>a. Ok (Array a))
      | BPF_MAP_TYPE_UNKNOWN \<Rightarrow> Err EINVAL)"

text \<open>\<open>atomic_long_read(&user->locked_vm) > memlock_limit\<close>: the account is signed, the limit is not, so both are compared as
  unsigned numbers.\<close>

definition over_limit :: "int \<Rightarrow> u64 \<Rightarrow> bool" where
  "over_limit locked memlock_limit \<longleftrightarrow> of_int locked > memlock_limit"

definition bpf_map_charge_memlock :: "nat \<Rightarrow> u64 \<Rightarrow> nat \<Rightarrow> bpf_sys \<Rightarrow> unit result \<times> bpf_sys" where
  "bpf_map_charge_memlock user memlock_limit m s =
     (case maps s m of None \<Rightarrow> (Undef BadMem, s)
      | Some km \<Rightarrow>
          (let pages = uint (ops_pages (km_impl km));
               s = s\<lparr>uid_refs := (uid_refs s)(user := uid_refs s user + 1),
                      locked_vm := (locked_vm s)(user := locked_vm s user + pages)\<rparr> in
           if over_limit (locked_vm s user) memlock_limit
           then (Err EPERM, s\<lparr>locked_vm := (locked_vm s)(user := locked_vm s user - pages),
                               uid_refs := (uid_refs s)(user := uid_refs s user - 1)\<rparr>)
           else (Ok (), upd_map m (\<lambda>k. k\<lparr>km_user := user\<rparr>) s)))"

definition bpf_map_uncharge_memlock :: "nat \<Rightarrow> bpf_sys \<Rightarrow> bpf_sys result" where
  "bpf_map_uncharge_memlock m s =
     (case maps s m of None \<Rightarrow> Undef BadMem
      | Some km \<Rightarrow>
          (let user = km_user km in
           Ok (s\<lparr>locked_vm := (locked_vm s)(user := locked_vm s user - uint (ops_pages (km_impl km))),
                  uid_refs := (uid_refs s)(user := uid_refs s user - 1)\<rparr>)))"

text \<open>\<open>map->ops->map_free(map)\<close>\<close>

definition map_free :: "nat \<Rightarrow> bpf_sys \<Rightarrow> bpf_sys run" where
  "map_free m s =
     (case maps s m of None \<Rightarrow> Some (Undef BadMem)
      | Some km \<Rightarrow> sbind (ops_map_free (km_impl km)) (\<lambda>_. Some (Ok (s\<lparr>maps := (maps s)(m := None)\<rparr>))))"

definition bpf_map_free_deferred :: "nat \<Rightarrow> bpf_sys \<Rightarrow> bpf_sys run" where
  "bpf_map_free_deferred m s = sbind (Some (bpf_map_uncharge_memlock m s)) (map_free m)"

text \<open>For the two kinds of maps of this model the last user reference has no further effect.\<close>

definition bpf_map_put_uref :: "nat \<Rightarrow> bpf_sys \<Rightarrow> bpf_sys" where
  "bpf_map_put_uref m s = upd_map m (\<lambda>k. k\<lparr>km_usercnt := km_usercnt k - 1\<rparr>) s"

definition bpf_map_put :: "nat \<Rightarrow> bpf_sys \<Rightarrow> bpf_sys result" where
  "bpf_map_put m s =
     (case maps s m of None \<Rightarrow> Undef BadMem
      | Some km \<Rightarrow>
          (let s = upd_map m (\<lambda>k. k\<lparr>km_refcnt := km_refcnt k - 1\<rparr>) s in
           if km_refcnt km - 1 = 0 then Ok (s\<lparr>work := m # work s\<rparr>) else Ok s))"

definition bpf_map_put_with_uref :: "nat \<Rightarrow> bpf_sys \<Rightarrow> bpf_sys result" where
  "bpf_map_put_with_uref m s = bpf_map_put m (bpf_map_put_uref m s)"

text \<open>Closing a file descriptor of a map (\<open>bpf_map_release\<close>).\<close>

definition bpf_map_release :: "nat \<Rightarrow> bpf_sys \<Rightarrow> bpf_sys result" where
  "bpf_map_release fd s =
     (case fds s fd of Some (MapFile m) \<Rightarrow> bpf_map_put_with_uref m (s\<lparr>fds := (fds s)(fd := None)\<rparr>) | _ \<Rightarrow> Err EBADF)"

text \<open>\<open>fd_res\<close> is the outcome of \<open>anon_inode_getfd\<close>: a free descriptor, or an error.\<close>

definition bpf_map_new_fd :: "nat result \<Rightarrow> nat \<Rightarrow> bpf_sys \<Rightarrow> nat result \<times> bpf_sys" where
  "bpf_map_new_fd fd_res m s =
     (case fd_res of Ok fd \<Rightarrow> (Ok fd, s\<lparr>fds := (fds s)(fd \<mapsto> MapFile m)\<rparr>) | r \<Rightarrow> (r, s))"

text \<open>\<open>attr_bad\<close> is \<open>CHECK_ATTR\<close>: whether an unused field of the attributes is set.\<close>

definition map_create ::
  "bool \<Rightarrow> map_type \<Rightarrow> bool list \<Rightarrow> hlist_heap \<Rightarrow> nat \<Rightarrow> u64 \<Rightarrow> nat result \<Rightarrow> bpf_attr \<Rightarrow> bpf_sys \<Rightarrow> (nat result \<times> bpf_sys) option" where
  "map_create attr_bad type oks h0 user memlock_limit fd_res attr s =
     (if attr_bad then Some (Err EINVAL, s)
      else
        (case find_and_alloc_map type oks h0 attr of
           Err e \<Rightarrow> Some (Err e, s)
         | Undef u \<Rightarrow> Some (Undef u, s)
         | Ok impl \<Rightarrow>
             (let m = map_next s;
                  s = s\<lparr>maps := (maps s)(m \<mapsto> \<lparr>km_impl = impl, km_refcnt = 1, km_usercnt = 1, km_user = 0\<rparr>),
                         map_next := Suc m\<rparr>;
                  free_map = (\<lambda>err s. case map_free m s of
                      None \<Rightarrow> None | Some (Ok s) \<Rightarrow> Some (err, s) | Some (Err e) \<Rightarrow> Some (Err e, s) | Some (Undef u) \<Rightarrow> Some (Undef u, s))
              in case bpf_map_charge_memlock user memlock_limit m s of
                   (Err e, s) \<Rightarrow> free_map (Err e) s
                 | (Undef u, s) \<Rightarrow> Some (Undef u, s)
                 | (Ok _, s) \<Rightarrow>
                     (case bpf_map_new_fd fd_res m s of
                        (Ok fd, s) \<Rightarrow> Some (Ok fd, s)
                      | (err, s) \<Rightarrow> free_map err s))))"

section \<open>Element commands\<close>

definition bpf_map_get :: "nat \<Rightarrow> bpf_sys \<Rightarrow> nat result" where \<comment> \<open>\<open>__bpf_map_get\<close>\<close>
  "bpf_map_get ufd s = (case fds s ufd of None \<Rightarrow> Err EBADF | Some (MapFile m) \<Rightarrow> Ok m | Some _ \<Rightarrow> Err EINVAL)"

definition bpf_map_inc :: "nat \<Rightarrow> bool \<Rightarrow> bpf_sys \<Rightarrow> bpf_sys" where
  "bpf_map_inc m uref s =
     upd_map m (\<lambda>k. k\<lparr>km_refcnt := km_refcnt k + 1, km_usercnt := (if uref then km_usercnt k + 1 else km_usercnt k)\<rparr>) s"

definition bpf_map_get_with_uref :: "nat \<Rightarrow> bpf_sys \<Rightarrow> (nat \<times> bpf_sys) result" where
  "bpf_map_get_with_uref ufd s = rbind (bpf_map_get ufd s) (\<lambda>m. Ok (m, bpf_map_inc m True s))"

text \<open>
  User memory: \<open>ukey n\<close> are the \<open>n\<close> bytes at the pointer user space passed, or nothing where
  they cannot be read. \<open>ok1\<close> and \<open>ok2\<close> are the two temporary allocations; \<open>put_ok\<close> tells whether the
  result can be written back.
\<close>

definition map_lookup_elem ::
  "bool \<Rightarrow> nat \<Rightarrow> bool \<Rightarrow> bool \<Rightarrow> (nat \<Rightarrow> u8 list option) \<Rightarrow> bool \<Rightarrow> bpf_sys \<Rightarrow> u8 list run" where
  "map_lookup_elem attr_bad ufd ok1 ok2 ukey put_ok s =
     (if attr_bad then Some (Err EINVAL)
      else
        sbind (Some (bpf_map_get ufd s)) (\<lambda>m.
        case maps s m of None \<Rightarrow> Some (Undef BadMem)
        | Some km \<Rightarrow>
            (if \<not> ok1 then Some (Err ENOMEM)
             else case ukey (unat (ops_key_size (km_impl km))) of None \<Rightarrow> Some (Err EFAULT)
             | Some key \<Rightarrow>
                 (if \<not> ok2 then Some (Err ENOMEM)
                  else sbind (ops_lookup (km_impl km) key) (\<lambda>ptr.
                    case ptr of None \<Rightarrow> Some (Err ENOENT)
                    | Some value \<Rightarrow> if put_ok then Some (Ok value) else Some (Err EFAULT))))))"

definition set_impl :: "nat \<Rightarrow> map_impl \<Rightarrow> bpf_sys \<Rightarrow> bpf_sys" where
  "set_impl m impl s = upd_map m (\<lambda>k. k\<lparr>km_impl := impl\<rparr>) s"

definition map_update_elem ::
  "bool \<Rightarrow> nat \<Rightarrow> bool \<Rightarrow> bool \<Rightarrow> bool \<Rightarrow> (nat \<Rightarrow> u8 list option) \<Rightarrow> (nat \<Rightarrow> u8 list option) \<Rightarrow> u64 \<Rightarrow> bpf_sys \<Rightarrow> (unit result \<times> bpf_sys) option" where
  "map_update_elem attr_bad ufd ok1 ok2 ok3 ukey uvalue flags s =
     (if attr_bad then Some (Err EINVAL, s)
      else case bpf_map_get ufd s of
        Err e \<Rightarrow> Some (Err e, s)
      | Undef u \<Rightarrow> Some (Undef u, s)
      | Ok m \<Rightarrow>
          (case maps s m of None \<Rightarrow> Some (Undef BadMem, s)
           | Some km \<Rightarrow>
               (if \<not> ok1 then Some (Err ENOMEM, s)
                else case ukey (unat (ops_key_size (km_impl km))) of None \<Rightarrow> Some (Err EFAULT, s)
                | Some key \<Rightarrow>
                    (if \<not> ok2 then Some (Err ENOMEM, s)
                     else case uvalue (unat (ops_value_size (km_impl km))) of None \<Rightarrow> Some (Err EFAULT, s)
                     | Some value \<Rightarrow>
                         map_option (\<lambda>(r, impl). (r, set_impl m impl s)) (ops_update ok3 (km_impl km) key value flags)))))"

definition map_delete_elem :: "bool \<Rightarrow> nat \<Rightarrow> bool \<Rightarrow> (nat \<Rightarrow> u8 list option) \<Rightarrow> bpf_sys \<Rightarrow> (unit result \<times> bpf_sys) option" where
  "map_delete_elem attr_bad ufd ok1 ukey s =
     (if attr_bad then Some (Err EINVAL, s)
      else case bpf_map_get ufd s of
        Err e \<Rightarrow> Some (Err e, s)
      | Undef u \<Rightarrow> Some (Undef u, s)
      | Ok m \<Rightarrow>
          (case maps s m of None \<Rightarrow> Some (Undef BadMem, s)
           | Some km \<Rightarrow>
               (if \<not> ok1 then Some (Err ENOMEM, s)
                else case ukey (unat (ops_key_size (km_impl km))) of None \<Rightarrow> Some (Err EFAULT, s)
                | Some key \<Rightarrow> map_option (\<lambda>(r, impl). (r, set_impl m impl s)) (ops_delete (km_impl km) key))))"

definition map_get_next_key ::
  "bool \<Rightarrow> nat \<Rightarrow> bool \<Rightarrow> bool \<Rightarrow> (nat \<Rightarrow> u8 list option) \<Rightarrow> bool \<Rightarrow> bpf_sys \<Rightarrow> u8 list run" where
  "map_get_next_key attr_bad ufd ok1 ok2 ukey put_ok s =
     (if attr_bad then Some (Err EINVAL)
      else
        sbind (Some (bpf_map_get ufd s)) (\<lambda>m.
        case maps s m of None \<Rightarrow> Some (Undef BadMem)
        | Some km \<Rightarrow>
            (if \<not> ok1 then Some (Err ENOMEM)
             else case ukey (unat (ops_key_size (km_impl km))) of None \<Rightarrow> Some (Err EFAULT)
             | Some key \<Rightarrow>
                 (if \<not> ok2 then Some (Err ENOMEM)
                  else sbind (ops_get_next_key (km_impl km) key) (\<lambda>next_key.
                    if put_ok then Some (Ok next_key) else Some (Err EFAULT))))))"

section \<open>The life of a map\<close>

text \<open>
  Besides file descriptors, others hold references: \<open>held True\<close> counts those that are also user references (a pinned map),
  \<open>held False\<close> those that are not (a program). Deferred freeing runs some time after it was scheduled.
\<close>

type_synonym holders = "bool \<Rightarrow> nat \<Rightarrow> nat"

definition hold :: "bool \<Rightarrow> nat \<Rightarrow> holders \<Rightarrow> holders" where
  "hold b m held = held(b := (held b)(m := held b m + 1))"

definition drop_hold :: "bool \<Rightarrow> nat \<Rightarrow> holders \<Rightarrow> holders" where
  "drop_hold b m held = held(b := (held b)(m := held b m - 1))"

inductive map_step :: "holders \<times> bpf_sys \<Rightarrow> holders \<times> bpf_sys \<Rightarrow> bool" where
  create: "map_create attr_bad type oks h0 user limit fd_res attr s = Some (r, s') \<Longrightarrow>
    (\<And>fd. fd_res = Ok fd \<Longrightarrow> fds s fd = None) \<Longrightarrow> (\<And>u. fd_res \<noteq> Undef u) \<Longrightarrow> map_step (held, s) (held, s')"
| get: "bpf_map_get_with_uref ufd s = Ok (m, s') \<Longrightarrow> map_step (held, s) (hold True m held, s')"
| put: "0 < held True m \<Longrightarrow> bpf_map_put_with_uref m s = Ok s' \<Longrightarrow> map_step (held, s) (drop_hold True m held, s')"
| get_ref: "bpf_map_get ufd s = Ok m \<Longrightarrow> map_step (held, s) (hold False m held, bpf_map_inc m False s)"
| put_ref: "0 < held False m \<Longrightarrow> bpf_map_put m s = Ok s' \<Longrightarrow> map_step (held, s) (drop_hold False m held, s')"
| close: "bpf_map_release fd s = Ok s' \<Longrightarrow> map_step (held, s) (held, s')"
| update: "map_update_elem attr_bad ufd ok1 ok2 ok3 ukey uvalue flags s = Some (r, s') \<Longrightarrow>
    (\<And>n bs. ukey n = Some bs \<Longrightarrow> length bs = n) \<Longrightarrow> (\<And>n bs. uvalue n = Some bs \<Longrightarrow> length bs = n) \<Longrightarrow> map_step (held, s) (held, s')"
| delete: "map_delete_elem attr_bad ufd ok1 ukey s = Some (r, s') \<Longrightarrow> (\<And>n bs. ukey n = Some bs \<Longrightarrow> length bs = n) \<Longrightarrow>
    map_step (held, s) (held, s')"
| free: "work s = xs @ m # ys \<Longrightarrow> bpf_map_free_deferred m (s\<lparr>work := xs @ ys\<rparr>) = Some (Ok s') \<Longrightarrow> map_step (held, s) (held, s')"

definition fdset :: "bpf_sys \<Rightarrow> nat \<Rightarrow> nat set" where
  "fdset s m = {fd. fds s fd = Some (MapFile m)}"

lemma fdset_indep [simp]:
  "fdset (s\<lparr>maps := a\<rparr>) = fdset s" "fdset (s\<lparr>work := b\<rparr>) = fdset s" "fdset (s\<lparr>locked_vm := c\<rparr>) = fdset s"
  "fdset (s\<lparr>uid_refs := d\<rparr>) = fdset s" "fdset (s\<lparr>map_next := e\<rparr>) = fdset s"
  by (simp_all add: fdset_def fun_eq_iff)

definition map_ok :: "holders \<Rightarrow> bpf_sys \<Rightarrow> nat \<Rightarrow> bool" where
  "map_ok held s m \<longleftrightarrow> finite (fdset s m) \<and>
     (case maps s m of
        None \<Rightarrow> fdset s m = {} \<and> held True m = 0 \<and> held False m = 0 \<and> m \<notin> set (work s)
      | Some km \<Rightarrow> m < map_next s \<and> (\<exists>M. impl_rep (km_impl km) M) \<and>
          km_usercnt km = int (card (fdset s m)) + int (held True m) \<and> km_refcnt km = km_usercnt km + int (held False m) \<and>
          (km_refcnt km = 0 \<longleftrightarrow> m \<in> set (work s)))"

definition sys_ok :: "holders \<Rightarrow> bpf_sys \<Rightarrow> bool" where
  "sys_ok held s \<longleftrightarrow> (\<forall>m. map_ok held s m) \<and> distinct (work s)"

lemma sys_okI: "(\<And>m. map_ok held s m) \<Longrightarrow> distinct (work s) \<Longrightarrow> sys_ok held s"
  by (simp add: sys_ok_def)

lemma map_ok_cong:
  "fdset s' m = fdset s m \<Longrightarrow> maps s' m = maps s m \<Longrightarrow> (\<And>b. held' b m = held b m) \<Longrightarrow> (m \<in> set (work s') \<longleftrightarrow> m \<in> set (work s)) \<Longrightarrow>
    map_next s \<le> map_next s' \<Longrightarrow> map_ok held s m \<Longrightarrow> map_ok held' s' m"
  by (auto simp: map_ok_def split: option.splits)

lemma sys_ok_fd: "sys_ok held s \<Longrightarrow> fds s fd = Some (MapFile m) \<Longrightarrow> \<exists>km. maps s m = Some km \<and> 0 < km_refcnt km \<and> (\<exists>M. impl_rep (km_impl km) M)"
proof -
  assume a: "sys_ok held s" "fds s fd = Some (MapFile m)"
  then have fd: "fd \<in> fdset s m" by (simp add: fdset_def)
  have ok: "map_ok held s m" using a(1) by (simp add: sys_ok_def)
  then obtain km where km: "maps s m = Some km" using fd by (cases "maps s m") (auto simp: map_ok_def)
  have "0 < card (fdset s m)" using ok fd by (auto simp: map_ok_def card_gt_0_iff)
  then show ?thesis using ok km by (auto simp: map_ok_def)
qed

lemma find_and_alloc_map_rep: "find_and_alloc_map type oks h0 attr = Ok impl \<Longrightarrow> \<exists>M. impl_rep impl M"
  using array_map_alloc_ok htab_map_alloc_rep
  by (cases type) (fastforce simp: find_and_alloc_map_def array_rep_def)+

text \<open>Giving up a reference, with or without a user reference.\<close>

lemma bpf_map_put_sys_ok:
  assumes "sys_ok held s" and "bpf_map_put m (if uref then bpf_map_put_uref m s' else s') = Ok s''"
    and "maps s' = maps s" and "work s' = work s" and "map_next s' = map_next s"
    and "\<And>n b. n \<noteq> m \<Longrightarrow> fdset s' n = fdset s n \<and> held' b n = held b n" and "finite (fdset s' m)"
    and "card (fdset s' m) + held' True m + (if uref then 1 else 0) = card (fdset s m) + held True m"
    and "held' False m + (if uref then 0 else 1) = held False m"
  shows "sys_ok held' s''"
proof -
  have ok: "map_ok held s m" and d: "distinct (work s)" using assms(1) by (auto simp: sys_ok_def)
  obtain km where km: "maps s m = Some km" using ok assms(8,9) by (cases "maps s m") (auto simp: map_ok_def split: if_splits)
  let ?d = "if uref then 1 else 0 :: int"
  have r: "km_usercnt km - ?d = int (card (fdset s' m)) + int (held' True m)" "m < map_next s" "\<exists>M. impl_rep (km_impl km) M"
      "km_refcnt km - 1 = km_usercnt km - ?d + int (held' False m)" "m \<notin> set (work s)"
    using ok km assms(8,9) by (auto simp: map_ok_def split: if_splits)
  let ?k = "km\<lparr>km_usercnt := km_usercnt km - ?d, km_refcnt := km_refcnt km - 1\<rparr>"
  have s'': "s'' = s'\<lparr>maps := (maps s')(m \<mapsto> ?k), work := (if km_refcnt km - 1 = 0 then m # work s else work s)\<rparr>"
    using assms(2) km assms(3,4) by (auto simp: bpf_map_put_def bpf_map_put_uref_def upd_map_def Let_def split: if_splits)
  have f: "fdset s'' n = fdset s' n" for n by (simp add: s'')
  show ?thesis
  proof (rule sys_okI)
    fix n
    have okn: "map_ok held s n" using assms(1) by (simp add: sys_ok_def)
    show "map_ok held' s'' n"
    proof (cases "n = m")
      case True
      then show ?thesis using r assms(5,7) by (auto simp: map_ok_def f s'')
    next
      case False
      then show ?thesis using assms(3,5,6) f by (intro map_ok_cong [OF _ _ _ _ _ okn]) (auto simp: s'')
    qed
  qed (use r(5) d in \<open>simp add: s''\<close>)
qed

lemma close_sys_ok:
  assumes "sys_ok held s" and "bpf_map_release fd s = Ok s'"
  shows "sys_ok held s'"
proof -
  obtain m where m: "fds s fd = Some (MapFile m)" and p: "bpf_map_put_with_uref m (s\<lparr>fds := (fds s)(fd := None)\<rparr>) = Ok s'"
    using assms(2) by (auto simp: bpf_map_release_def split: option.splits bpf_file.splits)
  have fin: "finite (fdset s m)" using assms(1) by (simp add: sys_ok_def map_ok_def)
  have f: "fdset (s\<lparr>fds := (fds s)(fd := None)\<rparr>) n = fdset s n - (if n = m then {fd} else {})" for n
    using m by (auto simp: fdset_def)
  have "fd \<in> fdset s m" using m by (simp add: fdset_def)
  then have "card (fdset s m - {fd}) + 1 = card (fdset s m)" using fin by (metis Suc_eq_plus1 card_Suc_Diff1)
  then show ?thesis using fin f p
    by (intro bpf_map_put_sys_ok [OF assms(1), where uref = True and m = m and s' = "s\<lparr>fds := (fds s)(fd := None)\<rparr>"])
      (auto simp: bpf_map_put_with_uref_def)
qed

lemma put_sys_ok:
  assumes "sys_ok held s" and "bpf_map_put m (if uref then bpf_map_put_uref m s else s) = Ok s'" and "0 < held uref m"
  shows "sys_ok (drop_hold uref m held) s'"
  using assms(1,3) by (intro bpf_map_put_sys_ok [OF assms(1,2)]) (auto simp: sys_ok_def map_ok_def drop_hold_def)

text \<open>Replacing the contents of a live map.\<close>

lemma set_impl_sys_ok:
  assumes "sys_ok held s" and "maps s m = Some km" and "impl_rep impl M"
  shows "sys_ok held (set_impl m impl s)"
proof (rule sys_okI)
  fix n
  have "map_ok held s n" using assms(1) by (simp add: sys_ok_def)
  then show "map_ok held (set_impl m impl s) n"
    using assms(2,3) by (cases "n = m") (auto simp: map_ok_def set_impl_def upd_map_def split: option.splits)
qed (use assms(1) in \<open>simp add: sys_ok_def set_impl_def upd_map_def\<close>)

lemma inc_sys_ok:
  assumes "sys_ok held s" and "maps s m = Some km" and "0 < km_refcnt km"
  shows "sys_ok (hold uref m held) (bpf_map_inc m uref s)"
proof (rule sys_okI)
  fix n
  have "map_ok held s n" using assms(1) by (simp add: sys_ok_def)
  then show "map_ok (hold uref m held) (bpf_map_inc m uref s) n"
    using assms(2,3) by (cases "n = m"; cases uref) (auto simp: map_ok_def hold_def bpf_map_inc_def upd_map_def split: option.splits)
qed (use assms(1) in \<open>simp add: sys_ok_def bpf_map_inc_def upd_map_def\<close>)

lemma get_sys_ok:
  assumes "sys_ok held s" and "bpf_map_get ufd s = Ok m"
  shows "sys_ok (hold uref m held) (bpf_map_inc m uref s)"
proof -
  have "fds s ufd = Some (MapFile m)" using assms(2) by (auto simp: bpf_map_get_def split: option.splits bpf_file.splits)
  then show ?thesis using sys_ok_fd [OF assms(1)] inc_sys_ok [OF assms(1)] by blast
qed

lemma update_sys_ok:
  assumes "sys_ok held s" and "map_update_elem attr_bad ufd ok1 ok2 ok3 ukey uvalue flags s = Some (r, s')"
    and "\<And>n bs. ukey n = Some bs \<Longrightarrow> length bs = n" and "\<And>n bs. uvalue n = Some bs \<Longrightarrow> length bs = n"
  shows "sys_ok held s'"
proof (cases "s' = s")
  case False
  then obtain m km key val r' impl where m: "maps s m = Some km" "ukey (unat (ops_key_size (km_impl km))) = Some key"
      "uvalue (unat (ops_value_size (km_impl km))) = Some val"
      "ops_update ok3 (km_impl km) key val flags = Some (r', impl)" "s' = set_impl m impl s"
    using assms(2) by (auto simp: map_update_elem_def split: if_splits result.splits option.splits)
  obtain M where "impl_rep (km_impl km) M" using assms(1) m(1) by (fastforce simp: sys_ok_def map_ok_def split: option.splits)
  then obtain M' where "impl_rep impl M'" using mp.update_rep [of "km_impl km" M key val ok3 flags] m(4) assms(3) [OF m(2)] assms(4) [OF m(3)] by auto
  then show ?thesis using set_impl_sys_ok [OF assms(1) m(1)] m(5) by blast
qed (use assms(1) in simp)

lemma delete_sys_ok:
  assumes "sys_ok held s" and "map_delete_elem attr_bad ufd ok1 ukey s = Some (r, s')" and "\<And>n bs. ukey n = Some bs \<Longrightarrow> length bs = n"
  shows "sys_ok held s'"
proof (cases "s' = s")
  case False
  then obtain m km key r' impl where m: "maps s m = Some km" "ukey (unat (ops_key_size (km_impl km))) = Some key"
      "ops_delete (km_impl km) key = Some (r', impl)" "s' = set_impl m impl s"
    using assms(2) by (auto simp: map_delete_elem_def split: if_splits result.splits option.splits)
  obtain M where "impl_rep (km_impl km) M" using assms(1) m(1) by (fastforce simp: sys_ok_def map_ok_def split: option.splits)
  then obtain M' where "impl_rep impl M'" using mp.delete_rep [of "km_impl km" M key] m(3) assms(3) [OF m(2)] by auto
  then show ?thesis using set_impl_sys_ok [OF assms(1) m(1)] m(4) by blast
qed (use assms(1) in simp)

text \<open>Creating a map: on success the new map has one reference, its descriptor; on failure the object is gone.\<close>

lemma map_create_cases:
  assumes "sys_ok held s" and "map_create attr_bad type oks h0 user limit fd_res attr s = Some (r, s')"
    and "\<And>u. fd_res \<noteq> Undef u"
  obtains (same) e where "r = Err e" and "s' = s"
  | (denied) impl where "r = Err EPERM" and "find_and_alloc_map type oks h0 attr = Ok impl" and "over_limit (locked_vm s user + uint (ops_pages impl)) limit"
      and "maps s' = (maps s)(map_next s := None)" and "map_next s' = Suc (map_next s)"
      and "fds s' = fds s" and "work s' = work s" and "locked_vm s' = locked_vm s" and "uid_refs s' = uid_refs s"
  | (no_fd) impl e where "r = Err e" and "fd_res = Err e" and "find_and_alloc_map type oks h0 attr = Ok impl"
      and "maps s' = (maps s)(map_next s := None)" and "map_next s' = Suc (map_next s)"
      and "fds s' = fds s" and "work s' = work s" and "locked_vm s' = (locked_vm s)(user := locked_vm s user + uint (ops_pages impl))"
      and "uid_refs s' = (uid_refs s)(user := uid_refs s user + 1)"
  | (created) fd impl where "r = Ok fd" and "fd_res = Ok fd" and "find_and_alloc_map type oks h0 attr = Ok impl"
      and "maps s' = (maps s)(map_next s \<mapsto> \<lparr>km_impl = impl, km_refcnt = 1, km_usercnt = 1, km_user = user\<rparr>)" and "map_next s' = Suc (map_next s)"
      and "fds s' = (fds s)(fd \<mapsto> MapFile (map_next s))" and "work s' = work s"
      and "locked_vm s' = (locked_vm s)(user := locked_vm s user + uint (ops_pages impl))"
      and "uid_refs s' = (uid_refs s)(user := uid_refs s user + 1)"
proof -
  consider (bad) attr_bad | (err) e where "\<not> attr_bad" "find_and_alloc_map type oks h0 attr = Err e"
    | (undef) u where "find_and_alloc_map type oks h0 attr = Undef u"
    | (ok) impl where "\<not> attr_bad" "find_and_alloc_map type oks h0 attr = Ok impl"
    by (cases attr_bad; cases "find_and_alloc_map type oks h0 attr") auto
  then show thesis
  proof cases
    case bad
    then show thesis using assms(2) by (intro same [of EINVAL]) (auto simp: map_create_def)
  next
    case err
    then show thesis using assms(2) by (intro same [of e]) (auto simp: map_create_def)
  next
    case undef
    then have False by (cases type) (auto simp: find_and_alloc_map_def array_map_alloc_def htab_map_alloc_def Let_def split: if_splits)
    then show thesis ..
  next
    case ok
    have free: "ops_map_free impl = Some (Ok ())" using find_and_alloc_map_rep [OF ok(2)] ops_map_free_total by blast
    show thesis
    proof (cases "over_limit (locked_vm s user + uint (ops_pages impl)) limit")
      case True
      then show thesis using ok assms(2) free
        by (intro denied [OF _ ok(2) True]) (auto simp: map_create_def bpf_map_charge_memlock_def map_free_def upd_map_def Let_def fun_eq_iff)
    next
      case False
      note defs = map_create_def bpf_map_charge_memlock_def bpf_map_new_fd_def map_free_def upd_map_def Let_def
      show thesis
      proof (cases fd_res)
        case (Ok fd)
        then show thesis using False ok assms(2) by (intro created [OF _ Ok ok(2)]) (auto simp: defs)
      next
        case (Err e)
        then show thesis using False ok assms(2) free by (intro no_fd [OF _ Err ok(2)]) (auto simp: defs)
      qed (use assms(3) in simp)
    qed
  qed
qed

lemma fresh_map: "sys_ok held s \<Longrightarrow> maps s (map_next s) = None \<and> held True (map_next s) = 0 \<and> held False (map_next s) = 0 \<and> fdset s (map_next s) = {} \<and> map_next s \<notin> set (work s)"
proof -
  assume "sys_ok held s"
  then have "map_ok held s (map_next s)" by (simp add: sys_ok_def)
  then show ?thesis by (cases "maps s (map_next s)") (auto simp: map_ok_def)
qed

lemma create_sys_ok:
  assumes "sys_ok held s" and "map_create attr_bad type oks h0 user limit fd_res attr s = Some (r, s')"
    and "\<And>fd. fd_res = Ok fd \<Longrightarrow> fds s fd = None" and "\<And>u. fd_res \<noteq> Undef u"
  shows "sys_ok held s'"
proof -
  note f = fresh_map [OF assms(1)]
  have ok: "map_ok held s n" for n using assms(1) by (simp add: sys_ok_def)
  have d: "distinct (work s)" using assms(1) by (simp add: sys_ok_def)
  have gone: "sys_ok held s'" if "maps s' = (maps s)(map_next s := None)" "map_next s' = Suc (map_next s)" "fds s' = fds s" "work s' = work s"
  proof (rule sys_okI)
    have m: "maps s' = maps s" using that(1) f by (metis fun_upd_idem)
    show "map_ok held s' n" for n
      by (rule map_ok_cong [OF _ _ _ _ _ ok]) (use that m in \<open>auto simp: fdset_def\<close>)
  qed (use that d in simp)
  show ?thesis using assms(1,2,4)
  proof (cases rule: map_create_cases)
    case same
    then show ?thesis using assms(1) by simp
  next
    case denied
    then show ?thesis using gone by blast
  next
    case no_fd
    then show ?thesis using gone by blast
  next
    case (created fd impl)
    have fd: "fds s fd = None" using assms(3) created(2) by blast
    then have fs: "fdset s' n = (if n = map_next s then {fd} else fdset s n)" for n
      using created(6) f by (auto simp: fdset_def split: if_splits)
    obtain M where "impl_rep impl M" using find_and_alloc_map_rep [OF created(3)] by blast
    show ?thesis
    proof (rule sys_okI)
      show "map_ok held s' n" for n
      proof (cases "n = map_next s")
        case True
        then show ?thesis using created f fs \<open>impl_rep impl M\<close> by (auto simp: map_ok_def)
      next
        case False
        then show ?thesis using created fs by (intro map_ok_cong [OF _ _ _ _ _ ok]) auto
      qed
    qed (use created d in simp)
  qed
qed

lemma free_sys_ok:
  assumes "sys_ok held s" and "work s = xs @ m # ys"
  shows "\<exists>s'. bpf_map_free_deferred m (s\<lparr>work := xs @ ys\<rparr>) = Some (Ok s') \<and> sys_ok held s'"
proof -
  have ok: "map_ok held s n" for n using assms(1) by (simp add: sys_ok_def)
  have d: "distinct (xs @ m # ys)" using assms by (simp add: sys_ok_def)
  obtain km where km: "maps s m = Some km" using ok [of m] assms(2) by (cases "maps s m") (auto simp: map_ok_def)
  then have c: "finite (fdset s m)" "int (card (fdset s m)) + int (held True m) + int (held False m) = 0" and rep: "\<exists>M. impl_rep (km_impl km) M"
    using ok [of m] assms(2) by (auto simp: map_ok_def)
  then have z: "fdset s m = {}" "held True m = 0" "held False m = 0" using card_eq_0_iff [of "fdset s m"] by linarith+
  let ?s = "s\<lparr>work := xs @ ys,
      locked_vm := (locked_vm s)(km_user km := locked_vm s (km_user km) - uint (ops_pages (km_impl km))),
      uid_refs := (uid_refs s)(km_user km := uid_refs s (km_user km) - 1), maps := (maps s)(m := None)\<rparr>"
  have r: "bpf_map_free_deferred m (s\<lparr>work := xs @ ys\<rparr>) = Some (Ok ?s)"
    using km rep ops_map_free_total by (auto simp: bpf_map_free_deferred_def bpf_map_uncharge_memlock_def map_free_def Let_def)
  have "map_ok held ?s n" for n
  proof (cases "n = m")
    case True
    then show ?thesis using z d by (simp add: map_ok_def)
  next
    case False
    then show ?thesis using assms(2) by (intro map_ok_cong [OF _ _ _ _ _ ok]) auto
  qed
  then show ?thesis using r d by (auto intro: sys_okI)
qed

lemma map_step_sys_ok: "map_step (held, s) (held', s') \<Longrightarrow> sys_ok held s \<Longrightarrow> sys_ok held' s'"
proof (induction "(held, s)" "(held', s')" rule: map_step.induct)
  case (free xs m ys)
  then show ?case using free_sys_ok [of held s xs m ys] by auto
next
  case (get ufd m)
  then show ?case using get_sys_ok [of held s ufd m True] by (auto simp: bpf_map_get_with_uref_def)
next
  case (put m)
  then show ?case using put_sys_ok [of held s m True] by (simp add: bpf_map_put_with_uref_def)
next
  case (put_ref m)
  then show ?case using put_sys_ok [of held s m False] by simp
qed (auto intro: get_sys_ok create_sys_ok close_sys_ok update_sys_ok delete_sys_ok)

lemma map_steps_sys_ok: "map_step\<^sup>*\<^sup>* (held, s) (held', s') \<Longrightarrow> sys_ok held s \<Longrightarrow> sys_ok held' s'"
proof (induction "(held', s')" arbitrary: held' s' rule: rtranclp_induct)
  case (step y)
  then show ?case using map_step_sys_ok by (cases y) blast
qed simp

section \<open>Properties\<close>

definition boot :: bpf_sys where
  "boot = \<lparr>maps = (\<lambda>_. None), map_next = 0, fds = (\<lambda>_. None), locked_vm = (\<lambda>_. 0), uid_refs = (\<lambda>_. 0), work = []\<rparr>"

lemma boot_ok: "sys_ok (\<lambda>_ _. 0) boot"
  by (simp add: sys_ok_def map_ok_def boot_def fdset_def)


definition ex_created :: "(nat result \<times> bpf_sys) option" where
  "ex_created = map_create False BPF_MAP_TYPE_ARRAY [True, True] ex_h0 0 100 (Ok 3) ex_array_attr boot"

lemma ex_created: "\<exists>s. ex_created = Some (Ok 3, s) \<and> fds s = [3 \<mapsto> MapFile 0]"
proof -
  have "is_ok (array_map_alloc True True ex_array_attr)" by code_simp
  then obtain a where a: "array_map_alloc True True ex_array_attr = Ok a" by (auto simp: is_ok_iff)
  have "case array_map_alloc True True ex_array_attr of Ok a \<Rightarrow> uint (ar_pages a) = 1 | _ \<Rightarrow> False" by code_simp
  then have "\<not> over_limit (uint (ar_pages a)) 100" using a by (simp add: over_limit_def)
  then show ?thesis using a
    by (auto simp: ex_created_def map_create_def find_and_alloc_map_def bpf_map_charge_memlock_def bpf_map_new_fd_def
        boot_def upd_map_def Let_def)
qed


text \<open>C21. After a successful \<open>BPF_MAP_UPDATE_ELEM\<close>, whatever the kind of the map, \<open>BPF_MAP_LOOKUP_ELEM\<close> through the same descriptor
  returns the new value for that key, and what it returned before for every other key.\<close>

theorem bpf_map_update_lookup:
  assumes "sys_ok held s" and "map_update_elem False fd True True ok ukey uvalue flags s = Some (Ok (), s')"
    and "\<And>n bs. ukey n = Some bs \<Longrightarrow> length bs = n" and "\<And>n bs. uvalue n = Some bs \<Longrightarrow> length bs = n"
    and "\<And>n bs. ukey' n = Some bs \<Longrightarrow> length bs = n"
  shows "\<exists>m km key val. fds s fd = Some (MapFile m) \<and> maps s m = Some km \<and>
    ukey (unat (ops_key_size (km_impl km))) = Some key \<and> uvalue (unat (ops_value_size (km_impl km))) = Some val \<and>
    map_lookup_elem False fd True True ukey' True s' =
      (if ukey' (unat (ops_key_size (km_impl km))) = Some key then Some (Ok val) else map_lookup_elem False fd True True ukey' True s)"
proof -
  obtain m km key val impl where m: "fds s fd = Some (MapFile m)" "maps s m = Some km" "ukey (unat (ops_key_size (km_impl km))) = Some key"
      "uvalue (unat (ops_value_size (km_impl km))) = Some val"
      "ops_update ok (km_impl km) key val flags = Some (Ok (), impl)" "s' = set_impl m impl s"
    using assms(2) by (auto simp: map_update_elem_def bpf_map_get_def split: if_splits result.splits option.splits bpf_file.splits)
  obtain M where rep: "impl_rep (km_impl km) M" using assms(1) m(2) by (fastforce simp: sys_ok_def map_ok_def split: option.splits)
  note len = assms(3) [OF m(3)] assms(4) [OF m(4)]
  have sz: "ops_key_size impl = ops_key_size (km_impl km)"
    using mp.update_rep [OF rep len, of ok flags] m(5) by (auto simp: word_unat_eq_iff)
  have "map_lookup_elem False fd True True ukey' True s' =
      (if ukey' (unat (ops_key_size (km_impl km))) = Some key then Some (Ok val) else map_lookup_elem False fd True True ukey' True s)"
  proof (cases "ukey' (unat (ops_key_size (km_impl km)))")
    case None
    then show ?thesis using m sz by (simp add: map_lookup_elem_def bpf_map_get_def set_impl_def upd_map_def)
  next
    case (Some key')
    have "ops_lookup impl key' = (if key' = key then Some (Ok (Some val)) else ops_lookup (km_impl km) key')"
      using mp.update_lookup [OF rep len assms(5) [OF Some] m(5)] .
    then show ?thesis using m sz Some by (simp add: map_lookup_elem_def bpf_map_get_def set_impl_def upd_map_def)
  qed
  then show ?thesis using m by blast
qed

definition ex_user :: "u8 list \<Rightarrow> nat \<Rightarrow> u8 list option" where
  "ex_user bs n = (if length bs = n then Some bs else None)"

definition ex_updated :: "(unit result \<times> bpf_sys) option" where
  "ex_updated = (case ex_created of Some (_, s) \<Rightarrow>
     map_update_elem False 3 True True True (ex_user [1, 0, 0, 0]) (ex_user [9, 8, 7, 6, 5]) 0 s | None \<Rightarrow> None)"

theorem bpf_map_update_lookup_witness:
  "\<exists>s'. ex_updated = Some (Ok (), s') \<and>
     map_lookup_elem False 3 True True (ex_user [1, 0, 0, 0]) True s' = Some (Ok [9, 8, 7, 6, 5])"
proof -
  have "case ex_updated of Some (r, _) \<Rightarrow> is_ok r | None \<Rightarrow> False" by code_simp
  then obtain s' where s': "ex_updated = Some (Ok (), s')" by (auto simp: is_ok_iff split: option.splits prod.splits)
  obtain s where s: "ex_created = Some (Ok 3, s)" using ex_created by blast
  have ok: "sys_ok (\<lambda>_ _. 0) s"
    by (rule create_sys_ok [OF boot_ok s [unfolded ex_created_def]]) (auto simp: boot_def)
  have up: "map_update_elem False 3 True True True (ex_user [1, 0, 0, 0]) (ex_user [9, 8, 7, 6, 5]) 0 s = Some (Ok (), s')"
    using s' unfolding ex_updated_def s by simp
  have l: "length bs' = n" if "ex_user bs n = Some bs'" for bs bs' n using that by (auto simp: ex_user_def split: if_splits)
  have e: "key = bs" if "ex_user bs n = Some key" for bs key n using that by (auto simp: ex_user_def split: if_splits)
  have "\<exists>m km key val. fds s 3 = Some (MapFile m) \<and> maps s m = Some km \<and>
    ex_user [1, 0, 0, 0] (unat (ops_key_size (km_impl km))) = Some key \<and> ex_user [9, 8, 7, 6, 5] (unat (ops_value_size (km_impl km))) = Some val \<and>
    map_lookup_elem False 3 True True (ex_user [1, 0, 0, 0]) True s' =
      (if ex_user [1, 0, 0, 0] (unat (ops_key_size (km_impl km))) = Some key then Some (Ok val)
       else map_lookup_elem False 3 True True (ex_user [1, 0, 0, 0]) True s)"
    by (rule bpf_map_update_lookup [OF ok up]) (erule l)+
  then show ?thesis using s' e by auto
qed

text \<open>When the descriptor for a new map cannot be allocated, \<open>map_create\<close> frees the map but not the charge: the pages stay
  on the account of the user, and the reference to the user is never dropped.\<close>

theorem map_create_fd_failure_leaks_charge:
  assumes "sys_ok held s" and "find_and_alloc_map type oks h0 attr = Ok impl" and "\<not> over_limit (locked_vm s user + uint (ops_pages impl)) limit"
  shows "\<exists>s'. map_create False type oks h0 user limit (Err ENFILE) attr s = Some (Err ENFILE, s') \<and>
    maps s' = maps s \<and> fds s' = fds s \<and>
    locked_vm s' user = locked_vm s user + uint (ops_pages impl) \<and> uid_refs s' user = uid_refs s user + 1"
proof -
  have "ops_map_free impl = Some (Ok ())" using find_and_alloc_map_rep [OF assms(2)] ops_map_free_total by blast
  moreover have "(maps s)(map_next s := None) = maps s" using fresh_map [OF assms(1)] by (metis fun_upd_idem)
  ultimately show ?thesis using assms(2,3)
    by (simp add: map_create_def bpf_map_charge_memlock_def bpf_map_new_fd_def map_free_def upd_map_def Let_def)
qed

lemma ex_pages: "\<exists>impl. find_and_alloc_map BPF_MAP_TYPE_ARRAY [True, True] ex_h0 ex_array_attr = Ok impl \<and> uint (ops_pages impl) = 1"
proof -
  have "case array_map_alloc True True ex_array_attr of Ok a \<Rightarrow> uint (ar_pages a) = 1 | _ \<Rightarrow> False" by code_simp
  then show ?thesis by (auto simp: find_and_alloc_map_def split: result.splits)
qed

theorem map_create_fd_failure_leaks_charge_witness:
  "\<exists>s'. map_create False BPF_MAP_TYPE_ARRAY [True, True] ex_h0 0 100 (Err ENFILE) ex_array_attr boot = Some (Err ENFILE, s') \<and>
     maps s' = maps boot \<and> locked_vm s' 0 = 1"
proof -
  obtain impl where i: "find_and_alloc_map BPF_MAP_TYPE_ARRAY [True, True] ex_h0 ex_array_attr = Ok impl" "uint (ops_pages impl) = 1"
    using ex_pages by blast
  have "locked_vm boot 0 = 0" by (simp add: boot_def)
  then show ?thesis using map_create_fd_failure_leaks_charge [OF boot_ok i(1), of 0 100] i(2) by (auto simp: over_limit_def)
qed

text \<open>Creating a map, closing its descriptor and running the deferred freeing leaves the maps, the descriptors and the accounts of all users as
  they were before.\<close>

theorem map_create_close_balanced:
  assumes "sys_ok held s" and "fds s fd = None" and "work s = []"
    and "map_create attr_bad type oks h0 user limit (Ok fd) attr s = Some (Ok fd, s1)" and "bpf_map_release fd s1 = Ok s2"
  shows "\<exists>m s3. work s2 = [m] \<and> bpf_map_free_deferred m (s2\<lparr>work := []\<rparr>) = Some (Ok s3) \<and>
    maps s3 = maps s \<and> fds s3 = fds s \<and> locked_vm s3 = locked_vm s \<and> uid_refs s3 = uid_refs s"
proof -
  have nu: "Ok fd \<noteq> Undef u" for u :: fault by simp
  show ?thesis using assms(1,4) nu
  proof (cases rule: map_create_cases)
    case (created fd' impl)
    let ?m = "map_next s"
    have impl: "ops_map_free impl = Some (Ok ())" using find_and_alloc_map_rep [OF created(3)] ops_map_free_total by blast
    have m: "maps s1 ?m = Some \<lparr>km_impl = impl, km_refcnt = 1, km_usercnt = 1, km_user = user\<rparr>" and f: "fds s1 fd = Some (MapFile ?m)"
      using created by auto
    have s2: "s2 = s1\<lparr>fds := (fds s1)(fd := None),
        maps := (maps s1)(?m \<mapsto> \<lparr>km_impl = impl, km_refcnt = 0, km_usercnt = 0, km_user = user\<rparr>), work := [?m]\<rparr>"
      using assms(3,5) m f created(7)
      by (auto simp: bpf_map_release_def bpf_map_put_with_uref_def bpf_map_put_def bpf_map_put_uref_def upd_map_def Let_def)
    have restored: "(maps s)(?m := None) = maps s" "(fds s)(fd := None) = fds s"
      using fresh_map [OF assms(1)] assms(2) by (metis fun_upd_idem)+
    then show ?thesis using impl created
      by (auto simp: s2 bpf_map_free_deferred_def bpf_map_uncharge_memlock_def map_free_def Let_def)
  qed auto
qed

theorem map_create_close_balanced_witness:
  "\<exists>s1 s2 m s3. map_create False BPF_MAP_TYPE_ARRAY [True, True] ex_h0 0 100 (Ok 3) ex_array_attr boot = Some (Ok 3, s1) \<and>
     bpf_map_release 3 s1 = Ok s2 \<and> bpf_map_free_deferred m (s2\<lparr>work := []\<rparr>) = Some (Ok s3) \<and> locked_vm s3 = (\<lambda>_. 0)"
proof -
  obtain s1 where s1: "ex_created = Some (Ok 3, s1)" "fds s1 = [3 \<mapsto> MapFile 0]" using ex_created by blast
  note c = s1(1) [unfolded ex_created_def]
  have "sys_ok (\<lambda>_ _. 0) s1" by (rule create_sys_ok [OF boot_ok c]) (auto simp: boot_def)
  then obtain km where "maps s1 0 = Some km" using sys_ok_fd [of _ s1 3 0] s1(2) by auto
  then obtain s2 where s2: "bpf_map_release 3 s1 = Ok s2" using s1(2)
    by (cases "km_refcnt km = 1")
      (auto simp: bpf_map_release_def bpf_map_put_with_uref_def bpf_map_put_def bpf_map_put_uref_def upd_map_def Let_def)
  have "fds boot 3 = None" "work boot = []" "locked_vm boot = (\<lambda>_. 0)" by (simp_all add: boot_def)
  then show ?thesis using map_create_close_balanced [OF boot_ok _ _ c s2] c s2 by auto
qed

text \<open>How a program in user space lists a map: it calls \<open>BPF_MAP_GET_NEXT_KEY\<close> until there is no next key.\<close>

definition user_bytes :: "u8 list \<Rightarrow> nat \<Rightarrow> u8 list option" where
  "user_bytes bs n = (if n \<le> length bs then Some (take n bs) else None)"

fun list_map :: "nat \<Rightarrow> nat \<Rightarrow> u8 list \<Rightarrow> bpf_sys \<Rightarrow> u8 list list option" where
  "list_map 0 fd key s = None"
| "list_map (Suc n) fd key s =
     (case map_get_next_key False fd True True (user_bytes key) True s of
        Some (Ok k) \<Rightarrow> map_option ((#) k) (list_map n fd k s)
      | Some (Err ENOENT) \<Rightarrow> Some []
      | _ \<Rightarrow> None)"

lemma key_after_mem: "key_after ks k = Ok k' \<Longrightarrow> k' \<in> set ks"
proof -
  have "next_in ks k = Some k' \<Longrightarrow> k' \<in> set ks" by (induction ks) (auto split: if_splits list.splits)
  then show "key_after ks k = Ok k' \<Longrightarrow> k' \<in> set ks" by (auto simp: key_after_def split: if_splits option.splits list.splits)
qed

lemma list_map_walk:
  assumes "fds s fd = Some (MapFile m)" and "maps s m = Some km" and "impl_rep (km_impl km) M" and "length key = unat (ops_key_size (km_impl km))"
  shows "list_map n fd key s = mp.walk n (km_impl km) key"
  using assms(4)
proof (induction n arbitrary: key)
  case (Suc n)
  obtain ks where ks: "set ks = dom M" "ops_get_next_key (km_impl km) key = Some (key_after ks key)"
    using mp.next_key_rep [OF assms(3)] Suc.prems by blast
  have g: "map_get_next_key False fd True True (user_bytes key) True s = Some (key_after ks key)"
  proof -
    have "map_get_next_key False fd True True (user_bytes key) True s = sbind (Some (key_after ks key)) (\<lambda>k. Some (Ok k))"
      using assms(1,2) Suc.prems by (simp add: map_get_next_key_def bpf_map_get_def user_bytes_def ks(2))
    then show ?thesis by (cases "key_after ks key") (simp_all only: sbind_def option.case result.case)
  qed
  show ?case
  proof (cases "key_after ks key")
    case (Ok k)
    have "k \<in> dom M" using key_after_mem [OF Ok] unfolding ks(1) .
    then obtain v where "M k = Some v" by auto
    then have "length k = unat (ops_key_size (km_impl km))" using mp.rep_keys [OF assms(3)] by simp
    then show ?thesis unfolding list_map.simps mp.walk.simps g ks(2) Ok using Suc.IH by simp
  next
    case (Err e)
    then show ?thesis unfolding list_map.simps mp.walk.simps g ks(2) by simp
  next
    case (Undef u)
    then show ?thesis unfolding list_map.simps mp.walk.simps g ks(2) by simp
  qed
qed simp

text \<open>C28. Listing a map from user space, starting from any key that is not in the map, ends and returns every key of the map
  exactly once.\<close>

theorem bpf_map_listing_complete:
  assumes "fds s fd = Some (MapFile m)" and "maps s m = Some km" and "impl_rep (km_impl km) M"
    and "length key = unat (ops_key_size (km_impl km))" and "M key = None"
  shows "\<exists>n ks. list_map n fd key s = Some ks \<and> distinct ks \<and> set ks = dom M"
  using mp.walk_all [OF assms(3-5)] list_map_walk [OF assms(1-4)] by metis

theorem bpf_map_listing_complete_witness:
  "\<exists>s n ks. ex_created = Some (Ok 3, s) \<and> list_map n 3 [9, 9, 9, 9] s = Some ks \<and> distinct ks"
proof -
  obtain s where s: "ex_created = Some (Ok 3, s)" "fds s = [3 \<mapsto> MapFile 0]" using ex_created by blast
  have ok: "sys_ok (\<lambda>_ _. 0) s" by (rule create_sys_ok [OF boot_ok s(1) [unfolded ex_created_def]]) (auto simp: boot_def)
  have "case ex_created of Some (_, s) \<Rightarrow> (case maps s 0 of Some km \<Rightarrow> (case km_impl km of Array a \<Rightarrow>
      ar_key_size a = 4 \<and> \<not> get_unaligned_cpu32 [9, 9, 9, 9] < ar_max_entries a | _ \<Rightarrow> False) | _ \<Rightarrow> False) | None \<Rightarrow> False"
    by code_simp
  then have "case maps s 0 of Some km \<Rightarrow> (case km_impl km of Array a \<Rightarrow>
      ar_key_size a = 4 \<and> \<not> get_unaligned_cpu32 [9, 9, 9, 9] < ar_max_entries a | _ \<Rightarrow> False) | _ \<Rightarrow> False"
    unfolding s(1) by simp
  then obtain km a where km: "maps s 0 = Some km" "km_impl km = Array a" "ar_key_size a = 4" "\<not> get_unaligned_cpu32 [9, 9, 9, 9] < ar_max_entries a"
    by (auto split: option.splits map_impl.splits)
  obtain M where M: "impl_rep (km_impl km) M" using sys_ok_fd [OF ok, of 3 0] s(2) km(1) by auto
  have "M [9, 9, 9, 9] = None" using M km by (simp add: array_rep_def)
  then show ?thesis using bpf_map_listing_complete [OF _ km(1) M, of 3 "[9, 9, 9, 9]"] s km(2,3) by auto
qed

end
