(* ===== verification/Bpf_Used_Maps.thy ===== *)
theory Bpf_Used_Maps
  imports Bpf_Cfg Bpf_Syscall
begin

text \<open>
  How the verifier binds a program to its maps, \<^verbatim>\<open>kernel/bpf/verifier.c\<close>: \<open>replace_map_fd_with_map_ptr\<close>
  replaces the map descriptors in 64-bit loads by the addresses of the maps and takes a reference on
  each, \<open>release_maps\<close> gives them back, \<open>convert_pseudo_ld_imm64\<close> turns the loads into ordinary ones.
  The references on files that \<open>fdget\<close> and \<open>fdput\<close> take are part of the state.
\<close>

section \<open>Operations\<close>

text \<open>
  \<open>f_count\<close> are the references on the file behind each descriptor; \<open>shared\<close> tells whether the
  descriptor table has other users, since \<open>fdget\<close> only takes a reference then.
\<close>

record verifier_maps =
  vsys :: bpf_sys
  f_count :: "nat \<Rightarrow> int"
  used_maps :: "nat list"

abbreviation (input) MAX_USED_MAPS :: nat where "MAX_USED_MAPS \<equiv> 64"
abbreviation (input) BPF_PSEUDO_MAP_FD :: reg where "BPF_PSEUDO_MAP_FD \<equiv> 1"

definition add_count :: "bool \<Rightarrow> nat \<Rightarrow> int \<Rightarrow> verifier_maps \<Rightarrow> verifier_maps" where
  "add_count shared fd d v =
     (if shared \<and> fds (vsys v) fd \<noteq> None then v\<lparr>f_count := (f_count v)(fd := f_count v fd + d)\<rparr> else v)"

definition fdget :: "bool \<Rightarrow> nat \<Rightarrow> verifier_maps \<Rightarrow> verifier_maps" where
  "fdget shared fd = add_count shared fd 1"

definition fdput :: "bool \<Rightarrow> nat \<Rightarrow> verifier_maps \<Rightarrow> verifier_maps" where
  "fdput shared fd = add_count shared fd (- 1)"

definition map_of_fd :: "bool \<Rightarrow> nat \<Rightarrow> verifier_maps \<Rightarrow> nat result \<times> verifier_maps" where \<comment> \<open>\<open>__bpf_map_get\<close>\<close>
  "map_of_fd shared fd v =
     (case fds (vsys v) fd of
        None \<Rightarrow> (Err EBADF, v)
      | Some (MapFile m) \<Rightarrow> (Ok m, v)
      | Some _ \<Rightarrow> (Err EINVAL, fdput shared fd v))"

text \<open>
  The body of the loop at one instruction: \<open>addr m\<close> is the address of map \<open>m\<close>, \<open>rest\<close> the program behind
  the instruction. The result are the one or two instructions the iteration steps over, as rewritten.
\<close>

definition replace_insn ::
  "(nat \<Rightarrow> u64) \<Rightarrow> bool \<Rightarrow> bpf_insn \<Rightarrow> bpf_insn list \<Rightarrow> verifier_maps \<Rightarrow> bpf_insn list result \<times> verifier_maps" where
  "replace_insn addr shared insn rest v =
     (let code = bi_code insn in
      if BPF_CLASS code = BPF_LDX \<and> (BPF_MODE code \<noteq> BPF_MEM \<or> bi_imm insn \<noteq> 0) then (Err EINVAL, v)
      else if BPF_CLASS code = BPF_STX \<and> (BPF_MODE code \<noteq> BPF_MEM \<and> BPF_MODE code \<noteq> BPF_XADD \<or> bi_imm insn \<noteq> 0) then (Err EINVAL, v)
      else if code = (BPF_LD OR BPF_IMM OR BPF_DW) then
        (case rest of
           [] \<Rightarrow> (Err EINVAL, v)
         | insn1 # _ \<Rightarrow>
             (if bi_code insn1 \<noteq> 0 \<or> bi_dst insn1 \<noteq> 0 \<or> bi_src insn1 \<noteq> 0 \<or> bi_off insn1 \<noteq> 0 then (Err EINVAL, v)
              else if bi_src insn = 0 then (Ok [insn, insn1], v)
              else if bi_src insn \<noteq> BPF_PSEUDO_MAP_FD then (Err EINVAL, v)
              else
                (let fd = unat (bi_imm insn); (r, v) = map_of_fd shared fd (fdget shared fd v) in
                 case r of
                   Err e \<Rightarrow> (Err e, fdput shared fd v)
                 | Undef u \<Rightarrow> (Undef u, v)
                 | Ok m \<Rightarrow>
                     (let loads = [insn\<lparr>bi_imm := ucast (addr m)\<rparr>, insn1\<lparr>bi_imm := ucast (drop_bit 32 (addr m))\<rparr>] in
                      if m \<in> set (used_maps v) then (Ok loads, fdput shared fd v)
                      else if length (used_maps v) \<ge> MAX_USED_MAPS then (Err E2BIG, fdput shared fd v)
                      else (Ok loads, fdput shared fd
                              (v\<lparr>used_maps := used_maps v @ [m], vsys := bpf_map_inc m False (vsys v)\<rparr>))))))
      else (Ok [insn], v))"

fun replace_loop :: "(nat \<Rightarrow> u64) \<Rightarrow> bool \<Rightarrow> bpf_insn list \<Rightarrow> verifier_maps \<Rightarrow> bpf_insn list result \<times> verifier_maps" where
  "replace_loop addr shared [] v = (Ok [], v)"
| "replace_loop addr shared (insn # rest) v =
     (case replace_insn addr shared insn rest v of
        (Ok pre, v) \<Rightarrow>
          (case replace_loop addr shared (drop (length pre - 1) rest) v of
             (Ok is, v) \<Rightarrow> (Ok (pre @ is), v)
           | (err, v) \<Rightarrow> (err, v))
      | (err, v) \<Rightarrow> (err, v))"

definition replace_map_fd_with_map_ptr ::
  "(nat \<Rightarrow> u64) \<Rightarrow> bool \<Rightarrow> bpf_insn list \<Rightarrow> verifier_maps \<Rightarrow> bpf_insn list result \<times> verifier_maps" where
  "replace_map_fd_with_map_ptr addr shared insns v = replace_loop addr shared insns v"

fun release_maps :: "nat list \<Rightarrow> bpf_sys \<Rightarrow> bpf_sys result" where
  "release_maps [] s = Ok s"
| "release_maps (m # ms) s = rbind (bpf_map_put m s) (release_maps ms)"

definition convert_pseudo_ld_imm64 :: "bpf_insn list \<Rightarrow> bpf_insn list" where
  "convert_pseudo_ld_imm64 insns =
     map (\<lambda>i. if bi_code i = (BPF_LD OR BPF_IMM OR BPF_DW) then i\<lparr>bi_src := 0\<rparr> else i) insns"

section \<open>Laws\<close>

lemma fdput_fdget [simp]: "fdput shared fd (fdget shared fd v) = v"
  by (cases v) (auto simp: fdput_def fdget_def add_count_def)

lemma fdput_simps [simp]:
  "vsys (fdput shared fd v) = vsys v" "used_maps (fdput shared fd v) = used_maps v"
  "vsys (fdget shared fd v) = vsys v" "used_maps (fdget shared fd v) = used_maps v"
  by (simp_all add: fdput_def fdget_def add_count_def)

lemma fds_bpf_map_inc [simp]: "fds (bpf_map_inc m b s) = fds s"
  by (simp add: bpf_map_inc_def upd_map_def)

lemma fdput_take [simp]:
  "fdput shared fd ((fdget shared fd v)\<lparr>used_maps := us, vsys := bpf_map_inc m b s\<rparr>)
     = (if fds s fd = fds (vsys v) fd then v\<lparr>used_maps := us, vsys := bpf_map_inc m b s\<rparr>
        else fdput shared fd ((fdget shared fd v)\<lparr>used_maps := us, vsys := bpf_map_inc m b s\<rparr>))"
  by (auto simp: fdput_def fdget_def add_count_def)

text \<open>Everything a successful replacement does, in one relation between the programs.\<close>

definition same_shape :: "bpf_insn \<Rightarrow> bpf_insn \<Rightarrow> bool" where
  "same_shape i j \<longleftrightarrow> bi_code j = bi_code i \<and> bi_dst j = bi_dst i \<and> bi_src j = bi_src i \<and> bi_off j = bi_off i"

lemma same_shape_refl: "same_shape i i"
  by (simp add: same_shape_def)

text \<open>Taking a reference on each of a list of maps.\<close>

definition take_refs :: "nat list \<Rightarrow> bpf_sys \<Rightarrow> bpf_sys" where
  "take_refs ms s = foldl (\<lambda>s m. bpf_map_inc m False s) s ms"

lemma take_refs_simps [simp]:
  "take_refs [] s = s" "take_refs (m # ms) s = take_refs ms (bpf_map_inc m False s)"
  "take_refs (ms @ ns) s = take_refs ns (take_refs ms s)"
  by (simp_all add: take_refs_def)

lemma fds_take_refs [simp]: "fds (take_refs ms s) = fds s"
  by (induction ms arbitrary: s) auto


lemma replace_insn_ok:
  assumes "replace_insn addr shared insn rest v = (Ok pre, v')"
  shows "(\<exists>ms. used_maps v' = used_maps v @ ms \<and> vsys v' = take_refs ms (vsys v) \<and> distinct ms \<and> set ms \<inter> set (used_maps v) = {} \<and>
           (\<forall>m \<in> set ms. \<exists>fd. fds (vsys v) fd = Some (MapFile m))) \<and> f_count v' = f_count v \<and>
         (bi_code insn \<noteq> (BPF_LD OR BPF_IMM OR BPF_DW) \<and> pre = [insn] \<or>
          bi_code insn = (BPF_LD OR BPF_IMM OR BPF_DW) \<and>
            (\<exists>i j insn1 rest'. pre = [i, j] \<and> rest = insn1 # rest' \<and> bi_code insn1 = 0 \<and> same_shape insn i \<and> same_shape insn1 j))"
proof (cases "bi_code insn = (BPF_LD OR BPF_IMM OR BPF_DW) \<and> bi_src insn \<noteq> 0")
  case True
  then obtain insn1 rest' m where r: "rest = insn1 # rest'" "bi_code insn1 = 0" "fds (vsys v) (unat (bi_imm insn)) = Some (MapFile m)"
    using assms by (auto simp: replace_insn_def map_of_fd_def bpf_fields Let_def split: list.splits if_splits option.splits bpf_file.splits)
  then show ?thesis using assms True
    by (auto simp: replace_insn_def map_of_fd_def bpf_fields Let_def same_shape_def split: if_splits intro: exI [of _ "[]"] exI [of _ "[m]"])
next
  case False
  then show ?thesis using assms
    by (auto simp: replace_insn_def Let_def same_shape_def split: list.splits if_splits intro!: exI [of _ "[]"])
qed


lemma ld_imm64_ok_Cons:
  "ld_imm64_ok (i # is) \<longleftrightarrow> (bi_code i = (BPF_LD OR BPF_IMM OR BPF_DW) \<longrightarrow> is \<noteq> [] \<and> bi_code (hd is) = 0) \<and> ld_imm64_ok is"
  unfolding ld_imm64_ok_def by (auto simp: nth_Cons hd_conv_nth split: nat.splits)

text \<open>Whatever its outcome, the replacement took one reference on each map it recorded.\<close>

lemma replace_insn_refs:
  assumes "replace_insn addr shared insn rest v = (r, v')"
  shows "(\<exists>ms. used_maps v' = used_maps v @ ms \<and> vsys v' = take_refs ms (vsys v) \<and> distinct ms \<and> set ms \<inter> set (used_maps v) = {} \<and>
           (\<forall>m \<in> set ms. \<exists>fd. fds (vsys v) fd = Some (MapFile m))) \<and> (\<forall>u. r \<noteq> Undef u)"
proof (cases r)
  case (Ok pre)
  then show ?thesis using replace_insn_ok [of addr shared insn rest v pre v'] assms by simp
next
  case (Err e)
  then have "used_maps v' = used_maps v \<and> vsys v' = vsys v" using assms
    by (auto simp: replace_insn_def map_of_fd_def Let_def split: if_splits list.splits option.splits bpf_file.splits prod.splits)
  then show ?thesis using Err by (auto intro: exI [of _ "[]"])
next
  case (Undef u)
  then show ?thesis using assms
    by (auto simp: replace_insn_def map_of_fd_def Let_def split: if_splits list.splits option.splits bpf_file.splits prod.splits)
qed

lemma replace_loop_refs:
  assumes "replace_loop addr shared insns v = (r, v')"
  shows "(\<exists>ms. used_maps v' = used_maps v @ ms \<and> vsys v' = take_refs ms (vsys v) \<and> distinct ms \<and> set ms \<inter> set (used_maps v) = {} \<and>
           (\<forall>m \<in> set ms. \<exists>fd. fds (vsys v) fd = Some (MapFile m))) \<and> (\<forall>u. r \<noteq> Undef u)"
  using assms
proof (induction addr shared insns v arbitrary: r v' rule: replace_loop.induct)
  case (1 addr shared v)
  then show ?case by auto
next
  case (2 addr shared insn rest v)
  obtain r1 v1 where step: "replace_insn addr shared insn rest v = (r1, v1)" by fastforce
  note one = replace_insn_refs [OF step]
  show ?case
  proof (cases r1)
    case (Ok pre)
    obtain r2 v2 where loop: "replace_loop addr shared (drop (length pre - 1) rest) v1 = (r2, v2)" by fastforce
    have res: "v' = v2" "\<forall>u. r2 \<noteq> Undef u \<Longrightarrow> \<forall>u. r \<noteq> Undef u" using "2.prems" step loop Ok by (auto split: result.splits)
    note ih = "2.IH" [OF step [symmetric] Ok loop]
    obtain ms ns where ms: "used_maps v1 = used_maps v @ ms" "vsys v1 = take_refs ms (vsys v)" "distinct ms" "set ms \<inter> set (used_maps v) = {}"
        "\<forall>m \<in> set ms. \<exists>fd. fds (vsys v) fd = Some (MapFile m)"
      and ns: "used_maps v2 = used_maps v1 @ ns" "vsys v2 = take_refs ns (vsys v1)" "distinct ns" "set ns \<inter> set (used_maps v1) = {}"
        "\<forall>m \<in> set ns. \<exists>fd. fds (vsys v1) fd = Some (MapFile m)" using one ih by blast
    have "\<exists>ms. used_maps v' = used_maps v @ ms \<and> vsys v' = take_refs ms (vsys v) \<and> distinct ms \<and> set ms \<inter> set (used_maps v) = {} \<and>
        (\<forall>m \<in> set ms. \<exists>fd. fds (vsys v) fd = Some (MapFile m))"
      by (rule exI [of _ "ms @ ns"]) (use ms ns res(1) in auto)
    then show ?thesis using ih res(2) by blast
  qed (use "2.prems" step one in auto)
qed

lemma replace_loop_ok:
  assumes "replace_loop addr shared insns v = (Ok insns', v')"
  shows "f_count v' = f_count v \<and> list_all2 same_shape insns insns' \<and> ld_imm64_ok insns"
  using assms
proof (induction addr shared insns v arbitrary: insns' v' rule: replace_loop.induct)
  case (1 addr shared v)
  then show ?case by (auto simp: ld_imm64_ok_def)
next
  case (2 addr shared insn rest v)
  obtain pre v1 tl' where step: "replace_insn addr shared insn rest v = (Ok pre, v1)"
    and loop: "replace_loop addr shared (drop (length pre - 1) rest) v1 = (Ok tl', v')" and res: "insns' = pre @ tl'"
    using "2.prems" by (auto split: prod.splits result.splits)
  note ih = "2.IH" [OF step [symmetric] refl loop]
  note r = replace_insn_ok [OF step]
  have "list_all2 same_shape (insn # rest) insns' \<and> ld_imm64_ok (insn # rest)"
    using r ih res by (auto simp: ld_imm64_ok_Cons same_shape_refl)
  then show ?case using r ih by auto
qed

text \<open>Instructions of the same shape have the same flow graph.\<close>

lemma same_shape_nth: "list_all2 same_shape insns insns' \<Longrightarrow> t < length insns \<Longrightarrow> same_shape (insns ! t) (insns' ! t)"
  by (rule list_all2_nthD)

lemma same_shape_cfg:
  assumes "list_all2 same_shape insns insns'"
  shows "cfg_ok insns' = cfg_ok insns" and "ld_imm64_ok insns' = ld_imm64_ok insns"
proof -
  note len = list_all2_lengthD [OF assms]
  have s: "succs insns' t = succs insns t" "ja_ok insns' t = ja_ok insns t" "bi_code (insns' ! t) = bi_code (insns ! t)" if "t < length insns" for t
    using same_shape_nth [OF assms that] by (auto simp: same_shape_def succs_def ja_ok_def Let_def)
  have "edges insns' = edges insns" using s(1) len by (auto simp: edges_def)
  then show "cfg_ok insns' = cfg_ok insns" using s len by (simp add: cfg_ok_def)
  show "ld_imm64_ok insns' = ld_imm64_ok insns" using s(3) len by (simp add: ld_imm64_ok_def cong: conj_cong)
qed

text \<open>The references taken on different maps do not interfere.\<close>

abbreviation (input) with_ref :: "kmap \<Rightarrow> kmap" where "with_ref k \<equiv> k\<lparr>km_refcnt := km_refcnt k + 1\<rparr>"

lemma take_refs_eq:
  "distinct ms \<Longrightarrow> take_refs ms s = s\<lparr>maps := (\<lambda>x. if x \<in> set ms then map_option with_ref (maps s x) else maps s x)\<rparr>"
proof (induction ms arbitrary: s)
  case (Cons m ms)
  then show ?case by (auto simp: bpf_map_inc_def upd_map_def fun_eq_iff intro!: bpf_sys.equality)
qed simp

lemma release_maps_take_refs:
  assumes "distinct ms" and "\<forall>m \<in> set ms. \<exists>km. maps s m = Some km \<and> 0 < km_refcnt km"
  shows "release_maps ms (take_refs ms s) = Ok s"
  using assms
proof (induction ms)
  case (Cons m ms)
  obtain km where km: "maps s m = Some km" "0 < km_refcnt km" using Cons.prems by auto
  have "bpf_map_put m (take_refs (m # ms) s) = Ok (take_refs ms s)"
    unfolding take_refs_eq [OF Cons.prems(1)] using km Cons.prems
    by (auto simp: bpf_map_put_def upd_map_def take_refs_eq fun_eq_iff intro!: bpf_sys.equality)
  then show ?case using Cons by simp
qed simp

text \<open>Giving the references back restores the maps.\<close>

lemma release_after_replace:
  assumes "replace_map_fd_with_map_ptr addr shared insns v = (r, v')" and "sys_ok held (vsys v)" and "used_maps v = []"
  shows "release_maps (used_maps v') (vsys v') = Ok (vsys v) \<and> (\<forall>u. r \<noteq> Undef u) \<and>
    vsys v' = take_refs (used_maps v') (vsys v) \<and> distinct (used_maps v') \<and> (\<forall>m \<in> set (used_maps v'). \<exists>fd. fds (vsys v) fd = Some (MapFile m)) \<and>
    (\<forall>m \<in> set (used_maps v'). \<exists>km. maps (vsys v) m = Some km \<and> 0 < km_refcnt km \<and> maps (vsys v') m = Some (with_ref km))"
proof -
  obtain ms where ms: "used_maps v' = ms" "vsys v' = take_refs ms (vsys v)" "distinct ms"
      "\<forall>m \<in> set ms. \<exists>fd. fds (vsys v) fd = Some (MapFile m)" and r: "\<forall>u. r \<noteq> Undef u"
    using replace_loop_refs [of addr shared insns v r v'] assms(1,3) by (auto simp: replace_map_fd_with_map_ptr_def)
  have "\<forall>m \<in> set ms. \<exists>km. maps (vsys v) m = Some km \<and> 0 < km_refcnt km" using ms(4) sys_ok_fd [OF assms(2)] by blast
  then show ?thesis using release_maps_take_refs [OF ms(3)] ms r by (auto simp: take_refs_eq)
qed

section \<open>Properties\<close>


lemma ex_created_ok:
  obtains s where "sys_ok (\<lambda>_ _. 0) s" and "fds s = [3 \<mapsto> MapFile 0]"
proof -
  obtain s where s: "ex_created = Some (Ok 3, s)" "fds s = [3 \<mapsto> MapFile 0]" using ex_created by blast
  have "sys_ok (\<lambda>_ _. 0) s" by (rule create_sys_ok [OF boot_ok s(1) [unfolded ex_created_def]]) (auto simp: boot_def)
  then show ?thesis using that s(2) by blast
qed

text \<open>A program that loads the map behind descriptor 3 twice.\<close>

definition ex_ld_map :: "u32 \<Rightarrow> bpf_insn list" where
  "ex_ld_map fd = [BPF_RAW_INSN (BPF_LD OR BPF_IMM OR BPF_DW) 1 BPF_PSEUDO_MAP_FD 0 fd, BPF_RAW_INSN 0 0 0 0 0]"


text \<open>A program that names a descriptor of a file that is not a map loses a reference of that file:
  both the failed lookup and its caller drop the reference \<open>fdget\<close> took.\<close>

theorem replace_map_fd_double_put:
  assumes "fds (vsys v) (unat fd) = Some f" and "\<forall>m. f \<noteq> MapFile m"
  shows "replace_map_fd_with_map_ptr addr True (ex_ld_map fd @ rest) v
    = (Err EINVAL, v\<lparr>f_count := (f_count v)(unat fd := f_count v (unat fd) - 1)\<rparr>)"
  using assms
  by (cases f) (simp_all add: replace_map_fd_with_map_ptr_def ex_ld_map_def replace_insn_def map_of_fd_def bpf_fields bpf_macros Let_def
      fdput_def fdget_def add_count_def)

theorem replace_map_fd_double_put_witness:
  "f_count (snd (replace_map_fd_with_map_ptr (\<lambda>m. 0x1000) True (ex_ld_map 5)
     \<lparr>vsys = boot\<lparr>fds := [5 \<mapsto> OtherFile]\<rparr>, f_count = (\<lambda>_. 1), used_maps = []\<rparr>)) 5 = 0"
  using replace_map_fd_double_put [of "\<lparr>vsys = boot\<lparr>fds := [5 \<mapsto> OtherFile]\<rparr>, f_count = (\<lambda>_. 1), used_maps = []\<rparr>" 5 OtherFile "\<lambda>m. 0x1000" "[]"]
  by simp

end
