(* ===== verification/Bpf_Fixup.thy ===== *)
theory Bpf_Fixup
  imports Bpf_Cfg Bpf_Convert
begin

text \<open>
  How an accepted program is rewritten before it runs: accesses to the fields of \<open>struct __sk_buff\<close>
  become accesses to the socket buffer (\<open>convert_ctx_accesses\<close> and \<open>adjust_branches\<close> of
  \<^verbatim>\<open>kernel/bpf/verifier.c\<close>, \<open>bpf_net_convert_ctx_access\<close> and the access checks of
  \<^verbatim>\<open>net/core/filter.c\<close>, with \<open>CONFIG_NET_SCHED\<close>).
\<close>

section \<open>Fields of the context\<close>

record ctx_layout = skb_layout +
  off_priority :: u16
  off_skb_iif :: u16
  off_cb_data :: u16 \<comment> \<open>\<open>cb\<close> plus the offset of \<open>data\<close> in \<open>struct qdisc_skb_cb\<close>\<close>
  off_cb_tc_classid :: u16
  off_tc_index :: u16

text \<open>Offsets in \<open>struct __sk_buff\<close>, whose fields are all 32 bits wide.\<close>

abbreviation (input) ctx_len :: int where "ctx_len \<equiv> 0"
abbreviation (input) ctx_pkt_type :: int where "ctx_pkt_type \<equiv> 4"
abbreviation (input) ctx_mark :: int where "ctx_mark \<equiv> 8"
abbreviation (input) ctx_queue_mapping :: int where "ctx_queue_mapping \<equiv> 12"
abbreviation (input) ctx_protocol :: int where "ctx_protocol \<equiv> 16"
abbreviation (input) ctx_vlan_present :: int where "ctx_vlan_present \<equiv> 20"
abbreviation (input) ctx_vlan_tci :: int where "ctx_vlan_tci \<equiv> 24"
abbreviation (input) ctx_vlan_proto :: int where "ctx_vlan_proto \<equiv> 28"
abbreviation (input) ctx_priority :: int where "ctx_priority \<equiv> 32"
abbreviation (input) ctx_ingress_ifindex :: int where "ctx_ingress_ifindex \<equiv> 36"
abbreviation (input) ctx_ifindex :: int where "ctx_ifindex \<equiv> 40"
abbreviation (input) ctx_tc_index :: int where "ctx_tc_index \<equiv> 44"
abbreviation (input) ctx_cb0 :: int where "ctx_cb0 \<equiv> 48"
abbreviation (input) ctx_cb4 :: int where "ctx_cb4 \<equiv> 64"
abbreviation (input) ctx_hash :: int where "ctx_hash \<equiv> 68"
abbreviation (input) ctx_tc_classid :: int where "ctx_tc_classid \<equiv> 72"
abbreviation (input) sizeof_ctx :: int where "sizeof_ctx \<equiv> 76"

text \<open>\<open>off % size\<close> is only evaluated for offsets that are not negative.\<close>

definition is_valid_access :: "int \<Rightarrow> int \<Rightarrow> bool" where \<comment> \<open>\<open>__is_valid_access\<close>\<close>
  "is_valid_access off sz \<longleftrightarrow>
     (if off < 0 \<or> off \<ge> sizeof_ctx then False else if off mod sz \<noteq> 0 then False else sz = 4)"

definition sk_filter_is_valid_access :: "int \<Rightarrow> int \<Rightarrow> bool \<Rightarrow> bool" where
  "sk_filter_is_valid_access off sz write \<longleftrightarrow>
     (if off = ctx_tc_classid then False
      else if write \<and> \<not> (ctx_cb0 \<le> off \<and> off \<le> ctx_cb4) then False
      else is_valid_access off sz)"

definition tc_cls_act_is_valid_access :: "int \<Rightarrow> int \<Rightarrow> bool \<Rightarrow> bool" where
  "tc_cls_act_is_valid_access off sz write \<longleftrightarrow>
     (if off = ctx_tc_classid then write
      else if write \<and> off \<notin> {ctx_mark, ctx_tc_index, ctx_priority} \<and> \<not> (ctx_cb0 \<le> off \<and> off \<le> ctx_cb4) then False
      else is_valid_access off sz)"

text \<open>The instructions for an access, and whether it sets \<open>cb_access\<close> of the program.\<close>

definition bpf_net_convert_ctx_access :: "ctx_layout \<Rightarrow> bool \<Rightarrow> reg \<Rightarrow> reg \<Rightarrow> int \<Rightarrow> bpf_insn list \<times> bool" where
  "bpf_net_convert_ctx_access L write dst_reg src_reg ctx_off =
     (let rw = (\<lambda>sz off. if write then BPF_STX_MEM sz dst_reg src_reg off else BPF_LDX_MEM sz dst_reg src_reg off);
          skb = (\<lambda>field. convert_skb_access (skb_layout.truncate L) field dst_reg src_reg)
      in
      if ctx_off = ctx_len then ([BPF_LDX_MEM BPF_W dst_reg src_reg (off_len L)], False)
      else if ctx_off = ctx_protocol then ([BPF_LDX_MEM BPF_H dst_reg src_reg (off_protocol L)], False)
      else if ctx_off = ctx_vlan_proto then ([BPF_LDX_MEM BPF_H dst_reg src_reg (off_vlan_proto L)], False)
      else if ctx_off = ctx_priority then ([rw BPF_W (off_priority L)], False)
      else if ctx_off = ctx_ingress_ifindex then ([BPF_LDX_MEM BPF_W dst_reg src_reg (off_skb_iif L)], False)
      else if ctx_off = ctx_ifindex then
        ([BPF_LDX_MEM BPF_DW dst_reg src_reg (off_dev L), BPF_JMP_IMM BPF_JEQ dst_reg 0 1,
          BPF_LDX_MEM BPF_W dst_reg dst_reg (off_ifindex L)], False)
      else if ctx_off = ctx_hash then ([BPF_LDX_MEM BPF_W dst_reg src_reg (off_hash L)], False)
      else if ctx_off = ctx_mark then ([rw BPF_W (off_mark L)], False)
      else if ctx_off = ctx_pkt_type then (skb SKF_AD_PKTTYPE, False)
      else if ctx_off = ctx_queue_mapping then (skb SKF_AD_QUEUE, False)
      else if ctx_off = ctx_vlan_present then (skb SKF_AD_VLAN_TAG_PRESENT, False)
      else if ctx_off = ctx_vlan_tci then (skb SKF_AD_VLAN_TAG, False)
      else if ctx_cb0 \<le> ctx_off \<and> ctx_off \<le> ctx_cb4 then
        ([rw BPF_W (of_int (ctx_off - ctx_cb0) + off_cb_data L)], True)
      else if ctx_off = ctx_tc_classid then ([BPF_STX_MEM BPF_H dst_reg src_reg (off_cb_tc_classid L)], False)
      else if ctx_off = ctx_tc_index then ([rw BPF_H (off_tc_index L)], False)
      else ([], False))"

section \<open>Patching the program\<close>

definition adjust_insn :: "nat \<Rightarrow> nat \<Rightarrow> nat \<Rightarrow> bpf_insn \<Rightarrow> bpf_insn" where
  "adjust_insn pos delta i insn =
     (if BPF_CLASS (bi_code insn) \<noteq> BPF_JMP \<or> BPF_OP (bi_code insn) = BPF_CALL \<or> BPF_OP (bi_code insn) = BPF_EXIT then insn
      else if i < pos \<and> int i + sint (bi_off insn) + 1 > int pos then insn\<lparr>bi_off := bi_off insn + of_nat delta\<rparr>
      else if i > pos \<and> int i + sint (bi_off insn) + 1 < int pos then insn\<lparr>bi_off := bi_off insn - of_nat delta\<rparr>
      else insn)"

definition adjust_branches :: "bpf_insn list \<Rightarrow> nat \<Rightarrow> nat \<Rightarrow> bpf_insn list" where
  "adjust_branches insns pos delta = map2 (adjust_insn pos delta) [0..<length insns] insns"

abbreviation (input) CTX_ACCESS_MARK :: u32 where "CTX_ACCESS_MARK \<equiv> 2"
abbreviation (input) INSN_BUF_SIZE :: nat where "INSN_BUF_SIZE \<equiv> 16"

text \<open>
  The loop of \<open>convert_ctx_accesses\<close> at index \<open>i\<close>. \<open>conv\<close> is the converter of the program type, \<open>realloc_ok n\<close>
  whether the program can grow to \<open>n\<close> instructions, \<open>cb\<close> the flag \<open>cb_access\<close>.
\<close>

type_synonym ctx_conv = "bool \<Rightarrow> reg \<Rightarrow> reg \<Rightarrow> int \<Rightarrow> bpf_insn list \<times> bool"

definition patch :: "nat \<Rightarrow> bpf_insn list \<Rightarrow> bpf_insn list \<Rightarrow> bpf_insn list" where
  "patch i buf prog = adjust_branches (take i prog @ buf @ drop (Suc i) prog) i (length buf - 1)"

lemma length_patch: "i < length prog \<Longrightarrow> length (patch i buf prog) = length prog + length buf - 1"
  by (simp add: patch_def adjust_branches_def)

function ctx_loop :: "ctx_conv \<Rightarrow> (nat \<Rightarrow> bool) \<Rightarrow> nat \<Rightarrow> bpf_insn list \<Rightarrow> bool \<Rightarrow> (bpf_insn list \<times> bool) result" where
  "ctx_loop conv realloc_ok i prog cb =
     (if i \<ge> length prog then Ok (prog, cb)
      else
        (let insn = prog ! i; code = bi_code insn in
         if code = (BPF_LDX OR BPF_MEM OR BPF_W) \<or> code = (BPF_STX OR BPF_MEM OR BPF_W) then
           (if bi_imm insn \<noteq> CTX_ACCESS_MARK then ctx_loop conv realloc_ok (Suc i) (prog[i := insn\<lparr>bi_imm := 0\<rparr>]) cb
            else
              (let (buf, acc) = conv (code = (BPF_STX OR BPF_MEM OR BPF_W)) (bi_dst insn) (bi_src insn) (sint (bi_off insn));
                   cnt = length buf
               in
               if cnt = 0 \<or> cnt \<ge> INSN_BUF_SIZE then Err EINVAL
               else if cnt = 1 then ctx_loop conv realloc_ok (Suc i) (prog[i := hd buf]) (cb \<or> acc)
               else if \<not> realloc_ok (length prog + cnt - 1) then Err ENOMEM
               else ctx_loop conv realloc_ok (i + cnt) (patch i buf prog) (cb \<or> acc)))
         else ctx_loop conv realloc_ok (Suc i) prog cb))"
  by pat_completeness auto
termination
  by (relation "measure (\<lambda>(conv, ok, i, prog, cb). length prog - i)") (auto simp: length_patch)

declare ctx_loop.simps [simp del]

definition convert_ctx_accesses ::
  "ctx_conv option \<Rightarrow> (nat \<Rightarrow> bool) \<Rightarrow> bpf_insn list \<Rightarrow> bool \<Rightarrow> (bpf_insn list \<times> bool) result" where
  "convert_ctx_accesses convert_ctx_access realloc_ok prog cb =
     (case convert_ctx_access of None \<Rightarrow> Ok (prog, cb) | Some conv \<Rightarrow> ctx_loop conv realloc_ok 0 prog cb)"

section \<open>Specification\<close>

definition is_branch :: "bpf_insn \<Rightarrow> bool" where
  "is_branch insn \<longleftrightarrow> BPF_CLASS (bi_code insn) = BPF_JMP \<and> BPF_OP (bi_code insn) \<noteq> BPF_CALL \<and> BPF_OP (bi_code insn) \<noteq> BPF_EXIT"

definition target :: "bpf_insn list \<Rightarrow> nat \<Rightarrow> int" where
  "target prog i = int i + sint (bi_off (prog ! i)) + 1"

text \<open>The instructions that replace one instruction.\<close>

definition is_ctx_insn :: "bpf_insn \<Rightarrow> bool" where
  "is_ctx_insn insn \<longleftrightarrow> bi_code insn = (BPF_LDX OR BPF_MEM OR BPF_W) \<or> bi_code insn = (BPF_STX OR BPF_MEM OR BPF_W)"

definition block :: "ctx_conv \<Rightarrow> bpf_insn \<Rightarrow> bpf_insn list" where
  "block conv insn =
     (if \<not> is_ctx_insn insn then [insn]
      else if bi_imm insn \<noteq> CTX_ACCESS_MARK then [insn\<lparr>bi_imm := 0\<rparr>]
      else fst (conv (bi_code insn = (BPF_STX OR BPF_MEM OR BPF_W)) (bi_dst insn) (bi_src insn) (sint (bi_off insn))))"

text \<open>Every branch goes forward and stays inside.\<close>

definition forward :: "bpf_insn list \<Rightarrow> bool" where
  "forward prog \<longleftrightarrow> (\<forall>i < length prog. is_branch (prog ! i) \<longrightarrow> int i < target prog i \<and> target prog i \<le> int (length prog))"

text \<open>Where inserting \<open>d\<close> instructions behind position \<open>i\<close> moves a position, and an instruction placed at \<open>a\<close> that jumps to \<open>b\<close>.\<close>

definition rel :: "nat \<Rightarrow> nat \<Rightarrow> nat \<Rightarrow> nat" where
  "rel i d x = (if x \<le> i then x else x + d)"

definition reloc :: "bpf_insn \<Rightarrow> nat \<Rightarrow> nat \<Rightarrow> bpf_insn" where
  "reloc insn a b = insn\<lparr>bi_off := of_int (int b - int a - 1)\<rparr>"

lemma reloc_simps [simp]:
  "reloc (reloc insn a b) a' b' = reloc insn a' b'" "is_branch (reloc insn a b) = is_branch insn"
  "bi_off (reloc insn a b) = of_int (int b - int a - 1)"
  by (simp_all add: reloc_def is_branch_def)

lemma reloc_self:
  assumes "int b = int a + sint (bi_off insn) + 1"
  shows "reloc insn a b = insn"
proof -
  have "int b - int a - 1 = sint (bi_off insn)" using assms by simp
  then show ?thesis by (simp add: reloc_def)
qed

lemma sint_u16_of_int: "- 0x8000 \<le> k \<Longrightarrow> k \<le> 0x7fff \<Longrightarrow> sint (of_int k :: u16) = k"
  by (simp add: signed_of_int signed_take_bit_int_eq_self)

lemma adjust_branches_nth:
  "x < length insns \<Longrightarrow> adjust_branches insns pos d ! x = adjust_insn pos d x (insns ! x)"
  "length (adjust_branches insns pos d) = length insns"
  by (simp_all add: adjust_branches_def)

lemma adjust_insn_other: "\<not> is_branch insn \<Longrightarrow> adjust_insn pos d x insn = insn"
  by (auto simp: adjust_insn_def is_branch_def)

lemma adjust_insn_branch:
  assumes "is_branch insn"
  shows "adjust_insn pos d x insn =
    (if x < pos \<and> int x + sint (bi_off insn) + 1 > int pos then insn\<lparr>bi_off := bi_off insn + of_nat d\<rparr>
     else if x > pos \<and> int x + sint (bi_off insn) + 1 < int pos then insn\<lparr>bi_off := bi_off insn - of_nat d\<rparr> else insn)"
  using assms by (simp add: adjust_insn_def is_branch_def)

lemma is_branch_adjust [simp]: "is_branch (adjust_insn pos d x insn) = is_branch insn"
  by (auto simp: adjust_insn_def is_branch_def)

text \<open>A patched program at the old instructions and at the new ones.\<close>

lemma patch_old:
  assumes "i < length prog" and "x < length prog" and "x \<noteq> i" and "buf \<noteq> []" and "d = length buf - 1"
  shows "patch i buf prog ! rel i d x = adjust_insn i d (rel i d x) (prog ! x)"
proof -
  have "length buf = Suc d" using assms(4,5) by (cases buf) auto
  then have "(take i prog @ buf @ drop (Suc i) prog) ! rel i d x = prog ! x" "rel i d x < length (take i prog @ buf @ drop (Suc i) prog)"
    using assms(1-3) by (auto simp: rel_def nth_append)
  then show ?thesis using assms(5) by (simp add: patch_def adjust_branches_nth)
qed

lemma patch_new:
  assumes "i < length prog" and "k < length buf" and "is_branch (buf ! k) \<Longrightarrow> 0 \<le> sint (bi_off (buf ! k))"
  shows "patch i buf prog ! (i + k) = buf ! k"
proof -
  have "(take i prog @ buf @ drop (Suc i) prog) ! (i + k) = buf ! k" using assms(1,2) by (simp add: nth_append)
  then show ?thesis using assms by (cases "is_branch (buf ! k)") (auto simp: patch_def adjust_branches_nth adjust_insn_other adjust_insn_branch)
qed

lemma patch_forward_branch:
  assumes "i < length prog" and "x < length prog" and "x \<noteq> i" and "buf \<noteq> []" and "d = length buf - 1"
    and "is_branch (prog ! x)" and "int x < target prog x"
  shows "patch i buf prog ! rel i d x = reloc (prog ! x) (rel i d x) (rel i d (nat (target prog x)))"
proof -
  let ?off = "sint (bi_off (prog ! x))"
  have off: "0 \<le> ?off" using assms(7) by (simp add: target_def)
  consider "i < x" | "x < i" "target prog x \<le> int i" | "x < i" "int i < target prog x" using assms(3) by linarith
  then show ?thesis
  proof cases
    case 1
    then show ?thesis unfolding patch_old [OF assms(1-5)] using off assms(6)
      by (simp add: adjust_insn_branch rel_def target_def reloc_self nat_add_distrib)
  next
    case 2
    then show ?thesis unfolding patch_old [OF assms(1-5)] using off assms(6)
      by (simp add: adjust_insn_branch rel_def target_def reloc_self)
  next
    case 3
    then have "int (rel i d (nat (target prog x))) = int x + ?off + 1 + int d" by (auto simp: rel_def target_def)
    then have "bi_off (prog ! x) + of_nat d = of_int (int (rel i d (nat (target prog x))) - int x - 1)" by simp
    then show ?thesis unfolding patch_old [OF assms(1-5)] using 3 assms(6)
      by (simp add: adjust_insn_branch rel_def [of i d x] target_def reloc_def)
  qed
qed

section \<open>The contract of a converter\<close>

text \<open>What the rewriting relies on: jumps inside the replacement go forward and do not leave it.\<close>

locale ctx_converter =
  fixes conv :: ctx_conv
  assumes internal: "k < length (fst (conv w d r off)) \<Longrightarrow> is_branch (fst (conv w d r off) ! k) \<Longrightarrow>
    0 \<le> sint (bi_off (fst (conv w d r off) ! k)) \<and>
    int k + sint (bi_off (fst (conv w d r off) ! k)) + 1 \<le> int (length (fst (conv w d r off)))"
begin

text \<open>The result of the loop from index \<open>i\<close>, described by the new position \<open>R x\<close> of every old instruction \<open>x\<close>.\<close>

definition layout :: "nat \<Rightarrow> bpf_insn list \<Rightarrow> bpf_insn list \<Rightarrow> (nat \<Rightarrow> nat) \<Rightarrow> bool" where
  "layout i prog prog' R \<longleftrightarrow>
     (\<forall>x \<le> i. R x = x) \<and> length prog' = R (length prog) \<and>
     (\<forall>x. i \<le> x \<and> x < length prog \<longrightarrow> R (Suc x) = R x + length (block conv (prog ! x))) \<and>
     (\<forall>x < i. \<not> is_branch (prog ! x) \<longrightarrow> prog' ! x = prog ! x) \<and>
     (\<forall>x k. i \<le> x \<and> x < length prog \<and> k < length (block conv (prog ! x)) \<and> \<not> is_branch (prog ! x) \<longrightarrow>
        prog' ! (R x + k) = block conv (prog ! x) ! k) \<and>
     (\<forall>x < length prog. is_branch (prog ! x) \<longrightarrow> prog' ! R x = reloc (prog ! x) (R x) (R (nat (target prog x))))"

lemma block_internal:
  assumes "k < length (block conv insn)" and "is_branch (block conv insn ! k)" and "\<not> is_branch insn"
  shows "0 \<le> sint (bi_off (block conv insn ! k)) \<and> int k + sint (bi_off (block conv insn ! k)) + 1 \<le> int (length (block conv insn))"
  using assms internal unfolding block_def by (auto simp: is_branch_def split: if_splits)

lemma branch_not_ctx: "is_branch insn \<Longrightarrow> \<not> is_ctx_insn insn"
  by (auto simp: is_branch_def is_ctx_insn_def bpf_fields)

text \<open>Every iteration is a patch by the block of the instruction, which may have length one.\<close>

lemma patch_single:
  assumes "i < length prog" and "length buf = 1"
  shows "patch i buf prog = prog[i := hd buf]"
proof -
  obtain b where b: "buf = [b]" using assms(2) by (metis One_nat_def length_0_conv length_Suc_conv)
  have "adjust_insn i 0 x insn = insn" for x insn by (simp add: adjust_insn_def)
  then have "adjust_branches insns i 0 = insns" for insns
    by (intro nth_equalityI) (simp_all add: adjust_branches_nth)
  then show ?thesis using b assms(1) by (simp add: patch_def upd_conv_take_nth_drop)
qed

lemma ctx_loop_end: "i \<ge> length prog \<Longrightarrow> ctx_loop conv ok i prog cb = Ok (prog, cb)"
  by (simp add: ctx_loop.simps)

lemma ctx_loop_step:
  assumes "i < length prog" and "ctx_loop conv ok i prog cb = Ok r"
  obtains cb' where "block conv (prog ! i) \<noteq> []"
    and "ctx_loop conv ok (i + length (block conv (prog ! i))) (patch i (block conv (prog ! i)) prog) cb' = Ok r"
proof -
  let ?insn = "prog ! i"
  consider (plain) "\<not> is_ctx_insn ?insn" | (clear) "is_ctx_insn ?insn" "bi_imm ?insn \<noteq> CTX_ACCESS_MARK"
    | (conv) "is_ctx_insn ?insn" "bi_imm ?insn = CTX_ACCESS_MARK" by blast
  then show ?thesis
  proof cases
    case plain
    then have "ctx_loop conv ok (Suc i) prog cb = Ok r" and b: "block conv ?insn = [?insn]"
      using assms by (auto simp: ctx_loop.simps [of conv ok i] is_ctx_insn_def Let_def block_def)
    then show ?thesis using that [of cb] patch_single [OF assms(1), of "[?insn]"] by simp
  next
    case clear
    then have "ctx_loop conv ok (Suc i) (prog[i := ?insn\<lparr>bi_imm := 0\<rparr>]) cb = Ok r" and b: "block conv ?insn = [?insn\<lparr>bi_imm := 0\<rparr>]"
      using assms by (auto simp: ctx_loop.simps [of conv ok i] is_ctx_insn_def Let_def block_def)
    then show ?thesis using that [of cb] patch_single [OF assms(1), of "[?insn\<lparr>bi_imm := 0\<rparr>]"] by simp
  next
    case conv
    obtain buf acc where c: "conv (bi_code ?insn = (BPF_STX OR BPF_MEM OR BPF_W)) (bi_dst ?insn) (bi_src ?insn) (sint (bi_off ?insn)) = (buf, acc)"
      by fastforce
    then have b: "block conv ?insn = buf" using conv by (simp add: block_def)
    have "buf \<noteq> [] \<and> (length buf = 1 \<and> ctx_loop conv ok (Suc i) (prog[i := hd buf]) (cb \<or> acc) = Ok r \<or>
        length buf \<noteq> 1 \<and> ctx_loop conv ok (i + length buf) (patch i buf prog) (cb \<or> acc) = Ok r)"
      using assms conv c by (auto simp: ctx_loop.simps [of conv ok i] is_ctx_insn_def Let_def split: if_splits)
    then show ?thesis using that [of "cb \<or> acc"] b patch_single [OF assms(1), of buf] by auto
  qed
qed

lemma ctx_loop_length:
  "ctx_loop conv ok i prog cb = Ok (prog', cb') \<Longrightarrow> length prog \<le> length prog'"
proof (induction "length prog - i" arbitrary: i prog cb rule: less_induct)
  case less
  show ?case
  proof (cases "i < length prog")
    case True
    from ctx_loop_step [OF True less.prems] obtain cb2 where b: "block conv (prog ! i) \<noteq> []"
        "ctx_loop conv ok (i + length (block conv (prog ! i))) (patch i (block conv (prog ! i)) prog) cb2 = Ok (prog', cb')" .
    then have "0 < length (block conv (prog ! i))" by simp
    then have "length (patch i (block conv (prog ! i)) prog) - (i + length (block conv (prog ! i))) < length prog - i"
      "length prog \<le> length (patch i (block conv (prog ! i)) prog)" using True by (simp_all only: length_patch)
    then show ?thesis using less.hyps [OF _ b(2)] by linarith
  next
    case False
    then show ?thesis using less.prems by (simp add: ctx_loop_end)
  qed
qed

lemma length_patch_grow: "i < length prog \<Longrightarrow> B \<noteq> [] \<Longrightarrow> length (patch i B prog) = length prog + (length B - 1)"
  by (cases B) (simp_all add: length_patch)

lemma patch_cases:
  assumes "i < length prog" and "B \<noteq> []" and "y < length (patch i B prog)"
  obtains (old) x where "y = rel i (length B - 1) x" "x < length prog" "x \<noteq> i" | (new) k where "y = i + k" "k < length B"
proof (cases "i \<le> y \<and> y < i + length B")
  case True
  then have "y = i + (y - i)" "y - i < length B" by linarith+
  then show ?thesis by (rule new)
next
  case False
  then show ?thesis
  proof (cases "y < i")
    case True then show ?thesis using old [of y] assms(1) by (simp add: rel_def)
  next
    case False
    then have "i + length B \<le> y" using \<open>\<not> (i \<le> y \<and> y < i + length B)\<close> by simp
    moreover have "0 < length B" using assms(2) by simp
    moreover have "y < length prog + (length B - 1)" using assms(3) length_patch_grow [OF assms(1,2)] by simp
    ultimately have "i < y - (length B - 1)" "y - (length B - 1) + (length B - 1) = y" "y - (length B - 1) < length prog"
      using assms(1) by linarith+
    then show ?thesis using old [of "y - (length B - 1)"] by (simp add: rel_def)
  qed
qed

lemma target_patch_old:
  assumes fwd: "forward prog" and i: "i < length prog" "B \<noteq> []" "length (patch i B prog) \<le> 0x7fff"
    and x: "x < length prog" "x \<noteq> i" "is_branch (prog ! x)"
  shows "target (patch i B prog) (rel i (length B - 1) x) = int (rel i (length B - 1) (nat (target prog x)))"
proof -
  let ?d = "length B - 1"
  let ?a = "rel i ?d x" and ?b = "rel i ?d (nat (target prog x))"
  have t: "int x < target prog x" "target prog x \<le> int (length prog)" using fwd x by (auto simp: forward_def)
  have "length (patch i B prog) = length prog + ?d" using i(1,2) by (rule length_patch_grow)
  then have "?a < ?b" "?b \<le> length (patch i B prog)" using t by (auto simp: rel_def)
  then have "sint (of_int (int ?b - int ?a - 1) :: u16) = int ?b - int ?a - 1" using i(3) by (intro sint_u16_of_int) auto
  then show ?thesis using patch_forward_branch [OF i(1) x(1,2) i(2) refl x(3) t(1)] by (simp add: target_def)
qed

lemma forward_patch:
  assumes fwd: "forward prog" and i: "i < length prog" "B \<noteq> []" "length (patch i B prog) \<le> 0x7fff"
    and int: "\<And>k. k < length B \<Longrightarrow> is_branch (B ! k) \<Longrightarrow> 0 \<le> sint (bi_off (B ! k)) \<and> int k + sint (bi_off (B ! k)) + 1 \<le> int (length B)"
  shows "forward (patch i B prog)"
  unfolding forward_def
proof (intro allI impI)
  have len: "0 < length B" "length (patch i B prog) = length prog + (length B - 1)" using i(1,2) by (auto simp: length_patch_grow)
  fix y assume y: "y < length (patch i B prog)" "is_branch (patch i B prog ! y)"
  from i(1,2) y(1) show "int y < target (patch i B prog) y \<and> target (patch i B prog) y \<le> int (length (patch i B prog))"
  proof (cases rule: patch_cases)
    case (old x)
    then have br: "is_branch (prog ! x)" using y(2) patch_old [OF i(1) old(2,3) i(2) refl] by simp
    have "int x < target prog x" "target prog x \<le> int (length prog)" using fwd old(2) br by (auto simp: forward_def)
    then show ?thesis using target_patch_old [OF fwd i old(2,3) br] old(1) len by (auto simp: rel_def)
  next
    case (new k)
    then have "patch i B prog ! y = B ! k" "is_branch (B ! k)"
      using patch_new [OF i(1) new(2)] int [OF new(2)] y(2) i(1)
      by (auto simp: patch_def adjust_branches_nth nth_append)
    then show ?thesis using int [OF new(2)] new(1) len i(1) by (auto simp: target_def)
  qed
qed

lemma patch_behind:
  assumes "forward prog" and "i < length prog" and "B \<noteq> []" and "i < x" and "x < length prog"
  shows "patch i B prog ! (x + (length B - 1)) = prog ! x"
proof -
  have r: "rel i (length B - 1) x = x + (length B - 1)" using assms(4) by (simp add: rel_def)
  show ?thesis
  proof (cases "is_branch (prog ! x)")
    case True
    then have "0 \<le> sint (bi_off (prog ! x))" using assms(1,5) by (auto simp: forward_def target_def)
    then show ?thesis using patch_old [of i prog x B, OF assms(2,5) _ assms(3) refl] True assms(4) r by (simp add: adjust_insn_branch)
  next
    case False
    then show ?thesis using patch_old [of i prog x B, OF assms(2,5) _ assms(3) refl] assms(4) r by (simp add: adjust_insn_other)
  qed
qed

lemma layout_step:
  assumes fwd: "forward prog" and i: "i < length prog" and B: "B = block conv (prog ! i)" "B \<noteq> []" "\<not> is_branch (prog ! i)"
    and len: "length (patch i B prog) \<le> 0x7fff" and lay: "layout (i + length B) (patch i B prog) prog' R'"
  shows "layout i prog prog' (\<lambda>x. R' (rel i (length B - 1) x))"
proof -
  let ?d = "length B - 1" and ?p = "patch i B prog"
  let ?R = "\<lambda>x. R' (rel i ?d x)"
  have B0: "0 < length B" using B(2) by simp
  have lp: "length ?p = length prog + ?d" using i B(2) by (rule length_patch_grow)
  have low: "R' x = x" if "x \<le> i + length B" for x using lay that by (simp add: layout_def)
  have behind: "?p ! (x + ?d) = prog ! x" if "i < x" "x < length prog" for x using patch_behind [OF fwd i B(2) that] .
  have new: "?p ! (i + k) = B ! k" if "k < length B" for k
    using patch_new [OF i that] block_internal [of k "prog ! i"] that B by blast
  have inside: "prog' ! (i + k) = B ! k" if k: "k < length B" for k
  proof (cases "is_branch (B ! k)")
    case True
    then have b: "0 \<le> sint (bi_off (B ! k))" "int k + sint (bi_off (B ! k)) + 1 \<le> int (length B)"
      using block_internal [of k "prog ! i"] k B by auto
    let ?t = "nat (target ?p (i + k))"
    have t: "int ?t = int (i + k) + sint (bi_off (B ! k)) + 1" using b(1) new [OF k] by (simp add: target_def)
    have "i + k < length ?p" using lp k i by linarith
    then have "prog' ! R' (i + k) = reloc (?p ! (i + k)) (R' (i + k)) (R' ?t)"
      using lay True new [OF k] unfolding layout_def by metis
    moreover have "?t \<le> i + length B" using t b(2) by linarith
    then have "R' (i + k) = i + k" "R' ?t = ?t" using low k by simp_all
    ultimately show ?thesis using new [OF k] reloc_self [OF t] by simp
  next
    case False
    then show ?thesis using lay new [OF k] k unfolding layout_def by simp
  qed
  show ?thesis unfolding layout_def
  proof (intro conjI allI impI)
    show "?R x = x" if "x \<le> i" for x using that low by (simp add: rel_def)
    show "length prog' = ?R (length prog)" using lay lp i by (simp add: layout_def rel_def)
    show "?R (Suc x) = ?R x + length (block conv (prog ! x))" if x: "i \<le> x \<and> x < length prog" for x
    proof (cases "x = i")
      case True
      have "rel i ?d (Suc i) = i + length B" using B0 by (cases B) (simp_all add: rel_def)
      then have "?R (Suc i) = i + length B" using low [of "i + length B"] by simp
      then show ?thesis using True low [of i] B(1) by (simp add: rel_def)
    next
      case False
      then have "i + length B \<le> x + ?d \<and> x + ?d < length ?p" using x lp by linarith
      then have "R' (Suc (x + ?d)) = R' (x + ?d) + length (block conv (?p ! (x + ?d)))" using lay by (simp add: layout_def)
      then show ?thesis using False x behind [of x] by (simp add: rel_def)
    qed
    show "prog' ! x = prog ! x" if x: "x < i" "\<not> is_branch (prog ! x)" for x
    proof -
      have "?p ! x = prog ! x" using patch_old [of i prog x B, OF i _ _ B(2) refl] x i by (simp add: rel_def adjust_insn_other)
      then show ?thesis using lay x unfolding layout_def by simp
    qed
    show "prog' ! (?R x + k) = block conv (prog ! x) ! k"
      if x: "i \<le> x \<and> x < length prog \<and> k < length (block conv (prog ! x)) \<and> \<not> is_branch (prog ! x)" for x k
    proof (cases "x = i")
      case True
      then show ?thesis using inside [of k] x low [of i] B(1) by (simp add: rel_def)
    next
      case False
      then have "i + length B \<le> x + ?d \<and> x + ?d < length ?p" using x lp by linarith
      then show ?thesis using lay False x behind [of x] unfolding layout_def by (simp add: rel_def)
    qed
    show "prog' ! ?R x = reloc (prog ! x) (?R x) (?R (nat (target prog x)))" if x: "x < length prog" "is_branch (prog ! x)" for x
    proof -
      have xi: "x \<noteq> i" using x(2) B(3) by auto
      have t: "int x < target prog x" using fwd x by (simp add: forward_def)
      have r: "rel i ?d x < length ?p" using x(1) lp by (simp add: rel_def)
      note n = patch_forward_branch [OF i x(1) xi B(2) refl x(2) t]
      have "prog' ! ?R x = reloc (?p ! rel i ?d x) (?R x) (R' (nat (target ?p (rel i ?d x))))"
        using lay r n x(2) unfolding layout_def by simp
      then show ?thesis using n target_patch_old [OF fwd i B(2) len x(1) xi x(2)] by simp
    qed
  qed
qed

lemma ctx_loop_layout:
  "ctx_loop conv ok i prog cb = Ok (prog', cb') \<Longrightarrow> i \<le> length prog \<Longrightarrow> forward prog \<Longrightarrow> length prog' \<le> 0x7fff \<Longrightarrow>
    \<exists>R. layout i prog prog' R"
proof (induction "length prog - i" arbitrary: i prog cb rule: less_induct)
  case less
  show ?case
  proof (cases "i < length prog")
    case True
    let ?B = "block conv (prog ! i)"
    from ctx_loop_step [OF True less.prems(1)] obtain cb2 where b: "?B \<noteq> []"
        "ctx_loop conv ok (i + length ?B) (patch i ?B prog) cb2 = Ok (prog', cb')" .
    have len: "length (patch i ?B prog) = length prog + (length ?B - 1)" "0 < length ?B" using length_patch_grow [OF True b(1)] b(1) by auto
    have fit: "length (patch i ?B prog) \<le> 0x7fff" using ctx_loop_length [OF b(2)] less.prems(4) by simp
    have m: "length (patch i ?B prog) - (i + length ?B) < length prog - i" "i + length ?B \<le> length (patch i ?B prog)"
      using len True by linarith+
    show ?thesis
    proof (cases "is_branch (prog ! i)")
      case False
      have "forward (patch i ?B prog)" using forward_patch [OF less.prems(3) True b(1) fit] block_internal False by blast
      then obtain R' where "layout (i + length ?B) (patch i ?B prog) prog' R'" using less.hyps [OF m(1) b(2) m(2)] less.prems(4) by blast
      then show ?thesis using layout_step [OF less.prems(3) True refl b(1) False fit] by blast
    next
      case br: True
      then have "?B = [prog ! i]" using branch_not_ctx by (simp add: block_def)
      then have p: "patch i ?B prog = prog" "length ?B = 1" using patch_single [OF True, of ?B] by simp_all
      then obtain R' where R': "layout (Suc i) prog prog' R'" using less.hyps [OF m(1) b(2) m(2)] less.prems(3,4) by auto
      have "layout i prog prog' R'" unfolding layout_def
      proof (intro conjI allI impI)
        show "R' (Suc x) = R' x + length (block conv (prog ! x))" if "i \<le> x \<and> x < length prog" for x
          using R' that p(2) by (cases "x = i") (auto simp: layout_def)
        show "prog' ! (R' x + k) = block conv (prog ! x) ! k"
          if "i \<le> x \<and> x < length prog \<and> k < length (block conv (prog ! x)) \<and> \<not> is_branch (prog ! x)" for x k
          using R' that br by (cases "x = i") (auto simp: layout_def)
      qed (use R' in \<open>simp_all add: layout_def\<close>)
      then show ?thesis by blast
    qed
  next
    case False
    then have "prog' = prog" "i = length prog" using less.prems(1,2) by (simp_all add: ctx_loop_end)
    moreover have "prog ! x = reloc (prog ! x) x (nat (target prog x))" if "x < length prog" "is_branch (prog ! x)" for x
    proof (rule reloc_self [symmetric])
      show "int (nat (target prog x)) = int x + sint (bi_off (prog ! x)) + 1"
        using less.prems(3) that by (auto simp: forward_def target_def)
    qed
    ultimately have "layout i prog prog' (\<lambda>x. x)" unfolding layout_def by force
    then show ?thesis by blast
  qed
qed

text \<open>The new positions are the sums of the lengths of the blocks before.\<close>

abbreviation (input) position :: "bpf_insn list \<Rightarrow> nat \<Rightarrow> nat" where
  "position prog x \<equiv> length (concat (map (block conv) (take x prog)))"

lemma layout_position:
  assumes "layout 0 prog prog' R"
  shows "x \<le> length prog \<Longrightarrow> R x = position prog x"
proof (induction x)
  case 0 then show ?case using assms by (simp add: layout_def)
next
  case (Suc x) then show ?case using assms by (simp add: layout_def take_Suc_conv_app_nth)
qed

lemma position_mono: "x \<le> y \<Longrightarrow> position prog x \<le> position prog y"
proof -
  assume "x \<le> y"
  then have "take y prog = take x prog @ take (y - x) (drop x prog)" by (metis le_add_diff_inverse take_add)
  then show ?thesis by simp
qed

lemma convert_layout:
  assumes run: "convert_ctx_accesses (Some conv) ok prog cb = Ok (prog', cb')" and fwd: "forward prog" and len: "length prog' \<le> 0x7fff"
  shows "length prog' = position prog (length prog) \<and>
    (\<forall>x < length prog. \<not> is_branch (prog ! x) \<longrightarrow>
       take (length (block conv (prog ! x))) (drop (position prog x) prog') = block conv (prog ! x)) \<and>
    (\<forall>x < length prog. is_branch (prog ! x) \<longrightarrow>
       (\<exists>off. prog' ! position prog x = (prog ! x)\<lparr>bi_off := off\<rparr> \<and>
          int (position prog x) + sint off + 1 = int (position prog (nat (target prog x)))))"
proof (intro conjI allI impI)
  obtain R where lay: "layout 0 prog prog' R" using ctx_loop_layout [of ok 0 prog cb prog' cb'] assms by (auto simp: convert_ctx_accesses_def)
  note R = layout_position [OF lay]
  show l: "length prog' = position prog (length prog)" using lay R by (simp add: layout_def)
  fix x assume x: "x < length prog"
  have step: "position prog (Suc x) = position prog x + length (block conv (prog ! x))" using x by (simp add: take_Suc_conv_app_nth)
  have fits: "position prog (Suc x) \<le> length prog'" unfolding l using x by (intro position_mono) simp
  show "take (length (block conv (prog ! x))) (drop (position prog x) prog') = block conv (prog ! x)" if "\<not> is_branch (prog ! x)"
  proof (rule nth_equalityI)
    show "length (take (length (block conv (prog ! x))) (drop (position prog x) prog')) = length (block conv (prog ! x))"
      using fits step by simp
    fix k assume "k < length (take (length (block conv (prog ! x))) (drop (position prog x) prog'))"
    then have k: "k < length (block conv (prog ! x))" by simp
    then have "prog' ! (R x + k) = block conv (prog ! x) ! k" using lay x that unfolding layout_def by blast
    then show "take (length (block conv (prog ! x))) (drop (position prog x) prog') ! k = block conv (prog ! x) ! k"
      using R [of x] x k fits step by simp
  qed
  assume br: "is_branch (prog ! x)"
  let ?t = "nat (target prog x)"
  have t: "x < ?t" "?t \<le> length prog" using fwd x br by (auto simp: forward_def)
  then have "position prog (Suc x) \<le> position prog ?t" "position prog ?t \<le> length prog'"
    unfolding l by (intro position_mono; simp)+
  then have d: "0 \<le> int (position prog ?t) - int (position prog x) - 1" "int (position prog ?t) - int (position prog x) - 1 \<le> 0x7fff"
    using step br len branch_not_ctx [OF br] by (auto simp: block_def)
  have "prog' ! R x = reloc (prog ! x) (R x) (R ?t)" using lay x br by (simp add: layout_def)
  then show "\<exists>off. prog' ! position prog x = (prog ! x)\<lparr>bi_off := off\<rparr> \<and>
      int (position prog x) + sint off + 1 = int (position prog ?t)"
    using R x t sint_u16_of_int [of "int (position prog ?t) - int (position prog x) - 1"] d
    by (intro exI [of _ "of_int (int (position prog ?t) - int (position prog x) - 1)"]) (simp add: reloc_def)
qed

end

interpretation net: ctx_converter "bpf_net_convert_ctx_access L"
proof
  fix k w d r off
  let ?b = "fst (bpf_net_convert_ctx_access L w d r off)"
  assume k: "k < length ?b" and br: "is_branch (?b ! k)"
  have "list_all (\<lambda>i. \<not> is_branch i) ?b" if "off \<noteq> ctx_ifindex"
    using that by (simp add: bpf_net_convert_ctx_access_def convert_skb_access_def Let_def is_branch_def bpf_macros bpf_fields)
  then have off: "off = ctx_ifindex" using br k by (auto simp: list_all_length)
  then have "k = 1" using k br by (auto simp: bpf_net_convert_ctx_access_def is_branch_def bpf_macros bpf_fields less_Suc_eq)
  then show "0 \<le> sint (bi_off (?b ! k)) \<and> int k + sint (bi_off (?b ! k)) + 1 \<le> int (length ?b)"
    using off by (simp add: bpf_net_convert_ctx_access_def bpf_macros)
qed

section \<open>Properties\<close>

text \<open>C22. Rewriting the context accesses of a program all of whose branches go forward replaces every access
  in place by the instructions of its conversion, keeps every other instruction, and redirects every branch
  to the new position of its old target.\<close>

theorem convert_ctx_accesses_correct:
  fixes L :: ctx_layout
  defines "blk \<equiv> block (bpf_net_convert_ctx_access L)"
  assumes "convert_ctx_accesses (Some (bpf_net_convert_ctx_access L)) ok prog cb = Ok (prog', cb')"
    and "forward prog" and "length prog' \<le> 0x7fff"
  shows "length prog' = length (concat (map blk prog)) \<and>
    (\<forall>x < length prog. \<not> is_branch (prog ! x) \<longrightarrow>
       take (length (blk (prog ! x))) (drop (length (concat (map blk (take x prog)))) prog') = blk (prog ! x)) \<and>
    (\<forall>x < length prog. is_branch (prog ! x) \<longrightarrow>
       (\<exists>off. prog' ! length (concat (map blk (take x prog))) = (prog ! x)\<lparr>bi_off := off\<rparr> \<and>
          int (length (concat (map blk (take x prog)))) + sint off + 1
            = int (length (concat (map blk (take (nat (target prog x)) prog))))))"
  using net.convert_layout [OF assms(2-4)] unfolding blk_def by simp

definition ex_layout :: ctx_layout where
  "ex_layout = \<lparr>off_mark = 140, off_pkt_type = 125, off_queue_mapping = 118, off_vlan_tci = 134, off_protocol = 180,
     off_dev = 16, off_hash = 128, off_vlan_proto = 132, off_len = 104, off_ifindex = 256, off_dev_type = 512,
     fn_pay_offset = 8, fn_nlattr = 16, fn_nlattr_nest = 24, fn_raw_cpu_id = 32, fn_user_rnd = 40,
     off_priority = 120, off_skb_iif = 124, off_cb_data = 48, off_cb_tc_classid = 44, off_tc_index = 116\<rparr>"

text \<open>A jump over a load of the interface index, which becomes three instructions.\<close>

definition ex_ctx_prog :: "bpf_insn list" where
  "ex_ctx_prog =
     [BPF_JMP_IMM BPF_JEQ 1 0 1,
      (BPF_LDX_MEM BPF_W 0 1 40)\<lparr>bi_imm := CTX_ACCESS_MARK\<rparr>,
      BPF_EXIT_INSN]"

theorem convert_ctx_accesses_correct_witness:
  "\<exists>prog' cb'. convert_ctx_accesses (Some (bpf_net_convert_ctx_access ex_layout)) (\<lambda>_. True) ex_ctx_prog False = Ok (prog', cb') \<and>
     length prog' = 5 \<and> prog' ! 0 = BPF_JMP_IMM BPF_JEQ 1 0 3"
proof -
  have "case convert_ctx_accesses (Some (bpf_net_convert_ctx_access ex_layout)) (\<lambda>_. True) ex_ctx_prog False of
      Ok (prog', cb') \<Rightarrow> length prog' = 5 \<and> prog' ! 0 = BPF_JMP_IMM BPF_JEQ 1 0 3 | _ \<Rightarrow> False" by code_simp
  then obtain prog' cb' where r: "convert_ctx_accesses (Some (bpf_net_convert_ctx_access ex_layout)) (\<lambda>_. True) ex_ctx_prog False = Ok (prog', cb')"
      "length prog' = 5" "prog' ! 0 = BPF_JMP_IMM BPF_JEQ 1 0 3" by (auto split: result.splits)
  have "forward ex_ctx_prog" by code_simp
  from convert_ctx_accesses_correct [OF r(1) this] r show ?thesis by auto
qed

text \<open>C39. Inserting \<open>d\<close> instructions in place of the one at \<open>pos\<close> redirects the branch of another instruction
  to the new position of its target exactly when the branch is not a backward branch from behind \<open>pos\<close> to one of the
  last \<open>d\<close> instructions up to \<open>pos\<close>: those are left unchanged and land \<open>d\<close> instructions too far.\<close>

theorem adjust_branches_exact:
  assumes "pos < length prog" and "x < length prog" and "x \<noteq> pos" and "is_branch (prog ! x)" and "length buf = Suc d" and "0 < d"
    and "0 \<le> target prog x" and "target prog x \<le> int (length prog)" and "length prog + d \<le> 0x7fff"
  shows "target (patch pos buf prog) (rel pos d x) = int (rel pos d (nat (target prog x))) \<longleftrightarrow>
    \<not> (pos < x \<and> int pos - int d \<le> target prog x \<and> target prog x \<le> int pos)"
proof -
  let ?o = "bi_off (prog ! x)" and ?t = "target prog x"
  have b: "buf \<noteq> []" "d = length buf - 1" using assms(5) by auto
  have t: "?t = int x + sint ?o + 1" by (simp add: target_def)
  have up: "sint (?o + of_nat d) = sint ?o + int d" if "x < pos"
    using sint_u16_of_int [of "sint ?o + int d"] t that assms(1,7-9) by simp
  have down: "sint (?o - of_nat d) = sint ?o - int d" if "pos < x"
    using sint_u16_of_int [of "sint ?o - int d"] t that assms(2,7-9) by simp
  have n: "target (patch pos buf prog) (rel pos d x)
      = int (rel pos d x) + sint (bi_off (adjust_insn pos d (rel pos d x) (prog ! x))) + 1"
    unfolding target_def patch_old [OF assms(1-3) b] ..
  show ?thesis
  proof (cases "x < pos")
    case True
    then show ?thesis unfolding n using up t assms(4,7) by (auto simp: adjust_insn_branch rel_def)
  next
    case False
    then show ?thesis unfolding n using down t assms(3,4,6,7) by (auto simp: adjust_insn_branch rel_def)
  qed
qed

text \<open>
  A program that the control flow check accepts, with a branch back to a load of the interface index. The
  load becomes three instructions; the branch then lands on the third, which dereferences the register the first two
  would have set.
\<close>

definition ex_back :: "bpf_insn list" where
  "ex_back = [BPF_JMP_IMM BPF_JEQ 1 0 2, (BPF_LDX_MEM BPF_W 0 1 40)\<lparr>bi_imm := CTX_ACCESS_MARK\<rparr>, BPF_EXIT_INSN,
     BPF_RAW_INSN (BPF_JMP OR BPF_JA) 0 0 (- 3) 0]"

theorem adjust_branches_exact_witness:
  "is_ok (check_cfg True True ex_back (replicate 4 False)) \<and> target ex_back 3 = 1 \<and>
   target (patch 1 (fst (bpf_net_convert_ctx_access ex_layout False 0 1 40)) ex_back) 5 \<noteq> 1"
proof -
  have ok: "is_ok (check_cfg True True ex_back (replicate 4 False))" by code_simp
  have "target ex_back 3 = 1" "is_branch (ex_back ! 3)" "length (fst (bpf_net_convert_ctx_access ex_layout False 0 1 40)) = Suc 2"
    "length ex_back = 4" by code_simp+
  then show ?thesis
    using ok adjust_branches_exact [of 1 ex_back 3 "fst (bpf_net_convert_ctx_access ex_layout False 0 1 40)" 2]
    by (simp add: rel_def)
qed

end
