(* ===== verification/Bpf_Helpers.thy ===== *)
theory Bpf_Helpers
  imports Bpf_World Bpf_Fixup
begin

text \<open>
  The types of programs with what they offer the verifier: the prototypes of the helper functions
  (\<^verbatim>\<open>kernel/bpf/helpers.c\<close>, \<^verbatim>\<open>net/core/filter.c\<close>, \<^verbatim>\<open>kernel/trace/bpf_trace.c\<close>) and the checks of context accesses, which
  are interpreted in the contract \<open>ctx_checker\<close>. The context of a probe is the register frame of 64-bit x86.
\<close>

section \<open>Prototypes\<close>

definition bpf_map_lookup_elem_proto :: bpf_func_proto where
  "bpf_map_lookup_elem_proto = \<lparr>gpl_only = False, ret_type = RET_PTR_TO_MAP_VALUE_OR_NULL, arg_types = [ARG_CONST_MAP_PTR, ARG_PTR_TO_MAP_KEY]\<rparr>"

definition bpf_map_update_elem_proto :: bpf_func_proto where
  "bpf_map_update_elem_proto = \<lparr>gpl_only = False, ret_type = RET_INTEGER,
     arg_types = [ARG_CONST_MAP_PTR, ARG_PTR_TO_MAP_KEY, ARG_PTR_TO_MAP_VALUE, ARG_ANYTHING]\<rparr>"

definition bpf_map_delete_elem_proto :: bpf_func_proto where
  "bpf_map_delete_elem_proto = \<lparr>gpl_only = False, ret_type = RET_INTEGER, arg_types = [ARG_CONST_MAP_PTR, ARG_PTR_TO_MAP_KEY]\<rparr>"

definition bpf_get_prandom_u32_proto :: bpf_func_proto where
  "bpf_get_prandom_u32_proto = \<lparr>gpl_only = False, ret_type = RET_INTEGER, arg_types = []\<rparr>"

definition bpf_get_smp_processor_id_proto :: bpf_func_proto where
  "bpf_get_smp_processor_id_proto = \<lparr>gpl_only = False, ret_type = RET_INTEGER, arg_types = []\<rparr>"

definition bpf_ktime_get_ns_proto :: bpf_func_proto where
  "bpf_ktime_get_ns_proto = \<lparr>gpl_only = True, ret_type = RET_INTEGER, arg_types = []\<rparr>"

definition bpf_get_current_pid_tgid_proto :: bpf_func_proto where
  "bpf_get_current_pid_tgid_proto = \<lparr>gpl_only = False, ret_type = RET_INTEGER, arg_types = []\<rparr>"

definition bpf_get_current_uid_gid_proto :: bpf_func_proto where
  "bpf_get_current_uid_gid_proto = \<lparr>gpl_only = False, ret_type = RET_INTEGER, arg_types = []\<rparr>"

definition bpf_get_current_comm_proto :: bpf_func_proto where
  "bpf_get_current_comm_proto = \<lparr>gpl_only = False, ret_type = RET_INTEGER, arg_types = [ARG_PTR_TO_STACK, ARG_CONST_STACK_SIZE]\<rparr>"

definition bpf_tail_call_proto :: bpf_func_proto where
  "bpf_tail_call_proto = \<lparr>gpl_only = False, ret_type = RET_VOID, arg_types = [ARG_PTR_TO_CTX, ARG_CONST_MAP_PTR, ARG_ANYTHING]\<rparr>"

definition bpf_skb_store_bytes_proto :: bpf_func_proto where
  "bpf_skb_store_bytes_proto = \<lparr>gpl_only = False, ret_type = RET_INTEGER,
     arg_types = [ARG_PTR_TO_CTX, ARG_ANYTHING, ARG_PTR_TO_STACK, ARG_CONST_STACK_SIZE, ARG_ANYTHING]\<rparr>"

definition bpf_l3_csum_replace_proto :: bpf_func_proto where
  "bpf_l3_csum_replace_proto = \<lparr>gpl_only = False, ret_type = RET_INTEGER,
     arg_types = [ARG_PTR_TO_CTX, ARG_ANYTHING, ARG_ANYTHING, ARG_ANYTHING, ARG_ANYTHING]\<rparr>"

definition bpf_l4_csum_replace_proto :: bpf_func_proto where
  "bpf_l4_csum_replace_proto = \<lparr>gpl_only = False, ret_type = RET_INTEGER,
     arg_types = [ARG_PTR_TO_CTX, ARG_ANYTHING, ARG_ANYTHING, ARG_ANYTHING, ARG_ANYTHING]\<rparr>"

definition bpf_clone_redirect_proto :: bpf_func_proto where
  "bpf_clone_redirect_proto = \<lparr>gpl_only = False, ret_type = RET_INTEGER, arg_types = [ARG_PTR_TO_CTX, ARG_ANYTHING, ARG_ANYTHING]\<rparr>"

definition bpf_redirect_proto :: bpf_func_proto where
  "bpf_redirect_proto = \<lparr>gpl_only = False, ret_type = RET_INTEGER, arg_types = [ARG_ANYTHING, ARG_ANYTHING]\<rparr>"

definition bpf_get_cgroup_classid_proto :: bpf_func_proto where
  "bpf_get_cgroup_classid_proto = \<lparr>gpl_only = False, ret_type = RET_INTEGER, arg_types = [ARG_PTR_TO_CTX]\<rparr>"

definition bpf_get_route_realm_proto :: bpf_func_proto where
  "bpf_get_route_realm_proto = \<lparr>gpl_only = False, ret_type = RET_INTEGER, arg_types = [ARG_PTR_TO_CTX]\<rparr>"

definition bpf_skb_vlan_push_proto :: bpf_func_proto where
  "bpf_skb_vlan_push_proto = \<lparr>gpl_only = False, ret_type = RET_INTEGER, arg_types = [ARG_PTR_TO_CTX, ARG_ANYTHING, ARG_ANYTHING]\<rparr>"

definition bpf_skb_vlan_pop_proto :: bpf_func_proto where
  "bpf_skb_vlan_pop_proto = \<lparr>gpl_only = False, ret_type = RET_INTEGER, arg_types = [ARG_PTR_TO_CTX]\<rparr>"

definition bpf_skb_get_tunnel_key_proto :: bpf_func_proto where
  "bpf_skb_get_tunnel_key_proto = \<lparr>gpl_only = False, ret_type = RET_INTEGER,
     arg_types = [ARG_PTR_TO_CTX, ARG_PTR_TO_STACK, ARG_CONST_STACK_SIZE, ARG_ANYTHING]\<rparr>"

definition bpf_skb_set_tunnel_key_proto :: bpf_func_proto where
  "bpf_skb_set_tunnel_key_proto = \<lparr>gpl_only = False, ret_type = RET_INTEGER,
     arg_types = [ARG_PTR_TO_CTX, ARG_PTR_TO_STACK, ARG_CONST_STACK_SIZE, ARG_ANYTHING]\<rparr>"

definition bpf_probe_read_proto :: bpf_func_proto where
  "bpf_probe_read_proto = \<lparr>gpl_only = True, ret_type = RET_INTEGER, arg_types = [ARG_PTR_TO_STACK, ARG_CONST_STACK_SIZE, ARG_ANYTHING]\<rparr>"

definition bpf_trace_printk_proto :: bpf_func_proto where
  "bpf_trace_printk_proto = \<lparr>gpl_only = True, ret_type = RET_INTEGER, arg_types = [ARG_PTR_TO_STACK, ARG_CONST_STACK_SIZE]\<rparr>"

definition bpf_perf_event_read_proto :: bpf_func_proto where
  "bpf_perf_event_read_proto = \<lparr>gpl_only = True, ret_type = RET_INTEGER, arg_types = [ARG_CONST_MAP_PTR, ARG_ANYTHING]\<rparr>"

definition bpf_perf_event_output_proto :: bpf_func_proto where
  "bpf_perf_event_output_proto = \<lparr>gpl_only = True, ret_type = RET_INTEGER,
     arg_types = [ARG_PTR_TO_CTX, ARG_CONST_MAP_PTR, ARG_ANYTHING, ARG_PTR_TO_STACK, ARG_CONST_STACK_SIZE]\<rparr>"

section \<open>The helpers of each type of program\<close>

text \<open>The numbers of \<open>enum bpf_func_id\<close>; \<open>admin\<close> is \<open>capable(CAP_SYS_ADMIN)\<close>.\<close>

definition sk_filter_func_proto :: "bool \<Rightarrow> nat \<Rightarrow> bpf_func_proto option" where
  "sk_filter_func_proto admin func_id =
     (if func_id = 1 then Some bpf_map_lookup_elem_proto
      else if func_id = 2 then Some bpf_map_update_elem_proto
      else if func_id = 3 then Some bpf_map_delete_elem_proto
      else if func_id = 7 then Some bpf_get_prandom_u32_proto
      else if func_id = 8 then Some bpf_get_smp_processor_id_proto
      else if func_id = 12 then Some bpf_tail_call_proto
      else if func_id = 5 then Some bpf_ktime_get_ns_proto
      else if func_id = 6 \<and> admin then Some bpf_trace_printk_proto
      else None)"

text \<open>\<open>md_dst_ok\<close> tells whether \<open>md_dst\<close> is there or can be allocated.\<close>

definition bpf_get_skb_set_tunnel_key_proto :: "bool \<Rightarrow> bpf_func_proto option" where
  "bpf_get_skb_set_tunnel_key_proto md_dst_ok = (if md_dst_ok then Some bpf_skb_set_tunnel_key_proto else None)"

definition tc_cls_act_func_proto :: "bool \<Rightarrow> bool \<Rightarrow> nat \<Rightarrow> bpf_func_proto option" where
  "tc_cls_act_func_proto admin md_dst_ok func_id =
     (if func_id = 9 then Some bpf_skb_store_bytes_proto
      else if func_id = 10 then Some bpf_l3_csum_replace_proto
      else if func_id = 11 then Some bpf_l4_csum_replace_proto
      else if func_id = 13 then Some bpf_clone_redirect_proto
      else if func_id = 17 then Some bpf_get_cgroup_classid_proto
      else if func_id = 18 then Some bpf_skb_vlan_push_proto
      else if func_id = 19 then Some bpf_skb_vlan_pop_proto
      else if func_id = 20 then Some bpf_skb_get_tunnel_key_proto
      else if func_id = 21 then bpf_get_skb_set_tunnel_key_proto md_dst_ok
      else if func_id = 23 then Some bpf_redirect_proto
      else if func_id = 24 then Some bpf_get_route_realm_proto
      else sk_filter_func_proto admin func_id)"

definition kprobe_prog_func_proto :: "nat \<Rightarrow> bpf_func_proto option" where
  "kprobe_prog_func_proto func_id =
     (if func_id = 1 then Some bpf_map_lookup_elem_proto
      else if func_id = 2 then Some bpf_map_update_elem_proto
      else if func_id = 3 then Some bpf_map_delete_elem_proto
      else if func_id = 4 then Some bpf_probe_read_proto
      else if func_id = 5 then Some bpf_ktime_get_ns_proto
      else if func_id = 12 then Some bpf_tail_call_proto
      else if func_id = 14 then Some bpf_get_current_pid_tgid_proto
      else if func_id = 15 then Some bpf_get_current_uid_gid_proto
      else if func_id = 16 then Some bpf_get_current_comm_proto
      else if func_id = 6 then Some bpf_trace_printk_proto
      else if func_id = 8 then Some bpf_get_smp_processor_id_proto
      else if func_id = 22 then Some bpf_perf_event_read_proto
      else if func_id = 25 then Some bpf_perf_event_output_proto
      else None)"

section \<open>The context of each type of program\<close>

abbreviation (input) sizeof_pt_regs :: int where "sizeof_pt_regs \<equiv> 168"

definition kprobe_prog_is_valid_access :: "int \<Rightarrow> int \<Rightarrow> bool \<Rightarrow> bool" where
  "kprobe_prog_is_valid_access off sz write \<longleftrightarrow>
     (if off < 0 \<or> off \<ge> sizeof_pt_regs then False else if write then False else off mod sz = 0)"

interpretation skf_ctx: ctx_checker 76 sk_filter_is_valid_access
  by unfold_locales (auto simp: sk_filter_is_valid_access_def is_valid_access_def split: if_splits)

interpretation kprobe_ctx: ctx_checker 168 kprobe_prog_is_valid_access
proof
  fix sz :: nat and off w
  assume sz: "sz \<in> {1, 2, 4, 8}" and v: "kprobe_prog_is_valid_access off (int sz) w"
  have "0 \<le> off" "off < 168" "int sz dvd off" using v by (auto simp: kprobe_prog_is_valid_access_def split: if_splits)
  moreover have "int sz dvd 168" using sz by auto
  ultimately have "int sz dvd 168 - off" "0 < 168 - off" by simp_all
  then have "int sz \<le> 168 - off" by (rule zdvd_imp_le)
  then show "0 \<le> off \<and> off + int sz \<le> int 168" using \<open>0 \<le> off\<close> by simp
qed

section \<open>The types\<close>

text \<open>\<open>sk_filter_ops\<close>, \<open>tc_cls_act_ops\<close> and \<open>kprobe_prog_ops\<close> as the verifier sees them for a given user, license and maps.\<close>

definition sk_filter_ops :: "bool \<Rightarrow> bool \<Rightarrow> (u64 \<Rightarrow> map_info) \<Rightarrow> verifier_prog" where
  "sk_filter_ops admin gpl info =
     \<lparr>prog_type = PROG_TYPE_SOCKET_FILTER, is_valid_access_op = Some sk_filter_is_valid_access,
      get_func_proto = Some (sk_filter_func_proto admin), gpl_compatible = gpl, allow_ptr_leaks = admin, map_at = info\<rparr>"

definition tc_cls_act_ops :: "bpf_prog_type \<Rightarrow> bool \<Rightarrow> bool \<Rightarrow> bool \<Rightarrow> (u64 \<Rightarrow> map_info) \<Rightarrow> verifier_prog" where
  "tc_cls_act_ops type admin md_dst_ok gpl info =
     \<lparr>prog_type = type, is_valid_access_op = Some tc_cls_act_is_valid_access,
      get_func_proto = Some (tc_cls_act_func_proto admin md_dst_ok), gpl_compatible = gpl, allow_ptr_leaks = admin, map_at = info\<rparr>"

definition kprobe_prog_ops :: "bool \<Rightarrow> bool \<Rightarrow> (u64 \<Rightarrow> map_info) \<Rightarrow> verifier_prog" where
  "kprobe_prog_ops admin gpl info =
     \<lparr>prog_type = PROG_TYPE_KPROBE, is_valid_access_op = Some kprobe_prog_is_valid_access,
      get_func_proto = Some kprobe_prog_func_proto, gpl_compatible = gpl, allow_ptr_leaks = admin, map_at = info\<rparr>"

lemma sk_filter_accesses_ok:
  "frame_apart (sk_filter_ops admin gpl info) W \<Longrightarrow> w_ctx_size W = 76 \<Longrightarrow> accesses_ok (sk_filter_ops admin gpl info) W"
  using skf_ctx.ctx_checker_axioms by (simp add: accesses_ok_def sk_filter_ops_def)

lemma kprobe_accesses_ok:
  "frame_apart (kprobe_prog_ops admin gpl info) W \<Longrightarrow> w_ctx_size W = 168 \<Longrightarrow> accesses_ok (kprobe_prog_ops admin gpl info) W"
  using kprobe_ctx.ctx_checker_axioms by (simp add: accesses_ok_def kprobe_prog_ops_def)

text \<open>
  The check of the classifiers admits any width at \<open>tc_classid\<close>, the last field: an eight-byte store there is
  accepted although it leaves the context.
\<close>

lemma tc_ctx_overrun: "tc_cls_act_is_valid_access 72 8 True \<and> \<not> ctx_checker 76 tc_cls_act_is_valid_access"
proof -
  have v: "tc_cls_act_is_valid_access 72 8 True" by (simp add: tc_cls_act_is_valid_access_def)
  have "\<not> ctx_checker 76 tc_cls_act_is_valid_access"
  proof
    assume "ctx_checker 76 tc_cls_act_is_valid_access"
    from ctx_checker.inside [OF this, of 8 72 True] v show False by simp
  qed
  then show ?thesis using v by blast
qed

end
