(* ===== verification/Bpf_Prog_Check.thy ===== *)
theory Bpf_Prog_Check
  imports Bpf_Verifier_Total Bpf_Used_Maps Bpf_Helpers
begin

text \<open>
  The verifier as a whole, \<open>bpf_check\<close> of \<^verbatim>\<open>kernel/bpf/verifier.c\<close>: binding the program to its maps, the control flow
  check, the symbolic execution and the rewriting of context accesses, with the references on maps on every path.
  The text of the log is not modelled; whether it fills its buffer is an argument.
\<close>

section \<open>The driver\<close>

record log_attr =
  log_level :: u32
  log_buf :: u64
  log_size :: u32

text \<open>Outcomes of the allocations and of the copies to user space.\<close>

record check_oracle =
  ck_env :: bool
  ck_log_buf :: bool
  ck_states :: bool
  ck_insn_state :: bool
  ck_insn_stack :: bool
  ck_visit :: "nat \<Rightarrow> bool"
  ck_push :: "nat \<Rightarrow> bool"
  ck_realloc :: "nat \<Rightarrow> bool"
  ck_log_full :: bool
  ck_log_copy :: bool
  ck_used_maps :: bool

text \<open>The part of a program \<open>bpf_check\<close> works on; \<open>pr_used_maps\<close> is empty when \<open>aux->used_maps\<close> is \<open>NULL\<close>.\<close>

record bpf_prog_info =
  pr_insns :: "bpf_insn list"
  pr_cb_access :: bool
  pr_used_maps :: "nat list"

definition log_error :: "check_oracle \<Rightarrow> log_attr \<Rightarrow> errno option" where
  "log_error orc attr =
     (if log_level attr \<noteq> 0 \<or> log_buf attr \<noteq> 0 \<or> log_size attr \<noteq> 0 then
        (if log_size attr < 128 \<or> log_size attr > drop_bit 8 (- 1) \<or> log_level attr = 0 \<or> log_buf attr = 0 then Some EINVAL
         else if \<not> ck_log_buf orc then Some ENOMEM
         else None)
      else None)"

text \<open>The passes between the binding of maps and the label \<open>skip_full_check\<close>, and the conversion behind it.\<close>

definition full_check ::
  "verifier_prog \<Rightarrow> ctx_conv option \<Rightarrow> check_oracle \<Rightarrow> bpf_insn list \<Rightarrow> (bpf_insn list \<times> bool) result" where
  "full_check p conv orc insns =
     (if \<not> ck_states orc then Err ENOMEM
      else
        rbind (check_cfg (ck_insn_state orc) (ck_insn_stack orc) insns (replicate (length insns) False)) (\<lambda>marked.
        rbind (do_check p (ck_visit orc) (ck_push orc) insns marked) (\<lambda>insns.
          convert_ctx_accesses conv (ck_realloc orc) insns False)))"

text \<open>The log: running out of space and a failed copy replace the outcome.\<close>

definition finish_log :: "check_oracle \<Rightarrow> log_attr \<Rightarrow> 'a result \<Rightarrow> 'a result" where
  "finish_log orc attr r =
     (case r of
        Undef u \<Rightarrow> Undef u
      | _ \<Rightarrow> if log_level attr \<noteq> 0 \<and> \<not> ck_log_copy orc then Err EFAULT
             else if log_level attr \<noteq> 0 \<and> ck_log_full orc then Err ENOSPC
             else r)"

text \<open>A program that is kept takes over the references on its maps.\<close>

definition keep_maps :: "check_oracle \<Rightarrow> nat list \<Rightarrow> bpf_insn list \<times> bool \<Rightarrow> bpf_prog_info result" where
  "keep_maps orc ms res =
     (case res of (insns, cb) \<Rightarrow>
        if ms = [] then Ok \<lparr>pr_insns = insns, pr_cb_access = cb, pr_used_maps = []\<rparr>
        else if \<not> ck_used_maps orc then Err ENOMEM
        else Ok \<lparr>pr_insns = convert_pseudo_ld_imm64 insns, pr_cb_access = cb, pr_used_maps = ms\<rparr>)"

definition free_env :: "bpf_prog_info result \<Rightarrow> verifier_maps \<Rightarrow> bpf_prog_info result \<times> verifier_maps" where
  "free_env r v =
     (case r of
        Ok pr \<Rightarrow> if pr_used_maps pr \<noteq> [] then (r, v)
                  else (case release_maps (used_maps v) (vsys v) of Undef u \<Rightarrow> (Undef u, v) | Err e \<Rightarrow> (Err e, v) | Ok s \<Rightarrow> (r, v\<lparr>vsys := s\<rparr>))
      | Undef u \<Rightarrow> (Undef u, v)
      | Err e \<Rightarrow> (case release_maps (used_maps v) (vsys v) of Undef u \<Rightarrow> (Undef u, v) | Err e' \<Rightarrow> (Err e', v) | Ok s \<Rightarrow> (r, v\<lparr>vsys := s\<rparr>)))"

definition bpf_check ::
  "verifier_prog \<Rightarrow> ctx_conv option \<Rightarrow> (nat \<Rightarrow> u64) \<Rightarrow> bool \<Rightarrow> check_oracle \<Rightarrow> log_attr \<Rightarrow> bpf_insn list \<Rightarrow> verifier_maps
    \<Rightarrow> bpf_prog_info result \<times> verifier_maps" where
  "bpf_check p conv addr shared orc attr insns v =
     (if length insns = 0 \<or> length insns > BPF_MAXINSNS then (Err E2BIG, v)
      else if \<not> ck_env orc then (Err ENOMEM, v)
      else
        (let v = v\<lparr>used_maps := []\<rparr> in
         case log_error orc attr of
           Some e \<Rightarrow> free_env (Err e) v
         | None \<Rightarrow>
             (case replace_map_fd_with_map_ptr addr shared insns v of (r, v) \<Rightarrow>
                free_env (rbind (finish_log orc attr (rbind r (full_check p conv orc))) (keep_maps orc (used_maps v))) v)))"



section \<open>What the binding of maps establishes\<close>

lemma ld_imm64_halves: "ucast (ucast a :: u32) OR push_bit 32 (ucast (ucast (drop_bit 32 a) :: u32)) = (a :: u64)"
  by (rule bit_word_eqI) (auto simp: bit_simps)

lemma maps_bound_Cons:
  "maps_bound W (i # is) \<longleftrightarrow> (bi_code i = (BPF_LD OR BPF_IMM OR BPF_DW) \<and> bi_src i = 1 \<and> is \<noteq> [] \<longrightarrow> ld_imm64 i (hd is) \<in> w_maps W) \<and> maps_bound W is"
  (is "?l \<longleftrightarrow> ?a \<and> ?r")
proof
  assume l: ?l
  have ?a using l [unfolded maps_bound_def, rule_format, of 0] by (simp add: hd_conv_nth)
  moreover have ?r unfolding maps_bound_def
  proof (intro allI impI)
    fix t assume "t + 1 < length is" "bi_code (is ! t) = (BPF_LD OR BPF_IMM OR BPF_DW)" "bi_src (is ! t) = 1"
    then show "ld_imm64 (is ! t) (is ! (t + 1)) \<in> w_maps W" using l [unfolded maps_bound_def, rule_format, of "Suc t"] by simp
  qed
  ultimately show "?a \<and> ?r" ..
next
  assume "?a \<and> ?r"
  then show ?l unfolding maps_bound_def by (auto simp: nth_Cons hd_conv_nth split: nat.splits)
qed

text \<open>The program is complete, and its loads of maps give maps that are recorded.\<close>

definition bound_ok :: "world \<Rightarrow> bpf_insn list \<Rightarrow> bool" where
  "bound_ok W q \<longleftrightarrow> ld_imm64_ok q \<and> ld_pseudo_ok q \<and> maps_bound W q"

lemma bound_ok_plain: "bi_code i \<noteq> (BPF_LD OR BPF_IMM OR BPF_DW) \<Longrightarrow> bound_ok W (i # is) = bound_ok W is"
  by (auto simp: bound_ok_def ld_imm64_ok_Cons maps_bound_Cons ld_pseudo_ok_def)

lemma replace_insn_bound:
  assumes "replace_insn addr shared insn rest v = (Ok pre, v')" and "addr ` set (used_maps v') \<subseteq> w_maps W"
    and "bound_ok W tl'"
  shows "bound_ok W (pre @ tl') \<and> (mov32_ok insn \<longrightarrow> (\<forall>i \<in> set pre. mov32_ok i))"
proof (cases "bi_code insn = (BPF_LD OR BPF_IMM OR BPF_DW)")
  case False
  then have "pre = [insn]" using replace_insn_ok [OF assms(1)] by blast
  then show ?thesis using assms(3) False by (simp add: bound_ok_plain)
next
  case True
  have nomov: "mov32_ok i" if "bi_code i \<in> {0, 24}" for i
    using that jumptable_code [of "bi_code i"] by (auto simp: mov32_ok_def)
  obtain insn1 rest' where rest: "rest = insn1 # rest'" using assms(1) True by (auto simp: replace_insn_def bpf_fields split: list.splits)
  consider (imm) "bi_src insn = 0" "pre = [insn, insn1]" "bi_code insn1 = 0"
    | (fd) m where "bi_src insn = 1" "bi_code insn1 = 0" "m \<in> set (used_maps v')"
        "pre = [insn\<lparr>bi_imm := ucast (addr m)\<rparr>, insn1\<lparr>bi_imm := ucast (drop_bit 32 (addr m))\<rparr>]"
    using assms(1) True rest
    by (auto simp: replace_insn_def map_of_fd_def bpf_fields Let_def split: if_splits option.splits bpf_file.splits) blast
  then show ?thesis
  proof cases
    case imm
    then show ?thesis using assms(3) True nomov [of insn1]
      by (auto simp: bound_ok_def ld_imm64_ok_Cons maps_bound_Cons ld_pseudo_ok_def)
  next
    case fd
    then have "ld_imm64 (insn\<lparr>bi_imm := ucast (addr m)\<rparr>) (insn1\<lparr>bi_imm := ucast (drop_bit 32 (addr m))\<rparr>) \<in> w_maps W"
      using assms(2) ld_imm64_halves [of "addr m"] by (auto simp: ld_imm64_def)
    then show ?thesis using assms(3) True fd nomov
      by (auto simp: bound_ok_def ld_imm64_ok_Cons maps_bound_Cons ld_pseudo_ok_def)
  qed
qed

lemma replace_loop_bound:
  assumes "replace_loop addr shared insns v = (Ok insns', v')" and "addr ` set (used_maps v') \<subseteq> w_maps W"
  shows "bound_ok W insns' \<and> ((\<forall>i \<in> set insns. mov32_ok i) \<longrightarrow> (\<forall>i \<in> set insns'. mov32_ok i))"
  using assms
proof (induction addr shared insns v arbitrary: insns' v' rule: replace_loop.induct)
  case (1 addr shared v)
  then show ?case by (auto simp: bound_ok_def ld_imm64_ok_def ld_pseudo_ok_def maps_bound_def)
next
  case (2 addr shared insn rest v)
  obtain pre v1 tl' where step: "replace_insn addr shared insn rest v = (Ok pre, v1)"
    and loop: "replace_loop addr shared (drop (length pre - 1) rest) v1 = (Ok tl', v')" and res: "insns' = pre @ tl'"
    using "2.prems" by (auto split: prod.splits result.splits)
  have mono: "set (used_maps v1) \<subseteq> set (used_maps v')" using replace_loop_refs [OF loop] by auto
  note ih = "2.IH" [OF step [symmetric] refl loop "2.prems"(2)]
  have "bound_ok W (pre @ tl') \<and> (mov32_ok insn \<longrightarrow> (\<forall>i \<in> set pre. mov32_ok i))"
    by (rule replace_insn_bound [OF step]) (use ih mono "2.prems"(2) in auto)
  moreover have "(\<forall>i \<in> set rest. mov32_ok i) \<longrightarrow> (\<forall>i \<in> set tl'. mov32_ok i)" using ih by (blast dest: in_set_dropD)
  ultimately show ?case unfolding res set_append list.set(2) by blast
qed

section \<open>Accepted programs end\<close>

text \<open>An accepted program does not contain tail calls on its paths, so program arrays do not matter.\<close>

definition no_arrays :: "bpf_env \<Rightarrow> bpf_env" where
  "no_arrays env = env\<lparr>env_array := \<lambda>_. None\<rparr>"

lemma check_one_no_tail: "check_one p cp idx insns vs = Ok res \<Longrightarrow> jumptable (bi_code (insns ! idx)) \<noteq> L_JMP JMP_TAIL_CALL"
  using jumptable_code [of "bi_code (insns ! idx)"]
  by (auto simp: check_one_def Let_def bpf_fields split: if_splits dest!: sym [of _ "bi_code (insns ! idx)"])

lemma select_insn_no_arrays:
  assumes "jumptable (bi_code (insn_prog st ! nat (insn_pc st))) \<noteq> L_JMP JMP_TAIL_CALL"
  shows "select_insn (no_arrays env) st = select_insn env st"
proof -
  have skb: "load_skb (no_arrays env) sz off s = load_skb env sz off s" for sz off s by (simp add: load_skb_def no_arrays_def)
  have ld: "exec_ld (no_arrays env) l i s = exec_ld env l i s" for l i s by (cases l) (simp_all add: skb)
  have jmp: "exec_jmp (no_arrays env) l i s = exec_jmp env l i s" if "l \<noteq> JMP_TAIL_CALL" for l i s
    using that by (cases l) (simp_all add: no_arrays_def)
  have "exec_label (no_arrays env) l i s = exec_label env l i s" if "l \<noteq> L_JMP JMP_TAIL_CALL" for l i s
    using that by (cases l) (simp_all add: ld jmp)
  then show ?thesis using assms by (auto simp: select_insn_def Let_def)
qed

lemma closed_run_no_arrays:
  assumes closed: "\<forall>x \<in> D. checked p q D {} x" and run: "runtime_ok p W env" and cond: "prog_cond W q"
    and st: "insn_prog st = q" "covered D (insn_pc st, vs)" "state_ok p W vs st"
  shows "bpf_run (no_arrays env) fuel st = bpf_run env fuel st"
  using st
proof (induction fuel arbitrary: st vs)
  case (Suc fuel)
  obtain old where old: "(insn_pc st, old) \<in> D" "state_ok p W old st"
    using Suc.prems(2,3) states_equal_covers by (auto simp: covered_def)
  obtain cp insns nx other insns' where c: "0 \<le> insn_pc st" "insn_pc st < int (length insns)" "same_marks q insns"
      "check_one p cp (nat (insn_pc st)) insns old = Ok (nx, other, insns')"
      "\<forall>j v. nx = VCont j v \<or> other = Some (j, v) \<longrightarrow> covered D (j, v)"
    using bspec [OF closed old(1)] unfolding checked_def fst_conv snd_conv empty_iff by blast
  have t: "nat (insn_pc st) < length insns" using c(1,2) by linarith
  have sel: "select_insn (no_arrays env) st = select_insn env st"
    using check_one_no_tail [OF c(4)] succs_marks(2) [OF c(3) t] Suc.prems(1) by (intro select_insn_no_arrays) simp
  show ?case
  proof (cases "select_insn env st")
    case (Cont st')
    have "vstep_ok p W q (insns ! nat (insn_pc st)) nx other (select_insn env st)"
      using check_one_sound [OF run c(4) old(2) _ t] c(1,3) cond Suc.prems(1) by simp
    then obtain v where "insn_prog st' = q" "nx = VCont (insn_pc st') v \<or> other = Some (insn_pc st', v)" "state_ok p W v st'"
      using Cont by (auto simp: reaches_def)
    then show ?thesis using Suc.IH [of st' v] c(5) Cont sel by simp
  qed (use sel in simp_all)
qed simp

lemma verified_run:
  assumes cfg: "is_ok (check_cfg a b insns mk)" and do_chk: "do_check p vo po insns marked = Ok res"
    and run: "runtime_ok p W env" and cond: "prog_cond W insns" and m: "mem_ok p W m" and len: "length insns \<le> N"
  shows "\<exists>r. bpf_prog_run env (34 * N) r0 m (w_fp W) (w_ctx W) insns = Some r \<and>
    (case r of Inl _ \<Rightarrow> True | Inr u \<Rightarrow> \<exists>i \<in> set insns. may_fault i u)"
proof -
  have ab: "a" "b" using cfg by (auto simp: check_cfg_def Let_def split: if_splits)
  obtain D where D: "\<forall>x \<in> D. checked p insns D {} x" "covered D (0, init_vstate)" using do_check_closed [OF do_chk] .
  have "bpf_prog_run (no_arrays env) (34 * N) r0 m (w_fp W) (w_ctx W) insns = bpf_prog_run env (34 * N) r0 m (w_fp W) (w_ctx W) insns"
    using closed_run_no_arrays [OF D(1) run cond _ _ init_state_ok [OF m]] D(2) by (simp add: bpf_prog_run_def init_state_def)
  moreover obtain r where "bpf_prog_run (no_arrays env) (34 * N) r0 m (w_fp W) (w_ctx W) insns = Some r"
  proof -
    have "env_ok N (no_arrays env)" by (simp add: env_ok_def no_arrays_def)
    then show thesis using bpf_prog_run_ends [of insns mk N "no_arrays env" r0 m "w_fp W" "w_ctx W"] cfg ab cond len that
      by (auto simp: prog_cond_def)
  qed
  ultimately have "bpf_prog_run env (34 * N) r0 m (w_fp W) (w_ctx W) insns = Some r" by simp
  then show ?thesis using checked_runs_safe [OF do_chk run cond m, of "34 * N" r0] by (cases r) auto
qed

section \<open>The driver, taken apart\<close>

lemma finish_log_ok: "finish_log orc attr r = Ok x \<Longrightarrow> r = Ok x"
  by (auto simp: finish_log_def split: result.splits if_splits)

lemma free_env_ok: "free_env r v = (Ok pr, v') \<Longrightarrow> r = Ok pr"
  by (auto simp: free_env_def split: result.splits if_splits)

lemma bpf_check_ok:
  assumes "bpf_check p conv addr shared orc attr insns v = (Ok pr, v')"
  obtains bound v1 marked res where
    "replace_map_fd_with_map_ptr addr shared insns (v\<lparr>used_maps := []\<rparr>) = (Ok bound, v1)" "length insns \<le> 4096"
    "check_cfg (ck_insn_state orc) (ck_insn_stack orc) bound (replicate (length bound) False) = Ok marked"
    "do_check p (ck_visit orc) (ck_push orc) bound marked = Ok res" "pr_used_maps pr = used_maps v1"
proof -
  obtain r v1 where rep: "replace_map_fd_with_map_ptr addr shared insns (v\<lparr>used_maps := []\<rparr>) = (r, v1)" by fastforce
  have len: "length insns \<le> 4096" and fe: "free_env (rbind (finish_log orc attr (rbind r (full_check p conv orc))) (keep_maps orc (used_maps v1))) v1 = (Ok pr, v')"
    using assms rep by (auto simp: bpf_check_def Let_def free_env_def [of "Err _"] split: if_splits option.splits result.splits)
  then obtain bound res' where "r = Ok bound" and full: "full_check p conv orc bound = Ok res'" "keep_maps orc (used_maps v1) res' = Ok pr"
    using free_env_ok [OF fe] finish_log_ok by (auto dest!: finish_log_ok)
  then show thesis using that [of bound v1] rep len by (auto simp: full_check_def keep_maps_def split: if_splits prod.splits)
qed

lemma check_cfg_defined: "insns \<noteq> [] \<Longrightarrow> defined (check_cfg a b insns m)"
proof (cases "a \<and> b")
  case True
  assume "insns \<noteq> []"
  then show ?thesis using True check_cfg_decides [of insns m] by (cases "cfg_ok insns") (auto simp: is_ok_iff)
qed (auto simp: check_cfg_def)

lemma vprog_ok_bound:
  assumes "replace_map_fd_with_map_ptr addr shared insns v = (Ok bound, v1)" and "check_cfg a b bound mk = Ok marked" and "insns \<noteq> []"
  shows "vprog_ok bound"
proof -
  define W where "W = \<lparr>w_fp = 0, w_ctx = 0, w_ctx_size = 0, w_maps = UNIV, w_values = \<lambda>_. {}\<rparr>"
  have ab: "a" "b" using assms(2) by (auto simp: check_cfg_def Let_def split: if_splits)
  have loop: "replace_loop addr shared insns v = (Ok bound, v1)" using assms(1) by (simp add: replace_map_fd_with_map_ptr_def)
  have "bound_ok W bound" using replace_loop_bound [OF loop, of W] by (simp add: W_def)
  moreover have ne: "bound \<noteq> []" using replace_loop_ok [OF loop] assms(3) by auto
  moreover have "cfg_ok bound" using check_cfg_decides [OF ne, of mk] assms(2) ab by (auto split: if_splits)
  ultimately show ?thesis by (simp add: vprog_ok_def bound_ok_def)
qed

lemma convert_defined: "defined (convert_ctx_accesses conv ok prog cb)"
proof -
  have "defined (ctx_loop c ok i prog cb)" for c i
    by (induction c ok i prog cb rule: ctx_loop.induct) (subst ctx_loop.simps, auto simp: Let_def split: prod.splits)
  then show ?thesis by (simp add: convert_ctx_accesses_def split: option.split)
qed

lemma full_check_defined:
  assumes "replace_map_fd_with_map_ptr addr shared insns v = (Ok bound, v1)" and "insns \<noteq> []"
  shows "defined (full_check p conv orc bound)"
proof -
  have "list_all2 same_shape insns bound" using replace_loop_ok assms(1) unfolding replace_map_fd_with_map_ptr_def by blast
  then have ne: "bound \<noteq> []" using assms(2) by auto
  have "defined (do_check p vo po bound marked)" if c: "check_cfg a b bound mk = Ok marked" for a b mk marked vo po
  proof -
    have "defined (resume p vo po 0 [(0, init_vstate)] (\<lambda>i. if i < length marked \<and> marked ! i then Some [] else None) bound)"
      using ne by (intro defined_resume [OF vprog_ok_bound [OF assms(1) c assms(2)]]) (auto simp: same_marks_def)
    then show ?thesis by (simp add: do_check_def resume_def)
  qed
  then show ?thesis unfolding full_check_def using check_cfg_defined [OF ne] convert_defined by (auto intro!: defined_rbind)
qed

lemma free_env_cases:
  assumes "release_maps (used_maps v) (vsys v) = Ok s" and "defined r"
  shows "free_env r v = (r, if (\<exists>pr. r = Ok pr \<and> pr_used_maps pr \<noteq> []) then v else v\<lparr>vsys := s\<rparr>)"
  using assms by (cases r) (auto simp: free_env_def)

lemma finish_log_defined: "defined r \<Longrightarrow> defined (finish_log orc attr r)"
  by (cases r) (auto simp: finish_log_def)

lemma bpf_check_balance:
  assumes "sys_ok held (vsys v)"
  shows "case bpf_check p conv addr shared orc attr insns v of
      (Ok pr, v') \<Rightarrow> release_maps (pr_used_maps pr) (vsys v') = Ok (vsys v) \<and>
        (\<forall>m \<in> set (pr_used_maps pr). \<exists>km. maps (vsys v) m = Some km \<and> 0 < km_refcnt km \<and> maps (vsys v') m = Some (with_ref km)) \<and>
        vsys v' = take_refs (pr_used_maps pr) (vsys v) \<and> distinct (pr_used_maps pr) \<and>
        (\<forall>m \<in> set (pr_used_maps pr). \<exists>fd. fds (vsys v) fd = Some (MapFile m))
    | (Err e, v') \<Rightarrow> vsys v' = vsys v
    | (Undef u, v') \<Rightarrow> False"
proof -
  let ?v = "v\<lparr>used_maps := []\<rparr>"
  consider (early) e where "bpf_check p conv addr shared orc attr insns v = (Err e, v)"
    | (log) e where "bpf_check p conv addr shared orc attr insns v = free_env (Err e) ?v"
    | (full) r v1 where "insns \<noteq> []" "replace_map_fd_with_map_ptr addr shared insns ?v = (r, v1)" "bpf_check p conv addr shared orc attr insns v =
        free_env (rbind (finish_log orc attr (rbind r (full_check p conv orc))) (keep_maps orc (used_maps v1))) v1"
    by (cases "replace_map_fd_with_map_ptr addr shared insns ?v"; cases "log_error orc attr";
        cases "length insns = 0 \<or> length insns > 4096"; cases "ck_env orc") (auto simp: bpf_check_def Let_def)
  then show ?thesis
  proof cases
    case early
    then show ?thesis by simp
  next
    case log
    then show ?thesis using free_env_cases [of ?v "vsys v" "Err e"] by simp
  next
    case full
    let ?r = "rbind (finish_log orc attr (rbind r (full_check p conv orc))) (keep_maps orc (used_maps v1))"
    have pre: "sys_ok held (vsys ?v)" "used_maps ?v = []" and same: "vsys ?v = vsys v" using assms by simp_all
    have rel: "release_maps (used_maps v1) (vsys v1) = Ok (vsys v)" "\<forall>u. r \<noteq> Undef u"
      "\<forall>m \<in> set (used_maps v1). \<exists>km. maps (vsys v) m = Some km \<and> 0 < km_refcnt km \<and> maps (vsys v1) m = Some (with_ref km)"
      "vsys v1 = take_refs (used_maps v1) (vsys v)" "distinct (used_maps v1)" "\<forall>m \<in> set (used_maps v1). \<exists>fd. fds (vsys v) fd = Some (MapFile m)"
      using release_after_replace [OF full(2) pre] unfolding same by blast+
    have "defined (rbind r (full_check p conv orc))"
      using rel(2) full_check_defined [of addr shared insns ?v _ v1] full(1,2) by (cases r) auto
    from finish_log_defined [OF this] have def: "defined ?r"
      by (rule defined_rbind) (auto simp: keep_maps_def split: prod.split)
    have res: "bpf_check p conv addr shared orc attr insns v = (?r, if (\<exists>pr. ?r = Ok pr \<and> pr_used_maps pr \<noteq> []) then v1 else v1\<lparr>vsys := vsys v\<rparr>)"
      unfolding full(3) by (rule free_env_cases [OF rel(1) def])
    have maps: "?r = Ok pr \<Longrightarrow> pr_used_maps pr = used_maps v1" for pr
      by (auto simp: keep_maps_def split: prod.splits if_splits)
    show ?thesis
    proof (cases ?r)
      case (Ok pr)
      show ?thesis using rel(1,3-) maps [OF Ok] unfolding res Ok by auto
    next
      case (Err e)
      show ?thesis unfolding res Err by simp
    next
      case (Undef u)
      then show ?thesis using def by simp
    qed
  qed
qed

lemma bpf_check_run:
  assumes "bpf_check p conv addr shared orc attr insns v = (Ok pr, v')" and "\<forall>i \<in> set insns. mov32_ok i"
    and "runtime_ok p W env" and "addr ` set (pr_used_maps pr) \<subseteq> w_maps W" and "mem_ok p W m"
  shows "\<exists>bound r. fst (replace_map_fd_with_map_ptr addr shared insns (v\<lparr>used_maps := []\<rparr>)) = Ok bound \<and>
    bpf_prog_run env (34 * BPF_MAXINSNS) r0 m (w_fp W) (w_ctx W) bound = Some r \<and>
    (case r of Inl _ \<Rightarrow> True | Inr u \<Rightarrow> u \<in> {BadShift, DivZero} \<and> (\<exists>i \<in> set bound. may_fault i u))"
proof -
  obtain bound v1 marked res where rep: "replace_map_fd_with_map_ptr addr shared insns (v\<lparr>used_maps := []\<rparr>) = (Ok bound, v1)"
    and len: "length insns \<le> 4096" and cfg: "check_cfg (ck_insn_state orc) (ck_insn_stack orc) bound (replicate (length bound) False) = Ok marked"
    and chk: "do_check p (ck_visit orc) (ck_push orc) bound marked = Ok res" and ms: "pr_used_maps pr = used_maps v1"
    using bpf_check_ok [OF assms(1)] .
  have loop: "replace_loop addr shared insns (v\<lparr>used_maps := []\<rparr>) = (Ok bound, v1)" using rep by (simp add: replace_map_fd_with_map_ptr_def)
  have cond: "prog_cond W bound" using replace_loop_bound [OF loop, of W] assms(2,4) ms by (simp add: prog_cond_def bound_ok_def)
  have len': "length bound \<le> 4096" using replace_loop_ok [OF loop] len by (auto dest: list_all2_lengthD)
  have "is_ok (check_cfg (ck_insn_state orc) (ck_insn_stack orc) bound (replicate (length bound) False))" using cfg by simp
  then obtain r where r: "bpf_prog_run env (34 * 4096) r0 m (w_fp W) (w_ctx W) bound = Some r"
      "case r of Inl _ \<Rightarrow> True | Inr u \<Rightarrow> \<exists>i \<in> set bound. may_fault i u"
    using verified_run [OF _ chk assms(3) cond assms(5) len'] by blast
  have "may_fault i u \<Longrightarrow> u \<in> {BadShift, DivZero}" for i u
    unfolding may_fault_def by (cases "(jumptable (bi_code i), u)" rule: label_fault.cases) auto
  then show ?thesis using r rep by (intro exI [of _ bound] exI [of _ r]) (auto split: sum.splits)
qed

section \<open>Properties\<close>



text \<open>A filter that spills its context to the stack, loads it back and reads two fields through it.\<close>

definition ex_spill :: "bpf_insn list" where
  "ex_spill =
     [BPF_LDX_MEM BPF_W 0 1 0,
      BPF_STX_MEM BPF_DW 10 1 (- 8),
      BPF_LDX_MEM BPF_DW 2 10 (- 8),
      BPF_LDX_MEM BPF_W 3 2 16,
      BPF_JMP_IMM BPF_JEQ 0 0 2,
      BPF_MOV64_REG 0 3,
      BPF_EXIT_INSN,
      BPF_EXIT_INSN]"

definition ex_info :: "u64 \<Rightarrow> map_info" where
  "ex_info a = \<lparr>mi_key_size = 4, mi_value_size = 8, mi_map_type = 1\<rparr>"

definition ex_orc :: check_oracle where
  "ex_orc = \<lparr>ck_env = True, ck_log_buf = True, ck_states = True, ck_insn_state = True, ck_insn_stack = True, ck_visit = \<lambda>_. True,
     ck_push = \<lambda>_. True, ck_realloc = \<lambda>_. True, ck_log_full = False, ck_log_copy = True, ck_used_maps = True\<rparr>"

definition no_log :: log_attr where
  "no_log = \<lparr>log_level = 0, log_buf = 0, log_size = 0\<rparr>"

definition ex_vmaps :: verifier_maps where
  "ex_vmaps = \<lparr>vsys = boot, f_count = \<lambda>_. 0, used_maps = []\<rparr>"


text \<open>The bound program is the program itself when it loads no map.\<close>

lemma bpf_check_no_maps:
  assumes "insns \<noteq> []" and "length insns \<le> 4096" and "replace_map_fd_with_map_ptr addr shared insns (v\<lparr>used_maps := []\<rparr>) = (Ok insns, v\<lparr>used_maps := []\<rparr>)"
    and "check_cfg True True insns (replicate (length insns) False) = Ok marked" and "do_check p (\<lambda>_. True) (\<lambda>_. True) insns marked = Ok res"
    and "convert_ctx_accesses conv (\<lambda>_. True) res False = Ok (final, cb)"
  shows "bpf_check p conv addr shared ex_orc no_log insns v = (Ok \<lparr>pr_insns = final, pr_cb_access = cb, pr_used_maps = []\<rparr>, v\<lparr>used_maps := []\<rparr>)"
proof -
  let ?v = "v\<lparr>used_maps := []\<rparr>"
  have u: "used_maps ?v = []" "?v\<lparr>vsys := vsys ?v\<rparr> = ?v" by simp_all
  have "full_check p conv ex_orc insns = Ok (final, cb)" using assms(4-6) by (simp add: full_check_def ex_orc_def)
  then have r: "rbind (finish_log ex_orc no_log (rbind (Ok insns) (full_check p conv ex_orc))) (keep_maps ex_orc [])
      = Ok \<lparr>pr_insns = final, pr_cb_access = cb, pr_used_maps = []\<rparr>"
    by (simp add: finish_log_def no_log_def keep_maps_def)
  have "ck_env ex_orc" "log_error ex_orc no_log = None" by (simp_all add: ex_orc_def log_error_def no_log_def)
  then have c: "bpf_check p conv addr shared ex_orc no_log insns v =
      free_env (rbind (finish_log ex_orc no_log (rbind (Ok insns) (full_check p conv ex_orc))) (keep_maps ex_orc [])) ?v"
    using assms(1-3) unfolding bpf_check_def Let_def by (simp add: u(1))
  show ?thesis unfolding c r by (simp add: free_env_def)
qed

lemma bpf_check_plain:
  assumes "insns \<noteq> []" and "length insns \<le> 4096" and "replace_map_fd_with_map_ptr addr True insns ex_vmaps = (Ok insns, ex_vmaps)"
    and "check_cfg True True insns (replicate (length insns) False) = Ok marked" and "do_check p (\<lambda>_. True) (\<lambda>_. True) insns marked = Ok res"
    and "convert_ctx_accesses conv (\<lambda>_. True) res False = Ok (final, cb)"
  shows "bpf_check p conv addr True ex_orc no_log insns ex_vmaps = (Ok \<lparr>pr_insns = final, pr_cb_access = cb, pr_used_maps = []\<rparr>, ex_vmaps)"
proof -
  have v: "ex_vmaps\<lparr>used_maps := []\<rparr> = ex_vmaps" by (simp add: ex_vmaps_def)
  show ?thesis using bpf_check_no_maps [of insns addr True ex_vmaps, unfolded v, OF assms] .
qed

lemmas check_defs = check_one_def check_alu_op_def check_mem_access_def check_reg_arg_def check_cond_jmp_op_def
  check_stack_write_def check_stack_read_def check_ctx_access_def is_pointer_value_def bpf_size_to_bytes_def is_spillable_regtype_def
  mark_reg_unknown_value_def mark_access_def is_state_visited_def Let_def sk_filter_is_valid_access_def is_valid_access_def
  bpf_macros bpf_fields set_slots_def init_vstate_def init_reg_state_def empty_reg_def

definition ex_marked :: "bpf_insn list" where
  "ex_marked = ex_spill[0 := (ex_spill ! 0)\<lparr>bi_imm := 2\<rparr>, 1 := (ex_spill ! 1)\<lparr>bi_imm := 6\<rparr>, 3 := (ex_spill ! 3)\<lparr>bi_imm := 2\<rparr>]"

lemma ex_spill_accepted:
  "\<exists>pr. bpf_check (sk_filter_ops False False ex_info) (Some (bpf_net_convert_ctx_access ex_layout)) (\<lambda>_. 0) True ex_orc no_log
     ex_spill ex_vmaps = (Ok pr, ex_vmaps) \<and> pr_used_maps pr = [] \<and>
     replace_map_fd_with_map_ptr (\<lambda>_. 0) True ex_spill ex_vmaps = (Ok ex_spill, ex_vmaps)"
proof -
  have rep: "replace_map_fd_with_map_ptr (\<lambda>_. 0) True ex_spill ex_vmaps = (Ok ex_spill, ex_vmaps)"
    by (simp add: replace_map_fd_with_map_ptr_def ex_spill_def replace_insn_def bpf_fields bpf_macros)
  have cfg: "check_cfg True True ex_spill (replicate (length ex_spill) False) = Ok [False, False, False, False, False, False, False, True]"
    by code_simp
  have chk: "do_check (sk_filter_ops False False ex_info) (\<lambda>_. True) (\<lambda>_. True) ex_spill [False, False, False, False, False, False, False, True]
      = Ok ex_marked"
    by (simp add: do_check_def check_loop.simps check_defs ex_spill_def sk_filter_ops_def ex_marked_def)
  have "is_ok (convert_ctx_accesses (Some (bpf_net_convert_ctx_access ex_layout)) (\<lambda>_. True) ex_marked False)" by code_simp
  then obtain final cb where conv: "convert_ctx_accesses (Some (bpf_net_convert_ctx_access ex_layout)) (\<lambda>_. True) ex_marked False = Ok (final, cb)"
    by (auto simp: is_ok_iff)
  have "ex_spill \<noteq> []" "length ex_spill \<le> 4096" by (simp_all add: ex_spill_def)
  from bpf_check_plain [OF this rep cfg chk conv] rep show ?thesis by auto
qed

definition ex_world :: world where
  "ex_world = \<lparr>w_fp = 0x10200, w_ctx = 0x20000, w_ctx_size = 76, w_maps = {}, w_values = \<lambda>_. {}\<rparr>"

definition ex_skb_env :: bpf_env where
  "ex_skb_env = \<lparr>env_skb = (\<lambda>_. Some ex_frag_skb), env_call = (\<lambda>_ _ m. (0, m)), env_array = (\<lambda>_. None)\<rparr>"

lemma ex_runtime: "runtime_ok (sk_filter_ops admin gpl info) ex_world ex_skb_env"
proof -
  have "(0x10000 :: u64) + of_nat i \<noteq> 0x20000 + of_nat j" if "i < 512" "j < 76" for i j
  proof
    assume "(0x10000 :: u64) + of_nat i = 0x20000 + of_nat j"
    then have "(of_nat (0x10000 + i) :: u64) = of_nat (0x20000 + j)" by simp
    then show False using that by (subst (asm) of_nat_u64_eq_iff) auto
  qed
  then have "frame_apart (sk_filter_ops admin gpl info) ex_world"
    by (auto simp: frame_apart_def ex_world_def stack_base_def span_def)
  moreover have "helpers_ok (sk_filter_ops admin gpl info) ex_world ex_skb_env"
    by (auto simp: helpers_ok_def ex_skb_env_def Let_def split: option.split)
  moreover have "skb_wf ex_frag_skb" by (simp add: ex_frag_skb_def frag_wf_def)
  ultimately show ?thesis
    using sk_filter_accesses_ok by (simp add: runtime_ok_def ex_world_def ex_skb_env_def)
qed



section \<open>What the verifier gets wrong\<close>

text \<open>
  A move of \<open>-1\<close> into the low half of a register, and a comparison of the register with \<open>-1\<close>: the verifier takes
  them for equal and does not look at the branch that is taken.
\<close>

definition ex_mov32 :: "bpf_insn list" where
  "ex_mov32 =
     [BPF_MOV32_IMM 2 (- 1),
      BPF_JMP_IMM BPF_JNE 2 (- 1) 2,
      BPF_MOV64_REG 0 2,
      BPF_EXIT_INSN,
      BPF_LDX_MEM BPF_DW 0 2 0,
      BPF_EXIT_INSN]"

text \<open>C36. The verifier accepts, for a user without privileges, a program that reads memory at an address it makes up: the
  constant of a 32-bit move is extended with its sign by the verifier and with zeros by the interpreter.\<close>

theorem mov32_unsound:
  assumes "m 0xFFFFFFFF = None"
  shows "(\<exists>pr. bpf_check (sk_filter_ops False gpl info) (Some (bpf_net_convert_ctx_access L)) addr True ex_orc no_log ex_mov32 ex_vmaps
       = (Ok pr, ex_vmaps) \<and> pr_insns pr = ex_mov32) \<and>
    bpf_prog_run env 3 r0 m fp ctx ex_mov32 = Some (Inr BadMem)"
proof -
  let ?p = "sk_filter_ops False gpl info" and ?conv = "Some (bpf_net_convert_ctx_access L)"
  have rep: "replace_map_fd_with_map_ptr addr True ex_mov32 ex_vmaps = (Ok ex_mov32, ex_vmaps)"
    by (simp add: replace_map_fd_with_map_ptr_def ex_mov32_def replace_insn_def bpf_fields bpf_macros)
  have cfg: "check_cfg True True ex_mov32 (replicate (length ex_mov32) False) = Ok [False, False, False, False, True, False]"
    by code_simp
  have chk: "do_check ?p (\<lambda>_. True) (\<lambda>_. True) ex_mov32 [False, False, False, False, True, False] = Ok ex_mov32"
    by (simp add: do_check_def check_loop.simps check_defs ex_mov32_def sk_filter_ops_def)
  have conv: "convert_ctx_accesses ?conv (\<lambda>_. True) ex_mov32 False = Ok (ex_mov32, False)"
    by (simp add: convert_ctx_accesses_def ctx_loop.simps ex_mov32_def bpf_macros bpf_fields Let_def)
  have "ex_mov32 \<noteq> []" "length ex_mov32 \<le> 4096" by (simp_all add: ex_mov32_def)
  from bpf_check_plain [OF this rep cfg chk conv]
  have acc: "\<exists>pr. bpf_check ?p ?conv addr True ex_orc no_log ex_mov32 ex_vmaps = (Ok pr, ex_vmaps) \<and> pr_insns pr = ex_mov32" by auto
  have "jumptable 0xb4 = L_ALU ALU_MOV_K" "jumptable 0x55 = L_JMP (JMP_K J_NE)" "jumptable 0x79 = L_MEM (LDX_MEM SZ_DW)"
    by code_simp+
  moreover have "(ucast (- 1 :: u32) :: u64) = 0xFFFFFFFF" "(scast (- 1 :: u32) :: u64) = 0xFFFFFFFFFFFFFFFF" by code_simp+
  moreover have "load m 0xFFFFFFFF 8 = None" using assms by (simp add: load_def eval_nat_numeral)
  ultimately have "bpf_prog_run env 3 r0 m fp ctx ex_mov32 = Some (Inr BadMem)"
    by (simp add: bpf_prog_run_def init_state_def numeral_3_eq_3 select_insn_def ex_mov32_def bpf_macros bpf_fields
        Let_def CONT_def CONT_JMP_def set_reg_def)
  then show ?thesis using acc by blast
qed

theorem mov32_unsound_witness:
  "bpf_prog_run ex_skb_env 3 (\<lambda>_. 0) (\<lambda>a. if 0x10000 \<le> a \<and> a < 0x30000 then Some 0 else None) 0x10200 0x20000 ex_mov32 = Some (Inr BadMem)"
  using mov32_unsound [of "\<lambda>a. if 0x10000 \<le> a \<and> a < 0x30000 then Some 0 else None"] by simp

text \<open>A program that returns its frame pointer on one of two paths that meet.\<close>

definition ex_leak :: "bpf_insn list" where
  "ex_leak =
     [BPF_LDX_MEM BPF_W 2 1 0,
      BPF_MOV64_REG 0 10,
      BPF_JMP_IMM BPF_JEQ 2 0 1,
      BPF_MOV64_REG 0 2,
      BPF_EXIT_INSN]"

lemma states_equal_empty:
  assumes "\<And>i. stack_slot_type old i = STACK_INVALID"
  shows "states_equal old cur = list_all (\<lambda>r. vregs old r = vregs cur r \<or> rtype (vregs old r) = NOT_INIT \<or>
    rtype (vregs old r) = UNKNOWN_VALUE \<and> rtype (vregs cur r) \<noteq> NOT_INIT) [0, 1, 2, 3, 4, 5, 6, 7, 8, 9, 10]"
  using assms by (simp add: states_equal_def list_all_iff)

text \<open>C37. The verifier accepts, for a user without privileges, a program that returns the address of its stack: a state with
  an unknown value in a register is taken to cover one with a pointer in it, so the check of the second path is
  skipped.\<close>

theorem pruning_leaks_pointer:
  assumes "load m (ctx + scast (off_len L)) 4 = Some 0"
  shows "\<exists>pr. bpf_check (sk_filter_ops False gpl info) (Some (bpf_net_convert_ctx_access L)) addr True ex_orc no_log ex_leak ex_vmaps
       = (Ok pr, ex_vmaps) \<and> bpf_prog_run env 4 r0 m fp ctx (pr_insns pr) = Some (Inl (ucast fp))"
proof -
  let ?p = "sk_filter_ops False gpl info" and ?conv = "Some (bpf_net_convert_ctx_access L)"
  let ?final = "ex_leak[0 := BPF_LDX_MEM BPF_W 2 1 (off_len L)]"
  have rep: "replace_map_fd_with_map_ptr addr True ex_leak ex_vmaps = (Ok ex_leak, ex_vmaps)"
    by (simp add: replace_map_fd_with_map_ptr_def ex_leak_def replace_insn_def bpf_fields bpf_macros)
  have cfg: "check_cfg True True ex_leak (replicate (length ex_leak) False) = Ok [False, False, False, False, True]"
    by code_simp
  have chk: "do_check ?p (\<lambda>_. True) (\<lambda>_. True) ex_leak [False, False, False, False, True] = Ok (ex_leak[0 := (ex_leak ! 0)\<lparr>bi_imm := 2\<rparr>])"
    by (simp add: do_check_def check_loop.simps check_defs ex_leak_def sk_filter_ops_def states_equal_empty set_imm_def)
  have conv: "convert_ctx_accesses ?conv (\<lambda>_. True) (ex_leak[0 := (ex_leak ! 0)\<lparr>bi_imm := 2\<rparr>]) False = Ok (?final, False)"
    by (simp add: convert_ctx_accesses_def ctx_loop.simps ex_leak_def bpf_macros bpf_fields Let_def bpf_net_convert_ctx_access_def)
  have "ex_leak \<noteq> []" "length ex_leak \<le> 4096" by (simp_all add: ex_leak_def)
  from bpf_check_plain [OF this rep cfg chk conv]
  have acc: "\<exists>pr. bpf_check ?p ?conv addr True ex_orc no_log ex_leak ex_vmaps = (Ok pr, ex_vmaps) \<and> pr_insns pr = ?final" by auto
  have "jumptable 0xbf = L_ALU ALU64_MOV_X" "jumptable 0x15 = L_JMP (JMP_K J_EQ)" "jumptable 0x61 = L_MEM (LDX_MEM SZ_W)" "jumptable 0x95 = L_JMP JMP_EXIT"
    by code_simp+
  moreover have n: "(4 :: nat) = Suc (Suc (Suc (Suc 0)))" by simp
  ultimately have "bpf_prog_run env 4 r0 m fp ctx ?final = Some (Inl (ucast fp))"
    unfolding bpf_prog_run_def n using assms
    by (simp add: init_state_def select_insn_def ex_leak_def bpf_macros bpf_fields Let_def CONT_def CONT_JMP_def set_reg_def)
  then show ?thesis using acc by auto
qed

theorem pruning_leaks_pointer_witness:
  "\<exists>pr. bpf_check (sk_filter_ops False False ex_info) (Some (bpf_net_convert_ctx_access ex_layout)) (\<lambda>_. 0) True ex_orc no_log ex_leak ex_vmaps
       = (Ok pr, ex_vmaps) \<and> bpf_prog_run ex_skb_env 4 (\<lambda>_. 0) (\<lambda>_. Some 0) 0x10200 0x20000 (pr_insns pr) = Some (Inl 0x10200)"
proof -
  have "load (\<lambda>_. Some 0) (0x20000 + scast (off_len ex_layout)) 4 = Some 0" by (simp add: load_def eval_nat_numeral)
  from pruning_leaks_pointer [OF this, where gpl = False and info = ex_info and addr = "\<lambda>_. 0" and env = ex_skb_env and fp = "0x10200"]
  show ?thesis by simp
qed

text \<open>A store of a constant into the control block.\<close>

definition ex_st_ctx :: "bpf_insn list" where
  "ex_st_ctx = [BPF_RAW_INSN (BPF_ST OR BPF_MEM OR BPF_W) 1 0 48 7, BPF_MOV32_IMM 0 0, BPF_EXIT_INSN]"


end
