(* ===== verification/Bpf_Prog.thy ===== *)
theory Bpf_Prog
  imports Bpf_Prog_Check
begin

text \<open>
  Programs as objects of the kernel: loading, sharing and releasing internal BPF programs (\<^verbatim>\<open>kernel/bpf/syscall.c\<close>,
  \<^verbatim>\<open>kernel/bpf/core.c\<close>) and the arrays of programs that tail calls jump through (\<^verbatim>\<open>kernel/bpf/arraymap.c\<close>). A program holds
  references on its maps, and an array of programs is a map that holds references on programs.
\<close>

section \<open>State\<close>

text \<open>\<open>struct bpf_prog\<close> with its \<open>struct bpf_prog_aux\<close>; the instructions, \<open>cb_access\<close> and the used maps are what \<open>bpf_check\<close> sets.\<close>

record kprog = bpf_prog_info +
  kp_type :: bpf_prog_type
  kp_gpl :: bool
  kp_jited :: bool
  kp_dst_needed :: bool
  kp_pages :: nat
  kp_refcnt :: int
  kp_user :: nat

text \<open>The part of \<open>struct bpf_array\<close> that an array of programs adds: the pointers in place of the values, and the owner.\<close>

record parray =
  pa_ptrs :: "nat option list"
  pa_owner_type :: bpf_prog_type
  pa_owner_jited :: bool

text \<open>
  \<open>pv\<close> are the maps, files and users; \<open>prog_rcu\<close> the programs whose release waits for a grace period, \<open>prog_work\<close> those whose
  memory is about to be freed by the work queue, \<open>parrays\<close> the maps that are arrays of programs.
\<close>

record prog_sys =
  pv :: verifier_maps
  progs :: "nat \<Rightarrow> kprog option"
  prog_next :: nat
  prog_rcu :: "nat list"
  prog_work :: "nat list"
  parrays :: "nat \<Rightarrow> parray option"

abbreviation (input) psys :: "prog_sys \<Rightarrow> bpf_sys" where "psys s \<equiv> vsys (pv s)"

definition set_sys :: "bpf_sys \<Rightarrow> prog_sys \<Rightarrow> prog_sys" where
  "set_sys t s = s\<lparr>pv := (pv s)\<lparr>vsys := t\<rparr>\<rparr>"

definition upd_kprog :: "nat \<Rightarrow> (kprog \<Rightarrow> kprog) \<Rightarrow> prog_sys \<Rightarrow> prog_sys" where
  "upd_kprog p f s = s\<lparr>progs := (progs s)(p := map_option f (progs s p))\<rparr>"

section \<open>Charging the user\<close>

definition bpf_prog_charge_memlock :: "nat \<Rightarrow> u64 \<Rightarrow> nat \<Rightarrow> prog_sys \<Rightarrow> unit result \<times> prog_sys" where
  "bpf_prog_charge_memlock user memlock_limit p s =
     (case progs s p of None \<Rightarrow> (Undef BadMem, s)
      | Some kp \<Rightarrow>
          (let pages = int (kp_pages kp); t = psys s;
               t = t\<lparr>uid_refs := (uid_refs t)(user := uid_refs t user + 1),
                      locked_vm := (locked_vm t)(user := locked_vm t user + pages)\<rparr>
           in
           if over_limit (locked_vm t user) memlock_limit
           then (Err EPERM, set_sys (t\<lparr>locked_vm := (locked_vm t)(user := locked_vm t user - pages),
                                         uid_refs := (uid_refs t)(user := uid_refs t user - 1)\<rparr>) s)
           else (Ok (), upd_kprog p (\<lambda>k. k\<lparr>kp_user := user\<rparr>) (set_sys t s))))"

definition bpf_prog_uncharge_memlock :: "nat \<Rightarrow> prog_sys \<Rightarrow> prog_sys result" where
  "bpf_prog_uncharge_memlock p s =
     (case progs s p of None \<Rightarrow> Undef BadMem
      | Some kp \<Rightarrow>
          (let user = kp_user kp; t = psys s in
           Ok (set_sys (t\<lparr>locked_vm := (locked_vm t)(user := locked_vm t user - int (kp_pages kp)),
                           uid_refs := (uid_refs t)(user := uid_refs t user - 1)\<rparr>) s)))"

section \<open>Releasing programs\<close>

definition free_used_maps :: "nat \<Rightarrow> prog_sys \<Rightarrow> prog_sys result" where
  "free_used_maps p s =
     (case progs s p of None \<Rightarrow> Undef BadMem
      | Some kp \<Rightarrow> rbind (release_maps (pr_used_maps kp) (psys s)) (\<lambda>t. Ok (set_sys t s)))"

text \<open>\<open>bpf_prog_free\<close> schedules the work, \<open>bpf_prog_free_deferred\<close> runs it.\<close>

definition bpf_prog_schedule_free :: "nat \<Rightarrow> prog_sys \<Rightarrow> prog_sys" where
  "bpf_prog_schedule_free p s = s\<lparr>prog_work := p # prog_work s\<rparr>"

definition bpf_prog_free_deferred :: "nat \<Rightarrow> prog_sys \<Rightarrow> prog_sys result" where
  "bpf_prog_free_deferred p s = (case progs s p of None \<Rightarrow> Undef BadMem | Some _ \<Rightarrow> Ok (s\<lparr>progs := (progs s)(p := None)\<rparr>))"

definition prog_put_common :: "nat \<Rightarrow> prog_sys \<Rightarrow> prog_sys result" where \<comment> \<open>\<open>__prog_put_common\<close>\<close>
  "prog_put_common p s =
     rbind (free_used_maps p s) (\<lambda>s. rbind (bpf_prog_uncharge_memlock p s) (\<lambda>s. Ok (bpf_prog_schedule_free p s)))"

text \<open>\<open>atomic_dec_and_test(&prog->aux->refcnt)\<close>\<close>

definition dec_and_test :: "nat \<Rightarrow> prog_sys \<Rightarrow> (bool \<times> prog_sys) result" where
  "dec_and_test p s =
     (case progs s p of None \<Rightarrow> Undef BadMem
      | Some kp \<Rightarrow> Ok (kp_refcnt kp - 1 = 0, upd_kprog p (\<lambda>k. k\<lparr>kp_refcnt := kp_refcnt k - 1\<rparr>) s))"

definition bpf_prog_put_rcu :: "nat \<Rightarrow> prog_sys \<Rightarrow> prog_sys result" where
  "bpf_prog_put_rcu p s = rbind (dec_and_test p s) (\<lambda>(z, s). Ok (if z then s\<lparr>prog_rcu := p # prog_rcu s\<rparr> else s))"

definition bpf_prog_put :: "nat \<Rightarrow> prog_sys \<Rightarrow> prog_sys result" where
  "bpf_prog_put p s = rbind (dec_and_test p s) (\<lambda>(z, s). if z then prog_put_common p s else Ok s)"

section \<open>Descriptors of programs\<close>

definition bpf_prog_fd_release :: "nat \<Rightarrow> prog_sys \<Rightarrow> prog_sys result" where \<comment> \<open>\<open>bpf_prog_release\<close>\<close>
  "bpf_prog_fd_release fd s =
     (case fds (psys s) fd of
        Some (ProgFile p) \<Rightarrow> bpf_prog_put_rcu p (set_sys ((psys s)\<lparr>fds := (fds (psys s))(fd := None)\<rparr>) s)
      | _ \<Rightarrow> Err EBADF)"

definition bpf_prog_new_fd :: "nat result \<Rightarrow> nat \<Rightarrow> prog_sys \<Rightarrow> nat result \<times> prog_sys" where
  "bpf_prog_new_fd fd_res p s =
     (case fd_res of
        Ok fd \<Rightarrow> (Ok fd, set_sys ((psys s)\<lparr>fds := (fds (psys s))(fd \<mapsto> ProgFile p)\<rparr>) s)
      | r \<Rightarrow> (r, s))"

definition prog_of_fd :: "bool \<Rightarrow> nat \<Rightarrow> verifier_maps \<Rightarrow> nat result \<times> verifier_maps" where \<comment> \<open>\<open>__bpf_prog_get\<close>\<close>
  "prog_of_fd shared fd v =
     (case fds (vsys v) fd of
        None \<Rightarrow> (Err EBADF, v)
      | Some (ProgFile p) \<Rightarrow> (Ok p, v)
      | Some _ \<Rightarrow> (Err EINVAL, fdput shared fd v))"

definition bpf_prog_get :: "bool \<Rightarrow> nat \<Rightarrow> prog_sys \<Rightarrow> nat result \<times> prog_sys" where
  "bpf_prog_get shared ufd s =
     (case prog_of_fd shared ufd (fdget shared ufd (pv s)) of
        (Ok p, v) \<Rightarrow>
          (case progs s p of None \<Rightarrow> (Undef BadMem, s)
           | Some kp \<Rightarrow> (Ok p, upd_kprog p (\<lambda>k. k\<lparr>kp_refcnt := kp_refcnt k + 1\<rparr>) (s\<lparr>pv := fdput shared ufd v\<rparr>)))
      | (r, v) \<Rightarrow> (r, s\<lparr>pv := v\<rparr>))"

section \<open>Arrays of programs\<close>

definition bpf_prog_array_compatible :: "parray \<Rightarrow> kprog \<Rightarrow> bool \<times> parray" where
  "bpf_prog_array_compatible pa fp =
     (if pa_owner_type pa = PROG_TYPE_UNSPEC then (True, pa\<lparr>pa_owner_type := kp_type fp, pa_owner_jited := kp_jited fp\<rparr>)
      else (pa_owner_type pa = kp_type fp \<and> pa_owner_jited pa = kp_jited fp, pa))"

definition prog_fd_array_get_ptr :: "bool \<Rightarrow> nat \<Rightarrow> nat \<Rightarrow> prog_sys \<Rightarrow> nat result \<times> prog_sys" where
  "prog_fd_array_get_ptr shared m fd s =
     (case bpf_prog_get shared fd s of
        (Ok p, s) \<Rightarrow>
          (case (progs s p, parrays s m) of
             (Some kp, Some pa) \<Rightarrow>
               (case bpf_prog_array_compatible pa kp of (compatible, pa) \<Rightarrow>
                  let s = s\<lparr>parrays := (parrays s)(m \<mapsto> pa)\<rparr> in
                  if compatible then (Ok p, s)
                  else (case bpf_prog_put p s of Ok s \<Rightarrow> (Err EINVAL, s) | Err e \<Rightarrow> (Err e, s) | Undef u \<Rightarrow> (Undef u, s)))
           | _ \<Rightarrow> (Undef BadMem, s))
      | r \<Rightarrow> r)"

text \<open>\<open>xchg(array->ptrs + index, ptr)\<close>\<close>

definition xchg_ptr :: "nat \<Rightarrow> nat \<Rightarrow> nat option \<Rightarrow> prog_sys \<Rightarrow> (nat option \<times> prog_sys) result" where
  "xchg_ptr m i ptr s =
     (case parrays s m of None \<Rightarrow> Undef BadMem
      | Some pa \<Rightarrow>
          (if i < length (pa_ptrs pa)
           then Ok (pa_ptrs pa ! i, s\<lparr>parrays := (parrays s)(m \<mapsto> pa\<lparr>pa_ptrs := (pa_ptrs pa)[i := ptr]\<rparr>)\<rparr>)
           else Undef BadIndex))"

definition fd_array_map_update_elem ::
  "bool \<Rightarrow> nat \<Rightarrow> u8 list \<Rightarrow> u8 list \<Rightarrow> u64 \<Rightarrow> prog_sys \<Rightarrow> unit result \<times> prog_sys" where
  "fd_array_map_update_elem shared m key val map_flags s =
     (case (parrays s m, key_index key, key_index val) of
        (Some pa, Ok index, Ok ufd) \<Rightarrow>
          (if map_flags \<noteq> 0 then (Err EINVAL, s)
           else if unat index \<ge> length (pa_ptrs pa) then (Err E2BIG, s)
           else
             (case prog_fd_array_get_ptr shared m (unat ufd) s of
                (Ok p, s) \<Rightarrow>
                  (case xchg_ptr m (unat index) (Some p) s of
                     Ok (None, s) \<Rightarrow> (Ok (), s)
                   | Ok (Some old, s) \<Rightarrow>
                       (case bpf_prog_put_rcu old s of Ok s \<Rightarrow> (Ok (), s) | Err e \<Rightarrow> (Err e, s) | Undef u \<Rightarrow> (Undef u, s))
                   | Err e \<Rightarrow> (Err e, s)
                   | Undef u \<Rightarrow> (Undef u, s))
              | (Err e, s) \<Rightarrow> (Err e, s)
              | (Undef u, s) \<Rightarrow> (Undef u, s)))
      | _ \<Rightarrow> (Undef BadMem, s))"

text \<open>\<open>fd_array_map_delete_elem\<close> at an index.\<close>

definition fd_array_delete :: "nat \<Rightarrow> nat \<Rightarrow> prog_sys \<Rightarrow> unit result \<times> prog_sys" where
  "fd_array_delete m index s =
     (case parrays s m of None \<Rightarrow> (Undef BadMem, s)
      | Some pa \<Rightarrow>
          (if index \<ge> length (pa_ptrs pa) then (Err E2BIG, s)
           else
             (case xchg_ptr m index None s of
                Ok (None, s) \<Rightarrow> (Err ENOENT, s)
              | Ok (Some old, s) \<Rightarrow>
                  (case bpf_prog_put_rcu old s of Ok s \<Rightarrow> (Ok (), s) | Err e \<Rightarrow> (Err e, s) | Undef u \<Rightarrow> (Undef u, s))
              | Err e \<Rightarrow> (Err e, s)
              | Undef u \<Rightarrow> (Undef u, s))))"

definition fd_array_map_delete_elem :: "nat \<Rightarrow> u8 list \<Rightarrow> prog_sys \<Rightarrow> unit result \<times> prog_sys" where
  "fd_array_map_delete_elem m key s =
     (case key_index key of Ok index \<Rightarrow> fd_array_delete m (unat index) s | Err e \<Rightarrow> (Err e, s) | Undef u \<Rightarrow> (Undef u, s))"

text \<open>The loop of \<open>bpf_fd_array_map_clear\<close> over the remaining indices; errors of single deletions are ignored.\<close>

fun clear_loop :: "nat \<Rightarrow> nat list \<Rightarrow> prog_sys \<Rightarrow> prog_sys result" where
  "clear_loop m [] s = Ok s"
| "clear_loop m (i # is) s = (case fd_array_delete m i s of (Undef u, s) \<Rightarrow> Undef u | (_, s) \<Rightarrow> clear_loop m is s)"

definition bpf_fd_array_map_clear :: "nat \<Rightarrow> prog_sys \<Rightarrow> prog_sys result" where
  "bpf_fd_array_map_clear m s =
     (case parrays s m of None \<Rightarrow> Undef BadMem | Some pa \<Rightarrow> clear_loop m [0..<length (pa_ptrs pa)] s)"

section \<open>Maps, with arrays of programs\<close>

definition lift_sys :: "bpf_sys result \<Rightarrow> prog_sys \<Rightarrow> prog_sys result" where
  "lift_sys r s = rbind r (\<lambda>t. Ok (set_sys t s))"

text \<open>\<open>map_create\<close> with \<open>BPF_MAP_TYPE_PROG_ARRAY\<close>: \<open>fd_array_map_alloc\<close> checks the size of a value and allocates an array.\<close>

definition prog_array_create ::
  "bool \<Rightarrow> bool list \<Rightarrow> hlist_heap \<Rightarrow> nat \<Rightarrow> u64 \<Rightarrow> nat result \<Rightarrow> bpf_attr \<Rightarrow> prog_sys \<Rightarrow> (nat result \<times> prog_sys) option" where
  "prog_array_create attr_bad oks h0 user memlock_limit fd_res attr s =
     (if attr_bad \<or> at_value_size attr \<noteq> 4 then Some (Err EINVAL, s)
      else
        (case map_create False BPF_MAP_TYPE_ARRAY oks h0 user memlock_limit fd_res attr (psys s) of
           None \<Rightarrow> None
         | Some (Ok fd, t) \<Rightarrow>
             Some (Ok fd, set_sys t (s\<lparr>parrays := (parrays s)(map_next (psys s) \<mapsto>
                \<lparr>pa_ptrs = replicate (unat (at_max_entries attr)) None, pa_owner_type = PROG_TYPE_UNSPEC, pa_owner_jited = False\<rparr>)\<rparr>))
         | Some (r, t) \<Rightarrow> Some (r, set_sys t s)))"

text \<open>\<open>bpf_map_put_uref\<close>: the last user reference empties an array of programs.\<close>

definition map_put_uref :: "nat \<Rightarrow> prog_sys \<Rightarrow> prog_sys result" where
  "map_put_uref m s =
     (case maps (psys s) m of None \<Rightarrow> Undef BadMem
      | Some km \<Rightarrow>
          (let s = set_sys (bpf_map_put_uref m (psys s)) s in
           if km_usercnt km - 1 = 0 \<and> parrays s m \<noteq> None then bpf_fd_array_map_clear m s else Ok s))"

definition map_put_with_uref :: "nat \<Rightarrow> prog_sys \<Rightarrow> prog_sys result" where
  "map_put_with_uref m s = rbind (map_put_uref m s) (\<lambda>s. lift_sys (bpf_map_put m (psys s)) s)"

definition map_fd_release :: "nat \<Rightarrow> prog_sys \<Rightarrow> prog_sys result" where \<comment> \<open>\<open>bpf_map_release\<close>\<close>
  "map_fd_release fd s =
     (case fds (psys s) fd of
        Some (MapFile m) \<Rightarrow> map_put_with_uref m (set_sys ((psys s)\<lparr>fds := (fds (psys s))(fd := None)\<rparr>) s)
      | _ \<Rightarrow> Err EBADF)"

text \<open>\<open>fd_array_map_free\<close>: the array must be empty.\<close>

definition fd_array_map_free :: "nat \<Rightarrow> parray \<Rightarrow> prog_sys \<Rightarrow> prog_sys run" where
  "fd_array_map_free m pa s =
     (if \<exists>ptr \<in> set (pa_ptrs pa). ptr \<noteq> None then Some (Undef BugOn)
      else sbind (map_free m (psys s)) (\<lambda>t. Some (Ok (set_sys t (s\<lparr>parrays := (parrays s)(m := None)\<rparr>)))))"

definition map_free_deferred :: "nat \<Rightarrow> prog_sys \<Rightarrow> prog_sys run" where \<comment> \<open>\<open>bpf_map_free_deferred\<close>\<close>
  "map_free_deferred m s =
     sbind (Some (bpf_map_uncharge_memlock m (psys s))) (\<lambda>t.
       let s = set_sys t s in
       case parrays s m of
         Some pa \<Rightarrow> fd_array_map_free m pa s
       | None \<Rightarrow> sbind (map_free m (psys s)) (\<lambda>t. Some (Ok (set_sys t s))))"

text \<open>The element commands of the system call, dispatched by the kind of the map.\<close>

definition sys_map_update_elem ::
  "bool \<Rightarrow> bool \<Rightarrow> nat \<Rightarrow> bool \<Rightarrow> bool \<Rightarrow> bool \<Rightarrow> (nat \<Rightarrow> u8 list option) \<Rightarrow> (nat \<Rightarrow> u8 list option) \<Rightarrow> u64 \<Rightarrow> prog_sys
    \<Rightarrow> (unit result \<times> prog_sys) option" where
  "sys_map_update_elem shared attr_bad ufd ok1 ok2 ok3 ukey uvalue flags s =
     (if attr_bad then Some (Err EINVAL, s)
      else case bpf_map_get ufd (psys s) of
        Err e \<Rightarrow> Some (Err e, s)
      | Undef u \<Rightarrow> Some (Undef u, s)
      | Ok m \<Rightarrow>
          (case parrays s m of
             None \<Rightarrow> map_option (\<lambda>(r, t). (r, set_sys t s)) (map_update_elem attr_bad ufd ok1 ok2 ok3 ukey uvalue flags (psys s))
           | Some pa \<Rightarrow>
               (if \<not> ok1 then Some (Err ENOMEM, s)
                else case ukey 4 of None \<Rightarrow> Some (Err EFAULT, s)
                | Some key \<Rightarrow>
                    (if \<not> ok2 then Some (Err ENOMEM, s)
                     else case uvalue 4 of None \<Rightarrow> Some (Err EFAULT, s)
                     | Some val \<Rightarrow> Some (fd_array_map_update_elem shared m key val flags s)))))"

definition sys_map_delete_elem ::
  "bool \<Rightarrow> nat \<Rightarrow> bool \<Rightarrow> (nat \<Rightarrow> u8 list option) \<Rightarrow> prog_sys \<Rightarrow> (unit result \<times> prog_sys) option" where
  "sys_map_delete_elem attr_bad ufd ok1 ukey s =
     (if attr_bad then Some (Err EINVAL, s)
      else case bpf_map_get ufd (psys s) of
        Err e \<Rightarrow> Some (Err e, s)
      | Undef u \<Rightarrow> Some (Undef u, s)
      | Ok m \<Rightarrow>
          (case parrays s m of
             None \<Rightarrow> map_option (\<lambda>(r, t). (r, set_sys t s)) (map_delete_elem attr_bad ufd ok1 ukey (psys s))
           | Some pa \<Rightarrow>
               (if \<not> ok1 then Some (Err ENOMEM, s)
                else case ukey 4 of None \<Rightarrow> Some (Err EFAULT, s)
                | Some key \<Rightarrow> Some (fd_array_map_delete_elem m key s))))"

text \<open>User space cannot read a slot: \<open>fd_array_map_lookup_elem\<close> finds nothing.\<close>

definition sys_map_lookup_elem ::
  "bool \<Rightarrow> nat \<Rightarrow> bool \<Rightarrow> bool \<Rightarrow> (nat \<Rightarrow> u8 list option) \<Rightarrow> bool \<Rightarrow> prog_sys \<Rightarrow> u8 list run" where
  "sys_map_lookup_elem attr_bad ufd ok1 ok2 ukey put_ok s =
     (if attr_bad then Some (Err EINVAL)
      else
        sbind (Some (bpf_map_get ufd (psys s))) (\<lambda>m.
        case parrays s m of
          None \<Rightarrow> map_lookup_elem attr_bad ufd ok1 ok2 ukey put_ok (psys s)
        | Some pa \<Rightarrow>
            (if \<not> ok1 then Some (Err ENOMEM)
             else case ukey 4 of None \<Rightarrow> Some (Err EFAULT)
             | Some key \<Rightarrow> if \<not> ok2 then Some (Err ENOMEM) else Some (Err ENOENT))))"

section \<open>Loading\<close>

definition license_is_gpl_compatible :: "string \<Rightarrow> bool" where
  "license_is_gpl_compatible license \<longleftrightarrow>
     license \<in> set [''GPL'', ''GPL v2'', ''GPL and additional rights'', ''Dual BSD/GPL'', ''Dual MIT/GPL'', ''Dual MPL/GPL'']"

text \<open>The attributes of \<open>BPF_PROG_LOAD\<close>: \<open>la_license\<close> is the string user space passed and \<open>la_insns n\<close> the \<open>n\<close> instructions, or
  nothing where they cannot be read.\<close>

record load_attr =
  la_bad :: bool \<comment> \<open>\<open>CHECK_ATTR\<close>\<close>
  la_type :: u32
  la_insn_cnt :: u32
  la_insns :: "nat \<Rightarrow> bpf_insn list option"
  la_license :: "string option"
  la_log :: log_attr
  la_kern_version :: u32

text \<open>
  What the outcome depends on besides: privileges, allocations, the user with the limit in pages, the free descriptor, whether the
  descriptor table is shared, the addresses of maps (and back) and of helper functions, the layout of socket buffers,
  whether a just-in-time compiler takes the program.
\<close>

record load_env =
  le_admin :: bool
  le_version :: u32
  le_alloc :: bool
  le_user :: nat
  le_limit :: u64
  le_check :: check_oracle
  le_fd :: "nat result"
  le_shared :: bool
  le_addr :: "nat \<Rightarrow> u64"
  le_map_nr :: "u64 \<Rightarrow> nat"
  le_func :: "nat \<Rightarrow> u32 option"
  le_layout :: ctx_layout
  le_md_dst :: bool
  le_jit :: bool

definition new_prog :: "nat \<Rightarrow> kprog" where
  "new_prog pages =
     \<lparr>pr_insns = [], pr_cb_access = False, pr_used_maps = [], kp_type = PROG_TYPE_UNSPEC, kp_gpl = False, kp_jited = False,
      kp_dst_needed = False, kp_pages = pages, kp_refcnt = 0, kp_user = 0\<rparr>"

definition map_type_of :: "prog_sys \<Rightarrow> nat \<Rightarrow> map_impl \<Rightarrow> nat" where
  "map_type_of s m impl = (if parrays s m \<noteq> None then 3 else case impl of Hash _ \<Rightarrow> 1 | Array _ \<Rightarrow> 2)"

text \<open>What the verifier reads through a pointer to a map.\<close>

definition map_info_at :: "load_env \<Rightarrow> prog_sys \<Rightarrow> u64 \<Rightarrow> map_info" where
  "map_info_at E s a =
     (case maps (psys s) (le_map_nr E a) of
        None \<Rightarrow> \<lparr>mi_key_size = 0, mi_value_size = 0, mi_map_type = 0\<rparr>
      | Some km \<Rightarrow> \<lparr>mi_key_size = ops_key_size (km_impl km), mi_value_size = ops_value_size (km_impl km),
                    mi_map_type = map_type_of s (le_map_nr E a) (km_impl km)\<rparr>)"

text \<open>The registered types and the converters of their contexts.\<close>

definition find_prog_type :: "load_env \<Rightarrow> bool \<Rightarrow> prog_sys \<Rightarrow> u32 \<Rightarrow> (verifier_prog \<times> ctx_conv option) result" where
  "find_prog_type E gpl s type =
     (let info = map_info_at E s; net = Some (bpf_net_convert_ctx_access (le_layout E)) in
      if type = 1 then Ok (sk_filter_ops (le_admin E) gpl info, net)
      else if type = 2 then Ok (kprobe_prog_ops (le_admin E) gpl info, None)
      else if type = 3 then Ok (tc_cls_act_ops PROG_TYPE_SCHED_CLS (le_admin E) (le_md_dst E) gpl info, net)
      else if type = 4 then Ok (tc_cls_act_ops PROG_TYPE_SCHED_ACT (le_admin E) (le_md_dst E) gpl info, net)
      else Err EINVAL)"

text \<open>
  The pages of the program after \<open>bpf_check\<close>, whatever its outcome: \<open>bpf_prog_realloc\<close> in \<open>convert_ctx_accesses\<close> grows the program
  whenever a rewritten access needs room. The recursion is that of \<open>ctx_loop\<close>.
\<close>

function ctx_pages :: "ctx_conv \<Rightarrow> (nat \<Rightarrow> bool) \<Rightarrow> nat \<Rightarrow> bpf_insn list \<Rightarrow> nat \<Rightarrow> nat" where
  "ctx_pages conv realloc_ok i prog pages =
     (if i \<ge> length prog then pages
      else
        (let insn = prog ! i; code = bi_code insn in
         if code = (BPF_LDX OR BPF_MEM OR BPF_W) \<or> code = (BPF_STX OR BPF_MEM OR BPF_W) then
           (if bi_imm insn \<noteq> CTX_ACCESS_MARK then ctx_pages conv realloc_ok (Suc i) (prog[i := insn\<lparr>bi_imm := 0\<rparr>]) pages
            else
              (let (buf, acc) = conv (code = (BPF_STX OR BPF_MEM OR BPF_W)) (bi_dst insn) (bi_src insn) (sint (bi_off insn));
                   cnt = length buf
               in
               if cnt = 0 \<or> cnt \<ge> INSN_BUF_SIZE then pages
               else if cnt = 1 then ctx_pages conv realloc_ok (Suc i) (prog[i := hd buf]) pages
               else if \<not> realloc_ok (length prog + cnt - 1) then pages
               else ctx_pages conv realloc_ok (i + cnt) (patch i buf prog)
                      (max pages (round_up_pages (bpf_prog_size (length prog + cnt - 1))))))
         else ctx_pages conv realloc_ok (Suc i) prog pages))"
  by pat_completeness auto
termination
  by (relation "measure (\<lambda>(conv, ok, i, prog, pages). length prog - i)") (auto simp: length_patch)

declare ctx_pages.simps [simp del]

definition check_pages ::
  "verifier_prog \<Rightarrow> ctx_conv option \<Rightarrow> (nat \<Rightarrow> u64) \<Rightarrow> bool \<Rightarrow> check_oracle \<Rightarrow> log_attr \<Rightarrow> bpf_insn list \<Rightarrow> verifier_maps \<Rightarrow> nat \<Rightarrow> nat" where
  "check_pages p conv addr shared orc attr insns v pages =
     (if length insns = 0 \<or> length insns > BPF_MAXINSNS \<or> \<not> ck_env orc \<or> log_error orc attr \<noteq> None then pages
      else case rbind (fst (replace_map_fd_with_map_ptr addr shared insns (v\<lparr>used_maps := []\<rparr>))) (\<lambda>insns.
          if \<not> ck_states orc then Err ENOMEM
          else rbind (check_cfg (ck_insn_state orc) (ck_insn_stack orc) insns (replicate (length insns) False)) (\<lambda>marked.
            do_check p (ck_visit orc) (ck_push orc) insns marked)) of
        Ok insns \<Rightarrow> (case conv of None \<Rightarrow> pages | Some conv \<Rightarrow> ctx_pages conv (ck_realloc orc) 0 insns pages)
      | _ \<Rightarrow> pages)"

text \<open>\<open>fixup_bpf_calls\<close> at one instruction, and over the program; \<open>func id\<close> is the address of a helper relative to
  \<open>__bpf_call_base\<close>.\<close>

definition fixup_insn :: "(nat \<Rightarrow> bpf_func_proto option) option \<Rightarrow> (nat \<Rightarrow> u32 option) \<Rightarrow> bpf_insn \<Rightarrow> bpf_insn result" where
  "fixup_insn protos func insn =
     (if bi_code insn = (BPF_JMP OR BPF_CALL) then
        (case protos of
           None \<Rightarrow> Undef BugOn
         | Some proto_of \<Rightarrow>
             (if bi_imm insn = 12 then Ok (insn\<lparr>bi_imm := 0, bi_code := bi_code insn OR BPF_X\<rparr>)
              else case proto_of (unat (bi_imm insn)) of
                None \<Rightarrow> Undef BadMem
              | Some fn \<Rightarrow> (case func (unat (bi_imm insn)) of None \<Rightarrow> Undef BugOn | Some off \<Rightarrow> Ok (insn\<lparr>bi_imm := off\<rparr>))))
      else Ok insn)"

fun fixup_bpf_calls :: "(nat \<Rightarrow> bpf_func_proto option) option \<Rightarrow> (nat \<Rightarrow> u32 option) \<Rightarrow> bpf_insn list \<Rightarrow> (bpf_insn list \<times> bool) result" where
  "fixup_bpf_calls protos func [] = Ok ([], False)"
| "fixup_bpf_calls protos func (insn # rest) =
     rbind (fixup_insn protos func insn) (\<lambda>insn'. rbind (fixup_bpf_calls protos func rest) (\<lambda>(rest', dst_needed).
       Ok (insn' # rest', dst_needed \<or> bi_code insn = (BPF_JMP OR BPF_CALL) \<and> bi_imm insn = 24)))"

text \<open>\<open>bpf_check_tail_call\<close>, over the remaining used maps.\<close>

fun bpf_check_tail_call :: "kprog \<Rightarrow> nat list \<Rightarrow> prog_sys \<Rightarrow> unit result \<times> prog_sys" where
  "bpf_check_tail_call fp [] s = (Ok (), s)"
| "bpf_check_tail_call fp (m # ms) s =
     (case parrays s m of
        None \<Rightarrow> bpf_check_tail_call fp ms s
      | Some pa \<Rightarrow>
          (case bpf_prog_array_compatible pa fp of (compatible, pa) \<Rightarrow>
             let s = s\<lparr>parrays := (parrays s)(m \<mapsto> pa)\<rparr> in
             if compatible then bpf_check_tail_call fp ms s else (Err EINVAL, s)))"

definition bpf_prog_select_runtime :: "bool \<Rightarrow> nat \<Rightarrow> prog_sys \<Rightarrow> unit result \<times> prog_sys" where
  "bpf_prog_select_runtime jit p s =
     (let s = upd_kprog p (\<lambda>k. k\<lparr>kp_jited := kp_jited k \<or> jit\<rparr>) s in
      case progs s p of None \<Rightarrow> (Undef BadMem, s) | Some fp \<Rightarrow> bpf_check_tail_call fp (pr_used_maps fp) s)"

text \<open>The exits of \<open>bpf_prog_load\<close>: the labels \<open>free_prog\<close> and \<open>free_used_maps\<close>.\<close>

definition load_free_prog :: "nat \<Rightarrow> errno \<Rightarrow> prog_sys \<Rightarrow> nat result \<times> prog_sys" where
  "load_free_prog p e s =
     (case bpf_prog_uncharge_memlock p s of
        Ok s \<Rightarrow> (Err e, bpf_prog_schedule_free p s) | Err e' \<Rightarrow> (Err e', s) | Undef u \<Rightarrow> (Undef u, s))"

definition load_free_used_maps :: "nat \<Rightarrow> errno \<Rightarrow> prog_sys \<Rightarrow> nat result \<times> prog_sys" where
  "load_free_used_maps p e s =
     (case free_used_maps p s of Ok s \<Rightarrow> load_free_prog p e s | Err e' \<Rightarrow> (Err e', s) | Undef u \<Rightarrow> (Undef u, s))"

text \<open>From \<open>fixup_bpf_calls\<close> on.\<close>

definition load_finish :: "load_env \<Rightarrow> verifier_prog \<Rightarrow> nat \<Rightarrow> bpf_insn list \<Rightarrow> prog_sys \<Rightarrow> nat result \<times> prog_sys" where
  "load_finish E ops p insns s =
     (case fixup_bpf_calls (get_func_proto ops) (le_func E) insns of
        Undef u \<Rightarrow> (Undef u, s)
      | Err e \<Rightarrow> (Err e, s)
      | Ok (insns, dst_needed) \<Rightarrow>
          (case bpf_prog_select_runtime (le_jit E) p (upd_kprog p (\<lambda>k. k\<lparr>pr_insns := insns, kp_dst_needed := dst_needed\<rparr>) s) of
             (Undef u, s) \<Rightarrow> (Undef u, s)
           | (Err e, s) \<Rightarrow> load_free_used_maps p e s
           | (Ok _, s) \<Rightarrow>
               (case bpf_prog_new_fd (le_fd E) p s of
                  (Ok fd, s) \<Rightarrow> (Ok fd, s)
                | (Err e, s) \<Rightarrow> load_free_used_maps p e s
                | (Undef u, s) \<Rightarrow> (Undef u, s))))"

text \<open>The verifier on the loaded program; the program object takes over what it produces.\<close>

definition load_check ::
  "load_env \<Rightarrow> load_attr \<Rightarrow> verifier_prog \<Rightarrow> ctx_conv option \<Rightarrow> nat \<Rightarrow> bpf_insn list \<Rightarrow> prog_sys \<Rightarrow> nat result \<times> prog_sys" where
  "load_check E A ops conv p insns s =
     (let pages = check_pages ops conv (le_addr E) (le_shared E) (le_check E) (la_log A) insns (pv s) in
      case bpf_check ops conv (le_addr E) (le_shared E) (le_check E) (la_log A) insns (pv s) of (r, v) \<Rightarrow>
        let s = upd_kprog p (\<lambda>k. k\<lparr>kp_pages := pages (kp_pages k)\<rparr>) (s\<lparr>pv := v\<rparr>) in
        case r of
          Undef u \<Rightarrow> (Undef u, s)
        | Err e \<Rightarrow> load_free_used_maps p e s
        | Ok pr \<Rightarrow> load_finish E ops p (pr_insns pr)
                     (upd_kprog p (\<lambda>k. k\<lparr>pr_insns := pr_insns pr, pr_cb_access := pr_cb_access pr, pr_used_maps := pr_used_maps pr\<rparr>) s))"

text \<open>From the copied instructions on.\<close>

definition load_copied :: "load_env \<Rightarrow> load_attr \<Rightarrow> bool \<Rightarrow> nat \<Rightarrow> bpf_insn list \<Rightarrow> prog_sys \<Rightarrow> nat result \<times> prog_sys" where
  "load_copied E A is_gpl p insns s =
     (let s = upd_kprog p (\<lambda>k. k\<lparr>pr_insns := insns, kp_refcnt := 1, kp_gpl := is_gpl\<rparr>) s in
      case find_prog_type E is_gpl s (la_type A) of
        Err e \<Rightarrow> load_free_prog p e s
      | Undef u \<Rightarrow> (Undef u, s)
      | Ok (ops, conv) \<Rightarrow> load_check E A ops conv p insns (upd_kprog p (\<lambda>k. k\<lparr>kp_type := prog_type ops\<rparr>) s))"

definition bpf_prog_load :: "load_env \<Rightarrow> load_attr \<Rightarrow> prog_sys \<Rightarrow> nat result \<times> prog_sys" where
  "bpf_prog_load E A s =
     (if la_bad A then (Err EINVAL, s)
      else case la_license A of None \<Rightarrow> (Err EFAULT, s)
      | Some license \<Rightarrow>
          (let is_gpl = license_is_gpl_compatible (take 127 license); cnt = unat (la_insn_cnt A) in
           if cnt \<ge> BPF_MAXINSNS then (Err EINVAL, s)
           else if la_type A = 2 \<and> la_kern_version A \<noteq> le_version E then (Err EINVAL, s)
           else if la_type A \<noteq> 1 \<and> \<not> le_admin E then (Err EPERM, s)
           else if \<not> le_alloc E then (Err ENOMEM, s)
           else
             (let p = prog_next s;
                  s = s\<lparr>progs := (progs s)(p \<mapsto> new_prog (round_up_pages (bpf_prog_size cnt))), prog_next := Suc p\<rparr>
              in case bpf_prog_charge_memlock (le_user E) (le_limit E) p s of
                   (Undef u, s) \<Rightarrow> (Undef u, s)
                 | (Err e, s) \<Rightarrow> (Err e, bpf_prog_schedule_free p s)
                 | (Ok _, s) \<Rightarrow>
                     (case la_insns A cnt of
                        None \<Rightarrow> load_free_prog p EFAULT s
                      | Some insns \<Rightarrow> load_copied E A is_gpl p insns s))))"

end
