(* ===== verification/Bpf_Prog_Inv.thy ===== *)
theory Bpf_Prog_Inv
  imports Bpf_Prog
begin

text \<open>
  The invariant of programs, maps and arrays of programs together, and that the operations on programs and on arrays keep it.
  References are held by descriptors, by slots of arrays, by programs (on their maps) and by others (sockets, events).
\<close>

section \<open>The invariant\<close>

text \<open>The references on a program the system knows of: descriptors and slots of arrays.\<close>

definition prog_refs :: "prog_sys \<Rightarrow> nat \<Rightarrow> (nat + nat \<times> nat) set" where
  "prog_refs s p =
     Inl ` {fd. fds (psys s) fd = Some (ProgFile p)} \<union>
     Inr ` {(m, i). \<exists>pa. parrays s m = Some pa \<and> i < length (pa_ptrs pa) \<and> pa_ptrs pa ! i = Some p}"

lemma in_prog_refs:
  "Inl fd \<in> prog_refs s p \<longleftrightarrow> fds (psys s) fd = Some (ProgFile p)"
  "Inr mi \<in> prog_refs s p \<longleftrightarrow> (\<exists>pa. parrays s (fst mi) = Some pa \<and> snd mi < length (pa_ptrs pa) \<and> pa_ptrs pa ! snd mi = Some p)"
  by (auto simp: prog_refs_def)

text \<open>The programs that hold a reference on a map.\<close>

definition map_users :: "prog_sys \<Rightarrow> nat \<Rightarrow> nat set" where
  "map_users s m = {p. \<exists>kp. progs s p = Some kp \<and> p \<notin> set (prog_work s) \<and> m \<in> set (pr_used_maps kp)}"

definition held_by :: "(nat \<Rightarrow> nat) \<Rightarrow> prog_sys \<Rightarrow> holders" where
  "held_by uh s = (\<lambda>b m. if b then uh m else card (map_users s m))"

text \<open>\<open>ph\<close> counts the references on programs that others hold.\<close>

definition kprog_ok :: "(nat \<Rightarrow> nat) \<Rightarrow> prog_sys \<Rightarrow> nat \<Rightarrow> bool" where
  "kprog_ok ph s p \<longleftrightarrow> finite (prog_refs s p) \<and>
     (case progs s p of
        None \<Rightarrow> prog_refs s p = {} \<and> ph p = 0 \<and> p \<notin> set (prog_rcu s) \<and> p \<notin> set (prog_work s)
      | Some kp \<Rightarrow> p < prog_next s \<and> distinct (pr_used_maps kp) \<and>
          (if p \<in> set (prog_work s) then prog_refs s p = {} \<and> ph p = 0 \<and> p \<notin> set (prog_rcu s)
           else kp_refcnt kp = int (card (prog_refs s p)) + int (ph p) \<and> (kp_refcnt kp = 0 \<longleftrightarrow> p \<in> set (prog_rcu s))))"

text \<open>An array of programs without user references is empty.\<close>

definition parray_ok :: "prog_sys \<Rightarrow> nat \<Rightarrow> bool" where
  "parray_ok s m \<longleftrightarrow>
     (\<forall>pa. parrays s m = Some pa \<longrightarrow>
        (\<exists>km. maps (psys s) m = Some km \<and> (km_usercnt km = 0 \<longrightarrow> (\<forall>ptr \<in> set (pa_ptrs pa). ptr = None))))"

definition prog_inv :: "(nat \<Rightarrow> nat) \<Rightarrow> (nat \<Rightarrow> nat) \<Rightarrow> prog_sys \<Rightarrow> bool" where
  "prog_inv uh ph s \<longleftrightarrow> sys_ok (held_by uh s) (psys s) \<and> (\<forall>p. kprog_ok ph s p) \<and> (\<forall>m. parray_ok s m) \<and>
     distinct (prog_rcu s) \<and> distinct (prog_work s)"

lemma prog_invI [intro?]:
  "sys_ok (held_by uh s) (psys s) \<Longrightarrow> (\<And>p. kprog_ok ph s p) \<Longrightarrow> (\<And>m. parray_ok s m) \<Longrightarrow> distinct (prog_rcu s) \<Longrightarrow> distinct (prog_work s) \<Longrightarrow>
    prog_inv uh ph s"
  by (simp add: prog_inv_def)

lemma prog_invD:
  assumes "prog_inv uh ph s"
  shows "sys_ok (held_by uh s) (psys s)" "kprog_ok ph s p" "parray_ok s m" "distinct (prog_rcu s)" "distinct (prog_work s)"
  using assms by (simp_all add: prog_inv_def)

named_theorems life \<open>what the operations on the state leave alone\<close>

lemma set_sys_simps [simp, life]:
  "psys (set_sys t s) = t" "progs (set_sys t s) = progs s" "prog_next (set_sys t s) = prog_next s" "prog_rcu (set_sys t s) = prog_rcu s"
  "prog_work (set_sys t s) = prog_work s" "parrays (set_sys t s) = parrays s" "set_sys t (set_sys t' s) = set_sys t s"
  by (simp_all add: set_sys_def)

lemma set_sys_self [simp]: "set_sys (psys s) s = s"
  by (simp add: set_sys_def)

lemma upd_kprog_simps [simp, life]:
  "pv (upd_kprog p f s) = pv s" "prog_next (upd_kprog p f s) = prog_next s" "prog_rcu (upd_kprog p f s) = prog_rcu s"
  "prog_work (upd_kprog p f s) = prog_work s" "parrays (upd_kprog p f s) = parrays s"
  "progs (upd_kprog p f s) q = (if q = p then map_option f (progs s p) else progs s q)"
  by (simp_all add: upd_kprog_def)

lemma prog_refs_cong: "fds (psys s') = fds (psys s) \<Longrightarrow> parrays s' = parrays s \<Longrightarrow> prog_refs s' = prog_refs s"
  by (simp add: prog_refs_def fun_eq_iff)

lemma kprog_ok_cong:
  "kprog_ok ph s p \<Longrightarrow> prog_refs s' p = prog_refs s p \<Longrightarrow> progs s' p = progs s p \<Longrightarrow> ph' p = ph p \<Longrightarrow> prog_next s \<le> prog_next s' \<Longrightarrow>
    (p \<in> set (prog_rcu s') \<longleftrightarrow> p \<in> set (prog_rcu s)) \<Longrightarrow> (p \<in> set (prog_work s') \<longleftrightarrow> p \<in> set (prog_work s)) \<Longrightarrow> kprog_ok ph' s' p"
  by (auto simp: kprog_ok_def split: option.splits)

lemma parray_ok_cong: "parray_ok s m \<Longrightarrow> parrays s' m = parrays s m \<Longrightarrow> maps (psys s') m = maps (psys s) m \<Longrightarrow> parray_ok s' m"
  by (simp add: parray_ok_def)

lemma map_users_cong:
  "(\<And>p. map_option pr_used_maps (progs s' p) = map_option pr_used_maps (progs s p)) \<Longrightarrow> prog_work s' = prog_work s \<Longrightarrow> map_users s' = map_users s"
  by (auto simp: map_users_def fun_eq_iff) (metis (no_types, lifting) map_option_eq_Some)+

lemma map_users_simps [simp, life]:
  "map_users (s\<lparr>prog_rcu := a\<rparr>) = map_users s" "map_users (s\<lparr>parrays := b\<rparr>) = map_users s" "map_users (s\<lparr>pv := c\<rparr>) = map_users s"
  "map_users (set_sys t s) = map_users s"
  by (simp_all add: map_users_def fun_eq_iff)

lemma held_by_simps [simp, life]:
  "held_by uh (s\<lparr>prog_rcu := a\<rparr>) = held_by uh s" "held_by uh (s\<lparr>parrays := b\<rparr>) = held_by uh s" "held_by uh (s\<lparr>pv := c\<rparr>) = held_by uh s"
  "held_by uh (set_sys t s) = held_by uh s"
  by (simp_all add: held_by_def fun_eq_iff)

lemma held_by_cong: "map_users s' = map_users s \<Longrightarrow> held_by uh s' = held_by uh s"
  by (auto simp: held_by_def fun_eq_iff)

lemma finite_map_users: "prog_inv uh ph s \<Longrightarrow> finite (map_users s m)"
proof (rule finite_subset)
  assume inv: "prog_inv uh ph s"
  show "map_users s m \<subseteq> {..<prog_next s}"
  proof
    fix p assume "p \<in> map_users s m"
    then show "p \<in> {..<prog_next s}" using prog_invD(2) [OF inv, of p] by (auto simp: map_users_def kprog_ok_def)
  qed
qed simp

section \<open>References on programs\<close>

lemma held_alive:
  assumes "prog_inv uh ph s" and "0 < ph p \<or> prog_refs s p \<noteq> {}"
  obtains kp where "progs s p = Some kp" and "p \<notin> set (prog_work s)" and "p \<notin> set (prog_rcu s)" and "0 < kp_refcnt kp"
    and "kp_refcnt kp = int (card (prog_refs s p)) + int (ph p)" and "p < prog_next s" and "distinct (pr_used_maps kp)"
proof -
  note ok = prog_invD(2) [OF assms(1), of p]
  obtain kp where kp: "progs s p = Some kp" using ok assms(2) by (cases "progs s p") (auto simp: kprog_ok_def)
  have w: "p \<notin> set (prog_work s)" using ok assms(2) kp by (auto simp: kprog_ok_def)
  have "0 < card (prog_refs s p) + ph p" using ok assms(2) by (auto simp: kprog_ok_def card_gt_0_iff)
  then show ?thesis using that [OF kp w] ok kp w by (auto simp: kprog_ok_def)
qed

lemma dec_and_test_eq: "progs s p = Some kp \<Longrightarrow>
    dec_and_test p s = Ok (kp_refcnt kp = 1, upd_kprog p (\<lambda>k. k\<lparr>kp_refcnt := kp_refcnt k - 1\<rparr>) s)"
  by (simp add: dec_and_test_def)

text \<open>A reference others held is given up; the release waits for a grace period.\<close>

lemma put_rcu_inv:
  assumes "prog_inv uh (ph(p := Suc (ph p))) s"
  shows "\<exists>s'. bpf_prog_put_rcu p s = Ok s' \<and> prog_inv uh ph s' \<and> psys s' = psys s \<and> parrays s' = parrays s"
proof -
  obtain kp where kp: "progs s p = Some kp" "p \<notin> set (prog_work s)" "p \<notin> set (prog_rcu s)"
      "kp_refcnt kp = int (card (prog_refs s p)) + int (Suc (ph p))" "p < prog_next s" "distinct (pr_used_maps kp)"
    using held_alive [OF assms, of p] by auto
  let ?s = "upd_kprog p (\<lambda>k. k\<lparr>kp_refcnt := kp_refcnt k - 1\<rparr>) s"
  define s' where "s' = ?s\<lparr>prog_rcu := (if kp_refcnt kp = 1 then p # prog_rcu s else prog_rcu s)\<rparr>"
  have r: "bpf_prog_put_rcu p s = Ok s'" using kp(1) by (simp add: bpf_prog_put_rcu_def dec_and_test_eq s'_def upd_kprog_def)
  have refs: "prog_refs s' = prog_refs s" by (rule prog_refs_cong) (simp_all add: s'_def)
  have "prog_inv uh ph s'"
  proof
    have "map_users s' = map_users s" by (rule map_users_cong) (auto simp: s'_def option.map_comp o_def kp(1))
    from held_by_cong [OF this] have same: "held_by uh s' = held_by uh s" "psys s' = psys s" by (simp_all add: s'_def)
    show "sys_ok (held_by uh s') (psys s')" unfolding same by (rule prog_invD(1) [OF assms])
    show "parray_ok s' m" for m by (rule parray_ok_cong [OF prog_invD(3) [OF assms, of m]]) (simp_all add: s'_def)
    show "kprog_ok ph s' q" for q
    proof (cases "q = p")
      case True
      then show ?thesis using kp prog_invD(2) [OF assms, of p] refs by (auto simp: kprog_ok_def s'_def)
    next
      case False
      then show ?thesis using refs by (intro kprog_ok_cong [OF prog_invD(2) [OF assms, of q]]) (auto simp: s'_def)
    qed
  qed (use kp(3) prog_invD(4,5) [OF assms] in \<open>auto simp: s'_def\<close>)
  then show ?thesis using r by (intro exI [of _ s']) (simp add: s'_def)
qed

text \<open>The accounts of users play no part in the invariant.\<close>

lemma sys_ok_accounts [simp, life]: "sys_ok held (t\<lparr>locked_vm := a\<rparr>) = sys_ok held t" "sys_ok held (t\<lparr>uid_refs := b\<rparr>) = sys_ok held t"
  by (simp_all add: sys_ok_def map_ok_def cong: option.case_cong)

text \<open>A program gives back the references on its maps.\<close>

definition drop_refs :: "nat list \<Rightarrow> holders \<Rightarrow> holders" where
  "drop_refs ms held = (\<lambda>b m. if \<not> b \<and> m \<in> set ms then held b m - 1 else held b m)"

lemma bpf_map_put_frame:
  "bpf_map_put m s = Ok s' \<Longrightarrow> fds s' = fds s \<and> (\<forall>n. map_option km_usercnt (maps s' n) = map_option km_usercnt (maps s n))"
  by (auto simp: bpf_map_put_def upd_map_def Let_def option.map_comp o_def split: option.splits if_splits)

lemma bpf_map_put_total: "maps s m = Some km \<Longrightarrow> \<exists>s'. bpf_map_put m s = Ok s'"
  by (cases "km_refcnt km = 1") (simp_all add: bpf_map_put_def Let_def)

lemma release_maps_sys_ok:
  assumes "sys_ok held s" and "distinct ms" and "\<forall>m \<in> set ms. 0 < held False m"
  shows "\<exists>s'. release_maps ms s = Ok s' \<and> sys_ok (drop_refs ms held) s' \<and> fds s' = fds s \<and>
    (\<forall>n. map_option km_usercnt (maps s' n) = map_option km_usercnt (maps s n))"
  using assms
proof (induction ms arbitrary: held s)
  case Nil
  then show ?case by (simp add: drop_refs_def)
next
  case (Cons m ms)
  have "map_ok held s m" using Cons.prems(1) by (simp add: sys_ok_def)
  then have "maps s m \<noteq> None" using Cons.prems(3) by (auto simp: map_ok_def split: option.splits)
  then obtain s1 where s1: "bpf_map_put m s = Ok s1" using bpf_map_put_total by blast
  have ok: "sys_ok (drop_hold False m held) s1" using put_sys_ok [OF Cons.prems(1), of m False] s1 Cons.prems(3) by simp
  have "\<forall>n \<in> set ms. 0 < drop_hold False m held False n" using Cons.prems(2,3) by (auto simp: drop_hold_def)
  from Cons.IH [OF ok _ this] Cons.prems(2) obtain s' where s': "release_maps ms s1 = Ok s'"
      "sys_ok (drop_refs ms (drop_hold False m held)) s'" "fds s' = fds s1" "\<forall>n. map_option km_usercnt (maps s' n) = map_option km_usercnt (maps s1 n)"
    by auto
  have "drop_refs ms (drop_hold False m held) = drop_refs (m # ms) held"
    using Cons.prems(2) by (auto simp: drop_refs_def drop_hold_def fun_eq_iff)
  then show ?case using s' s1 bpf_map_put_frame [OF s1] by auto
qed

lemma parray_ok_usercnt:
  assumes "parray_ok s m" and "parrays s' m = parrays s m" and "map_option km_usercnt (maps (psys s') m) = map_option km_usercnt (maps (psys s) m)"
  shows "parray_ok s' m"
proof -
  have "\<exists>km'. maps (psys s') m = Some km' \<and> km_usercnt km' = km_usercnt km" if "maps (psys s) m = Some km" for km
    using assms(3) that by (cases "maps (psys s') m") auto
  then show ?thesis using assms(1,2) unfolding parray_ok_def by metis
qed

text \<open>The release of a program, after its grace period or at once.\<close>

lemma put_common_inv:
  assumes "prog_inv uh ph (s\<lparr>prog_rcu := p # prog_rcu s\<rparr>)"
  shows "\<exists>s'. prog_put_common p s = Ok s' \<and> prog_inv uh ph s' \<and> fds (psys s') = fds (psys s) \<and> parrays s' = parrays s"
proof -
  let ?s = "s\<lparr>prog_rcu := p # prog_rcu s\<rparr>"
  have d: "p \<notin> set (prog_rcu s)" "distinct (prog_rcu s)" using prog_invD(4) [OF assms] by simp_all
  have ok: "kprog_ok ph ?s p" by (rule prog_invD(2) [OF assms])
  have refs: "prog_refs ?s = prog_refs s" by (rule prog_refs_cong) simp_all
  obtain kp where kp: "progs s p = Some kp" using ok by (cases "progs s p") (auto simp: kprog_ok_def)
  have k: "p \<notin> set (prog_work s)" "distinct (pr_used_maps kp)" "p < prog_next s"
    and "finite (prog_refs s p)" "int (card (prog_refs s p)) + int (ph p) = 0"
    using ok kp refs by (auto simp: kprog_ok_def split: if_splits)
  then have none: "prog_refs s p = {}" "ph p = 0" using card_eq_0_iff [of "prog_refs s p"] by linarith+
  have sys: "sys_ok (held_by uh s) (psys s)" using prog_invD(1) [OF assms] by simp
  have fin: "finite (map_users s m)" for m using finite_map_users [OF assms, of m] by simp
  have mem: "p \<in> map_users s m \<longleftrightarrow> m \<in> set (pr_used_maps kp)" for m using kp k(1) by (simp add: map_users_def)
  have "\<forall>m \<in> set (pr_used_maps kp). 0 < held_by uh s False m" using mem fin by (auto simp: held_by_def card_gt_0_iff)
  from release_maps_sys_ok [OF sys k(2) this] obtain t where t: "release_maps (pr_used_maps kp) (psys s) = Ok t"
      "sys_ok (drop_refs (pr_used_maps kp) (held_by uh s)) t" "fds t = fds (psys s)"
      "\<forall>n. map_option km_usercnt (maps t n) = map_option km_usercnt (maps (psys s) n)" by blast
  define t' where "t' = t\<lparr>locked_vm := (locked_vm t)(kp_user kp := locked_vm t (kp_user kp) - int (kp_pages kp)),
      uid_refs := (uid_refs t)(kp_user kp := uid_refs t (kp_user kp) - 1)\<rparr>"
  define s' where "s' = (set_sys t' s)\<lparr>prog_work := p # prog_work s\<rparr>"
  have r: "prog_put_common p s = Ok s'"
    using kp t(1) by (simp add: prog_put_common_def free_used_maps_def bpf_prog_uncharge_memlock_def bpf_prog_schedule_free_def s'_def t'_def Let_def)
  have refs': "prog_refs s' = prog_refs s" using t(3) by (intro prog_refs_cong) (simp_all add: s'_def t'_def)
  have users: "map_users s' m = map_users s m - {p}" for m by (auto simp: map_users_def s'_def)
  have "held_by uh s' b m = drop_refs (pr_used_maps kp) (held_by uh s) b m" for b m
  proof (cases "p \<in> map_users s m")
    case True
    then show ?thesis using fin mem users by (auto simp: held_by_def drop_refs_def)
  next
    case False
    then show ?thesis using mem users by (auto simp: held_by_def drop_refs_def)
  qed
  then have held: "held_by uh s' = drop_refs (pr_used_maps kp) (held_by uh s)" by (simp add: fun_eq_iff)
  have "prog_inv uh ph s'"
  proof
    show "sys_ok (held_by uh s') (psys s')" unfolding held using t(2) by (simp add: s'_def t'_def)
    show "parray_ok s' m" for m
      by (rule parray_ok_usercnt [OF prog_invD(3) [OF assms, of m]]) (use t(4) in \<open>simp_all add: s'_def t'_def\<close>)
    show "kprog_ok ph s' q" for q
    proof (cases "q = p")
      case True
      then show ?thesis using kp k none refs' d(1) by (simp add: kprog_ok_def s'_def)
    next
      case False
      then show ?thesis using refs refs' by (intro kprog_ok_cong [OF prog_invD(2) [OF assms, of q]]) (auto simp: s'_def)
    qed
  qed (use d k(1) prog_invD(5) [OF assms] in \<open>simp_all add: s'_def\<close>)
  then show ?thesis using r t(3) by (intro exI [of _ s']) (simp add: s'_def t'_def)
qed

lemma put_inv:
  assumes "prog_inv uh (ph(p := Suc (ph p))) s"
  shows "\<exists>s'. bpf_prog_put p s = Ok s' \<and> prog_inv uh ph s' \<and> fds (psys s') = fds (psys s) \<and> parrays s' = parrays s"
proof -
  obtain s1 where s1: "bpf_prog_put_rcu p s = Ok s1" "prog_inv uh ph s1" "psys s1 = psys s" "parrays s1 = parrays s"
    using put_rcu_inv [OF assms] by blast
  obtain kp where kp: "progs s p = Some kp" using s1(1) by (cases "progs s p") (auto simp: bpf_prog_put_rcu_def dec_and_test_def)
  let ?s = "upd_kprog p (\<lambda>k. k\<lparr>kp_refcnt := kp_refcnt k - 1\<rparr>) s"
  show ?thesis
  proof (cases "kp_refcnt kp = 1")
    case True
    then have "s1 = ?s\<lparr>prog_rcu := p # prog_rcu ?s\<rparr>" using s1(1) kp by (simp add: bpf_prog_put_rcu_def dec_and_test_eq)
    then have "prog_inv uh ph (?s\<lparr>prog_rcu := p # prog_rcu ?s\<rparr>)" using s1(2) by simp
    from put_common_inv [OF this] show ?thesis using True kp by (simp add: bpf_prog_put_def dec_and_test_eq)
  next
    case False
    then show ?thesis using s1 kp by (auto simp: bpf_prog_put_rcu_def bpf_prog_put_def dec_and_test_eq)
  qed
qed

section \<open>Moving references\<close>

text \<open>\<open>give ptr ph\<close>: the others hold one more reference on the program behind \<open>ptr\<close>.\<close>

definition give :: "nat option \<Rightarrow> (nat \<Rightarrow> nat) \<Rightarrow> nat \<Rightarrow> nat" where
  "give ptr ph = (case ptr of None \<Rightarrow> ph | Some p \<Rightarrow> ph(p := Suc (ph p)))"

lemma give_simps [simp]:
  "give None ph = ph" "give (Some p) ph = ph(p := Suc (ph p))" "give ptr ph q = ph q + (if ptr = Some q then 1 else 0)"
  by (auto simp: give_def split: option.splits)

text \<open>
  A place that holds references (a descriptor or a slot) changes its content from \<open>old\<close> to \<open>new\<close>: what it held passes to the others, what it
  holds now it takes from them.
\<close>

lemma move_kprog_ok:
  assumes "kprog_ok (give new ph) s q" and "(x \<in> prog_refs s q) = (old = Some q)"
    and "prog_refs s' q = (if new = Some q then insert x (prog_refs s q) else prog_refs s q - {x})"
    and "progs s' = progs s" and "prog_next s' = prog_next s" and "prog_rcu s' = prog_rcu s" and "prog_work s' = prog_work s"
  shows "kprog_ok (give old ph) s' q"
proof -
  have fin: "finite (prog_refs s q)" using assms(1) by (simp add: kprog_ok_def)
  have "finite (prog_refs s' q)" using fin assms(3) by simp
  moreover have "card (prog_refs s' q) + give old ph q = card (prog_refs s q) + give new ph q"
    using fin assms(2,3) card_Suc_Diff1 [OF fin, of x] by (auto simp: insert_absorb)
  moreover have "prog_refs s' q = {} \<and> give old ph q = 0 \<longleftrightarrow> prog_refs s q = {} \<and> give new ph q = 0"
    using assms(2,3) by auto
  ultimately show ?thesis using assms(1,4-) by (auto simp: kprog_ok_def split: option.splits if_splits)
qed

definition set_fd :: "nat \<Rightarrow> nat option \<Rightarrow> prog_sys \<Rightarrow> prog_sys" where
  "set_fd fd ptr s = set_sys ((psys s)\<lparr>fds := (fds (psys s))(fd := map_option ProgFile ptr)\<rparr>) s"

lemma map_option_file [simp]: "map_option ProgFile x = Some (ProgFile q) \<longleftrightarrow> x = Some q" "Some (ProgFile q) = map_option ProgFile x \<longleftrightarrow> x = Some q"
  by (cases x; auto)+

lemma set_fd_inv:
  assumes "prog_inv uh (give new ph) s" and "fds (psys s) fd = map_option ProgFile old"
  shows "prog_inv uh (give old ph) (set_fd fd new s)"
proof
  let ?s = "set_fd fd new s"
  have "fdset (psys ?s) m = fdset (psys s) m" for m using assms(2) by (cases old; cases new) (auto simp: fdset_def set_fd_def)
  then show "sys_ok (held_by uh ?s) (psys ?s)"
    using prog_invD(1) [OF assms(1)] by (simp add: set_fd_def sys_ok_def map_ok_def cong: option.case_cong)
  show "parray_ok ?s m" for m by (rule parray_ok_cong [OF prog_invD(3) [OF assms(1), of m]]) (simp_all add: set_fd_def)
  show "kprog_ok (give old ph) ?s q" for q
    by (rule move_kprog_ok [OF prog_invD(2) [OF assms(1)], of "Inl fd"])
      (use assms(2) in \<open>auto simp: prog_refs_def set_fd_def split: if_splits\<close>)
qed (use prog_invD(4,5) [OF assms(1)] in \<open>simp_all add: set_fd_def\<close>)

lemma xchg_ptr_inv:
  assumes "prog_inv uh (give new ph) s" and "parrays s m = Some pa" and "i < length (pa_ptrs pa)"
    and "\<And>km. maps (psys s) m = Some km \<Longrightarrow> new \<noteq> None \<Longrightarrow> km_usercnt km \<noteq> 0"
  shows "\<exists>s'. xchg_ptr m i new s = Ok (pa_ptrs pa ! i, s') \<and> prog_inv uh (give (pa_ptrs pa ! i) ph) s' \<and> psys s' = psys s \<and>
    parrays s' = (parrays s)(m \<mapsto> pa\<lparr>pa_ptrs := (pa_ptrs pa)[i := new]\<rparr>)"
proof -
  define s' where "s' = s\<lparr>parrays := (parrays s)(m \<mapsto> pa\<lparr>pa_ptrs := (pa_ptrs pa)[i := new]\<rparr>)\<rparr>"
  have r: "xchg_ptr m i new s = Ok (pa_ptrs pa ! i, s')" using assms(2,3) by (simp add: xchg_ptr_def s'_def)
  have "prog_inv uh (give (pa_ptrs pa ! i) ph) s'"
  proof
    show "sys_ok (held_by uh s') (psys s')" using prog_invD(1) [OF assms(1)] by (simp add: s'_def)
    show "parray_ok s' n" for n
      using prog_invD(3) [OF assms(1), of n] assms(2-4) unfolding parray_ok_def s'_def
      by (cases new) (auto dest!: set_update_subset_insert [THEN subsetD])
    show "kprog_ok (give (pa_ptrs pa ! i) ph) s' q" for q
    proof (rule move_kprog_ok [OF prog_invD(2) [OF assms(1)], of "Inr (m, i)"])
      have "x \<in> prog_refs s' q \<longleftrightarrow> x \<in> (if new = Some q then insert (Inr (m, i)) (prog_refs s q) else prog_refs s q - {Inr (m, i)})" for x
        using assms(2,3) by (cases x) (auto simp: in_prog_refs s'_def nth_list_update)
      then show "prog_refs s' q = (if new = Some q then insert (Inr (m, i)) (prog_refs s q) else prog_refs s q - {Inr (m, i)})" by blast
    qed (use assms(2,3) in \<open>simp_all add: in_prog_refs s'_def\<close>)
  qed (use prog_invD(4,5) [OF assms(1)] in \<open>simp_all add: s'_def\<close>)
  then show ?thesis using r by (intro exI [of _ s']) (simp add: s'_def)
qed

text \<open>The owner of an array plays no part in the invariant.\<close>

lemma owner_inv:
  assumes "prog_inv uh ph s" and "parrays s m = Some pa" and "pa_ptrs pa' = pa_ptrs pa"
  shows "prog_inv uh ph (s\<lparr>parrays := (parrays s)(m \<mapsto> pa')\<rparr>)"
proof
  let ?s = "s\<lparr>parrays := (parrays s)(m \<mapsto> pa')\<rparr>"
  have "x \<in> prog_refs ?s q \<longleftrightarrow> x \<in> prog_refs s q" for x q using assms(2,3) by (cases x) (auto simp: in_prog_refs)
  then have refs: "prog_refs ?s = prog_refs s" by blast
  show "sys_ok (held_by uh ?s) (psys ?s)" using prog_invD(1) [OF assms(1)] by simp
  show "kprog_ok ph ?s q" for q using refs by (intro kprog_ok_cong [OF prog_invD(2) [OF assms(1)]]) auto
  show "parray_ok ?s n" for n using prog_invD(3) [OF assms(1), of n] assms(2,3) by (auto simp: parray_ok_def)
qed (use prog_invD(4,5) [OF assms(1)] in simp_all)

section \<open>Operations on programs\<close>

lemma compatible_ptrs: "bpf_prog_array_compatible pa fp = (c, pa') \<Longrightarrow> pa_ptrs pa' = pa_ptrs pa"
  by (auto simp: bpf_prog_array_compatible_def split: if_splits)

lemma fd_in_refs: "fds (psys s) fd = Some (ProgFile p) \<Longrightarrow> prog_refs s p \<noteq> {}"
  by (auto simp: prog_refs_def)

lemma inc_inv:
  assumes "prog_inv uh ph s" and "progs s p = Some kp" and "p \<notin> set (prog_work s)" and "p \<notin> set (prog_rcu s)"
  shows "prog_inv uh (give (Some p) ph) (upd_kprog p (\<lambda>k. k\<lparr>kp_refcnt := kp_refcnt k + 1\<rparr>) s)"
proof
  let ?s = "upd_kprog p (\<lambda>k. k\<lparr>kp_refcnt := kp_refcnt k + 1\<rparr>) s"
  have refs: "prog_refs ?s = prog_refs s" by (rule prog_refs_cong) simp_all
  have "map_users ?s = map_users s" by (rule map_users_cong) (auto simp: option.map_comp o_def assms(2))
  from held_by_cong [OF this] show "sys_ok (held_by uh ?s) (psys ?s)" using prog_invD(1) [OF assms(1)] by simp
  show "parray_ok ?s m" for m by (rule parray_ok_cong [OF prog_invD(3) [OF assms(1), of m]]) simp_all
  show "kprog_ok (give (Some p) ph) ?s q" for q
  proof (cases "q = p")
    case True
    then show ?thesis using prog_invD(2) [OF assms(1), of p] assms(2-4) refs by (auto simp: kprog_ok_def)
  next
    case False
    then show ?thesis using refs by (intro kprog_ok_cong [OF prog_invD(2) [OF assms(1), of q]]) auto
  qed
qed (use prog_invD(4,5) [OF assms(1)] in simp_all)

text \<open>Looking up a descriptor takes a reference or fails; it leaves the references on files as they were.\<close>

lemma prog_get_inv:
  assumes "prog_inv uh ph s"
  shows "(\<exists>e s'. bpf_prog_get shared fd s = (Err e, s') \<and> prog_inv uh ph s' \<and> psys s' = psys s \<and> f_count (pv s') = f_count (pv s) \<and> parrays s' = parrays s) \<or>
    (\<exists>p s'. bpf_prog_get shared fd s = (Ok p, s') \<and> prog_inv uh (give (Some p) ph) s' \<and> fds (psys s) fd = Some (ProgFile p) \<and>
       psys s' = psys s \<and> f_count (pv s') = f_count (pv s) \<and> parrays s' = parrays s)"
proof (cases "\<exists>p. fds (psys s) fd = Some (ProgFile p)")
  case True
  then obtain p where p: "fds (psys s) fd = Some (ProgFile p)" by blast
  obtain kp where kp: "progs s p = Some kp" "p \<notin> set (prog_work s)" "p \<notin> set (prog_rcu s)"
    using held_alive [OF assms] fd_in_refs [OF p] by metis
  have "bpf_prog_get shared fd s = (Ok p, upd_kprog p (\<lambda>k. k\<lparr>kp_refcnt := kp_refcnt k + 1\<rparr>) s)"
    using p kp(1) by (simp add: bpf_prog_get_def prog_of_fd_def)
  then show ?thesis using inc_inv [OF assms kp] p by auto
next
  case False
  then obtain e where "bpf_prog_get shared fd s = (Err e, s\<lparr>pv := if fds (psys s) fd = None then fdget shared fd (pv s) else pv s\<rparr>)"
    by (cases "fds (psys s) fd"; cases "the (fds (psys s) fd)") (auto simp: bpf_prog_get_def prog_of_fd_def)
  moreover have "fdget shared fd (pv s) = pv s" if "fds (psys s) fd = None" using that by (simp add: fdget_def add_count_def)
  ultimately have "bpf_prog_get shared fd s = (Err e, s)" by (cases "fds (psys s) fd = None") auto
  then show ?thesis using assms by auto
qed

lemma fd_release_inv:
  assumes "prog_inv uh ph s" and "fds (psys s) fd = Some (ProgFile p)"
  shows "\<exists>s'. bpf_prog_fd_release fd s = Ok s' \<and> prog_inv uh ph s'"
proof -
  have "prog_inv uh (ph(p := Suc (ph p))) (set_fd fd None s)" using set_fd_inv [of uh None ph s fd "Some p"] assms by simp
  from put_rcu_inv [OF this] show ?thesis using assms(2) by (auto simp: bpf_prog_fd_release_def set_fd_def)
qed

lemma rcu_callback_inv:
  assumes "prog_inv uh ph s" and "prog_rcu s = xs @ p # ys"
  shows "\<exists>s'. prog_put_common p (s\<lparr>prog_rcu := xs @ ys\<rparr>) = Ok s' \<and> prog_inv uh ph s'"
proof -
  have "prog_inv uh ph (s\<lparr>prog_rcu := p # xs @ ys\<rparr>)"
  proof
    let ?s = "s\<lparr>prog_rcu := p # xs @ ys\<rparr>"
    show "sys_ok (held_by uh ?s) (psys ?s)" using prog_invD(1) [OF assms(1)] by simp
    show "parray_ok ?s m" for m by (rule parray_ok_cong [OF prog_invD(3) [OF assms(1), of m]]) simp_all
    show "kprog_ok ph ?s q" for q
      by (rule kprog_ok_cong [OF prog_invD(2) [OF assms(1), of q]]) (auto simp: assms(2) intro!: prog_refs_cong [THEN fun_cong])
  qed (use prog_invD(4,5) [OF assms(1)] assms(2) in auto)
  then show ?thesis using put_common_inv [where s = "s\<lparr>prog_rcu := xs @ ys\<rparr>" and p = p] by fastforce
qed

lemma free_work_inv:
  assumes "prog_inv uh ph s" and "prog_work s = xs @ p # ys"
  shows "\<exists>s'. bpf_prog_free_deferred p (s\<lparr>prog_work := xs @ ys\<rparr>) = Ok s' \<and> prog_inv uh ph s' \<and> progs s' p = None"
proof -
  have ok: "kprog_ok ph s p" by (rule prog_invD(2) [OF assms(1)])
  obtain kp where kp: "progs s p = Some kp" using ok assms(2) by (cases "progs s p") (auto simp: kprog_ok_def)
  have d: "distinct (xs @ p # ys)" using prog_invD(5) [OF assms(1)] assms(2) by simp
  define s' where "s' = s\<lparr>prog_work := xs @ ys, progs := (progs s)(p := None)\<rparr>"
  have r: "bpf_prog_free_deferred p (s\<lparr>prog_work := xs @ ys\<rparr>) = Ok s'" using kp by (simp add: bpf_prog_free_deferred_def s'_def)
  have refs: "prog_refs s' = prog_refs s" by (rule prog_refs_cong) (simp_all add: s'_def)
  have "map_users s' = map_users s" using assms(2) by (auto simp: map_users_def s'_def fun_eq_iff)
  from held_by_cong [OF this] have same: "held_by uh s' = held_by uh s" .
  have "prog_inv uh ph s'"
  proof
    show "sys_ok (held_by uh s') (psys s')" unfolding same using prog_invD(1) [OF assms(1)] by (simp add: s'_def)
    show "parray_ok s' m" for m by (rule parray_ok_cong [OF prog_invD(3) [OF assms(1), of m]]) (simp_all add: s'_def)
    show "kprog_ok ph s' q" for q
    proof (cases "q = p")
      case True
      then show ?thesis using ok kp refs assms(2) d by (auto simp: kprog_ok_def s'_def)
    next
      case False
      then show ?thesis using refs assms(2) by (intro kprog_ok_cong [OF prog_invD(2) [OF assms(1), of q]]) (auto simp: s'_def)
    qed
  qed (use prog_invD(4) [OF assms(1)] d in \<open>simp_all add: s'_def\<close>)
  then show ?thesis using r by (intro exI [of _ s']) (simp add: s'_def)
qed

section \<open>Operations on arrays of programs\<close>

lemma fd_array_delete_inv:
  assumes "prog_inv uh ph s" and "parrays s m = Some pa"
  shows "\<exists>r s'. fd_array_delete m i s = (r, s') \<and> (\<forall>u. r \<noteq> Undef u) \<and> prog_inv uh ph s' \<and> psys s' = psys s \<and>
    parrays s' = (parrays s)(m \<mapsto> pa\<lparr>pa_ptrs := (pa_ptrs pa)[i := None]\<rparr>)"
proof (cases "i < length (pa_ptrs pa)")
  case False
  then show ?thesis using assms by (intro exI) (auto simp: fd_array_delete_def fun_upd_idem list_update_beyond not_less)
next
  case True
  obtain s1 where s1: "xchg_ptr m i None s = Ok (pa_ptrs pa ! i, s1)" "prog_inv uh (give (pa_ptrs pa ! i) ph) s1" "psys s1 = psys s"
      "parrays s1 = (parrays s)(m \<mapsto> pa\<lparr>pa_ptrs := (pa_ptrs pa)[i := None]\<rparr>)"
    using xchg_ptr_inv [of uh None ph s m pa i] assms True by auto
  show ?thesis
  proof (cases "pa_ptrs pa ! i")
    case None
    then show ?thesis using s1 assms(2) True by (auto simp: fd_array_delete_def)
  next
    case (Some p)
    then have "prog_inv uh (ph(p := Suc (ph p))) s1" using s1(2) by simp
    from put_rcu_inv [OF this] Some show ?thesis using s1 assms(2) True by (auto simp: fd_array_delete_def)
  qed
qed

definition wipe :: "nat list \<Rightarrow> 'a option list \<Rightarrow> 'a option list" where
  "wipe is xs = fold (\<lambda>i xs. xs[i := None]) is xs"

lemma length_wipe [simp]: "length (wipe is xs) = length xs"
  unfolding wipe_def by (induction "is" arbitrary: xs) auto

lemma wipe_nth: "j < length xs \<Longrightarrow> wipe is xs ! j = (if j \<in> set is then None else xs ! j)"
  unfolding wipe_def by (induction "is" arbitrary: xs) (auto simp: nth_list_update)

lemma wipe_all: "ptr \<in> set (wipe [0..<length xs] xs) \<Longrightarrow> ptr = None"
  by (auto simp: in_set_conv_nth wipe_nth)

lemma clear_loop_inv:
  assumes "prog_inv uh ph s" and "parrays s m = Some pa"
  shows "\<exists>s'. clear_loop m is s = Ok s' \<and> prog_inv uh ph s' \<and> psys s' = psys s \<and>
    parrays s' = (parrays s)(m \<mapsto> pa\<lparr>pa_ptrs := wipe is (pa_ptrs pa)\<rparr>)"
  using assms
proof (induction "is" arbitrary: s pa)
  case Nil
  then show ?case by (auto simp: wipe_def fun_upd_idem)
next
  case (Cons i "is")
  obtain r s1 where s1: "fd_array_delete m i s = (r, s1)" "\<forall>u. r \<noteq> Undef u" "prog_inv uh ph s1" "psys s1 = psys s"
      "parrays s1 = (parrays s)(m \<mapsto> pa\<lparr>pa_ptrs := (pa_ptrs pa)[i := None]\<rparr>)"
    using fd_array_delete_inv [OF Cons.prems] by blast
  have "clear_loop m (i # is) s = clear_loop m is s1" using s1(1,2) by (cases r) auto
  then show ?case using Cons.IH [OF s1(3), of "pa\<lparr>pa_ptrs := (pa_ptrs pa)[i := None]\<rparr>"] s1(4,5) by (auto simp: wipe_def fun_eq_iff)
qed

lemma map_clear_inv:
  assumes "prog_inv uh ph s" and "parrays s m = Some pa"
  shows "\<exists>s' pa'. bpf_fd_array_map_clear m s = Ok s' \<and> prog_inv uh ph s' \<and> psys s' = psys s \<and> parrays s' = (parrays s)(m \<mapsto> pa') \<and>
    (\<forall>ptr \<in> set (pa_ptrs pa'). ptr = None)"
  using clear_loop_inv [OF assms, of "[0..<length (pa_ptrs pa)]"] assms(2) wipe_all [of _ "pa_ptrs pa"]
  by (fastforce simp: bpf_fd_array_map_clear_def)

lemma get_ptr_inv:
  assumes "prog_inv uh ph s" and "parrays s m = Some pa"
  shows "(\<exists>e s'. prog_fd_array_get_ptr shared m fd s = (Err e, s') \<and> prog_inv uh ph s') \<or>
    (\<exists>p pa' s'. prog_fd_array_get_ptr shared m fd s = (Ok p, s') \<and> prog_inv uh (give (Some p) ph) s' \<and> psys s' = psys s \<and>
       parrays s' = (parrays s)(m \<mapsto> pa') \<and> pa_ptrs pa' = pa_ptrs pa)"
  using prog_get_inv [OF assms(1), of shared fd]
proof (elim disjE exE conjE)
  fix p s1 assume s1: "bpf_prog_get shared fd s = (Ok p, s1)" "prog_inv uh (give (Some p) ph) s1" "psys s1 = psys s" "parrays s1 = parrays s"
  obtain kp where kp: "progs s1 p = Some kp" using held_alive [OF s1(2), of p] by auto
  obtain c pa' where c: "bpf_prog_array_compatible pa kp = (c, pa')" by fastforce
  let ?s = "s1\<lparr>parrays := (parrays s1)(m \<mapsto> pa')\<rparr>"
  have pa: "parrays s1 m = Some pa" using s1(4) assms(2) by simp
  note ptrs = compatible_ptrs [OF c]
  have inv: "prog_inv uh (give (Some p) ph) ?s" by (rule owner_inv [OF s1(2) pa ptrs])
  show ?thesis
  proof (cases c)
    case True
    then show ?thesis using s1 kp pa c inv ptrs by (auto simp: prog_fd_array_get_ptr_def Let_def)
  next
    case False
    then show ?thesis using s1 kp pa c put_inv [of uh ph p ?s] inv by (auto simp: prog_fd_array_get_ptr_def Let_def)
  qed
qed (auto simp: prog_fd_array_get_ptr_def)

lemma fd_array_update_inv:
  assumes "prog_inv uh ph s" and "parrays s m = Some pa" and "maps (psys s) m = Some km" and "km_usercnt km \<noteq> 0"
    and "length key = 4" and "length val = 4"
  shows "\<exists>r s'. fd_array_map_update_elem shared m key val flags s = (r, s') \<and> (\<forall>u. r \<noteq> Undef u) \<and> prog_inv uh ph s'"
proof -
  obtain index ufd where k: "key_index key = Ok index" "key_index val = Ok ufd" using assms(5,6) by (auto simp: key_index_def)
  let ?get = "prog_fd_array_get_ptr shared m (unat ufd) s"
  consider (bad) "flags \<noteq> 0 \<or> length (pa_ptrs pa) \<le> unat index"
    | (err) e s1 where "flags = 0" "unat index < length (pa_ptrs pa)" "?get = (Err e, s1)" "prog_inv uh ph s1"
    | (got) p pa' s1 where "flags = 0" "unat index < length (pa_ptrs pa)" "?get = (Ok p, s1)" "prog_inv uh (give (Some p) ph) s1"
        "psys s1 = psys s" "parrays s1 m = Some pa'" "pa_ptrs pa' = pa_ptrs pa"
    using get_ptr_inv [OF assms(1,2), of shared "unat ufd"] by (cases "flags = 0"; cases "unat index < length (pa_ptrs pa)") fastforce+
  then show ?thesis
  proof cases
    case bad
    then show ?thesis using assms(1,2) k by (auto simp: fd_array_map_update_elem_def)
  next
    case err
    then show ?thesis using assms(2) k by (auto simp: fd_array_map_update_elem_def)
  next
    case got
    obtain s2 where s2: "xchg_ptr m (unat index) (Some p) s1 = Ok (pa_ptrs pa ! unat index, s2)" "prog_inv uh (give (pa_ptrs pa ! unat index) ph) s2"
      using xchg_ptr_inv [OF got(4,6), of "unat index"] got assms(3,4) by auto
    show ?thesis
    proof (cases "pa_ptrs pa ! unat index")
      case None
      then show ?thesis using s2 got assms(2) k by (auto simp: fd_array_map_update_elem_def)
    next
      case (Some old)
      then have "prog_inv uh (ph(old := Suc (ph old))) s2" using s2(2) by simp
      from put_rcu_inv [OF this] Some show ?thesis using s2 got assms(2) k by (auto simp: fd_array_map_update_elem_def)
    qed
  qed
qed

end
