(* ===== verification/Bpf_Prog_Life.thy ===== *)
theory Bpf_Prog_Life
  imports Bpf_Prog_Inv
begin

text \<open>
  The life of programs, maps and arrays of programs: the operations of \<^verbatim>\<open>kernel/bpf/syscall.c\<close> and \<^verbatim>\<open>kernel/bpf/arraymap.c\<close>
  as a step relation. In every state it reaches all counts are exact, and nothing is freed that is still in use.
\<close>

section \<open>Operations on maps\<close>

lemma sys_change_inv:
  assumes "prog_inv uh ph s" and "sys_ok (held_by uh' s) t" and "\<And>fd p. fds t fd = Some (ProgFile p) \<longleftrightarrow> fds (psys s) fd = Some (ProgFile p)"
    and "\<And>m. parray_ok (set_sys t s) m"
  shows "prog_inv uh' ph (set_sys t s)"
proof
  show "kprog_ok ph (set_sys t s) p" for p
  proof (rule kprog_ok_cong [OF prog_invD(2) [OF assms(1), of p]])
    show "prog_refs (set_sys t s) p = prog_refs s p" using assms(3) by (simp add: prog_refs_def)
  qed simp_all
qed (use assms prog_invD [OF assms(1)] in simp_all)

lemma usercnt_nonneg:
  assumes "prog_inv uh ph s" and "maps (psys s) m = Some km"
  shows "0 \<le> km_usercnt km"
proof -
  have "map_ok (held_by uh s) (psys s) m" using prog_invD(1) [OF assms(1)] by (simp add: sys_ok_def)
  then show ?thesis using assms(2) by (simp add: map_ok_def)
qed

lemma fd_usercnt:
  assumes "prog_inv uh ph s" and "fds (psys s) fd = Some (MapFile m)"
  shows "\<exists>km. maps (psys s) m = Some km \<and> km_usercnt km \<noteq> 0"
proof -
  obtain km where km: "maps (psys s) m = Some km" using sys_ok_fd [OF prog_invD(1) [OF assms(1)] assms(2)] by blast
  have ok: "map_ok (held_by uh s) (psys s) m" using prog_invD(1) [OF assms(1)] by (simp add: sys_ok_def)
  have "fd \<in> fdset (psys s) m" using assms(2) by (simp add: fdset_def)
  then have "0 < card (fdset (psys s) m)" using ok by (auto simp: map_ok_def card_gt_0_iff)
  then show ?thesis using ok km by (simp add: map_ok_def)
qed

lemma held_by_get: "held_by (uh(m := Suc (uh m))) s = hold True m (held_by uh s)"
  by (auto simp: held_by_def hold_def fun_eq_iff)

lemma held_by_put: "held_by uh s = drop_hold True m (held_by (uh(m := Suc (uh m))) s)"
  by (auto simp: held_by_def drop_hold_def fun_eq_iff)

lemma map_inc_inv:
  assumes "prog_inv uh ph s" and "maps (psys s) m = Some km" and "0 < km_refcnt km"
  shows "prog_inv (uh(m := Suc (uh m))) ph (set_sys (bpf_map_inc m True (psys s)) s)" (is "prog_inv _ _ (set_sys ?t s)")
proof (rule sys_change_inv [OF assms(1)])
  show "sys_ok (held_by (uh(m := Suc (uh m))) s) ?t" unfolding held_by_get by (rule inc_sys_ok [OF prog_invD(1) [OF assms(1)] assms(2,3)])
  show "parray_ok (set_sys ?t s) n" for n
    using prog_invD(3) [OF assms(1), of n] usercnt_nonneg [OF assms(1), of m]
    by (cases "n = m") (fastforce simp: parray_ok_def bpf_map_inc_def upd_map_def)+
qed (simp add: bpf_map_inc_def upd_map_def)

lemma map_get_inv:
  assumes "prog_inv uh ph s" and "bpf_map_get_with_uref ufd (psys s) = Ok (m, t)"
  shows "prog_inv (uh(m := Suc (uh m))) ph (set_sys t s)"
proof -
  have t: "fds (psys s) ufd = Some (MapFile m)" "t = bpf_map_inc m True (psys s)"
    using assms(2) by (auto simp: bpf_map_get_with_uref_def bpf_map_get_def split: option.splits bpf_file.splits)
  obtain km where "maps (psys s) m = Some km" "0 < km_refcnt km" using sys_ok_fd [OF prog_invD(1) [OF assms(1)] t(1)] by blast
  then show ?thesis unfolding t(2) by (rule map_inc_inv [OF assms(1)])
qed

text \<open>A descriptor of a map is closed: its user reference passes to the others, who then give it up.\<close>

lemma close_map_fd_inv:
  assumes "prog_inv uh ph s" and "fds (psys s) fd = Some (MapFile m)"
  shows "prog_inv (uh(m := Suc (uh m))) ph (set_sys ((psys s)\<lparr>fds := (fds (psys s))(fd := None)\<rparr>) s)" (is "prog_inv _ _ (set_sys ?t s)")
proof (rule sys_change_inv [OF assms(1)])
  note sys = prog_invD(1) [OF assms(1)]
  have f: "fdset ?t n = fdset (psys s) n - (if n = m then {fd} else {})" for n using assms(2) by (auto simp: fdset_def)
  have mem: "fd \<in> fdset (psys s) m" using assms(2) by (simp add: fdset_def)
  have fin: "finite (fdset (psys s) m)" using sys by (simp add: sys_ok_def map_ok_def)
  have card: "card (fdset (psys s) m) = Suc (card (fdset (psys s) m - {fd}))" using card_Suc_Diff1 [OF fin mem] by simp
  show "sys_ok (held_by (uh(m := Suc (uh m))) s) ?t"
  proof (rule sys_okI)
    fix n
    have ok: "map_ok (held_by uh s) (psys s) n" using sys by (simp add: sys_ok_def)
    show "map_ok (held_by (uh(m := Suc (uh m))) s) ?t n"
    proof (cases "n = m")
      case True
      then show ?thesis using ok card fin f mem by (auto simp: map_ok_def held_by_def split: option.splits)
    next
      case False
      then show ?thesis using f by (intro map_ok_cong [OF _ _ _ _ _ ok]) (auto simp: held_by_def)
    qed
  qed (use sys in \<open>simp add: sys_ok_def\<close>)
  show "parray_ok (set_sys ?t s) n" for n by (rule parray_ok_cong [OF prog_invD(3) [OF assms(1), of n]]) simp_all
qed (use assms(2) in auto)

text \<open>A user reference passes to a new descriptor.\<close>

lemma open_map_fd_inv:
  assumes "prog_inv (uh(m := Suc (uh m))) ph s" and "fds (psys s) fd = None"
  shows "prog_inv uh ph (set_sys ((psys s)\<lparr>fds := (fds (psys s))(fd \<mapsto> MapFile m)\<rparr>) s)" (is "prog_inv _ _ (set_sys ?t s)")
proof (rule sys_change_inv [OF assms(1)])
  note sys = prog_invD(1) [OF assms(1)]
  have f: "fdset ?t n = fdset (psys s) n \<union> (if n = m then {fd} else {})" "fd \<notin> fdset (psys s) n" for n using assms(2) by (auto simp: fdset_def)
  have fin: "finite (fdset (psys s) n)" for n using sys by (simp add: sys_ok_def map_ok_def)
  show "sys_ok (held_by uh s) ?t"
  proof (rule sys_okI)
    fix n
    have ok: "map_ok (held_by (uh(m := Suc (uh m))) s) (psys s) n" using sys by (simp add: sys_ok_def)
    show "map_ok (held_by uh s) ?t n"
    proof (cases "n = m")
      case True
      then show ?thesis using ok fin [of m] f [of m] by (auto simp: map_ok_def held_by_def split: option.splits)
    next
      case False
      then show ?thesis using f(1) by (intro map_ok_cong [OF _ _ _ _ _ ok]) (auto simp: held_by_def)
    qed
  qed (use sys in \<open>simp add: sys_ok_def\<close>)
  show "parray_ok (set_sys ?t s) n" for n by (rule parray_ok_cong [OF prog_invD(3) [OF assms(1), of n]]) simp_all
qed (use assms(2) in auto)

text \<open>Emptying an array does not look at maps.\<close>

lemma fd_array_delete_sys: "fd_array_delete m i (set_sys t s) = map_prod id (set_sys t) (fd_array_delete m i s)"
  by (auto simp: fd_array_delete_def xchg_ptr_def bpf_prog_put_rcu_def dec_and_test_def upd_kprog_def set_sys_def split: option.splits)

lemma clear_loop_sys: "clear_loop m is (set_sys t s) = rbind (clear_loop m is s) (\<lambda>s. Ok (set_sys t s))"
proof (induction "is" arbitrary: s)
  case (Cons i "is")
  obtain r s1 where "fd_array_delete m i s = (r, s1)" by fastforce
  then show ?case using Cons by (cases r) (simp_all add: fd_array_delete_sys)
qed simp

lemma map_put_inv:
  assumes "prog_inv (uh(m := Suc (uh m))) ph s"
  shows "\<exists>s'. map_put_with_uref m s = Ok s' \<and> prog_inv uh ph s'"
proof -
  let ?uh = "uh(m := Suc (uh m))"
  have ok: "map_ok (held_by ?uh s) (psys s) m" using prog_invD(1) [OF assms] by (simp add: sys_ok_def)
  obtain km where km: "maps (psys s) m = Some km" using ok by (cases "maps (psys s) m") (auto simp: map_ok_def held_by_def)
  let ?t = "bpf_map_put_uref m (psys s)"
  obtain s1 where s1: "map_put_uref m s = Ok (set_sys ?t s1)" "prog_inv ?uh ph s1" "psys s1 = psys s"
      "km_usercnt km = 1 \<Longrightarrow> parrays s1 m = Some pa \<Longrightarrow> \<forall>ptr \<in> set (pa_ptrs pa). ptr = None" for pa
  proof (cases "km_usercnt km = 1 \<and> parrays s m \<noteq> None")
    case True
    then obtain pa where pa: "parrays s m = Some pa" by blast
    from map_clear_inv [OF assms pa] obtain s2 pa' where s2: "bpf_fd_array_map_clear m s = Ok s2" "prog_inv ?uh ph s2" "psys s2 = psys s"
        "parrays s2 = (parrays s)(m \<mapsto> pa')" "\<forall>ptr \<in> set (pa_ptrs pa'). ptr = None" by blast
    have "bpf_fd_array_map_clear m (set_sys ?t s) = Ok (set_sys ?t s2)"
      using s2(1) pa by (simp add: bpf_fd_array_map_clear_def clear_loop_sys)
    then show ?thesis using that [of s2] s2 km True by (simp add: map_put_uref_def)
  next
    case False
    then show ?thesis using that [of s] assms km by (auto simp: map_put_uref_def)
  qed
  have "maps ?t m = Some (km\<lparr>km_usercnt := km_usercnt km - 1\<rparr>)" using km by (simp add: bpf_map_put_uref_def upd_map_def)
  from bpf_map_put_total [OF this] obtain t where t: "bpf_map_put m ?t = Ok t" by blast
  have r: "map_put_with_uref m s = Ok (set_sys t s1)" using s1(1) t by (simp add: map_put_with_uref_def lift_sys_def)
  have maps: "map_option km_usercnt (maps t n) = (if n = m then Some (km_usercnt km - 1) else map_option km_usercnt (maps (psys s) n))" for n
    using bpf_map_put_frame [OF t] km by (simp add: bpf_map_put_uref_def upd_map_def)
  have fds: "fds t = fds (psys s)" using bpf_map_put_frame [OF t] by (simp add: bpf_map_put_uref_def upd_map_def)
  have "prog_inv uh ph (set_sys t s1)"
  proof (rule sys_change_inv [OF s1(2)])
    have "sys_ok (held_by ?uh s1) (psys s)" using prog_invD(1) [OF s1(2)] s1(3) by simp
    from put_sys_ok [OF this, of m True] show "sys_ok (held_by uh s1) t"
      using t by (simp add: held_by_put [of uh s1 m]) (simp add: held_by_def)
    show "parray_ok (set_sys t s1) n" for n
    proof (cases "n = m")
      case True
      obtain km' where "maps t m = Some km'" "km_usercnt km' = km_usercnt km - 1" using maps [of m] by auto
      then show ?thesis using True s1(4) by (auto simp: parray_ok_def)
    next
      case False
      then show ?thesis using maps [of n] s1(3) by (intro parray_ok_usercnt [OF prog_invD(3) [OF s1(2), of n]]) simp_all
    qed
  qed (simp add: fds s1(3))
  then show ?thesis using r by blast
qed

lemma map_fd_release_inv:
  assumes "prog_inv uh ph s" and "fds (psys s) fd = Some (MapFile m)"
  shows "\<exists>s'. map_fd_release fd s = Ok s' \<and> prog_inv uh ph s'"
  using map_put_inv [OF close_map_fd_inv [OF assms]] assms(2) by (simp add: map_fd_release_def)

text \<open>Creating maps.\<close>

lemma fresh_parray: "prog_inv uh ph s \<Longrightarrow> parrays s (map_next (psys s)) = None"
  using prog_invD(3) [of uh ph s "map_next (psys s)"] fresh_map [OF prog_invD(1), of uh ph s] by (auto simp: parray_ok_def)

lemma map_create_inv:
  assumes "prog_inv uh ph s" and "map_create attr_bad type oks h0 user limit fd_res attr (psys s) = Some (r, t)"
    and "\<And>fd. fd_res = Ok fd \<Longrightarrow> fds (psys s) fd = None" and "\<And>u. fd_res \<noteq> Undef u"
  shows "prog_inv uh ph (set_sys t s) \<and> (\<forall>fd. r = Ok fd \<longrightarrow> maps t (map_next (psys s)) \<noteq> None)"
proof -
  note sys = prog_invD(1) [OF assms(1)]
  have ok: "sys_ok (held_by uh s) t" by (rule create_sys_ok [OF sys assms(2,3,4)])
  have "(\<forall>fd p. fds t fd = Some (ProgFile p) \<longleftrightarrow> fds (psys s) fd = Some (ProgFile p)) \<and> (\<forall>n. n \<noteq> map_next (psys s) \<longrightarrow> maps t n = maps (psys s) n) \<and>
      (\<forall>fd. r = Ok fd \<longrightarrow> maps t (map_next (psys s)) \<noteq> None)"
    using sys assms(2,4) by (cases rule: map_create_cases) (use assms(3) in auto)
  moreover from this have "parray_ok (set_sys t s) m" for m
    using prog_invD(3) [OF assms(1), of m] fresh_parray [OF assms(1)] by (cases "m = map_next (psys s)") (auto simp: parray_ok_def)
  ultimately show ?thesis using sys_change_inv [OF assms(1) ok] by blast
qed

lemma prog_array_create_inv:
  assumes "prog_inv uh ph s" and "prog_array_create attr_bad oks h0 user limit fd_res attr s = Some (r, s')"
    and "\<And>fd. fd_res = Ok fd \<Longrightarrow> fds (psys s) fd = None" and "\<And>u. fd_res \<noteq> Undef u"
  shows "prog_inv uh ph s'"
proof (cases "attr_bad \<or> at_value_size attr \<noteq> 4")
  case True
  then show ?thesis using assms(1,2) by (auto simp: prog_array_create_def)
next
  case False
  let ?m = "map_next (psys s)"
  let ?pa = "\<lparr>pa_ptrs = replicate (unat (at_max_entries attr)) None, pa_owner_type = PROG_TYPE_UNSPEC, pa_owner_jited = False\<rparr>"
  obtain r' t where t: "map_create False BPF_MAP_TYPE_ARRAY oks h0 user limit fd_res attr (psys s) = Some (r', t)"
    using assms(2) False by (auto simp: prog_array_create_def split: option.splits)
  note c = map_create_inv [OF assms(1) t assms(3,4)]
  show ?thesis
  proof (cases r')
    case (Ok fd)
    let ?s = "set_sys t s"
    have s': "s' = ?s\<lparr>parrays := (parrays s)(?m \<mapsto> ?pa)\<rparr>"
      using assms(2) False t Ok by (auto simp: prog_array_create_def set_sys_def)
    have "x \<in> prog_refs s' q \<longleftrightarrow> x \<in> prog_refs ?s q" for x q
      using fresh_parray [OF assms(1)] by (cases x) (auto simp: in_prog_refs s')
    then have refs: "prog_refs s' = prog_refs ?s" by blast
    have inv: "prog_inv uh ph ?s" using c by blast
    show ?thesis
    proof
      show "sys_ok (held_by uh s') (psys s')" using prog_invD(1) [OF inv] by (simp add: s')
      show "kprog_ok ph s' q" for q using refs by (intro kprog_ok_cong [OF prog_invD(2) [OF inv]]) (auto simp: s')
      show "parray_ok s' m" for m using prog_invD(3) [OF inv, of m] c Ok by (auto simp: parray_ok_def s')
    qed (use prog_invD(4,5) [OF inv] in \<open>simp_all add: s'\<close>)
  qed (use assms(2) False t c in \<open>simp_all add: prog_array_create_def\<close>)
qed

text \<open>Changing elements.\<close>

lemma set_impl_frame: "fds (set_impl m impl t) = fds t \<and> map_option km_usercnt (maps (set_impl m impl t) n) = map_option km_usercnt (maps t n)"
  by (simp add: set_impl_def upd_map_def option.map_comp o_def)

lemma map_update_frame:
  "map_update_elem attr_bad ufd ok1 ok2 ok3 ukey uvalue flags t = Some (r, t') \<Longrightarrow>
    fds t' = fds t \<and> map_option km_usercnt (maps t' n) = map_option km_usercnt (maps t n)"
  by (auto simp: map_update_elem_def set_impl_frame split: if_splits result.splits option.splits)

lemma map_delete_frame:
  "map_delete_elem attr_bad ufd ok1 ukey t = Some (r, t') \<Longrightarrow> fds t' = fds t \<and> map_option km_usercnt (maps t' n) = map_option km_usercnt (maps t n)"
  by (auto simp: map_delete_elem_def set_impl_frame split: if_splits result.splits option.splits)

lemma elem_change_inv:
  assumes "prog_inv uh ph s" and "sys_ok (held_by uh s) t" and "\<And>n. fds t = fds (psys s) \<and> map_option km_usercnt (maps t n) = map_option km_usercnt (maps (psys s) n)"
  shows "prog_inv uh ph (set_sys t s)"
proof (rule sys_change_inv [OF assms(1,2)])
  show "parray_ok (set_sys t s) m" for m using assms(3) by (intro parray_ok_usercnt [OF prog_invD(3) [OF assms(1), of m]]) simp_all
qed (use assms(3) in simp)

lemma map_get_fd: "bpf_map_get ufd t = Ok m \<Longrightarrow> fds t ufd = Some (MapFile m)"
  by (auto simp: bpf_map_get_def split: option.splits bpf_file.splits)

lemma sys_update_inv:
  assumes "prog_inv uh ph s" and "sys_map_update_elem shared attr_bad ufd ok1 ok2 ok3 ukey uvalue flags s = Some (r, s')"
    and "\<And>n bs. ukey n = Some bs \<Longrightarrow> length bs = n" and "\<And>n bs. uvalue n = Some bs \<Longrightarrow> length bs = n"
  shows "prog_inv uh ph s'"
proof (cases "\<exists>m key val pa. bpf_map_get ufd (psys s) = Ok m \<and> parrays s m = Some pa \<and> ukey 4 = Some key \<and> uvalue 4 = Some val \<and>
    (r, s') = fd_array_map_update_elem shared m key val flags s")
  case True
  then obtain m key val pa where m: "bpf_map_get ufd (psys s) = Ok m" "parrays s m = Some pa" "ukey 4 = Some key" "uvalue 4 = Some val"
      "fd_array_map_update_elem shared m key val flags s = (r, s')" by metis
  obtain km where km: "maps (psys s) m = Some km" "km_usercnt km \<noteq> 0" using fd_usercnt [OF assms(1) map_get_fd [OF m(1)]] by blast
  show ?thesis using fd_array_update_inv [OF assms(1) m(2) km assms(3) [OF m(3)] assms(4) [OF m(4)], of shared flags] m(5) by auto
next
  case False
  then consider "s' = s" | t where "s' = set_sys t s" "map_update_elem attr_bad ufd ok1 ok2 ok3 ukey uvalue flags (psys s) = Some (r, t)"
    using assms(2) by (auto simp: sys_map_update_elem_def split: if_splits result.splits option.splits)
  then show ?thesis
  proof cases
    case 2
    show ?thesis unfolding 2(1) using update_sys_ok [OF prog_invD(1) [OF assms(1)] 2(2)] assms(3,4) map_update_frame [OF 2(2)]
      by (intro elem_change_inv [OF assms(1)]) auto
  qed (use assms(1) in simp)
qed

lemma sys_delete_inv:
  assumes "prog_inv uh ph s" and "sys_map_delete_elem attr_bad ufd ok1 ukey s = Some (r, s')" and "\<And>n bs. ukey n = Some bs \<Longrightarrow> length bs = n"
  shows "prog_inv uh ph s'"
proof (cases "\<exists>m key pa. bpf_map_get ufd (psys s) = Ok m \<and> parrays s m = Some pa \<and> ukey 4 = Some key \<and> (r, s') = fd_array_map_delete_elem m key s")
  case True
  then obtain m key pa where m: "parrays s m = Some pa" "ukey 4 = Some key" "fd_array_map_delete_elem m key s = (r, s')" by metis
  obtain index where "key_index key = Ok index" using assms(3) [OF m(2)] by (auto simp: key_index_def)
  then show ?thesis using fd_array_delete_inv [OF assms(1) m(1), of "unat index"] m(3) by (auto simp: fd_array_map_delete_elem_def)
next
  case False
  then consider "s' = s" | t where "s' = set_sys t s" "map_delete_elem attr_bad ufd ok1 ukey (psys s) = Some (r, t)"
    using assms(2) by (auto simp: sys_map_delete_elem_def split: if_splits result.splits option.splits)
  then show ?thesis
  proof cases
    case 2
    show ?thesis unfolding 2(1) using delete_sys_ok [OF prog_invD(1) [OF assms(1)] 2(2)] assms(3) map_delete_frame [OF 2(2)]
      by (intro elem_change_inv [OF assms(1)]) auto
  qed (use assms(1) in simp)
qed

text \<open>Freeing a map: an array of programs is empty by then.\<close>

lemma map_free_inv:
  assumes "prog_inv uh ph s" and "work (psys s) = xs @ m # ys"
  shows "\<exists>s'. map_free_deferred m (set_sys ((psys s)\<lparr>work := xs @ ys\<rparr>) s) = Some (Ok s') \<and> prog_inv uh ph s' \<and> maps (psys s') m = None"
proof -
  note sys = prog_invD(1) [OF assms(1)]
  let ?t = "(psys s)\<lparr>work := xs @ ys\<rparr>"
  obtain t where t: "bpf_map_free_deferred m ?t = Some (Ok t)" "sys_ok (held_by uh s) t" using free_sys_ok [OF sys assms(2)] by blast
  obtain t1 where t1: "bpf_map_uncharge_memlock m ?t = Ok t1" "map_free m t1 = Some (Ok t)"
    using t(1) by (auto simp: bpf_map_free_deferred_def sbind_eq_Some_Ok_iff)
  have ok: "map_ok (held_by uh s) (psys s) m" using sys by (simp add: sys_ok_def)
  have maps: "maps t = (maps (psys s))(m := None)" "fds t = fds (psys s)"
    using t1 by (auto simp: bpf_map_uncharge_memlock_def map_free_def sbind_eq_Some_Ok_iff Let_def split: option.splits)
  have empty: "\<forall>ptr \<in> set (pa_ptrs pa). ptr = None" if pa: "parrays s m = Some pa" for pa
  proof -
    obtain km where km: "maps (psys s) m = Some km" "km_usercnt km = 0 \<longrightarrow> (\<forall>ptr \<in> set (pa_ptrs pa). ptr = None)"
      using prog_invD(3) [OF assms(1), of m] pa by (auto simp: parray_ok_def)
    have "km_refcnt km = 0" using ok km(1) assms(2) by (simp add: map_ok_def)
    then have "km_usercnt km = 0" using ok km(1) by (simp add: map_ok_def)
    then show ?thesis using km(2) by blast
  qed
  let ?s = "(set_sys t s)\<lparr>parrays := (parrays s)(m := None)\<rparr>"
  have "map_free_deferred m (set_sys ?t s) = Some (Ok ?s)"
  proof (cases "parrays s m")
    case None
    then have "?s = set_sys t s" by (simp add: fun_upd_idem set_sys_def)
    then show ?thesis using None t1 by (simp add: map_free_deferred_def)
  next
    case (Some pa)
    then show ?thesis using t1 empty [OF Some] by (auto simp: map_free_deferred_def fd_array_map_free_def set_sys_def)
  qed
  moreover have "prog_inv uh ph ?s"
  proof
    have none: "\<not> (i < length (pa_ptrs pa) \<and> pa_ptrs pa ! i = Some q)" if "parrays s m = Some pa" for pa i q
      using empty [OF that] by (metis nth_mem option.distinct(1))
    have "x \<in> prog_refs ?s q \<longleftrightarrow> x \<in> prog_refs s q" for x q
      using maps(2) none by (cases x) (auto simp: in_prog_refs)
    then have refs: "prog_refs ?s = prog_refs s" by blast
    show "sys_ok (held_by uh ?s) (psys ?s)" using t(2) by simp
    show "kprog_ok ph ?s q" for q using refs by (intro kprog_ok_cong [OF prog_invD(2) [OF assms(1)]]) auto
    show "parray_ok ?s n" for n using prog_invD(3) [OF assms(1), of n] maps(1) by (auto simp: parray_ok_def)
  qed (use prog_invD(4,5) [OF assms(1)] in simp_all)
  ultimately show ?thesis using maps(1) by (intro exI [of _ ?s]) simp
qed

section \<open>Loading\<close>

lemma pv_inv: "prog_inv uh ph s \<Longrightarrow> vsys v = psys s \<Longrightarrow> prog_inv uh ph (s\<lparr>pv := v\<rparr>)"
proof
  assume inv: "prog_inv uh ph s" and v: "vsys v = psys s"
  let ?s = "s\<lparr>pv := v\<rparr>"
  have refs: "prog_refs ?s = prog_refs s" using v by (intro prog_refs_cong) simp_all
  show "sys_ok (held_by uh ?s) (psys ?s)" using prog_invD(1) [OF inv] v by simp
  show "kprog_ok ph ?s q" for q using refs by (intro kprog_ok_cong [OF prog_invD(2) [OF inv]]) auto
  show "parray_ok ?s m" for m using v by (intro parray_ok_cong [OF prog_invD(3) [OF inv]]) simp_all
  show "distinct (prog_rcu ?s)" "distinct (prog_work ?s)" using prog_invD(4,5) [OF inv] by simp_all
qed

lemma accounts_inv: "prog_inv uh ph s \<Longrightarrow> prog_inv uh ph (set_sys ((psys s)\<lparr>uid_refs := b, locked_vm := a\<rparr>) s)"
  by (rule elem_change_inv) (auto dest: prog_invD(1))

text \<open>Fields of a program other than its count and its maps play no part in the invariant.\<close>

lemma inert_inv:
  assumes "prog_inv uh ph s" and "\<And>k. pr_used_maps (f k) = pr_used_maps k \<and> kp_refcnt (f k) = kp_refcnt k"
  shows "prog_inv uh ph (upd_kprog p f s)"
proof
  let ?s = "upd_kprog p f s"
  have refs: "prog_refs ?s = prog_refs s" by (rule prog_refs_cong) simp_all
  have "map_users ?s = map_users s" by (rule map_users_cong) (auto simp: assms(2) option.map_comp o_def)
  from held_by_cong [OF this] show "sys_ok (held_by uh ?s) (psys ?s)" using prog_invD(1) [OF assms(1)] by simp
  show "parray_ok ?s m" for m by (rule parray_ok_cong [OF prog_invD(3) [OF assms(1), of m]]) simp_all
  show "kprog_ok ph ?s q" for q
    using prog_invD(2) [OF assms(1), of q] refs by (cases "progs s q") (auto simp: kprog_ok_def assms(2))
qed (use prog_invD(4,5) [OF assms(1)] in simp_all)

text \<open>The number of a new program is not in use.\<close>

lemma fresh_prog:
  assumes "prog_inv uh ph s"
  shows "progs s (prog_next s) = None" "prog_refs s (prog_next s) = {}" "ph (prog_next s) = 0"
    "prog_next s \<notin> set (prog_rcu s)" "prog_next s \<notin> set (prog_work s)"
  using prog_invD(2) [OF assms, of "prog_next s"] by (auto simp: kprog_ok_def split: option.splits)

abbreviation (input) add_prog :: "kprog \<Rightarrow> prog_sys \<Rightarrow> prog_sys" where
  "add_prog kp s \<equiv> s\<lparr>progs := (progs s)(prog_next s \<mapsto> kp), prog_next := Suc (prog_next s)\<rparr>"

lemma add_prog_users: "prog_inv uh ph s \<Longrightarrow> pr_used_maps kp = [] \<Longrightarrow> map_users (add_prog kp s) = map_users s"
  using fresh_prog(1) [of uh ph s] by (auto simp: map_users_def fun_eq_iff)

lemma dead_prog_inv:
  assumes "prog_inv uh ph s" and "pr_used_maps kp = []"
  shows "prog_inv uh ph ((add_prog kp s)\<lparr>prog_work := prog_next s # prog_work s\<rparr>)" (is "prog_inv uh ph ?s")
proof
  note f = fresh_prog [OF assms(1)]
  have refs: "prog_refs ?s = prog_refs s" by (rule prog_refs_cong) simp_all
  have "map_users ?s = map_users s" using f(1) assms(2) by (auto simp: map_users_def fun_eq_iff)
  from held_by_cong [OF this] show "sys_ok (held_by uh ?s) (psys ?s)" using prog_invD(1) [OF assms(1)] by simp
  show "parray_ok ?s m" for m by (rule parray_ok_cong [OF prog_invD(3) [OF assms(1), of m]]) simp_all
  show "kprog_ok ph ?s q" for q
    using prog_invD(2) [OF assms(1), of q] refs f assms(2) by (cases "q = prog_next s") (auto simp: kprog_ok_def split: option.splits)
qed (use prog_invD(4,5) [OF assms(1)] fresh_prog [OF assms(1)] in simp_all)

text \<open>While a program is being loaded, the loader holds the only reference.\<close>

definition loading :: "(nat \<Rightarrow> nat) \<Rightarrow> (nat \<Rightarrow> nat) \<Rightarrow> nat \<Rightarrow> prog_sys \<Rightarrow> bool" where
  "loading uh ph p s \<longleftrightarrow> prog_inv uh (give (Some p) ph) s \<and> (\<exists>kp. progs s p = Some kp \<and> kp_refcnt kp = 1)"

lemma live_prog_loading:
  assumes "prog_inv uh ph s" and "pr_used_maps kp = []" and "kp_refcnt kp = 1"
  shows "loading uh ph (prog_next s) (add_prog kp s)"
proof -
  let ?s = "add_prog kp s"
  note f = fresh_prog [OF assms(1)]
  have refs: "prog_refs ?s = prog_refs s" by (rule prog_refs_cong) simp_all
  have "prog_inv uh (give (Some (prog_next s)) ph) ?s"
  proof
    show "sys_ok (held_by uh ?s) (psys ?s)"
      using prog_invD(1) [OF assms(1)] held_by_cong [OF add_prog_users [OF assms(1,2)], of uh] by simp
    show "parray_ok ?s m" for m by (rule parray_ok_cong [OF prog_invD(3) [OF assms(1), of m]]) simp_all
    show "kprog_ok (give (Some (prog_next s)) ph) ?s q" for q
      using prog_invD(2) [OF assms(1), of q] refs f assms(2,3) by (cases "q = prog_next s") (auto simp: kprog_ok_def split: option.splits)
  qed (use prog_invD(4,5) [OF assms(1)] in simp_all)
  then show ?thesis using assms(3) by (simp add: loading_def)
qed

lemma loading_alone:
  assumes "loading uh ph p s"
  shows "prog_refs s p = {}" "ph p = 0"
proof -
  obtain kp where kp: "progs s p = Some kp" "kp_refcnt kp = 1" "prog_inv uh (give (Some p) ph) s" using assms by (auto simp: loading_def)
  obtain kp' where "progs s p = Some kp'" "kp_refcnt kp' = int (card (prog_refs s p)) + int (Suc (ph p))"
    using held_alive [OF kp(3), of p] by auto
  then have "card (prog_refs s p) = 0 \<and> ph p = 0" using kp(1,2) by simp
  then show "prog_refs s p = {}" "ph p = 0" using prog_invD(2) [OF kp(3), of p] by (auto simp: kprog_ok_def)
qed

lemma inert_loading:
  "loading uh ph p s \<Longrightarrow> (\<And>k. pr_used_maps (f k) = pr_used_maps k \<and> kp_refcnt (f k) = kp_refcnt k) \<Longrightarrow> loading uh ph p (upd_kprog p f s)"
  using inert_inv [of uh "give (Some p) ph" s f p] by (auto simp: loading_def)

text \<open>A failed load releases the program like its last holder does.\<close>

lemma put_common_refcnt:
  "prog_put_common p (upd_kprog p (\<lambda>k. k\<lparr>kp_refcnt := c\<rparr>) s) = rbind (prog_put_common p s) (\<lambda>s. Ok (upd_kprog p (\<lambda>k. k\<lparr>kp_refcnt := c\<rparr>) s))"
proof (cases "progs s p")
  case (Some kp)
  then show ?thesis
    by (cases "release_maps (pr_used_maps kp) (psys s)")
      (simp_all add: prog_put_common_def free_used_maps_def bpf_prog_uncharge_memlock_def bpf_prog_schedule_free_def upd_kprog_def set_sys_def Let_def)
qed (simp add: prog_put_common_def free_used_maps_def)

lemma dead_refcnt_inv:
  assumes "prog_inv uh ph (upd_kprog p (\<lambda>k. k\<lparr>kp_refcnt := c\<rparr>) s)" (is "prog_inv uh ph ?s") and "p \<in> set (prog_work s)"
  shows "prog_inv uh ph s"
proof
  have refs: "prog_refs ?s = prog_refs s" by (rule prog_refs_cong) simp_all
  have "map_users ?s = map_users s" by (rule map_users_cong) (auto simp: option.map_comp o_def)
  from held_by_cong [OF this, of uh] show "sys_ok (held_by uh s) (psys s)" using prog_invD(1) [OF assms(1)] by simp
  show "parray_ok s m" for m by (rule parray_ok_cong [OF prog_invD(3) [OF assms(1), of m]]) simp_all
  show "kprog_ok ph s q" for q
    using prog_invD(2) [OF assms(1), of q] refs assms(2) by (cases "progs s q") (auto simp: kprog_ok_def split: if_splits)
qed (use prog_invD(4,5) [OF assms(1)] in simp_all)

lemma put_common_work: "prog_put_common p s = Ok s' \<Longrightarrow> p \<in> set (prog_work s')"
  by (auto simp: prog_put_common_def bpf_prog_schedule_free_def)

lemma retire_inv:
  assumes "loading uh ph p s"
  shows "\<exists>s'. prog_put_common p s = Ok s' \<and> prog_inv uh ph s'"
proof -
  obtain kp where kp: "progs s p = Some kp" "kp_refcnt kp = 1" "prog_inv uh (ph(p := Suc (ph p))) s" using assms by (auto simp: loading_def)
  let ?s = "upd_kprog p (\<lambda>k. k\<lparr>kp_refcnt := 0\<rparr>) s"
  have "?s\<lparr>prog_rcu := p # prog_rcu ?s\<rparr> = (upd_kprog p (\<lambda>k. k\<lparr>kp_refcnt := kp_refcnt k - 1\<rparr>) s)\<lparr>prog_rcu := p # prog_rcu s\<rparr>"
    using kp(1,2) by (simp add: upd_kprog_def)
  then have "bpf_prog_put_rcu p s = Ok (?s\<lparr>prog_rcu := p # prog_rcu ?s\<rparr>)" using kp(1,2) by (simp add: bpf_prog_put_rcu_def dec_and_test_eq)
  then have "prog_inv uh ph (?s\<lparr>prog_rcu := p # prog_rcu ?s\<rparr>)" using put_rcu_inv [OF kp(3)] by auto
  from put_common_inv [OF this] obtain s2 where s2: "prog_put_common p ?s = Ok s2" "prog_inv uh ph s2" by blast
  then obtain s' where s': "prog_put_common p s = Ok s'" "s2 = upd_kprog p (\<lambda>k. k\<lparr>kp_refcnt := 0\<rparr>) s'" by (auto simp: put_common_refcnt)
  then show ?thesis using dead_refcnt_inv s2(2) put_common_work [OF s'(1)] by blast
qed

lemma load_free_used_maps_eq:
  "prog_put_common p s = Ok s' \<Longrightarrow> load_free_used_maps p e s = (Err e, s')"
  by (auto simp: load_free_used_maps_def load_free_prog_def prog_put_common_def)

lemma load_free_prog_eq:
  "progs s p = Some kp \<Longrightarrow> pr_used_maps kp = [] \<Longrightarrow> prog_put_common p s = Ok s' \<Longrightarrow> load_free_prog p e s = (Err e, s')"
  by (auto simp: load_free_prog_def prog_put_common_def free_used_maps_def)

text \<open>An accepted program takes over the references the verifier took on its maps.\<close>

definition add_refs :: "nat list \<Rightarrow> holders \<Rightarrow> holders" where
  "add_refs ms held = (\<lambda>b m. if \<not> b \<and> m \<in> set ms then held b m + 1 else held b m)"

lemma take_refs_sys_ok:
  assumes "sys_ok held t" and "distinct ms" and "\<forall>m \<in> set ms. \<exists>fd. fds t fd = Some (MapFile m)"
  shows "sys_ok (add_refs ms held) (take_refs ms t)"
  using assms
proof (induction ms arbitrary: held t)
  case Nil
  then show ?case by (simp add: add_refs_def)
next
  case (Cons m ms)
  obtain fd where "fds t fd = Some (MapFile m)" using Cons.prems(3) by auto
  then have "bpf_map_get fd t = Ok m" by (simp add: bpf_map_get_def)
  from get_sys_ok [OF Cons.prems(1) this] have "sys_ok (hold False m held) (bpf_map_inc m False t)" .
  from Cons.IH [OF this] Cons.prems have "sys_ok (add_refs ms (hold False m held)) (take_refs ms (bpf_map_inc m False t))" by simp
  moreover have "add_refs ms (hold False m held) = add_refs (m # ms) held"
    using Cons.prems(2) by (auto simp: add_refs_def hold_def fun_eq_iff)
  ultimately show ?case by simp
qed

lemma accepted_loading:
  assumes "loading uh ph p s" and "\<forall>kp. progs s p = Some kp \<longrightarrow> pr_used_maps kp = []" and "vsys v = take_refs ms (psys s)" and "distinct ms"
    and "\<forall>m \<in> set ms. \<exists>fd. fds (psys s) fd = Some (MapFile m)" and "\<And>k. pr_used_maps (f k) = ms \<and> kp_refcnt (f k) = kp_refcnt k"
  shows "loading uh ph p (upd_kprog p f (s\<lparr>pv := v\<rparr>))"
proof -
  let ?s = "upd_kprog p f (s\<lparr>pv := v\<rparr>)"
  obtain kp where kp: "progs s p = Some kp" "kp_refcnt kp = 1" and inv: "prog_inv uh (give (Some p) ph) s" using assms(1) by (auto simp: loading_def)
  have used: "pr_used_maps kp = []" using assms(2) kp(1) by simp
  have w: "p \<notin> set (prog_work s)" using held_alive [OF inv, of p] by auto
  have v: "vsys v = (psys s)\<lparr>maps := (\<lambda>x. if x \<in> set ms then map_option with_ref (maps (psys s) x) else maps (psys s) x)\<rparr>"
    unfolding assms(3) by (rule take_refs_eq [OF assms(4)])
  have refs: "prog_refs ?s = prog_refs s" by (rule prog_refs_cong) (simp_all add: v)
  have users: "map_users ?s m = (if m \<in> set ms then insert p (map_users s m) else map_users s m)" "p \<notin> map_users s m" for m
    using kp used w assms(6) by (auto simp: map_users_def split: if_splits)
  have held: "held_by uh ?s = add_refs ms (held_by uh s)"
    using users finite_map_users [OF inv] by (auto simp: held_by_def add_refs_def fun_eq_iff)
  have "prog_inv uh (give (Some p) ph) ?s"
  proof
    show "sys_ok (held_by uh ?s) (psys ?s)" unfolding held using take_refs_sys_ok [OF prog_invD(1) [OF inv] assms(4,5)] assms(3) by simp
    show "parray_ok ?s m" for m
      by (rule parray_ok_usercnt [OF prog_invD(3) [OF inv, of m]]) (simp_all add: v option.map_comp o_def)
    show "kprog_ok (give (Some p) ph) ?s q" for q
      using prog_invD(2) [OF inv, of q] refs w kp assms(4,6) by (cases "progs s q") (auto simp: kprog_ok_def split: if_splits)
  qed (use prog_invD(4,5) [OF inv] in simp_all)
  then show ?thesis using kp assms(6) by (simp add: loading_def)
qed

text \<open>The check for tail calls only sets owners.\<close>

lemma tail_call_inv:
  assumes "prog_inv uh ph s"
  shows "\<exists>r s'. bpf_check_tail_call fp ms s = (r, s') \<and> (\<forall>u. r \<noteq> Undef u) \<and> prog_inv uh ph s' \<and> progs s' = progs s \<and> pv s' = pv s"
  using assms
proof (induction ms arbitrary: s)
  case (Cons m ms)
  show ?case
  proof (cases "parrays s m")
    case None
    then show ?thesis using Cons.IH [OF Cons.prems] by simp
  next
    case (Some pa)
    obtain c pa' where c: "bpf_prog_array_compatible pa fp = (c, pa')" by fastforce
    have inv: "prog_inv uh ph (s\<lparr>parrays := (parrays s)(m \<mapsto> pa')\<rparr>)" by (rule owner_inv [OF Cons.prems Some compatible_ptrs [OF c]])
    from Cons.IH [OF this] show ?thesis using Some c inv by (auto simp: Let_def)
  qed
qed simp

lemma select_runtime_loading:
  assumes "loading uh ph p s"
  shows "\<exists>r s'. bpf_prog_select_runtime jit p s = (r, s') \<and> (\<forall>u. r \<noteq> Undef u) \<and> loading uh ph p s' \<and> psys s' = psys s"
proof -
  let ?s = "upd_kprog p (\<lambda>k. k\<lparr>kp_jited := kp_jited k \<or> jit\<rparr>) s"
  have l: "loading uh ph p ?s" by (rule inert_loading [OF assms]) simp
  then obtain fp where fp: "progs ?s p = Some fp" by (auto simp: loading_def)
  have "prog_inv uh (give (Some p) ph) ?s" using l by (simp add: loading_def)
  from tail_call_inv [OF this, of fp "pr_used_maps fp"] obtain r s' where s': "bpf_check_tail_call fp (pr_used_maps fp) ?s = (r, s')"
      "\<forall>u. r \<noteq> Undef u" "prog_inv uh (give (Some p) ph) s'" "progs s' = progs ?s" "pv s' = pv ?s" by blast
  then show ?thesis using l fp unfolding bpf_prog_select_runtime_def Let_def by (auto simp: loading_def)
qed

lemma fixup_no_Err: "fixup_bpf_calls protos func insns \<noteq> Err e"
proof (induction insns)
  case (Cons insn insns)
  have "fixup_insn protos func insn \<noteq> Err e" by (auto simp: fixup_insn_def split: option.splits)
  then show ?case using Cons by (cases "fixup_insn protos func insn"; cases "fixup_bpf_calls protos func insns") auto
qed simp

lemma load_finish_inv:
  assumes "loading uh ph p s" and "load_finish E ops p insns s = (r, s')" and "\<forall>u. r \<noteq> Undef u"
    and "\<And>fd. le_fd E = Ok fd \<Longrightarrow> fds (psys s) fd = None"
  shows "prog_inv uh ph s'"
proof -
  obtain insns' dst where fx: "fixup_bpf_calls (get_func_proto ops) (le_func E) insns = Ok (insns', dst)"
    using assms(2,3) fixup_no_Err [of "get_func_proto ops" "le_func E" insns]
    by (cases "fixup_bpf_calls (get_func_proto ops) (le_func E) insns") (auto simp: load_finish_def)
  let ?s = "upd_kprog p (\<lambda>k. k\<lparr>pr_insns := insns', kp_dst_needed := dst\<rparr>) s"
  have "loading uh ph p ?s" by (rule inert_loading [OF assms(1)]) simp
  from select_runtime_loading [OF this, of "le_jit E"] obtain r1 s1 where s1: "bpf_prog_select_runtime (le_jit E) p ?s = (r1, s1)"
      "\<forall>u. r1 \<noteq> Undef u" "loading uh ph p s1" "psys s1 = psys s" by auto
  obtain s2 where s2: "prog_put_common p s1 = Ok s2" "prog_inv uh ph s2" using retire_inv [OF s1(3)] by blast
  consider (err) e where "load_free_used_maps p e s1 = (r, s')" | (ok) fd where "le_fd E = Ok fd" "s' = set_fd fd (Some p) s1"
    using assms(2,3) fx s1(1,2) by (cases r1; cases "le_fd E"; cases r) (auto simp: load_finish_def bpf_prog_new_fd_def set_fd_def)
  then show ?thesis
  proof cases
    case err
    then show ?thesis using load_free_used_maps_eq [OF s2(1)] s2(2) by simp
  next
    case ok
    then show ?thesis using set_fd_inv [of uh "Some p" ph s1 fd None] s1(3,4) assms(4) by (simp add: loading_def)
  qed
qed

lemma load_check_inv:
  assumes "loading uh ph p s" and "\<forall>kp. progs s p = Some kp \<longrightarrow> pr_used_maps kp = []" and "load_check E A ops conv p insns s = (r, s')"
    and "\<forall>u. r \<noteq> Undef u" and "\<And>fd. le_fd E = Ok fd \<Longrightarrow> fds (psys s) fd = None"
  shows "prog_inv uh ph s'"
proof -
  have inv: "prog_inv uh (give (Some p) ph) s" using assms(1) by (simp add: loading_def)
  define pages where "pages = check_pages ops conv (le_addr E) (le_shared E) (le_check E) (la_log A) insns (pv s)"
  obtain r1 v where chk: "bpf_check ops conv (le_addr E) (le_shared E) (le_check E) (la_log A) insns (pv s) = (r1, v)" by fastforce
  note bal = bpf_check_balance [OF prog_invD(1) [OF inv], of ops conv "le_addr E" "le_shared E" "le_check E" "la_log A" insns, unfolded chk]
  let ?s = "upd_kprog p (\<lambda>k. k\<lparr>kp_pages := pages (kp_pages k)\<rparr>) (s\<lparr>pv := v\<rparr>)"
  note res = assms(3) [unfolded load_check_def chk, folded pages_def]
  show ?thesis
  proof (cases r1)
    case (Err e)
    have "vsys v = psys s" using bal Err by simp
    then have "loading uh ph p (s\<lparr>pv := v\<rparr>)" using pv_inv [OF inv] assms(1) by (simp add: loading_def)
    then have "loading uh ph p ?s" by (rule inert_loading) simp
    from retire_inv [OF this] show ?thesis using res Err load_free_used_maps_eq by (auto simp: Let_def)
  next
    case (Ok pr)
    have b: "vsys v = take_refs (pr_used_maps pr) (psys s)" "distinct (pr_used_maps pr)" "\<forall>m \<in> set (pr_used_maps pr). \<exists>fd. fds (psys s) fd = Some (MapFile m)"
      using bal Ok by auto
    let ?f = "\<lambda>k. k\<lparr>kp_pages := pages (kp_pages k), pr_insns := pr_insns pr, pr_cb_access := pr_cb_access pr, pr_used_maps := pr_used_maps pr\<rparr>"
    have l: "loading uh ph p (upd_kprog p ?f (s\<lparr>pv := v\<rparr>))" by (rule accepted_loading [OF assms(1,2) b]) simp
    have "load_finish E ops p (pr_insns pr) (upd_kprog p ?f (s\<lparr>pv := v\<rparr>)) = (r, s')"
      using res Ok by (simp add: Let_def upd_kprog_def option.map_comp o_def)
    from load_finish_inv [OF l this assms(4)] show ?thesis using assms(5) b(1) by simp
  next
    case (Undef u)
    then show ?thesis using bal by simp
  qed
qed

lemma charge_cases:
  assumes "progs s p = Some kp"
  obtains (denied) "bpf_prog_charge_memlock user limit p s = (Err EPERM, s)" and "over_limit (locked_vm (psys s) user + int (kp_pages kp)) limit"
  | (charged) "bpf_prog_charge_memlock user limit p s = (Ok (), upd_kprog p (\<lambda>k. k\<lparr>kp_user := user\<rparr>) (set_sys
      ((psys s)\<lparr>uid_refs := (uid_refs (psys s))(user := uid_refs (psys s) user + 1),
        locked_vm := (locked_vm (psys s))(user := locked_vm (psys s) user + int (kp_pages kp))\<rparr>) s))"
    and "\<not> over_limit (locked_vm (psys s) user + int (kp_pages kp)) limit"
proof (cases "over_limit (locked_vm (psys s) user + int (kp_pages kp)) limit")
  case True
  then show ?thesis using assms denied by (simp add: bpf_prog_charge_memlock_def Let_def set_sys_def)
next
  case False
  then show ?thesis using assms charged by (simp add: bpf_prog_charge_memlock_def Let_def set_sys_def)
qed

text \<open>The outcomes of \<open>bpf_prog_load\<close>: refused at once, refused by the account, or a program with one reference that is then found
  unreadable, of unknown type, or checked.\<close>

abbreviation (input) charged_sys :: "nat \<Rightarrow> nat \<Rightarrow> prog_sys \<Rightarrow> prog_sys" where
  "charged_sys user pages s \<equiv> set_sys ((psys s)\<lparr>uid_refs := (uid_refs (psys s))(user := uid_refs (psys s) user + 1),
     locked_vm := (locked_vm (psys s))(user := locked_vm (psys s) user + int pages)\<rparr>) s"

abbreviation (input) load_pages :: "load_attr \<Rightarrow> nat" where
  "load_pages A \<equiv> round_up_pages (bpf_prog_size (unat (la_insn_cnt A)))"

lemma find_prog_type_known: "find_prog_type E gpl s type = Ok (ops, conv) \<Longrightarrow> prog_type ops \<noteq> PROG_TYPE_UNSPEC"
  by (auto simp: find_prog_type_def Let_def sk_filter_ops_def kprobe_prog_ops_def tc_cls_act_ops_def split: if_splits)

lemma load_cases:
  assumes "bpf_prog_load E A s = (r, s')"
  obtains (refused) e where "r = Err e" and "s' = s"
  | (denied) "r = Err EPERM" and "s' = (add_prog (new_prog (load_pages A)) s)\<lparr>prog_work := prog_next s # prog_work s\<rparr>"
  | (unreadable) kp where "r = Err EFAULT" and "s' = (add_prog kp s)\<lparr>prog_work := prog_next s # prog_work s\<rparr>" and "pr_used_maps kp = []"
  | (unknown) e kp where "load_free_prog (prog_next s) e (add_prog kp (charged_sys (le_user E) (load_pages A) s)) = (r, s')"
      and "pr_used_maps kp = []" and "kp_refcnt kp = 1" and "kp_pages kp = load_pages A" and "kp_user kp = le_user E"
  | (checked) ops conv insns kp s0 where
      "load_check E A ops conv (prog_next s) insns (add_prog kp (charged_sys (le_user E) (load_pages A) s)) = (r, s')"
      and "pr_used_maps kp = []" and "kp_refcnt kp = 1" and "kp_pages kp = load_pages A" and "kp_user kp = le_user E"
      and "la_insns A (unat (la_insn_cnt A)) = Some insns" and "kp_type kp = prog_type ops" and "find_prog_type E (kp_gpl kp) s0 (la_type A) = Ok (ops, conv)"
proof -
  let ?p = "prog_next s" and ?n = "load_pages A"
  let ?s = "add_prog (new_prog ?n) s"
  have new: "progs ?s ?p = Some (new_prog ?n)" "kp_pages (new_prog ?n) = ?n" by (simp_all add: new_prog_def)
  show ?thesis
  proof (cases "la_bad A \<or> la_license A = None \<or> unat (la_insn_cnt A) \<ge> BPF_MAXINSNS \<or> la_type A = 2 \<and> la_kern_version A \<noteq> le_version E \<or>
      la_type A \<noteq> 1 \<and> \<not> le_admin E \<or> \<not> le_alloc E")
    case True
    then show ?thesis using assms refused by (auto simp: bpf_prog_load_def Let_def split: if_splits option.splits)
  next
    case False
    show ?thesis
    proof (cases rule: charge_cases [OF new(1), of "le_user E" "le_limit E", unfolded new(2), case_names no yes])
      case no
      then show ?thesis using assms False denied by (auto simp: bpf_prog_load_def Let_def bpf_prog_schedule_free_def)
    next
      case yes
      let ?c = "charged_sys (le_user E) ?n s"
      let ?k = "(new_prog ?n)\<lparr>kp_user := le_user E\<rparr>"
      have s1: "bpf_prog_charge_memlock (le_user E) (le_limit E) ?p ?s = (Ok (), add_prog ?k ?c)"
        using yes(1) by (simp add: upd_kprog_def set_sys_def)
      show ?thesis
      proof (cases "la_insns A (unat (la_insn_cnt A))")
        case None
        have "load_free_prog ?p EFAULT (add_prog ?k ?c) = (Err EFAULT, (add_prog ?k s)\<lparr>prog_work := ?p # prog_work s\<rparr>)"
          by (simp add: load_free_prog_def bpf_prog_uncharge_memlock_def bpf_prog_schedule_free_def set_sys_def Let_def new_prog_def)
        moreover have "load_free_prog ?p EFAULT (add_prog ?k ?c) = (r, s')"
          using assms False s1 None by (auto simp: bpf_prog_load_def Let_def)
        ultimately show ?thesis using unreadable [of ?k] by (simp add: new_prog_def)
      next
        case (Some insns)
        let ?k2 = "\<lambda>type gpl. ?k\<lparr>pr_insns := insns, kp_refcnt := 1, kp_gpl := gpl, kp_type := type\<rparr>"
        let ?gpl = "license_is_gpl_compatible (take 127 (the (la_license A)))"
        have up: "upd_kprog ?p f (add_prog k ?c) = add_prog (f k) ?c" for f k by (simp add: upd_kprog_def set_sys_def)
        have k2: "pr_used_maps (?k2 t g) = []" "kp_refcnt (?k2 t g) = 1" "kp_pages (?k2 t g) = ?n" "kp_user (?k2 t g) = le_user E"
            "kp_type (?k2 t g) = t" "kp_gpl (?k2 t g) = g" for t g by (simp_all add: new_prog_def)
        let ?s2 = "add_prog (?k2 PROG_TYPE_UNSPEC ?gpl) ?c"
        have s2: "upd_kprog ?p (\<lambda>k. k\<lparr>pr_insns := insns, kp_refcnt := 1, kp_gpl := ?gpl\<rparr>) (add_prog ?k ?c) = ?s2"
          unfolding up by (simp add: new_prog_def)
        have "load_copied E A ?gpl ?p insns (add_prog ?k ?c) = (r, s')" using assms False Some s1 by (auto simp: bpf_prog_load_def Let_def)
        note res = this [unfolded load_copied_def Let_def s2]
        have "find_prog_type E ?gpl ?s2 (la_type A) \<noteq> Undef u" for u by (simp add: find_prog_type_def Let_def)
        then consider (none) e where "load_free_prog ?p e ?s2 = (r, s')"
          | (found) ops conv where "load_check E A ops conv ?p insns (add_prog (?k2 (prog_type ops) ?gpl) ?c) = (r, s')"
            and "find_prog_type E ?gpl ?s2 (la_type A) = Ok (ops, conv)"
          using res unfolding up by (cases "find_prog_type E ?gpl ?s2 (la_type A)") (auto split: prod.splits)
        then show ?thesis
        proof cases
          case none
          then show ?thesis using unknown k2 by blast
        next
          case found
          then show ?thesis using checked [OF _ k2(1-4) Some k2(5)] unfolding k2(6) by blast
        qed
      qed
    qed
  qed
qed

lemma load_inv:
  assumes "prog_inv uh ph s" and "bpf_prog_load E A s = (r, s')" and "\<forall>u. r \<noteq> Undef u" and "\<And>fd. le_fd E = Ok fd \<Longrightarrow> fds (psys s) fd = None"
  shows "prog_inv uh ph s'"
proof -
  let ?c = "charged_sys (le_user E) (load_pages A) s"
  have c: "prog_inv uh ph ?c" by (rule accounts_inv [OF assms(1)])
  have nx: "prog_next ?c = prog_next s" by simp
  have live: "loading uh ph (prog_next s) (add_prog kp ?c)" if "pr_used_maps kp = []" "kp_refcnt kp = 1" for kp
    using live_prog_loading [OF c that] unfolding nx .
  show ?thesis using assms(2)
  proof (cases rule: load_cases)
    case refused
    then show ?thesis using assms(1) by simp
  next
    case denied
    show ?thesis unfolding denied(2) by (rule dead_prog_inv [OF assms(1)]) (simp add: new_prog_def)
  next
    case (unreadable kp)
    show ?thesis unfolding unreadable(2) by (rule dead_prog_inv [OF assms(1) unreadable(3)])
  next
    case (unknown e kp)
    obtain s2 where s2: "prog_put_common (prog_next s) (add_prog kp ?c) = Ok s2" "prog_inv uh ph s2" using retire_inv [OF live [OF unknown(2,3)]] by blast
    have "progs (add_prog kp ?c) (prog_next s) = Some kp" by simp
    from load_free_prog_eq [OF this unknown(2) s2(1)] show ?thesis using unknown(1) s2(2) by simp
  next
    case (checked ops conv insns kp s0)
    show ?thesis by (rule load_check_inv [OF live [OF checked(2,3)] _ checked(1) assms(3)]) (use checked(2) assms(4) in auto)
  qed
qed

section \<open>The system\<close>

text \<open>
  One step of the system: a system call, a reference taken or given up by another part of the kernel (\<open>uh\<close> counts those on maps, \<open>ph\<close> those on
  programs), or deferred work. \<open>anon_inode_getfd\<close> returns a descriptor that is free, or an error.
\<close>

type_synonym prog_config = "(nat \<Rightarrow> nat) \<times> (nat \<Rightarrow> nat) \<times> prog_sys"

definition fd_free :: "nat result \<Rightarrow> prog_sys \<Rightarrow> bool" where
  "fd_free fd_res s \<longleftrightarrow> (case fd_res of Ok fd \<Rightarrow> fds (psys s) fd = None | Err e \<Rightarrow> True | Undef u \<Rightarrow> False)"

definition user_mem :: "(nat \<Rightarrow> u8 list option) \<Rightarrow> bool" where
  "user_mem u \<longleftrightarrow> (\<forall>n bs. u n = Some bs \<longrightarrow> length bs = n)"

inductive prog_step :: "prog_config \<Rightarrow> prog_config \<Rightarrow> bool" where
  create: "map_create attr_bad type oks h0 user limit fd_res attr (psys s) = Some (r, t) \<Longrightarrow> fd_free fd_res s \<Longrightarrow>
    prog_step (uh, ph, s) (uh, ph, set_sys t s)"
| create_array: "prog_array_create attr_bad oks h0 user limit fd_res attr s = Some (r, s') \<Longrightarrow> fd_free fd_res s \<Longrightarrow>
    prog_step (uh, ph, s) (uh, ph, s')"
| get_map: "bpf_map_get_with_uref ufd (psys s) = Ok (m, t) \<Longrightarrow> prog_step (uh, ph, s) (uh(m := Suc (uh m)), ph, set_sys t s)"
| put_map: "map_put_with_uref m s = Ok s' \<Longrightarrow> prog_step (uh(m := Suc (uh m)), ph, s) (uh, ph, s')"
| close_map: "map_fd_release fd s = Ok s' \<Longrightarrow> prog_step (uh, ph, s) (uh, ph, s')"
| update: "sys_map_update_elem shared attr_bad ufd ok1 ok2 ok3 ukey uvalue flags s = Some (r, s') \<Longrightarrow> user_mem ukey \<Longrightarrow> user_mem uvalue \<Longrightarrow>
    prog_step (uh, ph, s) (uh, ph, s')"
| delete: "sys_map_delete_elem attr_bad ufd ok1 ukey s = Some (r, s') \<Longrightarrow> user_mem ukey \<Longrightarrow> prog_step (uh, ph, s) (uh, ph, s')"
| free_map: "work (psys s) = xs @ m # ys \<Longrightarrow> map_free_deferred m (set_sys ((psys s)\<lparr>work := xs @ ys\<rparr>) s) = Some (Ok s') \<Longrightarrow>
    prog_step (uh, ph, s) (uh, ph, s')"
| load: "bpf_prog_load E A s = (r, s') \<Longrightarrow> \<forall>u. r \<noteq> Undef u \<Longrightarrow> fd_free (le_fd E) s \<Longrightarrow> prog_step (uh, ph, s) (uh, ph, s')"
| get_prog: "bpf_prog_get shared ufd s = (Ok p, s') \<Longrightarrow> prog_step (uh, ph, s) (uh, ph(p := Suc (ph p)), s')"
| put_prog: "bpf_prog_put p s = Ok s' \<Longrightarrow> prog_step (uh, ph(p := Suc (ph p)), s) (uh, ph, s')"
| put_prog_rcu: "bpf_prog_put_rcu p s = Ok s' \<Longrightarrow> prog_step (uh, ph(p := Suc (ph p)), s) (uh, ph, s')"
| close_prog: "bpf_prog_fd_release fd s = Ok s' \<Longrightarrow> prog_step (uh, ph, s) (uh, ph, s')"
| grace_period: "prog_rcu s = xs @ p # ys \<Longrightarrow> prog_put_common p (s\<lparr>prog_rcu := xs @ ys\<rparr>) = Ok s' \<Longrightarrow> prog_step (uh, ph, s) (uh, ph, s')"
| free_prog: "prog_work s = xs @ p # ys \<Longrightarrow> bpf_prog_free_deferred p (s\<lparr>prog_work := xs @ ys\<rparr>) = Ok s' \<Longrightarrow> prog_step (uh, ph, s) (uh, ph, s')"

lemma fd_freeD: "fd_free fd_res s \<Longrightarrow> (\<forall>fd. fd_res = Ok fd \<longrightarrow> fds (psys s) fd = None) \<and> (\<forall>u. fd_res \<noteq> Undef u)"
  by (cases fd_res) (auto simp: fd_free_def)

lemma prog_step_inv: "prog_step (uh, ph, s) (uh', ph', s') \<Longrightarrow> prog_inv uh ph s \<Longrightarrow> prog_inv uh' ph' s'"
proof (induction "(uh, ph, s)" "(uh', ph', s')" rule: prog_step.induct)
  case (create attr_bad type oks h0 user limit fd_res attr r t)
  then show ?case using map_create_inv fd_freeD by blast
next
  case (create_array attr_bad oks h0 user limit fd_res attr r)
  then show ?case using prog_array_create_inv fd_freeD by blast
next
  case (get_map ufd m t)
  then show ?case using map_get_inv by blast
next
  case (put_map m)
  then show ?case using map_put_inv by fastforce
next
  case (close_map fd)
  obtain m where "fds (psys s) fd = Some (MapFile m)" using close_map by (auto simp: map_fd_release_def split: option.splits bpf_file.splits)
  then show ?case using map_fd_release_inv close_map by fastforce
next
  case (update shared attr_bad ufd ok1 ok2 ok3 ukey uvalue flags r)
  then show ?case using sys_update_inv unfolding user_mem_def by blast
next
  case (delete attr_bad ufd ok1 ukey r)
  then show ?case using sys_delete_inv unfolding user_mem_def by blast
next
  case (free_map xs m ys)
  then show ?case using map_free_inv by fastforce
next
  case (load E A r)
  then show ?case using load_inv fd_freeD by blast
next
  case (get_prog shared ufd p)
  then show ?case using prog_get_inv [OF get_prog.prems, of shared ufd] by auto
next
  case (put_prog p)
  then show ?case using put_inv by fastforce
next
  case (put_prog_rcu p)
  then show ?case using put_rcu_inv by fastforce
next
  case (close_prog fd)
  obtain p where "fds (psys s) fd = Some (ProgFile p)" using close_prog by (auto simp: bpf_prog_fd_release_def split: option.splits bpf_file.splits)
  then show ?case using fd_release_inv close_prog by fastforce
next
  case (grace_period xs p ys)
  then show ?case using rcu_callback_inv by fastforce
next
  case (free_prog xs p ys)
  then show ?case using free_work_inv by fastforce
qed

definition prog_boot :: prog_sys where
  "prog_boot = \<lparr>pv = \<lparr>vsys = boot, f_count = \<lambda>_. 0, used_maps = []\<rparr>, progs = \<lambda>_. None, prog_next = 0, prog_rcu = [], prog_work = [],
     parrays = \<lambda>_. None\<rparr>"

abbreviation (input) prog_start :: prog_config where "prog_start \<equiv> (\<lambda>_. 0, \<lambda>_. 0, prog_boot)"

lemma prog_boot_inv: "prog_inv (\<lambda>_. 0) (\<lambda>_. 0) prog_boot"
proof
  have "held_by (\<lambda>_. 0) prog_boot = (\<lambda>_ _. 0)" by (auto simp: held_by_def map_users_def prog_boot_def fun_eq_iff)
  then show "sys_ok (held_by (\<lambda>_. 0) prog_boot) (psys prog_boot)" using boot_ok by (simp add: prog_boot_def)
qed (simp_all add: prog_boot_def kprog_ok_def parray_ok_def prog_refs_def boot_def)

lemma prog_reachable_inv: "prog_step\<^sup>*\<^sup>* prog_start (uh, ph, s) \<Longrightarrow> prog_inv uh ph s"
proof (induction "(uh, ph, s)" arbitrary: uh ph s rule: rtranclp_induct)
  case base
  then show ?case using prog_boot_inv by simp
next
  case (step y)
  then show ?case using prog_step_inv by (cases y) blast
qed

end
