(* ===== verification/Bpf_Prog_Load.thy ===== *)
theory Bpf_Prog_Load
  imports Bpf_Prog_Life
begin

text \<open>
  What \<open>bpf_prog_load\<close> does to the system on every path, and what is left when the program is closed again: the maps and
  files are as before, the account of the user is not when the verifier let the program grow. Two programs user space can load
  show what goes wrong.
\<close>

section \<open>Pages of a program\<close>

lemma ctx_pages_mono: "pages \<le> ctx_pages conv realloc_ok i prog pages"
proof (induction conv realloc_ok i prog pages rule: ctx_pages.induct)
  case (1 conv realloc_ok i prog pages)
  show ?case
  proof (cases "i < length prog \<and> (bi_code (prog ! i) = (BPF_LDX OR BPF_MEM OR BPF_W) \<or> bi_code (prog ! i) = (BPF_STX OR BPF_MEM OR BPF_W)) \<and> bi_imm (prog ! i) = CTX_ACCESS_MARK")
    case True
    obtain buf acc where buf: "conv (bi_code (prog ! i) = (BPF_STX OR BPF_MEM OR BPF_W)) (bi_dst (prog ! i)) (bi_src (prog ! i)) (sint (bi_off (prog ! i))) = (buf, acc)"
      by fastforce
    let ?n = "max pages (round_up_pages (bpf_prog_size (length prog + length buf - 1)))"
    have "pages \<le> ctx_pages conv realloc_ok (i + length buf) (patch i buf prog) ?n"
      if "\<not> (length buf = 0 \<or> length buf \<ge> INSN_BUF_SIZE)" "length buf \<noteq> 1" "realloc_ok (length prog + length buf - 1)"
      using "1.IH"(3) [OF _ refl refl _ _ buf [symmetric] refl refl that(1,2)] True that(3) max.bounded_iff by auto
    then show ?thesis using True buf "1.IH"(2) [OF _ refl refl _ _ buf [symmetric] refl refl]
      by (subst ctx_pages.simps) (auto simp: Let_def)
  next
    case False
    then show ?thesis using "1.IH"(1,4) by (subst ctx_pages.simps) (auto simp: Let_def)
  qed
qed

lemma check_pages_mono: "pages \<le> check_pages p conv addr shared orc attr insns v pages"
  using ctx_pages_mono by (auto simp: check_pages_def split: result.splits option.splits)

section \<open>A program between its check and its descriptor\<close>

text \<open>
  \<open>staged c p user n ms s\<close>: in \<open>s\<close>, which comes from \<open>c\<close>, the program \<open>p\<close> is complete, charged to \<open>user\<close>, has at least \<open>n\<close> pages,
  and holds a reference on each map of \<open>ms\<close>.
\<close>

definition staged :: "prog_sys \<Rightarrow> nat \<Rightarrow> nat \<Rightarrow> nat list \<Rightarrow> prog_sys \<Rightarrow> kprog \<Rightarrow> bool" where
  "staged c user n ms s kp \<longleftrightarrow> psys s = take_refs ms (psys c) \<and> progs s = (progs c)(prog_next c \<mapsto> kp) \<and> pr_used_maps kp = ms \<and> kp_user kp = user \<and>
     n \<le> kp_pages kp \<and> kp_refcnt kp = 1 \<and> prog_rcu s = prog_rcu c \<and> prog_work s = prog_work c \<and> prog_next s = Suc (prog_next c) \<and>
     (\<forall>m. map_option pa_ptrs (parrays s m) = map_option pa_ptrs (parrays c m)) \<and> distinct ms \<and> (\<forall>m \<in> set ms. \<exists>fd. fds (psys c) fd = Some (MapFile m))"

text \<open>Giving up a staged program leaves the accounts changed by its pages, and nothing else.\<close>

definition uncharged :: "nat \<Rightarrow> nat \<Rightarrow> bpf_sys \<Rightarrow> bpf_sys" where
  "uncharged user pages t =
     t\<lparr>locked_vm := (locked_vm t)(user := locked_vm t user - int pages), uid_refs := (uid_refs t)(user := uid_refs t user - 1)\<rparr>"

lemma put_common_staged:
  assumes "sys_ok held (psys c)" and "psys s = take_refs ms (psys c)" and "progs s p = Some kp" and "pr_used_maps kp = ms" and "distinct ms"
    and "\<forall>m \<in> set ms. \<exists>fd. fds (psys c) fd = Some (MapFile m)"
  shows "prog_put_common p s = Ok ((set_sys (uncharged (kp_user kp) (kp_pages kp) (psys c)) s)\<lparr>prog_work := p # prog_work s\<rparr>)"
proof -
  have "\<forall>m \<in> set ms. \<exists>km. maps (psys c) m = Some km \<and> 0 < km_refcnt km" using assms(6) sys_ok_fd [OF assms(1)] by blast
  from release_maps_take_refs [OF assms(5) this] have "release_maps ms (psys s) = Ok (psys c)" unfolding assms(2) .
  then show ?thesis using assms(3,4)
    by (simp add: prog_put_common_def free_used_maps_def bpf_prog_uncharge_memlock_def bpf_prog_schedule_free_def uncharged_def Let_def set_sys_def)
qed

lemma tail_call_frame:
  "bpf_check_tail_call fp ms s = (r, s') \<Longrightarrow> pv s' = pv s \<and> progs s' = progs s \<and> prog_rcu s' = prog_rcu s \<and> prog_work s' = prog_work s \<and>
    prog_next s' = prog_next s \<and> (\<forall>m. map_option pa_ptrs (parrays s' m) = map_option pa_ptrs (parrays s m)) \<and> (\<forall>u. r \<noteq> Undef u)"
proof (induction fp ms s arbitrary: r s' rule: bpf_check_tail_call.induct)
  case (2 fp m ms s)
  show ?case
  proof (cases "parrays s m")
    case None
    then show ?thesis using 2 by simp
  next
    case (Some pa)
    obtain c pa' where c: "bpf_prog_array_compatible pa fp = (c, pa')" by fastforce
    have ptrs: "map_option pa_ptrs (((parrays s)(m \<mapsto> pa')) n) = map_option pa_ptrs (parrays s n)" for n
      using Some compatible_ptrs [OF c] by simp
    show ?thesis
    proof (cases c)
      case True
      then have "bpf_check_tail_call fp ms (s\<lparr>parrays := (parrays s)(m \<mapsto> pa')\<rparr>) = (r, s')" using "2.prems" Some c by (simp add: Let_def)
      from "2.IH"(2) [OF Some c [symmetric] refl True this] show ?thesis using ptrs by (simp del: fun_upd_apply)
    next
      case False
      then have "s' = s\<lparr>parrays := (parrays s)(m \<mapsto> pa')\<rparr>" "r = Err EINVAL" using "2.prems" Some c by (simp_all add: Let_def)
      then show ?thesis using ptrs by (simp del: fun_upd_apply)
    qed
  qed
qed auto

lemma select_runtime_staged:
  assumes "staged c user n ms s kp" and "bpf_prog_select_runtime jit (prog_next c) s = (r, s')"
  shows "staged c user n ms s' (kp\<lparr>kp_jited := kp_jited kp \<or> jit\<rparr>) \<and> (\<forall>u. r \<noteq> Undef u)"
proof -
  let ?kp = "kp\<lparr>kp_jited := kp_jited kp \<or> jit\<rparr>"
  let ?s = "upd_kprog (prog_next c) (\<lambda>k. k\<lparr>kp_jited := kp_jited k \<or> jit\<rparr>) s"
  have st: "staged c user n ms ?s ?kp" using assms(1) by (auto simp: staged_def upd_kprog_def)
  then have "bpf_check_tail_call ?kp (pr_used_maps ?kp) ?s = (r, s')"
    using assms(2) unfolding bpf_prog_select_runtime_def Let_def by (auto simp: staged_def)
  from tail_call_frame [OF this] show ?thesis using st by (simp add: staged_def)
qed

text \<open>The end of \<open>bpf_prog_load\<close>: a descriptor, or the program is given up.\<close>

definition load_outcome :: "load_env \<Rightarrow> prog_sys \<Rightarrow> nat \<Rightarrow> nat list \<Rightarrow> nat result \<Rightarrow> prog_sys \<Rightarrow> bool" where
  "load_outcome E c n ms r s' \<longleftrightarrow> (\<exists>s kp. staged c (le_user E) n ms s kp \<and>
     ((\<exists>e. r = Err e \<and> prog_put_common (prog_next c) s = Ok s') \<or>
      (\<exists>fd. r = Ok fd \<and> le_fd E = Ok fd \<and> s' = set_fd fd (Some (prog_next c)) s)))"

lemma put_common_staged':
  "sys_ok held (psys c) \<Longrightarrow> staged c user n ms s kp \<Longrightarrow>
    prog_put_common (prog_next c) s = Ok ((set_sys (uncharged (kp_user kp) (kp_pages kp) (psys c)) s)\<lparr>prog_work := prog_next c # prog_work s\<rparr>)"
  by (rule put_common_staged) (auto simp: staged_def)

lemma load_finish_outcome:
  assumes "sys_ok held (psys c)" and "staged c (le_user E) n ms s kp" and "load_finish E ops (prog_next c) insns s = (r, s')" and "\<forall>u. r \<noteq> Undef u"
  shows "load_outcome E c n ms r s'"
proof -
  obtain insns' dst where fx: "fixup_bpf_calls (get_func_proto ops) (le_func E) insns = Ok (insns', dst)"
    using assms(3,4) fixup_no_Err [of "get_func_proto ops" "le_func E" insns]
    by (cases "fixup_bpf_calls (get_func_proto ops) (le_func E) insns") (auto simp: load_finish_def)
  let ?s = "upd_kprog (prog_next c) (\<lambda>k. k\<lparr>pr_insns := insns', kp_dst_needed := dst\<rparr>) s"
  have st: "staged c (le_user E) n ms ?s (kp\<lparr>pr_insns := insns', kp_dst_needed := dst\<rparr>)" using assms(2) by (auto simp: staged_def upd_kprog_def)
  obtain r1 s1 where s1: "bpf_prog_select_runtime (le_jit E) (prog_next c) ?s = (r1, s1)" by fastforce
  from select_runtime_staged [OF st s1] obtain kp1 where st1: "staged c (le_user E) n ms s1 kp1" "\<forall>u. r1 \<noteq> Undef u" by blast
  note put = put_common_staged' [OF assms(1) st1(1)]
  consider (err) e where "load_free_used_maps (prog_next c) e s1 = (r, s')" | (ok) fd where "le_fd E = Ok fd" "r = Ok fd" "s' = set_fd fd (Some (prog_next c)) s1"
    using assms(3,4) fx s1 st1(2) by (cases r1; cases "le_fd E"; cases r) (auto simp: load_finish_def bpf_prog_new_fd_def set_fd_def)
  then show ?thesis
  proof cases
    case err
    then have "r = Err e" "prog_put_common (prog_next c) s1 = Ok s'" using load_free_used_maps_eq [OF put] put by auto
    then show ?thesis using st1(1) unfolding load_outcome_def by blast
  next
    case ok
    then show ?thesis using st1(1) unfolding load_outcome_def by blast
  qed
qed

lemma load_check_outcome:
  assumes "sys_ok held (psys c)" and "pr_used_maps kp = []" and "kp_refcnt kp = 1" and "kp_user kp = le_user E" and "kp_pages kp = n"
    and "load_check E A ops conv (prog_next c) insns (add_prog kp c) = (r, s')" and "\<forall>u. r \<noteq> Undef u"
  shows "\<exists>ms. load_outcome E c n ms r s'"
proof -
  let ?s = "add_prog kp c"
  define pages where "pages = check_pages ops conv (le_addr E) (le_shared E) (le_check E) (la_log A) insns (pv ?s)"
  have mono: "n \<le> pages n" by (simp add: pages_def check_pages_mono)
  obtain r1 v where chk: "bpf_check ops conv (le_addr E) (le_shared E) (le_check E) (la_log A) insns (pv ?s) = (r1, v)" by fastforce
  have ok: "sys_ok held (vsys (pv ?s))" using assms(1) by simp
  note bal = bpf_check_balance [OF ok, of ops conv "le_addr E" "le_shared E" "le_check E" "la_log A" insns, unfolded chk]
  note res = assms(6) [unfolded load_check_def chk, folded pages_def]
  show ?thesis
  proof (cases r1)
    case (Err e)
    let ?s1 = "upd_kprog (prog_next c) (\<lambda>k. k\<lparr>kp_pages := pages (kp_pages k)\<rparr>) (?s\<lparr>pv := v\<rparr>)"
    have st: "staged c (le_user E) n [] ?s1 (kp\<lparr>kp_pages := pages n\<rparr>)" using bal Err assms(2-5) mono by (simp add: staged_def upd_kprog_def)
    note put = put_common_staged' [OF assms(1) st]
    have "r = Err e \<and> prog_put_common (prog_next c) ?s1 = Ok s'" using res Err load_free_used_maps_eq [OF put, of e] put by (auto simp: Let_def)
    then show ?thesis using st unfolding load_outcome_def by blast
  next
    case (Ok pr)
    let ?f = "\<lambda>k. k\<lparr>kp_pages := pages (kp_pages k), pr_insns := pr_insns pr, pr_cb_access := pr_cb_access pr, pr_used_maps := pr_used_maps pr\<rparr>"
    let ?s1 = "upd_kprog (prog_next c) ?f (?s\<lparr>pv := v\<rparr>)"
    have st: "staged c (le_user E) n (pr_used_maps pr) ?s1 (?f kp)" using bal Ok assms(2-5) mono by (auto simp: staged_def upd_kprog_def)
    have "load_finish E ops (prog_next c) (pr_insns pr) ?s1 = (r, s')" using res Ok by (simp add: Let_def upd_kprog_def option.map_comp o_def)
    from load_finish_outcome [OF assms(1) st this assms(7)] show ?thesis by blast
  next
    case (Undef u)
    then show ?thesis using bal by simp
  qed
qed

section \<open>What loading leaves behind\<close>

lemma uncharged_charged:
  "uncharged user pages (psys (charged_sys user n s)) = (psys s)\<lparr>locked_vm := (locked_vm (psys s))(user := locked_vm (psys s) user - (int pages - int n))\<rparr>"
  by (simp add: uncharged_def algebra_simps)

lemma load_err:
  assumes "prog_inv uh ph s" and "bpf_prog_load E A s = (Err e, s')"
  shows "\<exists>d. psys s' = (psys s)\<lparr>locked_vm := (locked_vm (psys s))(le_user E := locked_vm (psys s) (le_user E) - int d)\<rparr> \<and>
    (\<forall>q. q \<noteq> prog_next s \<longrightarrow> progs s' q = progs s q) \<and> (progs s' = progs s \<or> prog_work s' = prog_next s # prog_work s) \<and> prog_rcu s' = prog_rcu s \<and>
    (\<forall>m. map_option pa_ptrs (parrays s' m) = map_option pa_ptrs (parrays s m))"
proof -
  let ?c = "charged_sys (le_user E) (load_pages A) s"
  have same: "psys s = (psys s)\<lparr>locked_vm := (locked_vm (psys s))(le_user E := locked_vm (psys s) (le_user E) - int 0)\<rparr>" by simp
  have c: "sys_ok (held_by uh s) (psys ?c)" using prog_invD(1) [OF assms(1)] by simp
  show ?thesis using assms(2)
  proof (cases rule: load_cases)
    case refused
    show ?thesis unfolding refused(2) by (intro exI [of _ 0] conjI same) simp_all
  next
    case denied
    show ?thesis unfolding denied(2) by (intro exI [of _ 0] conjI) simp_all
  next
    case (unreadable kp)
    show ?thesis unfolding unreadable(2) by (intro exI [of _ 0] conjI) simp_all
  next
    case (unknown e' kp)
    have "s' = (set_sys (uncharged (le_user E) (load_pages A) (psys ?c)) (add_prog kp ?c))\<lparr>prog_work := prog_next s # prog_work s\<rparr>"
      using unknown by (auto simp: load_free_prog_def bpf_prog_uncharge_memlock_def bpf_prog_schedule_free_def uncharged_def Let_def set_sys_def)
    then show ?thesis unfolding uncharged_charged by (intro exI [of _ 0] conjI) simp_all
  next
    case (checked ops conv insns kp s0)
    have nx: "prog_next ?c = prog_next s" by simp
    have "load_check E A ops conv (prog_next ?c) insns (add_prog kp ?c) = (Err e, s')" using checked(1) unfolding nx .
    from load_check_outcome [OF c checked(2,3,5,4) this] obtain ms s2 kp2 where st: "staged ?c (le_user E) (load_pages A) ms s2 kp2"
        and put: "prog_put_common (prog_next ?c) s2 = Ok s'" by (auto simp: load_outcome_def)
    have s': "s' = (set_sys (uncharged (le_user E) (kp_pages kp2) (psys ?c)) s2)\<lparr>prog_work := prog_next s # prog_work s2\<rparr>"
      using put_common_staged' [OF c st] put st by (simp add: staged_def)
    have eq: "int (kp_pages kp2) - int (load_pages A) = int (kp_pages kp2 - load_pages A)" using st by (simp add: staged_def of_nat_diff)
    have "psys s' = (psys s)\<lparr>locked_vm := (locked_vm (psys s))(le_user E := locked_vm (psys s) (le_user E) - int (kp_pages kp2 - load_pages A))\<rparr>"
      unfolding s' uncharged_charged eq by simp
    moreover have "progs s' = progs s2" "prog_work s' = prog_next s # prog_work s2" "prog_rcu s' = prog_rcu s2" "parrays s' = parrays s2"
      by (simp_all add: s')
    ultimately show ?thesis using st by (intro exI [of _ "kp_pages kp2 - load_pages A"] conjI) (simp_all add: staged_def)
  qed
qed

lemma load_ok:
  assumes "prog_inv uh ph s" and "bpf_prog_load E A s = (Ok fd, s1)"
  shows "\<exists>ms s2 kp. staged (charged_sys (le_user E) (load_pages A) s) (le_user E) (load_pages A) ms s2 kp \<and> le_fd E = Ok fd \<and> s1 = set_fd fd (Some (prog_next s)) s2"
proof -
  let ?c = "charged_sys (le_user E) (load_pages A) s"
  have nx: "prog_next ?c = prog_next s" by simp
  have c: "sys_ok (held_by uh s) (psys ?c)" using prog_invD(1) [OF assms(1)] by simp
  show ?thesis using assms(2)
  proof (cases rule: load_cases)
    case (unknown e kp)
    then show ?thesis by (simp add: load_free_prog_def bpf_prog_uncharge_memlock_def Let_def)
  next
    case (checked ops conv insns kp s0)
    have "load_check E A ops conv (prog_next ?c) insns (add_prog kp ?c) = (Ok fd, s1)" using checked(1) unfolding nx .
    from load_check_outcome [OF c checked(2,3,5,4) this] show ?thesis unfolding load_outcome_def nx by auto
  qed simp_all
qed

lemma load_release:
  assumes "prog_inv uh ph s" and "bpf_prog_load E A s = (Ok fd, s1)" and "fds (psys s) fd = None"
  shows "\<exists>s2. bpf_prog_fd_release fd s1 = Ok s2"
proof -
  have fd: "le_fd E = Ok fd" "fds (psys s1) fd = Some (ProgFile (prog_next s))" using load_ok [OF assms(1,2)] by (auto simp: set_fd_def)
  have "prog_inv uh ph s1" using load_inv [OF assms(1,2)] fd(1) assms(3) by simp
  from fd_release_inv [OF this fd(2)] show ?thesis by blast
qed

lemma load_close:
  assumes "prog_inv uh ph s" and "bpf_prog_load E A s = (Ok fd, s1)" and "fds (psys s) fd = None" and "bpf_prog_fd_release fd s1 = Ok s2"
  shows "\<exists>kp s3. progs s1 (prog_next s) = Some kp \<and> prog_rcu s2 = prog_next s # prog_rcu s \<and> load_pages A \<le> kp_pages kp \<and>
    prog_put_common (prog_next s) (s2\<lparr>prog_rcu := prog_rcu s\<rparr>) = Ok s3 \<and>
    psys s3 = (psys s)\<lparr>locked_vm := (locked_vm (psys s))(le_user E := locked_vm (psys s) (le_user E) - int (kp_pages kp - load_pages A))\<rparr>"
proof -
  let ?c = "charged_sys (le_user E) (load_pages A) s" and ?p = "prog_next s"
  have c: "sys_ok (held_by uh s) (psys ?c)" using prog_invD(1) [OF assms(1)] by simp
  obtain ms s0 kp where st: "staged ?c (le_user E) (load_pages A) ms s0 kp" and s1: "s1 = set_fd fd (Some ?p) s0"
    using load_ok [OF assms(1,2)] by blast
  have k: "progs s0 ?p = Some kp" "psys s0 = take_refs ms (psys ?c)" "pr_used_maps kp = ms" "kp_user kp = le_user E" "kp_refcnt kp = 1"
      "load_pages A \<le> kp_pages kp" "distinct ms" "\<forall>m \<in> set ms. \<exists>fd. fds (psys ?c) fd = Some (MapFile m)" "prog_rcu s0 = prog_rcu s"
    using st by (auto simp: staged_def)
  have fd: "fds (psys s0) fd = None" using k(2) assms(3) by simp
  have fds: "fds (psys s1) fd = Some (ProgFile ?p)" by (simp add: s1 set_fd_def)
  have restored: "set_sys ((psys s1)\<lparr>fds := (fds (psys s1))(fd := None)\<rparr>) s1 = s0"
    using fd by (simp add: s1 set_fd_def) (simp add: set_sys_def fun_upd_idem)
  have s2: "s2 = (upd_kprog ?p (\<lambda>k. k\<lparr>kp_refcnt := kp_refcnt k - 1\<rparr>) s0)\<lparr>prog_rcu := ?p # prog_rcu s\<rparr>"
    using assms(4) fds restored k(1,5,9) by (simp add: bpf_prog_fd_release_def bpf_prog_put_rcu_def dec_and_test_eq)
  let ?k = "kp\<lparr>kp_refcnt := kp_refcnt kp - 1\<rparr>" and ?s2 = "s2\<lparr>prog_rcu := prog_rcu s\<rparr>"
  have "prog_put_common ?p ?s2 = Ok ((set_sys (uncharged (kp_user ?k) (kp_pages ?k) (psys ?c)) ?s2)\<lparr>prog_work := ?p # prog_work ?s2\<rparr>)"
    by (rule put_common_staged [OF c]) (use k in \<open>simp_all add: s2\<close>)
  moreover have eq: "int (kp_pages kp) - int (load_pages A) = int (kp_pages kp - load_pages A)" using k(6) by (simp add: of_nat_diff)
  have "uncharged (kp_user ?k) (kp_pages ?k) (psys ?c)
      = (psys s)\<lparr>locked_vm := (locked_vm (psys s))(le_user E := locked_vm (psys s) (le_user E) - int (kp_pages kp - load_pages A))\<rparr>"
    using uncharged_charged [where pages = "kp_pages kp" and n = "load_pages A" and s = s and user = "le_user E", unfolded eq] k(4) by simp
  ultimately show ?thesis using k(1,6) by (intro exI [of _ kp]) (simp add: s1 set_fd_def s2)
qed

section \<open>What is held is there\<close>

lemma held_alive_ref:
  assumes "prog_inv uh ph s"
  shows "\<forall>fd p. fds (psys s) fd = Some (ProgFile p) \<longrightarrow> (\<exists>kp. progs s p = Some kp \<and> 0 < kp_refcnt kp \<and> p \<notin> set (prog_rcu s) \<and> p \<notin> set (prog_work s))"
    and "\<forall>m pa i p. parrays s m = Some pa \<and> i < length (pa_ptrs pa) \<and> pa_ptrs pa ! i = Some p \<longrightarrow>
      (\<exists>kp. progs s p = Some kp \<and> 0 < kp_refcnt kp \<and> p \<notin> set (prog_rcu s) \<and> p \<notin> set (prog_work s))"
proof -
  have alive: "\<exists>kp. progs s p = Some kp \<and> 0 < kp_refcnt kp \<and> p \<notin> set (prog_rcu s) \<and> p \<notin> set (prog_work s)" if "x \<in> prog_refs s p" for x p
    using held_alive [OF assms, of p] that by (metis empty_iff)
  show "\<forall>fd p. fds (psys s) fd = Some (ProgFile p) \<longrightarrow> (\<exists>kp. progs s p = Some kp \<and> 0 < kp_refcnt kp \<and> p \<notin> set (prog_rcu s) \<and> p \<notin> set (prog_work s))"
    using alive in_prog_refs(1) by blast
  show "\<forall>m pa i p. parrays s m = Some pa \<and> i < length (pa_ptrs pa) \<and> pa_ptrs pa ! i = Some p \<longrightarrow>
      (\<exists>kp. progs s p = Some kp \<and> 0 < kp_refcnt kp \<and> p \<notin> set (prog_rcu s) \<and> p \<notin> set (prog_work s))"
    using alive in_prog_refs(2) [of "(_, _)"] by (metis fst_conv snd_conv)
qed

lemma prog_count:
  "prog_inv uh ph s \<Longrightarrow> progs s p = Some kp \<Longrightarrow> p \<notin> set (prog_work s) \<Longrightarrow>
    kp_refcnt kp = int (card (prog_refs s p)) + int (ph p) \<and> (kp_refcnt kp = 0 \<longleftrightarrow> p \<in> set (prog_rcu s))"
  using prog_invD(2) [of uh ph s p] unfolding kprog_ok_def by (simp del: of_nat_add) metis

lemma used_map_alive:
  assumes "prog_inv uh ph s" and "progs s p = Some kp" and "p \<notin> set (prog_work s)" and "m \<in> set (pr_used_maps kp)"
  shows "\<exists>km. maps (psys s) m = Some km \<and> 0 < km_refcnt km"
proof -
  have "p \<in> map_users s m" using assms by (auto simp: map_users_def)
  then have "0 < held_by uh s False m" using finite_map_users [OF assms(1)] by (auto simp: held_by_def card_gt_0_iff)
  moreover have "map_ok (held_by uh s) (psys s) m" using prog_invD(1) [OF assms(1)] by (simp add: sys_ok_def)
  ultimately show ?thesis by (auto simp: map_ok_def split: option.splits)
qed

lemma map_count:
  "prog_inv uh ph s \<Longrightarrow> maps (psys s) m = Some km \<Longrightarrow>
    km_usercnt km = int (card {fd. fds (psys s) fd = Some (MapFile m)}) + int (uh m) \<and> km_refcnt km = km_usercnt km + int (card (map_users s m))"
  using prog_invD(1) [of uh ph s] by (auto simp: sys_ok_def map_ok_def held_by_def fdset_def dest: spec [of _ m])

lemma unreferenced_freed:
  assumes "prog_inv uh ph s" and "progs s p = Some kp" and "prog_refs s p = {}" and "ph p = 0"
  shows "\<exists>s'. prog_step\<^sup>*\<^sup>* (uh, ph, s) (uh, ph, s') \<and> progs s' p = None"
proof -
  have work: "\<exists>s'. prog_step (uh, ph, t) (uh, ph, s') \<and> progs s' p = None" if inv: "prog_inv uh ph t" and p: "p \<in> set (prog_work t)" for t
  proof -
    obtain xs ys where w: "prog_work t = xs @ p # ys" using split_list [OF p] by blast
    with free_work_inv [OF inv w] show ?thesis using prog_step.free_prog by blast
  qed
  show ?thesis
  proof (cases "p \<in> set (prog_work s)")
    case True
    then show ?thesis using work [OF assms(1)] by blast
  next
    case False
    then have "p \<in> set (prog_rcu s)" using prog_count [OF assms(1,2) False] assms(3,4) by auto
    then obtain xs ys where r: "prog_rcu s = xs @ p # ys" by (meson split_list)
    from rcu_callback_inv [OF assms(1) r] obtain t where t: "prog_put_common p (s\<lparr>prog_rcu := xs @ ys\<rparr>) = Ok t" "prog_inv uh ph t" by blast
    have "p \<in> set (prog_work t)" using t(1) by (auto simp: prog_put_common_def bpf_prog_schedule_free_def)
    from work [OF t(2) this] obtain s' where "prog_step (uh, ph, t) (uh, ph, s')" "progs s' p = None" by blast
    moreover have "prog_step (uh, ph, s) (uh, ph, t)" by (rule prog_step.grace_period [OF r t(1)])
    ultimately show ?thesis by (meson converse_rtranclp_into_rtranclp r_into_rtranclp)
  qed
qed

section \<open>Loading socket filters\<close>

definition sock_load :: "load_env \<Rightarrow> load_attr \<Rightarrow> prog_sys \<Rightarrow> bpf_insn list \<Rightarrow> bool" where
  "sock_load E A s insns \<longleftrightarrow> \<not> la_bad A \<and> la_license A \<noteq> None \<and> unat (la_insn_cnt A) = length insns \<and> length insns < BPF_MAXINSNS \<and> la_type A = 1 \<and>
     le_alloc E \<and> la_insns A (length insns) = Some insns \<and> la_log A = no_log \<and> le_check E = ex_orc \<and>
     \<not> over_limit (locked_vm (psys s) (le_user E) + int (load_pages A)) (le_limit E)"

abbreviation (input) sock_ops :: "load_env \<Rightarrow> load_attr \<Rightarrow> prog_sys \<Rightarrow> verifier_prog" where
  "sock_ops E A s \<equiv> sk_filter_ops (le_admin E) (license_is_gpl_compatible (take 127 (the (la_license A)))) (map_info_at E s)"

abbreviation (input) sock_conv :: "load_env \<Rightarrow> ctx_conv" where
  "sock_conv E \<equiv> bpf_net_convert_ctx_access (le_layout E)"

lemma load_sock:
  assumes "sock_load E A s insns"
  shows "\<exists>kp. bpf_prog_load E A s = load_check E A (sock_ops E A s) (Some (sock_conv E)) (prog_next s) insns
      (add_prog kp (charged_sys (le_user E) (load_pages A) s)) \<and> pr_used_maps kp = [] \<and> kp_pages kp = load_pages A \<and> kp_type kp = PROG_TYPE_SOCKET_FILTER"
proof -
  let ?p = "prog_next s" and ?n = "load_pages A" and ?c = "charged_sys (le_user E) (load_pages A) s"
  let ?s = "add_prog (new_prog ?n) s" and ?k = "(new_prog ?n)\<lparr>kp_user := le_user E\<rparr>"
  let ?gpl = "license_is_gpl_compatible (take 127 (the (la_license A)))"
  have new: "progs ?s ?p = Some (new_prog ?n)" "kp_pages (new_prog ?n) = ?n" by (simp_all add: new_prog_def)
  have "\<not> over_limit (locked_vm (psys ?s) (le_user E) + int ?n) (le_limit E)" using assms by (auto simp: sock_load_def)
  then have s1: "bpf_prog_charge_memlock (le_user E) (le_limit E) ?p ?s = (Ok (), add_prog ?k ?c)"
    by (cases rule: charge_cases [OF new(1), of "le_user E" "le_limit E", unfolded new(2)]) (simp_all add: upd_kprog_def set_sys_def)
  have load: "bpf_prog_load E A s = load_copied E A ?gpl ?p insns (add_prog ?k ?c)"
    using assms s1 by (auto simp: bpf_prog_load_def Let_def sock_load_def)
  have up: "upd_kprog ?p f (add_prog k ?c) = add_prog (f k) ?c" for f k by (simp add: upd_kprog_def set_sys_def)
  have info: "map_info_at E (add_prog k ?c) = map_info_at E s" for k
    by (simp add: map_info_at_def map_type_of_def fun_eq_iff split: option.splits)
  have "la_type A = 1" using assms by (simp add: sock_load_def)
  then have ops: "find_prog_type E ?gpl (add_prog k ?c) (la_type A) = Ok (sock_ops E A s, Some (sock_conv E))" for k
    by (simp only: find_prog_type_def Let_def info if_True simp_thms)
  show ?thesis unfolding load load_copied_def Let_def up ops result.case prod.case
    by (rule exI [of _ "_\<lparr>kp_type := _\<rparr>"], intro conjI, rule refl) (simp_all add: new_prog_def sk_filter_ops_def)
qed

text \<open>A filter that uses no map and passes the verifier.\<close>

lemma load_accepted:
  assumes "sock_load E A s insns" and "insns \<noteq> []" and "\<And>v. replace_map_fd_with_map_ptr (le_addr E) (le_shared E) insns v = (Ok insns, v)"
    and "check_cfg True True insns (replicate (length insns) False) = Ok marked"
    and "do_check (sock_ops E A s) (\<lambda>_. True) (\<lambda>_. True) insns marked = Ok res"
    and "convert_ctx_accesses (Some (sock_conv E)) (\<lambda>_. True) res False = Ok (final, cb)"
  shows "\<exists>s2 kp. bpf_prog_load E A s = load_finish E (sock_ops E A s) (prog_next s) final s2 \<and> progs s2 (prog_next s) = Some kp \<and> pr_used_maps kp = [] \<and>
    fds (psys s2) = fds (psys s) \<and> kp_pages kp = ctx_pages (sock_conv E) (\<lambda>_. True) 0 res (load_pages A) \<and> kp_type kp = PROG_TYPE_SOCKET_FILTER"
proof -
  let ?c = "charged_sys (le_user E) (load_pages A) s" and ?p = "prog_next s"
  obtain kp where kp: "bpf_prog_load E A s = load_check E A (sock_ops E A s) (Some (sock_conv E)) ?p insns (add_prog kp ?c)"
      "pr_used_maps kp = []" "kp_pages kp = load_pages A" "kp_type kp = PROG_TYPE_SOCKET_FILTER" using load_sock [OF assms(1)] by blast
  have A: "la_log A = no_log" "le_check E = ex_orc" "length insns < 4096" using assms(1) by (auto simp: sock_load_def)
  let ?v = "pv (add_prog kp ?c)"
  have len: "length insns \<le> 4096" using A(3) by simp
  have chk: "bpf_check (sock_ops E A s) (Some (sock_conv E)) (le_addr E) (le_shared E) ex_orc no_log insns ?v =
      (Ok \<lparr>pr_insns = final, pr_cb_access = cb, pr_used_maps = []\<rparr>, ?v\<lparr>used_maps := []\<rparr>)"
    by (rule bpf_check_no_maps [OF assms(2) len assms(3) assms(4-6)])
  have pages: "check_pages (sock_ops E A s) (Some (sock_conv E)) (le_addr E) (le_shared E) ex_orc no_log insns ?v n = ctx_pages (sock_conv E) (\<lambda>_. True) 0 res n" for n
    using assms(2-5) A(3) by (simp add: check_pages_def log_error_def no_log_def ex_orc_def)
  let ?f = "\<lambda>k. k\<lparr>kp_pages := ctx_pages (sock_conv E) (\<lambda>_. True) 0 res (kp_pages k), pr_insns := final, pr_cb_access := cb, pr_used_maps := []\<rparr>"
  let ?s2 = "upd_kprog ?p ?f ((add_prog kp ?c)\<lparr>pv := ?v\<lparr>used_maps := []\<rparr>\<rparr>)"
  have "bpf_prog_load E A s = load_finish E (sock_ops E A s) ?p final ?s2"
    unfolding kp(1) load_check_def A(1,2) chk pages Let_def by (simp add: upd_kprog_def)
  then show ?thesis using kp(3,4) by (intro exI [of _ ?s2] exI [of _ "?f kp"]) simp
qed

lemma load_finish_ok:
  assumes "fixup_bpf_calls (get_func_proto ops) (le_func E) insns = Ok (insns', dst)" and "progs s p = Some kp" and "pr_used_maps kp = []" and "le_fd E = Ok fd"
  shows "\<exists>s1 kp'. load_finish E ops p insns s = (Ok fd, s1) \<and> progs s1 p = Some kp' \<and> kp_pages kp' = kp_pages kp \<and> kp_type kp' = kp_type kp \<and>
    fds (psys s1) = (fds (psys s))(fd \<mapsto> ProgFile p)"
  using assms by (simp add: load_finish_def bpf_prog_select_runtime_def bpf_prog_new_fd_def Let_def)

section \<open>A call that no one checked\<close>

text \<open>The verifier knows which way the branch goes and does not look at the call.\<close>

definition ex_dead :: "bpf_insn list" where
  "ex_dead = [BPF_MOV32_IMM 0 0, BPF_JMP_IMM BPF_JEQ 0 0 1, BPF_RAW_INSN (BPF_JMP OR BPF_CALL) 0 0 0 9999, BPF_EXIT_INSN]"

lemma load_dead:
  assumes "sock_load E A s ex_dead"
  shows "fst (bpf_prog_load E A s) = Undef BadMem"
proof -
  have rep: "replace_map_fd_with_map_ptr addr shared ex_dead v = (Ok ex_dead, v)" for addr shared v
    by (simp add: replace_map_fd_with_map_ptr_def ex_dead_def replace_insn_def bpf_fields bpf_macros)
  have cfg: "check_cfg True True ex_dead (replicate (length ex_dead) False) = Ok [False, False, False, True]" by code_simp
  have chk: "do_check (sk_filter_ops admin gpl info) (\<lambda>_. True) (\<lambda>_. True) ex_dead [False, False, False, True] = Ok ex_dead" for admin gpl info
    by (simp add: do_check_def check_loop.simps check_defs ex_dead_def sk_filter_ops_def)
  have conv: "convert_ctx_accesses (Some c) (\<lambda>_. True) ex_dead False = Ok (ex_dead, False)" for c
    by (simp add: convert_ctx_accesses_def ctx_loop.simps ex_dead_def bpf_macros bpf_fields Let_def)
  have ne: "ex_dead \<noteq> []" by (simp add: ex_dead_def)
  obtain s2 kp where "bpf_prog_load E A s = load_finish E (sock_ops E A s) (prog_next s) ex_dead s2"
    using load_accepted [OF assms ne rep cfg chk conv] by blast
  moreover have "fixup_bpf_calls (Some (sk_filter_func_proto admin)) func ex_dead = Undef BadMem" for admin func
    by (simp add: ex_dead_def bpf_macros bpf_fields fixup_insn_def sk_filter_func_proto_def)
  ultimately show ?thesis by (simp add: load_finish_def sk_filter_ops_def)
qed

section \<open>A program that grows over a page\<close>

text \<open>A read of the interface index, which becomes three instructions, followed by moves up to the end of the first page.\<close>

abbreviation (input) mov0 :: bpf_insn where "mov0 \<equiv> BPF_MOV32_IMM 0 0"
abbreviation (input) ld_ifindex :: bpf_insn where "ld_ifindex \<equiv> BPF_LDX_MEM BPF_W 0 1 40"

definition ex_grow :: "nat \<Rightarrow> bpf_insn list" where
  "ex_grow n = ld_ifindex # replicate n mov0 @ [BPF_EXIT_INSN]"

lemma length_ex_grow [simp]: "length (ex_grow n) = n + 2"
  by (simp add: ex_grow_def)

lemma ex_grow_nth: "t < n + 2 \<Longrightarrow> ex_grow n ! t = (if t = 0 then ld_ifindex else if t = n + 1 then BPF_EXIT_INSN else mov0)"
  by (auto simp: ex_grow_def nth_Cons nth_append split: nat.splits)

lemma replace_loop_plain:
  "\<forall>i \<in> set insns. \<forall>rest v. replace_insn addr shared i rest v = (Ok [i], v) \<Longrightarrow> replace_loop addr shared insns v = (Ok insns, v)"
  by (induction insns) auto

lemma ex_grow_replace: "replace_map_fd_with_map_ptr addr shared (ex_grow n) v = (Ok (ex_grow n), v)"
  unfolding replace_map_fd_with_map_ptr_def
  by (rule replace_loop_plain) (auto simp: ex_grow_def replace_insn_def bpf_macros bpf_fields Let_def)

lemma ex_grow_cfg: "cfg_ok (ex_grow n)"
proof -
  have succs: "succs (ex_grow n) t = (if t = n + 1 then [] else [int t + 1])" if "t < n + 2" for t
    unfolding succs_def ex_grow_nth [OF that] by (auto simp: bpf_macros bpf_fields Let_def)
  have ja: "ja_ok (ex_grow n) t" if "t < n + 2" for t
    unfolding ja_ok_def ex_grow_nth [OF that] by (auto simp: bpf_macros bpf_fields)
  have edge: "(t, Suc t) \<in> edges (ex_grow n)" if "t < n + 1" for t using succs [of t] that by (auto simp: edges_def)
  have "(0, t) \<in> (edges (ex_grow n))\<^sup>*" if "t < n + 2" for t
    using that
  proof (induction t)
    case (Suc t)
    then have "(0, t) \<in> (edges (ex_grow n))\<^sup>*" and "t < n + 1" by simp_all
    then show ?case using edge [of t] by (simp add: rtrancl_into_rtrancl)
  qed simp
  moreover have "acyclic (edges (ex_grow n))"
  proof (rule acyclic_subset [OF wf_acyclic [OF wf_less_than]])
    show "edges (ex_grow n) \<subseteq> less_than" using succs by (auto simp: edges_def split: if_splits)
  qed
  ultimately show ?thesis using succs ja by (auto simp: cfg_ok_def split: if_splits)
qed

lemma check_loop_plain:
  assumes "t < length P" and "t < MAX_PROCESSED" and "is_state_visited True t st ex = Ok (False, ex')"
  shows "check_one p True t P st = Ok (VExit, None, P') \<Longrightarrow> check_loop p (\<lambda>_. True) (\<lambda>_. True) t (int t) st [] ex P = Ok P'"
    and "check_one p True t P st = Ok (VCont (int t + 1) st', None, P') \<Longrightarrow>
      check_loop p (\<lambda>_. True) (\<lambda>_. True) t (int t) st [] ex P = check_loop p (\<lambda>_. True) (\<lambda>_. True) (Suc t) (int (Suc t)) st' [] ex' P'"
  using assms by (simp_all add: check_loop.simps [of p "\<lambda>_. True" "\<lambda>_. True" t] add.commute)

text \<open>The verifier walks over the moves, whatever entries the control flow check marked.\<close>

lemma ex_grow_walk:
  assumes "length P = n + 2" and "\<And>t. 1 \<le> t \<Longrightarrow> t < n + 2 \<Longrightarrow> P ! t = (if t = n + 1 then BPF_EXIT_INSN else mov0)" and "n + 2 \<le> MAX_PROCESSED"
  shows "j \<le> n \<Longrightarrow> \<forall>i \<ge> n + 1 - j. ex i = None \<or> ex i = Some [] \<Longrightarrow> rtype (vregs st 0) \<in> {UNKNOWN_VALUE, CONST_IMM} \<Longrightarrow>
    check_loop p (\<lambda>_. True) (\<lambda>_. True) (n + 1 - j) (int (n + 1 - j)) st [] ex P = Ok P"
proof (induction j arbitrary: ex st)
  case 0
  obtain ex' where vis: "is_state_visited True (n + 1) st ex = Ok (False, ex')"
    using "0.prems"(2) by (auto simp: is_state_visited_def split: option.splits)
  have "P ! (n + 1) = BPF_EXIT_INSN" using assms(2) [of "n + 1"] by simp
  then have "check_one p True (n + 1) P st = Ok (VExit, None, P)" using "0.prems"(3) by (auto simp: check_defs bpf_macros bpf_fields)
  then have "check_loop p (\<lambda>_. True) (\<lambda>_. True) (n + 1) (int (n + 1)) st [] ex P = Ok P"
    using assms(1,3) by (intro check_loop_plain(1) [OF _ _ vis]) simp_all
  then show ?case by simp
next
  case (Suc j)
  define t where "t = n + 1 - Suc j"
  have t: "1 \<le> t" "t < n + 1" "n + 1 - j = Suc t" using Suc.prems(1) by (simp_all add: t_def)
  have P: "P ! t = mov0" using assms(2) [of t] t by simp
  have "is_state_visited True t st ex = Ok (False, (if ex t = None then ex else ex(t \<mapsto> [st])))"
    using Suc.prems(2) t by (auto simp: is_state_visited_def t_def split: option.splits)
  moreover define ex' where "ex' = (if ex t = None then ex else ex(t \<mapsto> [st]))"
  ultimately have vis: "is_state_visited True t st ex = Ok (False, ex')" by simp
  have ex': "\<forall>i \<ge> n + 1 - j. ex' i = None \<or> ex' i = Some []" using Suc.prems(2) t by (auto simp: ex'_def t_def)
  obtain st' where one: "check_one p True t P st = Ok (VCont (int t + 1) st', None, P)"
      and st': "rtype (vregs st' 0) \<in> {UNKNOWN_VALUE, CONST_IMM}"
    using P by (simp add: check_defs bpf_macros bpf_fields set_imm_def)
  have "check_loop p (\<lambda>_. True) (\<lambda>_. True) t (int t) st [] ex P = check_loop p (\<lambda>_. True) (\<lambda>_. True) (Suc t) (int (Suc t)) st' [] ex' P"
    using t assms(1,3) by (intro check_loop_plain(2) [OF _ _ vis one]) simp_all
  also have "\<dots> = Ok P" using Suc.IH [OF _ ex' st'] Suc.prems(1) unfolding t(3) by simp
  finally show ?case unfolding t_def .
qed

definition ex_grown :: "nat \<Rightarrow> bpf_insn list" where
  "ex_grown n = (ex_grow n)[0 := ld_ifindex\<lparr>bi_imm := CTX_ACCESS_MARK\<rparr>]"

lemma ex_grown_nth:
  "t < n + 2 \<Longrightarrow> ex_grown n ! t = (if t = 0 then ld_ifindex\<lparr>bi_imm := CTX_ACCESS_MARK\<rparr> else if t = n + 1 then BPF_EXIT_INSN else mov0)"
  by (simp add: ex_grown_def nth_list_update ex_grow_nth)

lemma length_ex_grown [simp]: "length (ex_grown n) = n + 2"
  by (simp add: ex_grown_def)

lemma ex_grow_check:
  assumes "n + 2 \<le> MAX_PROCESSED"
  shows "do_check (sk_filter_ops admin gpl info) (\<lambda>_. True) (\<lambda>_. True) (ex_grow n) marked = Ok (ex_grown n)"
proof -
  let ?p = "sk_filter_ops admin gpl info" and ?ex = "(\<lambda>i. if i < length marked \<and> marked ! i then Some [] else None) :: explored"
  let ?ex' = "if ?ex 0 = None then ?ex else ?ex(0 \<mapsto> [init_vstate])"
  have vis: "is_state_visited True 0 init_vstate ?ex = Ok (False, ?ex')" by (simp add: is_state_visited_def)
  obtain st where one: "check_one ?p True 0 (ex_grow n) init_vstate = Ok (VCont (int 0 + 1) st, None, ex_grown n)"
      and st: "rtype (vregs st 0) \<in> {UNKNOWN_VALUE, CONST_IMM}"
    by (simp add: check_defs ex_grow_nth ex_grown_def bpf_macros bpf_fields sk_filter_ops_def init_vstate_def init_reg_state_def mark_access_def)
  have len: "0 < length (ex_grow n)" "0 < MAX_PROCESSED" by simp_all
  have "do_check ?p (\<lambda>_. True) (\<lambda>_. True) (ex_grow n) marked = check_loop ?p (\<lambda>_. True) (\<lambda>_. True) (Suc 0) (int (Suc 0)) st [] ?ex' (ex_grown n)"
    unfolding do_check_def using check_loop_plain(2) [OF len vis one] by simp
  also have "\<dots> = Ok (ex_grown n)" using ex_grow_walk [of "ex_grown n" n n ?ex' st ?p] assms st ex_grown_nth by simp
  finally show ?thesis .
qed

section \<open>The rewritten program\<close>

lemma ctx_skip:
  assumes "\<forall>k. i \<le> k \<and> k < length prog \<longrightarrow> bi_code (prog ! k) \<noteq> (BPF_LDX OR BPF_MEM OR BPF_W) \<and> bi_code (prog ! k) \<noteq> (BPF_STX OR BPF_MEM OR BPF_W)"
  shows "ctx_loop conv ok i prog cb = Ok (prog, cb) \<and> ctx_pages conv ok i prog pages = pages"
  using assms
proof (induction "length prog - i" arbitrary: i)
  case 0
  then show ?case by (simp add: ctx_loop.simps [of conv ok i] ctx_pages.simps [of conv ok i])
next
  case (Suc d)
  then have "i < length prog" "ctx_loop conv ok (Suc i) prog cb = Ok (prog, cb) \<and> ctx_pages conv ok (Suc i) prog pages = pages" by simp_all
  then show ?case using Suc.prems by (simp add: ctx_loop.simps [of conv ok i] ctx_pages.simps [of conv ok i] Let_def)
qed

lemma ex_grow_convert:
  obtains final where "convert_ctx_accesses (Some (bpf_net_convert_ctx_access L)) (\<lambda>_. True) (ex_grown n) False = Ok (final, False)"
    and "\<And>pages. ctx_pages (bpf_net_convert_ctx_access L) (\<lambda>_. True) 0 (ex_grown n) pages = max pages (round_up_pages (bpf_prog_size (n + 4)))"
    and "\<forall>insn \<in> set final. bi_code insn \<noteq> (BPF_JMP OR BPF_CALL)"
proof -
  let ?conv = "bpf_net_convert_ctx_access L"
  obtain buf where buf: "?conv False 0 1 40 = (buf, False)" "length buf = 3" "\<forall>insn \<in> set buf. bi_code insn \<noteq> (BPF_JMP OR BPF_CALL)"
    by (simp add: bpf_net_convert_ctx_access_def bpf_macros bpf_fields)
  have ne: "buf \<noteq> []" using buf(2) by auto
  let ?final = "patch 0 buf (ex_grown n)"
  have code: "bi_code (adjust_insn a b c insn) = bi_code insn" for a b c insn by (simp add: adjust_insn_def)
  have codes: "bi_code (?final ! k) = bi_code ((buf @ drop 1 (ex_grown n)) ! k)" if "k < n + 4" for k
    using that buf(2) by (simp add: patch_def adjust_branches_nth code)
  have len: "length ?final = n + 4" using buf(2) by (simp add: length_patch)
  have rest: "bi_code (?final ! k) = BPF_ALU OR BPF_MOV OR BPF_K \<or> bi_code (?final ! k) = BPF_JMP OR BPF_EXIT" if "3 \<le> k" "k < n + 4" for k
  proof -
    have "(buf @ drop 1 (ex_grown n)) ! k = ex_grown n ! (k - 2)" using that buf(2) by (simp add: nth_append Suc_diff_Suc numeral_eq_Suc)
    then show ?thesis using codes [OF that(2)] that ex_grown_nth [of "k - 2" n] by (simp add: bpf_macros)
  qed
  then have skip: "\<forall>k. 3 \<le> k \<and> k < length ?final \<longrightarrow> bi_code (?final ! k) \<noteq> (BPF_LDX OR BPF_MEM OR BPF_W) \<and> bi_code (?final ! k) \<noteq> (BPF_STX OR BPF_MEM OR BPF_W)"
    using len by (fastforce simp: bpf_macros)
  have first: "bi_code (ex_grown n ! 0) = (BPF_LDX OR BPF_MEM OR BPF_W)" "bi_imm (ex_grown n ! 0) = 2" "bi_dst (ex_grown n ! 0) = 0"
      "bi_src (ex_grown n ! 0) = 1" "bi_off (ex_grown n ! 0) = 40" by (simp_all add: ex_grown_nth bpf_macros bpf_fields)
  show thesis
  proof (rule that)
    show "convert_ctx_accesses (Some ?conv) (\<lambda>_. True) (ex_grown n) False = Ok (?final, False)"
      using first buf(1,2) ne ctx_skip [OF skip, of ?conv "\<lambda>_. True" False 0]
      by (simp add: convert_ctx_accesses_def ctx_loop.simps [of ?conv "\<lambda>_. True" 0] Let_def)
    show "ctx_pages ?conv (\<lambda>_. True) 0 (ex_grown n) pages = max pages (round_up_pages (bpf_prog_size (n + 4)))" for pages
      using first buf(1,2) ne ctx_skip [OF skip, of ?conv "\<lambda>_. True" False "max pages (round_up_pages (bpf_prog_size (n + 4)))"]
      by (simp add: ctx_pages.simps [of ?conv "\<lambda>_. True" 0] Let_def add.commute)
    have "bi_code (?final ! k) \<noteq> (BPF_JMP OR BPF_CALL)" if "k < n + 4" for k
      using rest [OF _ that] codes [OF that] buf(2,3) by (cases "3 \<le> k") (auto simp: bpf_macros nth_append)
    then show "\<forall>insn \<in> set ?final. bi_code insn \<noteq> (BPF_JMP OR BPF_CALL)" using len by (auto simp: in_set_conv_nth)
  qed
qed

lemma fixup_no_calls:
  "\<forall>insn \<in> set insns. bi_code insn \<noteq> (BPF_JMP OR BPF_CALL) \<Longrightarrow> fixup_bpf_calls protos func insns = Ok (insns, False)"
  by (induction insns) (simp_all add: fixup_insn_def)

text \<open>A program that fills its page, loaded and closed again.\<close>

lemma ex_grow_load:
  assumes "sock_load E A s (ex_grow n)" and "le_fd E = Ok fd"
  shows "\<exists>s1 kp. bpf_prog_load E A s = (Ok fd, s1) \<and> progs s1 (prog_next s) = Some kp \<and>
    kp_pages kp = max (load_pages A) (round_up_pages (bpf_prog_size (n + 4))) \<and> kp_type kp = PROG_TYPE_SOCKET_FILTER \<and> fds (psys s1) = (fds (psys s))(fd \<mapsto> ProgFile (prog_next s))"
proof -
  have ne: "ex_grow n \<noteq> []" by (simp add: ex_grow_def)
  have len: "n + 2 \<le> MAX_PROCESSED" using assms(1) by (simp add: sock_load_def)
  obtain marked where cfg: "check_cfg True True (ex_grow n) (replicate (length (ex_grow n)) False) = Ok marked"
    using check_cfg_decides [OF ne, of "replicate (length (ex_grow n)) False"] ex_grow_cfg [of n]
    by (cases "check_cfg True True (ex_grow n) (replicate (length (ex_grow n)) False)") (simp_all del: length_ex_grow)
  obtain final where final: "convert_ctx_accesses (Some (sock_conv E)) (\<lambda>_. True) (ex_grown n) False = Ok (final, False)"
      "\<And>pages. ctx_pages (sock_conv E) (\<lambda>_. True) 0 (ex_grown n) pages = max pages (round_up_pages (bpf_prog_size (n + 4)))"
      "\<forall>insn \<in> set final. bi_code insn \<noteq> (BPF_JMP OR BPF_CALL)"
    by (rule ex_grow_convert [of "le_layout E" n]) blast
  obtain s2 kp where s2: "bpf_prog_load E A s = load_finish E (sock_ops E A s) (prog_next s) final s2" "progs s2 (prog_next s) = Some kp" "pr_used_maps kp = []"
      "fds (psys s2) = fds (psys s)" "kp_pages kp = max (load_pages A) (round_up_pages (bpf_prog_size (n + 4)))" "kp_type kp = PROG_TYPE_SOCKET_FILTER"
    using load_accepted [OF assms(1) ne ex_grow_replace cfg ex_grow_check [OF len] final(1)] unfolding final(2) by blast
  then show ?thesis using load_finish_ok [OF fixup_no_calls [OF final(3)] s2(2,3) assms(2), where ops = "sock_ops E A s"] by fastforce
qed

lemma grow_close:
  assumes "prog_inv uh ph s" and "sock_load E A s (ex_grow 505)" and "le_fd E = Ok fd" and "fds (psys s) fd = None"
  shows "\<exists>s1 s2 s3. bpf_prog_load E A s = (Ok fd, s1) \<and> bpf_prog_fd_release fd s1 = Ok s2 \<and> prog_rcu s2 = prog_next s # prog_rcu s \<and>
    prog_put_common (prog_next s) (s2\<lparr>prog_rcu := prog_rcu s\<rparr>) = Ok s3 \<and>
    psys s3 = (psys s)\<lparr>locked_vm := (locked_vm (psys s))(le_user E := locked_vm (psys s) (le_user E) - 1)\<rparr>"
proof -
  obtain s1 kp where l: "bpf_prog_load E A s = (Ok fd, s1)" "progs s1 (prog_next s) = Some kp" "fds (psys s1) fd = Some (ProgFile (prog_next s))"
      "kp_pages kp = max (load_pages A) (round_up_pages (bpf_prog_size (505 + 4)))"
    using ex_grow_load [OF assms(2,3)] by auto
  have "unat (la_insn_cnt A) = 507" using assms(2) by (simp add: sock_load_def)
  then have pages: "load_pages A = 1" "kp_pages kp = 2" using l(4) by (simp_all add: round_up_pages_def bpf_prog_size_def)
  have "prog_inv uh ph s1" using load_inv [OF assms(1) l(1)] assms(3,4) by simp
  then obtain s2 where s2: "bpf_prog_fd_release fd s1 = Ok s2" using fd_release_inv l(3) by blast
  show ?thesis using load_close [OF assms(1) l(1) assms(4) s2] l(1,2) s2 pages by auto
qed

section \<open>Properties\<close>



text \<open>C30. A program nobody refers to any more does not stay: from every state the system reaches, the deferred work of the program
  alone leads to a state where its memory is freed.\<close>

theorem unreferenced_program_freed:
  assumes "prog_step\<^sup>*\<^sup>* prog_start (uh, ph, s)" and "progs s p = Some kp" and "prog_refs s p = {}" and "ph p = 0"
  shows "\<exists>s'. prog_step\<^sup>*\<^sup>* (uh, ph, s) (uh, ph, s') \<and> progs s' p = None"
proof (rule unreferenced_freed [OF prog_reachable_inv [OF assms(1)] assms(2)])
  show "prog_refs s p = {}" "ph p = 0" by fact+
qed



text \<open>C34. A socket filter any user can load crashes the kernel: \<open>fixup_bpf_calls\<close> looks up the prototype of every call, also of those the
  verifier never looked at because it knew which way the branch in front goes, and reads through the null pointer it gets for
  a helper that does not exist.\<close>

theorem dead_call_crashes:
  assumes "sock_load E A s ex_dead"
  shows "fst (bpf_prog_load E A s) = Undef BadMem"
  using load_dead [OF assms] .

text \<open>C35. The account of locked memory goes below zero: a socket filter of 507 instructions fills its page, its read of the interface
  index becomes three instructions, the program grows by a page that is not charged, and closing it uncharges two pages
  where one was charged.\<close>

theorem growth_underflows:
  assumes "prog_step\<^sup>*\<^sup>* prog_start (uh, ph, s)" and "sock_load E A s (ex_grow 505)" and "le_fd E = Ok fd" and "fds (psys s) fd = None"
  shows "\<exists>s1 s2 s3. bpf_prog_load E A s = (Ok fd, s1) \<and> bpf_prog_fd_release fd s1 = Ok s2 \<and> prog_rcu s2 = prog_next s # prog_rcu s \<and>
    prog_put_common (prog_next s) (s2\<lparr>prog_rcu := prog_rcu s\<rparr>) = Ok s3 \<and>
    psys s3 = (psys s)\<lparr>locked_vm := (locked_vm (psys s))(le_user E := locked_vm (psys s) (le_user E) - 1)\<rparr>"
  using grow_close [OF prog_reachable_inv [OF assms(1)] assms(2-4)] .

section \<open>Witnesses\<close>

definition ex_le :: load_env where
  "ex_le = \<lparr>le_admin = False, le_version = 0x40401, le_alloc = True, le_user = 1000, le_limit = 16, le_check = ex_orc, le_fd = Ok 3,
     le_shared = False, le_addr = (\<lambda>_. 0), le_map_nr = (\<lambda>_. 0), le_func = (\<lambda>_. None), le_layout = ex_layout, le_md_dst = True,
     le_jit = False\<rparr>"

definition ex_la :: "u32 \<Rightarrow> bpf_insn list \<Rightarrow> load_attr" where
  "ex_la type insns = \<lparr>la_bad = False, la_type = type, la_insn_cnt = of_nat (length insns), la_insns = (\<lambda>_. Some insns), la_license = Some ''GPL'',
     la_log = no_log, la_kern_version = 0\<rparr>"

lemma ex_sock_load:
  assumes "length insns \<le> 1000"
  shows "sock_load ex_le (ex_la 1 insns) prog_boot insns"
proof -
  have cnt: "unat (of_nat (length insns) :: u32) = length insns" using assms by (simp add: unat_of_nat)
  have "round_up_pages (bpf_prog_size (length insns)) \<le> 16" using assms by (simp add: round_up_pages_def bpf_prog_size_def)
  then have "(of_nat (round_up_pages (bpf_prog_size (length insns))) :: u64) \<le> 16" by (simp add: word_le_nat_alt unat_of_nat)
  then show ?thesis using assms cnt by (simp add: sock_load_def ex_le_def ex_la_def prog_boot_def boot_def over_limit_def)
qed

lemma ex_loaded:
  obtains s where "bpf_prog_load ex_le (ex_la 1 (ex_grow 505)) prog_boot = (Ok 3, s)" and "prog_step prog_start (\<lambda>_. 0, \<lambda>_. 0, s)"
    and "fds (psys s) 3 = Some (ProgFile 0)" and "\<exists>kp. progs s 0 = Some kp \<and> kp_type kp = PROG_TYPE_SOCKET_FILTER"
proof -
  have "sock_load ex_le (ex_la 1 (ex_grow 505)) prog_boot (ex_grow 505)" by (rule ex_sock_load) simp
  from ex_grow_load [OF this, of 3] obtain s where s: "bpf_prog_load ex_le (ex_la 1 (ex_grow 505)) prog_boot = (Ok 3, s)" "fds (psys s) 3 = Some (ProgFile 0)"
      "\<exists>kp. progs s 0 = Some kp \<and> kp_type kp = PROG_TYPE_SOCKET_FILTER" by (auto simp: ex_le_def prog_boot_def)
  moreover have "prog_step prog_start (\<lambda>_. 0, \<lambda>_. 0, s)"
    by (rule prog_step.load [OF s(1)]) (simp_all add: fd_free_def ex_le_def prog_boot_def boot_def)
  ultimately show thesis using that by blast
qed

lemma ex_closed:
  obtains s where "prog_step\<^sup>*\<^sup>* prog_start (\<lambda>_. 0, \<lambda>_. 0, s)" and "prog_rcu s = [0]"
proof -
  have l: "sock_load ex_le (ex_la 1 (ex_grow 505)) prog_boot (ex_grow 505)" by (rule ex_sock_load) simp
  have fd: "le_fd ex_le = Ok 3" "fds (psys prog_boot) 3 = None" by (simp_all add: ex_le_def prog_boot_def boot_def)
  from grow_close [OF prog_boot_inv l fd] obtain s1 s2 where s: "bpf_prog_load ex_le (ex_la 1 (ex_grow 505)) prog_boot = (Ok 3, s1)"
      "bpf_prog_fd_release 3 s1 = Ok s2" "prog_rcu s2 = [0]" by (auto simp: prog_boot_def)
  have "prog_step prog_start (\<lambda>_. 0, \<lambda>_. 0, s1)" using ex_loaded s(1) by (metis Pair_inject)
  moreover have "prog_step (\<lambda>_. 0, \<lambda>_. 0, s1) (\<lambda>_. 0, \<lambda>_. 0, s2)" by (rule prog_step.close_prog [OF s(2)])
  ultimately show thesis using that s(3) by (meson r_into_rtranclp rtranclp.rtrancl_into_rtrancl)
qed



theorem unreferenced_program_freed_witness: "\<exists>s s'. prog_rcu s = [0] \<and> prog_step\<^sup>*\<^sup>* (\<lambda>_. 0, \<lambda>_. 0, s) (\<lambda>_. 0, \<lambda>_. 0, s') \<and> progs s' 0 = None"
proof -
  obtain s where s: "prog_step\<^sup>*\<^sup>* prog_start (\<lambda>_. 0, \<lambda>_. 0, s)" "prog_rcu s = [0]" by (rule ex_closed)
  have "kprog_ok (\<lambda>_. 0) s 0" using prog_invD(2) [OF prog_reachable_inv [OF s(1)]] .
  then obtain kp where "progs s 0 = Some kp" "prog_refs s 0 = {}" using s(2) by (auto simp: kprog_ok_def split: option.splits if_splits)
  from unreferenced_program_freed [OF s(1) this refl] show ?thesis using s(2) by blast
qed



theorem dead_call_crashes_witness: "fst (bpf_prog_load ex_le (ex_la 1 ex_dead) prog_boot) = Undef BadMem"
  by (rule dead_call_crashes [OF ex_sock_load]) (simp add: ex_dead_def)

theorem growth_underflows_witness: "\<exists>s1 s2 s3. bpf_prog_load ex_le (ex_la 1 (ex_grow 505)) prog_boot = (Ok 3, s1) \<and>
    bpf_prog_fd_release 3 s1 = Ok s2 \<and> prog_put_common 0 (s2\<lparr>prog_rcu := []\<rparr>) = Ok s3 \<and> locked_vm (psys s3) 1000 = - 1"
proof -
  have l: "sock_load ex_le (ex_la 1 (ex_grow 505)) prog_boot (ex_grow 505)" by (rule ex_sock_load) simp
  have fd: "le_fd ex_le = Ok 3" "fds (psys prog_boot) 3 = None" by (simp_all add: ex_le_def prog_boot_def boot_def)
  from growth_underflows [OF rtranclp.rtrancl_refl l fd] obtain s1 s2 s3 where
      "bpf_prog_load ex_le (ex_la 1 (ex_grow 505)) prog_boot = (Ok 3, s1)" "bpf_prog_fd_release 3 s1 = Ok s2"
      "prog_put_common 0 (s2\<lparr>prog_rcu := []\<rparr>) = Ok s3" "locked_vm (psys s3) 1000 = - 1"
    by (auto simp: prog_boot_def boot_def ex_le_def)
  then show ?thesis by blast
qed

end
