(* ===== verification/Bpf_Tail_Call.thy ===== *)
theory Bpf_Tail_Call
  imports Bpf_Prog_Load
begin

text \<open>
  What can run: every live program passed the verifier, and tail calls stay among programs of one kind: whoever uses an array of programs and
  whoever is stored in it have the type and the way of execution the array was claimed for (\<open>bpf_prog_array_compatible\<close>, the
  comment at \<open>struct bpf_array\<close>).
\<close>

section \<open>Verified programs\<close>

text \<open>A program is verified when its instructions are those some call of \<open>bpf_check\<close> for its type and licence returned, with the calls bound
  to helper functions, and its maps those that call took references on.\<close>

definition verified_by :: "load_env \<Rightarrow> prog_sys \<Rightarrow> load_attr \<Rightarrow> verifier_maps \<Rightarrow> bpf_insn list \<Rightarrow> verifier_prog \<Rightarrow> bpf_prog_info \<Rightarrow> kprog \<Rightarrow> bool" where
  "verified_by E s0 A v insns ops pr kp \<longleftrightarrow> (\<exists>conv v' dst. find_prog_type E (kp_gpl kp) s0 (la_type A) = Ok (ops, conv) \<and> kp_type kp = prog_type ops \<and>
     la_insns A (unat (la_insn_cnt A)) = Some insns \<and>
     bpf_check ops conv (le_addr E) (le_shared E) (le_check E) (la_log A) insns v = (Ok pr, v') \<and>
     pr_used_maps kp = pr_used_maps pr \<and> fixup_bpf_calls (get_func_proto ops) (le_func E) (pr_insns pr) = Ok (pr_insns kp, dst))"

definition verified :: "kprog \<Rightarrow> bool" where
  "verified kp \<longleftrightarrow> (\<exists>E s0 A v insns ops pr. verified_by E s0 A v insns ops pr kp)"

lemma verified_type: "verified kp \<Longrightarrow> kp_type kp \<noteq> PROG_TYPE_UNSPEC"
  unfolding verified_def verified_by_def by (metis find_prog_type_known)

section \<open>The owner of an array\<close>

definition fits :: "parray \<Rightarrow> kprog \<Rightarrow> bool" where
  "fits pa kp \<longleftrightarrow> pa_owner_type pa = kp_type kp \<and> pa_owner_jited pa = kp_jited kp"

definition linked :: "nat \<Rightarrow> parray \<Rightarrow> nat \<Rightarrow> kprog \<Rightarrow> bool" where
  "linked m pa p kp \<longleftrightarrow> Some p \<in> set (pa_ptrs pa) \<or> m \<in> set (pr_used_maps kp)"

text \<open>Programs in \<open>X\<close> are still being loaded, those on the work list are gone.\<close>

definition tail_ok :: "nat set \<Rightarrow> prog_sys \<Rightarrow> bool" where
  "tail_ok X s \<longleftrightarrow> (\<forall>p kp. progs s p = Some kp \<and> p \<notin> set (prog_work s) \<union> X \<longrightarrow>
     verified kp \<and> (\<forall>m pa. parrays s m = Some pa \<and> linked m pa p kp \<longrightarrow> fits pa kp)) \<and>
     (\<forall>m pa. parrays s m = Some pa \<longrightarrow> length (pa_ptrs pa) < 0x100000000)"

lemma tail_okD:
  "tail_ok X s \<Longrightarrow> progs s p = Some kp \<Longrightarrow> p \<notin> set (prog_work s) \<Longrightarrow> p \<notin> X \<Longrightarrow> kp_type kp \<noteq> PROG_TYPE_UNSPEC"
  "tail_ok X s \<Longrightarrow> progs s p = Some kp \<Longrightarrow> p \<notin> set (prog_work s) \<Longrightarrow> p \<notin> X \<Longrightarrow> parrays s m = Some pa \<Longrightarrow> linked m pa p kp \<Longrightarrow> fits pa kp"
  "tail_ok X s \<Longrightarrow> parrays s m = Some pa \<Longrightarrow> length (pa_ptrs pa) < 0x100000000"
  "tail_ok X s \<Longrightarrow> progs s p = Some kp \<Longrightarrow> p \<notin> set (prog_work s) \<Longrightarrow> p \<notin> X \<Longrightarrow> verified kp"
  by (simp_all add: tail_ok_def verified_type)

text \<open>A step that neither adds programs nor links them to arrays, nor changes owners.\<close>

definition kind :: "kprog \<Rightarrow> bpf_prog_type \<times> bool \<times> bool \<times> nat list \<times> bpf_insn list" where
  "kind kp = (kp_type kp, kp_jited kp, kp_gpl kp, pr_used_maps kp, pr_insns kp)"

lemma verified_kind: "kind kp = kind k \<Longrightarrow> verified kp = verified k"
  by (simp add: kind_def verified_def verified_by_def)

definition tame :: "prog_sys \<Rightarrow> prog_sys \<Rightarrow> bool" where
  "tame s s' \<longleftrightarrow>
     (\<forall>p kp'. progs s' p = Some kp' \<and> p \<notin> set (prog_work s') \<longrightarrow> (\<exists>kp. progs s p = Some kp \<and> p \<notin> set (prog_work s) \<and> kind kp' = kind kp)) \<and>
     (\<forall>m pa'. parrays s' m = Some pa' \<longrightarrow> (\<exists>pa. parrays s m = Some pa \<and> pa_owner_type pa' = pa_owner_type pa \<and>
        pa_owner_jited pa' = pa_owner_jited pa \<and> length (pa_ptrs pa') = length (pa_ptrs pa) \<and> (\<forall>p. Some p \<in> set (pa_ptrs pa') \<longrightarrow> Some p \<in> set (pa_ptrs pa))))"

lemma tame_refl [simp, intro]: "tame s s"
  by (simp add: tame_def)

lemma tame_prog:
  assumes "tame s s'" and "progs s' p = Some kp'" and "p \<notin> set (prog_work s')"
  obtains kp where "progs s p = Some kp" and "p \<notin> set (prog_work s)" and "kind kp' = kind kp"
  using assms unfolding tame_def by blast

lemma tame_array:
  assumes "tame s s'" and "parrays s' m = Some pa'"
  obtains pa where "parrays s m = Some pa" and "pa_owner_type pa' = pa_owner_type pa" and "pa_owner_jited pa' = pa_owner_jited pa"
    and "length (pa_ptrs pa') = length (pa_ptrs pa)" and "\<And>p. Some p \<in> set (pa_ptrs pa') \<Longrightarrow> Some p \<in> set (pa_ptrs pa)"
  using assms unfolding tame_def by blast

lemma tameI:
  assumes "\<And>p kp'. progs s' p = Some kp' \<Longrightarrow> p \<notin> set (prog_work s') \<Longrightarrow> \<exists>kp. progs s p = Some kp \<and> p \<notin> set (prog_work s) \<and> kind kp' = kind kp"
    and "\<And>m pa'. parrays s' m = Some pa' \<Longrightarrow> \<exists>pa. parrays s m = Some pa \<and> pa_owner_type pa' = pa_owner_type pa \<and>
        pa_owner_jited pa' = pa_owner_jited pa \<and> length (pa_ptrs pa') = length (pa_ptrs pa) \<and> (\<forall>p. Some p \<in> set (pa_ptrs pa') \<longrightarrow> Some p \<in> set (pa_ptrs pa))"
  shows "tame s s'"
  using assms by (simp add: tame_def)

lemma tame_trans:
  assumes "tame s t" and "tame t u"
  shows "tame s u"
proof (rule tameI)
  fix p kp assume "progs u p = Some kp" "p \<notin> set (prog_work u)"
  then obtain k2 where k2: "progs t p = Some k2" "p \<notin> set (prog_work t)" "kind kp = kind k2" by (rule tame_prog [OF assms(2)])
  show "\<exists>kp'. progs s p = Some kp' \<and> p \<notin> set (prog_work s) \<and> kind kp = kind kp'" by (rule tame_prog [OF assms(1) k2(1,2)]) (simp add: k2(3))
next
  fix m pa assume "parrays u m = Some pa"
  then obtain p2 where p2: "parrays t m = Some p2" "pa_owner_type pa = pa_owner_type p2" "pa_owner_jited pa = pa_owner_jited p2"
      "length (pa_ptrs pa) = length (pa_ptrs p2)" "\<And>p. Some p \<in> set (pa_ptrs pa) \<Longrightarrow> Some p \<in> set (pa_ptrs p2)" by (rule tame_array [OF assms(2)]) blast
  show "\<exists>pa'. parrays s m = Some pa' \<and> pa_owner_type pa = pa_owner_type pa' \<and> pa_owner_jited pa = pa_owner_jited pa' \<and>
      length (pa_ptrs pa) = length (pa_ptrs pa') \<and> (\<forall>p. Some p \<in> set (pa_ptrs pa) \<longrightarrow> Some p \<in> set (pa_ptrs pa'))" by (rule tame_array [OF assms(1) p2(1)]) (simp add: p2)
qed

lemma tail_okI:
  assumes "\<And>p kp. progs s p = Some kp \<Longrightarrow> p \<notin> set (prog_work s) \<Longrightarrow> p \<notin> X \<Longrightarrow> verified kp"
    and "\<And>p kp m pa. progs s p = Some kp \<Longrightarrow> p \<notin> set (prog_work s) \<Longrightarrow> p \<notin> X \<Longrightarrow> parrays s m = Some pa \<Longrightarrow> linked m pa p kp \<Longrightarrow> fits pa kp"
    and "\<And>m pa. parrays s m = Some pa \<Longrightarrow> length (pa_ptrs pa) < 0x100000000"
  shows "tail_ok X s"
  unfolding tail_ok_def using assms by blast

lemma tame_ok:
  assumes "tame s s'" and "tail_ok X s"
  shows "tail_ok X s'"
proof (rule tail_okI)
  fix p kp assume "progs s' p = Some kp" "p \<notin> set (prog_work s')" and X: "p \<notin> X"
  then obtain k where k: "progs s p = Some k" "p \<notin> set (prog_work s)" "kind kp = kind k" using tame_prog [OF assms(1)] by blast
  show "verified kp" using tail_okD(4) [OF assms(2) k(1,2) X] verified_kind [OF k(3)] by simp
  fix m pa' assume "parrays s' m = Some pa'" and l: "linked m pa' p kp"
  then obtain pa where pa: "parrays s m = Some pa" "pa_owner_type pa' = pa_owner_type pa" "pa_owner_jited pa' = pa_owner_jited pa"
      "\<And>p. Some p \<in> set (pa_ptrs pa') \<Longrightarrow> Some p \<in> set (pa_ptrs pa)" using tame_array [OF assms(1)] by blast
  have "linked m pa p k" using l pa(4) k(3) by (auto simp: linked_def kind_def)
  from tail_okD(2) [OF assms(2) k(1,2) X pa(1) this] show "fits pa' kp" using pa(2,3) k(3) by (simp add: fits_def kind_def)
next
  fix m pa' assume "parrays s' m = Some pa'"
  then obtain pa where "parrays s m = Some pa" "length (pa_ptrs pa') = length (pa_ptrs pa)" using tame_array [OF assms(1)] by metis
  then show "length (pa_ptrs pa') < 0x100000000" using tail_okD(3) [OF assms(2)] by simp
qed

lemma tame_same:
  "progs s' = progs s \<Longrightarrow> prog_work s' = prog_work s \<Longrightarrow> parrays s' = parrays s \<Longrightarrow> tame s s'"
  by (simp add: tame_def)

lemma tame_sys [simp, intro]: "tame s (set_sys t s)" "tame s (s\<lparr>pv := v\<rparr>)" "tame s (s\<lparr>prog_rcu := xs\<rparr>)"
  by (auto intro: tame_same)

lemma tame_upd: "(\<And>kp. kind (f kp) = kind kp) \<Longrightarrow> tame s (upd_kprog p f s)"
  by (auto simp: tame_def split: if_splits)

section \<open>Releasing\<close>

lemma tame_put_common: "prog_put_common p s = Ok s' \<Longrightarrow> tame s s'"
  by (auto simp: prog_put_common_def free_used_maps_def bpf_prog_uncharge_memlock_def bpf_prog_schedule_free_def Let_def tame_def split: option.splits)

lemma tame_dec: "dec_and_test p s = Ok (z, s') \<Longrightarrow> tame s s'"
  by (auto simp: dec_and_test_def split: option.splits intro!: tame_upd simp: kind_def)

lemma tame_put_rcu: "bpf_prog_put_rcu p s = Ok s' \<Longrightarrow> tame s s'"
  by (auto simp: bpf_prog_put_rcu_def dest!: tame_dec intro: tame_trans [OF _ tame_sys(3)])

lemma tame_put: "bpf_prog_put p s = Ok s' \<Longrightarrow> tame s s'"
  by (auto simp: bpf_prog_put_def dest!: tame_dec tame_put_common intro: tame_trans split: if_splits)

lemma tame_get: "bpf_prog_get shared ufd s = (r, s') \<Longrightarrow> tame s s'"
  by (auto simp: bpf_prog_get_def split: result.splits option.splits prod.splits intro!: tame_trans [OF tame_sys(2) tame_upd] simp: kind_def)

lemma tame_free_deferred: "p \<notin> set xs \<Longrightarrow> p \<in> set (prog_work s) \<Longrightarrow> set (prog_work s) = insert p (set xs) \<Longrightarrow>
    bpf_prog_free_deferred p (s\<lparr>prog_work := xs\<rparr>) = Ok s' \<Longrightarrow> tame s s'"
  by (auto simp: bpf_prog_free_deferred_def tame_def split: option.splits if_splits)

lemma tame_xchg_None: "xchg_ptr m i None s = Ok (old, s') \<Longrightarrow> tame s s'"
  by (auto simp: xchg_ptr_def tame_def split: option.splits if_splits dest!: set_update_subset_insert [THEN subsetD])

lemma tame_delete: "fd_array_delete m i s = (r, s') \<Longrightarrow> tame s s'"
  by (auto simp: fd_array_delete_def split: option.splits result.splits if_splits dest!: tame_xchg_None tame_put_rcu intro: tame_trans)

lemma tame_clear_loop: "clear_loop m xs s = Ok s' \<Longrightarrow> tame s s'"
  by (induction xs arbitrary: s) (auto split: prod.splits result.splits dest!: tame_delete intro: tame_trans)

lemma tame_map_put_uref: "map_put_uref m s = Ok s' \<Longrightarrow> tame s s'"
  by (auto simp: map_put_uref_def bpf_fd_array_map_clear_def Let_def split: option.splits if_splits dest!: tame_clear_loop
      intro: tame_trans [OF tame_sys(1)])

lemma tame_map_put: "map_put_with_uref m s = Ok s' \<Longrightarrow> tame s s'"
  by (auto simp: map_put_with_uref_def lift_sys_def dest!: tame_map_put_uref intro: tame_trans [OF _ tame_sys(1)])

lemma tame_map_release: "map_fd_release fd s = Ok s' \<Longrightarrow> tame s s'"
  by (auto simp: map_fd_release_def split: option.splits bpf_file.splits dest!: tame_map_put intro: tame_trans [OF tame_sys(1)])

lemma tame_map_free: "map_free_deferred m s = Some (Ok s') \<Longrightarrow> tame s s'"
  by (auto simp: map_free_deferred_def fd_array_map_free_def sbind_eq_Some_Ok_iff Let_def tame_def split: option.splits if_splits)

lemma tame_sys_delete: "sys_map_delete_elem bad ufd ok1 ukey s = Some (r, s') \<Longrightarrow> tame s s'"
  by (auto simp: sys_map_delete_elem_def fd_array_map_delete_elem_def split: if_splits option.splits result.splits dest!: tame_delete)

section \<open>Claiming an array\<close>

lemma claim_ok:
  assumes "tail_ok X s" and "parrays s m = Some pa" and "bpf_prog_array_compatible pa kp = (c, pa')" and "kp_type kp \<noteq> PROG_TYPE_UNSPEC"
  shows "tail_ok X (s\<lparr>parrays := (parrays s)(m \<mapsto> pa')\<rparr>)" and "c \<Longrightarrow> fits pa' kp" and "pa_ptrs pa' = pa_ptrs pa"
    and "fits pa k \<Longrightarrow> kp_type k \<noteq> PROG_TYPE_UNSPEC \<Longrightarrow> pa' = pa"
proof -
  show ptrs: "pa_ptrs pa' = pa_ptrs pa" and "c \<Longrightarrow> fits pa' kp" and "fits pa k \<Longrightarrow> kp_type k \<noteq> PROG_TYPE_UNSPEC \<Longrightarrow> pa' = pa"
    using assms(3) by (auto simp: bpf_prog_array_compatible_def fits_def split: if_splits)
  show "tail_ok X (s\<lparr>parrays := (parrays s)(m \<mapsto> pa')\<rparr>)"
  proof (cases "pa_owner_type pa = PROG_TYPE_UNSPEC")
    case True
    have "\<not> linked m pa' p k" if "progs s p = Some k" "p \<notin> set (prog_work s)" "p \<notin> X" for p k
      using tail_okD(1,2) [OF assms(1) that] True assms(2) ptrs by (auto simp: linked_def fits_def)
    then show ?thesis using assms(1) ptrs tail_okD(3) [OF assms(1,2)] by (intro tail_okI) (auto simp: tail_okD split: if_splits)
  next
    case False
    then have "pa' = pa" using assms(3) by (auto simp: bpf_prog_array_compatible_def)
    then have "(parrays s)(m \<mapsto> pa') = parrays s" using assms(2) by (simp add: fun_upd_idem)
    then show ?thesis using assms(1) by simp
  qed
qed

lemma store_ok:
  assumes "tail_ok X s" and "xchg_ptr m i (Some p) s = Ok (old, s')" and "\<And>pa kp. parrays s m = Some pa \<Longrightarrow> progs s p = Some kp \<Longrightarrow> fits pa kp"
  shows "tail_ok X s'"
proof -
  obtain pa where pa: "parrays s m = Some pa" "s' = s\<lparr>parrays := (parrays s)(m \<mapsto> pa\<lparr>pa_ptrs := (pa_ptrs pa)[i := Some p]\<rparr>)\<rparr>"
    using assms(2) by (auto simp: xchg_ptr_def split: option.splits if_splits)
  let ?pa = "pa\<lparr>pa_ptrs := (pa_ptrs pa)[i := Some p]\<rparr>"
  have "fits ?pa k" if k: "progs s q = Some k" "q \<notin> set (prog_work s)" "q \<notin> X" and l: "linked m ?pa q k" for q k
  proof (cases "q = p")
    case True
    then show ?thesis using assms(3) [OF pa(1)] k(1) by (simp add: fits_def)
  next
    case False
    then have "linked m pa q k" using l by (auto simp: linked_def dest!: set_update_subset_insert [THEN subsetD])
    then show ?thesis using tail_okD(2) [OF assms(1) k pa(1)] by (simp add: fits_def)
  qed
  then show ?thesis using assms(1) tail_okD(3) [OF assms(1) pa(1)] unfolding pa(2) by (intro tail_okI) (auto simp: tail_okD split: if_splits)
qed

lemma get_ptr_ok:
  assumes "prog_inv uh ph s" and "tail_ok {} s" and "prog_fd_array_get_ptr shared m fd s = (r, s')"
  shows "tail_ok {} s' \<and> (\<forall>p. r = Ok p \<longrightarrow> (\<forall>pa kp. parrays s' m = Some pa \<longrightarrow> progs s' p = Some kp \<longrightarrow> fits pa kp))"
proof -
  obtain r1 s1 where get: "bpf_prog_get shared fd s = (r1, s1)" by fastforce
  have ok: "tail_ok {} s1" by (rule tame_ok [OF tame_get [OF get] assms(2)])
  show ?thesis
  proof (cases r1)
    case (Ok p)
    show ?thesis
    proof (cases "\<exists>kp pa. progs s1 p = Some kp \<and> parrays s1 m = Some pa")
      case True
      then obtain kp pa where kp: "progs s1 p = Some kp" "parrays s1 m = Some pa" by blast
      obtain c pa' where c: "bpf_prog_array_compatible pa kp = (c, pa')" by fastforce
      have inv: "prog_inv uh (ph(p := Suc (ph p))) s1" using prog_get_inv [OF assms(1), of shared fd] get Ok by auto
      have "p \<notin> set (prog_work s1)" using held_alive [OF inv, of p] by auto
      then have type: "kp_type kp \<noteq> PROG_TYPE_UNSPEC" using tail_okD(1) [OF ok kp(1)] by simp
      note claim = claim_ok [OF ok kp(2) c type]
      let ?s = "s1\<lparr>parrays := (parrays s1)(m \<mapsto> pa')\<rparr>"
      show ?thesis
      proof (cases c)
        case True
        then have "r = Ok p" "s' = ?s" using assms(3) get Ok kp c by (auto simp: prog_fd_array_get_ptr_def Let_def)
        then show ?thesis using claim(1) claim(2) [OF True] kp(1) by simp
      next
        case False
        then have res: "(case bpf_prog_put p ?s of Ok s \<Rightarrow> (Err EINVAL, s) | Err e \<Rightarrow> (Err e, ?s) | Undef u \<Rightarrow> (Undef u, ?s)) = (r, s')"
          using assms(3) get Ok kp c by (auto simp: prog_fd_array_get_ptr_def Let_def)
        then show ?thesis using claim(1) tame_ok [OF tame_put] by (auto split: result.splits)
      qed
    next
      case False
      then show ?thesis using assms(3) get Ok ok by (auto simp: prog_fd_array_get_ptr_def split: option.splits)
    qed
  qed (use assms(3) get ok in \<open>auto simp: prog_fd_array_get_ptr_def\<close>)
qed

lemma update_ok:
  assumes "prog_inv uh ph s" and "tail_ok {} s" and "fd_array_map_update_elem shared m key val flags s = (r, s')"
  shows "tail_ok {} s'"
proof -
  define r1 s1 where "r1 fd = fst (prog_fd_array_get_ptr shared m fd s)" and "s1 fd = snd (prog_fd_array_get_ptr shared m fd s)" for fd
  then have get: "prog_fd_array_get_ptr shared m fd s = (r1 fd, s1 fd)" for fd by simp
  note ok = get_ptr_ok [OF assms(1,2) get]
  have store: "tail_ok {} s2" if "r1 fd = Ok p" "xchg_ptr m i (Some p) (s1 fd) = Ok (old, s2)" for fd p i old s2
    using store_ok [OF _ that(2)] ok [of fd] that(1) by blast
  show ?thesis using assms(2,3) ok store tame_ok [OF tame_put_rcu]
    by (auto simp: fd_array_map_update_elem_def get split: option.splits result.splits if_splits)
qed

lemma sys_update_ok:
  assumes "prog_inv uh ph s" and "tail_ok {} s" and "sys_map_update_elem shared bad ufd ok1 ok2 ok3 ukey uval flags s = Some (r, s')"
  shows "tail_ok {} s'"
  using assms(2,3) update_ok [OF assms(1,2)] tame_ok [OF tame_sys(1) assms(2)]
  by (auto simp: sys_map_update_elem_def split: if_splits option.splits result.splits)

section \<open>Loading\<close>

lemma loading_ok:
  assumes "tail_ok X s"
  shows "tail_ok (insert (prog_next s) X) (add_prog kp s)" and "tail_ok X ((add_prog kp s)\<lparr>prog_work := prog_next s # prog_work s\<rparr>)"
    and "p \<in> X \<Longrightarrow> tail_ok X (upd_kprog p f s)"
  using assms by (auto intro!: tail_okI simp: tail_okD split: if_splits)

lemma retired_ok: "tail_ok {p} s \<Longrightarrow> p \<in> set (prog_work s) \<Longrightarrow> tail_ok {} s"
  unfolding tail_ok_def by blast

lemma release_no_Err: "release_maps ms t \<noteq> Err e"
  by (induction ms arbitrary: t) (auto simp: bpf_map_put_def Let_def split: option.splits if_splits)

lemma load_free_ok:
  assumes "tail_ok {p} s" and "\<forall>u. r \<noteq> Undef u"
  shows "load_free_prog p e s = (r, s') \<Longrightarrow> tail_ok {} s'" and "load_free_used_maps p e s = (r, s') \<Longrightarrow> tail_ok {} s'"
proof -
  have free: "tail_ok {} s'" if t: "tail_ok {p} t" and l: "load_free_prog p e t = (r, s')" for t
  proof -
    obtain t' where s': "s' = (set_sys t' t)\<lparr>prog_work := p # prog_work t\<rparr>"
      using l assms(2) by (auto simp: load_free_prog_def bpf_prog_uncharge_memlock_def bpf_prog_schedule_free_def Let_def split: option.splits)
    have "tail_ok {p} s'" using tame_ok [OF _ t, of s'] by (auto simp: s' tame_def)
    then show ?thesis by (rule retired_ok) (simp add: s')
  qed
  then show "load_free_prog p e s = (r, s') \<Longrightarrow> tail_ok {} s'" using assms(1) .
  show "load_free_used_maps p e s = (r, s') \<Longrightarrow> tail_ok {} s'"
    using free tame_ok [OF tame_sys(1) assms(1)] assms(2) release_no_Err
    by (auto simp: load_free_used_maps_def free_used_maps_def elim!: rbind.elims split: option.splits result.splits)
qed

text \<open>Arrays that fit a program go on to fit it while others are claimed.\<close>

definition keeps :: "kprog \<Rightarrow> prog_sys \<Rightarrow> prog_sys \<Rightarrow> bool" where
  "keeps fp s s' \<longleftrightarrow> (\<forall>m pa'. parrays s' m = Some pa' \<longrightarrow> (\<exists>pa. parrays s m = Some pa \<and> pa_ptrs pa' = pa_ptrs pa \<and> (fits pa fp \<longrightarrow> fits pa' fp)))"

lemma tail_call_ok:
  "kp_type fp \<noteq> PROG_TYPE_UNSPEC \<Longrightarrow> tail_ok X s \<Longrightarrow> bpf_check_tail_call fp ms s = (r, s') \<Longrightarrow>
    tail_ok X s' \<and> keeps fp s s' \<and> (\<forall>m pa. r = Ok () \<and> m \<in> set ms \<and> parrays s' m = Some pa \<longrightarrow> fits pa fp)"
proof (induction fp ms s arbitrary: r s' rule: bpf_check_tail_call.induct)
  case (2 fp m ms s)
  show ?case
  proof (cases "parrays s m")
    case None
    then have r: "bpf_check_tail_call fp ms s = (r, s')" using "2.prems" by simp
    note IH = "2.IH"(1) [OF None "2.prems"(1,2) r]
    have "parrays s' m = None" using IH None unfolding keeps_def by (metis option.distinct(1) option.exhaust)
    then show ?thesis using IH by auto
  next
    case (Some pa)
    obtain c pa' where c: "bpf_prog_array_compatible pa fp = (c, pa')" by fastforce
    let ?s = "s\<lparr>parrays := (parrays s)(m \<mapsto> pa')\<rparr>"
    note claim = claim_ok [OF "2.prems"(2) Some c "2.prems"(1)]
    have k: "keeps fp s ?s" using Some claim(3,4) "2.prems"(1) by (auto simp: keeps_def)
    show ?thesis
    proof (cases c)
      case True
      then have "bpf_check_tail_call fp ms ?s = (r, s')" using "2.prems" Some c by (simp add: Let_def)
      note IH = "2.IH"(2) [OF Some c [symmetric] refl True "2.prems"(1) claim(1) this]
      have "fits pa2 fp" if "parrays s' m = Some pa2" for pa2 using IH that claim(2) [OF True] by (auto simp: keeps_def dest: spec [of _ m])
      moreover have "keeps fp s s'" using k IH unfolding keeps_def by metis
      ultimately show ?thesis using IH by auto
    next
      case False
      then have "s' = ?s" "r = Err EINVAL" using "2.prems" Some c by (simp_all add: Let_def)
      then show ?thesis using k claim(1) by simp
    qed
  qed
qed (auto simp: keeps_def)

text \<open>From the check of tail calls to the descriptor; no slot holds the new program.\<close>

definition unstored :: "nat \<Rightarrow> prog_sys \<Rightarrow> bool" where
  "unstored p s \<longleftrightarrow> (\<forall>m pa. parrays s m = Some pa \<longrightarrow> Some p \<notin> set (pa_ptrs pa))"

lemma load_finish_ok':
  assumes "tail_ok {p} s" and "progs s p = Some kp" and "unstored p s"
    and ver: "\<And>insns' dst. fixup_bpf_calls (get_func_proto ops) (le_func E) insns = Ok (insns', dst) \<Longrightarrow> verified (kp\<lparr>pr_insns := insns'\<rparr>)"
    and "load_finish E ops p insns s = (r, s')" and "\<forall>u. r \<noteq> Undef u"
  shows "tail_ok {} s'"
proof -
  obtain insns' dst where fx: "fixup_bpf_calls (get_func_proto ops) (le_func E) insns = Ok (insns', dst)"
    using assms(5,6) fixup_no_Err [of "get_func_proto ops" "le_func E" insns]
    by (cases "fixup_bpf_calls (get_func_proto ops) (le_func E) insns") (auto simp: load_finish_def)
  let ?t = "upd_kprog p (\<lambda>k. k\<lparr>pr_insns := insns', kp_dst_needed := dst\<rparr>) s"
  let ?s = "upd_kprog p (\<lambda>k. k\<lparr>kp_jited := kp_jited k \<or> le_jit E\<rparr>) ?t"
  let ?fp = "kp\<lparr>pr_insns := insns', kp_dst_needed := dst, kp_jited := kp_jited kp \<or> le_jit E\<rparr>"
  have vfp: "verified ?fp" using ver [OF fx] by (simp add: verified_def verified_by_def)
  have fp: "progs ?s p = Some ?fp" "kp_type ?fp \<noteq> PROG_TYPE_UNSPEC" using assms(2) verified_type [OF vfp] by simp_all
  have ok: "tail_ok {p} ?s" using loading_ok(3) [OF loading_ok(3) [OF assms(1)]] by blast
  obtain r1 s1 where s1: "bpf_check_tail_call ?fp (pr_used_maps ?fp) ?s = (r1, s1)" by fastforce
  then have sel: "bpf_prog_select_runtime (le_jit E) p ?t = (r1, s1)" unfolding bpf_prog_select_runtime_def Let_def by (simp only: fp(1) option.case)
  note chk = tail_call_ok [OF fp(2) ok s1] and frame = tail_call_frame [OF s1]
  consider (err) e where "load_free_used_maps p e s1 = (r, s')" | (ok) t where "r1 = Ok ()" "s' = set_sys t s1"
    using assms(5,6) fx sel frame by (cases r1; cases "le_fd E"; cases r) (auto simp: load_finish_def bpf_prog_new_fd_def)
  then show ?thesis
  proof cases
    case err
    then show ?thesis using load_free_ok(2) [OF _ assms(6)] chk by blast
  next
    case ok
    have p: "progs s1 p = Some ?fp" using frame fp(1) by simp
    have uns: "unstored p s1" using chk assms(3) unfolding unstored_def keeps_def by fastforce
    have "tail_ok {} s1"
    proof (rule tail_okI)
      fix q k m pa assume q: "progs s1 q = Some k" "q \<notin> set (prog_work s1)"
      show "verified k" using q p vfp chk by (cases "q = p") (auto simp: tail_okD)
      assume pa: "parrays s1 m = Some pa" "linked m pa q k"
      show "fits pa k"
      proof (cases "q = p")
        case True
        then have "k = ?fp" "m \<in> set (pr_used_maps ?fp)" using p q(1) pa uns by (auto simp: linked_def unstored_def)
        then show ?thesis using chk ok(1) pa(1) by blast
      next
        case False
        then show ?thesis using tail_okD(2) [of "{p}" s1 q k m pa] chk q pa by simp
      qed
    qed (use chk tail_okD(3) in blast)
    then show ?thesis unfolding ok(2) by (rule tame_ok [OF tame_sys(1)])
  qed
qed

lemma load_check_ok':
  assumes "tail_ok {p} s" and "progs s p = Some kp" and "unstored p s" and "find_prog_type E (kp_gpl kp) s0 (la_type A) = Ok (ops, conv)"
    and "kp_type kp = prog_type ops" and "la_insns A (unat (la_insn_cnt A)) = Some insns"
    and "load_check E A ops conv p insns s = (r, s')" and "\<forall>u. r \<noteq> Undef u"
  shows "tail_ok {} s'"
proof -
  define pages where "pages = check_pages ops conv (le_addr E) (le_shared E) (le_check E) (la_log A) insns (pv s)"
  obtain r1 v where chk: "bpf_check ops conv (le_addr E) (le_shared E) (le_check E) (la_log A) insns (pv s) = (r1, v)" by fastforce
  let ?s = "upd_kprog p (\<lambda>k. k\<lparr>kp_pages := pages (kp_pages k)\<rparr>) (s\<lparr>pv := v\<rparr>)"
  note res = assms(7) [unfolded load_check_def chk, folded pages_def]
  have ok: "tail_ok {p} ?s" by (rule loading_ok(3) [OF tame_ok [OF tame_sys(2) assms(1)]]) simp
  show ?thesis
  proof (cases r1)
    case (Err e)
    then show ?thesis using res load_free_ok(2) [OF ok assms(8)] by (simp add: Let_def)
  next
    case (Ok pr)
    let ?f = "\<lambda>k. k\<lparr>pr_insns := pr_insns pr, pr_cb_access := pr_cb_access pr, pr_used_maps := pr_used_maps pr\<rparr>"
    have ok2: "tail_ok {p} (upd_kprog p ?f ?s)" by (rule loading_ok(3) [OF ok]) simp
    have "load_finish E ops p (pr_insns pr) (upd_kprog p ?f ?s) = (r, s')" using res Ok by (simp add: Let_def)
    note fin = load_finish_ok' [OF ok2 _ _ _ this assms(8)]
    show ?thesis
    proof (rule fin)
      show "progs (upd_kprog p ?f ?s) p = Some (?f (kp\<lparr>kp_pages := pages (kp_pages kp)\<rparr>))" "unstored p (upd_kprog p ?f ?s)"
        using assms(2,3) by (simp_all add: unstored_def)
      show "verified (?f (kp\<lparr>kp_pages := pages (kp_pages kp)\<rparr>)\<lparr>pr_insns := insns'\<rparr>)"
        if "fixup_bpf_calls (get_func_proto ops) (le_func E) (pr_insns pr) = Ok (insns', dst)" for insns' dst
        using that chk Ok assms(4-6) unfolding verified_def verified_by_def by fastforce
    qed
  next
    case (Undef u)
    then show ?thesis using res assms(8) by (auto simp: Let_def)
  qed
qed

lemma load_tail_ok:
  assumes "prog_inv uh ph s" and "tail_ok {} s" and "bpf_prog_load E A s = (r, s')" and "\<forall>u. r \<noteq> Undef u"
  shows "tail_ok {} s'"
proof -
  let ?c = "charged_sys (le_user E) (load_pages A) s" and ?p = "prog_next s"
  have c: "tail_ok {} ?c" by (rule tame_ok [OF tame_sys(1) assms(2)])
  have l: "tail_ok {?p} (add_prog kp ?c)" for kp using loading_ok(1) [OF c, of kp] by simp
  have uns: "unstored ?p (add_prog kp ?c)" for kp
    using fresh_prog(2) [OF assms(1)] by (auto simp: unstored_def prog_refs_def in_set_conv_nth)
  show ?thesis using assms(3)
  proof (cases rule: load_cases)
    case refused
    then show ?thesis using assms(2) by simp
  next
    case denied
    show ?thesis unfolding denied(2) by (rule loading_ok(2) [OF assms(2)])
  next
    case (unreadable kp)
    show ?thesis unfolding unreadable(2) by (rule loading_ok(2) [OF assms(2)])
  next
    case (unknown e kp)
    show ?thesis by (rule load_free_ok(1) [OF l assms(4) unknown(1)])
  next
    case (checked ops conv insns kp s0)
    have "progs (add_prog kp ?c) ?p = Some kp" by simp
    from load_check_ok' [OF l this uns checked(8,7,6,1) assms(4)] show ?thesis .
  qed
qed

section \<open>Every step\<close>

lemma create_array_ok:
  assumes "prog_inv uh ph s" and "tail_ok {} s" and "prog_array_create bad oks h0 user limit fd_res attr s = Some (r, s')"
  shows "tail_ok {} s'"
proof -
  let ?m = "map_next (psys s)"
  have fresh: "?m \<notin> set (pr_used_maps kp)" if "progs s p = Some kp" "p \<notin> set (prog_work s)" for p kp
    using used_map_alive [OF assms(1) that, of ?m] fresh_map [OF prog_invD(1) [OF assms(1)]] by auto
  have new: "tail_ok {} (set_sys t (s\<lparr>parrays := (parrays s)(?m \<mapsto> pa)\<rparr>))" if "\<forall>ptr \<in> set (pa_ptrs pa). ptr = None" "length (pa_ptrs pa) < 0x100000000" for t pa
    by (rule tail_okI) (use assms(2) fresh that in \<open>auto simp: tail_okD linked_def split: if_splits\<close>)
  have size: "length (replicate (unat (at_max_entries attr)) None) < 0x100000000" using unsigned_less [of "at_max_entries attr"] by simp
  show ?thesis using assms(2,3) new size tame_ok [OF tame_sys(1) assms(2)]
    by (auto simp: prog_array_create_def split: if_splits option.splits result.splits)
qed

lemma prog_step_tail_ok: "prog_step (uh, ph, s) (uh', ph', s') \<Longrightarrow> prog_inv uh ph s \<Longrightarrow> tail_ok {} s \<Longrightarrow> tail_ok {} s'"
proof (induction "(uh, ph, s)" "(uh', ph', s')" rule: prog_step.induct)
  case (create attr_bad type oks h0 user limit fd_res attr r t)
  then show ?case using tame_ok [OF tame_sys(1)] by blast
next
  case (create_array attr_bad oks h0 user limit fd_res attr r)
  then show ?case using create_array_ok by blast
next
  case (get_map ufd m t)
  then show ?case using tame_ok [OF tame_sys(1)] by blast
next
  case (put_map m)
  then show ?case using tame_ok [OF tame_map_put] by blast
next
  case (close_map fd)
  then show ?case using tame_ok [OF tame_map_release] by blast
next
  case (update shared attr_bad ufd ok1 ok2 ok3 ukey uvalue flags r)
  then show ?case using sys_update_ok by blast
next
  case (delete attr_bad ufd ok1 ukey r)
  then show ?case using tame_ok [OF tame_sys_delete] by blast
next
  case (free_map xs m ys)
  then show ?case using tame_ok [OF tame_map_free tame_ok [OF tame_sys(1)]] by blast
next
  case (load E A r)
  then show ?case using load_tail_ok by blast
next
  case (get_prog shared ufd p)
  then show ?case using tame_ok [OF tame_get] by blast
next
  case (put_prog p)
  then show ?case using tame_ok [OF tame_put] by blast
next
  case (put_prog_rcu p)
  then show ?case using tame_ok [OF tame_put_rcu] by blast
next
  case (close_prog fd)
  then show ?case using tame_ok [OF tame_put_rcu tame_ok [OF tame_sys(1)]]
    by (auto simp: bpf_prog_fd_release_def split: option.splits bpf_file.splits)
next
  case (grace_period xs p ys)
  then show ?case using tame_ok [OF tame_put_common tame_ok [OF tame_sys(3)]] by blast
next
  case (free_prog xs p ys)
  have "distinct (xs @ p # ys)" using prog_invD(5) [OF free_prog.prems(1)] free_prog(1) by simp
  then have "tame s s'" using free_prog(1) tame_free_deferred [OF _ _ _ free_prog(2)] by simp
  then show ?case using tame_ok free_prog.prems(2) by blast
qed

lemma reachable_tail_ok: "prog_step\<^sup>*\<^sup>* prog_start (uh, ph, s) \<Longrightarrow> tail_ok {} s"
proof (induction "(uh, ph, s)" arbitrary: uh ph s rule: rtranclp_induct)
  case base
  then show ?case by (simp add: tail_ok_def prog_boot_def)
next
  case (step y)
  obtain uh' ph' t where y: "y = (uh', ph', t)" by (cases y)
  have "prog_inv uh' ph' t" using step(1) unfolding y by (rule prog_reachable_inv)
  then show ?case using prog_step_tail_ok [OF step(2) [unfolded y]] step(3) [OF y] by blast
qed

section \<open>What a tail call reaches\<close>

text \<open>An array of programs as the interpreter sees it: \<open>max_entries\<close> and \<open>ptrs\<close>.\<close>

definition array_env :: "prog_sys \<Rightarrow> nat \<Rightarrow> (u32 \<times> (u64 \<Rightarrow> bpf_insn list option)) option" where
  "array_env s m =
     map_option (\<lambda>pa. (of_nat (length (pa_ptrs pa)), \<lambda>index. case pa_ptrs pa ! unat index of None \<Rightarrow> None | Some p \<Rightarrow> map_option pr_insns (progs s p)))
       (parrays s m)"

lemma slot_alive:
  "prog_inv uh ph s \<Longrightarrow> parrays s m = Some pa \<Longrightarrow> Some q \<in> set (pa_ptrs pa) \<Longrightarrow> \<exists>kq. progs s q = Some kq \<and> 0 < kp_refcnt kq \<and> q \<notin> set (prog_work s)"
  using held_alive_ref(2) [of uh ph s] unfolding in_set_conv_nth by metis

lemma linked_same:
  assumes "prog_inv uh ph s" and "tail_ok {} s" and "progs s p = Some kp" and "p \<notin> set (prog_work s)" and "parrays s m = Some pa"
    and "m \<in> set (pr_used_maps kp)" and "Some q \<in> set (pa_ptrs pa)" and "progs s q = Some kq"
  shows "kp_type kq = kp_type kp \<and> kp_jited kq = kp_jited kp \<and> 0 < kp_refcnt kq"
proof -
  have q: "q \<notin> set (prog_work s)" "0 < kp_refcnt kq" using slot_alive [OF assms(1,5,7)] assms(8) by auto
  have "fits pa kp" using tail_okD(2) [OF assms(2-4) _ assms(5)] assms(6) by (simp add: linked_def)
  moreover have "fits pa kq" using tail_okD(2) [OF assms(2,8) q(1) _ assms(5)] assms(7) by (simp add: linked_def)
  ultimately show ?thesis using q(2) by (simp add: fits_def)
qed



section \<open>A program that calls itself\<close>

definition ex_tail :: "bpf_insn list" where
  "ex_tail = [BPF_RAW_INSN (BPF_LD OR BPF_IMM OR BPF_DW) 2 BPF_PSEUDO_MAP_FD 0 4, BPF_RAW_INSN 0 0 0 0 0, BPF_MOV32_IMM 3 0,
     BPF_RAW_INSN (BPF_JMP OR BPF_CALL) 0 0 0 12, BPF_MOV32_IMM 0 0, BPF_EXIT_INSN]"

definition ex_bound :: "bpf_insn list" where
  "ex_bound = ex_tail[0 := BPF_RAW_INSN (BPF_LD OR BPF_IMM OR BPF_DW) 2 BPF_PSEUDO_MAP_FD 0 0x1000]"

definition ex_tail_le :: load_env where
  "ex_tail_le = ex_le\<lparr>le_addr := \<lambda>_. 0x1000\<rparr>"

definition ex_parray_attr :: bpf_attr where
  "ex_parray_attr = \<lparr>at_key_size = 4, at_value_size = 4, at_max_entries = 1\<rparr>"

lemma ex_parray:
  obtains s where "prog_array_create False [True, True] ex_h0 0 100 (Ok 4) ex_parray_attr prog_boot = Some (Ok 4, s)"
    and "fds (psys s) = [4 \<mapsto> MapFile 0]" and "parrays s = [0 \<mapsto> \<lparr>pa_ptrs = [None], pa_owner_type = PROG_TYPE_UNSPEC, pa_owner_jited = False\<rparr>]"
    and "prog_next s = 0" and "locked_vm (psys s) 1000 = 0" and "\<exists>km. maps (psys s) 0 = Some km"
proof -
  have "is_ok (array_map_alloc True True ex_parray_attr)" by code_simp
  then obtain a where a: "array_map_alloc True True ex_parray_attr = Ok a" by (auto simp: is_ok_iff)
  have "case array_map_alloc True True ex_parray_attr of Ok a \<Rightarrow> uint (ar_pages a) = 1 | _ \<Rightarrow> False" by code_simp
  then have "\<not> over_limit (uint (ar_pages a)) 100" using a by (simp add: over_limit_def)
  then obtain t where t: "map_create False BPF_MAP_TYPE_ARRAY [True, True] ex_h0 0 100 (Ok 4) ex_parray_attr boot = Some (Ok 4, t)"
      "fds t = [4 \<mapsto> MapFile 0]" "locked_vm t 1000 = 0" "\<exists>km. maps t 0 = Some km" using a
    by (auto simp: map_create_def find_and_alloc_map_def bpf_map_charge_memlock_def bpf_map_new_fd_def boot_def upd_map_def Let_def)
  let ?pa = "\<lparr>pa_ptrs = [None], pa_owner_type = PROG_TYPE_UNSPEC, pa_owner_jited = False\<rparr>"
  let ?s = "set_sys t (prog_boot\<lparr>parrays := [0 \<mapsto> ?pa]\<rparr>)"
  have "map_next boot = 0" "psys prog_boot = boot" "parrays prog_boot = Map.empty" by (simp_all add: boot_def prog_boot_def)
  then have "prog_array_create False [True, True] ex_h0 0 100 (Ok 4) ex_parray_attr prog_boot = Some (Ok 4, ?s)"
    using t(1) unfolding prog_array_create_def by (simp add: ex_parray_attr_def)
  then show thesis by (rule that) (use t in \<open>simp_all add: prog_boot_def\<close>)
qed

lemmas call_defs = check_ld_imm_def ld_imm64_def check_call_def check_func_arg_def check_map_func_compatibility_def func_limit_def
  reset_caller_saved_def sk_filter_func_proto_def bpf_tail_call_proto_def set_imm_def

lemma ex_tail_check:
  "check_cfg True True ex_bound (replicate (length ex_bound) False) = Ok ([False, False, False, False, False, False])"
  "mi_map_type (info 0x1000) = 3 \<Longrightarrow> do_check (sk_filter_ops admin gpl info) (\<lambda>_. True) (\<lambda>_. True) ex_bound ([False, False, False, False, False, False]) = Ok ex_bound"
  "convert_ctx_accesses (Some conv) (\<lambda>_. True) ex_bound False = Ok (ex_bound, False)"
proof -
  show "check_cfg True True ex_bound (replicate (length ex_bound) False) = Ok ([False, False, False, False, False, False])" by code_simp
  show "do_check (sk_filter_ops admin gpl info) (\<lambda>_. True) (\<lambda>_. True) ex_bound ([False, False, False, False, False, False]) = Ok ex_bound" if "mi_map_type (info 0x1000) = 3"
    using that by (simp add: do_check_def check_loop.simps check_defs call_defs ex_bound_def ex_tail_def sk_filter_ops_def)
  show "convert_ctx_accesses (Some conv) (\<lambda>_. True) ex_bound False = Ok (ex_bound, False)"
    by (simp add: convert_ctx_accesses_def ctx_loop.simps ex_bound_def ex_tail_def bpf_macros bpf_fields Let_def)
qed

text \<open>A filter that uses maps and passes the verifier.\<close>

lemma load_bound:
  assumes "sock_load E A s insns" and "insns \<noteq> []"
    and "replace_map_fd_with_map_ptr (le_addr E) (le_shared E) insns ((pv (charged_sys (le_user E) (load_pages A) s))\<lparr>used_maps := []\<rparr>) = (Ok bound, v1)"
    and "used_maps v1 \<noteq> []" and "check_cfg True True bound (replicate (length bound) False) = Ok marked"
    and "do_check (sock_ops E A s) (\<lambda>_. True) (\<lambda>_. True) bound marked = Ok res"
    and "convert_ctx_accesses (Some (sock_conv E)) (\<lambda>_. True) res False = Ok (final, cb)"
  shows "\<exists>s2 kp. bpf_prog_load E A s = load_finish E (sock_ops E A s) (prog_next s) (convert_pseudo_ld_imm64 final) s2 \<and>
    progs s2 (prog_next s) = Some kp \<and> pr_used_maps kp = used_maps v1 \<and> pv s2 = v1 \<and> parrays s2 = parrays s"
proof -
  let ?c = "charged_sys (le_user E) (load_pages A) s" and ?p = "prog_next s"
  obtain kp where kp: "bpf_prog_load E A s = load_check E A (sock_ops E A s) (Some (sock_conv E)) ?p insns (add_prog kp ?c)"
    using load_sock [OF assms(1)] by blast
  have A: "la_log A = no_log" "le_check E = ex_orc" "length insns < 4096" using assms(1) by (auto simp: sock_load_def)
  let ?pr = "\<lparr>pr_insns = convert_pseudo_ld_imm64 final, pr_cb_access = cb, pr_used_maps = used_maps v1\<rparr>"
  have "full_check (sock_ops E A s) (Some (sock_conv E)) ex_orc bound = Ok (final, cb)" using assms(5-7) by (simp add: full_check_def ex_orc_def)
  then have r: "rbind (finish_log ex_orc no_log (rbind (Ok bound) (full_check (sock_ops E A s) (Some (sock_conv E)) ex_orc))) (keep_maps ex_orc (used_maps v1)) = Ok ?pr"
    using assms(4) by (simp add: finish_log_def no_log_def keep_maps_def ex_orc_def)
  have "ck_env ex_orc" "log_error ex_orc no_log = None" by (simp_all add: ex_orc_def log_error_def no_log_def)
  then have free: "bpf_check (sock_ops E A s) (Some (sock_conv E)) (le_addr E) (le_shared E) ex_orc no_log insns (pv ?c) =
      free_env (rbind (finish_log ex_orc no_log (rbind (Ok bound) (full_check (sock_ops E A s) (Some (sock_conv E)) ex_orc))) (keep_maps ex_orc (used_maps v1))) v1"
    using assms(2,3) A(3) unfolding bpf_check_def Let_def by simp
  have chk: "bpf_check (sock_ops E A s) (Some (sock_conv E)) (le_addr E) (le_shared E) ex_orc no_log insns (pv ?c) = (Ok ?pr, v1)"
    unfolding free r using assms(4) by (simp add: free_env_def)
  have pv: "pv (add_prog kp ?c) = pv ?c" by simp
  let ?s2 = "\<lambda>pages. upd_kprog ?p (\<lambda>k. k\<lparr>pr_insns := pr_insns ?pr, pr_cb_access := cb, pr_used_maps := used_maps v1\<rparr>)
      (upd_kprog ?p (\<lambda>k. k\<lparr>kp_pages := pages (kp_pages k)\<rparr>) ((add_prog kp ?c)\<lparr>pv := v1\<rparr>))"
  have "\<exists>pages. bpf_prog_load E A s = load_finish E (sock_ops E A s) ?p (convert_pseudo_ld_imm64 final) (?s2 pages)"
    unfolding kp load_check_def A(1,2) pv chk Let_def by (rule exI) simp
  then obtain pages where "bpf_prog_load E A s = load_finish E (sock_ops E A s) ?p (convert_pseudo_ld_imm64 final) (?s2 pages)" ..
  then show ?thesis by (intro exI [of _ "?s2 pages"]) simp
qed

lemma ex_sock_load_at:
  assumes "locked_vm (psys s) 1000 = 0"
  shows "sock_load ex_tail_le (ex_la 1 ex_tail) s ex_tail"
proof -
  have "(of_nat (round_up_pages (bpf_prog_size 6)) :: u64) = 1" by (simp add: round_up_pages_def bpf_prog_size_def)
  then show ?thesis using assms by (simp add: sock_load_def ex_tail_le_def ex_le_def ex_la_def over_limit_def ex_tail_def)
qed

lemma ex_tail_loaded:
  assumes "fds (psys s) = [4 \<mapsto> MapFile 0]" and "parrays s = [0 \<mapsto> \<lparr>pa_ptrs = [None], pa_owner_type = PROG_TYPE_UNSPEC, pa_owner_jited = False\<rparr>]"
    and "prog_next s = 0" and "locked_vm (psys s) 1000 = 0" and "maps (psys s) 0 = Some km"
  shows "\<exists>s1 kp. bpf_prog_load ex_tail_le (ex_la 1 ex_tail) s = (Ok 3, s1) \<and> fds (psys s1) = [4 \<mapsto> MapFile 0, 3 \<mapsto> ProgFile 0] \<and>
    progs s1 0 = Some kp \<and> pr_used_maps kp = [0] \<and> parrays s1 = [0 \<mapsto> \<lparr>pa_ptrs = [None], pa_owner_type = kp_type kp, pa_owner_jited = kp_jited kp\<rparr>]"
proof -
  let ?c = "charged_sys (le_user ex_tail_le) (load_pages (ex_la 1 ex_tail)) s"
  obtain v1 where rep: "replace_map_fd_with_map_ptr (le_addr ex_tail_le) (le_shared ex_tail_le) ex_tail ((pv ?c)\<lparr>used_maps := []\<rparr>) = (Ok ex_bound, v1)"
      "used_maps v1 = [0]" "fds (vsys v1) = fds (psys s)"
    using assms(1) by (simp add: replace_map_fd_with_map_ptr_def ex_tail_def ex_bound_def ex_tail_le_def ex_le_def replace_insn_def map_of_fd_def bpf_map_inc_def
        upd_map_def bpf_fields bpf_macros Let_def)
  have type: "mi_map_type (map_info_at ex_tail_le s 0x1000) = 3"
    using assms(2,5) by (simp add: map_info_at_def ex_tail_le_def ex_le_def map_type_of_def)
  have ne: "ex_tail \<noteq> []" "used_maps v1 \<noteq> []" using rep(2) by (simp_all add: ex_tail_def)
  obtain s2 kp where s2: "bpf_prog_load ex_tail_le (ex_la 1 ex_tail) s =
      load_finish ex_tail_le (sock_ops ex_tail_le (ex_la 1 ex_tail) s) 0 (convert_pseudo_ld_imm64 ex_bound) s2" "progs s2 0 = Some kp"
      "pr_used_maps kp = [0]" "pv s2 = v1" "parrays s2 = parrays s"
    using load_bound [OF ex_sock_load_at [OF assms(4)] ne(1) rep(1) ne(2) ex_tail_check(1) ex_tail_check(2) [where info = "map_info_at ex_tail_le s", OF type] ex_tail_check(3)] rep(2) assms(3) by auto
  obtain insns' where fx: "fixup_bpf_calls (Some (sk_filter_func_proto admin)) func (convert_pseudo_ld_imm64 ex_bound) = Ok (insns', False)" for admin func
    by (simp add: convert_pseudo_ld_imm64_def ex_bound_def ex_tail_def fixup_insn_def bpf_macros bpf_fields)
  show ?thesis unfolding s2(1) load_finish_def bpf_prog_select_runtime_def sk_filter_ops_def using fx s2(2-5) assms(1,2) rep(3)
    by (simp add: Let_def bpf_prog_array_compatible_def bpf_prog_new_fd_def ex_tail_le_def ex_le_def)
qed

lemma ex_tail_stored:
  assumes "fds (psys s) = [4 \<mapsto> MapFile 0, 3 \<mapsto> ProgFile 0]" and "progs s 0 = Some kp" and "pr_used_maps kp = [0]"
    and "parrays s = [0 \<mapsto> \<lparr>pa_ptrs = [None], pa_owner_type = kp_type kp, pa_owner_jited = kp_jited kp\<rparr>]"
  shows "\<exists>s' kp' pa. sys_map_update_elem False False 4 True True True (ex_user [0, 0, 0, 0]) (ex_user [3, 0, 0, 0]) 0 s = Some (Ok (), s') \<and>
    progs s' 0 = Some kp' \<and> pr_used_maps kp' = [0] \<and> parrays s' 0 = Some pa \<and> pa_ptrs pa = [Some 0] \<and> prog_work s' = prog_work s"
proof -
  have idx: "key_index [0, 0, 0, 0] = Ok 0" "key_index [3, 0, 0, 0] = Ok 3" by code_simp+
  let ?pa = "\<lparr>pa_ptrs = [None], pa_owner_type = kp_type kp, pa_owner_jited = kp_jited kp\<rparr>"
  obtain t where get: "bpf_prog_get False 3 s = (Ok 0, t)" "progs t 0 = Some (kp\<lparr>kp_refcnt := kp_refcnt kp + 1\<rparr>)" "parrays t = parrays s" "prog_work t = prog_work s"
    using assms(1,2) by (simp add: bpf_prog_get_def prog_of_fd_def)
  have ptr: "prog_fd_array_get_ptr False 0 3 s = (Ok 0, t)"
    unfolding prog_fd_array_get_ptr_def get(1) using get(2,3) assms(4) by (auto simp: bpf_prog_array_compatible_def Let_def fun_upd_idem)
  let ?s = "t\<lparr>parrays := (parrays t)(0 \<mapsto> ?pa\<lparr>pa_ptrs := [Some 0]\<rparr>)\<rparr>"
  have "xchg_ptr 0 0 (Some 0) t = Ok (None, ?s)" using get(3) assms(4) by (simp add: xchg_ptr_def)
  then have "fd_array_map_update_elem False 0 [0, 0, 0, 0] [3, 0, 0, 0] 0 s = (Ok (), ?s)"
    using assms(4) idx ptr by (simp add: fd_array_map_update_elem_def)
  then have "sys_map_update_elem False False 4 True True True (ex_user [0, 0, 0, 0]) (ex_user [3, 0, 0, 0]) 0 s = Some (Ok (), ?s)"
    using assms(1,4) by (simp add: sys_map_update_elem_def bpf_map_get_def ex_user_def)
  then show ?thesis using get assms(3) by (intro exI [of _ ?s]) simp
qed

lemma ex_tail_reached:
  obtains s kp pa where "prog_step\<^sup>*\<^sup>* prog_start (\<lambda>_. 0, \<lambda>_. 0, s)" and "progs s 0 = Some kp" and "0 \<notin> set (prog_work s)" and "pr_used_maps kp = [0]"
    and "parrays s 0 = Some pa" and "pa_ptrs pa = [Some 0]"
proof -
  obtain s0 where s0: "prog_array_create False [True, True] ex_h0 0 100 (Ok 4) ex_parray_attr prog_boot = Some (Ok 4, s0)"
      "fds (psys s0) = [4 \<mapsto> MapFile 0]" "parrays s0 = [0 \<mapsto> \<lparr>pa_ptrs = [None], pa_owner_type = PROG_TYPE_UNSPEC, pa_owner_jited = False\<rparr>]"
      "prog_next s0 = 0" "locked_vm (psys s0) 1000 = 0" "\<exists>km. maps (psys s0) 0 = Some km" by (rule ex_parray)
  obtain s1 kp where s1: "bpf_prog_load ex_tail_le (ex_la 1 ex_tail) s0 = (Ok 3, s1)" "fds (psys s1) = [4 \<mapsto> MapFile 0, 3 \<mapsto> ProgFile 0]"
      "progs s1 0 = Some kp" "pr_used_maps kp = [0]" "parrays s1 = [0 \<mapsto> \<lparr>pa_ptrs = [None], pa_owner_type = kp_type kp, pa_owner_jited = kp_jited kp\<rparr>]"
    using ex_tail_loaded [OF s0(2-5)] s0(6) by blast
  obtain s2 kp' pa where s2: "sys_map_update_elem False False 4 True True True (ex_user [0, 0, 0, 0]) (ex_user [3, 0, 0, 0]) 0 s1 = Some (Ok (), s2)"
      "progs s2 0 = Some kp'" "pr_used_maps kp' = [0]" "parrays s2 0 = Some pa" "pa_ptrs pa = [Some 0]" using ex_tail_stored [OF s1(2-5)] by blast
  have "prog_step prog_start (\<lambda>_. 0, \<lambda>_. 0, s0)" by (rule prog_step.create_array [OF s0(1)]) (simp add: fd_free_def prog_boot_def boot_def)
  moreover have "prog_step (\<lambda>_. 0, \<lambda>_. 0, s0) (\<lambda>_. 0, \<lambda>_. 0, s1)"
    by (rule prog_step.load [OF s1(1)]) (simp_all add: fd_free_def ex_tail_le_def ex_le_def s0(2))
  moreover have "prog_step (\<lambda>_. 0, \<lambda>_. 0, s1) (\<lambda>_. 0, \<lambda>_. 0, s2)"
    by (rule prog_step.update [OF s2(1)]) (simp_all add: user_mem_def ex_user_def)
  ultimately have r: "prog_step\<^sup>*\<^sup>* prog_start (\<lambda>_. 0, \<lambda>_. 0, s2)" by (meson converse_rtranclp_into_rtranclp r_into_rtranclp)
  have "0 \<notin> set (prog_work s2)" using slot_alive [OF prog_reachable_inv [OF r] s2(4), of 0] s2(5) by auto
  then show thesis using that [OF r s2(2) _ s2(3-5)] by blast
qed



end
