(* ===== verification/Sk_Bpf.thy ===== *)
theory Sk_Bpf
  imports Bpf_Tail_Call
begin

text \<open>
  Internal programs attached to sockets (\<open>sk_attach_bpf\<close> of \<^verbatim>\<open>net/core/filter.c\<close> and the socket options of
  \<^verbatim>\<open>net/core/sock.c\<close>): a filter object holds a reference on its program and is shared by the sockets cloned from one another. Together with
  the life of programs this shows what a socket runs: a live, verified socket filter.
\<close>

section \<open>State\<close>

text \<open>\<open>struct sk_filter\<close>, the filter part of \<open>struct sock\<close>, and the filters that wait for a grace period.\<close>

record bpf_filter =
  bf_refcnt :: int
  bf_prog :: nat

record bpf_sock =
  bs_filter :: "nat option"
  bs_omem :: u32
  bs_locked :: bool

record sock_sys =
  bsys :: prog_sys
  filters :: "nat \<Rightarrow> bpf_filter option"
  filter_next :: nat
  filter_rcu :: "nat list"
  bsocks :: "nat \<Rightarrow> bpf_sock option"

definition upd_bsock :: "nat \<Rightarrow> (bpf_sock \<Rightarrow> bpf_sock) \<Rightarrow> sock_sys \<Rightarrow> sock_sys" where
  "upd_bsock sk f s = s\<lparr>bsocks := (bsocks s)(sk := map_option f (bsocks s sk))\<rparr>"

definition upd_filter :: "nat \<Rightarrow> (bpf_filter \<Rightarrow> bpf_filter) \<Rightarrow> sock_sys \<Rightarrow> sock_sys" where
  "upd_filter f g s = s\<lparr>filters := (filters s)(f := map_option g (filters s f))\<rparr>"

section \<open>Operations\<close>

definition bpf_filter_size :: "nat \<Rightarrow> sock_sys \<Rightarrow> u32 result" where \<comment> \<open>\<open>bpf_prog_size(fp->prog->len)\<close>\<close>
  "bpf_filter_size f s =
     (case filters s f of None \<Rightarrow> Undef BadMem
      | Some fp \<Rightarrow> (case progs (bsys s) (bf_prog fp) of None \<Rightarrow> Undef BadMem | Some kp \<Rightarrow> Ok (of_nat (bpf_prog_size (length (pr_insns kp))))))"

definition bpf_filter_release :: "nat \<Rightarrow> sock_sys \<Rightarrow> sock_sys result" where \<comment> \<open>\<open>sk_filter_release\<close>\<close>
  "bpf_filter_release f s =
     (case filters s f of None \<Rightarrow> Undef BadMem
      | Some fp \<Rightarrow>
          (let s = upd_filter f (\<lambda>k. k\<lparr>bf_refcnt := bf_refcnt k - 1\<rparr>) s in
           Ok (if bf_refcnt fp - 1 = 0 then s\<lparr>filter_rcu := f # filter_rcu s\<rparr> else s)))"

definition bpf_filter_uncharge :: "nat \<Rightarrow> nat \<Rightarrow> sock_sys \<Rightarrow> sock_sys result" where \<comment> \<open>\<open>sk_filter_uncharge\<close>\<close>
  "bpf_filter_uncharge sk f s =
     rbind (bpf_filter_size f s) (\<lambda>sz. bpf_filter_release f (upd_bsock sk (\<lambda>k. k\<lparr>bs_omem := bs_omem k - sz\<rparr>) s))"

definition bpf_filter_charge :: "u32 \<Rightarrow> nat \<Rightarrow> nat \<Rightarrow> sock_sys \<Rightarrow> (bool \<times> sock_sys) result" where \<comment> \<open>\<open>sk_filter_charge\<close>\<close>
  "bpf_filter_charge optmem_max sk f s =
     rbind (bpf_filter_size f s) (\<lambda>sz.
       case bsocks s sk of None \<Rightarrow> Undef BadMem
       | Some so \<Rightarrow>
           (if sz \<le> optmem_max \<and> bs_omem so + sz < optmem_max
            then Ok (True, upd_bsock sk (\<lambda>k. k\<lparr>bs_omem := bs_omem k + sz\<rparr>) (upd_filter f (\<lambda>k. k\<lparr>bf_refcnt := bf_refcnt k + 1\<rparr>) s))
            else Ok (False, s)))"

definition attach_prog :: "bool \<Rightarrow> u32 \<Rightarrow> nat \<Rightarrow> nat \<Rightarrow> sock_sys \<Rightarrow> unit result \<times> sock_sys" where \<comment> \<open>\<open>__sk_attach_prog\<close>\<close>
  "attach_prog alloc_ok optmem_max p sk s =
     (if \<not> alloc_ok then (Err ENOMEM, s)
      else
        (let f = filter_next s; s = s\<lparr>filters := (filters s)(f \<mapsto> \<lparr>bf_refcnt = 0, bf_prog = p\<rparr>), filter_next := Suc f\<rparr> in
         case bpf_filter_charge optmem_max sk f s of
           Undef u \<Rightarrow> (Undef u, s)
         | Err e \<Rightarrow> (Err e, s)
         | Ok (False, s) \<Rightarrow> (Err ENOMEM, s\<lparr>filters := (filters s)(f := None)\<rparr>)
         | Ok (True, s) \<Rightarrow>
             (case bsocks s sk of None \<Rightarrow> (Undef BadMem, s)
              | Some so \<Rightarrow>
                  (let s = upd_bsock sk (\<lambda>k. k\<lparr>bs_filter := Some f\<rparr>) s in
                   case bs_filter so of None \<Rightarrow> (Ok (), s)
                   | Some old_fp \<Rightarrow>
                       (case bpf_filter_uncharge sk old_fp s of Ok s \<Rightarrow> (Ok (), s) | Err e \<Rightarrow> (Err e, s) | Undef u \<Rightarrow> (Undef u, s))))))"

definition put_and_fail :: "nat \<Rightarrow> errno \<Rightarrow> sock_sys \<Rightarrow> unit result \<times> sock_sys" where
  "put_and_fail p e s =
     (case bpf_prog_put p (bsys s) of Ok t \<Rightarrow> (Err e, s\<lparr>bsys := t\<rparr>) | Err e' \<Rightarrow> (Err e', s) | Undef u \<Rightarrow> (Undef u, s))"

definition sk_attach_bpf :: "bool \<Rightarrow> bool \<Rightarrow> u32 \<Rightarrow> nat \<Rightarrow> nat \<Rightarrow> sock_sys \<Rightarrow> unit result \<times> sock_sys" where
  "sk_attach_bpf shared alloc_ok optmem_max ufd sk s =
     (case bsocks s sk of None \<Rightarrow> (Undef BadMem, s)
      | Some so \<Rightarrow>
          (if bs_locked so then (Err EPERM, s)
           else
             (case bpf_prog_get shared ufd (bsys s) of
                (Err e, t) \<Rightarrow> (Err e, s\<lparr>bsys := t\<rparr>)
              | (Undef u, t) \<Rightarrow> (Undef u, s\<lparr>bsys := t\<rparr>)
              | (Ok p, t) \<Rightarrow>
                  (let s = s\<lparr>bsys := t\<rparr> in
                   case progs t p of None \<Rightarrow> (Undef BadMem, s)
                   | Some kp \<Rightarrow>
                       (if kp_type kp \<noteq> PROG_TYPE_SOCKET_FILTER then put_and_fail p EINVAL s
                        else
                          (case attach_prog alloc_ok optmem_max p sk s of
                             (Err e, s) \<Rightarrow> put_and_fail p e s
                           | r \<Rightarrow> r))))))"

definition detach_bpf :: "nat \<Rightarrow> sock_sys \<Rightarrow> unit result \<times> sock_sys" where \<comment> \<open>\<open>sk_detach_filter\<close>\<close>
  "detach_bpf sk s =
     (case bsocks s sk of None \<Rightarrow> (Undef BadMem, s)
      | Some so \<Rightarrow>
          (if bs_locked so then (Err EPERM, s)
           else
             (case bs_filter so of None \<Rightarrow> (Err ENOENT, s)
              | Some f \<Rightarrow>
                  (let s = upd_bsock sk (\<lambda>k. k\<lparr>bs_filter := None\<rparr>) s in
                   case bpf_filter_uncharge sk f s of Ok s \<Rightarrow> (Ok (), s) | Err e \<Rightarrow> (Err e, s) | Undef u \<Rightarrow> (Undef u, s)))))"

text \<open>\<open>sk_filter_release_rcu\<close> with \<open>__bpf_prog_release\<close>; programs loaded by the system call have no classic program to free.\<close>

definition filter_release_rcu :: "nat \<Rightarrow> sock_sys \<Rightarrow> sock_sys result" where
  "filter_release_rcu f s =
     (case filters s f of None \<Rightarrow> Undef BadMem
      | Some fp \<Rightarrow>
          (case progs (bsys s) (bf_prog fp) of None \<Rightarrow> Undef BadMem
           | Some kp \<Rightarrow>
               rbind (if kp_type kp = PROG_TYPE_SOCKET_FILTER then bpf_prog_put (bf_prog fp) (bsys s)
                      else Ok (bpf_prog_schedule_free (bf_prog fp) (bsys s))) (\<lambda>t.
                 Ok (s\<lparr>bsys := t, filters := (filters s)(f := None)\<rparr>))))"

text \<open>\<open>SO_LOCK_FILTER\<close>\<close>

definition lock_filter :: "bool \<Rightarrow> nat \<Rightarrow> sock_sys \<Rightarrow> unit result \<times> sock_sys" where
  "lock_filter valbool sk s =
     (case bsocks s sk of None \<Rightarrow> (Undef BadMem, s)
      | Some so \<Rightarrow>
          (if bs_locked so \<and> \<not> valbool then (Err EPERM, s) else (Ok (), upd_bsock sk (\<lambda>k. k\<lparr>bs_locked := valbool\<rparr>) s)))"

text \<open>\<open>sock_setsockopt\<close> on these options. \<open>uval\<close> and \<open>uval2\<close> are what the two reads of user memory return, if they succeed.\<close>

datatype filter_opt = SO_ATTACH_BPF | SO_DETACH_FILTER | SO_LOCK_FILTER

definition sock_setsockopt :: "bool \<Rightarrow> bool \<Rightarrow> u32 \<Rightarrow> filter_opt \<Rightarrow> nat \<Rightarrow> u32 option \<Rightarrow> u32 option \<Rightarrow> nat \<Rightarrow> sock_sys \<Rightarrow> unit result \<times> sock_sys" where
  "sock_setsockopt shared alloc_ok optmem_max optname optlen uval uval2 sk s =
     (if optlen < 4 then (Err EINVAL, s)
      else case uval of None \<Rightarrow> (Err EFAULT, s)
      | Some val \<Rightarrow>
          (case optname of
             SO_ATTACH_BPF \<Rightarrow>
               (if optlen = 4
                then (case uval2 of None \<Rightarrow> (Err EFAULT, s) | Some ufd \<Rightarrow> sk_attach_bpf shared alloc_ok optmem_max (unat ufd) sk s)
                else (Err EINVAL, s))
           | SO_DETACH_FILTER \<Rightarrow> detach_bpf sk s
           | SO_LOCK_FILTER \<Rightarrow> lock_filter (val \<noteq> 0) sk s))"

text \<open>The filter part of \<open>sk_destruct\<close>, after which the socket is gone, and of \<open>sk_clone_lock\<close> when the new socket can be charged.\<close>

definition close_bsock :: "nat \<Rightarrow> sock_sys \<Rightarrow> sock_sys result" where
  "close_bsock sk s =
     (case bsocks s sk of None \<Rightarrow> Undef BadMem
      | Some so \<Rightarrow>
          rbind (case bs_filter so of None \<Rightarrow> Ok s | Some f \<Rightarrow> bpf_filter_uncharge sk f s) (\<lambda>s.
            Ok (s\<lparr>bsocks := (bsocks s)(sk := None)\<rparr>)))"

definition clone_bsock :: "u32 \<Rightarrow> nat \<Rightarrow> nat \<Rightarrow> sock_sys \<Rightarrow> (bool \<times> sock_sys) result" where
  "clone_bsock optmem_max sk newsk s =
     (case bsocks s sk of None \<Rightarrow> Undef BadMem
      | Some so \<Rightarrow>
          (let s = s\<lparr>bsocks := (bsocks s)(newsk \<mapsto> so\<lparr>bs_omem := 0\<rparr>)\<rparr> in
           case bs_filter so of None \<Rightarrow> Ok (True, s) | Some f \<Rightarrow> bpf_filter_charge optmem_max newsk f s))"

section \<open>Invariant\<close>

definition filter_users :: "sock_sys \<Rightarrow> nat \<Rightarrow> nat set" where
  "filter_users s f = {sk. \<exists>so. bsocks s sk = Some so \<and> bs_filter so = Some f}"

definition filters_of :: "sock_sys \<Rightarrow> nat \<Rightarrow> nat set" where
  "filters_of s p = {f. \<exists>fp. filters s f = Some fp \<and> bf_prog fp = p}"

text \<open>\<open>x f\<close> counts the references on \<open>f\<close> that the operation under way holds, or has given up before the socket is changed. References on
  programs are held by filters and by \<open>oh\<close> others.\<close>

definition filter_ok :: "(nat \<Rightarrow> int) \<Rightarrow> sock_sys \<Rightarrow> nat \<Rightarrow> bool" where
  "filter_ok x s f \<longleftrightarrow>
     (case filters s f of
        None \<Rightarrow> filter_users s f = {} \<and> x f = 0 \<and> f \<notin> set (filter_rcu s)
      | Some fp \<Rightarrow> f < filter_next s \<and> bf_refcnt fp = int (card (filter_users s f)) + x f \<and> (bf_refcnt fp = 0 \<longleftrightarrow> f \<in> set (filter_rcu s)) \<and>
          (\<exists>kp. progs (bsys s) (bf_prog fp) = Some kp \<and> kp_type kp = PROG_TYPE_SOCKET_FILTER))"

definition sock_inv :: "(nat \<Rightarrow> int) \<Rightarrow> (nat \<Rightarrow> nat) \<Rightarrow> (nat \<Rightarrow> nat) \<Rightarrow> sock_sys \<Rightarrow> bool" where
  "sock_inv x uh oh s \<longleftrightarrow> prog_inv uh (\<lambda>p. oh p + card (filters_of s p)) (bsys s) \<and> tail_ok {} (bsys s) \<and> finite (dom (bsocks s)) \<and>
     (\<forall>f. filter_ok x s f) \<and> distinct (filter_rcu s)"

lemma sock_invD:
  assumes "sock_inv x uh oh s"
  shows "prog_inv uh (\<lambda>p. oh p + card (filters_of s p)) (bsys s)" "tail_ok {} (bsys s)" "finite (dom (bsocks s))" "filter_ok x s f" "distinct (filter_rcu s)"
  using assms by (simp_all add: sock_inv_def)

lemma sock_invI:
  "prog_inv uh (\<lambda>p. oh p + card (filters_of s p)) (bsys s) \<Longrightarrow> tail_ok {} (bsys s) \<Longrightarrow> finite (dom (bsocks s)) \<Longrightarrow> (\<And>f. filter_ok x s f) \<Longrightarrow>
    distinct (filter_rcu s) \<Longrightarrow> sock_inv x uh oh s"
  by (simp add: sock_inv_def)

lemma sock_inv_cong: "sock_inv x uh oh s \<Longrightarrow> (\<And>f. x f = y f) \<Longrightarrow> sock_inv y uh oh s"
  by (metis ext)

lemma finite_filter_users: "sock_inv x uh oh s \<Longrightarrow> finite (filter_users s f)"
  by (rule finite_subset [OF _ sock_invD(3)]) (auto simp: filter_users_def)

lemma filter_below: "sock_inv x uh oh s \<Longrightarrow> filters s f = Some fp \<Longrightarrow> f < filter_next s"
  using sock_invD(4) [of x uh oh s f] by (simp add: filter_ok_def)

lemma finite_filters_of: "sock_inv x uh oh s \<Longrightarrow> finite (filters_of s p)"
  by (rule finite_subset [of _ "{..<filter_next s}"]) (auto simp: filters_of_def dest: filter_below)

lemma fresh_filter: "sock_inv x uh oh s \<Longrightarrow> filters s (filter_next s) = None"
  using filter_below [of x uh oh s "filter_next s"] by (cases "filters s (filter_next s)") auto

lemma upd_simps [simp]:
  "bsys (upd_bsock sk g s) = bsys s" "filters (upd_bsock sk g s) = filters s" "filter_next (upd_bsock sk g s) = filter_next s"
  "filter_rcu (upd_bsock sk g s) = filter_rcu s" "bsocks (upd_filter f h s) = bsocks s" "bsys (upd_filter f h s) = bsys s"
  "filter_next (upd_filter f h s) = filter_next s" "filter_rcu (upd_filter f h s) = filter_rcu s"
  "bsocks (upd_bsock sk g s) k = (if k = sk then map_option g (bsocks s sk) else bsocks s k)"
  "filters (upd_filter f h s) k = (if k = f then map_option h (filters s f) else filters s k)"
  "(upd_filter f h s)\<lparr>filter_rcu := filter_rcu s\<rparr> = upd_filter f h s"
  by (simp_all add: upd_bsock_def upd_filter_def)

text \<open>A socket is opened, closed, or its filter changes.\<close>

definition filter_at :: "bpf_sock option \<Rightarrow> nat \<Rightarrow> int" where
  "filter_at so f = (case so of None \<Rightarrow> 0 | Some k \<Rightarrow> if bs_filter k = Some f then 1 else 0)"

lemma set_bsock_inv:
  assumes "sock_inv x uh oh s" and "\<And>k f. so = Some k \<Longrightarrow> bs_filter k = Some f \<Longrightarrow> filters s f \<noteq> None"
  shows "sock_inv (\<lambda>f. x f + filter_at (bsocks s sk) f - filter_at so f) uh oh (s\<lparr>bsocks := (bsocks s)(sk := so)\<rparr>)" (is "sock_inv ?x uh oh ?s")
proof (rule sock_invI)
  have same: "filters_of ?s = filters_of s" by (simp add: filters_of_def fun_eq_iff)
  show "prog_inv uh (\<lambda>p. oh p + card (filters_of ?s p)) (bsys ?s)" "tail_ok {} (bsys ?s)" "distinct (filter_rcu ?s)"
    using sock_invD [OF assms(1)] unfolding same by simp_all
  show "finite (dom (bsocks ?s))" using sock_invD(3) [OF assms(1)] by (auto intro: finite_subset [of _ "insert sk (dom (bsocks s))"] split: if_splits)
  fix f
  have users: "int (card (filter_users ?s f)) = int (card (filter_users s f)) - filter_at (bsocks s sk) f + filter_at so f"
  proof -
    define rest where "rest = filter_users s f - {sk}"
    have u: "filter_users s f = (if filter_at (bsocks s sk) f = 1 then insert sk rest else rest)" "filter_users ?s f = (if filter_at so f = 1 then insert sk rest else rest)"
      by (auto simp: rest_def filter_users_def filter_at_def split: option.splits if_splits)
    have rest: "finite rest" "sk \<notin> rest" using finite_filter_users [OF assms(1)] by (simp_all add: rest_def)
    have at: "filter_at b f = 0 \<or> filter_at b f = 1" for b by (auto simp: filter_at_def split: option.splits)
    show ?thesis unfolding u using rest at [of so] at [of "bsocks s sk"] by auto
  qed
  show "filter_ok ?x ?s f"
  proof (cases "filters s f")
    case None
    have "filter_users s f = {}" "x f = 0" "f \<notin> set (filter_rcu s)" using sock_invD(4) [OF assms(1), of f] None by (simp_all add: filter_ok_def)
    moreover have "filter_at (bsocks s sk) f = 0" using \<open>filter_users s f = {}\<close> by (auto simp: filter_users_def filter_at_def split: option.splits)
    moreover have so: "filter_at so f = 0" using assms(2) [of _ f] None by (cases so) (auto simp: filter_at_def)
    moreover have "filter_users ?s f = {}" using users calculation finite_subset [of "filter_users ?s f" "insert sk (filter_users s f)"]
      by (auto simp: filter_users_def filter_at_def split: option.splits if_splits)
    ultimately show ?thesis using None by (simp add: filter_ok_def)
  next
    case (Some fp)
    then show ?thesis using sock_invD(4) [OF assms(1), of f] users by (simp add: filter_ok_def, metis)
  qed
qed

text \<open>Counting references on a filter up and down.\<close>

lemma filter_ok_Some:
  "sock_inv x uh oh s \<Longrightarrow> filters s f = Some fp \<Longrightarrow> bf_refcnt fp = int (card (filter_users s f)) + x f \<and> (bf_refcnt fp = 0 \<longleftrightarrow> f \<in> set (filter_rcu s)) \<and>
    (\<exists>kp. progs (bsys s) (bf_prog fp) = Some kp \<and> kp_type kp = PROG_TYPE_SOCKET_FILTER)"
  using sock_invD(4) [of x uh oh s f] by (simp add: filter_ok_def, metis)

lemma count_inv:
  assumes "sock_inv x uh oh s" and "filters s f = Some fp" and "rcu' = (if bf_refcnt fp + d = 0 then f # filter_rcu s else filter_rcu s)" and "f \<notin> set (filter_rcu s)"
  shows "sock_inv (x(f := x f + d)) uh oh ((upd_filter f (\<lambda>k. k\<lparr>bf_refcnt := bf_refcnt k + d\<rparr>) s)\<lparr>filter_rcu := rcu'\<rparr>)" (is "sock_inv ?x uh oh ?s")
proof (rule sock_invI)
  have same: "filters_of ?s = filters_of s" using assms(2) by (auto simp: filters_of_def fun_eq_iff)
  show "prog_inv uh (\<lambda>p. oh p + card (filters_of ?s p)) (bsys ?s)" "tail_ok {} (bsys ?s)" "finite (dom (bsocks ?s))"
    using sock_invD [OF assms(1)] unfolding same by simp_all
  show "distinct (filter_rcu ?s)" using sock_invD(5) [OF assms(1)] assms(3,4) by simp
  have users: "filter_users ?s = filter_users s" by (simp add: filter_users_def fun_eq_iff)
  fix g
  show "filter_ok ?x ?s g" using sock_invD(4) [OF assms(1), of g] assms(2-4) unfolding filter_ok_def users by (cases "g = f") (auto split: option.splits)
qed

lemma release_inv:
  assumes "sock_inv x uh oh s" and "filters s f = Some fp" and "0 < bf_refcnt fp"
  shows "\<exists>s'. bpf_filter_release f s = Ok s' \<and> sock_inv (x(f := x f - 1)) uh oh s' \<and> bsocks s' = bsocks s \<and> bsys s' = bsys s \<and>
    (\<forall>g. map_option bf_prog (filters s' g) = map_option bf_prog (filters s g))"
proof -
  have nin: "f \<notin> set (filter_rcu s)" using filter_ok_Some [OF assms(1,2)] assms(3) by auto
  show ?thesis using count_inv [OF assms(1,2) refl nin, of "- 1"] assms(2) by (auto simp: bpf_filter_release_def Let_def)
qed

lemma size_ok: "sock_inv x uh oh s \<Longrightarrow> filters s f = Some fp \<Longrightarrow> \<exists>sz. bpf_filter_size f s = Ok sz"
  using filter_ok_Some [of x uh oh s f fp] by (auto simp: bpf_filter_size_def)

lemma omem_inv: "sock_inv x uh oh s \<Longrightarrow> sock_inv x uh oh (upd_bsock sk (\<lambda>k. k\<lparr>bs_omem := g k\<rparr>) s)"
proof -
  assume inv: "sock_inv x uh oh s"
  let ?so = "map_option (\<lambda>k. k\<lparr>bs_omem := g k\<rparr>) (bsocks s sk)"
  have ne: "filters s f \<noteq> None" if "?so = Some k" "bs_filter k = Some f" for k f
  proof
    assume "filters s f = None"
    then have "filter_users s f = {}" using sock_invD(4) [OF inv, of f] by (simp add: filter_ok_def)
    then show False using that by (auto simp: filter_users_def)
  qed
  have "sock_inv (\<lambda>f. x f + filter_at (bsocks s sk) f - filter_at ?so f) uh oh (s\<lparr>bsocks := (bsocks s)(sk := ?so)\<rparr>)"
    by (rule set_bsock_inv [OF inv ne])
  moreover have "filter_at ?so f = filter_at (bsocks s sk) f" for f by (cases "bsocks s sk") (simp_all add: filter_at_def)
  ultimately show ?thesis by (simp add: upd_bsock_def)
qed

lemma uncharge_inv:
  assumes "sock_inv x uh oh s" and "filters s f = Some fp" and "0 < bf_refcnt fp"
  shows "\<exists>s' sz. bpf_filter_uncharge sk f s = Ok s' \<and> sock_inv (x(f := x f - 1)) uh oh s' \<and> bsocks s' = bsocks (upd_bsock sk (\<lambda>k. k\<lparr>bs_omem := bs_omem k - sz\<rparr>) s) \<and>
    bsys s' = bsys s \<and> (\<forall>g. map_option bf_prog (filters s' g) = map_option bf_prog (filters s g)) \<and> bpf_filter_size f s = Ok sz"
proof -
  obtain sz where sz: "bpf_filter_size f s = Ok sz" using size_ok [OF assms(1,2)] by blast
  have inv: "sock_inv x uh oh (upd_bsock sk (\<lambda>k. k\<lparr>bs_omem := bs_omem k - sz\<rparr>) s)" by (rule omem_inv [OF assms(1)])
  show ?thesis using release_inv [OF inv _ assms(3)] assms(2) sz by (auto simp: bpf_filter_uncharge_def)
qed

lemma charge_inv:
  assumes "sock_inv x uh oh s" and "filters s f = Some fp" and "0 < bf_refcnt fp" and "bsocks s sk = Some so"
  shows "\<exists>ok s'. bpf_filter_charge optmem_max sk f s = Ok (ok, s') \<and> (if ok then sock_inv (x(f := x f + 1)) uh oh s' else s' = s)"
proof -
  obtain sz where sz: "bpf_filter_size f s = Ok sz" using size_ok [OF assms(1,2)] by blast
  have nin: "f \<notin> set (filter_rcu s)" using filter_ok_Some [OF assms(1,2)] assms(3) by auto
  have "sock_inv (x(f := x f + 1)) uh oh ((upd_filter f (\<lambda>k. k\<lparr>bf_refcnt := bf_refcnt k + 1\<rparr>) s)\<lparr>filter_rcu := filter_rcu s\<rparr>)"
    by (rule count_inv [OF assms(1,2) _ nin]) (use assms(3) in simp)
  then have "sock_inv (x(f := x f + 1)) uh oh (upd_filter f (\<lambda>k. k\<lparr>bf_refcnt := bf_refcnt k + 1\<rparr>) s)" by (simp add: upd_filter_def)
  from omem_inv [OF this, of sk] show ?thesis using sz assms(4) by (auto simp: bpf_filter_charge_def)
qed

section \<open>Programs under filters\<close>

abbreviation (input) one_more :: "nat \<Rightarrow> (nat \<Rightarrow> nat) \<Rightarrow> nat \<Rightarrow> nat" where "one_more p oh \<equiv> oh(p := Suc (oh p))"

lemma tame_kinds:
  assumes "tame s t" and "prog_inv uh ph t" and "0 < ph p" and "progs s p = Some kp"
  shows "\<exists>kp'. progs t p = Some kp' \<and> kp_type kp' = kp_type kp"
proof -
  obtain kp' where kp': "progs t p = Some kp'" "p \<notin> set (prog_work t)" using held_alive [OF assms(2), of p] assms(3) by auto
  obtain k where "progs s p = Some k" "kind kp' = kind k" by (rule tame_prog [OF assms(1) kp'])
  then show ?thesis using kp'(1) assms(4) by (simp add: kind_def)
qed

lemma filter_holds: "sock_inv x uh oh s \<Longrightarrow> filters s f = Some fp \<Longrightarrow> 0 < card (filters_of s (bf_prog fp))"
  using finite_filters_of [of x uh oh s "bf_prog fp"] by (auto simp: card_gt_0_iff filters_of_def)

lemma prog_change_inv:
  assumes "sock_inv x uh oh s" and "prog_inv uh' (\<lambda>p. oh' p + card (filters_of s p)) t" and "tail_ok {} t"
    and "\<And>p kp. 0 < card (filters_of s p) \<Longrightarrow> progs (bsys s) p = Some kp \<Longrightarrow> \<exists>kp'. progs t p = Some kp' \<and> kp_type kp' = kp_type kp"
  shows "sock_inv x uh' oh' (s\<lparr>bsys := t\<rparr>)"
proof (rule sock_invI)
  have same: "filters_of (s\<lparr>bsys := t\<rparr>) = filters_of s" "filter_users (s\<lparr>bsys := t\<rparr>) = filter_users s" by (simp_all add: filters_of_def filter_users_def fun_eq_iff)
  show "prog_inv uh' (\<lambda>p. oh' p + card (filters_of (s\<lparr>bsys := t\<rparr>) p)) (bsys (s\<lparr>bsys := t\<rparr>))" "tail_ok {} (bsys (s\<lparr>bsys := t\<rparr>))"
      "finite (dom (bsocks (s\<lparr>bsys := t\<rparr>)))" "distinct (filter_rcu (s\<lparr>bsys := t\<rparr>))"
    using sock_invD(3,5) [OF assms(1)] assms(2,3) unfolding same by simp_all
  fix f
  show "filter_ok x (s\<lparr>bsys := t\<rparr>) f"
  proof (cases "filters s f")
    case None
    then show ?thesis using sock_invD(4) [OF assms(1), of f] unfolding filter_ok_def same by simp
  next
    case (Some fp)
    obtain kp where "progs (bsys s) (bf_prog fp) = Some kp" "kp_type kp = PROG_TYPE_SOCKET_FILTER" using filter_ok_Some [OF assms(1) Some] by blast
    with assms(4) [OF filter_holds [OF assms(1) Some]] have "\<exists>kp'. progs t (bf_prog fp) = Some kp' \<and> kp_type kp' = PROG_TYPE_SOCKET_FILTER" by metis
    then show ?thesis using sock_invD(4) [OF assms(1), of f] Some unfolding filter_ok_def same by (simp, metis)
  qed
qed

lemma tame_change_inv:
  assumes "sock_inv x uh oh s" and "tame (bsys s) t" and "prog_inv uh' (\<lambda>p. oh' p + card (filters_of s p)) t"
  shows "sock_inv x uh' oh' (s\<lparr>bsys := t\<rparr>)"
  by (rule prog_change_inv [OF assms(1,3) tame_ok [OF assms(2) sock_invD(2) [OF assms(1)]]])
    (use tame_kinds [OF assms(2,3)] in simp)

section \<open>Attaching\<close>

lemma next_inv: "sock_inv x uh oh s \<Longrightarrow> sock_inv x uh oh (s\<lparr>filter_next := Suc (filter_next s)\<rparr>)"
proof -
  assume inv: "sock_inv x uh oh s"
  let ?s = "s\<lparr>filter_next := Suc (filter_next s)\<rparr>"
  have same: "filters_of ?s = filters_of s" "filter_users ?s = filter_users s" by (simp_all add: filters_of_def filter_users_def fun_eq_iff)
  have "filter_ok x ?s f" for f using sock_invD(4) [OF inv, of f] unfolding filter_ok_def same by (auto split: option.splits)
  then show ?thesis using sock_invD [OF inv] by (intro sock_invI) (simp_all add: same)
qed

lemma new_filter_inv:
  assumes "sock_inv x uh (one_more p oh) s" and "progs (bsys s) p = Some kp" and "kp_type kp = PROG_TYPE_SOCKET_FILTER" and "f = filter_next s"
  shows "sock_inv (x(f := 1)) uh oh (s\<lparr>filters := (filters s)(f \<mapsto> \<lparr>bf_refcnt = 1, bf_prog = p\<rparr>), filter_next := Suc f\<rparr>)" (is "sock_inv _ uh oh ?s")
proof (rule sock_invI)
  have new: "filters s f = None" using fresh_filter [OF assms(1)] assms(4) by simp
  have fs: "filters_of ?s q = (if q = p then insert f (filters_of s p) else filters_of s q)" for q using new by (auto simp: filters_of_def)
  have "f \<notin> filters_of s p" using new by (simp add: filters_of_def)
  then have card: "(\<lambda>q. oh q + card (filters_of ?s q)) = (\<lambda>q. one_more p oh q + card (filters_of s q))"
    using finite_filters_of [OF assms(1)] by (simp add: fs fun_eq_iff)
  show "prog_inv uh (\<lambda>q. oh q + card (filters_of ?s q)) (bsys ?s)" using sock_invD(1) [OF assms(1)] unfolding card by simp
  show "tail_ok {} (bsys ?s)" "finite (dom (bsocks ?s))" "distinct (filter_rcu ?s)" using sock_invD [OF assms(1)] by simp_all
  have users: "filter_users ?s = filter_users s" by (simp add: filter_users_def fun_eq_iff)
  have f: "filter_users s f = {}" "f \<notin> set (filter_rcu s)" using sock_invD(4) [OF assms(1), of f] new by (simp_all add: filter_ok_def)
  fix g
  show "filter_ok (x(f := 1)) ?s g"
    using sock_invD(4) [OF assms(1), of g] f assms(2-4) unfolding filter_ok_def users by (cases "g = f") (auto split: option.splits)
qed

text \<open>The pointer of a socket moves, with the reference of the old filter left to the caller.\<close>

lemma point_inv:
  assumes "sock_inv x uh oh s" and "bsocks s sk = Some so" and "\<And>f. new = Some f \<Longrightarrow> filters s f \<noteq> None"
  shows "sock_inv (\<lambda>f. x f + (if bs_filter so = Some f then 1 else 0) - (if new = Some f then 1 else 0)) uh oh (upd_bsock sk (\<lambda>k. k\<lparr>bs_filter := new\<rparr>) s)"
proof -
  have "sock_inv (\<lambda>f. x f + filter_at (bsocks s sk) f - filter_at (Some (so\<lparr>bs_filter := new\<rparr>)) f) uh oh (s\<lparr>bsocks := (bsocks s)(sk \<mapsto> so\<lparr>bs_filter := new\<rparr>)\<rparr>)"
    by (rule set_bsock_inv [OF assms(1)]) (use assms(3) in auto)
  then show ?thesis using assms(2) by (simp add: filter_at_def upd_bsock_def)
qed

lemma socket_filter_there: "sock_inv (\<lambda>_. 0) uh oh s \<Longrightarrow> bsocks s sk = Some so \<Longrightarrow> bs_filter so = Some f \<Longrightarrow> \<exists>fp. filters s f = Some fp \<and> 0 < bf_refcnt fp"
proof -
  assume a: "sock_inv (\<lambda>_. 0) uh oh s" "bsocks s sk = Some so" "bs_filter so = Some f"
  then have sk: "sk \<in> filter_users s f" by (auto simp: filter_users_def)
  then obtain fp where fp: "filters s f = Some fp" using sock_invD(4) [OF a(1), of f] by (cases "filters s f") (auto simp: filter_ok_def)
  have "0 < card (filter_users s f)" using sk finite_filter_users [OF a(1)] by (auto simp: card_gt_0_iff)
  then show ?thesis using filter_ok_Some [OF a(1) fp] fp by auto
qed

text \<open>The socket has a new filter over the program, and the other sockets have theirs.\<close>

definition attached :: "sock_sys \<Rightarrow> nat \<Rightarrow> nat \<Rightarrow> sock_sys \<Rightarrow> bool" where
  "attached s sk p s' \<longleftrightarrow> map_option bs_filter (bsocks s' sk) = Some (Some (filter_next s)) \<and>
     map_option bf_prog (filters s' (filter_next s)) = Some p \<and> (\<forall>k. k \<noteq> sk \<longrightarrow> bsocks s' k = bsocks s k)"

lemma replace_inv:
  assumes "sock_inv ((\<lambda>_. 0)(f := 1)) uh oh s" and "bsocks s sk = Some so" and "filters s f \<noteq> None" and "bs_filter so \<noteq> Some f"
  defines "t \<equiv> upd_bsock sk (\<lambda>k. k\<lparr>bs_filter := Some f\<rparr>) s"
  shows "\<exists>s'. (case bs_filter so of None \<Rightarrow> (Ok (), t)
      | Some old_fp \<Rightarrow> (case bpf_filter_uncharge sk old_fp t of Ok s \<Rightarrow> (Ok (), s) | Err e \<Rightarrow> (Err e, t) | Undef u \<Rightarrow> (Undef u, t))) = (Ok (), s') \<and>
    sock_inv (\<lambda>_. 0) uh oh s' \<and> bsys s' = bsys s \<and> map_option bs_filter (bsocks s' sk) = Some (Some f) \<and> (\<forall>k. k \<noteq> sk \<longrightarrow> bsocks s' k = bsocks s k) \<and>
    (\<forall>g. map_option bf_prog (filters s' g) = map_option bf_prog (filters s g))"
proof -
  have "sock_inv (\<lambda>g. ((\<lambda>_. 0)(f := 1)) g + (if bs_filter so = Some g then 1 else 0) - (if Some f = Some g then 1 else 0)) uh oh t"
    unfolding t_def by (rule point_inv [OF assms(1,2)]) (use assms(3) in simp)
  then have inv: "sock_inv (\<lambda>g. if bs_filter so = Some g then 1 else 0) uh oh t" by (rule sock_inv_cong) auto
  show ?thesis
  proof (cases "bs_filter so")
    case None
    then show ?thesis using inv assms(2) by (simp add: t_def)
  next
    case (Some old_fp)
    have "sk \<in> filter_users s old_fp" using assms(2) Some by (simp add: filter_users_def)
    then obtain fp where "filters s old_fp = Some fp" using sock_invD(4) [OF assms(1), of old_fp] by (cases "filters s old_fp") (auto simp: filter_ok_def)
    then have fp: "filters t old_fp = Some fp" by (simp add: t_def)
    have "0 < bf_refcnt fp" using filter_ok_Some [OF inv fp] Some by simp
    from uncharge_inv [OF inv fp this, of sk] obtain s' sz where s': "bpf_filter_uncharge sk old_fp t = Ok s'" "bsys s' = bsys t"
        "sock_inv ((\<lambda>g. if bs_filter so = Some g then 1 else 0)(old_fp := 1 - 1)) uh oh s'"
        "bsocks s' = bsocks (upd_bsock sk (\<lambda>k. k\<lparr>bs_omem := bs_omem k - sz\<rparr>) t)" "\<forall>g. map_option bf_prog (filters s' g) = map_option bf_prog (filters t g)" using Some by auto
    have "sock_inv (\<lambda>_. 0) uh oh s'" using s'(3) by (rule sock_inv_cong) (use Some in auto)
    then show ?thesis using s' Some assms(2) by (simp add: t_def)
  qed
qed

lemma attach_prog_inv:
  assumes "sock_inv (\<lambda>_. 0) uh (one_more p oh) s" and "progs (bsys s) p = Some kp" and "kp_type kp = PROG_TYPE_SOCKET_FILTER" and "bsocks s sk = Some so"
  shows "\<exists>r s'. attach_prog alloc_ok optmem_max p sk s = (r, s') \<and> bsys s' = bsys s \<and>
    (if r = Ok () then sock_inv (\<lambda>_. 0) uh oh s' \<and> attached s sk p s' else r = Err ENOMEM \<and> sock_inv (\<lambda>_. 0) uh (one_more p oh) s' \<and> filters s' = filters s \<and> bsocks s' = bsocks s)"
proof (cases alloc_ok)
  case True
  define f where "f = filter_next s"
  define sz :: u32 where "sz = of_nat (bpf_prog_size (length (pr_insns kp)))"
  let ?s1 = "s\<lparr>filters := (filters s)(f \<mapsto> \<lparr>bf_refcnt = 0, bf_prog = p\<rparr>), filter_next := Suc f\<rparr>"
  have size: "bpf_filter_size f ?s1 = Ok sz" using assms(2) by (simp add: bpf_filter_size_def sz_def)
  have new: "filters s f = None" using fresh_filter [OF assms(1)] by (simp add: f_def)
  show ?thesis
  proof (cases "sz \<le> optmem_max \<and> bs_omem so + sz < optmem_max")
    case False
    have chg: "bpf_filter_charge optmem_max sk f ?s1 = Ok (False, ?s1)" using False size assms(4) by (simp add: bpf_filter_charge_def)
    have "attach_prog alloc_ok optmem_max p sk s = (Err ENOMEM, ?s1\<lparr>filters := (filters ?s1)(f := None)\<rparr>)"
      using True chg unfolding attach_prog_def Let_def f_def [symmetric] by simp
    moreover have "?s1\<lparr>filters := (filters ?s1)(f := None)\<rparr> = s\<lparr>filter_next := Suc (filter_next s)\<rparr>" using new by (simp add: f_def fun_upd_idem)
    ultimately have "attach_prog alloc_ok optmem_max p sk s = (Err ENOMEM, s\<lparr>filter_next := Suc (filter_next s)\<rparr>)" by simp
    then show ?thesis using next_inv [OF assms(1)] by simp
  next
    case fits: True
    let ?n = "s\<lparr>filters := (filters s)(f \<mapsto> \<lparr>bf_refcnt = 1, bf_prog = p\<rparr>), filter_next := Suc f\<rparr>"
    let ?s2 = "upd_bsock sk (\<lambda>k. k\<lparr>bs_omem := bs_omem k + sz\<rparr>) ?n"
    have chg: "bpf_filter_charge optmem_max sk f ?s1 = Ok (True, ?s2)"
    proof -
      have "upd_filter f (\<lambda>k. k\<lparr>bf_refcnt := bf_refcnt k + 1\<rparr>) ?s1 = ?n" by (cases s) (simp add: upd_filter_def)
      then show ?thesis using fits size assms(4) by (simp add: bpf_filter_charge_def)
    qed
    let ?so = "so\<lparr>bs_omem := bs_omem so + sz\<rparr>"
    have so: "bsocks ?s2 sk = Some ?so" "filters ?s2 f \<noteq> None" "bs_filter ?so \<noteq> Some f"
      using assms(4) socket_filter_there [OF assms(1,4), of f] new by auto
    have "sock_inv ((\<lambda>_. 0)(f := 1)) uh oh ?s2" by (rule omem_inv [OF new_filter_inv [OF assms(1-3) f_def]])
    note rep = replace_inv [OF this so]
    have att: "attach_prog alloc_ok optmem_max p sk s = (case bs_filter ?so of None \<Rightarrow> (Ok (), upd_bsock sk (\<lambda>k. k\<lparr>bs_filter := Some f\<rparr>) ?s2)
        | Some old_fp \<Rightarrow> (case bpf_filter_uncharge sk old_fp (upd_bsock sk (\<lambda>k. k\<lparr>bs_filter := Some f\<rparr>) ?s2) of Ok s \<Rightarrow> (Ok (), s)
            | Err e \<Rightarrow> (Err e, upd_bsock sk (\<lambda>k. k\<lparr>bs_filter := Some f\<rparr>) ?s2) | Undef u \<Rightarrow> (Undef u, upd_bsock sk (\<lambda>k. k\<lparr>bs_filter := Some f\<rparr>) ?s2)))" (is "_ = ?c")
      using True chg assms(4) unfolding attach_prog_def Let_def f_def [symmetric] by simp
    from rep obtain s' where s': "?c = (Ok (), s')" "sock_inv (\<lambda>_. 0) uh oh s'" "bsys s' = bsys ?s2"
        "map_option bs_filter (bsocks s' sk) = Some (Some f)" "\<forall>k. k \<noteq> sk \<longrightarrow> bsocks s' k = bsocks ?s2 k"
        "\<forall>g. map_option bf_prog (filters s' g) = map_option bf_prog (filters ?s2 g)" by blast
    have "attached s sk p s'" using s'(4,5) spec [OF s'(6), of f] by (simp add: attached_def f_def)
    then show ?thesis unfolding att s'(1) using s'(2,3) by simp
  qed
next
  case False
  then show ?thesis using assms(1) by (simp add: attach_prog_def)
qed

lemma put_prog_inv:
  assumes "sock_inv x uh (one_more p oh) s"
  shows "\<exists>t. bpf_prog_put p (bsys s) = Ok t \<and> sock_inv x uh oh (s\<lparr>bsys := t\<rparr>)"
proof -
  have "(\<lambda>q. one_more p oh q + card (filters_of s q)) = one_more p (\<lambda>q. oh q + card (filters_of s q))" by (simp add: fun_eq_iff)
  with sock_invD(1) [OF assms] have "prog_inv uh (one_more p (\<lambda>q. oh q + card (filters_of s q))) (bsys s)" by simp
  from put_inv [OF this] obtain t where t: "bpf_prog_put p (bsys s) = Ok t" "prog_inv uh (\<lambda>q. oh q + card (filters_of s q)) t" by blast
  then show ?thesis using tame_change_inv [OF assms tame_put [OF t(1)] t(2)] by blast
qed

lemma put_and_fail_inv:
  "sock_inv (\<lambda>_. 0) uh (one_more p oh) s \<Longrightarrow> \<exists>t. put_and_fail p e s = (Err e, s\<lparr>bsys := t\<rparr>) \<and> sock_inv (\<lambda>_. 0) uh oh (s\<lparr>bsys := t\<rparr>)"
  by (drule put_prog_inv) (auto simp: put_and_fail_def)

lemma get_prog_inv:
  assumes "sock_inv x uh oh s"
  obtains (err) e t where "bpf_prog_get shared ufd (bsys s) = (Err e, t)" and "sock_inv x uh oh (s\<lparr>bsys := t\<rparr>)"
    | (ok) p t kp where "bpf_prog_get shared ufd (bsys s) = (Ok p, t)" and "sock_inv x uh (one_more p oh) (s\<lparr>bsys := t\<rparr>)" and "progs t p = Some kp"
        and "fds (psys (bsys s)) ufd = Some (ProgFile p)"
proof -
  from prog_get_inv [OF sock_invD(1) [OF assms], of shared ufd]
  consider e t where "bpf_prog_get shared ufd (bsys s) = (Err e, t)" "prog_inv uh (\<lambda>q. oh q + card (filters_of s q)) t"
    | p t where "bpf_prog_get shared ufd (bsys s) = (Ok p, t)" "prog_inv uh (one_more p (\<lambda>q. oh q + card (filters_of s q))) t"
        "fds (psys (bsys s)) ufd = Some (ProgFile p)"
    by auto
  then show thesis
  proof cases
    case (1 e t)
    then show ?thesis using err tame_change_inv [OF assms tame_get [OF 1(1)] 1(2)] by blast
  next
    case (2 p t)
    have "one_more p (\<lambda>q. oh q + card (filters_of s q)) = (\<lambda>q. one_more p oh q + card (filters_of s q))" by (simp add: fun_eq_iff)
    with 2(2) have "prog_inv uh (\<lambda>q. one_more p oh q + card (filters_of s q)) t" by simp
    note inv = tame_change_inv [OF assms tame_get [OF 2(1)] this]
    obtain kp where kp: "progs t p = Some kp" using held_alive [OF 2(2), of p] by auto
    show ?thesis by (rule ok [OF 2(1) inv kp 2(3)])
  qed
qed

lemma sk_attach_bpf_inv:
  assumes "sock_inv (\<lambda>_. 0) uh oh s" and "bsocks s sk = Some so"
  shows "\<exists>r s'. sk_attach_bpf shared alloc_ok optmem_max ufd sk s = (r, s') \<and> (\<forall>u. r \<noteq> Undef u) \<and> sock_inv (\<lambda>_. 0) uh oh s' \<and>
    (r \<noteq> Ok () \<longrightarrow> filters s' = filters s \<and> bsocks s' = bsocks s) \<and>
    (r = Ok () \<longrightarrow> \<not> bs_locked so \<and> (\<exists>p. fds (psys (bsys s)) ufd = Some (ProgFile p) \<and> attached s sk p s'))"
proof (cases "bs_locked so")
  case True
  then show ?thesis using assms by (simp add: sk_attach_bpf_def)
next
  case False
  show ?thesis using assms(1)
  proof (cases rule: get_prog_inv [where shared = shared and ufd = ufd])
    case (err e t)
    then show ?thesis using assms(2) False by (simp add: sk_attach_bpf_def)
  next
    case (ok p t kp)
    note inv = ok(2) and kp = ok(3)
    have so: "bsocks (s\<lparr>bsys := t\<rparr>) sk = Some so" using assms(2) by simp
    show ?thesis
    proof (cases "kp_type kp = PROG_TYPE_SOCKET_FILTER")
      case True
      have kp': "progs (bsys (s\<lparr>bsys := t\<rparr>)) p = Some kp" using kp by simp
      obtain r s' where att: "attach_prog alloc_ok optmem_max p sk (s\<lparr>bsys := t\<rparr>) = (r, s')"
          "if r = Ok () then sock_inv (\<lambda>_. 0) uh oh s' \<and> attached s sk p s'
           else r = Err ENOMEM \<and> sock_inv (\<lambda>_. 0) uh (one_more p oh) s' \<and> filters s' = filters s \<and> bsocks s' = bsocks s"
        using attach_prog_inv [OF inv kp' True so, of alloc_ok optmem_max] by (auto simp: attached_def cong: if_cong)
      show ?thesis
      proof (cases "r = Ok ()")
        case True
        then show ?thesis using att ok(1,4) kp \<open>kp_type kp = _\<close> assms(2) False by (simp add: sk_attach_bpf_def Let_def)
      next
        case r: False
        then have fail: "sock_inv (\<lambda>_. 0) uh (one_more p oh) s'" "r = Err ENOMEM" "filters s' = filters s" "bsocks s' = bsocks s" using att(2) by simp_all
        then show ?thesis using put_and_fail_inv [OF fail(1), of ENOMEM] att(1) ok(1) kp True assms(2) False by (auto simp: sk_attach_bpf_def Let_def)
      qed
    next
      case other: False
      then show ?thesis using put_and_fail_inv [OF inv, of EINVAL] ok(1) kp assms(2) False by (auto simp: sk_attach_bpf_def Let_def)
    qed
  qed
qed

section \<open>Detaching, closing, cloning\<close>

lemma detach_bpf_inv:
  assumes "sock_inv (\<lambda>_. 0) uh oh s" and "bsocks s sk = Some so"
  shows "\<exists>r s'. detach_bpf sk s = (r, s') \<and> (\<forall>u. r \<noteq> Undef u) \<and> sock_inv (\<lambda>_. 0) uh oh s'"
proof (cases "\<not> bs_locked so \<and> bs_filter so \<noteq> None")
  case True
  then obtain f where f: "bs_filter so = Some f" "\<not> bs_locked so" by auto
  obtain fp where fp: "filters s f = Some fp" "0 < bf_refcnt fp" using socket_filter_there [OF assms f(1)] by blast
  let ?s = "upd_bsock sk (\<lambda>k. k\<lparr>bs_filter := None\<rparr>) s"
  have inv: "sock_inv (\<lambda>g. 0 + (if bs_filter so = Some g then 1 else 0) - (if None = Some g then 1 else 0)) uh oh ?s"
    by (rule point_inv [OF assms]) simp
  have "filters ?s f = Some fp" using fp by simp
  from uncharge_inv [OF inv this fp(2), of sk] obtain s' where s': "bpf_filter_uncharge sk f ?s = Ok s'"
      "sock_inv ((\<lambda>g. 0 + (if bs_filter so = Some g then 1 else 0) - (if None = Some g then 1 else 0))(f := 1 - 1)) uh oh s'" using f by auto
  have "sock_inv (\<lambda>_. 0) uh oh s'" using s'(2) by (rule sock_inv_cong) (use f in auto)
  then show ?thesis using s'(1) assms(2) f by (simp add: detach_bpf_def Let_def)
qed (use assms in \<open>auto simp: detach_bpf_def\<close>)

lemma close_bsock_inv:
  assumes "sock_inv (\<lambda>_. 0) uh oh s" and "bsocks s sk = Some so"
  shows "\<exists>s'. close_bsock sk s = Ok s' \<and> sock_inv (\<lambda>_. 0) uh oh s'"
proof (cases "bs_filter so")
  case None
  have "sock_inv (\<lambda>f. 0 + filter_at (bsocks s sk) f - filter_at None f) uh oh (s\<lparr>bsocks := (bsocks s)(sk := None)\<rparr>)" by (rule set_bsock_inv [OF assms(1)]) simp
  then show ?thesis using assms(2) None by (simp add: close_bsock_def filter_at_def)
next
  case (Some f)
  obtain fp where fp: "filters s f = Some fp" "0 < bf_refcnt fp" using socket_filter_there [OF assms Some] by blast
  obtain t sz where t: "bpf_filter_uncharge sk f s = Ok t" "sock_inv ((\<lambda>_. 0)(f := 0 - 1)) uh oh t"
      "bsocks t = bsocks (upd_bsock sk (\<lambda>k. k\<lparr>bs_omem := bs_omem k - sz\<rparr>) s)" using uncharge_inv [OF assms(1) fp, of sk] by auto
  have "sock_inv (\<lambda>g. ((\<lambda>_. 0)(f := 0 - 1)) g + filter_at (bsocks t sk) g - filter_at None g) uh oh (t\<lparr>bsocks := (bsocks t)(sk := None)\<rparr>)"
    by (rule set_bsock_inv [OF t(2)]) simp
  then have "sock_inv (\<lambda>_. 0) uh oh (t\<lparr>bsocks := (bsocks t)(sk := None)\<rparr>)"
    by (rule sock_inv_cong) (use assms(2) Some t(3) in \<open>auto simp: filter_at_def\<close>)
  then show ?thesis using t(1) assms(2) Some by (simp add: close_bsock_def)
qed

lemma clone_bsock_inv:
  assumes "sock_inv (\<lambda>_. 0) uh oh s" and "bsocks s sk = Some so" and "bsocks s newsk = None"
  shows "\<exists>ok s'. clone_bsock optmem_max sk newsk s = Ok (ok, s') \<and> (ok \<longrightarrow> sock_inv (\<lambda>_. 0) uh oh s')"
proof -
  let ?so = "so\<lparr>bs_omem := 0\<rparr>" and ?s = "s\<lparr>bsocks := (bsocks s)(newsk \<mapsto> so\<lparr>bs_omem := 0\<rparr>)\<rparr>"
  have inv: "sock_inv (\<lambda>f. 0 + filter_at (bsocks s newsk) f - filter_at (Some ?so) f) uh oh ?s"
    by (rule set_bsock_inv [OF assms(1)]) (use socket_filter_there [OF assms(1,2)] in auto)
  show ?thesis
  proof (cases "bs_filter so")
    case None
    then have "sock_inv (\<lambda>_. 0) uh oh ?s" using inv assms(3) by (simp add: filter_at_def)
    then show ?thesis using None assms(2) by (intro exI [of _ True]) (simp add: clone_bsock_def)
  next
    case (Some f)
    obtain fp where fp: "filters s f = Some fp" "0 < bf_refcnt fp" using socket_filter_there [OF assms(1,2) Some] by blast
    have inv': "sock_inv (\<lambda>g. if g = f then - 1 else 0) uh oh ?s" using inv by (rule sock_inv_cong) (use assms(3) Some in \<open>auto simp: filter_at_def\<close>)
    have "filters ?s f = Some fp" "bsocks ?s newsk = Some ?so" using fp by simp_all
    from charge_inv [OF inv' this(1) fp(2) this(2), of optmem_max] obtain ok s' where s': "bpf_filter_charge optmem_max newsk f ?s = Ok (ok, s')"
        "ok \<longrightarrow> sock_inv ((\<lambda>g. if g = f then - 1 else 0)(f := - 1 + 1)) uh oh s'" by (auto split: if_splits)
    have "(\<lambda>g. if g = f then - 1 else 0 :: int)(f := - 1 + 1) = (\<lambda>_. 0)" by (simp add: fun_eq_iff)
    then have "ok \<longrightarrow> sock_inv (\<lambda>_. 0) uh oh s'" using s'(2) by simp
    then show ?thesis using s'(1) assms(2) Some by (simp add: clone_bsock_def Let_def)
  qed
qed

lemma open_bsock_inv:
  assumes "sock_inv (\<lambda>_. 0) uh oh s" and "bsocks s sk = None"
  shows "sock_inv (\<lambda>_. 0) uh oh (s\<lparr>bsocks := (bsocks s)(sk \<mapsto> \<lparr>bs_filter = None, bs_omem = 0, bs_locked = False\<rparr>)\<rparr>)"
proof -
  let ?so = "Some \<lparr>bs_filter = None, bs_omem = 0, bs_locked = False\<rparr>"
  have "sock_inv (\<lambda>f. 0 + filter_at (bsocks s sk) f - filter_at ?so f) uh oh (s\<lparr>bsocks := (bsocks s)(sk := ?so)\<rparr>)" by (rule set_bsock_inv [OF assms(1)]) auto
  then show ?thesis using assms(2) by (simp add: filter_at_def)
qed

lemma lock_filter_inv:
  assumes "sock_inv (\<lambda>_. 0) uh oh s" and "bsocks s sk = Some so"
  shows "\<exists>r s'. lock_filter valbool sk s = (r, s') \<and> (\<forall>u. r \<noteq> Undef u) \<and> sock_inv (\<lambda>_. 0) uh oh s'"
proof -
  have "sock_inv (\<lambda>f. 0 + filter_at (bsocks s sk) f - filter_at (Some (so\<lparr>bs_locked := valbool\<rparr>)) f) uh oh (s\<lparr>bsocks := (bsocks s)(sk \<mapsto> so\<lparr>bs_locked := valbool\<rparr>)\<rparr>)"
    by (rule set_bsock_inv [OF assms(1)]) (use socket_filter_there [OF assms] in auto)
  then show ?thesis using assms by (auto simp: lock_filter_def upd_bsock_def filter_at_def)
qed

lemma setsockopt_inv:
  assumes "sock_inv (\<lambda>_. 0) uh oh s" and "bsocks s sk = Some so"
  shows "\<exists>r s'. sock_setsockopt shared alloc_ok optmem_max optname optlen uval uval2 sk s = (r, s') \<and> (\<forall>u. r \<noteq> Undef u) \<and> sock_inv (\<lambda>_. 0) uh oh s'"
proof -
  note att = sk_attach_bpf_inv [OF assms, of shared alloc_ok optmem_max] and det = detach_bpf_inv [OF assms] and lock = lock_filter_inv [OF assms]
  show ?thesis
  proof (cases "optlen < 4 \<or> uval = None \<or> optname = SO_ATTACH_BPF \<and> (optlen \<noteq> 4 \<or> uval2 = None)")
    case True
    then show ?thesis using assms(1) by (cases uval; cases uval2) (auto simp: sock_setsockopt_def)
  next
    case False
    then obtain val where val: "\<not> optlen < 4" "uval = Some val" by auto
    show ?thesis
    proof (cases optname)
      case SO_ATTACH_BPF
      then obtain ufd where "uval2 = Some ufd" "optlen = 4" using False by auto
      then show ?thesis using att [of "unat ufd"] SO_ATTACH_BPF val by (auto simp: sock_setsockopt_def)
    qed (use det lock [of "val \<noteq> 0"] val in \<open>simp_all add: sock_setsockopt_def\<close>)
  qed
qed

section \<open>After the grace period\<close>

lemma drop_filter_inv:
  assumes "sock_inv (\<lambda>_. 0) uh oh s" and "filter_rcu s = xs @ f # ys" and "filters s f = Some fp"
  shows "sock_inv (\<lambda>_. 0) uh (one_more (bf_prog fp) oh) (s\<lparr>filter_rcu := xs @ ys, filters := (filters s)(f := None)\<rparr>)" (is "sock_inv _ uh _ ?s")
proof (rule sock_invI)
  have fs: "filters_of s q = (if q = bf_prog fp then insert f (filters_of ?s q) else filters_of ?s q)" "f \<notin> filters_of ?s q" for q
    using assms(3) by (auto simp: filters_of_def)
  have fin: "finite (filters_of ?s q)" for q using finite_filters_of [OF assms(1), of q] by (rule finite_subset [rotated]) (auto simp: filters_of_def split: if_splits)
  have card: "(\<lambda>q. one_more (bf_prog fp) oh q + card (filters_of ?s q)) = (\<lambda>q. oh q + card (filters_of s q))" using fs fin by (simp add: fun_eq_iff)
  show "prog_inv uh (\<lambda>q. one_more (bf_prog fp) oh q + card (filters_of ?s q)) (bsys ?s)" using sock_invD(1) [OF assms(1)] unfolding card by simp
  show "tail_ok {} (bsys ?s)" "finite (dom (bsocks ?s))" "distinct (filter_rcu ?s)" using sock_invD [OF assms(1)] assms(2) by simp_all
  have users: "filter_users ?s = filter_users s" by (simp add: filter_users_def fun_eq_iff)
  have "filter_users s f = {}" "f \<notin> set (xs @ ys)"
    using filter_ok_Some [OF assms(1,3)] finite_filter_users [OF assms(1), of f] sock_invD(5) [OF assms(1)] assms(2) by auto
  then show "filter_ok (\<lambda>_. 0) ?s g" for g
    using sock_invD(4) [OF assms(1), of g] assms(2,3) unfolding filter_ok_def users by (cases "g = f") (auto split: option.splits)
qed

lemma release_rcu_inv:
  assumes "sock_inv (\<lambda>_. 0) uh oh s" and "filter_rcu s = xs @ f # ys"
  shows "\<exists>s'. filter_release_rcu f (s\<lparr>filter_rcu := xs @ ys\<rparr>) = Ok s' \<and> sock_inv (\<lambda>_. 0) uh oh s' \<and> filters s' f = None"
proof -
  obtain fp where fp: "filters s f = Some fp" using sock_invD(4) [OF assms(1), of f] assms(2) by (cases "filters s f") (auto simp: filter_ok_def)
  obtain kp where kp: "progs (bsys s) (bf_prog fp) = Some kp" "kp_type kp = PROG_TYPE_SOCKET_FILTER" using filter_ok_Some [OF assms(1) fp] by blast
  from put_prog_inv [OF drop_filter_inv [OF assms fp]] obtain t where t: "bpf_prog_put (bf_prog fp) (bsys s) = Ok t"
      "sock_inv (\<lambda>_. 0) uh oh (s\<lparr>filter_rcu := xs @ ys, filters := (filters s)(f := None), bsys := t\<rparr>)" by auto
  have "s\<lparr>filter_rcu := xs @ ys, bsys := t, filters := (filters s)(f := None)\<rparr> = s\<lparr>filter_rcu := xs @ ys, filters := (filters s)(f := None), bsys := t\<rparr>" by (cases s) simp
  note swap = this
  show ?thesis using t fp kp by (simp add: filter_release_rcu_def swap)
qed

section \<open>Steps of the rest of the system\<close>

text \<open>A program keeps its type as long as it is held.\<close>

definition same_types :: "prog_sys \<Rightarrow> prog_sys \<Rightarrow> bool" where
  "same_types s t \<longleftrightarrow> (\<forall>p kp'. progs t p = Some kp' \<and> p \<notin> set (prog_work t) \<longrightarrow>
     (\<exists>kp. progs s p = Some kp \<and> p \<notin> set (prog_work s) \<and> kp_type kp' = kp_type kp))"

lemma same_types_tame: "tame s t \<Longrightarrow> same_types s t"
  unfolding same_types_def by (metis kind_def prod.inject tame_prog)

lemma same_types_eq: "progs t = progs s \<Longrightarrow> prog_work t = prog_work s \<Longrightarrow> same_types s t"
  by (simp add: same_types_def)

lemma same_types_trans: "same_types s t \<Longrightarrow> same_types t u \<Longrightarrow> same_types s u"
  unfolding same_types_def by metis

lemma same_types_get_ptr: "prog_fd_array_get_ptr shared m fd s = (r, t) \<Longrightarrow> same_types s t"
proof -
  assume get: "prog_fd_array_get_ptr shared m fd s = (r, t)"
  obtain r1 s1 where g: "bpf_prog_get shared fd s = (r1, s1)" by fastforce
  have s1: "same_types s s1" by (rule same_types_tame [OF tame_get [OF g]])
  have claim: "same_types s (s1\<lparr>parrays := pas\<rparr>)" for pas by (rule same_types_trans [OF s1 same_types_eq]) simp_all
  show ?thesis using get s1 claim same_types_trans [OF claim same_types_tame [OF tame_put]]
    by (auto simp: prog_fd_array_get_ptr_def g Let_def split: result.splits option.splits prod.splits if_splits)
qed

lemma same_types_xchg: "xchg_ptr m i new s = Ok (old, t) \<Longrightarrow> same_types s t"
  by (auto simp: xchg_ptr_def split: option.splits if_splits intro!: same_types_eq)

lemma same_types_update: "fd_array_map_update_elem shared m key val flags s = (r, t) \<Longrightarrow> same_types s t"
  by (auto simp: fd_array_map_update_elem_def same_types_tame [OF tame_refl] split: option.splits result.splits if_splits prod.splits
      dest!: same_types_get_ptr same_types_xchg dest: tame_put_rcu intro: same_types_trans same_types_tame)

lemma same_types_sys_update: "sys_map_update_elem shared bad ufd ok1 ok2 ok3 ukey uval flags s = Some (r, t) \<Longrightarrow> same_types s t"
  by (auto simp: sys_map_update_elem_def same_types_tame [OF tame_refl] same_types_tame [OF tame_sys(1)] split: if_splits option.splits result.splits dest!: same_types_update)

lemma same_types_create_array: "prog_array_create bad oks h0 user limit fd_res attr s = Some (r, t) \<Longrightarrow> same_types s t"
  by (auto simp: prog_array_create_def intro!: same_types_eq split: if_splits option.splits result.splits)

lemma load_types:
  assumes "prog_inv uh ph s" and "bpf_prog_load E A s = (r, t)" and "\<forall>u. r \<noteq> Undef u" and "p \<noteq> prog_next s"
  shows "progs t p = progs s p"
proof (cases r)
  case (Ok fd)
  then show ?thesis using load_ok [OF assms(1), of E A fd t] assms(2,4) by (auto simp: staged_def set_fd_def)
next
  case (Err e)
  then show ?thesis using load_err [OF assms(1), of E A e t] assms(2,4) by auto
qed (use assms(3) in simp)

lemma prog_step_types: "prog_step (uh, ph, s) (uh', ph', t) \<Longrightarrow> prog_inv uh ph s \<Longrightarrow> same_types s t \<or> (\<forall>p. p \<noteq> prog_next s \<longrightarrow> progs t p = progs s p)"
proof (induction "(uh, ph, s)" "(uh', ph', t)" rule: prog_step.induct)
  case (update shared attr_bad ufd ok1 ok2 ok3 ukey uvalue flags r)
  then show ?case using same_types_sys_update by blast
next
  case (create_array attr_bad oks h0 user limit fd_res attr r)
  then show ?case using same_types_create_array by blast
next
  case (load E A r)
  then show ?case using load_types by blast
next
  case (close_prog fd)
  then show ?case using same_types_tame [OF tame_trans [OF tame_sys(1) tame_put_rcu]]
    by (auto simp: bpf_prog_fd_release_def split: option.splits bpf_file.splits)
next
  case (free_map xs m ys)
  then show ?case using same_types_tame [OF tame_trans [OF tame_sys(1) tame_map_free]] by blast
next
  case (grace_period xs p ys)
  then show ?case using same_types_tame [OF tame_trans [OF tame_sys(3) tame_put_common]] by blast
next
  case (free_prog xs p ys)
  have "distinct (xs @ p # ys)" using prog_invD(5) [OF free_prog.prems] free_prog(1) by simp
  then have "tame s t" using free_prog(1) tame_free_deferred [OF _ _ _ free_prog(2)] by simp
  then show ?case using same_types_tame by blast
next
  case (create attr_bad type oks h0 user limit fd_res attr r t)
  then show ?case using same_types_tame [OF tame_sys(1)] by blast
next
  case (get_map ufd m t)
  then show ?case using same_types_tame [OF tame_sys(1)] by blast
next
  case (put_map m)
  then show ?case using same_types_tame [OF tame_map_put] by blast
next
  case (close_map fd)
  then show ?case using same_types_tame [OF tame_map_release] by blast
next
  case (delete attr_bad ufd ok1 ukey r)
  then show ?case using same_types_tame [OF tame_sys_delete] by blast
next
  case (get_prog shared ufd p)
  then show ?case using same_types_tame [OF tame_get] by blast
next
  case (put_prog p)
  then show ?case using same_types_tame [OF tame_put] by blast
next
  case (put_prog_rcu p)
  then show ?case using same_types_tame [OF tame_put_rcu] by blast
qed

lemma prog_step_sock_inv:
  assumes "sock_inv (\<lambda>_. 0) uh oh s" and "prog_step (uh, \<lambda>p. oh p + card (filters_of s p), bsys s) (uh', \<lambda>p. oh' p + card (filters_of s p), t)"
  shows "sock_inv (\<lambda>_. 0) uh' oh' (s\<lparr>bsys := t\<rparr>)"
proof (rule prog_change_inv [OF assms(1)])
  note inv = sock_invD(1) [OF assms(1)]
  show inv': "prog_inv uh' (\<lambda>p. oh' p + card (filters_of s p)) t" by (rule prog_step_inv [OF assms(2) inv])
  show "tail_ok {} t" by (rule prog_step_tail_ok [OF assms(2) inv sock_invD(2) [OF assms(1)]])
  fix p kp assume c: "0 < card (filters_of s p)" and kp: "progs (bsys s) p = Some kp"
  obtain kp' where kp': "progs t p = Some kp'" "p \<notin> set (prog_work t)" using held_alive [OF inv', of p] c by auto
  have "p < prog_next (bsys s)" using held_alive [OF inv, of p] c by auto
  then show "\<exists>kp'. progs t p = Some kp' \<and> kp_type kp' = kp_type kp"
    using prog_step_types [OF assms(2) inv] kp kp' unfolding same_types_def by fastforce
qed

section \<open>Every step\<close>

type_synonym sock_config = "(nat \<Rightarrow> nat) \<times> (nat \<Rightarrow> nat) \<times> sock_sys"

text \<open>Programs and maps go on as before, with the filters among the holders of programs; sockets are opened, closed and cloned, and their
  options set. A clone that cannot be charged is left out: it releases a reference it never took.\<close>

inductive sock_step :: "sock_config \<Rightarrow> sock_config \<Rightarrow> bool" where
  prog: "prog_step (uh, \<lambda>p. oh p + card (filters_of s p), bsys s) (uh', \<lambda>p. oh' p + card (filters_of s p), t) \<Longrightarrow> sock_step (uh, oh, s) (uh', oh', s\<lparr>bsys := t\<rparr>)"
| open_sock: "bsocks s sk = None \<Longrightarrow> sock_step (uh, oh, s) (uh, oh, s\<lparr>bsocks := (bsocks s)(sk \<mapsto> \<lparr>bs_filter = None, bs_omem = 0, bs_locked = False\<rparr>)\<rparr>)"
| setsockopt: "bsocks s sk = Some so \<Longrightarrow> sock_setsockopt shared alloc_ok optmem_max optname optlen uval uval2 sk s = (r, s') \<Longrightarrow>
    sock_step (uh, oh, s) (uh, oh, s')"
| close: "close_bsock sk s = Ok s' \<Longrightarrow> sock_step (uh, oh, s) (uh, oh, s')"
| clone: "clone_bsock optmem_max sk newsk s = Ok (True, s') \<Longrightarrow> bsocks s newsk = None \<Longrightarrow> sock_step (uh, oh, s) (uh, oh, s')"
| grace: "filter_rcu s = xs @ f # ys \<Longrightarrow> filter_release_rcu f (s\<lparr>filter_rcu := xs @ ys\<rparr>) = Ok s' \<Longrightarrow> sock_step (uh, oh, s) (uh, oh, s')"

definition sock_boot :: sock_sys where
  "sock_boot = \<lparr>bsys = prog_boot, filters = (\<lambda>_. None), filter_next = 0, filter_rcu = [], bsocks = (\<lambda>_. None)\<rparr>"

abbreviation (input) sock_start :: sock_config where "sock_start \<equiv> (\<lambda>_. 0, \<lambda>_. 0, sock_boot)"

lemma sock_boot_inv: "sock_inv (\<lambda>_. 0) (\<lambda>_. 0) (\<lambda>_. 0) sock_boot"
proof -
  have "filters_of sock_boot p = {}" "filter_users sock_boot p = {}" for p by (simp_all add: filters_of_def filter_users_def sock_boot_def)
  moreover have "tail_ok {} prog_boot" using reachable_tail_ok [OF rtranclp.rtrancl_refl] .
  ultimately show ?thesis using prog_boot_inv by (intro sock_invI) (simp_all add: filter_ok_def, simp_all add: sock_boot_def)
qed

lemma sock_step_inv: "sock_step (uh, oh, s) (uh', oh', s') \<Longrightarrow> sock_inv (\<lambda>_. 0) uh oh s \<Longrightarrow> sock_inv (\<lambda>_. 0) uh' oh' s'"
proof (induction "(uh, oh, s)" "(uh', oh', s')" rule: sock_step.induct)
  case (prog t)
  then show ?case using prog_step_sock_inv by blast
next
  case (open_sock sk)
  then show ?case using open_bsock_inv by blast
next
  case (setsockopt sk so shared alloc_ok optmem_max optname optlen uval uval2 r)
  from setsockopt_inv [OF setsockopt.prems setsockopt(1), of shared alloc_ok optmem_max optname optlen uval uval2] setsockopt show ?case by auto
next
  case (close sk)
  then obtain so where "bsocks s sk = Some so" by (cases "bsocks s sk") (auto simp: close_bsock_def)
  from close_bsock_inv [OF close.prems this] close show ?case by auto
next
  case (clone optmem_max sk newsk)
  then obtain so where "bsocks s sk = Some so" by (cases "bsocks s sk") (auto simp: clone_bsock_def)
  from clone_bsock_inv [OF clone.prems this clone(2), of optmem_max] clone show ?case by auto
next
  case (grace xs f ys)
  then show ?case using release_rcu_inv by fastforce
qed

lemma sock_reachable_inv: "sock_step\<^sup>*\<^sup>* sock_start (uh, oh, s) \<Longrightarrow> sock_inv (\<lambda>_. 0) uh oh s"
proof (induction "(uh, oh, s)" arbitrary: uh oh s rule: rtranclp_induct)
  case base
  then show ?case using sock_boot_inv by simp
next
  case (step y)
  then show ?case using sock_step_inv by (cases y) blast
qed

lemma exact_count:
  "sock_inv x uh oh s \<Longrightarrow> progs (bsys s) p = Some kp \<Longrightarrow> p \<notin> set (prog_work (bsys s)) \<Longrightarrow>
    kp_refcnt kp = int (card (prog_refs (bsys s) p) + oh p + card (filters_of s p))"
  using prog_invD(2) [OF sock_invD(1), of x uh oh s p] by (simp add: kprog_ok_def)

section \<open>Properties\<close>


text \<open>C11. Attaching an internal program: in every state reached from boot \<open>sk_attach_bpf\<close> returns without a fault. When it succeeds
  the socket was not locked, the descriptor names a program that is a socket filter, and the socket has a new filter object over that program,
  used by this socket alone; other sockets are as they were. When it fails no filter and no socket has changed, and the state is again one in which all
  counts are exact: no reference is left behind.\<close>

theorem sk_attach_bpf_outcome:
  assumes "sock_step\<^sup>*\<^sup>* sock_start (uh, oh, s)" and "bsocks s sk = Some so"
  shows "\<exists>r s'. sk_attach_bpf shared alloc_ok optmem_max ufd sk s = (r, s') \<and> (\<forall>u. r \<noteq> Undef u) \<and>
    (if r = Ok () then \<not> bs_locked so \<and> (\<exists>p kp. fds (psys (bsys s)) ufd = Some (ProgFile p) \<and> progs (bsys s') p = Some kp \<and> kp_type kp = PROG_TYPE_SOCKET_FILTER \<and>
        map_option bs_filter (bsocks s' sk) = Some (Some (filter_next s)) \<and> filters s' (filter_next s) = Some \<lparr>bf_refcnt = 1, bf_prog = p\<rparr> \<and> (\<forall>k. k \<noteq> sk \<longrightarrow> bsocks s' k = bsocks s k))
     else filters s' = filters s \<and> bsocks s' = bsocks s) \<and>
    (\<forall>p kp. progs (bsys s') p = Some kp \<and> p \<notin> set (prog_work (bsys s')) \<longrightarrow> kp_refcnt kp = int (card (prog_refs (bsys s') p) + oh p + card (filters_of s' p)))"
proof -
  note inv = sock_reachable_inv [OF assms(1)]
  obtain r s' where r: "sk_attach_bpf shared alloc_ok optmem_max ufd sk s = (r, s')" "\<forall>u. r \<noteq> Undef u" and inv': "sock_inv (\<lambda>_. 0) uh oh s'"
    and fail: "r \<noteq> Ok () \<longrightarrow> filters s' = filters s \<and> bsocks s' = bsocks s"
    and ok: "r = Ok () \<longrightarrow> \<not> bs_locked so \<and> (\<exists>p. fds (psys (bsys s)) ufd = Some (ProgFile p) \<and> attached s sk p s')"
    using sk_attach_bpf_inv [OF inv assms(2), of shared alloc_ok optmem_max ufd] by blast
  note cnt = exact_count [OF inv']
  have new: "\<exists>kp. progs (bsys s') p = Some kp \<and> kp_type kp = PROG_TYPE_SOCKET_FILTER \<and> filters s' (filter_next s) = Some \<lparr>bf_refcnt = 1, bf_prog = p\<rparr>"
    if at: "attached s sk p s'" for p
  proof -
    obtain fp where fp: "filters s' (filter_next s) = Some fp" "bf_prog fp = p" using at by (auto simp: attached_def)
    have "filter_users s (filter_next s) = {}" using sock_invD(4) [OF inv, of "filter_next s"] fresh_filter [OF inv] by (simp add: filter_ok_def)
    then have "k \<in> filter_users s' (filter_next s) \<longleftrightarrow> k = sk" for k using at by (cases "k = sk") (auto simp: attached_def filter_users_def)
    then have "filter_users s' (filter_next s) = {sk}" by blast
    then have "bf_refcnt fp = 1" using filter_ok_Some [OF inv' fp(1)] by simp
    then have "fp = \<lparr>bf_refcnt = 1, bf_prog = p\<rparr>" using fp(2) by simp
    then show ?thesis using filter_ok_Some [OF inv' fp(1)] fp by auto
  qed
  show ?thesis
  proof (cases "r = Ok ()")
    case True
    then obtain p where p: "fds (psys (bsys s)) ufd = Some (ProgFile p)" "attached s sk p s'" using ok by blast
    show ?thesis using True r ok p new [OF p(2)] cnt by (intro exI [of _ r] exI [of _ s']) (auto simp: attached_def)
  next
    case False
    then show ?thesis using r fail cnt by (intro exI [of _ r] exI [of _ s']) auto
  qed
qed

section \<open>Witnesses\<close>

lemma filter_size_fits: "(of_nat (bpf_prog_size n) :: u32) < 0xFFFFFFFF"
proof -
  have "(of_nat (bpf_prog_size n) :: u32) = 8 * of_nat (5 + n)" by (simp add: bpf_prog_size_def)
  then have "even (of_nat (bpf_prog_size n) :: u32)" by (simp only: even_mult_iff) simp
  moreover have "odd (0xFFFFFFFF :: u32)" by simp
  ultimately have "(of_nat (bpf_prog_size n) :: u32) \<noteq> 0xFFFFFFFF" by metis
  moreover have "w \<le> 0xFFFFFFFF" for w :: u32
  proof -
    have "unat w < 2 ^ LENGTH(32)" by (rule unsigned_less)
    then show ?thesis by (simp add: word_le_nat_alt)
  qed
  ultimately show ?thesis by (metis order_le_less)
qed

lemma ex_open:
  obtains s s' where "sock_step\<^sup>*\<^sup>* sock_start (\<lambda>_. 0, \<lambda>_. 0, s)" and "bsocks s 7 = Some \<lparr>bs_filter = None, bs_omem = 0, bs_locked = False\<rparr>"
    and "sk_attach_bpf False True 0xFFFFFFFF 3 7 s = (Ok (), s')" and "filter_next s = 0" and "fds (psys (bsys s)) 3 = Some (ProgFile 0)"
proof -
  obtain t where t: "prog_step prog_start (\<lambda>_. 0, \<lambda>_. 0, t)" "fds (psys t) 3 = Some (ProgFile 0)"
    and "\<exists>kp. progs t 0 = Some kp \<and> kp_type kp = PROG_TYPE_SOCKET_FILTER" by (rule ex_loaded)
  then obtain kp where kp: "progs t 0 = Some kp" "kp_type kp = PROG_TYPE_SOCKET_FILTER" by blast
  let ?s1 = "sock_boot\<lparr>bsys := t\<rparr>" and ?so = "\<lparr>bs_filter = None, bs_omem = 0, bs_locked = False\<rparr>"
  let ?s = "?s1\<lparr>bsocks := (bsocks ?s1)(7 \<mapsto> ?so)\<rparr>"
  have "filters_of sock_boot p = {}" for p by (simp add: filters_of_def sock_boot_def)
  then have "sock_step sock_start (\<lambda>_. 0, \<lambda>_. 0, ?s1)" using t(1) by (intro sock_step.prog) (simp add: sock_boot_def)
  moreover have "sock_step (\<lambda>_. 0, \<lambda>_. 0, ?s1) (\<lambda>_. 0, \<lambda>_. 0, ?s)" by (rule sock_step.open_sock) (simp add: sock_boot_def)
  ultimately have r: "sock_step\<^sup>*\<^sup>* sock_start (\<lambda>_. 0, \<lambda>_. 0, ?s)" by (meson converse_rtranclp_into_rtranclp r_into_rtranclp)
  let ?kp = "kp\<lparr>kp_refcnt := kp_refcnt kp + 1\<rparr>"
  obtain u where get: "bpf_prog_get False 3 t = (Ok 0, u)" "progs u 0 = Some ?kp" using t(2) kp by (simp add: bpf_prog_get_def prog_of_fd_def)
  have fits: "(of_nat (bpf_prog_size (length (pr_insns kp))) :: u32) \<le> 0xFFFFFFFF" "(of_nat (bpf_prog_size (length (pr_insns kp))) :: u32) < 0xFFFFFFFF"
    using filter_size_fits [of "length (pr_insns kp)"] by (auto intro: less_imp_le)
  have "fst (attach_prog True 0xFFFFFFFF 0 7 (?s\<lparr>bsys := u\<rparr>)) = Ok ()"
    using get(2) fits by (simp add: attach_prog_def Let_def bpf_filter_charge_def bpf_filter_size_def sock_boot_def)
  then obtain s' where att: "attach_prog True 0xFFFFFFFF 0 7 (?s\<lparr>bsys := u\<rparr>) = (Ok (), s')" by (metis prod.collapse)
  have so: "bsocks ?s 7 = Some ?so" "bsys ?s = t" by simp_all
  have "sk_attach_bpf False True 0xFFFFFFFF 3 7 ?s = (Ok (), s')"
    unfolding sk_attach_bpf_def so get(1) option.case prod.case result.case Let_def get(2) att using kp(2) by simp
  then show thesis by (rule that [OF r so(1)]) (use t(2) in \<open>simp_all add: sock_boot_def\<close>)
qed

theorem sk_attach_bpf_outcome_witness:
  "\<exists>s s' kp. bsocks (s :: sock_sys) 7 = Some \<lparr>bs_filter = None, bs_omem = 0, bs_locked = False\<rparr> \<and> sk_attach_bpf False True 0xFFFFFFFF 3 7 s = (Ok (), s') \<and>
    filters s' 0 = Some \<lparr>bf_refcnt = 1, bf_prog = 0\<rparr> \<and> progs (bsys s') 0 = Some kp \<and> kp_type kp = PROG_TYPE_SOCKET_FILTER"
proof -
  obtain s s' where s: "sock_step\<^sup>*\<^sup>* sock_start (\<lambda>_. 0, \<lambda>_. 0, s)" "bsocks s 7 = Some \<lparr>bs_filter = None, bs_omem = 0, bs_locked = False\<rparr>"
      "sk_attach_bpf False True 0xFFFFFFFF 3 7 s = (Ok (), s')" "filter_next s = 0" "fds (psys (bsys s)) 3 = Some (ProgFile 0)" by (rule ex_open)
  from sk_attach_bpf_outcome [OF s(1,2), of False True "0xFFFFFFFF" 3] show ?thesis using s(2-5) by auto
qed


end
