(* ===== verification/Spec2Isabelle.thy ===== *)
theory Spec2Isabelle
  imports Sk_Filter_Correct Seccomp_Correct Sk_Bpf
begin

text \<open>
  A verification library for the in-kernel programs of Linux 4.4.1 (\<^verbatim>\<open>src/linux-4.4.1\<close>) and the data
  structures they rest on. User space hands the kernel small programs: classic packet filters attached to
  sockets, system call filters of seccomp, and internal ("extended") BPF programs that share maps with user space.
  The kernel checks them, translates the classic ones, stores them in reference-counted objects, and interprets them
  on packets and system calls. The repository also holds a learner's copy of the kernel's list header
  (\<^verbatim>\<open>src/src/list_example/list.h\<close>), which is modelled with the kernel's own.

  \<^bold>\<open>Parts, theories and sources.\<close>

  \<^item> \<open>Kernel_Prelude\<close>: machine words, results (\<open>Ok\<close> a value, \<open>Err\<close> an errno, \<open>Undef\<close> undefined behaviour of C), runs that may
    not end (\<open>run\<close>), byte memory with little-endian accesses, and the lemmas on them the other theories share.
  \<^item> \<open>Bpf_Insn\<close>: the two instruction formats and the macros that build them (\<^verbatim>\<open>include/uapi/linux/bpf_common.h\<close>,
    \<^verbatim>\<open>include/uapi/linux/bpf.h\<close>, \<^verbatim>\<open>include/linux/filter.h\<close>).
  \<^item> \<open>Skbuff\<close>: socket buffers and the reading of byte ranges from them (\<^verbatim>\<open>net/core/skbuff.c\<close>, the packet loads of
    \<^verbatim>\<open>kernel/bpf/core.c\<close>), proved to read the payload whatever its split into fragments.
  \<^item> \<open>Bpf_Core\<close>: the interpreter \<open>__bpf_prog_run\<close> of \<^verbatim>\<open>kernel/bpf/core.c\<close>, label by label, with every undefined
    behaviour of its C code (division, shifts, unmapped memory, register numbers) as a fault.
  \<^item> \<open>Bpf_Check\<close>, \<open>Bpf_Classic\<close>: the checker of classic filters (\<open>bpf_check_classic\<close> and \<open>check_load_and_stores\<close> of
    \<^verbatim>\<open>net/core/filter.c\<close>); the accumulator machine that specifies classic filters; accepted filters end, do not fault and
    do not read uninitialised scratch words.
  \<^item> \<open>Bpf_Convert\<close>, \<open>Bpf_Conv_Layout\<close>, \<open>Bpf_Conv_Correct\<close>: the translation of classic to internal filters
    (\<open>bpf_convert_filter\<close> with its passes); where the code of each instruction ends up; the translated filter returns
    what the accumulator machine returns (a simulation per instruction block).
  \<^item> \<open>Sk_Filter\<close>, \<open>Sk_Filter_Correct\<close>: creating, migrating, attaching, charging, reading back, detaching and cloning
    filters of sockets (\<^verbatim>\<open>net/core/filter.c\<close>, \<^verbatim>\<open>net/core/sock.c\<close>) over an explicit heap in which every allocation may
    fail; no leak, no double free, and end to end: an attached filter runs as the program user space passed.
  \<^item> \<open>Seccomp\<close>, \<open>Seccomp_Correct\<close>: \<^verbatim>\<open>kernel/seccomp.c\<close> and its part of fork: the tree of shared filters with its
    reference counts, installation with thread synchronisation, the system call hook. A step relation over tasks
    gives the reachable states; reference counts are exact in all of them and no step makes a task less confined.
  \<^item> \<open>Klist\<close>: circular and hash lists (\<^verbatim>\<open>include/linux/list.h\<close>) as pointer structures; the locale \<open>intrusive_list\<close> is
    the contract of both, interpreted as \<open>dl\<close> and \<open>hl\<close>.
  \<^item> \<open>Jhash\<close>: the hash functions of \<^verbatim>\<open>include/linux/jhash.h\<close>.
  \<^item> \<open>Bpf_Map\<close>, \<open>Bpf_Array\<close>, \<open>Bpf_Htab\<close>: the contract of map operations (locale \<open>bpf_map_ops\<close>) and the array and hash maps
    (\<^verbatim>\<open>kernel/bpf/arraymap.c\<close>, \<^verbatim>\<open>kernel/bpf/hashtab.c\<close>) that fulfil it (interpretations \<open>arr\<close> and \<open>htb\<close>).
  \<^item> \<open>Bpf_Syscall\<close>: the map commands of \<^verbatim>\<open>kernel/bpf/syscall.c\<close>: descriptors, reference counts, memory charging, deferred
    freeing; again an instance of \<open>bpf_map_ops\<close> (\<open>mp\<close>) and a step relation (\<open>map_step\<close>).
  \<^item> \<open>Bpf_Cfg\<close>: the control flow check of the verifier (\<open>check_cfg\<close> of \<^verbatim>\<open>kernel/bpf/verifier.c\<close>). It decides exactly whether the
    flow graph is closed, connected and acyclic; the interpreter ends on accepted programs, tail calls included.
  \<^item> \<open>Bpf_Used_Maps\<close>: how the verifier binds a program to its maps (\<open>replace_map_fd_with_map_ptr\<close>, \<open>release_maps\<close>), with the
    references on maps and files.
  \<^item> \<open>Bpf_Fixup\<close>: how accesses to the context are rewritten (\<open>convert_ctx_accesses\<close>, \<open>adjust_branches\<close>); the locale
    \<open>ctx_converter\<close> is what the rewriting needs from the converter of a program type, interpreted by that of the
    networking types.
  \<^item> \<open>Bpf_Verifier\<close>: the symbolic execution of the verifier (\<open>do_check\<close> of \<^verbatim>\<open>kernel/bpf/verifier.c\<close>): types of registers and stack slots,
    the check of every instruction, the stack of pending branches, pruning of equivalent states.
  \<^item> \<open>Bpf_World\<close>: what the types mean for the values of a running program (\<open>val_ok\<close>, \<open>state_ok\<close>), which memory a program may
    touch, what helpers promise; the locale \<open>ctx_checker\<close> is what the verifier needs from the access check of a program type.
  \<^item> \<open>Bpf_Verifier_Sound\<close>, \<open>Bpf_Verifier_Total\<close>: each step of the interpreter follows a step of the symbolic execution (a simulation),
    pruning included; the verifier itself ends and reads no array out of its bounds.
  \<^item> \<open>Bpf_Helpers\<close>: prototypes of the helper functions and operations of the program types (\<^verbatim>\<open>kernel/bpf/helpers.c\<close>,
    \<^verbatim>\<open>net/core/filter.c\<close>, \<^verbatim>\<open>kernel/trace/bpf_trace.c\<close>), with the interpretations \<open>skf_ctx\<close> and \<open>kprobe_ctx\<close> of \<open>ctx_checker\<close>.
  \<^item> \<open>Bpf_Prog_Check\<close>: the verifier as a whole (\<open>bpf_check\<close>): accepted programs run safely, references on maps are exact on every path,
    and three programs that pass although they should not.
  \<^item> \<open>Bpf_Prog\<close>: programs as objects (\<open>bpf_prog_load\<close>, \<open>bpf_prog_get\<close>, \<open>bpf_prog_put\<close> and the descriptors of \<^verbatim>\<open>kernel/bpf/syscall.c\<close>,
    \<open>bpf_prog_select_runtime\<close> of \<^verbatim>\<open>kernel/bpf/core.c\<close>) and the arrays of programs that tail calls jump through
    (\<^verbatim>\<open>kernel/bpf/arraymap.c\<close>). The state \<open>prog_sys\<close> extends that of the maps by the programs, the slots of the arrays, and the
    programs that wait for a grace period or to be freed.
  \<^item> \<open>Bpf_Prog_Inv\<close>, \<open>Bpf_Prog_Life\<close>: the invariant \<open>prog_inv\<close> of programs, maps and arrays together (every count is the number of descriptors,
    slots, programs and outside holders that refer to the object) and that every operation and the step relation \<open>prog_step\<close> keep it.
  \<^item> \<open>Bpf_Prog_Load\<close>: what loading leaves behind on every path, what closing gives back, that deferred work runs without faults; a
    program that makes the loader follow a null pointer, and one that drives the account of its user below zero.
  \<^item> \<open>Bpf_Tail_Call\<close>: in every reachable state, every live program passed the verifier, and callers and callees of tail calls have one type
    and one way of execution.
  \<^item> \<open>Sk_Bpf\<close>: internal programs attached to sockets (\<open>sk_attach_bpf\<close> with the filter objects of \<^verbatim>\<open>net/core/filter.c\<close>, the socket options,
    \<open>sk_destruct\<close> and \<open>sk_clone_lock\<close> of \<^verbatim>\<open>net/core/sock.c\<close>). The state \<open>sock_sys\<close> puts filters and sockets over that of the programs, where the filters are among
    the outside holders; \<open>sock_step\<close> interleaves both, and what a socket runs is a live, verified socket filter. A clone whose charge
    fails is left out of the steps; \<open>Sk_Filter_Correct\<close> shows what it breaks.

  \<^bold>\<open>State and operations.\<close> A C structure is a record, memory that is shared by pointer is a map from addresses to
  objects in the state, and a function that changes state returns the new one. Sources of non-determinism outside the
  code are arguments: the outcome of each allocation, whether user memory can be read, the descriptor that is
  free, the order of threads. Helper functions, packets behind a context and program arrays are the environment
  of the interpreter (\<open>bpf_env\<close>); structure offsets the compiler chooses are the fields of \<open>skb_layout\<close> and \<open>ctx_layout\<close>.
  Operations that hold a lock are single steps; grace periods and work queues are explicit lists of pending work.

  \<^bold>\<open>Bounds and fuel.\<close> Loops over pointer structures are partial functions into \<open>option\<close>, and the theorems show that they return from
  every reachable state. The interpreter takes fuel: accepted classic programs need at most their length (at most
  six instructions for each classic one after translation), accepted internal programs at most 34 times the
  length of the longest program, because at most 33 tail calls are counted. Lengths of programs are natural numbers;
  they are at most 4096 where the code checks it.

  \<^bold>\<open>Not modelled.\<close> The just-in-time compilers (whether one takes a program is an argument), the BPF file system, the bodies of helper
  functions, the text of the verifier's log, arrays of perf events, attaching internal programs to events (an outside holder of references here), socket options other than those for filters, the
  32-bit compatibility layer of seccomp, allocation and modification of socket buffers, and the rest of the kernel:
  drivers, file systems, protocols, memory management, scheduling and architecture code, which interact with
  hardware or need a model of concurrency at the level of the memory system.
\<close>

end
